(* ===== verification/Nachos_Prelude.thy ===== *)
theory Nachos_Prelude
  imports Main "HOL-Library.Word" "HOL-Library.Signed_Division"
begin

section \<open>Prelude: failures, results and the C idioms shared by every component\<close>

text \<open>
  What every component theory uses: the ways in which the C++ code of Nachos stops
  without returning (a failed \<open>ASSERT\<close>, an access outside an array, a null pointer, a
  trap of the host processor, a loop that does not end), the result type of an operation
  that may stop that way, sequencing of such operations, bounds-checked array access,
  the macros of \<open>threads/utility.h\<close>, and the generic lemmas on lists the components share.
\<close>

subsection \<open>Failures and results\<close>

text \<open>
  \<open>Assertion\<close> is a failed \<open>ASSERT\<close> (the kernel aborts); \<open>OutOfBounds\<close> is an index outside
  an array, undefined behaviour in C++; \<open>NullPointer\<close> a dereference of \<open>NULL\<close>; \<open>HostTrap\<close> an
  arithmetic trap of the machine Nachos runs on; \<open>Diverges\<close> a loop that used up the fuel
  its model was given; \<open>Halted\<close> the regular end, \<open>Interrupt::Halt\<close>, after which \<open>Cleanup\<close>
  leaves the process and nothing that follows the call runs.
\<close>

datatype failure = Assertion | OutOfBounds | NullPointer | HostTrap | Diverges | Halted

type_synonym 'a res = "failure + 'a"

named_theorems res_simps \<open>rewriting of sequenced results\<close>

definition andThen :: "'a res \<Rightarrow> ('a \<Rightarrow> 'b res) \<Rightarrow> 'b res" where
  "andThen m f = (case m of Inl e \<Rightarrow> Inl e | Inr x \<Rightarrow> f x)"

definition ASSERT :: "bool \<Rightarrow> 'a res \<Rightarrow> 'a res" where
  "ASSERT condition m = (if condition then m else Inl Assertion)"

definition isOk :: "'a res \<Rightarrow> bool" where
  "isOk m \<longleftrightarrow> (case m of Inl _ \<Rightarrow> False | Inr _ \<Rightarrow> True)"

lemma andThen_Inl [simp, res_simps]: "andThen (Inl e) f = Inl e"
  by (simp add: andThen_def)

lemma andThen_Inr [simp, res_simps]: "andThen (Inr x) f = f x"
  by (simp add: andThen_def)

lemma andThen_eq_Inr [res_simps]:
  "andThen m f = Inr y \<longleftrightarrow> (\<exists>x. m = Inr x \<and> f x = Inr y)"
  by (cases m) auto

lemma andThen_eq_Inl [res_simps]:
  "andThen m f = Inl e \<longleftrightarrow> m = Inl e \<or> (\<exists>x. m = Inr x \<and> f x = Inl e)"
  by (cases m) auto

lemma andThen_InrE:
  assumes "andThen m f = Inr y"
  obtains x where "m = Inr x" and "f x = Inr y"
  using assms by (auto simp: res_simps)

lemma andThen_cong [fundef_cong]:
  "m = m' \<Longrightarrow> (\<And>x. m' = Inr x \<Longrightarrow> f x = g x) \<Longrightarrow> andThen m f = andThen m' g"
  by (cases m) auto

lemma andThen_assoc: "andThen (andThen m f) g = andThen m (\<lambda>x. andThen (f x) g)"
  by (cases m) auto

lemma ASSERT_True [simp, res_simps]: "ASSERT True m = m"
  by (simp add: ASSERT_def)

lemma ASSERT_False [simp, res_simps]: "ASSERT False m = Inl Assertion"
  by (simp add: ASSERT_def)

lemma ASSERT_eq_Inr [res_simps]: "ASSERT c m = Inr y \<longleftrightarrow> c \<and> m = Inr y"
  by (simp add: ASSERT_def)

lemma ASSERT_cong [fundef_cong]:
  "c = c' \<Longrightarrow> (c' \<Longrightarrow> m = m') \<Longrightarrow> ASSERT c m = ASSERT c' m'"
  by (simp add: ASSERT_def)

lemma isOk_simps [simp, res_simps]: "isOk (Inl e) = False" "isOk (Inr x) = True"
  by (simp_all add: isOk_def)

lemma isOk_iff: "isOk m \<longleftrightarrow> (\<exists>x. m = Inr x)"
  by (cases m) auto

text \<open>Performing one operation for each element of a list, stopping at the first failure.\<close>

fun foldRes :: "('l \<Rightarrow> 'a \<Rightarrow> 'l res) \<Rightarrow> 'l \<Rightarrow> 'a list \<Rightarrow> 'l res" where
  "foldRes f l [] = Inr l"
| "foldRes f l (x # xs) = andThen (f l x) (\<lambda>l'. foldRes f l' xs)"

lemma foldRes_append: "foldRes f l (xs @ ys) = andThen (foldRes f l xs) (\<lambda>l'. foldRes f l' ys)"
  by (induction xs arbitrary: l) (simp_all add: andThen_assoc)

subsection \<open>Array access with the bounds written out\<close>

definition fetch :: "'a list \<Rightarrow> int \<Rightarrow> 'a res" where
  "fetch xs i = (if 0 \<le> i \<and> i < int (length xs) then Inr (xs ! nat i) else Inl OutOfBounds)"

definition store :: "'a list \<Rightarrow> int \<Rightarrow> 'a \<Rightarrow> 'a list res" where
  "store xs i v =
     (if 0 \<le> i \<and> i < int (length xs) then Inr (xs[nat i := v]) else Inl OutOfBounds)"

lemma fetch_nat [simp]: "k < length xs \<Longrightarrow> fetch xs (int k) = Inr (xs ! k)"
  by (simp add: fetch_def)

lemma store_nat [simp]: "k < length xs \<Longrightarrow> store xs (int k) v = Inr (xs[k := v])"
  by (simp add: store_def)

lemma fetch_eq_Inr:
  "fetch xs i = Inr x \<longleftrightarrow> 0 \<le> i \<and> i < int (length xs) \<and> x = xs ! nat i"
  by (auto simp: fetch_def)

lemma store_eq_Inr:
  "store xs i v = Inr ys \<longleftrightarrow> 0 \<le> i \<and> i < int (length xs) \<and> ys = xs[nat i := v]"
  by (auto simp: store_def)

subsection \<open>The macros of utility.h\<close>

definition divRoundDown :: "int \<Rightarrow> int \<Rightarrow> int" where
  "divRoundDown n s = n sdiv s"

definition divRoundUp :: "int \<Rightarrow> int \<Rightarrow> int" where
  "divRoundUp n s = (n sdiv s) + (if n smod s > 0 then 1 else 0)"

lemma sdiv_nonneg: "0 \<le> a \<Longrightarrow> 0 \<le> b \<Longrightarrow> (a::int) sdiv b = a div b"
  by (cases "a = 0"; cases "b = 0") (auto simp: signed_divide_int_def sgn_if)

lemma smod_nonneg: "0 \<le> a \<Longrightarrow> 0 \<le> b \<Longrightarrow> (a::int) smod b = a mod b"
  by (cases "a = 0") (auto simp: signed_modulo_int_def sgn_if)

lemma smod_nonpos: "a \<le> 0 \<Longrightarrow> 0 < b \<Longrightarrow> (a::int) smod b \<le> 0"
  by (cases "a = 0") (auto simp: signed_modulo_int_def sgn_if)

lemma divRoundDown_nonneg: "0 \<le> n \<Longrightarrow> 0 < s \<Longrightarrow> divRoundDown n s = n div s"
  by (simp add: divRoundDown_def sdiv_nonneg)

lemma divRoundUp_nonneg:
  "0 \<le> n \<Longrightarrow> 0 < s \<Longrightarrow> divRoundUp n s = n div s + (if n mod s > 0 then 1 else 0)"
  by (simp add: divRoundUp_def sdiv_nonneg smod_nonneg)

lemma divRoundUp_ceiling:
  assumes "0 \<le> n" and "0 < s"
  shows "n \<le> divRoundUp n s * s" and "divRoundUp n s * s < n + s"
proof -
  obtain q r where q: "q = n div s" and r: "r = n mod s" and n: "n = s * q + r"
    by (metis mult_div_mod_eq)
  have b: "0 \<le> r" "r < s" using assms r by simp_all
  have d: "divRoundUp n s = q + (if 0 < r then 1 else 0)"
    by (simp add: divRoundUp_nonneg [OF assms] q r)
  show "n \<le> divRoundUp n s * s" and "divRoundUp n s * s < n + s"
    unfolding d using b n by (auto simp: algebra_simps)
qed

lemma divRoundUp_bounds: "0 \<le> n \<Longrightarrow> 0 < s \<Longrightarrow> 0 \<le> divRoundUp n s"
  by (simp add: divRoundUp_nonneg pos_imp_zdiv_nonneg_iff)

subsection \<open>Generic list lemmas\<close>

lemma take_update_drop:
  "i < length xs \<Longrightarrow> xs[i := v] = take i xs @ v # drop (Suc i) xs"
  by (rule upd_conv_take_nth_drop)

lemma distinct_nth_index:
  "distinct xs \<Longrightarrow> i < length xs \<Longrightarrow> j < length xs \<Longrightarrow> xs ! i = xs ! j \<longleftrightarrow> i = j"
  by (rule nth_eq_iff_index_eq)

lemma distinct_bounded_length:
  assumes "distinct as" and "\<And>a. a \<in> set as \<Longrightarrow> a < n"
  shows "length as \<le> n"
proof -
  have "card (set as) \<le> card {..<n}" using assms(2) by (intro card_mono) auto
  then show ?thesis using distinct_card [OF assms(1)] by simp
qed

lemma length_filter_upt_le: "length (filter P [0..<n]) \<le> n"
  using length_filter_le [of P "[0..<n]"] by simp

end
