(* ===== verification/Nachos_List.thy ===== *)
theory Nachos_List
  imports Nachos_Prelude "HOL-Library.Multiset"
begin

section \<open>Singly linked lists: threads/list.cc\<close>

text \<open>
  The class \<open>List\<close> of \<open>threads/list.h\<close> and \<open>threads/list.cc\<close>, with the pointers of
  the C++ code: a store of \<open>ListElement\<close>s at addresses, the \<open>first\<close> and \<open>last\<close> pointers
  and the address the allocator hands out next. Every operation is translated pointer
  update by pointer update. The second half states what the class promises as the locale
  \<open>keyed_list\<close> (an abstract sequence of keyed items) and interprets it both on the pointer
  structure and on plain HOL lists, which the other components use for their queues.
\<close>

subsection \<open>The data\<close>

record 'a ListElement =
  le_item :: 'a
  le_key :: int
  le_next :: "nat option"

record 'a List =
  nodes :: "nat \<rightharpoonup> 'a ListElement"
  l_first :: "nat option"
  l_last :: "nat option"
  brk :: nat

definition ListElement_new :: "'a \<Rightarrow> int \<Rightarrow> 'a ListElement" where
  "ListElement_new itemPtr sortKey = \<lparr>le_item = itemPtr, le_key = sortKey, le_next = None\<rparr>"

definition List_new :: "'a List" where
  "List_new = \<lparr>nodes = Map.empty, l_first = None, l_last = None, brk = 0\<rparr>"

text \<open>\<open>new ListElement(item, key)\<close>: the element is at a fresh address.\<close>

definition alloc :: "'a List \<Rightarrow> 'a ListElement \<Rightarrow> nat \<times> 'a List" where
  "alloc l e = (brk l, l\<lparr>nodes := (nodes l)(brk l \<mapsto> e), brk := Suc (brk l)\<rparr>)"

text \<open>Reading and writing through a \<open>ListElement *\<close>; a null or stale pointer is a failure.\<close>

definition deref :: "'a List \<Rightarrow> nat option \<Rightarrow> 'a ListElement res" where
  "deref l p = (case p of None \<Rightarrow> Inl NullPointer
     | Some a \<Rightarrow> (case nodes l a of None \<Rightarrow> Inl NullPointer | Some e \<Rightarrow> Inr e))"

definition set_next :: "'a List \<Rightarrow> nat option \<Rightarrow> nat option \<Rightarrow> 'a List res" where
  "set_next l p q = (case p of None \<Rightarrow> Inl NullPointer
     | Some a \<Rightarrow> (case nodes l a of None \<Rightarrow> Inl NullPointer
        | Some e \<Rightarrow> Inr (l\<lparr>nodes := (nodes l)(a \<mapsto> e\<lparr>le_next := q\<rparr>)\<rparr>)))"

subsection \<open>The operations\<close>

definition IsEmpty :: "'a List \<Rightarrow> bool" where
  "IsEmpty l \<longleftrightarrow> l_first l = None"

definition Append :: "'a List \<Rightarrow> 'a \<Rightarrow> 'a List res" where
  "Append l x =
     (let (element, l1) = alloc l (ListElement_new x 0)
      in if IsEmpty l1 then Inr (l1\<lparr>l_first := Some element, l_last := Some element\<rparr>)
         else andThen (set_next l1 (l_last l1) (Some element))
           (\<lambda>l2. Inr (l2\<lparr>l_last := Some element\<rparr>)))"

definition Prepend :: "'a List \<Rightarrow> 'a \<Rightarrow> 'a List res" where
  "Prepend l x =
     (let (element, l1) = alloc l (ListElement_new x 0)
      in if IsEmpty l1 then Inr (l1\<lparr>l_first := Some element, l_last := Some element\<rparr>)
         else andThen (set_next l1 (Some element) (l_first l1))
           (\<lambda>l2. Inr (l2\<lparr>l_first := Some element\<rparr>)))"

text \<open>
  The loop of \<open>SortedInsert\<close>: \<open>ptr\<close> walks until the element after it is bigger, and the
  new element goes in between; at the end of the list it goes after \<open>last\<close>.
\<close>

fun insertWalk :: "nat \<Rightarrow> 'a List \<Rightarrow> nat option \<Rightarrow> nat \<Rightarrow> int \<Rightarrow> 'a List res" where
  "insertWalk 0 l ptr element sortKey = Inl Diverges"
| "insertWalk (Suc fuel) l ptr element sortKey =
     andThen (deref l ptr) (\<lambda>p.
       if le_next p \<noteq> None then
         andThen (deref l (le_next p)) (\<lambda>n.
           if sortKey < le_key n then
             andThen (set_next l (Some element) (le_next p)) (\<lambda>l1.
               set_next l1 ptr (Some element))
           else insertWalk fuel l (le_next p) element sortKey)
       else andThen (set_next l (l_last l) (Some element)) (\<lambda>l1.
              Inr (l1\<lparr>l_last := Some element\<rparr>)))"

definition SortedInsert :: "'a List \<Rightarrow> 'a \<Rightarrow> int \<Rightarrow> 'a List res" where
  "SortedInsert l x sortKey =
     (let (element, l1) = alloc l (ListElement_new x sortKey)
      in if IsEmpty l1 then Inr (l1\<lparr>l_first := Some element, l_last := Some element\<rparr>)
         else andThen (deref l1 (l_first l1)) (\<lambda>f.
           if sortKey < le_key f then
             andThen (set_next l1 (Some element) (l_first l1))
               (\<lambda>l2. Inr (l2\<lparr>l_first := Some element\<rparr>))
           else insertWalk (brk l1) l1 (l_first l1) element sortKey))"

text \<open>
  \<open>SortedRemove\<close> returns the first item and its key, or \<open>NULL\<close> (\<open>None\<close>) on the empty list;
  \<open>delete element\<close> takes the element out of the store.
\<close>

definition SortedRemove :: "'a List \<Rightarrow> ((int \<times> 'a) option \<times> 'a List) res" where
  "SortedRemove l =
     (if IsEmpty l then Inr (None, l)
      else andThen (deref l (l_first l)) (\<lambda>element.
        let l1 = (if l_first l = l_last l then l\<lparr>l_first := None, l_last := None\<rparr>
                  else l\<lparr>l_first := le_next element\<rparr>)
        in Inr (Some (le_key element, le_item element),
                l1\<lparr>nodes := (nodes l1)(the (l_first l) := None)\<rparr>)))"

definition Remove :: "'a List \<Rightarrow> ('a option \<times> 'a List) res" where
  "Remove l = andThen (SortedRemove l) (\<lambda>(r, l'). Inr (map_option snd r, l'))"

text \<open>\<open>Mapcar\<close> applies \<open>func\<close> to each item in turn; its effect on the state \<open>s\<close> is threaded.\<close>

fun mapWalk :: "nat \<Rightarrow> 'a List \<Rightarrow> nat option \<Rightarrow> ('a \<Rightarrow> 's \<Rightarrow> 's) \<Rightarrow> 's \<Rightarrow> 's res" where
  "mapWalk fuel l None func s = Inr s"
| "mapWalk 0 l (Some a) func s = Inl Diverges"
| "mapWalk (Suc fuel) l (Some a) func s =
     andThen (deref l (Some a)) (\<lambda>p. mapWalk fuel l (le_next p) func (func (le_item p) s))"

definition Mapcar :: "'a List \<Rightarrow> ('a \<Rightarrow> 's \<Rightarrow> 's) \<Rightarrow> 's \<Rightarrow> 's res" where
  "Mapcar l func s = mapWalk (brk l) l (l_first l) func s"

text \<open>The destructor: \<open>while (Remove() != NULL);\<close>, at most one turn per element.\<close>

fun deleteWalk :: "nat \<Rightarrow> 'a List \<Rightarrow> 'a List res" where
  "deleteWalk 0 l = Inl Diverges"
| "deleteWalk (Suc fuel) l =
     andThen (Remove l) (\<lambda>(x, l'). case x of None \<Rightarrow> Inr l' | Some _ \<Rightarrow> deleteWalk fuel l')"

definition List_delete :: "'a List \<Rightarrow> 'a List res" where
  "List_delete l = deleteWalk (Suc (brk l)) l"

subsection \<open>The sequence a pointer structure stands for\<close>

text \<open>
  \<open>seg h p as q\<close>: following \<open>next\<close> from \<open>p\<close> visits the addresses \<open>as\<close> and ends at \<open>q\<close>.
  \<open>represents l xs\<close>: the list object \<open>l\<close> holds exactly the keyed items \<open>xs\<close>, in order, its
  \<open>last\<close> pointer is right, and no other element is allocated (nothing leaks).
\<close>

primrec seg :: "(nat \<rightharpoonup> 'a ListElement) \<Rightarrow> nat option \<Rightarrow> nat list \<Rightarrow> nat option \<Rightarrow> bool" where
  "seg h p [] q \<longleftrightarrow> p = q"
| "seg h p (a # as) q \<longleftrightarrow> p = Some a \<and> (\<exists>e. h a = Some e \<and> seg h (le_next e) as q)"

definition entry :: "(nat \<rightharpoonup> 'a ListElement) \<Rightarrow> nat \<Rightarrow> int \<times> 'a" where
  "entry h a = (le_key (the (h a)), le_item (the (h a)))"

definition represents :: "'a List \<Rightarrow> (int \<times> 'a) list \<Rightarrow> bool" where
  "represents l xs \<longleftrightarrow> (\<exists>as. seg (nodes l) (l_first l) as None \<and> distinct as \<and>
     dom (nodes l) = set as \<and> (\<forall>a \<in> set as. a < brk l) \<and>
     map (entry (nodes l)) as = xs \<and>
     l_last l = (if as = [] then None else Some (last as)))"

text \<open>What the operations do on the sequence.\<close>

definition seq_append :: "(int \<times> 'a) list \<Rightarrow> 'a \<Rightarrow> (int \<times> 'a) list" where
  "seq_append xs x = xs @ [(0, x)]"

definition seq_prepend :: "(int \<times> 'a) list \<Rightarrow> 'a \<Rightarrow> (int \<times> 'a) list" where
  "seq_prepend xs x = (0, x) # xs"

fun seq_insert :: "(int \<times> 'a) list \<Rightarrow> 'a \<Rightarrow> int \<Rightarrow> (int \<times> 'a) list" where
  "seq_insert [] x k = [(k, x)]"
| "seq_insert ((k', y) # ys) x k =
     (if k < k' then (k, x) # (k', y) # ys else (k', y) # seq_insert ys x k)"

fun seq_remove :: "(int \<times> 'a) list \<Rightarrow> (int \<times> 'a) option \<times> (int \<times> 'a) list" where
  "seq_remove [] = (None, [])"
| "seq_remove (e # es) = (Some e, es)"

lemma seg_append [simp]: "seg h p (as @ bs) q \<longleftrightarrow> (\<exists>r. seg h p as r \<and> seg h r bs q)"
  by (induction as arbitrary: p) auto

lemma seg_upd [simp]: "a \<notin> set as \<Longrightarrow> seg (h(a := v)) p as q = seg h p as q"
  by (induction as arbitrary: p) auto

lemma seg_frame:
  "(\<And>a. a \<in> set as \<Longrightarrow> h' a = h a) \<Longrightarrow> seg h' p as q = seg h p as q"
  by (induction as arbitrary: p) auto

lemma seg_dom: "seg h p as q \<Longrightarrow> a \<in> set as \<Longrightarrow> \<exists>e. h a = Some e"
  by (induction as arbitrary: p) auto

lemma seg_None_iff: "seg h p as None \<Longrightarrow> p = None \<longleftrightarrow> as = []"
  by (cases as) auto

lemma entry_upd [simp]: "a \<noteq> b \<Longrightarrow> entry (h(b := v)) a = entry h a"
  by (simp add: entry_def)

lemma map_entry_upd [simp]:
  "b \<notin> set as \<Longrightarrow> map (entry (h(b := v))) as = map (entry h) as"
  by (rule map_cong) (auto simp: entry_def)

lemma entry_set_next [simp]:
  "h a = Some e \<Longrightarrow> entry (h(a \<mapsto> e\<lparr>le_next := q\<rparr>)) b = entry h b"
  by (simp add: entry_def)

lemma map_entry_set_next [simp]:
  "h a = Some e \<Longrightarrow> map (entry (h(a \<mapsto> e\<lparr>le_next := q\<rparr>))) as = map (entry h) as"
  by (rule map_cong) simp_all

lemma representsE:
  assumes "represents l xs"
  obtains as where "seg (nodes l) (l_first l) as None" and "distinct as"
    and "dom (nodes l) = set as" and "\<And>a. a \<in> set as \<Longrightarrow> a < brk l"
    and "xs = map (entry (nodes l)) as"
    and "l_last l = (if as = [] then None else Some (last as))"
  using assms unfolding represents_def by blast

lemma representsI:
  "seg (nodes l) (l_first l) as None \<Longrightarrow> distinct as \<Longrightarrow> dom (nodes l) = set as \<Longrightarrow>
   (\<And>a. a \<in> set as \<Longrightarrow> a < brk l) \<Longrightarrow> map (entry (nodes l)) as = xs \<Longrightarrow>
   l_last l = (if as = [] then None else Some (last as)) \<Longrightarrow> represents l xs"
  unfolding represents_def by blast

lemma represents_brk: "represents l xs \<Longrightarrow> nodes l (brk l) = None"
  by (auto elim!: representsE)

subsection \<open>Every operation does on the pointers what it promises on the sequence\<close>

lemma represents_new: "represents List_new []"
  by (rule representsI [of _ "[]"]) (auto simp: List_new_def)

lemma IsEmpty_represents: "represents l xs \<Longrightarrow> IsEmpty l \<longleftrightarrow> xs = []"
  by (auto elim!: representsE simp: IsEmpty_def dest: seg_None_iff)

lemma Append_represents:
  assumes "represents l xs"
  shows "\<exists>l'. Append l x = Inr l' \<and> represents l' (seq_append xs x)"
proof -
  obtain as where as: "seg (nodes l) (l_first l) as None" "distinct as" "dom (nodes l) = set as"
      "\<And>a. a \<in> set as \<Longrightarrow> a < brk l" "xs = map (entry (nodes l)) as"
      "l_last l = (if as = [] then None else Some (last as))"
    using assms by (rule representsE) blast
  have fresh: "brk l \<notin> set as" using as(4) by blast
  show ?thesis
  proof (cases as rule: rev_cases)
    case Nil
    with as show ?thesis
      by (auto simp: Append_def alloc_def IsEmpty_def ListElement_new_def seq_append_def entry_def
          intro!: representsI [of _ "[brk l]"] split: if_splits)
  next
    case (snoc bs z)
    with as obtain e where e: "nodes l z = Some e" "le_next e = None" by auto
    have z: "z \<noteq> brk l" using fresh snoc by auto
    obtain a where first: "l_first l = Some a" using seg_None_iff [OF as(1)] snoc by auto
    let ?h = "(nodes l)(brk l \<mapsto> ListElement_new x 0, z \<mapsto> e\<lparr>le_next := Some (brk l)\<rparr>)"
    let ?l = "l\<lparr>nodes := ?h, l_last := Some (brk l), brk := Suc (brk l)\<rparr>"
    have "Append l x = Inr ?l"
      using first as(6) snoc e z by (simp add: Append_def alloc_def IsEmpty_def set_next_def)
    moreover have "represents ?l (seq_append xs x)"
    proof (rule representsI [of _ "as @ [brk l]"])
      show "seg (nodes ?l) (l_first ?l) (as @ [brk l]) None"
        using as(1,2) snoc fresh z by (auto simp: ListElement_new_def)
      show "dom (nodes ?l) = set (as @ [brk l])" using as(3) snoc by auto
      show "map (entry (nodes ?l)) (as @ [brk l]) = seq_append xs x"
        using as(2,5) e z fresh snoc
        by (auto simp: seq_append_def entry_def ListElement_new_def)
    qed (use as fresh in \<open>auto dest: less_imp_le intro: less_SucI\<close>)
    ultimately show ?thesis by blast
  qed
qed

lemma Prepend_represents:
  assumes "represents l xs"
  shows "\<exists>l'. Prepend l x = Inr l' \<and> represents l' (seq_prepend xs x)"
proof -
  obtain as where as: "seg (nodes l) (l_first l) as None" "distinct as" "dom (nodes l) = set as"
      "\<And>a. a \<in> set as \<Longrightarrow> a < brk l" "xs = map (entry (nodes l)) as"
      "l_last l = (if as = [] then None else Some (last as))"
    using assms by (rule representsE) blast
  have fresh: "brk l \<notin> set as" using as(4) by blast
  let ?e = "(ListElement_new x 0)\<lparr>le_next := l_first l\<rparr>"
  let ?l = "l\<lparr>nodes := (nodes l)(brk l \<mapsto> ?e), l_first := Some (brk l),
              l_last := (if as = [] then Some (brk l) else l_last l), brk := Suc (brk l)\<rparr>"
  have "Prepend l x = Inr ?l"
    using seg_None_iff [OF as(1)] as(6)
    by (auto simp: Prepend_def alloc_def IsEmpty_def set_next_def ListElement_new_def)
  moreover have "represents ?l (seq_prepend xs x)"
    by (rule representsI [of _ "brk l # as"])
       (use as fresh in \<open>auto simp: seq_prepend_def entry_def ListElement_new_def
          intro: less_SucI\<close>)
  ultimately show ?thesis by blast
qed

lemma insertWalk_seg:
  assumes "length cs < fuel" and "seg (nodes l) (Some a) (a # cs) None" and "distinct (a # cs)"
    and "nodes l e = Some elt" and "le_next elt = None" and "e \<notin> set (a # cs)"
    and "l_last l = Some (last (a # cs))"
  shows "\<exists>ds l'. insertWalk fuel l (Some a) e (le_key elt) = Inr l' \<and>
     seg (nodes l') (Some a) (a # ds) None \<and> distinct (a # ds) \<and> set ds = insert e (set cs) \<and>
     map (entry (nodes l')) (a # ds) = entry (nodes l) a #
       seq_insert (map (entry (nodes l)) cs) (le_item elt) (le_key elt) \<and>
     (\<forall>b. b \<notin> insert e (set (a # cs)) \<longrightarrow> nodes l' b = nodes l b) \<and>
     dom (nodes l') = dom (nodes l) \<and> l_first l' = l_first l \<and> brk l' = brk l \<and>
     l_last l' = Some (last (a # ds))"
  using assms
proof (induction cs arbitrary: a fuel)
  case Nil
  then obtain f where f: "fuel = Suc f" by (cases fuel) auto
  from Nil.prems obtain p where p: "nodes l a = Some p" "le_next p = None" by auto
  let ?l = "l\<lparr>nodes := (nodes l)(a \<mapsto> p\<lparr>le_next := Some e\<rparr>), l_last := Some e\<rparr>"
  have "insertWalk fuel l (Some a) e (le_key elt) = Inr ?l"
    using f p Nil.prems by (simp add: deref_def set_next_def)
  then show ?case
    using Nil.prems p
    by (intro exI [of _ "[e]"] exI [of _ ?l]) (auto simp: entry_def split: if_splits)
next
  case (Cons b cs)
  then obtain f where f: "fuel = Suc f" by (cases fuel) auto
  from Cons.prems obtain p n where p: "nodes l a = Some p" "le_next p = Some b"
    and n: "nodes l b = Some n" and rest: "seg (nodes l) (le_next n) cs None" by auto
  show ?case
  proof (cases "le_key elt < le_key n")
    case True
    define h where "h = (nodes l)(e \<mapsto> elt\<lparr>le_next := Some b\<rparr>, a \<mapsto> p\<lparr>le_next := Some e\<rparr>)"
    have "insertWalk fuel l (Some a) e (le_key elt) = Inr (l\<lparr>nodes := h\<rparr>)"
      using f p n True Cons.prems by (simp add: deref_def set_next_def h_def)
    moreover have "seg h (Some a) (a # e # b # cs) None"
      using Cons.prems p n rest by (simp add: h_def)
    moreover have "map (entry h) (a # e # b # cs) =
        entry (nodes l) a # seq_insert (map (entry (nodes l)) (b # cs)) (le_item elt) (le_key elt)"
      using Cons.prems p n True by (auto simp: entry_def h_def)
    moreover have "dom h = dom (nodes l)" using Cons.prems p by (auto simp: h_def)
    moreover have "\<forall>c. c \<notin> insert e (set (a # b # cs)) \<longrightarrow> h c = nodes l c" by (simp add: h_def)
    ultimately show ?thesis
      using Cons.prems
      by (intro exI [of _ "e # b # cs"] exI [of _ "l\<lparr>nodes := h\<rparr>"] conjI) simp_all
  next
    case False
    have "seg (nodes l) (Some b) (b # cs) None" using n rest by simp
    then obtain ds l' where IH: "insertWalk f l (Some b) e (le_key elt) = Inr l'"
        "seg (nodes l') (Some b) (b # ds) None" "distinct (b # ds)" "set ds = insert e (set cs)"
        "map (entry (nodes l')) (b # ds) = entry (nodes l) b #
          seq_insert (map (entry (nodes l)) cs) (le_item elt) (le_key elt)"
        "\<forall>c. c \<notin> insert e (set (b # cs)) \<longrightarrow> nodes l' c = nodes l c"
        "dom (nodes l') = dom (nodes l)" "l_first l' = l_first l" "brk l' = brk l"
        "l_last l' = Some (last (b # ds))"
      using Cons.IH [of f b] Cons.prems f by auto
    have a: "nodes l' a = Some p" using IH(6) Cons.prems p by auto
    have "insertWalk fuel l (Some a) e (le_key elt) = Inr l'"
      using f p n False IH(1) by (simp add: deref_def)
    moreover have "seg (nodes l') (Some a) (a # b # ds) None" using a p IH(2) by simp
    moreover have "distinct (a # b # ds)" using IH(3,4) Cons.prems(3,6) by auto
    moreover have "set (b # ds) = insert e (set (b # cs))" using IH(4) by auto
    moreover have "map (entry (nodes l')) (a # b # ds) =
        entry (nodes l) a # seq_insert (map (entry (nodes l)) (b # cs)) (le_item elt) (le_key elt)"
      using IH(5) a p n False by (simp add: entry_def)
    moreover have "\<forall>c. c \<notin> insert e (set (a # b # cs)) \<longrightarrow> nodes l' c = nodes l c"
      using IH(6) by simp
    ultimately show ?thesis
      using IH(7-10) Cons.prems(3,6) by (intro exI [of _ "b # ds"] exI [of _ l'] conjI) simp_all
  qed
qed

lemma SortedInsert_represents:
  assumes "represents l xs"
  shows "\<exists>l'. SortedInsert l x k = Inr l' \<and> represents l' (seq_insert xs x k)"
proof -
  obtain as where as: "seg (nodes l) (l_first l) as None" "distinct as" "dom (nodes l) = set as"
      "\<And>a. a \<in> set as \<Longrightarrow> a < brk l" "xs = map (entry (nodes l)) as"
      "l_last l = (if as = [] then None else Some (last as))"
    using assms by (rule representsE) blast
  let ?e = "ListElement_new x k"
  let ?l1 = "l\<lparr>nodes := (nodes l)(brk l \<mapsto> ?e), brk := Suc (brk l)\<rparr>"
  have fresh: "brk l \<notin> set as" using as(4) by blast
  show ?thesis
  proof (cases as)
    case Nil
    with as show ?thesis
      by (auto simp: SortedInsert_def alloc_def IsEmpty_def ListElement_new_def entry_def
          intro!: representsI [of _ "[brk l]"] split: if_splits)
  next
    case (Cons a cs)
    with as obtain f where f: "nodes l a = Some f" "l_first l = Some a" by auto
    have ab: "a \<noteq> brk l" using fresh Cons by auto
    have xs: "xs = (le_key f, le_item f) # map (entry (nodes l)) cs"
      using as(5) Cons f by (simp add: entry_def)
    show ?thesis
    proof (cases "k < le_key f")
      case True
      let ?l = "?l1\<lparr>nodes := (nodes ?l1)(brk l \<mapsto> ?e\<lparr>le_next := l_first l\<rparr>),
                    l_first := Some (brk l)\<rparr>"
      have "SortedInsert l x k = Inr ?l"
        using f ab True
        by (simp add: SortedInsert_def alloc_def IsEmpty_def deref_def set_next_def)
      moreover have "represents ?l (seq_insert xs x k)"
        by (rule representsI [of _ "brk l # as"])
           (use as fresh True xs Cons in \<open>auto simp: entry_def ListElement_new_def
              intro: less_SucI split: if_splits\<close>)
      ultimately show ?thesis by blast
    next
      case False
      have len: "length cs < Suc (brk l)"
        using distinct_bounded_length [OF as(2,4)] Cons by auto
      obtain ds l' where w: "insertWalk (Suc (brk l)) ?l1 (Some a) (brk l) (le_key ?e) = Inr l'"
          "seg (nodes l') (Some a) (a # ds) None" "distinct (a # ds)"
          "set ds = insert (brk l) (set cs)"
          "map (entry (nodes l')) (a # ds) = entry (nodes ?l1) a #
             seq_insert (map (entry (nodes ?l1)) cs) (le_item ?e) (le_key ?e)"
          "dom (nodes l') = dom (nodes ?l1)" "l_first l' = l_first ?l1" "brk l' = brk ?l1"
          "l_last l' = Some (last (a # ds))"
        using insertWalk_seg [OF len, of ?l1 a "brk l" ?e] as Cons fresh
        by (auto simp: ListElement_new_def)
      have "SortedInsert l x k = Inr l'"
        using f ab False w(1)
        by (simp add: SortedInsert_def alloc_def IsEmpty_def deref_def ListElement_new_def)
      moreover have "represents l' (seq_insert xs x k)"
        by (rule representsI [of _ "a # ds"])
           (use as fresh False xs Cons w f ab in \<open>auto simp: entry_def ListElement_new_def
              intro: less_SucI\<close>)
      ultimately show ?thesis by blast
    qed
  qed
qed

lemma SortedRemove_represents:
  assumes "represents l xs"
  shows "\<exists>l'. SortedRemove l = Inr (fst (seq_remove xs), l') \<and> represents l' (snd (seq_remove xs))"
proof -
  obtain as where as: "seg (nodes l) (l_first l) as None" "distinct as" "dom (nodes l) = set as"
      "\<And>a. a \<in> set as \<Longrightarrow> a < brk l" "xs = map (entry (nodes l)) as"
      "l_last l = (if as = [] then None else Some (last as))"
    using assms by (rule representsE) blast
  show ?thesis
  proof (cases as)
    case Nil
    with as assms show ?thesis by (auto simp: SortedRemove_def IsEmpty_def)
  next
    case (Cons a cs)
    with as obtain f where f: "nodes l a = Some f" "l_first l = Some a"
        "seg (nodes l) (le_next f) cs None" by auto
    let ?l = "(if cs = [] then l\<lparr>l_first := None, l_last := None\<rparr>
               else l\<lparr>l_first := le_next f\<rparr>)\<lparr>nodes := (nodes l)(a := None)\<rparr>"
    have "SortedRemove l = Inr (Some (le_key f, le_item f), ?l)"
      using as(2,6) Cons f by (auto simp: SortedRemove_def IsEmpty_def deref_def Let_def)
    moreover have "represents ?l (map (entry (nodes l)) cs)"
      by (rule representsI [of _ cs]) (use as Cons f in \<open>auto split: if_splits\<close>)
    ultimately show ?thesis
      using as(5) Cons f by (auto simp: entry_def)
  qed
qed

lemma Remove_represents:
  assumes "represents l xs"
  shows "\<exists>l'. Remove l = Inr (map_option snd (fst (seq_remove xs)), l') \<and>
    represents l' (snd (seq_remove xs))"
  using SortedRemove_represents [OF assms] by (auto simp: Remove_def)

lemma mapWalk_seg:
  "seg (nodes l) p as None \<Longrightarrow> length as \<le> fuel \<Longrightarrow>
   mapWalk fuel l p func s = Inr (fold func (map (snd \<circ> entry (nodes l)) as) s)"
proof (induction as arbitrary: p fuel s)
  case Nil
  then show ?case by simp
next
  case (Cons a as)
  then obtain f where "fuel = Suc f" by (cases fuel) auto
  with Cons show ?case by (auto simp: deref_def entry_def)
qed

lemma Mapcar_represents:
  assumes "represents l xs"
  shows "Mapcar l func s = Inr (fold func (map snd xs) s)"
proof -
  obtain as where as: "seg (nodes l) (l_first l) as None" "distinct as"
      "\<And>a. a \<in> set as \<Longrightarrow> a < brk l" "xs = map (entry (nodes l)) as"
    using assms by (rule representsE) blast
  have "length as \<le> brk l"
    using as(2,3) by (rule distinct_bounded_length)
  then show ?thesis using mapWalk_seg [OF as(1)] as(4) by (simp add: Mapcar_def)
qed

lemma deleteWalk_represents:
  "represents l xs \<Longrightarrow> length xs < fuel \<Longrightarrow>
   \<exists>l'. deleteWalk fuel l = Inr l' \<and> represents l' []"
proof (induction xs arbitrary: l fuel)
  case Nil
  then obtain f where "fuel = Suc f" by (cases fuel) auto
  with Remove_represents [OF Nil(1)] show ?case by auto
next
  case (Cons x xs)
  then obtain f where f: "fuel = Suc f" by (cases fuel) auto
  from Remove_represents [OF Cons.prems(1)] obtain l' where
    "Remove l = Inr (Some (snd x), l')" "represents l' xs" by auto
  with Cons.IH [of l' f] Cons.prems f show ?case by simp
qed

lemma represents_length: "represents l xs \<Longrightarrow> length xs \<le> brk l"
proof (elim representsE)
  fix as assume "distinct as" "\<And>a. a \<in> set as \<Longrightarrow> a < brk l" "xs = map (entry (nodes l)) as"
  then show "length xs \<le> brk l"
    using distinct_bounded_length [of as "brk l"] by auto
qed

lemma List_delete_represents:
  assumes "represents l xs"
  shows "\<exists>l'. List_delete l = Inr l' \<and> nodes l' = Map.empty"
proof -
  obtain l' where "List_delete l = Inr l'" "represents l' []"
    using deleteWalk_represents [OF assms, of "Suc (brk l)"] represents_length [OF assms]
    by (auto simp: List_delete_def)
  then show ?thesis by (auto elim: representsE)
qed

subsection \<open>Sorted insertion is a stable sort\<close>

definition insert_all_sorted :: "(int \<times> 'a) list \<Rightarrow> (int \<times> 'a) list" where
  "insert_all_sorted ys = fold (\<lambda>(k, x) zs. seq_insert zs x k) ys []"

lemma mset_seq_insert [simp]: "mset (seq_insert xs x k) = add_mset (k, x) (mset xs)"
  by (induction xs x k rule: seq_insert.induct) auto

lemma set_seq_insert [simp]: "set (seq_insert xs x k) = insert (k, x) (set xs)"
  by (induction xs x k rule: seq_insert.induct) auto

lemma length_seq_insert [simp]: "length (seq_insert xs x k) = Suc (length xs)"
  by (induction xs x k rule: seq_insert.induct) auto

lemma sorted_seq_insert: "sorted (map fst xs) \<Longrightarrow> sorted (map fst (seq_insert xs x k))"
  by (induction xs x k rule: seq_insert.induct) auto

lemma filter_seq_insert:
  "sorted (map fst xs) \<Longrightarrow>
   filter (\<lambda>e. j = fst e) (seq_insert xs x k) =
     filter (\<lambda>e. j = fst e) xs @ (if j = k then [(k, x)] else [])"
proof (induction xs x k rule: seq_insert.induct)
  case (2 k' y ys x k)
  show ?case
  proof (cases "k < k'")
    case True
    then have "filter (\<lambda>e. k = fst e) ((k', y) # ys) = []"
      using 2 by (auto simp: filter_empty_conv)
    with True show ?thesis by auto
  next
    case False
    with 2 show ?thesis by auto
  qed
qed auto

lemma fold_seq_insert:
  "sorted (map fst xs) \<Longrightarrow>
   sorted (map fst (fold (\<lambda>(k, x) zs. seq_insert zs x k) ys xs)) \<and>
   mset (fold (\<lambda>(k, x) zs. seq_insert zs x k) ys xs) = mset ys + mset xs \<and>
   (\<forall>j. filter (\<lambda>e. j = fst e) (fold (\<lambda>(k, x) zs. seq_insert zs x k) ys xs) =
      filter (\<lambda>e. j = fst e) xs @ filter (\<lambda>e. j = fst e) ys)"
  by (induction ys arbitrary: xs) (auto simp: sorted_seq_insert filter_seq_insert)

lemma insert_all_sorted_sort_key: "insert_all_sorted ys = sort_key fst ys"
  unfolding insert_all_sorted_def
  using fold_seq_insert [of "[]" ys] by (intro properties_for_sort_key [symmetric]) simp_all

subsection \<open>The contract of a keyed list\<close>

text \<open>
  What the users of \<open>List\<close> (ready list, semaphore queues, pending interrupts, mail boxes)
  rely on: the operations never fail and act on the represented sequence as stated. The two
  iterated operations below, filling a list and emptying it, are what a client does with it.
\<close>

fun drain :: "nat \<Rightarrow> ('l \<Rightarrow> ((int \<times> 'a) option \<times> 'l) res) \<Rightarrow> 'l \<Rightarrow> ((int \<times> 'a) list \<times> 'l) res" where
  "drain 0 rem l = Inl Diverges"
| "drain (Suc fuel) rem l = andThen (rem l) (\<lambda>(r, l1). case r of
     None \<Rightarrow> Inr ([], l1)
   | Some e \<Rightarrow> andThen (drain fuel rem l1) (\<lambda>(es, l2). Inr (e # es, l2)))"

locale keyed_list =
  fixes new_list :: 'l
    and append :: "'l \<Rightarrow> 'a \<Rightarrow> 'l res"
    and insert_sorted :: "'l \<Rightarrow> 'a \<Rightarrow> int \<Rightarrow> 'l res"
    and remove_first :: "'l \<Rightarrow> ((int \<times> 'a) option \<times> 'l) res"
    and is_empty :: "'l \<Rightarrow> bool"
    and repr :: "'l \<Rightarrow> (int \<times> 'a) list \<Rightarrow> bool"
  assumes repr_new: "repr new_list []"
    and repr_append: "repr l xs \<Longrightarrow> \<exists>l'. append l x = Inr l' \<and> repr l' (seq_append xs x)"
    and repr_insert: "repr l xs \<Longrightarrow> \<exists>l'. insert_sorted l x k = Inr l' \<and> repr l' (seq_insert xs x k)"
    and repr_remove: "repr l xs \<Longrightarrow>
      \<exists>l'. remove_first l = Inr (fst (seq_remove xs), l') \<and> repr l' (snd (seq_remove xs))"
    and repr_is_empty: "repr l xs \<Longrightarrow> is_empty l \<longleftrightarrow> xs = []"
begin

lemma append_all:
  "repr l xs \<Longrightarrow> \<exists>l'. foldRes append l ys = Inr l' \<and> repr l' (xs @ map (Pair 0) ys)"
proof (induction ys arbitrary: l xs)
  case Nil
  then show ?case by simp
next
  case (Cons y ys)
  obtain l1 where l1: "append l y = Inr l1" "repr l1 (seq_append xs y)"
    using repr_append [OF Cons.prems] by blast
  from Cons.IH [OF l1(2)] l1(1) show ?case by (auto simp: seq_append_def)
qed

lemma insert_all:
  "repr l xs \<Longrightarrow> \<exists>l'. foldRes (\<lambda>l (k, x). insert_sorted l x k) l ys = Inr l' \<and>
     repr l' (fold (\<lambda>(k, x) zs. seq_insert zs x k) ys xs)"
proof (induction ys arbitrary: l xs)
  case Nil
  then show ?case by simp
next
  case (Cons y ys)
  obtain k x where y: "y = (k, x)" by (cases y) auto
  obtain l1 where l1: "insert_sorted l x k = Inr l1" "repr l1 (seq_insert xs x k)"
    using repr_insert [OF Cons.prems] by blast
  from Cons.IH [OF l1(2)] l1(1) y show ?case by simp
qed

lemma drain_all:
  "repr l xs \<Longrightarrow> length xs < fuel \<Longrightarrow>
   \<exists>l'. drain fuel remove_first l = Inr (xs, l') \<and> repr l' []"
proof (induction xs arbitrary: l fuel)
  case Nil
  then obtain f where "fuel = Suc f" by (cases fuel) auto
  with repr_remove [OF Nil(1)] show ?case by auto
next
  case (Cons x xs)
  then obtain f where f: "fuel = Suc f" by (cases fuel) auto
  obtain l1 where l1: "remove_first l = Inr (Some x, l1)" "repr l1 xs"
    using repr_remove [OF Cons.prems(1)] by auto
  from Cons.IH [OF l1(2), of f] Cons.prems f l1(1) show ?case by auto
qed

lemma fifo:
  "\<exists>l l'. foldRes append new_list ys = Inr l \<and>
     drain (Suc (length ys)) remove_first l = Inr (map (Pair 0) ys, l') \<and> is_empty l'"
proof -
  obtain l where l: "foldRes append new_list ys = Inr l" "repr l (map (Pair 0) ys)"
    using append_all [OF repr_new] by auto
  from drain_all [OF l(2), of "Suc (length ys)"] l(1) show ?thesis
    by (auto simp: repr_is_empty simp del: drain.simps)
qed

lemma priority:
  "\<exists>l l'. foldRes (\<lambda>l (k, x). insert_sorted l x k) new_list ys = Inr l \<and>
     drain (Suc (length ys)) remove_first l = Inr (sort_key fst ys, l') \<and> is_empty l'"
proof -
  obtain l where l: "foldRes (\<lambda>l (k, x). insert_sorted l x k) new_list ys = Inr l"
      "repr l (sort_key fst ys)"
    using insert_all [OF repr_new] by (auto simp: insert_all_sorted_sort_key [symmetric]
      insert_all_sorted_def)
  from drain_all [OF l(2), of "Suc (length ys)"] l(1) show ?thesis
    by (auto simp: repr_is_empty simp del: drain.simps)
qed

end

interpretation ptr_list: keyed_list List_new Append SortedInsert SortedRemove IsEmpty represents
  by unfold_locales
     (simp_all add: represents_new Append_represents SortedInsert_represents
        SortedRemove_represents IsEmpty_represents)

text \<open>
  The plain sequence is the other provider: the components that keep a \<open>List *\<close> in their
  state (scheduler, semaphores, pending interrupts, mail boxes) are modelled over it.
\<close>

interpretation seq_list: keyed_list "[]" "\<lambda>xs x. Inr (seq_append xs x)"
    "\<lambda>xs x k. Inr (seq_insert xs x k)" "\<lambda>xs. Inr (seq_remove xs)" "\<lambda>xs. xs = []" "(=)"
  by unfold_locales auto

subsection \<open>What the class List guarantees its users\<close>

text \<open>
  C34. A \<open>List\<close> used with \<open>SortedInsert\<close> and \<open>SortedRemove\<close> is a stable priority queue:
  whatever keyed items are inserted into a new list, none of the pointer operations fails,
  the list hands them back sorted by increasing key with items of equal key in the order
  they were inserted, and it is empty (not corrupted, no element left) afterwards.
\<close>

theorem SortedInsert_stable_priority_queue:
  "\<exists>l l'. foldRes (\<lambda>l (k, x). SortedInsert l x k) List_new ys = Inr l \<and>
     drain (Suc (length ys)) SortedRemove l = Inr (sort_key fst ys, l') \<and> IsEmpty l'"
  by (rule ptr_list.priority)

text \<open>
  Used with \<open>Append\<close> and \<open>SortedRemove\<close> (which \<open>Remove\<close> calls), the list is a first-in
  first-out queue: the items come back in the order they were appended.
\<close>

theorem Append_fifo:
  "\<exists>l l'. foldRes Append List_new ys = Inr l \<and>
     drain (Suc (length ys)) SortedRemove l = Inr (map (Pair 0) ys, l') \<and> IsEmpty l'"
  by (rule ptr_list.fifo)



end
