(* ===== verification/Nachos_Bitmap.thy ===== *)
theory Nachos_Bitmap
  imports Nachos_Prelude
begin

unbundle bit_operations_syntax

section \<open>Bit maps: userprog/bitmap.cc\<close>

text \<open>
  The class \<open>BitMap\<close> that allocates disk sectors and physical page frames: an array of
  32-bit words and the number of bits in use. The operations are translated word by word,
  with the \<open>ASSERT\<close> on the index and the array bounds. A map stands for the list of its
  bits (\<open>bits\<close>); the lemmas say what each operation does to that list. The locale
  \<open>slot_map\<close> is the interface that \<open>FileHeader::Allocate\<close> and the frame allocator use.
  Reading and writing a map through a Nachos file is in \<open>Nachos_FileSys\<close>.
\<close>

subsection \<open>The data and the operations\<close>

definition BitsInByte :: int where "BitsInByte = 8"
definition BitsInWord :: int where "BitsInWord = 32"

record BitMap =
  numBits :: int
  numWords :: int
  bm_words :: "32 word list"

definition Mark :: "BitMap \<Rightarrow> int \<Rightarrow> BitMap res" where
  "Mark b which = ASSERT (which \<ge> 0 \<and> which < numBits b)
     (andThen (fetch (bm_words b) (which sdiv BitsInWord)) (\<lambda>w.
      andThen (store (bm_words b) (which sdiv BitsInWord)
                 (w OR push_bit (nat (which smod BitsInWord)) 1)) (\<lambda>ws.
        Inr (b\<lparr>bm_words := ws\<rparr>))))"

definition Clear :: "BitMap \<Rightarrow> int \<Rightarrow> BitMap res" where
  "Clear b which = ASSERT (which \<ge> 0 \<and> which < numBits b)
     (andThen (fetch (bm_words b) (which sdiv BitsInWord)) (\<lambda>w.
      andThen (store (bm_words b) (which sdiv BitsInWord)
                 (w AND NOT (push_bit (nat (which smod BitsInWord)) 1))) (\<lambda>ws.
        Inr (b\<lparr>bm_words := ws\<rparr>))))"

definition Test :: "BitMap \<Rightarrow> int \<Rightarrow> bool res" where
  "Test b which = ASSERT (which \<ge> 0 \<and> which < numBits b)
     (andThen (fetch (bm_words b) (which sdiv BitsInWord)) (\<lambda>w.
        Inr (w AND push_bit (nat (which smod BitsInWord)) 1 \<noteq> 0)))"

text \<open>
  The constructor: \<open>new unsigned int[numWords]\<close> leaves the words as they are in memory
  (\<open>junk\<close>), and the loop clears the \<open>nitems\<close> bits one at a time.
\<close>

definition BitMap_new :: "(nat \<Rightarrow> 32 word) \<Rightarrow> int \<Rightarrow> BitMap res" where
  "BitMap_new junk nitems =
     (let words = divRoundUp nitems BitsInWord;
          b = \<lparr>numBits = nitems, numWords = words, bm_words = map junk [0..<nat words]\<rparr>
      in foldRes Clear b [0..nitems - 1])"

fun findLoop :: "BitMap \<Rightarrow> int list \<Rightarrow> (int \<times> BitMap) res" where
  "findLoop b [] = Inr (-1, b)"
| "findLoop b (i # is) = andThen (Test b i) (\<lambda>set.
     if \<not> set then andThen (Mark b i) (\<lambda>b'. Inr (i, b')) else findLoop b is)"

definition Find :: "BitMap \<Rightarrow> (int \<times> BitMap) res" where
  "Find b = findLoop b [0..numBits b - 1]"

fun countLoop :: "BitMap \<Rightarrow> int list \<Rightarrow> int \<Rightarrow> int res" where
  "countLoop b [] count = Inr count"
| "countLoop b (i # is) count = andThen (Test b i) (\<lambda>set.
     countLoop b is (if \<not> set then count + 1 else count))"

definition NumClear :: "BitMap \<Rightarrow> int res" where
  "NumClear b = countLoop b [0..numBits b - 1] 0"

text \<open>\<open>Print\<close>: the characters written, bit by bit and a newline.\<close>

fun printLoop :: "BitMap \<Rightarrow> int list \<Rightarrow> string res" where
  "printLoop b [] = Inr [CHR 0x0A]"
| "printLoop b (i # is) = andThen (Test b i) (\<lambda>set.
     andThen (printLoop b is) (\<lambda>rest. Inr ((if set then ''1 '' else ''0 '') @ rest)))"

definition Print :: "BitMap \<Rightarrow> string res" where
  "Print b = printLoop b [0..numBits b - 1]"

subsection \<open>The bits a map stands for\<close>

definition wf_bitmap :: "BitMap \<Rightarrow> bool" where
  "wf_bitmap b \<longleftrightarrow> 0 \<le> numBits b \<and> numWords b = divRoundUp (numBits b) BitsInWord \<and>
     length (bm_words b) = nat (numWords b)"

definition bitAt :: "BitMap \<Rightarrow> nat \<Rightarrow> bool" where
  "bitAt b i = bit (bm_words b ! (i div 32)) (i mod 32)"

definition bits :: "BitMap \<Rightarrow> bool list" where
  "bits b = map (bitAt b) [0..<nat (numBits b)]"

lemma length_bits [simp]: "length (bits b) = nat (numBits b)"
  by (simp add: bits_def)

lemma nth_bits [simp]: "i < nat (numBits b) \<Longrightarrow> bits b ! i = bitAt b i"
  by (simp add: bits_def)

lemma wf_word_index:
  assumes "wf_bitmap b" and "i < nat (numBits b)"
  shows "i div 32 < length (bm_words b)"
proof -
  have "numBits b \<le> divRoundUp (numBits b) 32 * 32"
    using assms(1) divRoundUp_ceiling(1) [of "numBits b" 32] by (simp add: wf_bitmap_def)
  moreover have "int (length (bm_words b)) = divRoundUp (numBits b) 32"
    using assms(1) divRoundUp_bounds [of "numBits b" 32]
    by (simp add: wf_bitmap_def BitsInWord_def)
  ultimately have "i < length (bm_words b) * 32" using assms(2) by linarith
  then show ?thesis by (simp add: div_less_iff_less_mult)
qed

lemma index_split [simp]:
  "int i sdiv BitsInWord = int (i div 32)" "nat (int i smod BitsInWord) = i mod 32"
  by (simp_all add: BitsInWord_def sdiv_nonneg smod_nonneg zdiv_int nat_mod_distrib)

lemma update_word_bit:
  assumes "j < length ws"
    and "\<And>n. n < 32 \<Longrightarrow> bit w n = (if n = i mod 32 then v else bit (ws ! j) n)" and "j = i div 32"
  shows "bit (ws[j := w] ! (k div 32)) (k mod 32) =
    (if k = i then v else bit (ws ! (k div 32)) (k mod 32))"
proof (cases "k div 32 = j")
  case True
  then have "k = i \<longleftrightarrow> k mod 32 = i mod 32" using assms(3) by (metis mult_div_mod_eq)
  with True assms show ?thesis by simp
next
  case False
  with assms show ?thesis by auto
qed

lemma bits_update:
  assumes "wf_bitmap b" and "i < nat (numBits b)"
    and "\<And>n. n < 32 \<Longrightarrow> bit w n = (if n = i mod 32 then v else bit (bm_words b ! (i div 32)) n)"
  shows "wf_bitmap (b\<lparr>bm_words := (bm_words b)[i div 32 := w]\<rparr>)" (is "wf_bitmap ?b")
    and "bits (b\<lparr>bm_words := (bm_words b)[i div 32 := w]\<rparr>) = (bits b)[i := v]"
proof -
  show "wf_bitmap ?b" using assms(1) by (simp add: wf_bitmap_def)
  show "bits ?b = (bits b)[i := v]"
  proof (rule nth_equalityI)
    fix k assume "k < length (bits ?b)"
    then show "bits ?b ! k = (bits b)[i := v] ! k"
      using update_word_bit [OF wf_word_index [OF assms(1,2)] assms(3) refl, of k] assms(2)
      by (auto simp: nth_list_update bitAt_def)
  qed simp
qed

lemma Mark_bits:
  assumes "wf_bitmap b" and "i < nat (numBits b)"
  shows "\<exists>b'. Mark b (int i) = Inr b' \<and> wf_bitmap b' \<and> numBits b' = numBits b \<and>
    bits b' = (bits b)[i := True]"
proof -
  let ?w = "bm_words b ! (i div 32) OR push_bit (i mod 32) 1"
  have w: "bit ?w n = (if n = i mod 32 then True else bit (bm_words b ! (i div 32)) n)"
    if "n < 32" for n
    using that by (auto simp: bit_simps)
  have "Mark b (int i) = Inr (b\<lparr>bm_words := (bm_words b)[i div 32 := ?w]\<rparr>)"
    using assms wf_word_index [OF assms] by (simp add: Mark_def ASSERT_def zless_nat_eq_int_zless)
  then show ?thesis using bits_update [OF assms w] by simp
qed

lemma Clear_bits:
  assumes "wf_bitmap b" and "i < nat (numBits b)"
  shows "\<exists>b'. Clear b (int i) = Inr b' \<and> wf_bitmap b' \<and> numBits b' = numBits b \<and>
    bits b' = (bits b)[i := False]"
proof -
  let ?w = "bm_words b ! (i div 32) AND NOT (push_bit (i mod 32) 1)"
  have w: "bit ?w n = (if n = i mod 32 then False else bit (bm_words b ! (i div 32)) n)"
    if "n < 32" for n
    using that by (auto simp: bit_simps)
  have "Clear b (int i) = Inr (b\<lparr>bm_words := (bm_words b)[i div 32 := ?w]\<rparr>)"
    using assms wf_word_index [OF assms] by (simp add: Clear_def ASSERT_def zless_nat_eq_int_zless)
  then show ?thesis using bits_update [OF assms w] by simp
qed

lemma Test_bits:
  assumes "wf_bitmap b" and "i < nat (numBits b)"
  shows "Test b (int i) = Inr (bits b ! i)"
proof -
  have "bitAt b i \<longleftrightarrow> bm_words b ! (i div 32) AND push_bit (i mod 32) 1 \<noteq> 0"
    by (simp only: bitAt_def bit_iff_and_push_bit_not_eq_0)
  then show ?thesis
    using assms wf_word_index [OF assms] nth_bits [OF assms(2)]
    by (simp add: Test_def ASSERT_def zless_nat_eq_int_zless)
qed

lemma index_out_of_range:
  "which < 0 \<or> numBits b \<le> which \<Longrightarrow> Mark b which = Inl Assertion"
  "which < 0 \<or> numBits b \<le> which \<Longrightarrow> Clear b which = Inl Assertion"
  "which < 0 \<or> numBits b \<le> which \<Longrightarrow> Test b which = Inl Assertion"
  by (auto simp: Mark_def Clear_def Test_def ASSERT_def)

lemma upto_int_nat: "[0..n - 1] = map int [0..<nat n]"
proof (cases "0 \<le> n")
  case True
  then obtain k where "n = int k" by (metis nonneg_int_cases)
  then show ?thesis
  proof (induction k arbitrary: n)
    case (Suc k)
    then have "[0..n - 1] = [0..int k - 1] @ [int k]" by (subst upto_rec2) auto
    moreover have "nat n = Suc k" using Suc.prems by simp
    ultimately show ?case using Suc.IH [OF refl] by simp
  qed simp
qed simp

subsection \<open>Searching and counting\<close>

lemma findLoop_spec:
  assumes "wf_bitmap b" and "\<And>i. i \<in> set is \<Longrightarrow> i < nat (numBits b)"
  shows "findLoop b (map int is) = (case find (\<lambda>i. \<not> bits b ! i) is of
     None \<Rightarrow> Inr (-1, b) | Some i \<Rightarrow> andThen (Mark b (int i)) (\<lambda>b'. Inr (int i, b')))"
  using assms(2)
proof (induction "is")
  case (Cons i "is")
  then show ?case using Test_bits [OF assms(1), of i] by simp
qed simp

lemma find_upt_Some:
  "find P [0..<n] = Some i \<longleftrightarrow> i < n \<and> P i \<and> (\<forall>j < i. \<not> P j)"
  by (fastforce simp: find_Some_iff)

lemma find_upt_None: "find P [0..<n] = None \<longleftrightarrow> (\<forall>j < n. \<not> P j)"
  by (auto simp: find_None_iff)

lemma Find_free:
  assumes wf: "wf_bitmap b" and "i < nat (numBits b)" and "\<not> bits b ! i"
    and "\<forall>j < i. bits b ! j"
  shows "\<exists>b'. Find b = Inr (int i, b') \<and> wf_bitmap b' \<and> numBits b' = numBits b \<and>
    bits b' = (bits b)[i := True]"
proof -
  have f: "find (\<lambda>i. \<not> bits b ! i) [0..<nat (numBits b)] = Some i"
    using assms unfolding find_upt_Some by simp
  have "Find b = andThen (Mark b (int i)) (\<lambda>b'. Inr (int i, b'))"
    using findLoop_spec [OF wf, of "[0..<nat (numBits b)]"] f by (simp add: Find_def upto_int_nat)
  with Mark_bits [OF wf assms(2)] show ?thesis by auto
qed

lemma Find_full:
  assumes wf: "wf_bitmap b" and "\<forall>j < nat (numBits b). bits b ! j"
  shows "Find b = Inr (-1, b)"
proof -
  have "find (\<lambda>i. \<not> bits b ! i) [0..<nat (numBits b)] = None"
    using assms(2) unfolding find_upt_None by simp
  then show ?thesis
    using findLoop_spec [OF wf, of "[0..<nat (numBits b)]"] by (simp add: Find_def upto_int_nat)
qed

lemma countLoop_spec:
  assumes "wf_bitmap b" and "\<And>i. i \<in> set is \<Longrightarrow> i < nat (numBits b)"
  shows "countLoop b (map int is) c = Inr (c + int (length (filter (\<lambda>i. \<not> bits b ! i) is)))"
  using assms(2)
proof (induction "is" arbitrary: c)
  case (Cons i "is")
  then show ?case using Test_bits [OF assms(1), of i] by simp
qed simp

lemma filter_index: "length (filter (\<lambda>i. P (xs ! i)) [0..<length xs]) = length (filter P xs)"
proof -
  have "filter P (map ((!) xs) [0..<length xs]) = map ((!) xs) (filter (P \<circ> (!) xs) [0..<length xs])"
    by (rule filter_map)
  then have "length (filter P xs) = length (filter (P \<circ> (!) xs) [0..<length xs])"
    by (simp only: map_nth length_map)
  then show ?thesis by (simp add: comp_def)
qed

lemma NumClear_bits:
  assumes "wf_bitmap b"
  shows "NumClear b = Inr (int (length (filter Not (bits b))))"
  using countLoop_spec [OF assms, of "[0..<nat (numBits b)]" 0] filter_index [of Not "bits b"]
  by (simp add: NumClear_def upto_int_nat)

lemma clear_prefix:
  assumes "wf_bitmap b" and "n \<le> nat (numBits b)"
  shows "\<exists>b'. foldRes Clear b (map int [0..<n]) = Inr b' \<and> wf_bitmap b' \<and>
    numBits b' = numBits b \<and> (\<forall>i < n. \<not> bits b' ! i)"
  using assms
proof (induction n)
  case (Suc n)
  then obtain b1 where b1: "foldRes Clear b (map int [0..<n]) = Inr b1" "wf_bitmap b1"
      "numBits b1 = numBits b" "\<forall>i < n. \<not> bits b1 ! i" by auto
  obtain b2 where "Clear b1 (int n) = Inr b2" "wf_bitmap b2" "numBits b2 = numBits b1"
      "bits b2 = (bits b1)[n := False]"
    using Clear_bits [of b1 n] b1(2,3) Suc.prems(2) by auto
  with b1 Suc.prems(2) show ?case
    by (auto simp: foldRes_append nth_list_update less_Suc_eq)
qed simp

lemma BitMap_new_bits:
  assumes "0 \<le> n"
  shows "\<exists>b. BitMap_new junk n = Inr b \<and> wf_bitmap b \<and> numBits b = n \<and>
    bits b = replicate (nat n) False"
proof -
  let ?b = "\<lparr>numBits = n, numWords = divRoundUp n BitsInWord,
             bm_words = map junk [0..<nat (divRoundUp n BitsInWord)]\<rparr>"
  have "wf_bitmap ?b" using assms by (simp add: wf_bitmap_def)
  from clear_prefix [OF this, of "nat n"] obtain b where b:
    "foldRes Clear ?b (map int [0..<nat n]) = Inr b" "wf_bitmap b" "numBits b = n"
    "\<forall>i < nat n. \<not> bits b ! i" by auto
  moreover have "bits b = replicate (nat n) False"
    using b(3,4) by (intro nth_equalityI) simp_all
  ultimately show ?thesis by (simp add: BitMap_new_def upto_int_nat Let_def)
qed

lemma printLoop_spec:
  assumes "wf_bitmap b" and "\<And>i. i \<in> set is \<Longrightarrow> i < nat (numBits b)"
  shows "printLoop b (map int is) =
    Inr (concat (map (\<lambda>i. if bits b ! i then ''1 '' else ''0 '') is) @ [CHR 0x0A])"
  using assms(2)
proof (induction "is")
  case (Cons i "is")
  then show ?case using Test_bits [OF assms(1), of i] by simp
qed simp

subsection \<open>The interface of an allocation map\<close>

text \<open>
  What \<open>FileHeader\<close> and the address spaces use: a map of slots, each taken or free, whose
  operations succeed on every index in range and whose \<open>find\<close> takes the lowest free slot.
\<close>

locale slot_map =
  fixes mark clear :: "'b \<Rightarrow> int \<Rightarrow> 'b res"
    and test :: "'b \<Rightarrow> int \<Rightarrow> bool res"
    and find_free :: "'b \<Rightarrow> (int \<times> 'b) res"
    and num_clear :: "'b \<Rightarrow> int res"
    and slots :: "'b \<Rightarrow> bool list"
    and valid :: "'b \<Rightarrow> bool"
  assumes mark: "valid b \<Longrightarrow> i < length (slots b) \<Longrightarrow>
      \<exists>b'. mark b (int i) = Inr b' \<and> valid b' \<and> slots b' = (slots b)[i := True]"
    and clear: "valid b \<Longrightarrow> i < length (slots b) \<Longrightarrow>
      \<exists>b'. clear b (int i) = Inr b' \<and> valid b' \<and> slots b' = (slots b)[i := False]"
    and test: "valid b \<Longrightarrow> i < length (slots b) \<Longrightarrow> test b (int i) = Inr (slots b ! i)"
    and find_free: "valid b \<Longrightarrow> i < length (slots b) \<Longrightarrow> \<not> slots b ! i \<Longrightarrow>
      \<forall>j < i. slots b ! j \<Longrightarrow>
      \<exists>b'. find_free b = Inr (int i, b') \<and> valid b' \<and> slots b' = (slots b)[i := True]"
    and num_clear: "valid b \<Longrightarrow> num_clear b = Inr (int (length (filter Not (slots b))))"
begin

lemma find_free_ex:
  assumes "valid b" and "False \<in> set (slots b)"
  shows "\<exists>i b'. i < length (slots b) \<and> \<not> slots b ! i \<and> find_free b = Inr (int i, b') \<and>
    valid b' \<and> slots b' = (slots b)[i := True]"
proof -
  define i where "i = (LEAST i. i < length (slots b) \<and> \<not> slots b ! i)"
  have ex: "\<exists>i. i < length (slots b) \<and> \<not> slots b ! i"
    using assms(2) by (metis in_set_conv_nth)
  have i: "i < length (slots b) \<and> \<not> slots b ! i"
    unfolding i_def by (rule LeastI_ex [OF ex])
  moreover have "\<forall>j < i. slots b ! j"
    using not_less_Least [of _ "\<lambda>i. i < length (slots b) \<and> \<not> slots b ! i"] i
    unfolding i_def by (meson less_trans)
  ultimately show ?thesis using find_free [OF assms(1), of i] by blast
qed

text \<open>Taking \<open>n\<close> slots one after the other, as \<open>FileHeader::Allocate\<close> does.\<close>

lemma take_slots:
  assumes "valid b" and "n \<le> length (filter Not (slots b))"
  shows "\<exists>is b'. foldRes (\<lambda>(ss, b). \<lambda>_. andThen (find_free b) (\<lambda>(s, b'). Inr (ss @ [s], b')))
      (ss0, b) (replicate n ()) = Inr (ss0 @ map int is, b') \<and> length is = n \<and> distinct is \<and>
    valid b' \<and> length (slots b') = length (slots b) \<and>
    (\<forall>i \<in> set is. i < length (slots b) \<and> \<not> slots b ! i) \<and>
    (\<forall>j < length (slots b). slots b' ! j \<longleftrightarrow> slots b ! j \<or> j \<in> set is)"
  using assms
proof (induction n arbitrary: b ss0)
  case 0
  then show ?case by (intro exI [of _ "[]"] exI [of _ b]) simp
next
  case (Suc n)
  then have "filter Not (slots b) \<noteq> []" by auto
  then have "False \<in> set (slots b)" by (auto simp: filter_empty_conv)
  then obtain i b1 where i: "i < length (slots b)" "\<not> slots b ! i"
      "find_free b = Inr (int i, b1)" "valid b1" "slots b1 = (slots b)[i := True]"
    using find_free_ex [OF Suc.prems(1)] by blast
  have "length (filter Not (slots b)) = Suc (length (filter Not (slots b1)))"
    using i(1,2,5) by (simp add: take_update_drop) (subst id_take_nth_drop [OF i(1)], simp)
  then have "n \<le> length (filter Not (slots b1))" using Suc.prems(2) by simp
  from Suc.IH [OF i(4) this, of "ss0 @ [int i]"] obtain js b2 where js:
    "foldRes (\<lambda>(ss, b). \<lambda>_. andThen (find_free b) (\<lambda>(s, b'). Inr (ss @ [s], b')))
      (ss0 @ [int i], b1) (replicate n ()) = Inr ((ss0 @ [int i]) @ map int js, b2)"
    "length js = n" "distinct js" "valid b2" "length (slots b2) = length (slots b1)"
    "\<forall>j \<in> set js. j < length (slots b1) \<and> \<not> slots b1 ! j"
    "\<forall>j < length (slots b1). slots b2 ! j \<longleftrightarrow> slots b1 ! j \<or> j \<in> set js" by blast
  have "i \<notin> set js" using js(6) i(1,5) by auto
  then show ?case
    using js i by (intro exI [of _ "i # js"] exI [of _ b2])
      (auto simp: nth_list_update split: if_splits)
qed

end

interpretation sector_map: slot_map Mark Clear Test Find NumClear bits wf_bitmap
proof unfold_locales
  fix b i assume b: "wf_bitmap b" and i: "i < length (bits b)"
  then have i': "i < nat (numBits b)" by simp
  show "\<exists>b'. Mark b (int i) = Inr b' \<and> wf_bitmap b' \<and> bits b' = (bits b)[i := True]"
    using Mark_bits [OF b i'] by blast
  show "\<exists>b'. Clear b (int i) = Inr b' \<and> wf_bitmap b' \<and> bits b' = (bits b)[i := False]"
    using Clear_bits [OF b i'] by blast
  show "Test b (int i) = Inr (bits b ! i)" using Test_bits [OF b i'] .
  assume "\<not> bits b ! i" and "\<forall>j < i. bits b ! j"
  then show "\<exists>b'. Find b = Inr (int i, b') \<and> wf_bitmap b' \<and> bits b' = (bits b)[i := True]"
    using Find_free [OF b i'] by blast
qed (rule NumClear_bits)

subsection \<open>What the class BitMap guarantees\<close>

lemma int_index:
  assumes "0 \<le> i" and "i < numBits b"
  obtains n where "i = int n" and "n < nat (numBits b)" and "nat i = n"
  using assms by (metis nat_int zero_le_imp_eq_int zless_nat_eq_int_zless)

text \<open>
  On a map built by the constructor or by other operations, \<open>Mark\<close> and \<open>Clear\<close> change
  the one bit they name and no other, whatever words the bits are packed in: a later \<open>Test\<close>
  sees the new value at that index and the old value at every other; and an index outside
  the map is caught by the \<open>ASSERT\<close> of each operation.
\<close>

theorem Mark_Clear_Test:
  assumes "wf_bitmap b" and "0 \<le> i" and "i < numBits b" and "0 \<le> j" and "j < numBits b"
  shows "(\<exists>b'. Mark b i = Inr b' \<and> wf_bitmap b' \<and>
      Test b' j = (if j = i then Inr True else Test b j)) \<and>
    (\<exists>b'. Clear b i = Inr b' \<and> wf_bitmap b' \<and>
      Test b' j = (if j = i then Inr False else Test b j)) \<and>
    (\<forall>k. k < 0 \<or> numBits b \<le> k \<longrightarrow>
      Mark b k = Inl Assertion \<and> Clear b k = Inl Assertion \<and> Test b k = Inl Assertion)"
proof -
  obtain m where m: "i = int m" "m < nat (numBits b)" using assms(2,3) by (rule int_index)
  obtain n where n: "j = int n" "n < nat (numBits b)" using assms(4,5) by (rule int_index)
  obtain b1 where b1: "Mark b i = Inr b1" "wf_bitmap b1" "numBits b1 = numBits b"
      "bits b1 = (bits b)[m := True]" using Mark_bits [OF assms(1) m(2)] m(1) by blast
  obtain b2 where b2: "Clear b i = Inr b2" "wf_bitmap b2" "numBits b2 = numBits b"
      "bits b2 = (bits b)[m := False]" using Clear_bits [OF assms(1) m(2)] m(1) by blast
  have "Test b1 j = (if j = i then Inr True else Test b j)"
    "Test b2 j = (if j = i then Inr False else Test b j)"
    using Test_bits [OF assms(1) n(2)] Test_bits [OF b1(2), of n] Test_bits [OF b2(2), of n]
      b1 b2 m n by (auto simp: nth_list_update simp del: nth_bits)
  with b1 b2 index_out_of_range show ?thesis by auto
qed

theorem Mark_Clear_Test_witness:
  "\<exists>b b'. BitMap_new (\<lambda>_. 255) 40 = Inr b \<and> Mark b 33 = Inr b' \<and>
     Test b' 33 = Inr True \<and> Test b' 34 = Test b 34"
proof -
  obtain b where b: "BitMap_new (\<lambda>_. 255) 40 = Inr b" "wf_bitmap b" "numBits b = 40"
    using BitMap_new_bits [of 40 "\<lambda>_. 255"] by auto
  from Mark_Clear_Test [OF b(2), of 33 33] Mark_Clear_Test [OF b(2), of 33 34] b
  show ?thesis by auto
qed

text \<open>
  Allocation through a bit map. A new map of \<open>n\<close> bits has all \<open>n\<close> clear whatever the
  uninitialised words contained; \<open>Find\<close> returns \<open>-1\<close>, changing nothing, exactly when
  \<open>NumClear\<close> is \<open>0\<close>, and otherwise the lowest clear bit, which it marks: the number of
  clear bits goes down by one.
\<close>

theorem Find_lowest_clear:
  assumes "wf_bitmap b"
  shows "((NumClear b = Inr 0 \<and> Find b = Inr (-1, b)) \<or>
    (\<exists>i b' c. Find b = Inr (i, b') \<and> wf_bitmap b' \<and> 0 \<le> i \<and> i < numBits b \<and>
       Test b i = Inr False \<and> (\<forall>j. 0 \<le> j \<and> j < i \<longrightarrow> Test b j = Inr True) \<and>
       Mark b i = Inr b' \<and> NumClear b = Inr c \<and> 0 < c \<and> NumClear b' = Inr (c - 1))) \<and>
    (0 \<le> n \<longrightarrow> (\<exists>m. BitMap_new junk n = Inr m \<and> wf_bitmap m \<and> NumClear m = Inr n))"
    (is "(?full \<or> ?free) \<and> (_ \<longrightarrow> ?new)")
proof (intro conjI impI)
  show "?full \<or> ?free"
  proof (cases "False \<in> set (bits b)")
    case False
    then have all: "\<forall>j < nat (numBits b). bits b ! j" by (metis in_set_conv_nth length_bits)
    then have "filter Not (bits b) = []" using False by (intro filter_False) (metis (full_types))
    then show ?thesis using Find_full [OF assms all] NumClear_bits [OF assms] by simp
  next
    case True
    define i where "i = (LEAST i. i < nat (numBits b) \<and> \<not> bits b ! i)"
    have "\<exists>i. i < nat (numBits b) \<and> \<not> bits b ! i"
      using True by (metis in_set_conv_nth length_bits)
    then have i: "i < nat (numBits b) \<and> \<not> bits b ! i" unfolding i_def by (rule LeastI_ex)
    have low: "\<forall>j < i. bits b ! j"
      using not_less_Least [of _ "\<lambda>i. i < nat (numBits b) \<and> \<not> bits b ! i"] i
      unfolding i_def by (meson less_trans)
    obtain b' where b': "Find b = Inr (int i, b')" "wf_bitmap b'" "bits b' = (bits b)[i := True]"
      using Find_free [OF assms _ _ low] i by blast
    have "find (\<lambda>i. \<not> bits b ! i) [0..<nat (numBits b)] = Some i"
      unfolding find_upt_Some using i low by blast
    then have "Find b = andThen (Mark b (int i)) (\<lambda>b'. Inr (int i, b'))"
      using findLoop_spec [OF assms, of "[0..<nat (numBits b)]"]
      by (simp add: Find_def upto_int_nat del: nth_bits)
    then have "andThen (Mark b (int i)) (\<lambda>b'. Inr (int i, b')) = Inr (int i, b')"
      using b'(1) by simp
    then have mark: "Mark b (int i) = Inr b'" by (simp add: andThen_eq_Inr)
    have len: "length (filter Not (bits b)) = Suc (length (filter Not (bits b')))"
      using i unfolding b'(3)
      by (simp add: take_update_drop)
         (subst id_take_nth_drop [of i "bits b"], simp_all)
    have "Test b j = Inr True" if "0 \<le> j" "j < int i" for j
    proof -
      have "nat j < i" "nat j < nat (numBits b)" using that i by linarith+
      then show ?thesis using Test_bits [OF assms, of "nat j"] low that by (simp del: nth_bits)
    qed
    then have "\<forall>j. 0 \<le> j \<and> j < int i \<longrightarrow> Test b j = Inr True" by blast
    moreover have "0 \<le> int i" "int i < numBits b" "Test b (int i) = Inr False"
      using i Test_bits [OF assms, of i] by (auto simp: zless_nat_eq_int_zless simp del: nth_bits)
    moreover have "NumClear b = Inr (int (length (filter Not (bits b))))"
      "0 < int (length (filter Not (bits b)))"
      "NumClear b' = Inr (int (length (filter Not (bits b))) - 1)"
      using len NumClear_bits [OF assms] NumClear_bits [OF b'(2)] by simp_all
    ultimately have "?free" using b'(1,2) mark by blast
    then show ?thesis ..
  qed
  assume "0 \<le> n"
  then show ?new
    using BitMap_new_bits [of n junk] NumClear_bits by fastforce
qed

theorem Find_lowest_clear_witness:
  "\<exists>b. wf_bitmap b \<and> NumClear b = Inr 40 \<and> (\<exists>i b'. Find b = Inr (i, b') \<and> 0 \<le> i \<and> i < numBits b)"
proof -
  obtain b0 where b0: "wf_bitmap b0" using BitMap_new_bits [of 40 "\<lambda>_. 0"] by auto
  obtain b where b: "wf_bitmap b" "NumClear b = Inr 40"
    using Find_lowest_clear [OF b0, of 40 "\<lambda>_. 0"] by auto
  with Find_lowest_clear [OF b(1), of 0 "\<lambda>_. 0"] show ?thesis by fastforce
qed

end
