(* ===== verification/Nachos_Interrupt.thy ===== *)
theory Nachos_Interrupt
  imports Nachos_List
begin

section \<open>Simulated interrupts and time: machine/interrupt.cc, stats.cc, timer.cc\<close>

text \<open>
  The emulation of interrupt hardware: the interrupt level, the list of pending interrupts
  sorted by the tick at which they fire, simulated time (\<open>stats->totalTicks\<close>), and the
  timer device. The state is a record that the thread system and the machine extend, so the
  operations here are polymorphic in its extension. What the code calls through a pointer
  or in another file is an argument: \<open>h\<close> the interrupt handlers (\<open>toOccur->handler\<close>),
  \<open>dl\<close> the call \<open>machine->DelayedLoad(0, 0)\<close> that \<open>CheckIfDue\<close> makes once there is a
  machine, \<open>yield\<close> the call \<open>currentThread->Yield()\<close> that \<open>OneTick\<close> makes.
\<close>

subsection \<open>Statistics (stats.h, stats.cc)\<close>

record Statistics =
  totalTicks :: int
  idleTicks :: int
  systemTicks :: int
  userTicks :: int
  numDiskReads :: int
  numDiskWrites :: int
  numConsoleCharsRead :: int
  numConsoleCharsWritten :: int
  numPageFaults :: int
  numPacketsSent :: int
  numPacketsRecvd :: int

definition Statistics_new :: Statistics where
  "Statistics_new = \<lparr>totalTicks = 0, idleTicks = 0, systemTicks = 0, userTicks = 0,
     numDiskReads = 0, numDiskWrites = 0, numConsoleCharsRead = 0, numConsoleCharsWritten = 0,
     numPageFaults = 0, numPacketsSent = 0, numPacketsRecvd = 0\<rparr>"

definition UserTick :: int where "UserTick = 1"
definition SystemTick :: int where "SystemTick = 10"
definition RotationTime :: int where "RotationTime = 500"
definition SeekTime :: int where "SeekTime = 500"
definition ConsoleTime :: int where "ConsoleTime = 100"
definition NetworkTime :: int where "NetworkTime = 100"
definition TimerTicks :: int where "TimerTicks = 100"

lemmas tick_defs = UserTick_def SystemTick_def RotationTime_def SeekTime_def ConsoleTime_def
  NetworkTime_def TimerTicks_def

subsection \<open>The interrupt hardware (interrupt.h)\<close>

datatype IntStatus = IntOff | IntOn

datatype MachineStatus = IdleMode | SystemMode | UserMode

datatype IntType = TimerInt | DiskInt | ConsoleWriteInt | ConsoleReadInt | NetworkSendInt
  | NetworkRecvInt

text \<open>The functions that the devices of the code base pass to \<open>Schedule\<close>.\<close>

datatype IntHandler = TimerHandler | DiskDone | ConsoleReadPoll | ConsoleWriteDone
  | NetworkReadPoll | NetworkSendDone

record PendingInterrupt =
  pi_handler :: IntHandler
  pi_arg :: int
  pi_when :: int
  pi_type :: IntType

text \<open>
  The state of the emulation: the statistics, the fields of class \<open>Interrupt\<close>, and the
  numbers that the host's \<open>Random()\<close> will return (\<open>rng\<close>, not negative: it is \<open>rand\<close>) with the position reached in them.
\<close>

record IntState =
  stats :: Statistics
  level :: IntStatus
  pending :: "(int \<times> PendingInterrupt) list"
  inHandler :: bool
  yieldOnReturn :: bool
  status :: MachineStatus
  rng :: "nat \<Rightarrow> nat"
  rngPos :: nat

definition PendingInterrupt_new :: "IntHandler \<Rightarrow> int \<Rightarrow> int \<Rightarrow> IntType \<Rightarrow> PendingInterrupt" where
  "PendingInterrupt_new func param time kind =
     \<lparr>pi_handler = func, pi_arg = param, pi_when = time, pi_type = kind\<rparr>"

definition Interrupt_new :: "'a IntState_scheme \<Rightarrow> 'a IntState_scheme" where
  "Interrupt_new s = s\<lparr>level := IntOff, pending := [], inHandler := False,
     yieldOnReturn := False, status := SystemMode\<rparr>"

definition Random :: "'a IntState_scheme \<Rightarrow> int \<times> 'a IntState_scheme" where
  "Random s = (int (rng s (rngPos s)), s\<lparr>rngPos := Suc (rngPos s)\<rparr>)"

subsection \<open>The operations (interrupt.cc)\<close>

definition ChangeLevel :: "IntStatus \<Rightarrow> IntStatus \<Rightarrow> 'a IntState_scheme \<Rightarrow> 'a IntState_scheme" where
  "ChangeLevel old now s = s\<lparr>level := now\<rparr>"

definition setStatus :: "MachineStatus \<Rightarrow> 'a IntState_scheme \<Rightarrow> 'a IntState_scheme" where
  "setStatus st s = s\<lparr>status := st\<rparr>"

definition YieldOnReturn :: "'a IntState_scheme \<Rightarrow> 'a IntState_scheme res" where
  "YieldOnReturn s = ASSERT (inHandler s) (Inr (s\<lparr>yieldOnReturn := True\<rparr>))"

definition Halt :: "'a IntState_scheme \<Rightarrow> 'b res" where
  "Halt s = Inl Halted"

definition Schedule ::
    "IntHandler \<Rightarrow> int \<Rightarrow> int \<Rightarrow> IntType \<Rightarrow> 'a IntState_scheme \<Rightarrow> 'a IntState_scheme res" where
  "Schedule handler arg fromNow type s =
     (let when = totalTicks (stats s) + fromNow;
          toOccur = PendingInterrupt_new handler arg when type
      in ASSERT (fromNow > 0) (Inr (s\<lparr>pending := seq_insert (pending s) toOccur when\<rparr>)))"

text \<open>
  The end of \<open>CheckIfDue\<close>, once the clock has been looked at: give up when the machine is
  idle and only the timer is left, otherwise call the handler in system mode.
\<close>

definition fireInterrupt ::
    "(IntHandler \<Rightarrow> int \<Rightarrow> 'a IntState_scheme \<Rightarrow> 'a IntState_scheme res) \<Rightarrow>
     ('a IntState_scheme \<Rightarrow> 'a IntState_scheme res) \<Rightarrow>
     int \<Rightarrow> PendingInterrupt \<Rightarrow> MachineStatus \<Rightarrow> 'a IntState_scheme \<Rightarrow> (bool \<times> 'a IntState_scheme) res" where
  "fireInterrupt h dl when toOccur old s =
     (if status s = IdleMode \<and> pi_type toOccur = TimerInt \<and> pending s = []
      then Inr (False, s\<lparr>pending := seq_insert (pending s) toOccur when\<rparr>)
      else andThen (dl s) (\<lambda>s1.
           andThen (h (pi_handler toOccur) (pi_arg toOccur)
                      (s1\<lparr>inHandler := True, status := SystemMode\<rparr>)) (\<lambda>s2.
           Inr (True, s2\<lparr>status := old, inHandler := False\<rparr>))))"

definition CheckIfDue ::
    "(IntHandler \<Rightarrow> int \<Rightarrow> 'a IntState_scheme \<Rightarrow> 'a IntState_scheme res) \<Rightarrow>
     ('a IntState_scheme \<Rightarrow> 'a IntState_scheme res) \<Rightarrow>
     bool \<Rightarrow> 'a IntState_scheme \<Rightarrow> (bool \<times> 'a IntState_scheme) res" where
  "CheckIfDue h dl advanceClock s = ASSERT (level s = IntOff)
     (case seq_remove (pending s) of
        (None, _) \<Rightarrow> Inr (False, s)
      | (Some (when, toOccur), rest) \<Rightarrow>
          let s1 = s\<lparr>pending := rest\<rparr>; st = stats s
          in if advanceClock \<and> when > totalTicks st then
               fireInterrupt h dl when toOccur (status s)
                 (s1\<lparr>stats := st\<lparr>idleTicks := idleTicks st + (when - totalTicks st),
                                  totalTicks := when\<rparr>\<rparr>)
             else if when > totalTicks st then
               Inr (False, s1\<lparr>pending := seq_insert rest toOccur when\<rparr>)
             else fireInterrupt h dl when toOccur (status s) s1)"

text \<open>The loop \<open>while (CheckIfDue(FALSE));\<close> of \<open>OneTick\<close> and \<open>Idle\<close>.\<close>

fun fireAllDue ::
    "nat \<Rightarrow> (IntHandler \<Rightarrow> int \<Rightarrow> 'a IntState_scheme \<Rightarrow> 'a IntState_scheme res) \<Rightarrow>
     ('a IntState_scheme \<Rightarrow> 'a IntState_scheme res) \<Rightarrow>
     'a IntState_scheme \<Rightarrow> 'a IntState_scheme res" where
  "fireAllDue 0 h dl s = Inl Diverges"
| "fireAllDue (Suc fuel) h dl s = andThen (CheckIfDue h dl False s) (\<lambda>(fired, s1).
     if fired then fireAllDue fuel h dl s1 else Inr s1)"

definition advanceTime :: "'a IntState_scheme \<Rightarrow> 'a IntState_scheme" where
  "advanceTime s = (let st = stats s in
     if status s = SystemMode
     then s\<lparr>stats := st\<lparr>totalTicks := totalTicks st + SystemTick,
                        systemTicks := systemTicks st + SystemTick\<rparr>\<rparr>
     else s\<lparr>stats := st\<lparr>totalTicks := totalTicks st + UserTick,
                        userTicks := userTicks st + UserTick\<rparr>\<rparr>)"

definition fireTick ::
    "(IntHandler \<Rightarrow> int \<Rightarrow> 'a IntState_scheme \<Rightarrow> 'a IntState_scheme res) \<Rightarrow>
     ('a IntState_scheme \<Rightarrow> 'a IntState_scheme res) \<Rightarrow>
     'a IntState_scheme \<Rightarrow> 'a IntState_scheme res" where
  "fireTick h dl s = (let s1 = ChangeLevel IntOn IntOff (advanceTime s)
     in fireAllDue (Suc (length (pending s1))) h dl s1)"

definition OneTick ::
    "(IntHandler \<Rightarrow> int \<Rightarrow> 'a IntState_scheme \<Rightarrow> 'a IntState_scheme res) \<Rightarrow>
     ('a IntState_scheme \<Rightarrow> 'a IntState_scheme res) \<Rightarrow>
     ('a IntState_scheme \<Rightarrow> 'a IntState_scheme res) \<Rightarrow>
     'a IntState_scheme \<Rightarrow> 'a IntState_scheme res" where
  "OneTick h dl yield s =
     (let old = status s
      in andThen (fireTick h dl s) (\<lambda>s2.
         let s3 = ChangeLevel IntOff IntOn s2
         in if yieldOnReturn s3
            then andThen (yield (s3\<lparr>yieldOnReturn := False, status := SystemMode\<rparr>)) (\<lambda>s4.
                   Inr (s4\<lparr>status := old\<rparr>))
            else Inr s3))"

definition SetLevel ::
    "(IntHandler \<Rightarrow> int \<Rightarrow> 'a IntState_scheme \<Rightarrow> 'a IntState_scheme res) \<Rightarrow>
     ('a IntState_scheme \<Rightarrow> 'a IntState_scheme res) \<Rightarrow>
     ('a IntState_scheme \<Rightarrow> 'a IntState_scheme res) \<Rightarrow>
     IntStatus \<Rightarrow> 'a IntState_scheme \<Rightarrow> (IntStatus \<times> 'a IntState_scheme) res" where
  "SetLevel h dl yield now s =
     (let old = level s
      in ASSERT (now = IntOff \<or> \<not> inHandler s)
        (let s1 = ChangeLevel old now s
         in if now = IntOn \<and> old = IntOff
            then andThen (OneTick h dl yield s1) (\<lambda>s2. Inr (old, s2))
            else Inr (old, s1)))"

definition Enable ::
    "(IntHandler \<Rightarrow> int \<Rightarrow> 'a IntState_scheme \<Rightarrow> 'a IntState_scheme res) \<Rightarrow>
     ('a IntState_scheme \<Rightarrow> 'a IntState_scheme res) \<Rightarrow>
     ('a IntState_scheme \<Rightarrow> 'a IntState_scheme res) \<Rightarrow>
     'a IntState_scheme \<Rightarrow> 'a IntState_scheme res" where
  "Enable h dl yield s = andThen (SetLevel h dl yield IntOn s) (\<lambda>(_, s'). Inr s')"

definition Idle ::
    "(IntHandler \<Rightarrow> int \<Rightarrow> 'a IntState_scheme \<Rightarrow> 'a IntState_scheme res) \<Rightarrow>
     ('a IntState_scheme \<Rightarrow> 'a IntState_scheme res) \<Rightarrow>
     'a IntState_scheme \<Rightarrow> 'a IntState_scheme res" where
  "Idle h dl s = andThen (CheckIfDue h dl True (s\<lparr>status := IdleMode\<rparr>)) (\<lambda>(fired, s1).
     if fired then
       andThen (fireAllDue (Suc (length (pending s1))) h dl s1) (\<lambda>s2.
         Inr (s2\<lparr>yieldOnReturn := False, status := SystemMode\<rparr>))
     else Halt s1)"

subsection \<open>The timer device (timer.cc) and its kernel handler (system.cc)\<close>

definition TimeOfNextInterrupt :: "bool \<Rightarrow> 'a IntState_scheme \<Rightarrow> int \<times> 'a IntState_scheme" where
  "TimeOfNextInterrupt randomize s =
     (if randomize then let (r, s1) = Random s in (1 + (r smod (TimerTicks * 2)), s1)
      else (TimerTicks, s))"

definition TimerInterruptHandler :: "'a IntState_scheme \<Rightarrow> 'a IntState_scheme res" where
  "TimerInterruptHandler s = (if status s \<noteq> IdleMode then YieldOnReturn s else Inr s)"

definition Timer_new :: "bool \<Rightarrow> int \<Rightarrow> 'a IntState_scheme \<Rightarrow> 'a IntState_scheme res" where
  "Timer_new randomize this s = (let (t, s1) = TimeOfNextInterrupt randomize s
     in Schedule TimerHandler this t TimerInt s1)"

definition TimerExpired :: "bool \<Rightarrow> int \<Rightarrow> 'a IntState_scheme \<Rightarrow> 'a IntState_scheme res" where
  "TimerExpired randomize this s = (let (t, s1) = TimeOfNextInterrupt randomize s
     in andThen (Schedule TimerHandler this t TimerInt s1) TimerInterruptHandler)"

subsection \<open>Invariants of the emulation\<close>

text \<open>
  The pending list is sorted by firing time, and the key of every entry is the \<open>when\<close> of
  the interrupt (\<open>pending_ok\<close>); simulated time is the sum of what was spent idle, in the
  kernel and in user code (\<open>time_ok\<close>). \<open>due s\<close> are the interrupts whose time has come.
\<close>

definition pending_ok :: "'a IntState_scheme \<Rightarrow> bool" where
  "pending_ok s \<longleftrightarrow> sorted (map fst (pending s)) \<and> (\<forall>e \<in> set (pending s). fst e = pi_when (snd e))"

definition time_ok :: "'a IntState_scheme \<Rightarrow> bool" where
  "time_ok s \<longleftrightarrow> totalTicks (stats s) =
     idleTicks (stats s) + systemTicks (stats s) + userTicks (stats s)"

definition same_time :: "'a IntState_scheme \<Rightarrow> 'a IntState_scheme \<Rightarrow> bool" where
  "same_time s s' \<longleftrightarrow> totalTicks (stats s') = totalTicks (stats s) \<and>
     idleTicks (stats s') = idleTicks (stats s) \<and> systemTicks (stats s') = systemTicks (stats s) \<and>
     userTicks (stats s') = userTicks (stats s)"

definition due :: "'a IntState_scheme \<Rightarrow> (int \<times> PendingInterrupt) list" where
  "due s = filter (\<lambda>e. fst e \<le> totalTicks (stats s)) (pending s)"

text \<open>\<open>queue_ok known s\<close>: moreover, the handlers of all pending interrupts are \<open>known\<close>.\<close>

definition queue_ok :: "(IntHandler \<Rightarrow> bool) \<Rightarrow> 'a IntState_scheme \<Rightarrow> bool" where
  "queue_ok known s \<longleftrightarrow> pending_ok s \<and> (\<forall>e \<in> set (pending s). known (pi_handler (snd e)))"

lemma same_time_refl [simp]: "same_time s s"
  by (simp add: same_time_def)

lemma same_time_trans: "same_time s t \<Longrightarrow> same_time t u \<Longrightarrow> same_time s u"
  by (simp add: same_time_def)

lemma same_time_ok: "same_time s t \<Longrightarrow> time_ok t = time_ok s"
  by (simp add: same_time_def time_ok_def)

lemma filter_seq_insert_False: "\<not> P (k, x) \<Longrightarrow> filter P (seq_insert xs x k) = filter P xs"
  by (induction xs x k rule: seq_insert.induct) auto

lemma Schedule_spec:
  assumes "0 < fromNow" and "pending_ok s"
  shows "\<exists>s'. Schedule hdl arg fromNow ty s = Inr s' \<and> pending_ok s' \<and> due s' = due s \<and>
    s' = s\<lparr>pending := pending s'\<rparr> \<and>
    mset (pending s') = add_mset (totalTicks (stats s) + fromNow,
      PendingInterrupt_new hdl arg (totalTicks (stats s) + fromNow) ty) (mset (pending s))"
  using assms
  by (auto simp: Schedule_def Let_def pending_ok_def due_def sorted_seq_insert
      filter_seq_insert_False PendingInterrupt_new_def)

lemma due_Cons:
  "pending_ok s \<Longrightarrow> pending s = (w, p) # rest \<Longrightarrow>
   due s = (if w \<le> totalTicks (stats s)
     then (w, p) # filter (\<lambda>e. fst e \<le> totalTicks (stats s)) rest else [])"
  by (fastforce simp: due_def pending_ok_def filter_empty_conv)

subsection \<open>The contract of interrupt handlers, and what the clock does under it\<close>

text \<open>
  A device's handler runs with interrupts off and \<open>inHandler\<close> set, and it must return so; it
  may schedule interrupts, but only of \<open>known\<close> devices and in the future (\<open>due\<close> stays the same), and it does not
  advance the clock. \<open>env\<close> is whatever the rest of the kernel state must satisfy.
\<close>

locale interrupt_env =
  fixes h :: "IntHandler \<Rightarrow> int \<Rightarrow> 'a IntState_scheme \<Rightarrow> 'a IntState_scheme res"
    and dl :: "'a IntState_scheme \<Rightarrow> 'a IntState_scheme res"
    and env :: "'a IntState_scheme \<Rightarrow> bool" and known :: "IntHandler \<Rightarrow> bool"
  assumes handler_ok: "env s \<Longrightarrow> queue_ok known s \<Longrightarrow> known k \<Longrightarrow> level s = IntOff \<Longrightarrow> inHandler s \<Longrightarrow>
      \<exists>s'. h k a s = Inr s' \<and> env s' \<and> queue_ok known s' \<and> level s' = IntOff \<and>
        inHandler s' \<and> same_time s s' \<and> due s' = due s"
    and dl_ok: "env s \<Longrightarrow> \<exists>s'. dl s = Inr s' \<and> env s' \<and> IntState.truncate s' = IntState.truncate s"
    and env_more: "IntState.more s = IntState.more s' \<Longrightarrow> env s \<Longrightarrow> env s'"
begin

lemma env_updates:
  "env (s\<lparr>stats := st\<rparr>) = env s" "env (s\<lparr>level := l\<rparr>) = env s" "env (s\<lparr>pending := q\<rparr>) = env s"
  "env (s\<lparr>inHandler := b\<rparr>) = env s" "env (s\<lparr>yieldOnReturn := c\<rparr>) = env s" "env (s\<lparr>status := u\<rparr>) = env s"
  by (auto elim: env_more [rotated])

lemma dl_frame:
  assumes "env s"
  obtains s' where "dl s = Inr s'" and "env s'" and "stats s' = stats s"
    and "level s' = level s" and "pending s' = pending s" and "status s' = status s"
  using dl_ok [OF assms] by (auto simp: IntState.truncate_def)

lemma fireInterrupt_fires:
  assumes env: "env s" and ok: "queue_ok known s" and off: "level s = IntOff"
    and kn: "known (pi_handler p)" and nt: "\<not> (status s = IdleMode \<and> pi_type p = TimerInt \<and> pending s = [])"
  shows "\<exists>s'. fireInterrupt h dl w p old s = Inr (True, s') \<and> env s' \<and>
    queue_ok known s' \<and> level s' = IntOff \<and> \<not> inHandler s' \<and> same_time s s' \<and> due s' = due s \<and>
    status s' = old"
proof -
  obtain s1 where s1: "dl s = Inr s1" "env s1" "stats s1 = stats s"
      "level s1 = level s" "pending s1 = pending s"
    using dl_frame [OF env] by blast
  let ?t = "s1\<lparr>inHandler := True, status := SystemMode\<rparr>"
  have "env ?t" "queue_ok known ?t" "level ?t = IntOff" "inHandler ?t"
    "due ?t = due s" "same_time s ?t"
    using s1 ok off by (simp_all add: env_updates queue_ok_def pending_ok_def due_def same_time_def)
  with handler_ok [of ?t "pi_handler p" "pi_arg p"] kn obtain s2 where
    s2: "h (pi_handler p) (pi_arg p) ?t = Inr s2" "env s2"
      "queue_ok known s2" "level s2 = IntOff" "same_time ?t s2" "due s2 = due s" by auto
  have f: "fireInterrupt h dl w p old s = Inr (True, s2\<lparr>status := old, inHandler := False\<rparr>)"
    using nt s1(1) s2(1) by (simp add: fireInterrupt_def)
  have "same_time s s2" using same_time_trans [OF \<open>same_time s ?t\<close> s2(5)] .
  then show ?thesis using s2 f
    by (intro exI [of _ "s2\<lparr>status := old, inHandler := False\<rparr>"])
      (simp add: env_updates queue_ok_def pending_ok_def due_def same_time_def)
qed

lemma CheckIfDue_due:
  assumes "env s" and "queue_ok known s" and "level s = IntOff"
    and "due s \<noteq> []" and "status s \<noteq> IdleMode \<or> tl (pending s) \<noteq> []
      \<or> pi_type (snd (hd (pending s))) \<noteq> TimerInt"
  shows "\<exists>s'. CheckIfDue h dl adv s = Inr (True, s') \<and> env s' \<and> queue_ok known s' \<and>
    level s' = IntOff \<and> \<not> inHandler s' \<and> same_time s s' \<and> due s' = tl (due s) \<and>
    status s' = status s"
proof -
  obtain w p rest where pend: "pending s = (w, p) # rest"
    using assms(4) by (cases "pending s") (auto simp: due_def)
  have w: "w \<le> totalTicks (stats s)"
    using assms(2,4) due_Cons [OF _ pend] by (auto simp: queue_ok_def split: if_splits)
  have kn: "known (pi_handler p)" using assms(2) pend by (simp add: queue_ok_def)
  let ?s1 = "s\<lparr>pending := rest\<rparr>"
  have s1: "env ?s1" "queue_ok known ?s1" "level ?s1 = IntOff"
    "same_time s ?s1" "due ?s1 = tl (due s)"
    using assms pend w by (simp_all add: env_updates queue_ok_def pending_ok_def same_time_def due_def)
  have "\<not> (status ?s1 = IdleMode \<and> pi_type p = TimerInt \<and> pending ?s1 = [])"
    using assms(5) pend by auto
  from fireInterrupt_fires [OF s1(1-3) kn this, of w "status s"] obtain s' where
    s': "fireInterrupt h dl w p (status s) ?s1 = Inr (True, s')"
      "env s'" "queue_ok known s'" "level s' = IntOff" "\<not> inHandler s'"
      "same_time ?s1 s'" "due s' = due ?s1" "status s' = status s"
    by blast
  have "CheckIfDue h dl adv s = fireInterrupt h dl w p (status s) ?s1"
    using assms(3) pend w by (simp add: CheckIfDue_def)
  with s' s1(5) same_time_trans [OF s1(4) s'(6)] show ?thesis by auto
qed

lemma CheckIfDue_none:
  assumes "queue_ok known s" and "level s = IntOff" and "due s = []"
  shows "\<exists>s'. CheckIfDue h dl False s = Inr (False, s') \<and> queue_ok known s' \<and> due s' = [] \<and>
    mset (pending s') = mset (pending s) \<and> s' = s\<lparr>pending := pending s'\<rparr>"
proof (cases "pending s")
  case Nil
  with assms show ?thesis by (simp add: CheckIfDue_def)
next
  case (Cons e rest)
  obtain w p where e: "e = (w, p)" by (cases e)
  have w: "totalTicks (stats s) < w" using assms(3) Cons e by (auto simp: due_def split: if_splits)
  have rest: "filter (\<lambda>e. fst e \<le> totalTicks (stats s)) rest = []"
    using assms(3) Cons by (simp add: due_def split: if_splits)
  let ?s1 = "s\<lparr>pending := seq_insert rest p w\<rparr>"
  have "CheckIfDue h dl False s = Inr (False, ?s1)"
    using assms(2) Cons e w by (simp add: CheckIfDue_def Let_def)
  moreover have "queue_ok known ?s1"
    using assms(1) Cons e by (auto simp: queue_ok_def pending_ok_def sorted_seq_insert)
  moreover have "due ?s1 = []"
    using rest w by (simp add: due_def filter_seq_insert_False)
  ultimately show ?thesis using Cons e by auto
qed

lemma CheckIfDue_only_timer:
  assumes "level s = IntOff" and "status s = IdleMode" and "pending s = [(w, p)]"
    and "pi_type p = TimerInt" and "w \<le> totalTicks (stats s)"
  shows "CheckIfDue h dl adv s = Inr (False, s)"
  using assms by (simp add: CheckIfDue_def fireInterrupt_def Let_def)

lemma fireAllDue_spec:
  assumes "env s" and "queue_ok known s" and "level s = IntOff"
    and "length (due s) < fuel"
  shows "\<exists>s'. fireAllDue fuel h dl s = Inr s' \<and> env s' \<and> queue_ok known s' \<and>
    level s' = IntOff \<and> same_time s s' \<and> (status s \<noteq> IdleMode \<longrightarrow> due s' = []) \<and>
    status s' = status s \<and> (\<not> inHandler s \<longrightarrow> \<not> inHandler s')"
  using assms
proof (induction fuel arbitrary: s)
  case (Suc fuel)
  consider (none) "due s = []"
    | (timer) "due s \<noteq> []" "status s = IdleMode" "tl (pending s) = []"
        "pi_type (snd (hd (pending s))) = TimerInt"
    | (fire) "due s \<noteq> []" "status s \<noteq> IdleMode \<or> tl (pending s) \<noteq> []
        \<or> pi_type (snd (hd (pending s))) \<noteq> TimerInt" by blast
  then show ?case
  proof cases
    case none
    then obtain s' where s': "CheckIfDue h dl False s = Inr (False, s')" "queue_ok known s'"
        "due s' = []" "s' = s\<lparr>pending := pending s'\<rparr>"
      using CheckIfDue_none [OF Suc.prems(2,3)] by blast
    from s'(4) have "IntState.more s' = IntState.more s" "level s' = level s"
      "status s' = status s" "stats s' = stats s" "inHandler s' = inHandler s"
      by (metis IntState.ext_inject IntState.surjective IntState.update_convs(3))+
    moreover from this(1) have "env s'" using env_more [of s s'] Suc.prems(1) by simp
    ultimately show ?thesis using s' Suc.prems by (auto simp: same_time_def)
  next
    case timer
    then obtain w p where p: "pending s = [(w, p)]" "w \<le> totalTicks (stats s)"
      by (cases "pending s") (auto simp: due_def split: if_splits)
    with timer CheckIfDue_only_timer [OF Suc.prems(3), of w p False] Suc.prems show ?thesis
      by auto
  next
    case fire
    obtain s1 where s1: "CheckIfDue h dl False s = Inr (True, s1)"
        "env s1" "queue_ok known s1" "level s1 = IntOff" "\<not> inHandler s1"
        "same_time s s1" "due s1 = tl (due s)" "status s1 = status s"
      using CheckIfDue_due [OF Suc.prems(1-3) fire] by blast
    have "length (due s1) < fuel" using s1(7) Suc.prems(4) fire(1) by (cases "due s") auto
    from Suc.IH [OF s1(2-4) this] obtain s' where s': "fireAllDue fuel h dl s1 = Inr s'"
        "env s'" "queue_ok known s'" "level s' = IntOff" "same_time s1 s'"
        "status s1 \<noteq> IdleMode \<longrightarrow> due s' = []" "status s' = status s1" "\<not> inHandler s'"
      using s1(5) by blast
    have "fireAllDue (Suc fuel) h dl s = Inr s'" using s1(1) s'(1) by simp
    with s' s1(8) same_time_trans [OF s1(6) s'(5)] show ?thesis by auto
  qed
qed simp

lemma OneTick_spec:
  assumes "env s" and "queue_ok known s" and "status s \<noteq> IdleMode"
    and "\<not> inHandler s"
  shows "\<exists>s3. OneTick h dl yield s = (if yieldOnReturn s3
      then andThen (yield (s3\<lparr>yieldOnReturn := False, status := SystemMode\<rparr>))
             (\<lambda>s4. Inr (s4\<lparr>status := status s\<rparr>))
      else Inr s3) \<and>
    env s3 \<and> queue_ok known s3 \<and> level s3 = IntOn \<and> \<not> inHandler s3 \<and>
    due s3 = [] \<and> status s3 = status s \<and> same_time (advanceTime s) s3"
proof -
  let ?s1 = "ChangeLevel IntOn IntOff (advanceTime s)"
  have s1: "env ?s1" "queue_ok known ?s1" "level ?s1 = IntOff" "status ?s1 = status s"
    "same_time (advanceTime s) ?s1" "\<not> inHandler ?s1"
    using assms by (auto simp: env_updates advanceTime_def ChangeLevel_def queue_ok_def pending_ok_def same_time_def Let_def)
  have "length (due ?s1) < Suc (length (pending ?s1))"
    using length_filter_le by (auto simp: due_def less_Suc_eq_le)
  from fireAllDue_spec [OF s1(1-3) this] assms(3) s1(4,6) obtain s2 where
    s2: "fireAllDue (Suc (length (pending ?s1))) h dl ?s1 = Inr s2"
      "env s2" "queue_ok known s2" "same_time ?s1 s2" "due s2 = []"
      "status s2 = status s" "\<not> inHandler s2"
    by auto
  have t: "same_time (advanceTime s) s2" by (rule same_time_trans [OF s1(5) s2(4)])
  have "OneTick h dl yield s = (if yieldOnReturn (ChangeLevel IntOff IntOn s2)
      then andThen (yield ((ChangeLevel IntOff IntOn s2)\<lparr>yieldOnReturn := False,
             status := SystemMode\<rparr>)) (\<lambda>s4. Inr (s4\<lparr>status := status s\<rparr>))
      else Inr (ChangeLevel IntOff IntOn s2))"
    using s2(1) by (simp add: env_updates OneTick_def fireTick_def Let_def del: fireAllDue.simps)
  then show ?thesis
    using s2 t by (intro exI [of _ "ChangeLevel IntOff IntOn s2"])
      (simp add: env_updates ChangeLevel_def queue_ok_def pending_ok_def due_def same_time_def)
qed

lemma Idle_halts:
  assumes "level s = IntOff"
    and "pending s = [] \<or> (\<exists>w p. pending s = [(w, p)] \<and> pi_type p = TimerInt)"
  shows "Idle h dl s = Inl Halted"
  using assms by (auto simp: Idle_def CheckIfDue_def fireInterrupt_def Let_def Halt_def)

lemma Idle_fires:
  assumes env: "env s" and ok: "queue_ok known s" and off: "level s = IntOff"
    and pend: "pending s = (w, p) # rest" and "\<not> (rest = [] \<and> pi_type p = TimerInt)"
  shows "\<exists>s'. Idle h dl s = Inr s' \<and> env s' \<and> queue_ok known s' \<and>
    level s' = IntOff \<and> status s' = SystemMode \<and> \<not> yieldOnReturn s' \<and> \<not> inHandler s' \<and>
    totalTicks (stats s') = max (totalTicks (stats s)) w \<and>
    (time_ok s \<longrightarrow> time_ok s')"
proof -
  let ?t = "totalTicks (stats s)"
  let ?s1 = "if w > ?t
    then s\<lparr>status := IdleMode, pending := rest, stats := (stats s)\<lparr>
           idleTicks := idleTicks (stats s) + (w - ?t), totalTicks := w\<rparr>\<rparr>
    else s\<lparr>status := IdleMode, pending := rest\<rparr>"
  have kn: "known (pi_handler p)" using ok pend by (simp add: queue_ok_def)
  have s1: "env ?s1" "queue_ok known ?s1" "level ?s1 = IntOff"
    "totalTicks (stats ?s1) = max ?t w" "time_ok s \<longrightarrow> time_ok ?s1"
    using env ok off pend by (auto simp: env_updates queue_ok_def pending_ok_def time_ok_def)
  have "\<not> (status ?s1 = IdleMode \<and> pi_type p = TimerInt \<and> pending ?s1 = [])"
    using assms(5) by auto
  from fireInterrupt_fires [OF s1(1-3) kn this, of w IdleMode] obtain s2 where
    s2: "fireInterrupt h dl w p IdleMode ?s1 = Inr (True, s2)" "env s2"
      "queue_ok known s2" "level s2 = IntOff" "\<not> inHandler s2" "same_time ?s1 s2"
    by blast
  have c: "CheckIfDue h dl True (s\<lparr>status := IdleMode\<rparr>) = Inr (True, s2)"
    using s2(1) off pend by (auto simp: CheckIfDue_def Let_def)
  have "length (due s2) < Suc (length (pending s2))"
    using length_filter_le by (auto simp: due_def less_Suc_eq_le)
  from fireAllDue_spec [OF s2(2-4) this] s2(5) obtain s3 where
    s3: "fireAllDue (Suc (length (pending s2))) h dl s2 = Inr s3" "env s3"
      "queue_ok known s3" "level s3 = IntOff" "\<not> inHandler s3" "same_time s2 s3"
    by blast
  have "Idle h dl s = Inr (s3\<lparr>yieldOnReturn := False, status := SystemMode\<rparr>)"
    using c s3(1) by (simp add: Idle_def del: fireAllDue.simps)
  moreover have "same_time ?s1 s3" by (rule same_time_trans [OF s2(6) s3(6)])
  then have "totalTicks (stats s3) = max ?t w" "time_ok s \<longrightarrow> time_ok s3"
    using s1(4,5) same_time_ok [of ?s1 s3] by (simp_all add: same_time_def)
  ultimately show ?thesis
    using s3 by (intro exI [of _ "s3\<lparr>yieldOnReturn := False, status := SystemMode\<rparr>"])
      (simp add: env_updates queue_ok_def pending_ok_def time_ok_def)
qed

end

subsection \<open>What handlers keep, interrupts keep\<close>

text \<open>
  A property \<open>Q\<close> of the state that does not look at the interrupt fields and that handlers
  keep with interrupts off is kept by \<open>CheckIfDue\<close>, \<open>fireAllDue\<close>, \<open>fireTick\<close> and \<open>Idle\<close>.
\<close>

locale interrupt_keeps =
  fixes h :: "IntHandler \<Rightarrow> int \<Rightarrow> 'a IntState_scheme \<Rightarrow> 'a IntState_scheme res"
    and dl :: "'a IntState_scheme \<Rightarrow> 'a IntState_scheme res"
    and Q :: "'a IntState_scheme \<Rightarrow> bool"
  assumes handler_keeps: "Q s \<Longrightarrow> level s = IntOff \<Longrightarrow> h k a s = Inr s' \<Longrightarrow> Q s' \<and> level s' = IntOff"
    and dl_keeps: "Q s \<Longrightarrow> dl s = Inr s' \<Longrightarrow> Q s' \<and> level s' = level s"
    and only_more: "IntState.more s = IntState.more s' \<Longrightarrow> Q s \<Longrightarrow> Q s'"
begin

lemma fireInterrupt_keeps:
  assumes "Q s" and "level s = IntOff" and "fireInterrupt h dl w p old s = Inr (b, s')"
  shows "Q s' \<and> level s' = IntOff"
proof (cases "status s = IdleMode \<and> pi_type p = TimerInt \<and> pending s = []")
  case True
  then have "s' = s\<lparr>pending := seq_insert (pending s) p w\<rparr>"
    using assms(3) by (auto simp: fireInterrupt_def)
  then show ?thesis using only_more [OF _ assms(1), of s'] assms(2) by simp
next
  case False
  then obtain s1 s2 where s1: "dl s = Inr s1"
      "h (pi_handler p) (pi_arg p) (s1\<lparr>inHandler := True, status := SystemMode\<rparr>) = Inr s2"
      "s' = s2\<lparr>status := old, inHandler := False\<rparr>"
    using assms(3) by (auto simp: fireInterrupt_def res_simps split: if_splits)
  have "Q s1" "level s1 = IntOff" using dl_keeps [OF assms(1) s1(1)] assms(2) by simp_all
  then have "Q (s1\<lparr>inHandler := True, status := SystemMode\<rparr>)"
    using only_more [of s1] by simp
  with handler_keeps [OF _ _ s1(2)] \<open>level s1 = IntOff\<close> have "Q s2" "level s2 = IntOff" by simp_all
  then show ?thesis using only_more [of s2 s'] s1(3) by simp
qed

lemma CheckIfDue_keeps:
  assumes "Q s" and "CheckIfDue h dl adv s = Inr (b, s')"
  shows "Q s' \<and> level s' = IntOff"
proof (cases "pending s")
  case Nil
  then show ?thesis using assms by (auto simp: CheckIfDue_def ASSERT_eq_Inr)
next
  case (Cons e rest)
  obtain w p where e: "e = (w, p)" by (cases e)
  have off: "level s = IntOff" using assms(2) by (auto simp: CheckIfDue_def ASSERT_eq_Inr)
  let ?t = "totalTicks (stats s)"
  let ?s1 = "s\<lparr>pending := rest\<rparr>"
  let ?s2 = "?s1\<lparr>stats := (stats s)\<lparr>idleTicks := idleTicks (stats s) + (w - ?t), totalTicks := w\<rparr>\<rparr>"
  consider "fireInterrupt h dl w p (status s) ?s2 = Inr (b, s')"
    | "s' = ?s1\<lparr>pending := seq_insert rest p w\<rparr>"
    | "fireInterrupt h dl w p (status s) ?s1 = Inr (b, s')"
    using assms(2) off Cons e by (auto simp: CheckIfDue_def Let_def split: if_splits)
  then show ?thesis
  proof cases
    case 1 then show ?thesis using fireInterrupt_keeps [OF _ _ 1] only_more [OF _ assms(1), of ?s2] off by simp
  next
    case 2 then show ?thesis using only_more [OF _ assms(1), of s'] off by simp
  next
    case 3 then show ?thesis using fireInterrupt_keeps [OF _ _ 3] only_more [OF _ assms(1), of ?s1] off by simp
  qed
qed

lemma fireAllDue_keeps:
  "Q s \<Longrightarrow> fireAllDue fuel h dl s = Inr s' \<Longrightarrow> Q s' \<and> level s' = IntOff"
proof (induction fuel arbitrary: s)
  case (Suc fuel)
  then obtain b s1 where c: "CheckIfDue h dl False s = Inr (b, s1)"
      "(if b then fireAllDue fuel h dl s1 else Inr s1) = Inr s'"
    by (auto simp: res_simps)
  with CheckIfDue_keeps [OF Suc.prems(1) c(1)] Suc.IH [of s1] show ?case
    by (auto split: if_splits)
qed simp

lemma fireTick_keeps:
  assumes "Q s" and "fireTick h dl s = Inr s'"
  shows "Q s' \<and> level s' = IntOff"
proof -
  let ?s = "ChangeLevel IntOn IntOff (advanceTime s)"
  have "Q ?s" using only_more [OF _ assms(1), of ?s]
    by (simp add: ChangeLevel_def advanceTime_def Let_def split: if_splits)
  then show ?thesis using fireAllDue_keeps assms(2) unfolding fireTick_def Let_def by blast
qed

lemma Idle_keeps:
  assumes "Q s" and "Idle h dl s = Inr s'"
  shows "Q s' \<and> level s' = IntOff"
proof -
  obtain s1 s2 where s1: "CheckIfDue h dl True (s\<lparr>status := IdleMode\<rparr>) = Inr (True, s1)"
      "fireAllDue (Suc (length (pending s1))) h dl s1 = Inr s2"
      "s' = s2\<lparr>yieldOnReturn := False, status := SystemMode\<rparr>"
    using assms(2) by (auto simp: Idle_def Halt_def res_simps simp del: fireAllDue.simps split: if_splits)
  have "Q (s\<lparr>status := IdleMode\<rparr>)" using only_more [OF _ assms(1)] by simp
  with CheckIfDue_keeps s1(1) have "Q s1" by blast
  with fireAllDue_keeps s1(2) have "Q s2" "level s2 = IntOff" by blast+
  with only_more [of s2 s'] s1(3) show ?thesis by simp
qed

end

subsection \<open>The timer keeps the contract\<close>

lemma TimeOfNextInterrupt_positive: "0 < fst (TimeOfNextInterrupt randomize s)"
proof -
  have "0 < 1 + int (rng s (rngPos s)) mod 200" by (rule add_pos_nonneg) simp_all
  then show ?thesis
    by (simp add: TimeOfNextInterrupt_def Random_def TimerTicks_def smod_nonneg split_beta)
qed

lemma TimerExpired_ok:
  assumes "pending_ok s" and "inHandler s"
  shows "\<exists>s'. TimerExpired randomize this s = Inr s' \<and> pending_ok s' \<and> due s' = due s \<and>
    level s' = level s \<and> inHandler s' \<and> stats s' = stats s \<and> status s' = status s \<and>
    IntState.more s' = IntState.more s \<and> rng s' = rng s \<and>
    yieldOnReturn s' = (yieldOnReturn s \<or> status s \<noteq> IdleMode) \<and>
    (\<exists>p w. pi_handler p = TimerHandler \<and> set (pending s') = insert (w, p) (set (pending s)))"
proof -
  obtain t s1 where t: "TimeOfNextInterrupt randomize s = (t, s1)" by (cases "TimeOfNextInterrupt randomize s")
  have "0 < t" using TimeOfNextInterrupt_positive [of randomize s] t by simp
  obtain r where r: "s1 = s\<lparr>rngPos := r\<rparr>"
  proof
    show "s1 = s\<lparr>rngPos := rngPos s1\<rparr>"
      using t by (auto simp: TimeOfNextInterrupt_def Random_def split: if_splits)
  qed
  have "pending_ok s1" "due s1 = due s" using assms(1) r by (simp_all add: pending_ok_def due_def)
  with Schedule_spec [OF \<open>0 < t\<close>, of s1 TimerHandler this TimerInt] obtain q where
    q: "Schedule TimerHandler this t TimerInt s1 = Inr (s1\<lparr>pending := q\<rparr>)"
    "pending_ok (s1\<lparr>pending := q\<rparr>)" "due (s1\<lparr>pending := q\<rparr>) = due s"
    "mset q = add_mset (totalTicks (stats s1) + t,
      PendingInterrupt_new TimerHandler this (totalTicks (stats s1) + t) TimerInt) (mset (pending s1))"
    by (metis IntState.simps(3) IntState.update_convs(3) IntState.select_convs(3) IntState.surjective)
  have "set q = insert (totalTicks (stats s1) + t,
      PendingInterrupt_new TimerHandler this (totalTicks (stats s1) + t) TimerInt) (set (pending s))"
    using arg_cong [OF q(4), of set_mset] r by simp
  then have "\<exists>p w. pi_handler p = TimerHandler \<and> set q = insert (w, p) (set (pending s))"
    by (intro exI conjI) (auto simp: PendingInterrupt_new_def)
  with q(1-3) show ?thesis
    using t assms(2) r
    by (simp add: TimerExpired_def TimerInterruptHandler_def YieldOnReturn_def pending_ok_def
        due_def)
qed

lemma TimerExpired_queue:
  assumes "queue_ok (\<lambda>k. k = TimerHandler) s" and "inHandler s"
  shows "\<exists>s'. TimerExpired randomize this s = Inr s' \<and> queue_ok (\<lambda>k. k = TimerHandler) s' \<and> due s' = due s \<and>
    level s' = level s \<and> inHandler s' \<and> same_time s s' \<and> IntState.more s' = IntState.more s"
  using TimerExpired_ok [of s randomize this] assms by (auto simp: queue_ok_def same_time_def)

end
