(* ===== verification/Nachos_Thread.thy ===== *)
theory Nachos_Thread
  imports Nachos_Interrupt
begin

section \<open>Threads, scheduler, semaphores: threads/thread.cc, scheduler.cc, synch.cc\<close>

text \<open>
  Thread control blocks, the ready list and the semaphores, as an extension of the
  interrupt state. Threads and semaphores are addressed by numbers, as the code addresses
  them by pointers. A context switch hands the processor to another thread's saved
  registers, so a routine that calls \<open>SWITCH\<close> is modelled by its two halves: what the
  outgoing thread does up to the switch (\<open>_out\<close>) and what it does when it is switched
  back in (\<open>_in\<close>). Under \<open>USER_PROGRAM\<close> the scheduler also saves and restores the user
  registers and the page table; these two calls are the arguments \<open>save\<close> and \<open>restore\<close>.
\<close>

subsection \<open>The data\<close>

datatype ThreadStatus = JUST_CREATED | RUNNING | READY | BLOCKED

text \<open>The code addresses a thread's first frame is filled with.\<close>

datatype CodePtr = ThreadRoot | InterruptEnable | ThreadFinish | Func nat

record StartFrame =
  PCState :: CodePtr
  StartupPCState :: CodePtr
  InitialPCState :: CodePtr
  InitialArgState :: int
  WhenDonePCState :: CodePtr

record Thread =
  t_name :: string
  t_status :: ThreadStatus
  t_pid :: int
  t_stack :: "32 word option"
  t_frame :: "StartFrame option"
  t_userRegisters :: "32 word list"
  t_space :: "nat option"

record Semaphore =
  sem_name :: string
  sem_value :: int
  sem_queue :: "(int \<times> nat) list"

record ThreadState = IntState +
  threads :: "nat \<rightharpoonup> Thread"
  nextThread :: nat
  readyList :: "(int \<times> nat) list"
  currentThread :: nat
  threadToBeDestroyed :: "nat option"
  ProcessId :: int
  semaphores :: "nat \<rightharpoonup> Semaphore"
  nextSemaphore :: nat

type_synonym 'a handlers =
  "IntHandler \<Rightarrow> int \<Rightarrow> 'a ThreadState_scheme \<Rightarrow> 'a ThreadState_scheme res"
type_synonym 'a action = "'a ThreadState_scheme \<Rightarrow> 'a ThreadState_scheme res"

definition STACK_FENCEPOST :: "32 word" where "STACK_FENCEPOST = 0xdeadbeef"

subsection \<open>Thread control blocks (thread.cc)\<close>

text \<open>The constructor sets neither \<open>PID\<close> nor the saved user registers: they hold whatever was in memory (\<open>junk\<close>).\<close>

definition Thread_new :: "string \<Rightarrow> int \<times> 32 word list \<Rightarrow> 'a ThreadState_scheme \<Rightarrow> nat \<times> 'a ThreadState_scheme" where
  "Thread_new threadName junk s = (nextThread s,
     s\<lparr>threads := (threads s)(nextThread s \<mapsto> \<lparr>t_name = threadName, t_status = JUST_CREATED,
         t_pid = fst junk, t_stack = None, t_frame = None,
         t_userRegisters = snd junk, t_space = None\<rparr>),
       nextThread := Suc (nextThread s)\<rparr>)"

definition thread_at :: "nat \<Rightarrow> 'a ThreadState_scheme \<Rightarrow> Thread res" where
  "thread_at t s = (case threads s t of None \<Rightarrow> Inl NullPointer | Some th \<Rightarrow> Inr th)"

definition update_thread :: "nat \<Rightarrow> (Thread \<Rightarrow> Thread) \<Rightarrow> 'a action" where
  "update_thread t f s = andThen (thread_at t s) (\<lambda>th. Inr (s\<lparr>threads := (threads s)(t \<mapsto> f th)\<rparr>))"

definition setThreadStatus :: "nat \<Rightarrow> ThreadStatus \<Rightarrow> 'a action" where
  "setThreadStatus t st s = update_thread t (\<lambda>th. th\<lparr>t_status := st\<rparr>) s"

definition CreatId :: "nat \<Rightarrow> 'a action" where
  "CreatId t s = (let s1 = s\<lparr>ProcessId := ProcessId s + 1\<rparr>
     in update_thread t (\<lambda>th. th\<lparr>t_pid := ProcessId s1\<rparr>) s1)"

definition GetId :: "nat \<Rightarrow> 'a ThreadState_scheme \<Rightarrow> int res" where
  "GetId t s = andThen (thread_at t s) (\<lambda>th. Inr (t_pid th))"

text \<open>
  \<open>StackAllocate\<close>: a fresh stack with the fence post at its bottom, and the start frame that
  makes \<open>SWITCH\<close> enter \<open>ThreadRoot\<close>, enable interrupts, call \<open>func(arg)\<close> and finish.
\<close>

definition StackAllocate :: "nat \<Rightarrow> nat \<Rightarrow> int \<Rightarrow> 'a action" where
  "StackAllocate t func arg s = update_thread t (\<lambda>th. th\<lparr>
     t_stack := Some STACK_FENCEPOST,
     t_frame := Some \<lparr>PCState = ThreadRoot, StartupPCState = InterruptEnable,
       InitialPCState = Func func, InitialArgState = arg, WhenDonePCState = ThreadFinish\<rparr>\<rparr>) s"

definition CheckOverflow :: "nat \<Rightarrow> 'a action" where
  "CheckOverflow t s = andThen (thread_at t s) (\<lambda>th.
     case t_stack th of None \<Rightarrow> Inr s | Some w \<Rightarrow> ASSERT (w = STACK_FENCEPOST) (Inr s))"

definition Thread_delete :: "nat \<Rightarrow> 'a action" where
  "Thread_delete t s = ASSERT (t \<noteq> currentThread s) (Inr (s\<lparr>threads := (threads s)(t := None)\<rparr>))"

subsection \<open>The scheduler (scheduler.cc)\<close>

definition ReadyToRun :: "nat \<Rightarrow> 'a action" where
  "ReadyToRun t s = andThen (setThreadStatus t READY s) (\<lambda>s1.
     Inr (s1\<lparr>readyList := seq_append (readyList s1) t\<rparr>))"

definition FindNextToRun :: "'a ThreadState_scheme \<Rightarrow> nat option \<times> 'a ThreadState_scheme" where
  "FindNextToRun s = (case seq_remove (readyList s) of
     (r, rest) \<Rightarrow> (map_option snd r, s\<lparr>readyList := rest\<rparr>))"

text \<open>
  \<open>SWITCH\<close> (assembly) saves the registers of the outgoing thread in its control block: from
  then on the block no longer holds the start frame that \<open>StackAllocate\<close> put there.
\<close>

definition SWITCH_save :: "nat \<Rightarrow> 'a action" where
  "SWITCH_save t s = update_thread t (\<lambda>th. th\<lparr>t_frame := None\<rparr>) s"

definition Run_out :: "'a action \<Rightarrow> nat \<Rightarrow> 'a action" where
  "Run_out save next s = (let oldThread = currentThread s in
     andThen (save s) (\<lambda>s1.
     andThen (CheckOverflow oldThread s1) (\<lambda>s2.
     andThen (setThreadStatus next RUNNING (s2\<lparr>currentThread := next\<rparr>)) (SWITCH_save oldThread))))"

definition Run_in :: "'a action \<Rightarrow> 'a action" where
  "Run_in restore s = andThen
     (case threadToBeDestroyed s of None \<Rightarrow> Inr s
      | Some t \<Rightarrow> andThen (Thread_delete t s) (\<lambda>s1. Inr (s1\<lparr>threadToBeDestroyed := None\<rparr>)))
     restore"

text \<open>
  What the thread switched to does first: \<open>ThreadRoot\<close> when it never ran, in which case it
  enables interrupts and calls its function without passing through \<open>Run\<close>, or else the
  rest of \<open>Run\<close>.
\<close>

definition switched_in :: "'a action \<Rightarrow> 'a action" where
  "switched_in restore s = andThen (thread_at (currentThread s) s) (\<lambda>th.
     case t_frame th of Some f \<Rightarrow> Inr s | None \<Rightarrow> Run_in restore s)"

subsection \<open>Fork, Yield, Sleep, Finish (thread.cc)\<close>

definition Fork :: "'a handlers \<Rightarrow> 'a action \<Rightarrow> 'a action \<Rightarrow> nat \<Rightarrow> nat \<Rightarrow> int \<Rightarrow> 'a action" where
  "Fork h dl yield t func arg s =
     andThen (StackAllocate t func arg s) (\<lambda>s1.
     andThen (SetLevel h dl yield IntOff s1) (\<lambda>(oldLevel, s2).
     andThen (ReadyToRun t s2) (\<lambda>s3.
     andThen (SetLevel h dl yield oldLevel s3) (\<lambda>(_, s4). Inr s4))))"

text \<open>
  \<open>Yield\<close> with interrupts off: \<open>True\<close> when the processor was handed over (the thread is on
  the ready list and will come back through \<open>Yield_in\<close>), \<open>False\<close> when nobody else is ready.
\<close>

definition Yield_body :: "'a action \<Rightarrow> nat \<Rightarrow> 'a ThreadState_scheme \<Rightarrow> (bool \<times> 'a ThreadState_scheme) res" where
  "Yield_body save this s = ASSERT (this = currentThread s)
     (case FindNextToRun s of
        (None, s1) \<Rightarrow> Inr (False, s1)
      | (Some next, s1) \<Rightarrow>
          andThen (ReadyToRun this s1) (\<lambda>s2.
          andThen (Run_out save next s2) (\<lambda>s3. Inr (True, s3))))"

definition Yield_out :: "'a handlers \<Rightarrow> 'a action \<Rightarrow> 'a action \<Rightarrow> 'a action \<Rightarrow> nat \<Rightarrow>
    'a ThreadState_scheme \<Rightarrow> ((bool \<times> IntStatus) \<times> 'a ThreadState_scheme) res" where
  "Yield_out h dl yield save this s =
     andThen (SetLevel h dl yield IntOff s) (\<lambda>(oldLevel, s1).
     andThen (Yield_body save this s1) (\<lambda>(switched, s2).
       if switched then Inr ((True, oldLevel), s2)
       else andThen (SetLevel h dl yield oldLevel s2) (\<lambda>(_, s3). Inr ((False, oldLevel), s3))))"

definition Yield_in :: "'a handlers \<Rightarrow> 'a action \<Rightarrow> 'a action \<Rightarrow> 'a action \<Rightarrow> IntStatus \<Rightarrow> 'a action" where
  "Yield_in h dl yield restore oldLevel s =
     andThen (Run_in restore s) (\<lambda>s1.
     andThen (SetLevel h dl yield oldLevel s1) (\<lambda>(_, s2). Inr s2))"

text \<open>
  The loop of \<open>Sleep\<close> idles until some thread is ready. With interrupts that fire for ever
  without waking a thread it never ends, so it takes a bound on the number of turns.
\<close>

fun sleepLoop :: "nat \<Rightarrow> 'a action \<Rightarrow> 'a ThreadState_scheme \<Rightarrow> (nat \<times> 'a ThreadState_scheme) res" where
  "sleepLoop 0 idle s = Inl Diverges"
| "sleepLoop (Suc fuel) idle s = (case FindNextToRun s of
     (Some next, s1) \<Rightarrow> Inr (next, s1)
   | (None, s1) \<Rightarrow> andThen (idle s1) (sleepLoop fuel idle))"

definition Sleep_out :: "nat \<Rightarrow> 'a action \<Rightarrow> 'a action \<Rightarrow> nat \<Rightarrow> 'a action" where
  "Sleep_out fuel idle save this s = ASSERT (this = currentThread s) (ASSERT (level s = IntOff)
     (andThen (setThreadStatus this BLOCKED s) (\<lambda>s1.
      andThen (sleepLoop fuel idle s1) (\<lambda>(next, s2). Run_out save next s2))))"

definition Finish_body :: "nat \<Rightarrow> 'a action \<Rightarrow> 'a action \<Rightarrow> nat \<Rightarrow> 'a action" where
  "Finish_body fuel idle save this s = ASSERT (this = currentThread s)
     (Sleep_out fuel idle save this (s\<lparr>threadToBeDestroyed := Some (currentThread s)\<rparr>))"

definition Finish_out :: "'a handlers \<Rightarrow> 'a action \<Rightarrow> 'a action \<Rightarrow> nat \<Rightarrow> 'a action \<Rightarrow> 'a action \<Rightarrow> nat \<Rightarrow> 'a action" where
  "Finish_out h dl yield fuel idle save this s =
     andThen (SetLevel h dl yield IntOff s) (\<lambda>(_, s1).
     Finish_body fuel idle save this s1)"

subsection \<open>Semaphores (synch.cc)\<close>

definition Semaphore_new :: "string \<Rightarrow> int \<Rightarrow> 'a ThreadState_scheme \<Rightarrow> nat \<times> 'a ThreadState_scheme" where
  "Semaphore_new debugName initialValue s = (nextSemaphore s,
     s\<lparr>semaphores := (semaphores s)(nextSemaphore s \<mapsto>
         \<lparr>sem_name = debugName, sem_value = initialValue, sem_queue = []\<rparr>),
       nextSemaphore := Suc (nextSemaphore s)\<rparr>)"

definition sem_at :: "nat \<Rightarrow> 'a ThreadState_scheme \<Rightarrow> Semaphore res" where
  "sem_at m s = (case semaphores s m of None \<Rightarrow> Inl NullPointer | Some x \<Rightarrow> Inr x)"

definition set_sem :: "nat \<Rightarrow> Semaphore \<Rightarrow> 'a ThreadState_scheme \<Rightarrow> 'a ThreadState_scheme" where
  "set_sem m x s = s\<lparr>semaphores := (semaphores s)(m \<mapsto> x)\<rparr>"

text \<open>
  One turn of the loop of \<open>P\<close>, with interrupts off: \<open>True\<close> when the semaphore was available
  and has been taken; otherwise the thread has queued itself and gone to sleep, and the
  loop starts over when it is switched back in.
\<close>

definition P_turn :: "nat \<Rightarrow> 'a action \<Rightarrow> 'a action \<Rightarrow> nat \<Rightarrow>
    'a ThreadState_scheme \<Rightarrow> (bool \<times> 'a ThreadState_scheme) res" where
  "P_turn fuel idle save m s = andThen (sem_at m s) (\<lambda>x.
     if sem_value x = 0 then
       andThen (Sleep_out fuel idle save (currentThread s)
                 (set_sem m (x\<lparr>sem_queue := seq_append (sem_queue x) (currentThread s)\<rparr>) s))
         (\<lambda>s1. Inr (False, s1))
     else Inr (True, set_sem m (x\<lparr>sem_value := sem_value x - 1\<rparr>) s))"

definition P_out :: "'a handlers \<Rightarrow> 'a action \<Rightarrow> 'a action \<Rightarrow> nat \<Rightarrow> 'a action \<Rightarrow> 'a action \<Rightarrow> nat \<Rightarrow>
    'a ThreadState_scheme \<Rightarrow> ((bool \<times> IntStatus) \<times> 'a ThreadState_scheme) res" where
  "P_out h dl yield fuel idle save m s =
     andThen (SetLevel h dl yield IntOff s) (\<lambda>(oldLevel, s1).
     andThen (P_turn fuel idle save m s1) (\<lambda>(taken, s2).
       if taken
       then andThen (SetLevel h dl yield oldLevel s2) (\<lambda>(_, s3). Inr ((True, oldLevel), s3))
       else Inr ((False, oldLevel), s2)))"

definition P_in :: "'a handlers \<Rightarrow> 'a action \<Rightarrow> 'a action \<Rightarrow> nat \<Rightarrow> 'a action \<Rightarrow> 'a action \<Rightarrow> 'a action \<Rightarrow>
    nat \<Rightarrow> IntStatus \<Rightarrow> 'a ThreadState_scheme \<Rightarrow> ((bool \<times> IntStatus) \<times> 'a ThreadState_scheme) res" where
  "P_in h dl yield fuel idle save restore m oldLevel s =
     andThen (Run_in restore s) (\<lambda>s1.
     andThen (P_turn fuel idle save m s1) (\<lambda>(taken, s2).
       if taken
       then andThen (SetLevel h dl yield oldLevel s2) (\<lambda>(_, s3). Inr ((True, oldLevel), s3))
       else Inr ((False, oldLevel), s2)))"

definition V_body :: "nat \<Rightarrow> 'a action" where
  "V_body m s = andThen (sem_at m s) (\<lambda>x.
     case seq_remove (sem_queue x) of (r, rest) \<Rightarrow>
       (let s1 = set_sem m (x\<lparr>sem_queue := rest\<rparr>) s
        in andThen (case r of None \<Rightarrow> Inr s1 | Some (_, t) \<Rightarrow> ReadyToRun t s1) (\<lambda>s2.
           andThen (sem_at m s2) (\<lambda>x2.
             Inr (set_sem m (x2\<lparr>sem_value := sem_value x2 + 1\<rparr>) s2)))))"

definition V :: "'a handlers \<Rightarrow> 'a action \<Rightarrow> 'a action \<Rightarrow> nat \<Rightarrow> 'a action" where
  "V h dl yield m s =
     andThen (SetLevel h dl yield IntOff s) (\<lambda>(oldLevel, s1).
     andThen (V_body m s1) (\<lambda>s2.
     andThen (SetLevel h dl yield oldLevel s2) (\<lambda>(_, s3). Inr s3)))"

text \<open>
  Locks and condition variables are the empty bodies of \<open>synch.cc\<close>: acquiring or releasing
  does nothing, \<open>Wait\<close> fails its assertion, \<open>Signal\<close> and \<open>Broadcast\<close> do nothing.
\<close>

definition Lock_Acquire :: "'a action" where "Lock_Acquire s = Inr s"
definition Lock_Release :: "'a action" where "Lock_Release s = Inr s"
definition Condition_Wait :: "'a action" where "Condition_Wait s = ASSERT False (Inr s)"
definition Condition_Signal :: "'a action" where "Condition_Signal s = Inr s"
definition Condition_Broadcast :: "'a action" where "Condition_Broadcast s = Inr s"

subsection \<open>Starting the kernel (Initialize of system.cc)\<close>

text \<open>
  The part of \<open>Initialize\<close> that sets the thread system up: the interrupt simulation and the ready list are made,
  the timer is started if context switches are to be random, and the code that is running
  becomes the thread \<open>main\<close>. What follows it, enabling interrupts, is an ordinary \<open>Enable\<close>.
\<close>

definition Initialize_kernel :: "bool \<Rightarrow> int \<times> 32 word list \<Rightarrow> 'a action" where
  "Initialize_kernel randomYield junk s =
     (let s1 = (Interrupt_new s)\<lparr>stats := Statistics_new, readyList := []\<rparr>
      in andThen (if randomYield then Timer_new randomYield 0 s1 else Inr s1) (\<lambda>s2.
         let (t, s3) = Thread_new ''main'' junk (s2\<lparr>threadToBeDestroyed := None\<rparr>)
         in setThreadStatus t RUNNING (s3\<lparr>currentThread := t\<rparr>)))"

subsection \<open>The invariant of the thread system\<close>

text \<open>
  The ready list holds exactly the threads whose status is \<open>READY\<close>, once each, apart from one
  thread \<open>ex\<close> that has just been taken off the list to be run (\<open>lists_inv_but\<close>); a semaphore
  never goes negative and its queue holds blocked threads, once each; no thread waits on
  two semaphores; only the current thread can have status \<open>RUNNING\<close>. While a thread other than the
  kernel's idle loop runs, the current thread does have it (\<open>running_inv\<close>), and a finished
  thread waiting to be destroyed is not on any list.
\<close>

definition stat :: "'a ThreadState_scheme \<Rightarrow> nat \<Rightarrow> ThreadStatus option" where
  "stat s t = map_option t_status (threads s t)"

definition ready :: "'a ThreadState_scheme \<Rightarrow> nat list" where
  "ready s = map snd (readyList s)"

definition waiters :: "'a ThreadState_scheme \<Rightarrow> nat \<Rightarrow> nat list" where
  "waiters s m = (case semaphores s m of None \<Rightarrow> [] | Some x \<Rightarrow> map snd (sem_queue x))"

definition ready_inv :: "nat option \<Rightarrow> 'a ThreadState_scheme \<Rightarrow> bool" where
  "ready_inv ex s \<longleftrightarrow> distinct (ready s) \<and>
     (\<forall>t. t \<in> set (ready s) \<longleftrightarrow> stat s t = Some READY \<and> ex \<noteq> Some t) \<and>
     (\<forall>t. ex = Some t \<longrightarrow> stat s t = Some READY)"

definition wait_inv :: "'a ThreadState_scheme \<Rightarrow> bool" where
  "wait_inv s \<longleftrightarrow>
     (\<forall>m. distinct (waiters s m) \<and> (\<forall>t \<in> set (waiters s m). stat s t = Some BLOCKED)) \<and>
     (\<forall>m n t. t \<in> set (waiters s m) \<longrightarrow> t \<in> set (waiters s n) \<longrightarrow> m = n)"

definition value_inv :: "'a ThreadState_scheme \<Rightarrow> bool" where
  "value_inv s \<longleftrightarrow> (\<forall>m x. semaphores s m = Some x \<longrightarrow> 0 \<le> sem_value x)"

definition run_inv :: "'a ThreadState_scheme \<Rightarrow> bool" where
  "run_inv s \<longleftrightarrow> (\<forall>t. stat s t = Some RUNNING \<longrightarrow> t = currentThread s)"

definition dead_inv :: "'a ThreadState_scheme \<Rightarrow> bool" where
  "dead_inv s \<longleftrightarrow> (\<forall>t. threadToBeDestroyed s = Some t \<longrightarrow>
     stat s t = Some BLOCKED \<and> (\<forall>m. t \<notin> set (waiters s m)))"

definition lists_inv_but :: "nat option \<Rightarrow> 'a ThreadState_scheme \<Rightarrow> bool" where
  "lists_inv_but ex s \<longleftrightarrow>
     ready_inv ex s \<and> wait_inv s \<and> value_inv s \<and> run_inv s \<and> dead_inv s"

definition lists_inv :: "'a ThreadState_scheme \<Rightarrow> bool" where
  "lists_inv s \<longleftrightarrow> lists_inv_but None s"

definition nobody_running :: "'a ThreadState_scheme \<Rightarrow> bool" where
  "nobody_running s \<longleftrightarrow> (\<forall>t. stat s t \<noteq> Some RUNNING)"

definition running_inv :: "'a ThreadState_scheme \<Rightarrow> bool" where
  "running_inv s \<longleftrightarrow> lists_inv s \<and> stat s (currentThread s) = Some RUNNING"

lemmas part_defs = ready_inv_def wait_inv_def value_inv_def run_inv_def dead_inv_def
lemmas inv_defs = lists_inv_def lists_inv_but_def running_inv_def part_defs

lemma thread_at_stat: "thread_at t s = Inr th \<Longrightarrow> stat s t = Some (t_status th)"
  by (auto simp: thread_at_def stat_def split: option.splits)

lemma stat_thread_at: "stat s t = Some st \<Longrightarrow> \<exists>th. thread_at t s = Inr th \<and> threads s t = Some th"
  by (auto simp: thread_at_def stat_def)

lemma setThreadStatus_spec:
  assumes "stat s t = Some st0"
  shows "\<exists>s'. setThreadStatus t st s = Inr s' \<and> s' = s\<lparr>threads := threads s'\<rparr> \<and>
    stat s' = (stat s)(t \<mapsto> st)"
  using stat_thread_at [OF assms]
  by (auto simp: setThreadStatus_def update_thread_def stat_def fun_eq_iff)

text \<open>How the derived views of the state move with its fields.\<close>

lemma view_threads [simp]:
  "ready (s\<lparr>threads := f\<rparr>) = ready s" "waiters (s\<lparr>threads := f\<rparr>) = waiters s"
  "ready (s\<lparr>currentThread := t\<rparr>) = ready s" "waiters (s\<lparr>currentThread := t\<rparr>) = waiters s"
  "ready (s\<lparr>threadToBeDestroyed := d\<rparr>) = ready s"
  "waiters (s\<lparr>threadToBeDestroyed := d\<rparr>) = waiters s"
  "stat (s\<lparr>currentThread := t\<rparr>) = stat s" "stat (s\<lparr>threadToBeDestroyed := d\<rparr>) = stat s"
  "stat (s\<lparr>readyList := q\<rparr>) = stat s" "waiters (s\<lparr>readyList := q\<rparr>) = waiters s"
  "ready (s\<lparr>readyList := q\<rparr>) = map snd q"
  "stat (set_sem m x s) = stat s" "ready (set_sem m x s) = ready s"
  "waiters (set_sem m x s) = (waiters s)(m := map snd (sem_queue x))"
  "semaphores (set_sem m x s) = (semaphores s)(m \<mapsto> x)"
  "currentThread (set_sem m x s) = currentThread s"
  "threadToBeDestroyed (set_sem m x s) = threadToBeDestroyed s"
  "level (set_sem m x s) = level s"
  "stat (s\<lparr>threads := f\<rparr>) = (\<lambda>t. map_option t_status (f t))"
  by (auto simp: ready_def waiters_def stat_def set_sem_def fun_eq_iff)

lemma snd_seq_append [simp]: "map snd (seq_append q t) = map snd q @ [t]"
  by (simp add: seq_append_def)

text \<open>
  The part of the state that \<open>lists_inv\<close> looks at; two states that agree on it satisfy the
  invariants together. Interrupt fields, extensions of the state and what a control block
  holds besides the status are not in it.
\<close>

definition same_threads :: "'a ThreadState_scheme \<Rightarrow> 'a ThreadState_scheme \<Rightarrow> bool" where
  "same_threads s s' \<longleftrightarrow> stat s' = stat s \<and> readyList s' = readyList s \<and>
     currentThread s' = currentThread s \<and> threadToBeDestroyed s' = threadToBeDestroyed s \<and>
     semaphores s' = semaphores s"

lemma same_threads_refl [simp]: "same_threads s s"
  by (simp add: same_threads_def)

lemma same_threads_views:
  assumes "same_threads s s'"
  shows "stat s' = stat s" "ready s' = ready s" "waiters s' = waiters s"
    "semaphores s' = semaphores s" "currentThread s' = currentThread s"
    "threadToBeDestroyed s' = threadToBeDestroyed s"
  using assms by (auto simp: same_threads_def stat_def ready_def waiters_def fun_eq_iff)

lemma same_threads_inv:
  assumes "same_threads s s'"
  shows "lists_inv s' = lists_inv s" "running_inv s' = running_inv s"
  using same_threads_views [OF assms] by (simp_all add: inv_defs)

lemma same_threads_int [simp]:
  "same_threads s (s\<lparr>level := a\<rparr>)" "same_threads s (s\<lparr>pending := b\<rparr>)"
  "same_threads s (s\<lparr>inHandler := c\<rparr>)" "same_threads s (s\<lparr>yieldOnReturn := c\<rparr>)"
  "same_threads s (s\<lparr>status := e\<rparr>)" "same_threads s (s\<lparr>stats := f\<rparr>)"
  by (simp_all add: same_threads_def stat_def fun_eq_iff)

subsection \<open>Each operation keeps the invariant\<close>

text \<open>
  How the invariant moves with the views of the state, one lemma per kind of change: a
  thread is added to the ready list, taken off it, run, blocked, or removed for good.
\<close>

lemma lists_inv_butI:
  "ready_inv ex s \<Longrightarrow> wait_inv s \<Longrightarrow> value_inv s \<Longrightarrow> run_inv s \<Longrightarrow> dead_inv s \<Longrightarrow> lists_inv_but ex s"
  by (simp add: lists_inv_but_def)

lemma lists_inv_butD:
  assumes "lists_inv_but ex s"
  shows "ready_inv ex s" and "wait_inv s" and "value_inv s" and "run_inv s" and "dead_inv s"
  using assms by (simp_all add: lists_inv_but_def)

lemma inv_make_ready:
  assumes inv: "lists_inv_but ex s" and t: "stat s t = Some st" "st \<noteq> READY"
    and nw: "\<And>m. t \<notin> set (waiters s m)" and nd: "threadToBeDestroyed s \<noteq> Some t"
    and st: "stat s' = (stat s)(t \<mapsto> READY)" and r: "ready s' = ready s @ [t]"
    and w: "waiters s' = waiters s" and sem: "semaphores s' = semaphores s"
    and c: "currentThread s' = currentThread s"
    and d: "threadToBeDestroyed s' = threadToBeDestroyed s"
  shows "lists_inv_but ex s'"
proof (rule lists_inv_butI)
  note parts = lists_inv_butD [OF inv]
  show "ready_inv ex s'" using parts(1) t by (auto simp: ready_inv_def st r)
  show "wait_inv s'" using parts(2) nw by (auto simp: wait_inv_def st w)
  show "value_inv s'" using parts(3) by (simp add: value_inv_def sem)
  show "run_inv s'" using parts(4) by (simp add: run_inv_def st c)
  show "dead_inv s'" using parts(5) nd by (auto simp: dead_inv_def st w d)
qed

lemma inv_pop:
  assumes inv: "lists_inv_but None s" and r: "ready s = t # ready s'"
    and st: "stat s' = stat s" and w: "waiters s' = waiters s" and sem: "semaphores s' = semaphores s"
    and c: "currentThread s' = currentThread s"
    and d: "threadToBeDestroyed s' = threadToBeDestroyed s"
  shows "lists_inv_but (Some t) s'"
proof (rule lists_inv_butI)
  note parts = lists_inv_butD [OF inv]
  have m: "\<And>u. u \<in> set (ready s) \<longleftrightarrow> stat s u = Some READY" "distinct (t # ready s')"
    using parts(1) by (auto simp: ready_inv_def r)
  show "ready_inv (Some t) s'" using m(2) by (auto simp: ready_inv_def st m(1) [symmetric] r)
  show "wait_inv s'" using parts(2) by (simp add: wait_inv_def st w)
  show "value_inv s'" using parts(3) by (simp add: value_inv_def sem)
  show "run_inv s'" using parts(4) by (simp add: run_inv_def st c)
  show "dead_inv s'" using parts(5) by (simp add: dead_inv_def st w d)
qed

lemma running_inv_run:
  assumes inv: "lists_inv_but (Some n) s" and nr: "nobody_running s"
    and st: "stat s' = (stat s)(n \<mapsto> RUNNING)" and r: "ready s' = ready s"
    and w: "waiters s' = waiters s" and c: "currentThread s' = n"
    and sem: "semaphores s' = semaphores s"
    and d: "threadToBeDestroyed s' = threadToBeDestroyed s"
  shows "running_inv s'"
proof -
  note parts = lists_inv_butD [OF inv]
  have n: "stat s n = Some READY" using parts(1) by (simp add: ready_inv_def)
  have "lists_inv_but None s'"
  proof (rule lists_inv_butI)
    show "ready_inv None s'" using parts(1) by (auto simp: ready_inv_def st r)
    show "wait_inv s'" using parts(2) n by (auto simp: wait_inv_def st w)
    show "value_inv s'" using parts(3) by (simp add: value_inv_def sem)
    show "run_inv s'" using nr by (simp add: run_inv_def nobody_running_def st c)
    show "dead_inv s'" using parts(5) n by (auto simp: dead_inv_def st w d)
  qed
  then show ?thesis by (simp add: running_inv_def lists_inv_def st c)
qed

lemma inv_bury:
  assumes inv: "lists_inv_but None s" and dead: "threadToBeDestroyed s = Some t"
    and st: "stat s' = (stat s)(t := None)" and r: "ready s' = ready s"
    and w: "waiters s' = waiters s" and c: "currentThread s' = currentThread s"
    and sem: "semaphores s' = semaphores s" and d: "threadToBeDestroyed s' = None"
  shows "lists_inv_but None s'"
proof (rule lists_inv_butI)
  note parts = lists_inv_butD [OF inv]
  have t: "stat s t = Some BLOCKED" "\<And>m. t \<notin> set (waiters s m)"
    using parts(5) dead by (auto simp: dead_inv_def)
  show "ready_inv None s'" using parts(1) t(1) by (auto simp: ready_inv_def st r)
  show "wait_inv s'" using parts(2) t(2) by (auto simp: wait_inv_def st w)
  show "value_inv s'" using parts(3) by (simp add: value_inv_def sem)
  show "run_inv s'" using parts(4) by (simp add: run_inv_def st c)
  show "dead_inv s'" by (simp add: dead_inv_def d)
qed

lemma inv_unqueue:
  assumes inv: "lists_inv_but ex s" and q: "waiters s m = t # rest"
    and w: "waiters s' = (waiters s)(m := rest)" and st: "stat s' = stat s"
    and r: "ready s' = ready s" and c: "currentThread s' = currentThread s"
    and sem: "value_inv s'" and d: "threadToBeDestroyed s' = threadToBeDestroyed s"
  shows "lists_inv_but ex s'" and "stat s t = Some BLOCKED" and "t \<notin> set (waiters s' k)"
    and "threadToBeDestroyed s \<noteq> Some t"
proof -
  note parts = lists_inv_butD [OF inv]
  have t: "t \<in> set (waiters s m)" and dist: "distinct (t # rest)" 
    using q parts(2) unfolding wait_inv_def by (simp, metis)
  have sub: "set (waiters s' j) \<subseteq> set (waiters s j)" for j using q by (auto simp: w)
  show "lists_inv_but ex s'"
  proof (rule lists_inv_butI)
    show "ready_inv ex s'" using parts(1) by (simp add: ready_inv_def st r)
    have "distinct (waiters s' j)" for j using parts(2) dist by (simp add: wait_inv_def w)
    then show "wait_inv s'" using parts(2) sub unfolding wait_inv_def st by blast
    show "value_inv s'" by (rule sem)
    show "run_inv s'" using parts(4) by (simp add: run_inv_def st c)
    show "dead_inv s'" using parts(5) sub unfolding dead_inv_def st d by blast
  qed
  show "stat s t = Some BLOCKED" using parts(2) t by (simp add: wait_inv_def)
  show "threadToBeDestroyed s \<noteq> Some t" using parts(5) t by (auto simp: dead_inv_def)
  show "t \<notin> set (waiters s' k)"
  proof
    assume a: "t \<in> set (waiters s' k)"
    with sub have "t \<in> set (waiters s k)" by blast
    with parts(2) t have "k = m" unfolding wait_inv_def by blast
    with a dist show False by (simp add: w)
  qed
qed

lemma inv_block:
  assumes inv: "running_inv s" and cur: "c = currentThread s"
    and st: "stat s' = (stat s)(c \<mapsto> BLOCKED)"
    and r: "ready s' = ready s" and c: "currentThread s' = c" and sem: "value_inv s'"
    and dw: "waiters s' = (waiters s)(m := waiters s m @ [c]) \<and> threadToBeDestroyed s' = threadToBeDestroyed s
      \<or> waiters s' = waiters s \<and> threadToBeDestroyed s' = Some c"
  shows "lists_inv s'" and "nobody_running s'"
proof -
  have inv': "lists_inv_but None s" and run: "stat s c = Some RUNNING"
    using inv cur by (simp_all add: running_inv_def lists_inv_def)
  note parts = lists_inv_butD [OF inv']
  have nw: "c \<notin> set (waiters s k)" for k using parts(2) run unfolding wait_inv_def by auto
  have nd: "threadToBeDestroyed s \<noteq> Some c" using parts(5) run by (auto simp: dead_inv_def)
  show "nobody_running s'" using parts(4) by (auto simp: nobody_running_def run_inv_def st cur)
  have "lists_inv_but None s'"
  proof (rule lists_inv_butI)
    show "ready_inv None s'" using parts(1) run by (auto simp: ready_inv_def st r)
    have d: "distinct (waiters s' k)" for k using parts(2) nw dw by (auto simp: wait_inv_def)
    have b: "u \<in> set (waiters s' k) \<Longrightarrow> stat s' u = Some BLOCKED" for u k
      using parts(2) dw by (auto simp: wait_inv_def st split: if_splits)
    have o: "u \<in> set (waiters s' k) \<Longrightarrow> u \<in> set (waiters s' j) \<Longrightarrow> j = k" for u j k
      using parts(2) dw nw unfolding wait_inv_def by (auto split: if_splits)
    show "wait_inv s'" unfolding wait_inv_def using d b o by blast
    show "value_inv s'" by (rule sem)
    show "run_inv s'" using parts(4) by (auto simp: run_inv_def st c cur)
    show "dead_inv s'" using parts(5) dw nd nw run by (auto simp: dead_inv_def st split: if_splits)
  qed
  then show "lists_inv s'" by (simp add: lists_inv_def)
qed

lemma ReadyToRun_spec:
  assumes "lists_inv_but ex s" and "stat s t = Some st" and "st \<noteq> READY"
    and "\<And>m. t \<notin> set (waiters s m)" and "threadToBeDestroyed s \<noteq> Some t"
  shows "\<exists>s'. ReadyToRun t s = Inr s' \<and> lists_inv_but ex s' \<and> stat s' = (stat s)(t \<mapsto> READY) \<and>
    ready s' = ready s @ [t] \<and> waiters s' = waiters s \<and> currentThread s' = currentThread s \<and>
    threadToBeDestroyed s' = threadToBeDestroyed s \<and> semaphores s' = semaphores s \<and>
    s' = s\<lparr>threads := threads s', readyList := readyList s'\<rparr>"
proof -
  obtain s1 where s1: "setThreadStatus t READY s = Inr s1" "s1 = s\<lparr>threads := threads s1\<rparr>"
      "stat s1 = (stat s)(t \<mapsto> READY)"
    using setThreadStatus_spec [OF assms(2)] by blast
  have v: "ready s1 = ready s" "waiters s1 = waiters s" "currentThread s1 = currentThread s"
    "threadToBeDestroyed s1 = threadToBeDestroyed s" "semaphores s1 = semaphores s"
    by (subst s1(2), simp)+
  let ?s = "s1\<lparr>readyList := seq_append (readyList s1) t\<rparr>"
  have r: "ready ?s = ready s @ [t]" using v(1) by (simp add: ready_def)
  have e: "?s = s\<lparr>threads := threads ?s, readyList := readyList ?s\<rparr>" by (subst s1(2), simp)
  have "lists_inv_but ex ?s"
    by (rule inv_make_ready [OF assms _ r]) (simp_all add: v s1(3))
  with s1 v r e show ?thesis by (simp add: ReadyToRun_def)
qed

lemma FindNextToRun_Some:
  assumes "lists_inv s" and "FindNextToRun s = (Some t, s')"
  shows "lists_inv_but (Some t) s'" and "ready s = t # ready s'"
    and "s' = s\<lparr>readyList := readyList s'\<rparr>"
proof -
  obtain k rest where r: "readyList s = (k, t) # rest" "s' = s\<lparr>readyList := rest\<rparr>"
    using assms(2) by (cases "readyList s") (auto simp: FindNextToRun_def)
  then show e: "ready s = t # ready s'" "s' = s\<lparr>readyList := readyList s'\<rparr>"
    by (simp_all add: ready_def)
  have v: "stat s' = stat s" "waiters s' = waiters s" "currentThread s' = currentThread s"
    "semaphores s' = semaphores s" "threadToBeDestroyed s' = threadToBeDestroyed s"
    using r(2) by simp_all
  show "lists_inv_but (Some t) s'"
    by (rule inv_pop [OF _ e(1) v(1,2,4,3,5)]) (use assms(1) in \<open>simp add: lists_inv_def\<close>)
qed

lemma FindNextToRun_None:
  "FindNextToRun s = (None, s') \<Longrightarrow> s' = s \<and> ready s = []"
  by (cases "readyList s") (auto simp: FindNextToRun_def ready_def)

lemma CheckOverflow_Inr: "CheckOverflow t s = Inr s' \<Longrightarrow> s' = s"
  by (auto simp: CheckOverflow_def ASSERT_def res_simps split: option.splits if_splits)

lemma setThreadStatus_Inr:
  assumes "setThreadStatus t st s = Inr s'"
  shows "\<exists>st0. stat s t = Some st0" and "s' = s\<lparr>threads := threads s'\<rparr>"
    and "stat s' = (stat s)(t \<mapsto> st)"
  using assms
  by (auto simp: setThreadStatus_def update_thread_def thread_at_def stat_def fun_eq_iff res_simps
      split: option.splits)

lemma ReadyToRun_Inr: "ReadyToRun t s = Inr s' \<Longrightarrow> \<exists>st. stat s t = Some st"
  unfolding ReadyToRun_def by (erule andThen_InrE) (blast dest: setThreadStatus_Inr(1))


subsection \<open>The contract of the calls around a switch, and what the operations keep under it\<close>

text \<open>
  \<open>idle\<close> is \<open>interrupt->Idle()\<close>, \<open>irq\<close> the handlers that run when interrupts are enabled:
  both may wake threads but keep the lists consistent. \<open>save\<close> and \<open>restore\<close> only copy
  registers. The lemmas are about what an operation leaves when it returns; a handler or
  a failed assertion may stop it.
\<close>

locale thread_env =
  fixes idle irq save restore :: "'a action"
  assumes idle_ok: "lists_inv s \<Longrightarrow> nobody_running s \<Longrightarrow> level s = IntOff \<Longrightarrow> idle s = Inr s' \<Longrightarrow>
      lists_inv s' \<and> nobody_running s' \<and> currentThread s' = currentThread s \<and> level s' = IntOff"
    and irq_ok: "running_inv s \<Longrightarrow> irq s = Inr s' \<Longrightarrow> running_inv s' \<and> currentThread s' = currentThread s"
    and save_ok: "save s = Inr s' \<Longrightarrow> same_threads s s'"
    and restore_ok: "restore s = Inr s' \<Longrightarrow> same_threads s s'"
begin

lemma Run_out_inv:
  assumes inv: "lists_inv_but (Some next) s" and nr: "nobody_running s"
    and run: "Run_out save next s = Inr s'"
  shows "running_inv s' \<and> currentThread s' = next \<and> waiters s' = waiters s \<and>
    semaphores s' = semaphores s \<and> ready s' = ready s"
proof -
  obtain s1 s2 where s1: "save s = Inr s1" "CheckOverflow (currentThread s) s1 = Inr s1"
      "setThreadStatus next RUNNING (s1\<lparr>currentThread := next\<rparr>) = Inr s2"
      "SWITCH_save (currentThread s) s2 = Inr s'"
    using run unfolding Run_out_def Let_def by (auto simp: res_simps dest: CheckOverflow_Inr)
  note v1 = same_threads_views [OF save_ok [OF s1(1)]]
  note v2 = setThreadStatus_Inr(2,3) [OF s1(3)]
  have v: "stat s2 = (stat s)(next \<mapsto> RUNNING)" "ready s2 = ready s" "waiters s2 = waiters s"
    "currentThread s2 = next" "semaphores s2 = semaphores s"
    "threadToBeDestroyed s2 = threadToBeDestroyed s"
    using v2(2) v1 by (simp, (subst v2(1), simp add: v1)+)
  obtain th where th: "threads s2 (currentThread s) = Some th"
      "s' = s2\<lparr>threads := (threads s2)(currentThread s \<mapsto> th\<lparr>t_frame := None\<rparr>)\<rparr>"
    using s1(4) by (auto simp: SWITCH_save_def update_thread_def thread_at_def res_simps
        split: option.splits)
  have st': "stat s' = stat s2"
    using th(1) by (simp add: th(2) fun_eq_iff) (simp add: stat_def)
  have v': "ready s' = ready s" "waiters s' = waiters s" "currentThread s' = next"
    "semaphores s' = semaphores s" "threadToBeDestroyed s' = threadToBeDestroyed s"
    using v by (simp_all add: th(2))
  have "running_inv s'"
    by (rule running_inv_run [OF inv nr _ v'(1,2,3,4,5)]) (simp add: st' v(1))
  with v' show ?thesis by simp
qed

lemma Run_in_inv:
  assumes "running_inv s" and "Run_in restore s = Inr s'"
  shows "running_inv s' \<and> currentThread s' = currentThread s \<and> ready s' = ready s \<and>
    waiters s' = waiters s \<and> semaphores s' = semaphores s \<and> threadToBeDestroyed s' = None"
proof (cases "threadToBeDestroyed s")
  case None
  with assms(2) have "restore s = Inr s'" by (simp add: Run_in_def)
  note v = same_threads_views [OF restore_ok [OF this]]
  with same_threads_inv [OF restore_ok [OF \<open>restore s = Inr s'\<close>]] assms(1) None show ?thesis
    by simp
next
  case (Some t)
  let ?s = "s\<lparr>threads := (threads s)(t := None), threadToBeDestroyed := None\<rparr>"
  have r: "restore ?s = Inr s'"
    using assms(2) Some by (auto simp: Run_in_def Thread_delete_def ASSERT_def res_simps split: if_splits)
  have st: "stat ?s = (stat s)(t := None)" by (auto simp: stat_def fun_eq_iff)
  have vs: "ready ?s = ready s" "waiters ?s = waiters s" "currentThread ?s = currentThread s"
    "semaphores ?s = semaphores s" "threadToBeDestroyed ?s = None" by simp_all
  have c: "stat s (currentThread s) = Some RUNNING" "lists_inv_but None s"
    using assms(1) by (simp_all add: running_inv_def lists_inv_def)
  have "lists_inv_but None ?s" by (rule inv_bury [OF c(2) Some st vs(1,2,3,4,5)])
  moreover have "stat s t = Some BLOCKED"
    using lists_inv_butD(5) [OF c(2)] Some by (simp add: dead_inv_def)
  then have "t \<noteq> currentThread s" using c(1) by auto
  ultimately have "running_inv ?s"
    using c(1) by (simp only: running_inv_def lists_inv_def st vs) simp
  note v = same_threads_views [OF restore_ok [OF r]]
  with same_threads_inv [OF restore_ok [OF r]] \<open>running_inv ?s\<close> show ?thesis
    using vs by simp
qed

lemma switched_in_inv:
  assumes "running_inv s" and "switched_in restore s = Inr s'"
  shows "running_inv s' \<and> currentThread s' = currentThread s \<and> ready s' = ready s \<and>
    waiters s' = waiters s \<and> semaphores s' = semaphores s"
  using assms Run_in_inv [OF assms(1)]
  by (auto simp: switched_in_def res_simps split: option.splits)

lemma Yield_body_inv:
  assumes inv: "running_inv s" and y: "Yield_body save (currentThread s) s = Inr (b, s')"
  shows "running_inv s' \<and> semaphores s' = semaphores s \<and>
    (if b then ready s = currentThread s' # butlast (ready s') \<and> last (ready s') = currentThread s
     else s' = s \<and> ready s = [])"
proof (cases "FindNextToRun s")
  case (Pair r s1)
  have inv': "lists_inv s" and run: "stat s (currentThread s) = Some RUNNING"
    using inv by (simp_all add: running_inv_def)
  show ?thesis
  proof (cases r)
    case None
    then show ?thesis using y Pair inv FindNextToRun_None [of s s1]
      by (auto simp: Yield_body_def)
  next
    case (Some n)
    have F: "FindNextToRun s = (Some n, s1)" using Pair Some by simp
    note f = FindNextToRun_Some [OF inv' F]
    have v1: "stat s1 = stat s" "waiters s1 = waiters s" "currentThread s1 = currentThread s"
      "threadToBeDestroyed s1 = threadToBeDestroyed s" "semaphores s1 = semaphores s"
      by (subst f(3), simp)+
    note parts = lists_inv_butD [OF inv' [unfolded lists_inv_def]]
    have nw: "currentThread s \<notin> set (waiters s1 m)" for m
      using parts(2) run unfolding wait_inv_def v1 by auto
    have nd: "threadToBeDestroyed s1 \<noteq> Some (currentThread s)"
      using parts(5) run by (auto simp: dead_inv_def v1)
    from ReadyToRun_spec [OF f(1), of "currentThread s" RUNNING] run nw nd obtain s2 where
      s2: "ReadyToRun (currentThread s) s1 = Inr s2" "lists_inv_but (Some n) s2"
        "stat s2 = (stat s)(currentThread s \<mapsto> READY)" "ready s2 = ready s1 @ [currentThread s]"
        "waiters s2 = waiters s" "semaphores s2 = semaphores s" "currentThread s2 = currentThread s"
      using v1 by auto
    have "nobody_running s2"
      using parts(4) by (auto simp: nobody_running_def run_inv_def s2(3))
    moreover have "Run_out save n s2 = Inr s'" "b"
      using y F s2(1) by (auto simp: Yield_body_def res_simps)
    ultimately show ?thesis
      using Run_out_inv [OF s2(2)] s2 f(2) by auto
  qed
qed

lemma sleepLoop_inv:
  "lists_inv s \<Longrightarrow> nobody_running s \<Longrightarrow> level s = IntOff \<Longrightarrow> sleepLoop fuel idle s = Inr (n, s') \<Longrightarrow>
   lists_inv_but (Some n) s' \<and> nobody_running s' \<and> currentThread s' = currentThread s"
proof (induction fuel arbitrary: s)
  case (Suc fuel)
  obtain r s1 where F: "FindNextToRun s = (r, s1)" by (cases "FindNextToRun s")
  show ?case
  proof (cases r)
    case None
    with FindNextToRun_None F have "s1 = s" by blast
    then obtain s2 where s2: "idle s = Inr s2" "sleepLoop fuel idle s2 = Inr (n, s')"
      using Suc.prems(4) F None by (auto simp: res_simps)
    note i = idle_ok [OF Suc.prems(1-3) s2(1)]
    show ?thesis using Suc.IH [OF _ _ _ s2(2)] i by simp
  next
    case (Some m)
    with Suc.prems(4) F have e: "m = n" "s1 = s'" by simp_all
    note f = FindNextToRun_Some [OF Suc.prems(1) F [unfolded Some e]]
    have v: "stat s' = stat s" "currentThread s' = currentThread s"
      by (subst f(3), simp)+
    show ?thesis using f(1) Suc.prems(2) v by (simp add: nobody_running_def)
  qed
qed simp

lemma Sleep_out_inv:
  assumes blocked: "\<And>s1. setThreadStatus this BLOCKED s = Inr s1 \<Longrightarrow> lists_inv s1 \<and> nobody_running s1"
    and sl: "Sleep_out fuel idle save this s = Inr s'"
  shows "running_inv s'"
proof -
  obtain s1 n s2 where s1: "setThreadStatus this BLOCKED s = Inr s1" "level s = IntOff"
      "sleepLoop fuel idle s1 = Inr (n, s2)" "Run_out save n s2 = Inr s'"
    using sl by (auto simp: Sleep_out_def ASSERT_eq_Inr res_simps)
  have "level s1 = IntOff" by (subst setThreadStatus_Inr(2) [OF s1(1)]) (simp add: s1(2))
  with sleepLoop_inv blocked [OF s1(1)] s1(3) Run_out_inv s1(4) show ?thesis by blast
qed

lemma Finish_body_inv:
  assumes inv: "running_inv s" and f: "Finish_body fuel idle save (currentThread s) s = Inr s'"
  shows "running_inv s'"
proof -
  let ?s = "s\<lparr>threadToBeDestroyed := Some (currentThread s)\<rparr>"
  have "Sleep_out fuel idle save (currentThread s) ?s = Inr s'"
    using f by (simp add: Finish_body_def)
  then show ?thesis
  proof (rule Sleep_out_inv [rotated])
    fix s1 assume s1: "setThreadStatus (currentThread s) BLOCKED ?s = Inr s1"
    note e = setThreadStatus_Inr(2,3) [OF s1]
    have v: "stat s1 = (stat s)(currentThread s \<mapsto> BLOCKED)"
      using e(2) by (simp add: stat_def fun_eq_iff)
    have w: "ready s1 = ready s" "waiters s1 = waiters s" "currentThread s1 = currentThread s"
      "semaphores s1 = semaphores s" "threadToBeDestroyed s1 = Some (currentThread s)"
      by (subst e(1), simp add: ready_def waiters_def fun_eq_iff)+
    have "value_inv s1" using inv w(4) by (simp add: inv_defs)
    with inv_block [OF inv refl v w(1,3)] w show "lists_inv s1 \<and> nobody_running s1" by blast
  qed
qed

lemma P_turn_inv:
  assumes inv: "running_inv s" and p: "P_turn fuel idle save m s = Inr (taken, s')"
  shows "running_inv s'"
proof -
  obtain x where x: "semaphores s m = Some x"
    using p by (auto simp: P_turn_def sem_at_def split: option.splits)
  have val: "0 \<le> sem_value x"
    using inv x lists_inv_butD(3) by (auto simp: running_inv_def lists_inv_def value_inv_def)
  have vi: "value_inv s" using inv by (simp add: running_inv_def lists_inv_def lists_inv_but_def)
  show ?thesis
  proof (cases "sem_value x = 0")
    case False
    let ?x = "x\<lparr>sem_value := sem_value x - 1\<rparr>"
    have s': "s' = set_sem m ?x s" using p x False by (simp add: P_turn_def sem_at_def)
    have w: "waiters s' = waiters s" using x by (auto simp: s' fun_eq_iff waiters_def)
    have "value_inv s'" using vi val False by (simp add: s' value_inv_def)
    then show ?thesis using inv w by (simp add: s' inv_defs)
  next
    case True
    let ?x = "x\<lparr>sem_queue := seq_append (sem_queue x) (currentThread s)\<rparr>"
    have "Sleep_out fuel idle save (currentThread s) (set_sem m ?x s) = Inr s'"
      using p x True by (auto simp: P_turn_def sem_at_def res_simps)
    then show ?thesis
    proof (rule Sleep_out_inv [rotated])
      fix s1 assume s1: "setThreadStatus (currentThread s) BLOCKED (set_sem m ?x s) = Inr s1"
      note e = setThreadStatus_Inr(2,3) [OF s1]
      have v: "stat s1 = (stat s)(currentThread s \<mapsto> BLOCKED)" using e(2) by simp
      have w: "ready s1 = ready s" "waiters s1 = (waiters s)(m := waiters s m @ [currentThread s])"
        "currentThread s1 = currentThread s" "threadToBeDestroyed s1 = threadToBeDestroyed s"
        "semaphores s1 = (semaphores s)(m \<mapsto> ?x)"
        by (subst e(1), simp add: waiters_def x)+
      have "value_inv s1" using vi val by (simp add: value_inv_def w(5))
      with inv_block [OF inv refl v w(1,3)] w show "lists_inv s1 \<and> nobody_running s1" by blast
    qed
  qed
qed

end

lemma V_body_spec:
  assumes inv: "lists_inv s" and m: "semaphores s m = Some x"
  shows "\<exists>s'. V_body m s = Inr s' \<and> lists_inv s' \<and> currentThread s' = currentThread s \<and>
    semaphores s' = (semaphores s)(m \<mapsto>
      x\<lparr>sem_value := sem_value x + 1, sem_queue := tl (sem_queue x)\<rparr>) \<and>
    (case waiters s m of
       [] \<Rightarrow> ready s' = ready s \<and> stat s' = stat s
     | t # _ \<Rightarrow> ready s' = ready s @ [t] \<and> stat s t = Some BLOCKED \<and>
         stat s' = (stat s)(t \<mapsto> READY)) \<and>
    threadToBeDestroyed s' = threadToBeDestroyed s \<and> nextSemaphore s' = nextSemaphore s \<and>
    s' = s\<lparr>threads := threads s', readyList := readyList s', semaphores := semaphores s'\<rparr>"
proof -
  have inv': "lists_inv_but None s" and vi: "value_inv s"
    using inv by (simp_all add: lists_inv_def lists_inv_but_def)
  have val: "0 \<le> sem_value x" using vi m by (simp add: value_inv_def)
  show ?thesis
  proof (cases "sem_queue x")
    case Nil
    have xe: "x\<lparr>sem_queue := []\<rparr> = x" using Nil by (cases x) simp
    let ?s = "set_sem m (x\<lparr>sem_value := sem_value x + 1\<rparr>) s"
    have r: "V_body m s = Inr ?s"
      using m Nil by (simp add: V_body_def sem_at_def xe) (simp add: set_sem_def)
    have w: "waiters ?s = waiters s" using m Nil by (auto simp: fun_eq_iff waiters_def)
    have "value_inv ?s" using vi val by (simp add: value_inv_def)
    then have "lists_inv ?s" using inv' w by (simp add: inv_defs)
    then show ?thesis using r w m Nil xe by (simp add: waiters_def) (cases x, simp add: set_sem_def)
  next
    case (Cons e rest)
    obtain k t where e: "e = (k, t)" by (cases e)
    let ?s1 = "set_sem m (x\<lparr>sem_queue := rest\<rparr>) s"
    have q: "waiters s m = t # map snd rest" using m Cons e by (simp add: waiters_def)
    have v1: "value_inv ?s1" using vi val by (simp add: value_inv_def)
    note u = inv_unqueue [OF inv' q, of ?s1]
    have inv1: "lists_inv_but None ?s1" "stat ?s1 t = Some BLOCKED" "\<And>n. t \<notin> set (waiters ?s1 n)"
      "threadToBeDestroyed ?s1 \<noteq> Some t"
      using u v1 by simp_all
    obtain s2 where s2: "ReadyToRun t ?s1 = Inr s2" "lists_inv_but None s2"
        "stat s2 = (stat ?s1)(t \<mapsto> READY)" "ready s2 = ready ?s1 @ [t]" "waiters s2 = waiters ?s1"
        "currentThread s2 = currentThread ?s1" "threadToBeDestroyed s2 = threadToBeDestroyed ?s1"
        "semaphores s2 = semaphores ?s1"
        "s2 = ?s1\<lparr>threads := threads s2, readyList := readyList s2\<rparr>"
      using ReadyToRun_spec [OF inv1(1,2) _ inv1(3,4)] by blast
    let ?s = "set_sem m (x\<lparr>sem_value := sem_value x + 1, sem_queue := rest\<rparr>) s2"
    have r: "V_body m s = Inr ?s"
      using m Cons e s2(1,8) by (cases x) (simp add: V_body_def sem_at_def)
    have w: "waiters ?s = waiters s2" using s2(5) by (auto simp: fun_eq_iff)
    have "value_inv ?s" using vi val s2(8) by (simp add: value_inv_def)
    then have "lists_inv ?s" using s2(2) w by (simp add: inv_defs)
    moreover have "?s = s\<lparr>threads := threads ?s, readyList := readyList ?s, semaphores := semaphores ?s\<rparr>"
      by (subst s2(9)) (simp add: set_sem_def s2(8))
    moreover have "nextSemaphore ?s = nextSemaphore s"
      by (subst s2(9)) (simp add: set_sem_def)
    ultimately show ?thesis
      using r s2 q Cons inv1(2) by simp
  qed
qed

subsection \<open>The kernel as a transition system\<close>

text \<open>
  What the current thread may do, one event per kernel operation with interrupts off, and
  the interrupts in between. A switch and the first thing the new thread does (\<open>switched_in\<close>) are one step.
  The threads' own programs are not fixed: any operation may be tried at any time, on any
  existing semaphore.
\<close>

datatype KernelEvent = EIrq | ELevel | ENewSem nat int | ESpawn nat | EYield | ETake nat
  | ESleep nat | ESignal nat | EFinish

inductive kstep :: "'a action \<Rightarrow> 'a action \<Rightarrow> 'a action \<Rightarrow> 'a action \<Rightarrow> nat \<Rightarrow> KernelEvent \<Rightarrow>
    'a ThreadState_scheme \<Rightarrow> 'a ThreadState_scheme \<Rightarrow> bool"
  for idle irq save restore :: "'a action" and fuel :: nat where
  irq: "irq s = Inr s' \<Longrightarrow> kstep idle irq save restore fuel EIrq s s'"
| level: "kstep idle irq save restore fuel ELevel s (s\<lparr>level := l\<rparr>)"
| newsem: "semaphores s m = None \<Longrightarrow> 0 \<le> v \<Longrightarrow> Semaphore_new nm v s = (m, s') \<Longrightarrow>
    kstep idle irq save restore fuel (ENewSem m v) s s'"
| spawn: "threads s t = None \<Longrightarrow> Thread_new nm junk s = (t, s1) \<Longrightarrow>
    andThen (StackAllocate t func arg s1) (ReadyToRun t) = Inr s' \<Longrightarrow>
    kstep idle irq save restore fuel (ESpawn t) s s'"
| yield_alone: "Yield_body save (currentThread s) s = Inr (False, s') \<Longrightarrow>
    kstep idle irq save restore fuel EYield s s'"
| yield: "Yield_body save (currentThread s) s = Inr (True, s1) \<Longrightarrow>
    switched_in restore s1 = Inr s' \<Longrightarrow> kstep idle irq save restore fuel EYield s s'"
| take: "P_turn fuel idle save m s = Inr (True, s') \<Longrightarrow>
    kstep idle irq save restore fuel (ETake m) s s'"
| sleep: "P_turn fuel idle save m s = Inr (False, s1) \<Longrightarrow> switched_in restore s1 = Inr s' \<Longrightarrow>
    kstep idle irq save restore fuel (ESleep m) s s'"
| signal: "V_body m s = Inr s' \<Longrightarrow> kstep idle irq save restore fuel (ESignal m) s s'"
| finish: "Finish_body fuel idle save (currentThread s) s = Inr s1 \<Longrightarrow>
    switched_in restore s1 = Inr s' \<Longrightarrow> kstep idle irq save restore fuel EFinish s s'"

inductive kreach :: "'a action \<Rightarrow> 'a action \<Rightarrow> 'a action \<Rightarrow> 'a action \<Rightarrow> nat \<Rightarrow>
    'a ThreadState_scheme \<Rightarrow> KernelEvent list \<Rightarrow> 'a ThreadState_scheme \<Rightarrow> bool"
  for idle irq save restore :: "'a action" and fuel :: nat and s0 :: "'a ThreadState_scheme" where
  start: "kreach idle irq save restore fuel s0 [] s0"
| more: "kreach idle irq save restore fuel s0 es s \<Longrightarrow> kstep idle irq save restore fuel e s s' \<Longrightarrow>
    kreach idle irq save restore fuel s0 (es @ [e]) s'"

inductive_cases kreach_snocE: "kreach idle irq save restore fuel s0 (es @ [e]) s"

lemma inv_add_thread:
  assumes inv: "running_inv s" and new: "stat s t = None" and st: "stat s' = (stat s)(t \<mapsto> JUST_CREATED)"
    and r: "ready s' = ready s" and w: "waiters s' = waiters s" and c: "currentThread s' = currentThread s"
    and sem: "semaphores s' = semaphores s" and d: "threadToBeDestroyed s' = threadToBeDestroyed s"
  shows "running_inv s'" and "t \<notin> set (waiters s' m)" and "threadToBeDestroyed s' \<noteq> Some t"
proof -
  have inv': "lists_inv_but None s" and run: "stat s (currentThread s) = Some RUNNING"
    using inv by (simp_all add: running_inv_def lists_inv_def)
  note parts = lists_inv_butD [OF inv']
  show nw: "t \<notin> set (waiters s' m)" for m using parts(2) new unfolding wait_inv_def w by auto
  show "threadToBeDestroyed s' \<noteq> Some t" using parts(5) new by (auto simp: dead_inv_def d)
  have "lists_inv_but None s'"
  proof (rule lists_inv_butI)
    show "ready_inv None s'" using parts(1) new by (auto simp: ready_inv_def st r)
    show "wait_inv s'" using parts(2) nw by (auto simp: wait_inv_def st w)
    show "value_inv s'" using parts(3) by (simp add: value_inv_def sem)
    show "run_inv s'" using parts(4) by (simp add: run_inv_def st c)
    show "dead_inv s'" using parts(5) new by (auto simp: dead_inv_def st w d)
  qed
  then show "running_inv s'" using run new by (auto simp: running_inv_def lists_inv_def st c)
qed

lemma spawn_inv:
  assumes inv: "running_inv s" and "threads s t = None" and "Thread_new nm junk s = (t, s1)"
  shows "\<exists>s'. andThen (StackAllocate t func arg s1) (ReadyToRun t) = Inr s' \<and> running_inv s' \<and>
    ready s' = ready s @ [t] \<and> semaphores s' = semaphores s"
proof -
  obtain s2 where s2: "StackAllocate t func arg s1 = Inr s2" "stat s2 = (stat s)(t \<mapsto> JUST_CREATED)"
    "ready s2 = ready s" "waiters s2 = waiters s" "currentThread s2 = currentThread s"
    "semaphores s2 = semaphores s" "threadToBeDestroyed s2 = threadToBeDestroyed s"
    using assms(2,3)
    by (auto simp: Thread_new_def StackAllocate_def update_thread_def thread_at_def stat_def
        ready_def waiters_def fun_eq_iff)
  have new: "stat s t = None" using assms(2) by (simp add: stat_def)
  note i = inv_add_thread [OF inv new s2(2-7)]
  have "lists_inv_but None s2" "stat s2 (currentThread s2) = Some RUNNING"
    using i(1) by (simp_all add: running_inv_def lists_inv_def)
  moreover have "stat s2 t = Some JUST_CREATED" by (simp add: s2(2))
  ultimately obtain s3 where s3: "ReadyToRun t s2 = Inr s3" "lists_inv_but None s3"
    "stat s3 = (stat s2)(t \<mapsto> READY)" "currentThread s3 = currentThread s2" "ready s3 = ready s2 @ [t]"
    "semaphores s3 = semaphores s2"
    using ReadyToRun_spec [of None s2 t JUST_CREATED] i(2,3) by blast
  then show ?thesis
    using s2 \<open>stat s2 (currentThread s2) = Some RUNNING\<close> \<open>stat s2 t = Some JUST_CREATED\<close>
    by (auto simp: running_inv_def lists_inv_def)
qed

lemma newsem_inv:
  assumes inv: "running_inv s" and "semaphores s m = None" and "0 \<le> v" and "Semaphore_new nm v s = (m, s')"
  shows "running_inv s'"
proof -
  have s': "s' = s\<lparr>semaphores := (semaphores s)(m \<mapsto> \<lparr>sem_name = nm, sem_value = v, sem_queue = []\<rparr>),
      nextSemaphore := Suc (nextSemaphore s)\<rparr>"
    using assms(4) by (auto simp: Semaphore_new_def)
  have w: "waiters s' = waiters s" using assms(2) by (auto simp: s' waiters_def fun_eq_iff)
  have r: "ready s' = ready s" "stat s' = stat s" by (simp_all add: s' ready_def stat_def fun_eq_iff)
  have "value_inv s'" using inv assms(3) by (auto simp: inv_defs s')
  then show ?thesis using inv by (simp add: inv_defs w r) (simp add: s')
qed

context thread_env
begin

lemma kstep_inv:
  "kstep idle irq save restore fuel e s s' \<Longrightarrow> running_inv s \<Longrightarrow> running_inv s'"
proof (induction rule: kstep.induct)
  case (irq s s') then show ?case using irq_ok by blast
next
  case (level s l) then show ?case using same_threads_inv(2) same_threads_int(1) by blast
next
  case (newsem s m v nm s') then show ?case using newsem_inv by blast
next
  case (spawn s t nm junk s1 func arg s') then show ?case using spawn_inv [OF _ spawn(1,2), of func arg] by auto
next
  case (yield_alone s s') then show ?case using Yield_body_inv by blast
next
  case (yield s s1 s') then show ?case using Yield_body_inv switched_in_inv by blast
next
  case (take m s s') then show ?case using P_turn_inv by blast
next
  case (sleep m s s1 s') then show ?case using P_turn_inv switched_in_inv by blast
next
  case (signal m s s')
  then obtain x where "semaphores s m = Some x"
    by (auto simp: V_body_def sem_at_def split: option.splits)
  with signal V_body_spec [of s m x] show ?case
    by (auto simp: running_inv_def split: list.splits)
next
  case (finish s s1 s') then show ?case using Finish_body_inv switched_in_inv by blast
qed

lemma kreach_inv:
  "kreach idle irq save restore fuel s0 es s \<Longrightarrow> running_inv s0 \<Longrightarrow> running_inv s"
  by (induction rule: kreach.induct) (blast intro: kstep_inv)+

end

text \<open>
  Conservation of a semaphore. Where interrupt handlers do not touch semaphores, the value
  of a semaphore is what it started with, plus one for every \<open>V\<close>, minus one for every \<open>P\<close>
  that has returned; since it is never negative, no more \<open>P\<close> return than that allows.
\<close>

definition takes :: "nat \<Rightarrow> KernelEvent list \<Rightarrow> int" where
  "takes m es = int (length (filter (\<lambda>e. e = ETake m) es))"

definition signals :: "nat \<Rightarrow> KernelEvent list \<Rightarrow> int" where
  "signals m es = int (length (filter (\<lambda>e. e = ESignal m) es))"

lemma count_snoc [simp]:
  "takes m (es @ [e]) = takes m es + (if e = ETake m then 1 else 0)"
  "signals m (es @ [e]) = signals m es + (if e = ESignal m then 1 else 0)"
  by (simp_all add: takes_def signals_def)

locale quiet_thread_env = thread_env idle irq save restore
  for idle irq save restore :: "'a action" +
  assumes idle_quiet: "idle s = Inr s' \<Longrightarrow> semaphores s' = semaphores s"
    and irq_quiet: "irq s = Inr s' \<Longrightarrow> semaphores s' = semaphores s"
begin

lemma setThreadStatus_sem: "setThreadStatus t st s = Inr s' \<Longrightarrow> semaphores s' = semaphores s"
  by (subst setThreadStatus_Inr(2)) simp_all

lemma Run_out_sem: "Run_out save n s = Inr s' \<Longrightarrow> semaphores s' = semaphores s"
  by (auto simp: Run_out_def Let_def SWITCH_save_def update_thread_def res_simps dest!: CheckOverflow_Inr
      setThreadStatus_sem save_ok same_threads_views(4))

lemma sleepLoop_sem: "sleepLoop fuel idle s = Inr (n, s') \<Longrightarrow> semaphores s' = semaphores s"
proof (induction fuel arbitrary: s)
  case (Suc fuel)
  obtain r s1 where F: "FindNextToRun s = (r, s1)" by (cases "FindNextToRun s")
  have s1: "semaphores s1 = semaphores s"
    using F by (auto simp: FindNextToRun_def split: prod.splits)
  show ?case
  proof (cases r)
    case None
    then obtain s2 where "idle s1 = Inr s2" "sleepLoop fuel idle s2 = Inr (n, s')"
      using Suc.prems F by (auto simp: res_simps)
    then show ?thesis using Suc.IH [of s2] idle_quiet [of s1 s2] s1 by simp
  next
    case (Some k) then show ?thesis using Suc.prems F s1 by simp
  qed
qed simp

lemma Sleep_out_sem: "Sleep_out fuel idle save t s = Inr s' \<Longrightarrow> semaphores s' = semaphores s"
  by (auto simp: Sleep_out_def ASSERT_eq_Inr res_simps dest!: Run_out_sem sleepLoop_sem setThreadStatus_sem)

lemma switched_in_sem: "switched_in restore s = Inr s' \<Longrightarrow> semaphores s' = semaphores s"
  by (auto simp: switched_in_def Run_in_def Thread_delete_def ASSERT_eq_Inr res_simps
      dest!: restore_ok same_threads_views(4) split: option.splits)

lemma P_turn_sem:
  assumes "P_turn fuel idle save m s = Inr (taken, s')" and "semaphores s k = Some x"
  shows "\<exists>y. semaphores s' k = Some y \<and>
    sem_value y = sem_value x - (if taken \<and> k = m then 1 else 0)"
  using assms
  by (auto simp: P_turn_def sem_at_def res_simps split: option.splits if_splits dest!: Sleep_out_sem)

lemma Yield_body_sem: "Yield_body save t s = Inr (b, s') \<Longrightarrow> semaphores s' = semaphores s"
  by (auto simp: Yield_body_def FindNextToRun_def ASSERT_eq_Inr res_simps ReadyToRun_def
      dest!: Run_out_sem setThreadStatus_sem split: option.splits prod.splits)

lemma kstep_sem:
  "kstep idle irq save restore fuel e s s' \<Longrightarrow> running_inv s \<Longrightarrow> semaphores s k = Some x \<Longrightarrow>
   \<exists>y. semaphores s' k = Some y \<and>
     sem_value y = sem_value x + (if e = ESignal k then 1 else 0) - (if e = ETake k then 1 else 0)"
proof (induction rule: kstep.induct)
  case (irq s s') then show ?case using irq_quiet by simp
next
  case (newsem s m v nm s')
  then show ?case by (auto simp: Semaphore_new_def)
next
  case (spawn s t nm junk s1 func arg s')
  with spawn_inv [OF spawn(4,1,2), of func arg] show ?case by auto
next
  case (yield_alone s s') then show ?case using Yield_body_sem by force
next
  case (yield s s1 s') then show ?case using Yield_body_sem switched_in_sem by fastforce
next
  case (take m s s') then show ?case using P_turn_sem by fastforce
next
  case (sleep m s s1 s')
  from P_turn_sem [OF sleep(1,4)] switched_in_sem [OF sleep(2)] show ?case by auto
next
  case (signal m s s')
  then obtain z where z: "semaphores s m = Some z"
    by (auto simp: V_body_def sem_at_def split: option.splits)
  have "lists_inv s" using signal.prems(1) by (simp add: running_inv_def)
  from V_body_spec [OF this z] signal show ?case by (auto simp: z)
next
  case (finish s s1 s')
  then have "semaphores s1 = semaphores s"
    by (auto simp: Finish_body_def ASSERT_eq_Inr dest!: Sleep_out_sem)
  with switched_in_sem [OF finish(2)] finish(4) show ?case by auto
qed simp

lemma conservation:
  assumes "kreach idle irq save restore fuel s0 es s" and "running_inv s0" and "semaphores s0 m = Some x"
  shows "\<exists>y. semaphores s m = Some y \<and> 0 \<le> sem_value y \<and>
    sem_value y = sem_value x + signals m es - takes m es"
  using assms
proof (induction rule: kreach.induct)
  case start
  then show ?case by (auto simp: running_inv_def lists_inv_def lists_inv_but_def value_inv_def
      takes_def signals_def)
next
  case (more es s e s')
  then obtain y where y: "semaphores s m = Some y"
    "sem_value y = sem_value x + signals m es - takes m es" by blast
  have inv: "running_inv s" "running_inv s'"
    using more kreach_inv kstep_inv by blast+
  from kstep_sem [OF more(2) inv(1) y(1)] obtain z where z: "semaphores s' m = Some z"
    "sem_value z = sem_value y + (if e = ESignal m then 1 else 0) - (if e = ETake m then 1 else 0)"
    by blast
  moreover have "0 \<le> sem_value z"
    using inv(2) z(1) by (auto simp: running_inv_def lists_inv_def lists_inv_but_def value_inv_def)
  ultimately show ?case using y(2) by auto
qed

end

subsection \<open>A kernel built for threads alone\<close>

text \<open>
  In a build with \<open>THREADS\<close> only, the timer is the one device, there are no user registers to
  save and there is no machine: handlers of other devices are not linked in. Its interrupts
  touch neither threads nor semaphores.
\<close>

definition timer_only :: "bool \<Rightarrow> 'a handlers" where
  "timer_only randomize k a s = (case k of TimerHandler \<Rightarrow> TimerExpired randomize a s
     | _ \<Rightarrow> Inl NullPointer)"

definition threads_idle :: "bool \<Rightarrow> 'a action" where
  "threads_idle randomize = Idle (timer_only randomize) Inr"

definition threads_irq :: "bool \<Rightarrow> 'a action" where
  "threads_irq randomize = fireTick (timer_only randomize) Inr"

interpretation timer_clock: interrupt_env "timer_only randomize" Inr "\<lambda>_. True" "\<lambda>k. k = TimerHandler"
proof
  show "\<exists>s'. timer_only randomize k a s = Inr s' \<and> True \<and> queue_ok (\<lambda>k. k = TimerHandler) s' \<and>
      level s' = IntOff \<and> inHandler s' \<and> same_time s s' \<and> due s' = due s"
    if "queue_ok (\<lambda>k. k = TimerHandler) s" "k = TimerHandler" "level s = IntOff" "inHandler s"
    for s :: "'a ThreadState_scheme" and k a
    using TimerExpired_queue [OF that(1,4), of randomize a] that(2,3) by (auto simp: timer_only_def)
qed simp_all

lemma more_same_threads:
  assumes "IntState.more (s :: 'a ThreadState_scheme) = IntState.more s'"
  shows "same_threads s s'"
  using assms by (cases s; cases s') (simp add: same_threads_def stat_def fun_eq_iff)

lemma more_threads:
  "IntState.more (s :: 'a ThreadState_scheme) = IntState.more s' \<Longrightarrow> threads s' = threads s"
  by (cases s; cases s') simp

lemma same_threads_trans: "same_threads s t \<Longrightarrow> same_threads t u \<Longrightarrow> same_threads s u"
  by (simp add: same_threads_def)

lemma TimerExpired_more:
  "TimerExpired randomize a s = Inr s' \<Longrightarrow> IntState.more s' = IntState.more s \<and> level s' = level s"
  by (auto simp: TimerExpired_def TimeOfNextInterrupt_def Random_def Schedule_def TimerInterruptHandler_def
      YieldOnReturn_def Let_def ASSERT_eq_Inr res_simps split: if_splits prod.splits)

interpretation timer_quiet: interrupt_keeps "timer_only randomize" Inr "same_threads s0"
proof
  fix s s' :: "'a ThreadState_scheme" and k a
  assume a: "same_threads s0 s" "level s = IntOff" "timer_only randomize k a s = Inr s'"
  then have "TimerExpired randomize a s = Inr s'"
    by (cases k) (simp_all add: timer_only_def)
  from TimerExpired_more [OF this] a show "same_threads s0 s' \<and> level s' = IntOff"
    using more_same_threads [of s s'] same_threads_trans by auto
qed (auto dest: more_same_threads intro: same_threads_trans)

lemma threads_idle_same: "threads_idle randomize s = Inr s' \<Longrightarrow> same_threads s s' \<and> level s' = IntOff"
  using timer_quiet.Idle_keeps [of s s] by (simp add: threads_idle_def)

lemma threads_irq_same: "threads_irq randomize s = Inr s' \<Longrightarrow> same_threads s s'"
  using timer_quiet.fireTick_keeps [of s s] by (simp add: threads_irq_def)

interpretation threads_kernel: thread_env "threads_idle randomize" "threads_irq randomize" Inr Inr
proof
  fix s s' :: "'a ThreadState_scheme"
  show "lists_inv s' \<and> nobody_running s' \<and> currentThread s' = currentThread s \<and> level s' = IntOff"
    if "lists_inv s" "nobody_running s" "threads_idle randomize s = Inr s'"
    using threads_idle_same [OF that(3)] that same_threads_views [of s s'] same_threads_inv [of s s']
    by (simp add: nobody_running_def)
  show "running_inv s' \<and> currentThread s' = currentThread s"
    if "running_inv s" "threads_irq randomize s = Inr s'"
    using threads_irq_same [OF that(2)] that same_threads_views [of s s'] same_threads_inv [of s s']
    by simp
qed simp_all

interpretation threads_quiet: quiet_thread_env "threads_idle randomize" "threads_irq randomize" Inr Inr
proof
  fix s s' :: "'a ThreadState_scheme"
  show "threads_idle randomize s = Inr s' \<Longrightarrow> semaphores s' = semaphores s"
    using threads_idle_same same_threads_views(4) by blast
  show "threads_irq randomize s = Inr s' \<Longrightarrow> semaphores s' = semaphores s"
    using threads_irq_same same_threads_views(4) by blast
qed

subsection \<open>Properties\<close>

lemma Initialize_kernel_inv:
  assumes "Initialize_kernel randomYield junk s = Inr s0" and "threads s = Map.empty"
    and "semaphores s = Map.empty"
  shows "running_inv s0"
proof -
  let ?s1 = "(Interrupt_new s)\<lparr>stats := Statistics_new, readyList := []\<rparr>"
  obtain s2 where s2: "(if randomYield then Timer_new randomYield 0 ?s1 else Inr ?s1) = Inr s2"
      "setThreadStatus (nextThread s2) RUNNING ((snd (Thread_new ''main'' junk
        (s2\<lparr>threadToBeDestroyed := None\<rparr>)))\<lparr>currentThread := nextThread s2\<rparr>) = Inr s0"
    using assms(1) by (auto simp: Initialize_kernel_def Let_def Thread_new_def res_simps split: if_splits)
  have "IntState.more s2 = IntState.more ?s1"
    using s2(1) by (auto simp: Timer_new_def TimeOfNextInterrupt_def Random_def Schedule_def Let_def
        ASSERT_eq_Inr split: if_splits)
  note v = more_same_threads [OF this, unfolded same_threads_def] more_threads [OF this]
  have "threads s2 = Map.empty" "semaphores s2 = Map.empty" "readyList s2 = []"
    using v assms(2,3) by (simp_all add: Interrupt_new_def)
  then show ?thesis
    using s2(2)
    by (auto simp: setThreadStatus_def update_thread_def thread_at_def Thread_new_def inv_defs
        stat_def ready_def waiters_def split: if_splits)
qed

text \<open>
  C1. Every kernel state that \<open>Initialize\<close> and any sequence of thread operations can reach (forks,
  yields, \<open>P\<close> and \<open>V\<close> on any semaphores, finishing threads, interrupts between them) is
  consistent: the current thread has status \<open>RUNNING\<close> and nobody else has; the ready list
  holds the \<open>READY\<close> threads, each once; semaphore queues hold blocked threads, each
  in one place; semaphore values are not negative; a finished thread is on no list.
\<close>

theorem reachable_kernel_consistent:
  assumes "Initialize_kernel randomYield junk s = Inr s0" and "threads s = Map.empty"
    and "semaphores s = Map.empty"
    and "kreach (threads_idle randomYield) (threads_irq randomYield) Inr Inr fuel s0 es s'"
  shows "running_inv s'"
  using threads_kernel.kreach_inv [OF assms(4)] Initialize_kernel_inv [OF assms(1-3)] .


text \<open>
  C13. Semaphores count. From a consistent state, whatever the threads do, the value of a
  semaphore is its initial value plus the number of \<open>V\<close> minus the number of \<open>P\<close> that returned, and it
  never goes below zero: so at no time have more \<open>P\<close> returned than the initial value plus the
  number of \<open>V\<close>.
\<close>

theorem semaphore_counts:
  assumes "kreach (threads_idle randomYield) (threads_irq randomYield) Inr Inr fuel s0 es s"
    and "running_inv s0" and "semaphores s0 m = Some x"
  shows "\<exists>y. semaphores s m = Some y \<and> 0 \<le> sem_value y \<and>
    sem_value y = sem_value x + signals m es - takes m es"
  using threads_quiet.conservation [OF assms] .

text \<open>
  C14. \<open>V\<close> never fails on an existing semaphore: it adds one to the value, moves the thread
  that has waited longest, if there is one, from the semaphore's queue to the end of the ready list, and changes
  nothing else.
\<close>

theorem V_wakes_longest_waiting:
  assumes "lists_inv s" and "semaphores s m = Some x"
  shows "\<exists>s'. V_body m s = Inr s' \<and> lists_inv s' \<and>
    semaphores s' = (semaphores s)(m \<mapsto>
      x\<lparr>sem_value := sem_value x + 1, sem_queue := tl (sem_queue x)\<rparr>) \<and>
    ready s' = ready s @ take 1 (waiters s m) \<and>
    (\<forall>t. stat s' t = (if t \<in> set (take 1 (waiters s m)) then Some READY else stat s t)) \<and>
    s' = s\<lparr>threads := threads s', readyList := readyList s', semaphores := semaphores s'\<rparr>"
  using V_body_spec [OF assms] by (cases "waiters s m") auto

text \<open>
  \<open>Yield\<close> is round robin: with other threads ready, the one that has been ready longest
  becomes the current thread, the yielding thread goes to the end of the ready list, and
  the state stays consistent; with none ready, nothing changes.
\<close>

theorem Yield_round_robin:
  assumes "running_inv s" and "Yield_body Inr (currentThread s) s = Inr (switched, s')"
  shows "running_inv s' \<and> semaphores s' = semaphores s \<and>
    (if switched then ready s = currentThread s' # butlast (ready s') \<and>
       last (ready s') = currentThread s
     else s' = s \<and> ready s = [])"
  using threads_kernel.Yield_body_inv [OF assms] .

subsection \<open>The properties at concrete states\<close>

text \<open>
  \<open>empty_state\<close> is the kernel's memory before \<open>Initialize\<close>; in \<open>demo_state\<close> thread 0 runs,
  thread 1 has been forked and thread 2 waits on semaphore 0.
\<close>

definition empty_state :: ThreadState where
  "empty_state = \<lparr>stats = Statistics_new, level = IntOff, pending = [], inHandler = False,
     yieldOnReturn = False, status = SystemMode, rng = (\<lambda>_. 0), rngPos = 0, threads = Map.empty,
     nextThread = 0, readyList = [], currentThread = 0, threadToBeDestroyed = None,
     ProcessId = 0, semaphores = Map.empty, nextSemaphore = 0\<rparr>"

definition demo_thread :: "ThreadStatus \<Rightarrow> StartFrame option \<Rightarrow> Thread" where
  "demo_thread st f = \<lparr>t_name = ''demo'', t_status = st, t_pid = 0,
     t_stack = Some STACK_FENCEPOST, t_frame = f,
     t_userRegisters = [], t_space = None\<rparr>"

definition demo_frame :: StartFrame where
  "demo_frame = \<lparr>PCState = ThreadRoot, StartupPCState = InterruptEnable,
     InitialPCState = Func 0, InitialArgState = 0, WhenDonePCState = ThreadFinish\<rparr>"

definition demo_state :: ThreadState where
  "demo_state = empty_state\<lparr>
     threads := [0 \<mapsto> demo_thread RUNNING None, 1 \<mapsto> demo_thread READY (Some demo_frame),
                 2 \<mapsto> demo_thread BLOCKED None],
     nextThread := 3, readyList := [(0, 1)],
     semaphores := [0 \<mapsto> \<lparr>sem_name = ''s'', sem_value = 0, sem_queue = [(0, 2)]\<rparr>],
     nextSemaphore := 1\<rparr>"

lemmas demo_defs = demo_state_def demo_thread_def empty_state_def

lemma demo_inv: "running_inv demo_state"
  by (auto simp: inv_defs demo_defs stat_def ready_def waiters_def split: if_splits option.splits)

lemma demo_lists: "lists_inv demo_state" and demo_sem:
  "semaphores demo_state 0 = Some \<lparr>sem_name = ''s'', sem_value = 0, sem_queue = [(0, 2)]\<rparr>"
  using demo_inv by (simp_all add: running_inv_def demo_state_def)

theorem reachable_kernel_consistent_witness:
  "\<exists>s0 s'. Initialize_kernel False (7, []) empty_state = Inr s0 \<and>
    kreach (threads_idle False) (threads_irq False) Inr Inr 5 s0 [EYield] s' \<and> running_inv s'"
proof -
  obtain s0 where s0: "Initialize_kernel False (7, []) empty_state = Inr s0" "readyList s0 = []"
    by (auto simp: Initialize_kernel_def Interrupt_new_def empty_state_def Thread_new_def
        setThreadStatus_def update_thread_def thread_at_def)
  have "Yield_body Inr (currentThread s0) s0 = Inr (False, s0)"
    using s0(2) by (simp add: Yield_body_def FindNextToRun_def)
  then have "kstep (threads_idle False) (threads_irq False) Inr Inr 5 EYield s0 s0"
    by (rule kstep.yield_alone)
  with kreach.start have r: "kreach (threads_idle False) (threads_irq False) Inr Inr 5 s0 ([] @ [EYield]) s0"
    by (rule kreach.more)
  with reachable_kernel_consistent [OF s0(1) _ _ r] s0(1) show ?thesis
    by (auto simp: empty_state_def)
qed


theorem semaphore_counts_witness:
  "\<exists>s y. kreach (threads_idle False) (threads_irq False) Inr Inr 5 demo_state [ESignal 0] s \<and>
    semaphores s 0 = Some y \<and> sem_value y = 1"
proof -
  obtain s where "V_body 0 demo_state = Inr s"
    using V_body_spec [OF demo_lists demo_sem] by blast
  then have "kstep (threads_idle False) (threads_irq False) Inr Inr 5 (ESignal 0) demo_state s"
    by (rule kstep.signal)
  with kreach.start have r:
    "kreach (threads_idle False) (threads_irq False) Inr Inr 5 demo_state ([] @ [ESignal 0]) s"
    by (rule kreach.more)
  from semaphore_counts [OF this demo_inv demo_sem] r show ?thesis
    by (auto simp: signals_def takes_def)
qed

theorem V_wakes_longest_waiting_witness:
  "\<exists>s'. V_body 0 demo_state = Inr s' \<and> ready s' = [1, 2] \<and> stat s' 2 = Some READY"
  using V_wakes_longest_waiting [OF demo_lists demo_sem]
  by (auto simp: demo_defs ready_def waiters_def)

theorem Yield_round_robin_witness:
  "\<exists>s'. Yield_body Inr 0 demo_state = Inr (True, s') \<and> running_inv s' \<and> currentThread s' = 1"
proof -
  have c: "currentThread demo_state = 0" by (simp add: demo_defs)
  obtain s' where y: "Yield_body Inr (currentThread demo_state) demo_state = Inr (True, s')"
    by (auto simp: Yield_body_def FindNextToRun_def ReadyToRun_def Run_out_def CheckOverflow_def
        SWITCH_save_def setThreadStatus_def update_thread_def thread_at_def demo_defs)
  from Yield_round_robin [OF demo_inv y] y show ?thesis
    unfolding c by (auto simp: demo_defs ready_def)
qed

subsection \<open>A control block that is never freed\<close>

text \<open>
  \<open>new Thread\<close> followed by \<open>Fork\<close>, and \<open>Finish\<close> up to and including what the next thread does first.
\<close>

definition fork_new :: "string \<Rightarrow> nat \<Rightarrow> 'a action" where
  "fork_new nm func s = (case Thread_new nm (0, []) s of (t, s1) \<Rightarrow>
     andThen (StackAllocate t func 0 s1) (ReadyToRun t))"

definition finish_current :: "'a action" where
  "finish_current s = andThen (Finish_body 1 Inr Inr (currentThread s) s) (switched_in Inr)"

text \<open>
  \<open>Run\<close> frees a finished thread only when it returns into a thread that had run before; a
  thread that starts in \<open>ThreadRoot\<close> never comes back through \<open>Run\<close>. So when \<open>main\<close>
  forks two threads and finishes, and the first of them finishes too, \<open>main\<close>'s control block is still
  allocated, blocked and on no list, while \<open>threadToBeDestroyed\<close> has been overwritten with the second one:
  nothing will ever free the first.
\<close>

theorem finished_thread_leaks:
  "\<exists>s. andThen (Initialize_kernel False (0, []) empty_state) (\<lambda>s0. andThen (fork_new ''a'' 1 s0) (\<lambda>s1.
        andThen (fork_new ''b'' 2 s1) (\<lambda>s2. andThen (finish_current s2) finish_current))) = Inr s \<and>
     currentThread s = 2 \<and> stat s 0 = Some BLOCKED \<and> ready s = [] \<and> threadToBeDestroyed s = Some 1"
  by (simp add: Initialize_kernel_def Interrupt_new_def empty_state_def Thread_new_def fork_new_def
      setThreadStatus_def update_thread_def thread_at_def StackAllocate_def ReadyToRun_def
      finish_current_def Finish_body_def Sleep_out_def FindNextToRun_def Run_out_def SWITCH_save_def
      CheckOverflow_def switched_in_def stat_def ready_def seq_append_def)

end
