(* ===== verification/Nachos_Bytes.thy ===== *)
theory Nachos_Bytes
  imports Nachos_Prelude
begin

section \<open>Bytes and words: how the host stores integers\<close>

text \<open>
  Nachos writes integers and structs into byte arrays (main memory, disk sectors, packets)
  by pointer casts. Here is what such a cast reads and writes on a host of either byte
  order; \<open>big\<close> is \<open>HOST_IS_BIG_ENDIAN\<close>. The conversions of \<open>machine/translate.cc\<close> and the
  check of \<open>machine.cc\<close> are with them. The Makefiles build for \<open>HOST_i386\<close>, so the
  other theories use the little-endian forms \<open>word_bytes\<close> and \<open>bytes_word\<close>.
\<close>

unbundle bit_operations_syntax

subsection \<open>Casts between byte arrays and integers\<close>

definition word_bytes :: "32 word \<Rightarrow> 8 word list" where
  "word_bytes w = [ucast w, ucast (drop_bit 8 w), ucast (drop_bit 16 w), ucast (drop_bit 24 w)]"

definition bytes_word :: "8 word list \<Rightarrow> 32 word" where
  "bytes_word bs = ucast (bs ! 0) OR push_bit 8 (ucast (bs ! 1)) OR
     push_bit 16 (ucast (bs ! 2)) OR push_bit 24 (ucast (bs ! 3))"

definition short_bytes :: "16 word \<Rightarrow> 8 word list" where
  "short_bytes w = [ucast w, ucast (drop_bit 8 w)]"

definition bytes_short :: "8 word list \<Rightarrow> 16 word" where
  "bytes_short bs = ucast (bs ! 0) OR push_bit 8 (ucast (bs ! 1))"

definition load_word :: "bool \<Rightarrow> 8 word list \<Rightarrow> 32 word" where
  "load_word big bs = bytes_word (if big then rev bs else bs)"

definition store_word :: "bool \<Rightarrow> 32 word \<Rightarrow> 8 word list" where
  "store_word big w = (if big then rev (word_bytes w) else word_bytes w)"

definition load_short :: "bool \<Rightarrow> 8 word list \<Rightarrow> 16 word" where
  "load_short big bs = bytes_short (if big then rev bs else bs)"

definition store_short :: "bool \<Rightarrow> 16 word \<Rightarrow> 8 word list" where
  "store_short big w = (if big then rev (short_bytes w) else short_bytes w)"

lemma length_bytes [simp]: "length (word_bytes w) = 4" "length (short_bytes v) = 2"
  by (simp_all add: word_bytes_def short_bytes_def)

lemma byte_bit: "bit (a :: 8 word) n \<Longrightarrow> n < 8"
  by (auto dest: bit_imp_le_length)

lemma bit_bytes_word: "bit (bytes_word [a, b, c, d]) n \<longleftrightarrow>
  (if n < 8 then bit a n else if n < 16 then bit b (n - 8) else if n < 24 then bit c (n - 16)
   else bit d (n - 24))"
  unfolding bytes_word_def by (auto simp: bit_simps dest: byte_bit)

lemma bit_bytes_short:
  "bit (bytes_short [a, b]) n \<longleftrightarrow> (if n < 8 then bit a n else bit b (n - 8))"
  unfolding bytes_short_def by (auto simp: bit_simps dest: byte_bit)

lemma sint_int32: "0 \<le> i \<Longrightarrow> i < 2 ^ 31 \<Longrightarrow> sint (word_of_int i :: 32 word) = i"
  by (simp add: sint_sbintrunc' signed_take_bit_int_eq_self)

lemma sint_nat32: "n < 2 ^ 31 \<Longrightarrow> sint (word_of_nat n :: 32 word) = int n"
  using sint_int32 [of "int n"] by simp

lemma list4: "length bs = 4 \<Longrightarrow> \<exists>a b c d. bs = [a, b, c, d]"
  by (auto simp: numeral_eq_Suc length_Suc_conv)

lemma list2: "length bs = 2 \<Longrightarrow> \<exists>a b. bs = [a, b]"
  by (auto simp: numeral_eq_Suc length_Suc_conv)

lemma bytes_word_bytes [simp]: "bytes_word (word_bytes w) = w"
  unfolding word_bytes_def by (rule bit_word_eqI) (auto simp: bit_bytes_word bit_simps)

lemma word_bytes_word4: "word_bytes (bytes_word [a, b, c, d]) = [a, b, c, d]"
  unfolding word_bytes_def
  by (simp, intro conjI; rule bit_word_eqI) (auto simp: bit_bytes_word bit_simps)

lemma word_bytes_word: "length bs = 4 \<Longrightarrow> word_bytes (bytes_word bs) = bs"
  using list4 word_bytes_word4 by metis

lemma bytes_short_bytes [simp]: "bytes_short (short_bytes w) = w"
  unfolding short_bytes_def by (rule bit_word_eqI) (auto simp: bit_bytes_short bit_simps)

lemma short_bytes_short2: "short_bytes (bytes_short [a, b]) = [a, b]"
  unfolding short_bytes_def
  by (simp, intro conjI; rule bit_word_eqI) (auto simp: bit_bytes_short bit_simps)

lemma short_bytes_short: "length bs = 2 \<Longrightarrow> short_bytes (bytes_short bs) = bs"
  using list2 short_bytes_short2 by metis

subsection \<open>The conversions of translate.cc and the check of machine.cc\<close>

definition WordToHost :: "bool \<Rightarrow> 32 word \<Rightarrow> 32 word" where
  "WordToHost big word = (if big
     then (drop_bit 24 word AND 0x000000ff) OR (drop_bit 8 word AND 0x0000ff00) OR
          (push_bit 8 word AND 0x00ff0000) OR (push_bit 24 word AND 0xff000000)
     else word)"

definition ShortToHost :: "bool \<Rightarrow> 16 word \<Rightarrow> 16 word" where
  "ShortToHost big shortword = (if big
     then (push_bit 8 shortword AND 0xff00) OR (drop_bit 8 shortword AND 0x00ff)
     else shortword)"

definition WordToMachine :: "bool \<Rightarrow> 32 word \<Rightarrow> 32 word" where
  "WordToMachine big word = WordToHost big word"

definition ShortToMachine :: "bool \<Rightarrow> 16 word \<Rightarrow> 16 word" where
  "ShortToMachine big shortword = ShortToHost big shortword"

definition CheckEndian :: "bool \<Rightarrow> unit res" where
  "CheckEndian big = (let intword = load_word big [1, 2, 3, 4]
     in if big then ASSERT (intword = 0x01020304) (Inr ())
        else ASSERT (intword = 0x04030201) (Inr ()))"

lemma CheckEndian_ok: "CheckEndian big = Inr ()"
  by (simp add: CheckEndian_def load_word_def bytes_word_def)

lemma word_masks:
  "(0x000000ff :: 32 word) = mask 8" "(0x0000ff00 :: 32 word) = push_bit 8 (mask 8)"
  "(0x00ff0000 :: 32 word) = push_bit 16 (mask 8)" "(0xff000000 :: 32 word) = push_bit 24 (mask 8)"
  "(0x00ff :: 16 word) = mask 8" "(0xff00 :: 16 word) = push_bit 8 (mask 8)"
  by (simp_all add: mask_eq_exp_minus_1 push_bit_eq_mult)

lemma bit_word_masks:
  "bit (0x000000ff :: 32 word) n \<longleftrightarrow> n < 8" "bit (0x0000ff00 :: 32 word) n \<longleftrightarrow> 8 \<le> n \<and> n < 16"
  "bit (0x00ff0000 :: 32 word) n \<longleftrightarrow> 16 \<le> n \<and> n < 24"
  "bit (0xff000000 :: 32 word) n \<longleftrightarrow> 24 \<le> n \<and> n < 32"
  "bit (0x00ff :: 16 word) n \<longleftrightarrow> n < 8" "bit (0xff00 :: 16 word) n \<longleftrightarrow> 8 \<le> n \<and> n < 16"
  unfolding word_masks by (auto simp: bit_simps simp del: push_bit_mask_eq)

lemma WordToHost_swaps:
  "WordToHost True (bytes_word [a, b, c, d]) = bytes_word [d, c, b, a]"
proof (rule bit_word_eqI)
  fix n :: nat assume n: "n < LENGTH(32)"
  have "bit (WordToHost True (bytes_word [a, b, c, d])) n \<longleftrightarrow>
      bit (drop_bit 24 (bytes_word [a, b, c, d])) n \<and> n < 8 \<or>
      bit (drop_bit 8 (bytes_word [a, b, c, d])) n \<and> 8 \<le> n \<and> n < 16 \<or>
      bit (push_bit 8 (bytes_word [a, b, c, d])) n \<and> 16 \<le> n \<and> n < 24 \<or>
      bit (push_bit 24 (bytes_word [a, b, c, d])) n \<and> 24 \<le> n \<and> n < 32"
    by (simp only: WordToHost_def if_True bit_or_iff bit_and_iff bit_word_masks disj_assoc)
  with n show "bit (WordToHost True (bytes_word [a, b, c, d])) n \<longleftrightarrow> bit (bytes_word [d, c, b, a]) n"
    by (simp add: bit_bytes_word bit_push_bit_iff bit_drop_bit_eq o_def) auto
qed

lemma ShortToHost_swaps: "ShortToHost True (bytes_short [a, b]) = bytes_short [b, a]"
proof (rule bit_word_eqI)
  fix n :: nat assume n: "n < LENGTH(16)"
  have "bit (ShortToHost True (bytes_short [a, b])) n \<longleftrightarrow>
      bit (push_bit 8 (bytes_short [a, b])) n \<and> 8 \<le> n \<and> n < 16 \<or>
      bit (drop_bit 8 (bytes_short [a, b])) n \<and> n < 8"
    by (simp only: ShortToHost_def if_True bit_or_iff bit_and_iff bit_word_masks)
  with n show "bit (ShortToHost True (bytes_short [a, b])) n \<longleftrightarrow> bit (bytes_short [b, a]) n"
    by (simp add: bit_bytes_short bit_push_bit_iff bit_drop_bit_eq o_def) auto
qed

text \<open>The simulated memory is little-endian whatever the host is.\<close>

lemma guest_load_word: "length bs = 4 \<Longrightarrow> WordToHost big (load_word big bs) = bytes_word bs"
  using list4 [of bs] by (cases big) (auto simp: load_word_def WordToHost_swaps WordToHost_def [of False])

lemma word_as_bytes: "\<exists>a b c d. w = bytes_word [a, b, c, d]"
  using list4 [of "word_bytes w"] bytes_word_bytes [of w] by fastforce

lemma short_as_bytes: "\<exists>a b. v = bytes_short [a, b]"
  using list2 [of "short_bytes v"] bytes_short_bytes [of v] by fastforce

lemma guest_store_word: "store_word big (WordToMachine big w) = word_bytes w"
  using word_as_bytes [of w]
  by (cases big) (auto simp: store_word_def WordToMachine_def WordToHost_swaps word_bytes_word4
      WordToHost_def [of False])

lemma guest_short:
  "store_short big (ShortToMachine big v) = short_bytes v \<and>
   ShortToHost big (load_short big (short_bytes v)) = v"
  using short_as_bytes [of v]
  by (cases big) (auto simp: store_short_def load_short_def ShortToMachine_def ShortToHost_swaps
      short_bytes_short2 ShortToHost_def [of False])

text \<open>
  Byte order does not show. On a host of either byte order, what the machine stores as a
  word or half-word is laid out little-endian in the simulated memory, what it loads is
  the little-endian value of the bytes, so a stored value is read back unchanged; and the
  start-up check of the byte order passes exactly because of the layout it is told.
\<close>

theorem guest_memory_little_endian:
  "store_word big (WordToMachine big w) = word_bytes w \<and>
   WordToHost big (load_word big (word_bytes w)) = w \<and>
   store_short big (ShortToMachine big v) = short_bytes v \<and>
   ShortToHost big (load_short big (short_bytes v)) = v \<and>
   WordToHost big (WordToMachine big w) = w \<and> CheckEndian big = Inr ()"
proof -
  have "WordToHost big (WordToMachine big w) = w"
    using word_as_bytes [of w]
    by (cases big) (auto simp: WordToMachine_def WordToHost_swaps WordToHost_def [of False])
  then show ?thesis using guest_short
    by (simp add: guest_store_word guest_load_word CheckEndian_ok)
qed

subsection \<open>Arrays of integers\<close>

fun words_bytes :: "32 word list \<Rightarrow> 8 word list" where
  "words_bytes [] = []"
| "words_bytes (w # ws) = word_bytes w @ words_bytes ws"

fun bytes_words :: "nat \<Rightarrow> 8 word list \<Rightarrow> 32 word list" where
  "bytes_words 0 bs = []"
| "bytes_words (Suc n) bs = bytes_word (take 4 bs) # bytes_words n (drop 4 bs)"

lemma length_words_bytes [simp]: "length (words_bytes ws) = 4 * length ws"
  by (induction ws) simp_all

lemma length_bytes_words [simp]: "length (bytes_words n bs) = n"
  by (induction n arbitrary: bs) simp_all

lemma bytes_words_words [simp]: "bytes_words (length ws) (words_bytes ws @ rest) = ws"
  by (induction ws) simp_all

lemma words_bytes_bytes: "4 * n \<le> length bs \<Longrightarrow> words_bytes (bytes_words n bs) = take (4 * n) bs"
proof (induction n arbitrary: bs)
  case (Suc n)
  then have "word_bytes (bytes_word (take 4 bs)) = take 4 bs" by (simp add: word_bytes_word)
  with Suc show ?case by (simp add: take_add)
qed simp

text \<open>Overwriting a stretch of a byte array, as \<open>bcopy\<close> and a cast assignment do.\<close>

definition overwrite :: "'a list \<Rightarrow> nat \<Rightarrow> 'a list \<Rightarrow> 'a list" where
  "overwrite xs p ys = take p xs @ ys @ drop (p + length ys) xs"

lemma length_overwrite [simp]: "p + length ys \<le> length xs \<Longrightarrow> length (overwrite xs p ys) = length xs"
  by (simp add: overwrite_def)

lemma nth_overwrite:
  "p + length ys \<le> length xs \<Longrightarrow> k < length xs \<Longrightarrow>
   overwrite xs p ys ! k = (if p \<le> k \<and> k < p + length ys then ys ! (k - p) else xs ! k)"
  by (auto simp: overwrite_def nth_append min_def)

lemma take_drop_overwrite [simp]:
  "p + length ys \<le> length xs \<Longrightarrow> n = length ys \<Longrightarrow> take n (drop p (overwrite xs p ys)) = ys"
  by (simp add: overwrite_def)

lemma take_drop_overwrite_other:
  assumes "p + length ys \<le> length xs" and "q + n \<le> p \<or> p + length ys \<le> q" and "q + n \<le> length xs"
  shows "take n (drop q (overwrite xs p ys)) = take n (drop q xs)"
  using assms by (intro nth_equalityI) (auto simp: nth_overwrite)

text \<open>The size of a disk sector, and of a page of memory (\<open>machine/disk.h\<close>).\<close>

definition SectorSize :: nat where "SectorSize = 256"

end
