(* ===== verification/Nachos_Machine.thy ===== *)
theory Nachos_Machine
  imports Nachos_Thread Nachos_Bytes
begin

section \<open>Memory and registers of the simulated machine: machine/machine.cc, translate.cc\<close>

text \<open>
  The state that user programs run on, as an extension of the thread system's: forty
  registers, physical memory as bytes, and either a page table or a TLB. A page table
  belongs to an address space and is only pointed to by the machine, so tables live in a
  store of their own (\<open>tables\<close>) and the machine holds a reference. The kernel's
  \<open>ExceptionHandler\<close>, which user programs trap to, is the argument \<open>eh\<close>.
\<close>

unbundle bit_operations_syntax

subsection \<open>The data (machine.h, translate.h)\<close>

definition PageSize :: nat where "PageSize = SectorSize"
definition NumPhysPages :: nat where "NumPhysPages = 32"
definition MemorySize :: nat where "MemorySize = NumPhysPages * PageSize"
definition TLBSize :: nat where "TLBSize = 4"

datatype ExceptionType = NoException | SyscallException | PageFaultException | ReadOnlyException
  | BusErrorException | AddressErrorException | OverflowException | IllegalInstrException

definition StackReg :: nat where "StackReg = 29"
definition RetAddrReg :: nat where "RetAddrReg = 31"
definition NumGPRegs :: nat where "NumGPRegs = 32"
definition HiReg :: nat where "HiReg = 32"
definition LoReg :: nat where "LoReg = 33"
definition PCReg :: nat where "PCReg = 34"
definition NextPCReg :: nat where "NextPCReg = 35"
definition PrevPCReg :: nat where "PrevPCReg = 36"
definition LoadReg :: nat where "LoadReg = 37"
definition LoadValueReg :: nat where "LoadValueReg = 38"
definition BadVAddrReg :: nat where "BadVAddrReg = 39"
definition NumTotalRegs :: nat where "NumTotalRegs = 40"

lemmas size_defs = SectorSize_def PageSize_def NumPhysPages_def MemorySize_def TLBSize_def
lemmas reg_defs = StackReg_def RetAddrReg_def NumGPRegs_def HiReg_def LoReg_def PCReg_def
  NextPCReg_def PrevPCReg_def LoadReg_def LoadValueReg_def BadVAddrReg_def NumTotalRegs_def

record TranslationEntry =
  virtualPage :: "32 word"
  physicalPage :: "32 word"
  valid :: bool
  readOnly :: bool
  used :: bool
  dirty :: bool

record MachineState = ThreadState +
  registers :: "32 word list"
  mainMemory :: "8 word list"
  tlb :: "TranslationEntry list option"
  pageTable :: "nat option"
  pageTableSize :: "32 word"
  tables :: "nat \<rightharpoonup> TranslationEntry list"

type_synonym 'a machine_action = "'a MachineState_scheme \<Rightarrow> 'a MachineState_scheme res"
type_synonym 'a exception_handler = "ExceptionType \<Rightarrow> 'a machine_action"

subsection \<open>Registers (machine.cc)\<close>

definition Machine_new :: "bool \<Rightarrow> TranslationEntry list \<Rightarrow> 'a machine_action" where
  "Machine_new USE_TLB junk s = andThen (CheckEndian False) (\<lambda>_.
     Inr (s\<lparr>registers := replicate NumTotalRegs 0, mainMemory := replicate MemorySize 0,
       tlb := (if USE_TLB then Some (map (\<lambda>e. e\<lparr>valid := False\<rparr>) (take TLBSize junk)) else None),
       pageTable := None\<rparr>))"

definition ReadRegister :: "int \<Rightarrow> 'a MachineState_scheme \<Rightarrow> (32 word) res" where
  "ReadRegister num s = ASSERT (num \<ge> 0 \<and> num < int NumTotalRegs) (fetch (registers s) num)"

definition WriteRegister :: "int \<Rightarrow> 32 word \<Rightarrow> 'a machine_action" where
  "WriteRegister num value s = ASSERT (num \<ge> 0 \<and> num < int NumTotalRegs)
     (andThen (store (registers s) num value) (\<lambda>rs. Inr (s\<lparr>registers := rs\<rparr>)))"

text \<open>\<open>reg\<close> and \<open>set_reg\<close> are the direct uses of the array \<open>registers\<close> inside the machine.\<close>

definition reg :: "'a MachineState_scheme \<Rightarrow> nat \<Rightarrow> 32 word" where
  "reg s k = registers s ! k"

definition set_reg :: "nat \<Rightarrow> 32 word \<Rightarrow> 'a MachineState_scheme \<Rightarrow> 'a MachineState_scheme" where
  "set_reg k v s = s\<lparr>registers := (registers s)[k := v]\<rparr>"

definition DelayedLoad :: "nat \<Rightarrow> 32 word \<Rightarrow> 'a machine_action" where
  "DelayedLoad nextReg nextValue s =
     andThen (store (registers s) (sint (reg s LoadReg)) (reg s LoadValueReg)) (\<lambda>rs.
       Inr (set_reg 0 0 (set_reg LoadValueReg nextValue
             (set_reg LoadReg (of_nat nextReg) (s\<lparr>registers := rs\<rparr>)))))"

definition RaiseException :: "'a exception_handler \<Rightarrow> ExceptionType \<Rightarrow> 32 word \<Rightarrow> 'a machine_action" where
  "RaiseException eh which badVAddr s =
     andThen (DelayedLoad 0 0 (set_reg BadVAddrReg badVAddr s)) (\<lambda>s1.
     andThen (eh which (setStatus SystemMode s1)) (\<lambda>s2. Inr (setStatus UserMode s2)))"

subsection \<open>Address translation (translate.cc)\<close>

datatype entry_ref = InTLB nat | InTable nat nat

definition get_entry :: "entry_ref \<Rightarrow> 'a MachineState_scheme \<Rightarrow> TranslationEntry res" where
  "get_entry e s = (case e of
     InTLB i \<Rightarrow> (case tlb s of None \<Rightarrow> Inl NullPointer | Some es \<Rightarrow> fetch es (int i))
   | InTable t i \<Rightarrow> (case tables s t of None \<Rightarrow> Inl NullPointer | Some es \<Rightarrow> fetch es (int i)))"

definition set_entry :: "entry_ref \<Rightarrow> TranslationEntry \<Rightarrow> 'a MachineState_scheme \<Rightarrow> 'a MachineState_scheme" where
  "set_entry e x s = (case e of
     InTLB i \<Rightarrow> s\<lparr>tlb := map_option (\<lambda>es. es[i := x]) (tlb s)\<rparr>
   | InTable t i \<Rightarrow> s\<lparr>tables := (tables s)(t := map_option (\<lambda>es. es[i := x]) (tables s t))\<rparr>)"

fun tlbSearch :: "32 word \<Rightarrow> nat \<Rightarrow> TranslationEntry list \<Rightarrow> nat option" where
  "tlbSearch vpn i [] = None"
| "tlbSearch vpn i (e # es) = (if valid e \<and> virtualPage e = vpn then Some i else tlbSearch vpn (Suc i) es)"

text \<open>The entry to use for a page, or the exception of a page that has none.\<close>

definition findEntry :: "32 word \<Rightarrow> 'a MachineState_scheme \<Rightarrow> (ExceptionType + entry_ref) res" where
  "findEntry vpn s = (case tlb s of
     None \<Rightarrow>
       (case pageTable s of None \<Rightarrow> Inl NullPointer | Some t \<Rightarrow>
         if vpn \<ge> pageTableSize s then Inr (Inl AddressErrorException)
         else andThen (get_entry (InTable t (unat vpn)) s) (\<lambda>e.
           if \<not> valid e then Inr (Inl PageFaultException) else Inr (Inr (InTable t (unat vpn)))))
   | Some es \<Rightarrow> (case tlbSearch vpn 0 (take TLBSize es) of
         None \<Rightarrow> Inr (Inl PageFaultException) | Some i \<Rightarrow> Inr (Inr (InTLB i))))"

definition misaligned :: "32 word \<Rightarrow> nat \<Rightarrow> bool" where
  "misaligned virtAddr sz \<longleftrightarrow>
     sz = 4 \<and> virtAddr AND 0x3 \<noteq> 0 \<or> sz = 2 \<and> virtAddr AND 0x1 \<noteq> 0"

definition Translate :: "32 word \<Rightarrow> nat \<Rightarrow> bool \<Rightarrow> 'a MachineState_scheme \<Rightarrow>
    ((ExceptionType + nat) \<times> 'a MachineState_scheme) res" where
  "Translate virtAddr sz writing s =
     (if misaligned virtAddr sz then Inr (Inl AddressErrorException, s)
      else ASSERT (tlb s = None \<or> pageTable s = None) (ASSERT (tlb s \<noteq> None \<or> pageTable s \<noteq> None)
        (let vpn = virtAddr div of_nat PageSize; offset = virtAddr mod of_nat PageSize
         in andThen (findEntry vpn s) (\<lambda>found. case found of
              Inl exception \<Rightarrow> Inr (Inl exception, s)
            | Inr ref \<Rightarrow> andThen (get_entry ref s) (\<lambda>entry.
                let pageFrame = physicalPage entry
                in if readOnly entry \<and> writing then Inr (Inl ReadOnlyException, s)
                   else if pageFrame \<ge> of_nat NumPhysPages then Inr (Inl BusErrorException, s)
                   else let s1 = set_entry ref (entry\<lparr>used := True, dirty := dirty entry \<or> writing\<rparr>) s;
                            physAddr = unat pageFrame * PageSize + unat offset
                        in ASSERT (physAddr + sz \<le> MemorySize) (Inr (Inr physAddr, s1)))))))"

definition ReadMem :: "'a exception_handler \<Rightarrow> 32 word \<Rightarrow> nat \<Rightarrow> 'a MachineState_scheme \<Rightarrow>
    ((32 word) option \<times> 'a MachineState_scheme) res" where
  "ReadMem eh addr sz s = andThen (Translate addr sz False s) (\<lambda>(r, s1). case r of
     Inl exception \<Rightarrow> andThen (RaiseException eh exception addr s1) (\<lambda>s2. Inr (None, s2))
   | Inr p \<Rightarrow>
       if sz = 1 then Inr (Some (scast (mainMemory s1 ! p)), s1)
       else if sz = 2 then
         Inr (Some (ucast (ShortToHost False (load_short False (take 2 (drop p (mainMemory s1)))))), s1)
       else if sz = 4 then
         Inr (Some (WordToHost False (load_word False (take 4 (drop p (mainMemory s1))))), s1)
       else Inl Assertion)"

definition WriteMem :: "'a exception_handler \<Rightarrow> 32 word \<Rightarrow> nat \<Rightarrow> 32 word \<Rightarrow> 'a MachineState_scheme \<Rightarrow>
    (bool \<times> 'a MachineState_scheme) res" where
  "WriteMem eh addr sz value s = andThen (Translate addr sz True s) (\<lambda>(r, s1). case r of
     Inl exception \<Rightarrow> andThen (RaiseException eh exception addr s1) (\<lambda>s2. Inr (False, s2))
   | Inr p \<Rightarrow>
       if sz = 1 then
         Inr (True, s1\<lparr>mainMemory := overwrite (mainMemory s1) p [ucast (value AND 0xff)]\<rparr>)
       else if sz = 2 then
         Inr (True, s1\<lparr>mainMemory := overwrite (mainMemory s1) p
           (store_short False (ShortToMachine False (ucast (value AND 0xffff))))\<rparr>)
       else if sz = 4 then
         Inr (True, s1\<lparr>mainMemory := overwrite (mainMemory s1) p
           (store_word False (WordToMachine False value))\<rparr>)
       else Inl Assertion)"

subsection \<open>The user registers of a thread (thread.cc)\<close>

fun saveLoop :: "nat \<Rightarrow> 'a MachineState_scheme \<Rightarrow> (32 word list) res" where
  "saveLoop 0 s = Inr []"
| "saveLoop (Suc k) s = andThen (saveLoop k s) (\<lambda>rs.
     andThen (ReadRegister (int k) s) (\<lambda>v. Inr (rs @ [v])))"

definition SaveUserState :: "nat \<Rightarrow> 'a machine_action" where
  "SaveUserState t s = andThen (saveLoop NumTotalRegs s) (\<lambda>rs.
     update_thread t (\<lambda>th. th\<lparr>t_userRegisters := rs\<rparr>) s)"

fun restoreLoop :: "32 word list \<Rightarrow> nat \<Rightarrow> 'a machine_action" where
  "restoreLoop rs 0 s = Inr s"
| "restoreLoop rs (Suc k) s = andThen (restoreLoop rs k s) (\<lambda>s1.
     andThen (fetch rs (int k)) (\<lambda>v. WriteRegister (int k) v s1))"

definition RestoreUserState :: "nat \<Rightarrow> 'a machine_action" where
  "RestoreUserState t s = andThen (thread_at t s) (\<lambda>th.
     restoreLoop (t_userRegisters th) NumTotalRegs s)"

subsection \<open>Translation is the page table's, and never fails an assertion\<close>

text \<open>
  \<open>mmu_ok\<close>: exactly one of the two translation mechanisms is on; a page table that is on
  exists and is as long as \<open>pageTableSize\<close> says. \<open>frame_of\<close> is what the translation of a
  page in use must be, written as a table of conditions.
\<close>

definition mmu_ok :: "'a MachineState_scheme \<Rightarrow> bool" where
  "mmu_ok s \<longleftrightarrow> (case (tlb s, pageTable s) of
     (None, Some t) \<Rightarrow> (case tables s t of None \<Rightarrow> False
       | Some es \<Rightarrow> unat (pageTableSize s) \<le> length es)
   | (Some es, None) \<Rightarrow> True | _ \<Rightarrow> False)"

definition memory_ok :: "'a MachineState_scheme \<Rightarrow> bool" where
  "memory_ok s \<longleftrightarrow> length (mainMemory s) = MemorySize"

lemma tlbSearch_Some:
  "tlbSearch vpn i es = Some k \<Longrightarrow>
   i \<le> k \<and> k - i < length es \<and> valid (es ! (k - i)) \<and> virtualPage (es ! (k - i)) = vpn"
proof (induction vpn i es rule: tlbSearch.induct)
  case (2 vpn i e es)
  show ?case
  proof (cases "valid e \<and> virtualPage e = vpn")
    case False
    then have "tlbSearch vpn (Suc i) es = Some k" using 2(2) by (simp split: if_splits)
    from 2(1) [OF False this] show ?thesis by (auto simp: nth_Cons' Suc_diff_le)
  qed (use 2(2) in simp)
qed simp

lemma tlbSearch_update:
  "i < length es \<Longrightarrow> valid x = valid (es ! i) \<Longrightarrow> virtualPage x = virtualPage (es ! i) \<Longrightarrow>
   tlbSearch vpn k (es[i := x]) = tlbSearch vpn k es"
  by (induction vpn k es arbitrary: i rule: tlbSearch.induct) (auto split: nat.split)

lemma uint_less_int: "uint w < int n \<longleftrightarrow> unat w < n"
  using of_nat_less_iff [of "unat w" n, where ?'a = int] by simp

lemma findEntry_Inr:
  assumes "findEntry vpn s = Inr (Inr ref)"
  shows "\<exists>e. get_entry ref s = Inr e \<and> valid e"
  using assms
  by (auto simp: findEntry_def get_entry_def fetch_def res_simps uint_less_int
      split: option.splits if_splits dest!: tlbSearch_Some)

lemma get_set_entry:
  assumes "get_entry ref s = Inr e"
  shows "get_entry ref (set_entry ref x s) = Inr x"
  using assms
  by (auto simp: get_entry_def set_entry_def fetch_def split: entry_ref.splits option.splits if_splits)

lemma findEntry_set_entry:
  assumes "get_entry ref s = Inr e" and "valid x = valid e" and "virtualPage x = virtualPage e"
  shows "findEntry vpn (set_entry ref x s) = findEntry vpn s"
proof (cases ref)
  case (InTLB i)
  then obtain es where es: "tlb s = Some es" "i < length es" "e = es ! i"
    using assms(1) by (auto simp: get_entry_def fetch_def split: option.splits if_splits)
  have "tlbSearch vpn 0 (take TLBSize (es[i := x])) = tlbSearch vpn 0 (take TLBSize es)"
  proof (cases "i < TLBSize")
    case True
    then show ?thesis using es assms(2,3) by (simp add: take_update_swap tlbSearch_update)
  qed (simp add: take_update_cancel)
  then show ?thesis using InTLB es by (simp add: findEntry_def set_entry_def)
next
  case (InTable t i)
  then obtain es where es: "tables s t = Some es" "i < length es" "e = es ! i"
    using assms(1) by (auto simp: get_entry_def fetch_def split: option.splits if_splits)
  show ?thesis
  proof (cases "pageTable s = Some t \<and> unat vpn = i")
    case True
    then show ?thesis using InTable es assms(2)
      by (auto simp: findEntry_def set_entry_def get_entry_def fetch_def split: option.splits)
  next
    case False
    then show ?thesis using InTable es
      by (auto simp: findEntry_def set_entry_def get_entry_def fetch_def split: option.splits)
  qed
qed

lemma word_offset:
  "unat (va mod of_nat PageSize :: 32 word) = unat va mod 256"
  "unat (va div of_nat PageSize :: 32 word) = unat va div 256"
  by (simp_all add: size_defs unat_mod unat_div)

lemma aligned_fits:
  assumes "\<not> misaligned va sz" and "sz \<in> {1, 2, 4}"
  shows "unat va mod 256 + sz \<le> 256"
proof -
  have m2: "sz = 2 \<Longrightarrow> unat va mod 2 = 0" and m4: "sz = 4 \<Longrightarrow> unat va mod 4 = 0"
  proof -
    have a: "va AND 1 = take_bit 1 va" "va AND 3 = take_bit 2 va"
      by (simp_all add: take_bit_eq_mask mask_eq_exp_minus_1)
    have b: "unat (take_bit 1 va) = unat va mod 2" "unat (take_bit 2 va) = unat va mod 4"
      by (simp_all only: unsigned_take_bit_eq) (simp_all add: take_bit_eq_mod)
    show "unat va mod 2 = 0" if "sz = 2"
    proof -
      have "va AND 1 = 0" using assms(1) that by (simp add: misaligned_def)
      then have "unat (take_bit 1 va) = 0" by (simp only: a(1) unsigned_0)
      then show ?thesis by (simp only: b(1))
    qed
    show "unat va mod 4 = 0" if "sz = 4"
    proof -
      have "va AND 3 = 0" using assms(1) that by (simp add: misaligned_def)
      then have "unat (take_bit 2 va) = 0" by (simp only: a(2) unsigned_0)
      then show ?thesis by (simp only: b(2))
    qed
  qed
  define r where "r = unat va mod 256"
  have r: "r < 256" by (simp add: r_def)
  have r2: "sz = 2 \<Longrightarrow> r mod 2 = 0" using m2 by (simp add: r_def mod_mod_cancel)
  have r4: "sz = 4 \<Longrightarrow> r mod 4 = 0" using m4 by (simp add: r_def mod_mod_cancel)
  from assms(2) consider "sz = 1" | "sz = 2" | "sz = 4" by auto
  then have "r + sz \<le> 256"
  proof cases
    case 1 then show ?thesis using r by simp
  next
    case 2 then show ?thesis using r r2 by (auto elim!: dvdE simp: mod_eq_0_iff_dvd)
  next
    case 3 then show ?thesis using r r4 by (auto elim!: dvdE simp: mod_eq_0_iff_dvd)
  qed
  then show ?thesis by (simp add: r_def)
qed

lemma findEntry_total:
  assumes "mmu_ok s"
  shows "\<exists>r. findEntry vpn s = Inr r"
proof (cases "tlb s")
  case None
  with assms obtain t es where t: "pageTable s = Some t" "tables s t = Some es"
      "unat (pageTableSize s) \<le> length es"
    by (auto simp: mmu_ok_def split: option.splits)
  have "unat vpn < length es" if "\<not> vpn \<ge> pageTableSize s"
    using that t(3) by (simp add: word_less_nat_alt not_le)
  then show ?thesis
    using None t by (auto simp: findEntry_def get_entry_def fetch_def uint_less_int)
next
  case (Some es)
  then show ?thesis by (auto simp: findEntry_def split: option.splits)
qed

lemma Translate_spec:
  assumes ok: "mmu_ok s" and sz: "sz \<in> {1, 2, 4}"
  shows "Translate va sz w s =
    (if misaligned va sz then Inr (Inl AddressErrorException, s)
     else case findEntry (va div of_nat PageSize) s of Inl e \<Rightarrow> Inl e
       | Inr (Inl x) \<Rightarrow> Inr (Inl x, s)
       | Inr (Inr ref) \<Rightarrow> andThen (get_entry ref s) (\<lambda>e.
           if readOnly e \<and> w then Inr (Inl ReadOnlyException, s)
           else if unat (physicalPage e) \<ge> NumPhysPages then Inr (Inl BusErrorException, s)
           else Inr (Inr (unat (physicalPage e) * PageSize + unat va mod 256),
                     set_entry ref (e\<lparr>used := True, dirty := dirty e \<or> w\<rparr>) s)))"
proof (cases "misaligned va sz")
  case False
  have one: "tlb s = None \<or> pageTable s = None" "tlb s \<noteq> None \<or> pageTable s \<noteq> None"
    using ok by (auto simp: mmu_ok_def split: option.splits)
  obtain r where r: "findEntry (va div of_nat PageSize) s = Inr r"
    using findEntry_total [OF ok] by blast
  have fit: "unat va mod 256 + sz \<le> 256" by (rule aligned_fits [OF False sz])
  show ?thesis
  proof (cases r)
    case (Inr ref)
    then obtain e where e: "get_entry ref s = Inr e" using findEntry_Inr r by blast
    have frame: "physicalPage e \<ge> of_nat NumPhysPages \<longleftrightarrow> unat (physicalPage e) \<ge> NumPhysPages"
      by (simp add: word_le_nat_alt size_defs)
    have "unat (physicalPage e) * PageSize + unat va mod 256 + sz \<le> MemorySize"
      if "\<not> NumPhysPages \<le> unat (physicalPage e)"
      using that fit by (simp add: size_defs)
    then show ?thesis
      using False one r Inr e frame by (simp add: Translate_def word_offset Let_def ASSERT_def)
  qed (use False one r in \<open>simp add: Translate_def Let_def ASSERT_def\<close>)
qed (simp add: Translate_def)

lemma mmu_ok_set_entry: "mmu_ok s \<Longrightarrow> mmu_ok (set_entry ref x s)"
  by (auto simp: mmu_ok_def set_entry_def split: entry_ref.splits option.splits)

lemma mmu_ok_mainMemory [simp]: "mmu_ok (s\<lparr>mainMemory := m\<rparr>) = mmu_ok s"
  by (simp add: mmu_ok_def split: option.split)

lemma set_entry_frame [simp]:
  "mainMemory (set_entry ref x s) = mainMemory s" "registers (set_entry ref x s) = registers s"
  "pageTable (set_entry ref x s) = pageTable s" "pageTableSize (set_entry ref x s) = pageTableSize s"
  by (simp_all add: set_entry_def split: entry_ref.splits)

lemma Translate_Inr:
  assumes ok: "mmu_ok s" and sz: "sz \<in> {1, 2, 4}" and tr: "Translate va sz w s = Inr (Inr pa, s')"
  obtains ref e where "\<not> misaligned va sz" and "findEntry (va div of_nat PageSize) s = Inr (Inr ref)"
    and "get_entry ref s = Inr e" and "valid e" and "\<not> (readOnly e \<and> w)"
    and "unat (physicalPage e) < NumPhysPages"
    and "pa = unat (physicalPage e) * PageSize + unat va mod 256"
    and "s' = set_entry ref (e\<lparr>used := True, dirty := dirty e \<or> w\<rparr>) s"
proof -
  have na: "\<not> misaligned va sz" using tr by (auto simp: Translate_def)
  obtain r where r: "findEntry (va div of_nat PageSize) s = Inr r"
    using findEntry_total [OF ok] by blast
  obtain ref where ref: "r = Inr ref"
    using tr na r by (cases r) (auto simp: Translate_spec [OF ok sz])
  obtain e where e: "get_entry ref s = Inr e" "valid e" using findEntry_Inr r ref by blast
  show thesis
    using that [OF na _ e] tr na r ref e(1)
    by (auto simp: Translate_spec [OF ok sz] split: if_splits)
qed

lemma Translate_bounds:
  assumes "mmu_ok s" and "sz \<in> {1, 2, 4}" and "Translate va sz w s = Inr (Inr pa, s')"
  shows "pa + sz \<le> MemorySize"
  using assms
proof (rule Translate_Inr)
  fix e :: TranslationEntry
  assume "\<not> misaligned va sz" and "unat (physicalPage e) < NumPhysPages"
    and "pa = unat (physicalPage e) * PageSize + unat va mod 256"
  with aligned_fits [OF _ assms(2), of va] show ?thesis by (simp add: size_defs)
qed

lemma Translate_again:
  assumes "mmu_ok s" and "sz \<in> {1, 2, 4}" and "Translate va sz w s = Inr (Inr pa, s')"
  shows "\<exists>s''. Translate va sz False (s'\<lparr>mainMemory := m\<rparr>) = Inr (Inr pa, s'') \<and> mainMemory s'' = m"
proof -
  obtain ref e where r: "\<not> misaligned va sz" "findEntry (va div of_nat PageSize) s = Inr (Inr ref)"
    "get_entry ref s = Inr e" "unat (physicalPage e) < NumPhysPages"
    "pa = unat (physicalPage e) * PageSize + unat va mod 256"
    "s' = set_entry ref (e\<lparr>used := True, dirty := dirty e \<or> w\<rparr>) s"
    using assms by (rule Translate_Inr)
  have ok': "mmu_ok s'" unfolding r(6) by (rule mmu_ok_set_entry [OF assms(1)])
  have g': "get_entry ref s' = Inr (e\<lparr>used := True, dirty := dirty e \<or> w\<rparr>)"
    unfolding r(6) by (rule get_set_entry [OF r(3)])
  have f': "findEntry (va div of_nat PageSize) s' = Inr (Inr ref)"
    unfolding r(6) using findEntry_set_entry [OF r(3)] r(2) by simp
  have ok: "mmu_ok (s'\<lparr>mainMemory := m\<rparr>)" using ok' by simp
  have g: "get_entry q (s'\<lparr>mainMemory := m\<rparr>) = get_entry q s'" for q
    by (simp add: get_entry_def split: entry_ref.splits)
  have f: "findEntry vpn (s'\<lparr>mainMemory := m\<rparr>) = findEntry vpn s'" for vpn
    by (simp add: findEntry_def g split: option.split)
  show ?thesis
    using r(1,4,5) by (simp add: Translate_spec [OF ok assms(2)] g f g' f')
qed

text \<open>
  C15. Translation through a page table. For a table as long as \<open>pageTableSize\<close> says,
  \<open>Translate\<close> never fails an assertion, and its result is this: a misaligned address
  or a page beyond the table is an address error, an entry that is not valid a page
  fault, a write to a read-only page a read-only exception, a frame the machine does not have
  a bus error; otherwise the physical address is the frame's start plus the offset in the
  page, the whole access lies in memory, and the only change is that the entry is
  marked used, and dirty when writing.
\<close>

theorem Translate_page_table:
  assumes "tlb s = None" and "pageTable s = Some t" and "tables s t = Some es"
    and "unat (pageTableSize s) \<le> length es" and "sz \<in> {1, 2, 4}"
  shows "let vpn = unat va div 256; e = es ! vpn;
      pa = unat (physicalPage e) * 256 + unat va mod 256 in
    Translate va sz w s =
      Inr (if misaligned va sz then (Inl AddressErrorException, s)
           else if unat (pageTableSize s) \<le> vpn then (Inl AddressErrorException, s)
           else if \<not> valid e then (Inl PageFaultException, s)
           else if readOnly e \<and> w then (Inl ReadOnlyException, s)
           else if 32 \<le> unat (physicalPage e) then (Inl BusErrorException, s)
           else (Inr pa, s\<lparr>tables := (tables s)(t \<mapsto>
                   es[vpn := e\<lparr>used := True, dirty := dirty e \<or> w\<rparr>])\<rparr>)) \<and>
    (\<not> misaligned va sz \<longrightarrow> unat (physicalPage e) < 32 \<longrightarrow> pa + sz \<le> 8192)"
proof -
  have ok: "mmu_ok s" using assms by (simp add: mmu_ok_def)
  have v: "unat (va div of_nat PageSize) = unat va div 256" by (rule word_offset(2))
  have le: "va div of_nat PageSize \<ge> pageTableSize s \<longleftrightarrow> unat (pageTableSize s) \<le> unat va div 256"
    by (simp add: word_le_nat_alt v)
  have fit: "unat va mod 256 + sz \<le> 256" if "\<not> misaligned va sz"
    by (rule aligned_fits [OF that assms(5)])
  define vpn e where "vpn = unat va div 256" and "e = es ! vpn"
  define pa where "pa = unat (physicalPage e) * 256 + unat va mod 256"
  have F: "findEntry (va div of_nat PageSize) s =
      (if unat (pageTableSize s) \<le> vpn then Inr (Inl AddressErrorException)
       else if \<not> valid e then Inr (Inl PageFaultException) else Inr (Inr (InTable t vpn)))"
  proof (cases "unat (pageTableSize s) \<le> vpn")
    case True
    then show ?thesis using assms(1,2) le by (simp add: findEntry_def vpn_def)
  next
    case False
    then have "vpn < length es" using assms(4) by linarith
    then have "get_entry (InTable t vpn) s = Inr e"
      using assms(3) by (simp add: get_entry_def e_def fetch_def)
    with False show ?thesis using assms(1,2) le v by (simp add: findEntry_def vpn_def)
  qed
  have G: "get_entry (InTable t vpn) s = Inr e" if "\<not> unat (pageTableSize s) \<le> vpn"
    using that assms(3,4) by (simp add: get_entry_def e_def fetch_def)
  have S: "set_entry (InTable t vpn) x s = s\<lparr>tables := (tables s)(t \<mapsto> es[vpn := x])\<rparr>" for x
    using assms(3) by (simp add: set_entry_def)
  have "Translate va sz w s =
      Inr (if misaligned va sz then (Inl AddressErrorException, s)
           else if unat (pageTableSize s) \<le> vpn then (Inl AddressErrorException, s)
           else if \<not> valid e then (Inl PageFaultException, s)
           else if readOnly e \<and> w then (Inl ReadOnlyException, s)
           else if 32 \<le> unat (physicalPage e) then (Inl BusErrorException, s)
           else (Inr pa, s\<lparr>tables := (tables s)(t \<mapsto>
                   es[vpn := e\<lparr>used := True, dirty := dirty e \<or> w\<rparr>])\<rparr>))"
    unfolding Translate_spec [OF ok assms(5)] F using G
    by (simp add: S size_defs pa_def)
  moreover have "pa + sz \<le> 8192" if "\<not> misaligned va sz" "unat (physicalPage e) < 32"
    using fit [OF that(1)] that(2) by (simp add: pa_def)
  ultimately show ?thesis unfolding Let_def vpn_def e_def pa_def by blast
qed

subsection \<open>Reading back what was written\<close>

lemma and_masks: "value AND 0xff = take_bit 8 (value :: 32 word)"
  "value AND 0xffff = take_bit 16 (value :: 32 word)"
  by (simp_all add: take_bit_eq_mask mask_eq_exp_minus_1)

lemma ucast_low_byte: "(ucast (value AND 0xff :: 32 word) :: 8 word) = ucast value"
  unfolding and_masks by (rule bit_word_eqI) (simp add: bit_simps)

lemma ucast_low_short: "(ucast (ucast (value AND 0xffff :: 32 word) :: 16 word) :: 32 word) = value AND 0xffff"
  unfolding and_masks by (rule bit_word_eqI) (auto simp: bit_simps)

definition stored_bytes :: "nat \<Rightarrow> 32 word \<Rightarrow> 8 word list" where
  "stored_bytes sz v = (if sz = 1 then [ucast v]
     else if sz = 2 then short_bytes (ucast (v AND 0xffff)) else word_bytes v)"

definition loaded_value :: "nat \<Rightarrow> 32 word \<Rightarrow> 32 word" where
  "loaded_value sz v = (if sz = 1 then scast (ucast v :: 8 word)
     else if sz = 2 then v AND 0xffff else v)"

lemma WriteMem_True:
  assumes "sz \<in> {1, 2, 4}" and "WriteMem eh va sz v s = Inr (True, s')"
  shows "\<exists>pa s1. Translate va sz True s = Inr (Inr pa, s1) \<and> length (stored_bytes sz v) = sz \<and>
    s' = s1\<lparr>mainMemory := overwrite (mainMemory s1) pa (stored_bytes sz v)\<rparr>"
proof -
  obtain r s1 where tr: "Translate va sz True s = Inr (r, s1)"
    using assms(2) by (auto simp: WriteMem_def res_simps)
  have "\<exists>pa. r = Inr pa"
    using assms(2) tr by (cases r) (auto simp: WriteMem_def res_simps)
  then show ?thesis
    using assms tr guest_store_word [of False] guest_short [of False]
    by (auto simp: WriteMem_def stored_bytes_def ucast_low_byte)
qed

text \<open>
  C16. Memory holds what was written. After a write of 1, 2 or 4 bytes that raised no exception,
  a read of the same size at the same virtual address succeeds and gives the value
  back (the low byte sign-extended, the low half-word zero-extended, or the word), and the
  write changed no byte of physical memory outside the \<open>sz\<close> bytes at the translated address.
\<close>

theorem ReadMem_after_WriteMem:
  assumes "mmu_ok s" and "memory_ok s" and "sz \<in> {1, 2, 4}"
    and "WriteMem eh va sz v s = Inr (True, s')"
  shows "(\<exists>s''. ReadMem eh va sz s' = Inr (Some (loaded_value sz v), s'') \<and> mainMemory s'' = mainMemory s') \<and>
    (\<exists>pa s1. Translate va sz True s = Inr (Inr pa, s1) \<and> pa + sz \<le> MemorySize \<and>
      (\<forall>k < MemorySize. k < pa \<or> pa + sz \<le> k \<longrightarrow> mainMemory s' ! k = mainMemory s ! k)) \<and>
    memory_ok s'"
proof -
  obtain pa s1 where w: "Translate va sz True s = Inr (Inr pa, s1)" "length (stored_bytes sz v) = sz"
      "s' = s1\<lparr>mainMemory := overwrite (mainMemory s1) pa (stored_bytes sz v)\<rparr>"
    using WriteMem_True [OF assms(3,4)] by blast
  have b: "pa + sz \<le> MemorySize" by (rule Translate_bounds [OF assms(1,3) w(1)])
  have m1: "mainMemory s1 = mainMemory s"
    using assms(1,3) w(1) by (rule Translate_Inr) simp
  have len: "length (mainMemory s) = MemorySize" using assms(2) by (simp add: memory_ok_def)
  obtain s'' where r: "Translate va sz False s' = Inr (Inr pa, s'')" "mainMemory s'' = mainMemory s'"
    using Translate_again [OF assms(1,3) w(1)] unfolding w(3) by fastforce
  have mem: "mainMemory s' = overwrite (mainMemory s) pa (stored_bytes sz v)" by (simp add: w(3) m1)
  have slice: "take sz (drop pa (mainMemory s')) = stored_bytes sz v"
    using b w(2) len by (simp add: mem)
  have "ReadMem eh va sz s' = Inr (Some (loaded_value sz v), s'')"
  proof -
    from assms(3) consider "sz = 1" | "sz = 2" | "sz = 4" by auto
    then show ?thesis
    proof cases
      case 1
      have "mainMemory s' ! pa = ucast v"
        using b w(2) len 1 by (simp add: mem nth_overwrite stored_bytes_def)
      then show ?thesis using r 1 by (simp add: ReadMem_def loaded_value_def)
    next
      case 2
      then show ?thesis using r slice guest_short [of False]
        by (simp add: ReadMem_def loaded_value_def stored_bytes_def ucast_low_short)
    next
      case 3
      then show ?thesis using r slice guest_load_word [of "word_bytes v" False]
        by (simp add: ReadMem_def loaded_value_def stored_bytes_def)
    qed
  qed
  moreover have "\<forall>k < MemorySize. k < pa \<or> pa + sz \<le> k \<longrightarrow> mainMemory s' ! k = mainMemory s ! k"
    using b w(2) len by (auto simp: mem nth_overwrite)
  moreover have "memory_ok s'" using b w(2) len by (simp add: memory_ok_def mem)
  ultimately show ?thesis using w(1) b r(2) by blast
qed

subsection \<open>Saving and restoring user registers\<close>

lemma saveLoop_spec:
  "length (registers s) = NumTotalRegs \<Longrightarrow> k \<le> NumTotalRegs \<Longrightarrow> saveLoop k s = Inr (take k (registers s))"
  by (induction k) (simp_all add: ReadRegister_def ASSERT_def take_Suc_conv_app_nth)

lemma restoreLoop_spec:
  assumes "length rs = NumTotalRegs" and "length (registers s) = NumTotalRegs"
  shows "k \<le> NumTotalRegs \<Longrightarrow>
    restoreLoop rs k s = Inr (s\<lparr>registers := take k rs @ drop k (registers s)\<rparr>)"
proof (induction k)
  case (Suc k)
  have "(take k rs @ drop k (registers s))[k := rs ! k] = take (Suc k) rs @ drop (Suc k) (registers s)"
    using Suc.prems assms
    by (simp add: list_update_append take_Suc_conv_app_nth Cons_nth_drop_Suc [symmetric])
  then show ?case
    using Suc assms by (simp add: WriteRegister_def ASSERT_def)
qed simp

lemma Save_Restore:
  assumes "length (registers s) = NumTotalRegs" and "threads s t = Some th"
  shows "SaveUserState t s = Inr (s\<lparr>threads := (threads s)(t \<mapsto> th\<lparr>t_userRegisters := registers s\<rparr>)\<rparr>)"
    and "threads s' t = Some (th\<lparr>t_userRegisters := registers s\<rparr>) \<Longrightarrow>
      length (registers s') = NumTotalRegs \<Longrightarrow>
      RestoreUserState t s' = Inr (s'\<lparr>registers := registers s\<rparr>)"
  using assms
  by (simp_all add: SaveUserState_def saveLoop_spec update_thread_def thread_at_def
      RestoreUserState_def restoreLoop_spec)

subsection \<open>The properties at a concrete machine\<close>

definition demo_entry :: "32 word \<Rightarrow> 32 word \<Rightarrow> bool \<Rightarrow> TranslationEntry" where
  "demo_entry v p r = \<lparr>virtualPage = v, physicalPage = p, valid = True, readOnly = r,
     used = False, dirty = False\<rparr>"

definition demo_machine :: MachineState where
  "demo_machine = \<lparr>stats = Statistics_new, level = IntOff, pending = [], inHandler = False,
     yieldOnReturn = False, status = SystemMode, rng = (\<lambda>_. 0), rngPos = 0,
     threads = [0 \<mapsto> demo_thread RUNNING None], nextThread = 1, readyList = [], currentThread = 0,
     threadToBeDestroyed = None, ProcessId = 0, semaphores = Map.empty, nextSemaphore = 0,
     registers = replicate NumTotalRegs 0, mainMemory = replicate MemorySize 0, tlb = None,
     pageTable = Some 0, pageTableSize = 2,
     tables = [0 \<mapsto> [demo_entry 0 3 False, demo_entry 1 5 True]]\<rparr>"

lemma demo_machine_fields [simp]:
  "tlb demo_machine = None" "pageTable demo_machine = Some 0" "pageTableSize demo_machine = 2"
  "tables demo_machine 0 = Some [demo_entry 0 3 False, demo_entry 1 5 True]"
  "registers demo_machine = replicate NumTotalRegs 0" "mainMemory demo_machine = replicate MemorySize 0"
  by (simp_all add: demo_machine_def)

lemma demo_entry_fields [simp]:
  "virtualPage (demo_entry v p r) = v" "physicalPage (demo_entry v p r) = p"
  "readOnly (demo_entry v p r) = r" "valid (demo_entry v p r)"
  by (simp_all add: demo_entry_def)

lemma demo_machine_ok: "mmu_ok demo_machine" "memory_ok demo_machine"
  by (simp_all add: mmu_ok_def memory_ok_def)

theorem Translate_page_table_witness:
  "Translate 260 4 True demo_machine = Inr (Inl ReadOnlyException, demo_machine) \<and>
   (\<exists>s. Translate 8 4 True demo_machine = Inr (Inr 776, s))"
  using Translate_page_table [of demo_machine 0 "[demo_entry 0 3 False, demo_entry 1 5 True]" 4 260 True]
    Translate_page_table [of demo_machine 0 "[demo_entry 0 3 False, demo_entry 1 5 True]" 4 8 True]
  by (simp add: misaligned_def Let_def)

theorem ReadMem_after_WriteMem_witness:
  "\<exists>s' s''. WriteMem (\<lambda>_. Inr) 8 4 77 demo_machine = Inr (True, s') \<and>
     ReadMem (\<lambda>_. Inr) 8 4 s' = Inr (Some 77, s'')"
proof -
  have sz: "(4 :: nat) \<in> {1, 2, 4}" by simp
  obtain s1 where "Translate 8 4 True demo_machine = Inr (Inr 776, s1)"
    by (simp add: Translate_spec [OF demo_machine_ok(1) sz] misaligned_def findEntry_def get_entry_def
        fetch_def size_defs)
  then obtain s' where w: "WriteMem (\<lambda>_. Inr) 8 4 77 demo_machine = Inr (True, s')"
    by (simp add: WriteMem_def)
  from ReadMem_after_WriteMem [OF demo_machine_ok sz this] w show ?thesis
    by (auto simp: loaded_value_def)
qed

end
