(* ===== verification/Nachos_Mips.thy ===== *)
theory Nachos_Mips
  imports Nachos_Machine
begin

section \<open>The MIPS processor: machine/mipssim.cc, mipssim.h\<close>

text \<open>
  Decoding and execution of one user instruction. A register is a \<open>32 word\<close>: \<open>int\<close> in the
  code, read with \<open>sint\<close> where the code compares or divides signed and with \<open>unat\<close> or
  unsigned comparison where it casts to \<open>unsigned\<close>. \<open>OneInstruction\<close> is one \<open>switch\<close>; it
  is split here by the kind of instruction, each part a function of the opcode that
  answers \<open>None\<close> for the opcodes of other parts.
\<close>

unbundle bit_operations_syntax

subsection \<open>Opcodes and the decoding tables (mipssim.h)\<close>

datatype OpCode = OP_ADD | OP_ADDI | OP_ADDIU | OP_ADDU | OP_AND | OP_ANDI | OP_BEQ | OP_BGEZ | OP_BGEZAL
  | OP_BGTZ | OP_BLEZ | OP_BLTZ | OP_BLTZAL | OP_BNE | OP_DIV | OP_DIVU | OP_J | OP_JAL
  | OP_JALR | OP_JR | OP_LB | OP_LBU | OP_LH | OP_LHU | OP_LUI | OP_LW | OP_LWL | OP_LWR
  | OP_MFHI | OP_MFLO | OP_MTHI | OP_MTLO | OP_MULT | OP_MULTU | OP_NOR | OP_OR | OP_ORI
  | OP_RFE | OP_SB | OP_SH | OP_SLL | OP_SLLV | OP_SLT | OP_SLTI | OP_SLTIU | OP_SLTU
  | OP_SRA | OP_SRAV | OP_SRL | OP_SRLV | OP_SUB | OP_SUBU | OP_SW | OP_SWL | OP_SWR | OP_XOR
  | OP_XORI | OP_SYSCALL | OP_UNIMP | OP_RES | SPECIAL | BCOND

datatype Format = IFMT | JFMT | RFMT

definition opTable :: "(OpCode \<times> Format) list" where
  "opTable = [
     (SPECIAL, RFMT), (BCOND, IFMT), (OP_J, JFMT), (OP_JAL, JFMT),
     (OP_BEQ, IFMT), (OP_BNE, IFMT), (OP_BLEZ, IFMT), (OP_BGTZ, IFMT),
     (OP_ADDI, IFMT), (OP_ADDIU, IFMT), (OP_SLTI, IFMT), (OP_SLTIU, IFMT),
     (OP_ANDI, IFMT), (OP_ORI, IFMT), (OP_XORI, IFMT), (OP_LUI, IFMT),
     (OP_UNIMP, IFMT), (OP_UNIMP, IFMT), (OP_UNIMP, IFMT), (OP_UNIMP, IFMT),
     (OP_RES, IFMT), (OP_RES, IFMT), (OP_RES, IFMT), (OP_RES, IFMT),
     (OP_RES, IFMT), (OP_RES, IFMT), (OP_RES, IFMT), (OP_RES, IFMT),
     (OP_RES, IFMT), (OP_RES, IFMT), (OP_RES, IFMT), (OP_RES, IFMT),
     (OP_LB, IFMT), (OP_LH, IFMT), (OP_LWL, IFMT), (OP_LW, IFMT),
     (OP_LBU, IFMT), (OP_LHU, IFMT), (OP_LWR, IFMT), (OP_RES, IFMT),
     (OP_SB, IFMT), (OP_SH, IFMT), (OP_SWL, IFMT), (OP_SW, IFMT),
     (OP_RES, IFMT), (OP_RES, IFMT), (OP_SWR, IFMT), (OP_RES, IFMT),
     (OP_UNIMP, IFMT), (OP_UNIMP, IFMT), (OP_UNIMP, IFMT), (OP_UNIMP, IFMT),
     (OP_RES, IFMT), (OP_RES, IFMT), (OP_RES, IFMT), (OP_RES, IFMT),
     (OP_UNIMP, IFMT), (OP_UNIMP, IFMT), (OP_UNIMP, IFMT), (OP_UNIMP, IFMT),
     (OP_RES, IFMT), (OP_RES, IFMT), (OP_RES, IFMT), (OP_RES, IFMT)]"

definition specialTable :: "OpCode list" where
  "specialTable = [
     OP_SLL, OP_RES, OP_SRL, OP_SRA, OP_SLLV, OP_RES, OP_SRLV, OP_SRAV,
     OP_JR, OP_JALR, OP_RES, OP_RES, OP_SYSCALL, OP_UNIMP, OP_RES, OP_RES,
     OP_MFHI, OP_MTHI, OP_MFLO, OP_MTLO, OP_RES, OP_RES, OP_RES, OP_RES,
     OP_MULT, OP_MULTU, OP_DIV, OP_DIVU, OP_RES, OP_RES, OP_RES, OP_RES,
     OP_ADD, OP_ADDU, OP_SUB, OP_SUBU, OP_AND, OP_OR, OP_XOR, OP_NOR,
     OP_RES, OP_RES, OP_SLT, OP_SLTU, OP_RES, OP_RES, OP_RES, OP_RES,
     OP_RES, OP_RES, OP_RES, OP_RES, OP_RES, OP_RES, OP_RES, OP_RES,
     OP_RES, OP_RES, OP_RES, OP_RES, OP_RES, OP_RES, OP_RES, OP_RES]"

record Instruction =
  i_value :: "32 word"
  i_opCode :: OpCode
  i_rs :: nat
  i_rt :: nat
  i_rd :: nat
  i_extra :: "32 word"

definition SIGN_BIT :: "32 word" where "SIGN_BIT = 0x80000000"
definition R31 :: nat where "R31 = 31"

definition IndexToAddr :: "32 word \<Rightarrow> 32 word" where
  "IndexToAddr x = push_bit 2 x"

definition Decode :: "32 word \<Rightarrow> Instruction" where
  "Decode value =
     (let rs = unat (drop_bit 21 value AND 0x1f);
          rt = unat (drop_bit 16 value AND 0x1f);
          rd = unat (drop_bit 11 value AND 0x1f);
          (opCode, format) = opTable ! unat (drop_bit 26 value AND 0x3f);
          extra = (case format of
             IFMT \<Rightarrow> (let extra = value AND 0xffff
                       in if extra AND 0x8000 \<noteq> 0 then extra OR 0xffff0000 else extra)
           | RFMT \<Rightarrow> drop_bit 6 value AND 0x1f
           | JFMT \<Rightarrow> value AND 0x3ffffff);
          opCode' = (if opCode = SPECIAL then specialTable ! unat (value AND 0x3f)
             else if opCode = BCOND then
               (let i = value AND 0x1f0000
                in if i = 0 then OP_BLTZ else if i = 0x10000 then OP_BGEZ
                   else if i = 0x100000 then OP_BLTZAL else if i = 0x110000 then OP_BGEZAL
                   else OP_UNIMP)
             else opCode)
      in \<lparr>i_value = value, i_opCode = opCode', i_rs = rs, i_rt = rt, i_rd = rd, i_extra = extra\<rparr>)"

subsection \<open>Multiplication\<close>

fun multLoop :: "nat \<Rightarrow> 32 word \<Rightarrow> 32 word \<Rightarrow> 32 word \<Rightarrow> 32 word \<Rightarrow> 32 word \<Rightarrow> 32 word \<times> 32 word" where
  "multLoop 0 a bHi bLo hi lo = (hi, lo)"
| "multLoop (Suc n) a bHi bLo hi lo =
     (let lo' = lo + bLo;
          hi' = (if lo' < bLo then hi + 1 else hi) + bHi;
          bHi' = (if bLo AND 0x80000000 \<noteq> 0 then push_bit 1 bHi OR 1 else push_bit 1 bHi);
          bLo' = push_bit 1 bLo;
          a' = signed_drop_bit 1 a
      in if a AND 1 \<noteq> 0 then
           (if a AND 0xfffffffe = 0 then (hi', lo') else multLoop n a' bHi' bLo' hi' lo')
         else multLoop n a' bHi' bLo' hi lo)"

definition Mult :: "32 word \<Rightarrow> 32 word \<Rightarrow> bool \<Rightarrow> 32 word \<times> 32 word" where
  "Mult a b signedArith =
     (if a = 0 \<or> b = 0 then (0, 0)
      else let negA = signedArith \<and> sint a < 0; negB = signedArith \<and> sint b < 0;
               negative = (negA \<noteq> negB);
               a' = (if negA then - a else a); b' = (if negB then - b else b);
               (hi, lo) = multLoop 32 a' 0 b' 0 0
           in if negative
              then (let lo' = NOT lo + 1 in (if lo' = 0 then NOT hi + 1 else NOT hi, lo'))
              else (hi, lo))"

subsection \<open>The instructions, by kind\<close>

text \<open>
  Register-to-register and immediate operations: the register that is written and the value.
\<close>

definition exec_immediate :: "Instruction \<Rightarrow> (nat \<Rightarrow> 32 word) \<Rightarrow> (nat \<times> 32 word) option" where
  "exec_immediate i r = (case i_opCode i of
     OP_ADDIU \<Rightarrow> Some (i_rt i, r (i_rs i) + i_extra i)
   | OP_ADDU \<Rightarrow> Some (i_rd i, r (i_rs i) + r (i_rt i))
   | OP_AND \<Rightarrow> Some (i_rd i, r (i_rs i) AND r (i_rt i))
   | OP_ANDI \<Rightarrow> Some (i_rt i, r (i_rs i) AND (i_extra i AND 0xffff))
   | OP_LUI \<Rightarrow> Some (i_rt i, push_bit 16 (i_extra i))
   | _ \<Rightarrow> None)"

definition exec_move :: "Instruction \<Rightarrow> (nat \<Rightarrow> 32 word) \<Rightarrow> (nat \<times> 32 word) option" where
  "exec_move i r = (case i_opCode i of
     OP_MFHI \<Rightarrow> Some (i_rd i, r HiReg)
   | OP_MFLO \<Rightarrow> Some (i_rd i, r LoReg)
   | OP_MTHI \<Rightarrow> Some (HiReg, r (i_rs i))
   | OP_MTLO \<Rightarrow> Some (LoReg, r (i_rs i))
   | _ \<Rightarrow> None)"

definition exec_logic :: "Instruction \<Rightarrow> (nat \<Rightarrow> 32 word) \<Rightarrow> (nat \<times> 32 word) option" where
  "exec_logic i r = (case i_opCode i of
     OP_NOR \<Rightarrow> Some (i_rd i, NOT (r (i_rs i) OR r (i_rt i)))
   | OP_OR \<Rightarrow> Some (i_rd i, r (i_rs i) OR r (i_rs i))
   | OP_ORI \<Rightarrow> Some (i_rt i, r (i_rs i) OR (i_extra i AND 0xffff))
   | OP_XOR \<Rightarrow> Some (i_rd i, r (i_rs i) XOR r (i_rt i))
   | OP_XORI \<Rightarrow> Some (i_rt i, r (i_rs i) XOR (i_extra i AND 0xffff))
   | OP_SUBU \<Rightarrow> Some (i_rd i, r (i_rs i) - r (i_rt i))
   | _ \<Rightarrow> None)"

definition exec_shift :: "Instruction \<Rightarrow> (nat \<Rightarrow> 32 word) \<Rightarrow> (nat \<times> 32 word) option" where
  "exec_shift i r = (case i_opCode i of
     OP_SLL \<Rightarrow> Some (i_rd i, push_bit (unat (i_extra i)) (r (i_rt i)))
   | OP_SLLV \<Rightarrow> Some (i_rd i, push_bit (unat (r (i_rs i) AND 0x1f)) (r (i_rt i)))
   | OP_SRA \<Rightarrow> Some (i_rd i, signed_drop_bit (unat (i_extra i)) (r (i_rt i)))
   | OP_SRAV \<Rightarrow> Some (i_rd i, signed_drop_bit (unat (r (i_rs i) AND 0x1f)) (r (i_rt i)))
   | OP_SRL \<Rightarrow> Some (i_rd i, signed_drop_bit (unat (i_extra i)) (r (i_rt i)))
   | OP_SRLV \<Rightarrow> Some (i_rd i, signed_drop_bit (unat (r (i_rs i) AND 0x1f)) (r (i_rt i)))
   | _ \<Rightarrow> None)"

definition exec_compare :: "Instruction \<Rightarrow> (nat \<Rightarrow> 32 word) \<Rightarrow> (nat \<times> 32 word) option" where
  "exec_compare i r = (case i_opCode i of
     OP_SLT \<Rightarrow> Some (i_rd i, if sint (r (i_rs i)) < sint (r (i_rt i)) then 1 else 0)
   | OP_SLTI \<Rightarrow> Some (i_rt i, if sint (r (i_rs i)) < sint (i_extra i) then 1 else 0)
   | OP_SLTIU \<Rightarrow> Some (i_rt i, if r (i_rs i) < i_extra i then 1 else 0)
   | OP_SLTU \<Rightarrow> Some (i_rd i, if r (i_rs i) < r (i_rt i) then 1 else 0)
   | _ \<Rightarrow> None)"

text \<open>Addition and subtraction that trap on overflow: \<open>None\<close> in the pair is the trap.\<close>

definition exec_overflow :: "Instruction \<Rightarrow> (nat \<Rightarrow> 32 word) \<Rightarrow> (nat \<times> 32 word option) option" where
  "exec_overflow i r = (case i_opCode i of
     OP_ADD \<Rightarrow> (let sum = r (i_rs i) + r (i_rt i) in Some (i_rd i,
       if (r (i_rs i) XOR r (i_rt i)) AND SIGN_BIT = 0 \<and> (r (i_rs i) XOR sum) AND SIGN_BIT \<noteq> 0
       then None else Some sum))
   | OP_ADDI \<Rightarrow> (let sum = r (i_rs i) + i_extra i in Some (i_rt i,
       if (r (i_rs i) XOR i_extra i) AND SIGN_BIT = 0 \<and> (i_extra i XOR sum) AND SIGN_BIT \<noteq> 0
       then None else Some sum))
   | OP_SUB \<Rightarrow> (let diff = r (i_rs i) - r (i_rt i) in Some (i_rd i,
       if (r (i_rs i) XOR r (i_rt i)) AND SIGN_BIT \<noteq> 0 \<and> (r (i_rs i) XOR diff) AND SIGN_BIT \<noteq> 0
       then None else Some diff))
   | _ \<Rightarrow> None)"

text \<open>
  Multiplication and division write the pair \<open>(HiReg, LoReg)\<close>. The quotient of the
  smallest integer by \<open>-1\<close> does not fit an \<open>int\<close>; the host processor traps.
\<close>

definition exec_muldiv :: "Instruction \<Rightarrow> (nat \<Rightarrow> 32 word) \<Rightarrow> ((32 word \<times> 32 word) res) option" where
  "exec_muldiv i r = (let a = r (i_rs i); b = r (i_rt i) in case i_opCode i of
     OP_DIV \<Rightarrow> Some (if b = 0 then Inr (0, 0)
       else if a = SIGN_BIT \<and> b = - 1 then Inl HostTrap
       else Inr (word_of_int (sint a smod sint b), word_of_int (sint a sdiv sint b)))
   | OP_DIVU \<Rightarrow> Some (if b = 0 then Inr (0, 0) else Inr (a mod b, a div b))
   | OP_MULT \<Rightarrow> Some (Inr (Mult a b True))
   | OP_MULTU \<Rightarrow> Some (Inr (Mult a b False))
   | _ \<Rightarrow> None)"

text \<open>
  Branches and jumps: the register that gets the return address, if any, and the value of
  \<open>pcAfter\<close>. A register is linked before the condition is looked at, as in the code, so
  \<open>BGEZAL\<close> on \<open>R31\<close> tests the return address.
\<close>

definition exec_branch :: "Instruction \<Rightarrow> (nat \<Rightarrow> 32 word) \<Rightarrow> 32 word \<Rightarrow> (nat option \<times> 32 word) option" where
  "exec_branch i r pcAfter =
     (let next = r NextPCReg; target = next + IndexToAddr (i_extra i); rs = r (i_rs i); rt = r (i_rt i);
          linked = (if i_rs i = R31 then next + 4 else rs);
          jump = (pcAfter AND 0xf0000000) OR IndexToAddr (i_extra i)
      in case i_opCode i of
     OP_BEQ \<Rightarrow> Some (None, if rs = rt then target else pcAfter)
   | OP_BGEZAL \<Rightarrow> Some (Some R31, if linked AND SIGN_BIT = 0 then target else pcAfter)
   | OP_BGEZ \<Rightarrow> Some (None, if rs AND SIGN_BIT = 0 then target else pcAfter)
   | OP_BGTZ \<Rightarrow> Some (None, if sint rs > 0 then target else pcAfter)
   | OP_BLEZ \<Rightarrow> Some (None, if sint rs \<le> 0 then target else pcAfter)
   | OP_BLTZAL \<Rightarrow> Some (Some R31, if linked AND SIGN_BIT \<noteq> 0 then target else pcAfter)
   | OP_BLTZ \<Rightarrow> Some (None, if rs AND SIGN_BIT \<noteq> 0 then target else pcAfter)
   | OP_BNE \<Rightarrow> Some (None, if rs \<noteq> rt then target else pcAfter)
   | OP_JAL \<Rightarrow> Some (Some R31, jump)
   | OP_J \<Rightarrow> Some (None, jump)
   | OP_JALR \<Rightarrow> Some (Some (i_rd i), if i_rs i = i_rd i then next + 4 else rs)
   | OP_JR \<Rightarrow> Some (None, rs)
   | _ \<Rightarrow> None)"


end
