(* ===== verification/Nachos_Arith.thy ===== *)
theory Nachos_Arith
  imports Nachos_Mips
begin

section \<open>What the arithmetic instructions compute\<close>

text \<open>
  The shift-and-add multiplication of \<open>Mult\<close> gives the exact 64-bit product, signed and
  unsigned; the bit tests with which \<open>ADD\<close>, \<open>ADDI\<close> and \<open>SUB\<close> detect overflow are exact;
  division truncates; and the two instructions whose code computes something else than the
  MIPS instruction of that name.
\<close>

unbundle bit_operations_syntax

subsection \<open>Multiplication\<close>

text \<open>\<open>pair\<close> is the number whose high and low words are given; \<open>W\<close> is \<open>2 ^ 32\<close>.\<close>

definition W :: int where "W = 2 ^ 32"

definition pair :: "32 word \<times> 32 word \<Rightarrow> int" where
  "pair p = uint (fst p) * W + uint (snd p)"

lemma uint_W: "0 \<le> uint (x :: 32 word)" "uint (x :: 32 word) < W"
  using uint_lt2p [of x] by (simp_all add: W_def)

lemma uint_add_W: "uint (x + y :: 32 word) = (uint x + uint y) mod W"
  by (simp add: uint_word_ariths W_def)

lemma W_pos: "0 < W" by (simp add: W_def)

lemma mod_W_less: "0 \<le> a \<Longrightarrow> a < 2 * W \<Longrightarrow> a mod W = (if a < W then a else a - W)"
  using W_pos by (auto simp: mod_pos_pos_trivial) (metis add_diff_cancel_left' diff_less_eq
      diff_ge_0_iff_ge minus_mod_self2 mod_pos_pos_trivial mult_2 not_less)

lemma mod_WW: "(a::int) = b + k * (W * W) \<Longrightarrow> a mod (W * W) = b mod (W * W)"
  by simp

lemma pair_add:
  assumes "lo' = lo + bLo" and "hi' = (if lo' < bLo then hi + 1 else hi) + bHi"
  shows "pair (hi', lo') mod (W * W) = (pair (hi, lo) + pair (bHi, bLo)) mod (W * W)"
proof -
  let ?s = "uint lo + uint bLo"
  have s: "0 \<le> ?s" "?s < 2 * W" using uint_W [of lo] uint_W [of bLo] by simp_all
  have lo': "uint lo' = (if ?s < W then ?s else ?s - W)"
    unfolding assms(1) uint_add_W by (rule mod_W_less [OF s])
  have c: "lo' < bLo \<longleftrightarrow> \<not> ?s < W"
    unfolding word_less_def lo' using uint_W [of lo] uint_W [of bLo] by auto
  define h where "h = uint hi + (if ?s < W then 0 else 1) + uint bHi"
  have "uint (if lo' < bLo then hi + 1 else hi) = (uint hi + (if ?s < W then 0 else 1)) mod W"
    using uint_W [of hi] by (simp add: c uint_add_W)
  then have hi': "uint hi' = h mod W"
    unfolding assms(2) uint_add_W by (simp add: h_def mod_add_left_eq)
  have "h mod W = h - h div W * W" by (rule minus_div_mult_eq_mod [symmetric])
  then have "pair (hi', lo') = (h - h div W * W) * W + uint lo'" by (simp add: pair_def hi')
  also have "\<dots> = pair (hi, lo) + pair (bHi, bLo) - h div W * (W * W)"
    by (simp add: pair_def lo' h_def algebra_simps)
  finally have "pair (hi', lo') = pair (hi, lo) + pair (bHi, bLo) + (- (h div W)) * (W * W)" by simp
  then show ?thesis by (rule mod_WW)
qed

lemma and_SIGN_BIT: "x AND 0x80000000 \<noteq> 0 \<longleftrightarrow> bit (x :: 32 word) 31"
proof -
  have "(0x80000000 :: 32 word) = 2 ^ 31" by simp
  then show ?thesis by (simp only: and_exp_eq_0_iff_not_bit not_not)
qed

lemma bit_31: "bit (x :: 32 word) 31 \<longleftrightarrow> W \<le> 2 * uint x"
proof -
  have "bit x 31 \<longleftrightarrow> odd (uint x div 2 ^ 31)"
    by (simp only: bit_iff_odd [symmetric] bit_uint_iff) simp
  moreover have "uint x div 2 ^ 31 = (if W \<le> 2 * uint x then 1 else 0)"
    using uint_W [of x] by (auto simp: W_def)
  ultimately show ?thesis by simp
qed

lemma uint_shift1: "uint (push_bit 1 x :: 32 word) = (2 * uint x) mod W"
proof -
  have "push_bit 1 x = x + x" by (simp add: push_bit_eq_mult)
  then show ?thesis by (simp only: uint_add_W mult_2)
qed

lemma uint_shift1_or1: "uint (push_bit 1 x OR 1 :: 32 word) = (2 * uint x) mod W + 1"
proof -
  have "push_bit 1 x AND 1 = 0" 
    by (rule bit_word_eqI) (simp only: bit_and_iff bit_push_bit_iff bit_1_iff, auto)
  then have "push_bit 1 x OR 1 = push_bit 1 x + 1" by (simp only: disjunctive_add_eq_or)
  moreover have "(2 * uint x) mod W + 1 < W"
  proof -
    have w: "even W" by (simp add: W_def)
    have "even ((2 * uint x) mod W)" using w by (intro dvd_mod) simp_all
    moreover note w
    moreover have "(2 * uint x) mod W < W" using W_pos by simp
    moreover have "(2 * uint x) mod W + 1 \<noteq> W" using calculation(1,2) by (metis even_plus_one_iff)
    ultimately show ?thesis by linarith
  qed
  ultimately show ?thesis
    using W_pos uint_shift1 [of x] by (simp only: uint_add_W) simp
qed

lemma pair_shift:
  assumes "bHi' = (if bLo AND 0x80000000 \<noteq> 0 then push_bit 1 bHi OR 1 else push_bit 1 bHi)"
  shows "pair (bHi', push_bit 1 bLo) mod (W * W) = 2 * pair (bHi, bLo) mod (W * W)"
proof -
  define c :: int where "c = (if W \<le> 2 * uint bLo then 1 else 0)"
  have lo: "uint (push_bit 1 bLo) = 2 * uint bLo - c * W"
    unfolding uint_shift1 using uint_W [of bLo] by (subst mod_W_less) (auto simp: c_def)
  have "uint bHi' = (2 * uint bHi) mod W + c"
    unfolding assms and_SIGN_BIT bit_31 c_def by (simp only: uint_shift1 uint_shift1_or1 split: if_split) simp
  then have hi: "uint bHi' = 2 * uint bHi - 2 * uint bHi div W * W + c"
    by (simp add: minus_div_mult_eq_mod [symmetric])
  have "pair (bHi', push_bit 1 bLo) = 2 * pair (bHi, bLo) + (- (2 * uint bHi div W)) * (W * W)"
    unfolding pair_def fst_conv snd_conv hi lo by (simp add: algebra_simps)
  then show ?thesis by (rule mod_WW)
qed

text \<open>The bits of \<open>a\<close> that \<open>n\<close> more turns of the loop will look at, as a number.\<close>

definition low :: "nat \<Rightarrow> 32 word \<Rightarrow> int" where
  "low n a = uint a mod 2 ^ n"

lemma uint_bit_0: "a AND 1 \<noteq> 0 \<longleftrightarrow> odd (uint (a :: 32 word))"
proof -
  have "a AND 1 \<noteq> 0 \<longleftrightarrow> bit a 0" using and_exp_eq_0_iff_not_bit [of a 0] by simp
  also have "\<dots> \<longleftrightarrow> bit (uint a) 0" by (simp only: bit_uint_iff) simp
  finally show ?thesis by (simp add: bit_0)
qed

lemma low_Suc:
  assumes "n < 32"
  shows "low (Suc n) a = 2 * low n (signed_drop_bit 1 a) + (if a AND 1 \<noteq> 0 then 1 else 0)"
proof -
  have "take_bit (Suc n) (uint a) = (if odd (uint a) then 1 else 0) + 2 * take_bit n (uint a div 2)"
    by (simp add: take_bit_Suc mod_2_eq_odd add.commute of_bool_def)
  moreover have "take_bit n (uint a div 2) = take_bit n (uint (signed_drop_bit 1 a))"
  proof (rule bit_eqI)
    fix k
    have "bit (uint a div 2) k \<longleftrightarrow> bit (uint a) (Suc k)" by (simp add: bit_Suc)
    then show "bit (take_bit n (uint a div 2)) k \<longleftrightarrow> bit (take_bit n (uint (signed_drop_bit 1 a))) k"
      using assms by (auto simp: bit_take_bit_iff bit_uint_iff bit_signed_drop_bit_iff)
  qed
  ultimately show ?thesis unfolding low_def uint_bit_0 by (simp add: take_bit_eq_mod)
qed

lemma one_left:
  assumes "a AND 1 \<noteq> 0" and "a AND 0xfffffffe = 0"
  shows "low (Suc n) a = 1"
proof -
  have "(0xfffffffe :: 32 word) = NOT 1" by simp
  then have "a AND NOT 1 = 0" using assms(2) by (simp only:)
  then have "a = a AND 1" by (metis (no_types, lifting) bit.conj_disj_distrib bit.disj_zero_right
        bit.conj_one_right bit.disj_cancel_right)
  moreover have "a AND 1 = 1" using assms(1) by (simp add: and_one_eq mod_2_eq_odd)
  ultimately have "a = 1" by simp
  moreover have "(1::int) < 2 ^ Suc n" by (rule one_less_power) simp_all
  ultimately show ?thesis by (simp add: low_def mod_pos_pos_trivial del: power_Suc)
qed

lemma multLoop_pair:
  "n \<le> 32 \<Longrightarrow> pair (multLoop n a bHi bLo hi lo) mod (W * W) =
     (pair (hi, lo) + pair (bHi, bLo) * low n a) mod (W * W)"
proof (induction n arbitrary: a bHi bLo hi lo)
  case 0
  then show ?case by (simp add: low_def)
next
  case (Suc n)
  define lo' hi' bHi' bLo' a' where d: "lo' = lo + bLo"
    "hi' = (if lo' < bLo then hi + 1 else hi) + bHi"
    "bHi' = (if bLo AND 0x80000000 \<noteq> 0 then push_bit 1 bHi OR 1 else push_bit 1 bHi)"
    "bLo' = push_bit 1 bLo" "a' = signed_drop_bit 1 a"
  note add = pair_add [OF d(1,2)] and shift = pair_shift [OF d(3), folded d(4)]
  have low: "low (Suc n) a = 2 * low n a' + (if a AND 1 \<noteq> 0 then 1 else 0)"
    unfolding d(5) using Suc.prems by (intro low_Suc) simp
  have twice: "(x + pair (bHi', bLo') * k) mod (W * W) = (x + pair (bHi, bLo) * (2 * k)) mod (W * W)" for x k
    using shift by (metis (no_types, lifting) mod_add_right_eq mod_mult_left_eq mult.assoc mult.commute)
  show ?case
  proof (cases "a AND 1 \<noteq> 0")
    case True
    show ?thesis
    proof (cases "a AND 0xfffffffe = 0")
      case stop: True
      have "multLoop (Suc n) a bHi bLo hi lo = (hi', lo')"
        using True stop by (simp add: d)
      then show ?thesis using add one_left [OF True stop] by simp
    next
      case False
      have e: "multLoop (Suc n) a bHi bLo hi lo = multLoop n a' bHi' bLo' hi' lo'"
        using True False by (simp add: d)
      have "pair (multLoop n a' bHi' bLo' hi' lo') mod (W * W) =
          (pair (hi', lo') + pair (bHi', bLo') * low n a') mod (W * W)"
        using Suc.prems by (intro Suc.IH) simp
      also have "\<dots> = (pair (hi', lo') + pair (bHi, bLo) * (2 * low n a')) mod (W * W)" by (rule twice)
      also have "\<dots> = (pair (hi, lo) + pair (bHi, bLo) + pair (bHi, bLo) * (2 * low n a')) mod (W * W)"
        using add by (metis mod_add_left_eq)
      finally show ?thesis unfolding e low using True by (simp add: algebra_simps)
    qed
  next
    case False
    have e: "multLoop (Suc n) a bHi bLo hi lo = multLoop n a' bHi' bLo' hi lo"
      using False by (simp add: d)
    have "pair (multLoop n a' bHi' bLo' hi lo) mod (W * W) =
        (pair (hi, lo) + pair (bHi', bLo') * low n a') mod (W * W)"
      using Suc.prems by (intro Suc.IH) simp
    also have "\<dots> = (pair (hi, lo) + pair (bHi, bLo) * (2 * low n a')) mod (W * W)" by (rule twice)
    finally show ?thesis unfolding e low using False by simp
  qed
qed

lemma low_32: "low 32 a = uint a"
  using uint_W [of a] by (simp add: low_def W_def)

lemma multLoop_product: "pair (multLoop 32 a 0 b 0 0) = uint a * uint b"
proof -
  have "pair (multLoop 32 a 0 b 0 0) mod (W * W) = (uint a * uint b) mod (W * W)"
    using multLoop_pair [of 32 a 0 b 0 0] by (simp add: low_32) (simp add: pair_def mult.commute)
  moreover have "0 \<le> pair p" "pair p < W * W" for p
  proof -
    show "0 \<le> pair p" using uint_W W_pos by (simp add: pair_def)
    have "uint (fst p) * W \<le> (W - 1) * W" using uint_W [of "fst p"] W_pos by (intro mult_right_mono) simp_all
    then show "pair p < W * W" using uint_W [of "snd p"] by (simp add: pair_def left_diff_distrib)
  qed
  moreover have "0 \<le> uint a * uint b" "uint a * uint b < W * W"
    using uint_W [of a] uint_W [of b] by (simp_all add: mult_strict_mono')
  ultimately show ?thesis by (metis mod_pos_pos_trivial)
qed

text \<open>A pair read as a 64-bit signed number.\<close>

definition signed_pair :: "32 word \<times> 32 word \<Rightarrow> int" where
  "signed_pair p = sint (fst p) * W + uint (snd p)"

lemma sint_W: "- W \<le> 2 * sint (x :: 32 word)" "2 * sint (x :: 32 word) < W"
  using sint_range_size [of x] by (simp_all add: W_def word_size)

lemma sint_uint_W: "sint (x :: 32 word) = (if 2 * uint x < W then uint x else uint x - W)"
proof -
  have "sint x = take_bit 32 (uint x) - 2 ^ 32 * of_bool (bit (uint x) 31)"
    using signed_take_bit_eq_take_bit_minus [of 31 "uint x"] by (simp add: sint_uint)
  moreover have "take_bit 32 (uint x) = uint x"
    using uint_W [of x] by (simp add: take_bit_eq_mod W_def)
  moreover have "bit (uint x) 31 \<longleftrightarrow> bit x 31" by (simp only: bit_uint_iff) simp
  ultimately show ?thesis by (auto simp: bit_31 W_def)
qed

lemma uint_uminus_W: "uint (- x :: 32 word) = (if uint x = 0 then 0 else W - uint x)"
proof -
  have e: "uint (- x) = (- uint x) mod W" by (simp add: uint_word_ariths W_def)
  show ?thesis
  proof (cases "uint x = 0")
    case False
    then have "0 < uint x" using uint_W(1) [of x] by linarith
    then have "0 \<le> W - uint x" "W - uint x < W" using uint_W [of x] by linarith+
    then have "(W - uint x) mod W = W - uint x" by (rule mod_pos_pos_trivial)
    moreover have "(W - uint x) mod W = (- uint x) mod W" by (metis minus_mod_self1 uminus_add_conv_diff diff_minus_eq_add minus_diff_eq minus_mod_int_eq mod_minus_cong diff_0 add_0)
    ultimately show ?thesis using False e by simp
  qed (use e in simp)
qed

lemma uint_not_W: "uint (NOT x :: 32 word) = W - 1 - uint x"
proof -
  have "NOT x = - (x + 1)" by (simp add: not_eq_complement)
  then have "uint (NOT x) = uint (- (x + 1))" by (simp only:)
  moreover have "uint (x + 1) = (if uint x = W - 1 then 0 else uint x + 1)"
    using uint_W [of x] W_pos by (auto simp: uint_add_W mod_pos_pos_trivial)
  moreover have "uint x + 1 \<noteq> 0" using uint_W(1) [of x] by linarith
  ultimately show ?thesis by (simp only: uint_uminus_W split: if_splits) simp_all
qed

lemma uint_abs: "uint (if sint (a :: 32 word) < 0 then - a else a) = \<bar>sint a\<bar>"
  using uint_W [of a] by (auto simp: sint_uint_W uint_uminus_W)

lemma pair_negate:
  assumes "lo' = NOT lo + 1" and "hi' = (if lo' = 0 then NOT hi + 1 else NOT hi)"
  shows "pair (hi', lo') mod (W * W) = (- pair (hi, lo)) mod (W * W)"
proof -
  have lo': "lo' = - lo" by (simp add: assms(1) not_eq_complement)
  have z: "lo' = 0 \<longleftrightarrow> uint lo = 0" by (simp add: lo' uint_0_iff)
  have n1: "NOT hi + 1 = - hi" by (simp add: not_eq_complement)
  consider "uint lo = 0" "uint hi = 0" | "uint lo = 0" "uint hi \<noteq> 0" | "uint lo \<noteq> 0" by blast
  then show ?thesis
  proof cases
    case 1
    then show ?thesis by (simp add: pair_def assms(2) z n1) (simp add: lo' uint_uminus_W)
  next
    case 2
    then have "pair (hi', lo') = - pair (hi, lo) + 1 * (W * W)"
      by (simp add: pair_def assms(2) z n1 uint_uminus_W) (simp add: lo' uint_uminus_W algebra_simps)
    then show ?thesis by (rule mod_WW)
  next
    case 3
    then have "pair (hi', lo') = - pair (hi, lo) + 1 * (W * W)"
      by (simp add: pair_def assms(2) z uint_not_W) (simp add: lo' uint_uminus_W algebra_simps)
    then show ?thesis by (rule mod_WW)
  qed
qed

lemma signed_pair_mod: "signed_pair p mod (W * W) = pair p mod (W * W)"
proof -
  have "signed_pair p = pair p + (if 2 * uint (fst p) < W then 0 else - 1) * (W * W)"
    by (simp add: signed_pair_def pair_def sint_uint_W algebra_simps)
  then show ?thesis by (rule mod_WW)
qed

lemma add_low:
  "- (y::int) \<le> 2 * x \<Longrightarrow> 2 * x \<le> y - 2 * w \<Longrightarrow> 0 \<le> u \<Longrightarrow> u < w \<Longrightarrow>
   - y \<le> 2 * (x + u) \<and> 2 * (x + u) < y"
  by (simp add: distrib_left)

lemma close: "- (n::int) \<le> 2 * x \<Longrightarrow> 2 * x < n \<Longrightarrow> 4 * \<bar>y\<bar> \<le> n \<Longrightarrow> 0 < n \<Longrightarrow> \<bar>x - y\<bar> < n"
  by linarith

lemma signed_pair_range: "- (W * W) \<le> 2 * signed_pair p" "2 * signed_pair p < W * W"
proof -
  have s: "- W \<le> 2 * sint (fst p)" "2 * sint (fst p) \<le> W - 2"
  proof -
    show "- W \<le> 2 * sint (fst p)" by (rule sint_W)
    have "even W" by (simp add: W_def)
    then show "2 * sint (fst p) \<le> W - 2" using sint_W(2) [of "fst p"] by presburger
  qed
  have "- W * W \<le> 2 * sint (fst p) * W" "2 * sint (fst p) * W \<le> (W - 2) * W"
    using s W_pos by (intro mult_right_mono; simp)+
  then have "- (W * W) \<le> 2 * (sint (fst p) * W)" "2 * (sint (fst p) * W) \<le> W * W - 2 * W"
    by (simp_all add: algebra_simps)
  then have "- (W * W) \<le> 2 * (sint (fst p) * W + uint (snd p)) \<and>
      2 * (sint (fst p) * W + uint (snd p)) < W * W"
    using uint_W [of "snd p"] by (rule add_low)
  then show "- (W * W) \<le> 2 * signed_pair p" "2 * signed_pair p < W * W"
    by (simp_all only: signed_pair_def)
qed

lemma mod_eq_close: "(x::int) mod N = y mod N \<Longrightarrow> \<bar>x - y\<bar> < N \<Longrightarrow> x = y"
  by (metis abs_0_eq abs_of_nonneg abs_ge_zero eq_iff_diff_eq_0 mod_eq_dvd_iff dvd_imp_le_int not_less abs_abs abs_mult zdvd_not_zless linorder_not_less dvd_abs_iff zero_less_abs_iff)

text \<open>
  C36. \<open>MULT\<close> and \<open>MULTU\<close> are exact: for all operands, the two result registers together hold
  the 64-bit product of the operands, read as signed numbers for \<open>MULT\<close> and as unsigned
  numbers for \<open>MULTU\<close>, although the loop works bit by bit on words, shifts its multiplier
  arithmetically, and takes the absolute value of the smallest integer, which overflows.
\<close>

theorem Mult_exact:
  "signed_pair (Mult a b True) = sint a * sint b \<and> pair (Mult a b False) = uint a * uint b"
proof
  show "pair (Mult a b False) = uint a * uint b"
    using multLoop_product [of a b] by (auto simp: Mult_def pair_def Let_def split: prod.split)
  show "signed_pair (Mult a b True) = sint a * sint b"
  proof (cases "a = 0 \<or> b = 0")
    case True
    then show ?thesis by (auto simp: Mult_def signed_pair_def)
  next
    case False
    define p where "p = multLoop 32 (if sint a < 0 then - a else a) 0 (if sint b < 0 then - b else b) 0 0"
    obtain hi lo where hl: "p = (hi, lo)" by (cases p)
    have p: "pair (hi, lo) = \<bar>sint a\<bar> * \<bar>sint b\<bar>"
      unfolding hl [symmetric] p_def multLoop_product uint_abs ..
    have "pair (Mult a b True) mod (W * W) = (sint a * sint b) mod (W * W)"
    proof (cases "(sint a < 0) \<noteq> (sint b < 0)")
      case True
      define lo' hi' where n: "lo' = NOT lo + 1" "hi' = (if lo' = 0 then NOT hi + 1 else NOT hi)"
      have "Mult a b True = (hi', lo')"
        using True False hl p_def by (auto simp: Mult_def Let_def n)
      moreover have "- pair (hi, lo) = sint a * sint b"
        using True by (auto simp: p abs_if)
      ultimately show ?thesis using pair_negate [OF n] by simp
    next
      case same: False
      have "Mult a b True = (hi, lo)"
        using same False hl p_def by (auto simp: Mult_def Let_def)
      moreover have "pair (hi, lo) = sint a * sint b" using same by (auto simp: p abs_if)
      ultimately show ?thesis by simp
    qed
    then have m: "signed_pair (Mult a b True) mod (W * W) = (sint a * sint b) mod (W * W)"
      by (simp add: signed_pair_mod)
    have q: "4 * \<bar>sint a * sint b\<bar> \<le> W * W"
    proof -
      have "\<bar>2 * sint a\<bar> * \<bar>2 * sint b\<bar> \<le> W * W"
        using sint_W [of a] sint_W [of b] W_pos by (intro mult_mono; linarith)
      then show ?thesis by (simp add: abs_mult)
    qed
    have "0 < W * W" using W_pos by simp
    with signed_pair_range q have "\<bar>signed_pair (Mult a b True) - sint a * sint b\<bar> < W * W"
      by (rule close)
    with m show ?thesis by (rule mod_eq_close)
  qed
qed

subsection \<open>Overflow detection and division\<close>

lemma sign_test: "x AND SIGN_BIT = 0 \<longleftrightarrow> 0 \<le> sint (x :: 32 word)"
proof -
  have "x AND SIGN_BIT = 0 \<longleftrightarrow> \<not> W \<le> 2 * uint x"
    using and_SIGN_BIT [of x] unfolding SIGN_BIT_def bit_31 by blast
  also have "\<dots> \<longleftrightarrow> 0 \<le> sint x" unfolding sint_uint_W using uint_W [of x] by (simp split: if_split)
  finally show ?thesis .
qed

lemma sign_xor: "(x XOR y) AND SIGN_BIT = 0 \<longleftrightarrow> (0 \<le> sint x \<longleftrightarrow> 0 \<le> sint (y :: 32 word))"
proof -
  have s: "z AND SIGN_BIT = 0 \<longleftrightarrow> \<not> bit z 31" for z
    using and_SIGN_BIT [of z] unfolding SIGN_BIT_def by blast
  show ?thesis unfolding sign_test [symmetric] s by (simp add: bit_xor_iff)
qed

text \<open>An exact integer result as a word, or \<open>None\<close> when it does not fit.\<close>

definition fits :: "int \<Rightarrow> bool" where
  "fits n \<longleftrightarrow> - (2 ^ 31) \<le> n \<and> n < 2 ^ 31"

definition checked :: "int \<Rightarrow> 32 word option" where
  "checked n = (if fits n then Some (word_of_int n) else None)"

lemma uint_diff_W: "uint (x - y :: 32 word) = (if uint y \<le> uint x then uint x - uint y else uint x - uint y + W)"
proof -
  have "uint (x - y) = (uint x - uint y) mod W" by (simp add: uint_word_ariths W_def)
  moreover have "(uint x - uint y + W) mod W = (uint x - uint y) mod W" by simp
  moreover have "(uint x - uint y) mod W = uint x - uint y" if "uint y \<le> uint x"
    using that uint_W [of x] uint_W [of y] by (intro mod_pos_pos_trivial; linarith)
  moreover have "(uint x - uint y + W) mod W = uint x - uint y + W" if "\<not> uint y \<le> uint x"
    using that uint_W [of x] uint_W [of y] by (intro mod_pos_pos_trivial; linarith)
  ultimately show ?thesis by simp
qed

text \<open>The overflow test on the residues of the operands: a fact about integers.\<close>

definition wrapped :: "int \<Rightarrow> int" where
  "wrapped u = (if 2 * u < W then u else u - W)"

lemma fits_W: "fits n \<longleftrightarrow> - W \<le> 2 * n \<and> 2 * n < W"
  by (auto simp: fits_def W_def)

lemma add_overflow_int:
  "0 \<le> x \<Longrightarrow> x < W \<Longrightarrow> 0 \<le> y \<Longrightarrow> y < W \<Longrightarrow>
   (0 \<le> wrapped x \<longleftrightarrow> 0 \<le> wrapped y) \<and>
   (0 \<le> wrapped x) \<noteq> (0 \<le> wrapped (if x + y < W then x + y else x + y - W)) \<longleftrightarrow>
   \<not> fits (wrapped x + wrapped y)"
  by (auto simp: wrapped_def fits_W)

lemma sub_overflow_int:
  "0 \<le> x \<Longrightarrow> x < W \<Longrightarrow> 0 \<le> y \<Longrightarrow> y < W \<Longrightarrow>
   (0 \<le> wrapped x \<longleftrightarrow> 0 \<le> wrapped y) = False \<and>
   (0 \<le> wrapped x) \<noteq> (0 \<le> wrapped (if y \<le> x then x - y else x - y + W)) \<longleftrightarrow>
   \<not> fits (wrapped x - wrapped y)"
  by (auto simp: wrapped_def fits_W)

lemma sint_wrapped: "sint (x :: 32 word) = wrapped (uint x)"
  by (simp add: sint_uint_W wrapped_def)

lemma add_overflow:
  "(0 \<le> sint a \<longleftrightarrow> 0 \<le> sint b) \<and> (0 \<le> sint a) \<noteq> (0 \<le> sint (a + b)) \<longleftrightarrow> \<not> fits (sint a + sint (b :: 32 word))"
proof -
  have "uint (a + b) = (if uint a + uint b < W then uint a + uint b else uint a + uint b - W)"
    unfolding uint_add_W using uint_W [of a] uint_W [of b] by (intro mod_W_less; linarith)
  then show ?thesis
    unfolding sint_wrapped using add_overflow_int [OF uint_W [of a] uint_W [of b]] by (simp only:)
qed

lemma sub_overflow:
  "(0 \<le> sint a \<longleftrightarrow> 0 \<le> sint b) = False \<and> (0 \<le> sint a) \<noteq> (0 \<le> sint (a - b)) \<longleftrightarrow> \<not> fits (sint a - sint (b :: 32 word))"
  unfolding sint_wrapped uint_diff_W by (rule sub_overflow_int [OF uint_W [of a] uint_W [of b]])

text \<open>
  C38. \<open>ADD\<close>, \<open>ADDI\<close> and \<open>SUB\<close> are exact: the register gets the sum or difference of the signed
  operands when it fits 32 bits, and the instruction traps exactly when it does not.
\<close>

theorem ADD_SUB_exact:
  "exec_overflow (i\<lparr>i_opCode := OP_ADD\<rparr>) r = Some (i_rd i, checked (sint (r (i_rs i)) + sint (r (i_rt i)))) \<and>
   exec_overflow (i\<lparr>i_opCode := OP_ADDI\<rparr>) r = Some (i_rt i, checked (sint (r (i_rs i)) + sint (i_extra i))) \<and>
   exec_overflow (i\<lparr>i_opCode := OP_SUB\<rparr>) r = Some (i_rd i, checked (sint (r (i_rs i)) - sint (r (i_rt i))))"
proof (intro conjI)
  have w: "word_of_int (sint a + sint b) = a + b" "word_of_int (sint a - sint b) = a - b" for a b :: "32 word"
    by simp_all
  show "exec_overflow (i\<lparr>i_opCode := OP_ADD\<rparr>) r = Some (i_rd i, checked (sint (r (i_rs i)) + sint (r (i_rt i))))"
    using add_overflow [of "r (i_rs i)" "r (i_rt i)"]
    by (auto simp: exec_overflow_def Let_def sign_xor checked_def w simp del: of_int_add)
  show "exec_overflow (i\<lparr>i_opCode := OP_ADDI\<rparr>) r = Some (i_rt i, checked (sint (r (i_rs i)) + sint (i_extra i)))"
    using add_overflow [of "i_extra i" "r (i_rs i)"]
    by (auto simp: exec_overflow_def Let_def sign_xor checked_def w add.commute simp del: of_int_add)
  show "exec_overflow (i\<lparr>i_opCode := OP_SUB\<rparr>) r = Some (i_rd i, checked (sint (r (i_rs i)) - sint (r (i_rt i))))"
    using sub_overflow [of "r (i_rs i)" "r (i_rt i)"]
    by (auto simp: exec_overflow_def Let_def sign_xor checked_def w simp del: of_int_diff)
qed

text \<open>
  Two instructions do not do what their name says. \<open>OR\<close> writes its first operand
  whatever the second is (the code ors it with itself), so for some registers it is
  not their bitwise or; and the logical right shifts \<open>SRL\<close> and \<open>SRLV\<close> give the same result
  as the arithmetic ones, copying the sign bit, because the temporary they shift is signed.
\<close>

theorem OR_and_SRL_wrong:
  "exec_logic (i\<lparr>i_opCode := OP_OR\<rparr>) r = Some (i_rd i, r (i_rs i)) \<and>
   exec_shift (i\<lparr>i_opCode := OP_SRL\<rparr>) r = exec_shift (i\<lparr>i_opCode := OP_SRA\<rparr>) r \<and>
   exec_shift (i\<lparr>i_opCode := OP_SRLV\<rparr>) r = exec_shift (i\<lparr>i_opCode := OP_SRAV\<rparr>) r \<and>
   (\<exists>r' :: nat \<Rightarrow> 32 word. r' 1 \<noteq> r' 1 OR r' 2 \<and> signed_drop_bit 1 (r' 3) \<noteq> drop_bit 1 (r' 3))"
proof (intro conjI)
  let ?r = "\<lambda>k::nat. if k = 1 then 0 else if k = 2 then 1 else (- 1 :: 32 word)"
  have "?r 1 \<noteq> ?r 1 OR ?r 2" by simp
  moreover have "signed_drop_bit 1 (?r 3) \<noteq> drop_bit 1 (?r 3)"
  proof -
    have "bit (signed_drop_bit 1 (- 1 :: 32 word)) 31" by (simp only: bit_signed_drop_bit_iff) simp
    moreover have "\<not> bit (drop_bit 1 (- 1 :: 32 word)) 31" by (simp only: bit_drop_bit_eq o_def) simp
    ultimately have ne: "signed_drop_bit 1 (- 1 :: 32 word) \<noteq> drop_bit 1 (- 1)" by metis
    have "?r 3 = - 1" by simp
    then show ?thesis by (simp only: ne) simp
  qed
  ultimately show "\<exists>r' :: nat \<Rightarrow> 32 word. r' 1 \<noteq> r' 1 OR r' 2 \<and> signed_drop_bit 1 (r' 3) \<noteq> drop_bit 1 (r' 3)"
    by (intro exI [of _ ?r] conjI)
qed (simp_all add: exec_logic_def exec_shift_def)

end
