(* ===== verification/Nachos_Exec.thy ===== *)
theory Nachos_Exec
  imports Nachos_Mips Nachos_Arith
begin

section \<open>Running user programs: Machine::OneInstruction and Run of mipssim.cc\<close>

text \<open>
  Loads, stores and traps, the instruction cycle, the loop of \<open>Run\<close>, and what they keep.
  \<open>eh\<close> is the kernel's \<open>ExceptionHandler\<close>. The result of executing an instruction is
  \<open>Trapped\<close> when the code returns from \<open>OneInstruction\<close> after an exception, and otherwise
  \<open>Completed\<close> with the next program counter and the delayed load to start.
\<close>

unbundle bit_operations_syntax

datatype 'a outcome = Trapped 'a | Completed "32 word" nat "32 word" 'a

type_synonym 'a executed = "'a MachineState_scheme outcome res"

subsection \<open>Loads and stores\<close>

definition exec_load :: "'a exception_handler \<Rightarrow> Instruction \<Rightarrow> 32 word \<Rightarrow> 'a MachineState_scheme \<Rightarrow>
    'a executed option" where
  "exec_load eh i pcAfter s =
     (let tmp = reg s (i_rs i) + i_extra i;
          load = (\<lambda>sz f. andThen (ReadMem eh tmp sz s) (\<lambda>(v, s1). case v of
            None \<Rightarrow> Inr (Trapped s1)
          | Some value \<Rightarrow> Inr (Completed pcAfter (i_rt i) (f value) s1)));
          trap = andThen (RaiseException eh AddressErrorException tmp s) (\<lambda>s1. Inr (Trapped s1))
      in case i_opCode i of
     OP_LB \<Rightarrow> Some (load 1 (\<lambda>v. if v AND 0x80 \<noteq> 0 then v OR 0xffffff00 else v AND 0xff))
   | OP_LBU \<Rightarrow> Some (load 1 (\<lambda>v. v AND 0xff))
   | OP_LH \<Rightarrow> Some (if tmp AND 0x1 \<noteq> 0 then trap
       else load 2 (\<lambda>v. if v AND 0x8000 \<noteq> 0 then v OR 0xffff0000 else v AND 0xffff))
   | OP_LHU \<Rightarrow> Some (if tmp AND 0x1 \<noteq> 0 then trap else load 2 (\<lambda>v. v AND 0xffff))
   | OP_LW \<Rightarrow> Some (if tmp AND 0x3 \<noteq> 0 then trap else load 4 (\<lambda>v. v))
   | _ \<Rightarrow> None)"

text \<open>
  \<open>LWL\<close> and \<open>LWR\<close> merge the word loaded with the register, or with the load that is still
  on its way to it. The code asserts that the address is aligned, so only the first case of
  each \<open>switch\<close> is ever reached; the other cases are kept as they are.
\<close>

definition mergeLeft :: "32 word \<Rightarrow> 32 word \<Rightarrow> 32 word \<Rightarrow> 32 word" where
  "mergeLeft k old value =
     (if k = 0 then value
      else if k = 1 then (old AND 0xff) OR push_bit 8 value
      else if k = 2 then (old AND 0xffff) OR push_bit 16 value
      else (old AND 0xffffff) OR push_bit 24 value)"

definition mergeRight :: "32 word \<Rightarrow> 32 word \<Rightarrow> 32 word \<Rightarrow> 32 word" where
  "mergeRight k old value =
     (if k = 0 then (old AND 0xffffff00) OR (signed_drop_bit 24 value AND 0xff)
      else if k = 1 then (old AND 0xffff0000) OR (signed_drop_bit 16 value AND 0xffff)
      else if k = 2 then (old AND 0xff000000) OR (signed_drop_bit 8 value AND 0xffffff)
      else value)"

definition exec_load_unaligned :: "'a exception_handler \<Rightarrow> Instruction \<Rightarrow> 32 word \<Rightarrow>
    'a MachineState_scheme \<Rightarrow> 'a executed option" where
  "exec_load_unaligned eh i pcAfter s =
     (let tmp = reg s (i_rs i) + i_extra i; k = tmp AND 0x3;
          load = (\<lambda>merge. ASSERT (k = 0) (andThen (ReadMem eh tmp 4 s) (\<lambda>(v, s1). case v of
            None \<Rightarrow> Inr (Trapped s1)
          | Some value \<Rightarrow>
              let old = (if reg s1 LoadReg = of_nat (i_rt i) then reg s1 LoadValueReg
                         else reg s1 (i_rt i))
              in Inr (Completed pcAfter (i_rt i) (merge k old value) s1))))
      in case i_opCode i of
     OP_LWL \<Rightarrow> Some (load mergeLeft)
   | OP_LWR \<Rightarrow> Some (load mergeRight)
   | _ \<Rightarrow> None)"

definition exec_store :: "'a exception_handler \<Rightarrow> Instruction \<Rightarrow> 32 word \<Rightarrow> 'a MachineState_scheme \<Rightarrow>
    'a executed option" where
  "exec_store eh i pcAfter s =
     (let tmp = reg s (i_rs i) + i_extra i;
          store_it = (\<lambda>sz. andThen (WriteMem eh tmp sz (reg s (i_rt i)) s) (\<lambda>(ok, s1).
            Inr (if ok then Completed pcAfter 0 0 s1 else Trapped s1)))
      in case i_opCode i of
     OP_SB \<Rightarrow> Some (store_it 1)
   | OP_SH \<Rightarrow> Some (store_it 2)
   | OP_SW \<Rightarrow> Some (store_it 4)
   | _ \<Rightarrow> None)"

definition splitLeft :: "32 word \<Rightarrow> 32 word \<Rightarrow> 32 word \<Rightarrow> 32 word" where
  "splitLeft k value r =
     (if k = 0 then r
      else if k = 1 then (value AND 0xff000000) OR (signed_drop_bit 8 r AND 0xffffff)
      else if k = 2 then (value AND 0xffff0000) OR (signed_drop_bit 16 r AND 0xffff)
      else (value AND 0xffffff00) OR (signed_drop_bit 24 r AND 0xff))"

definition splitRight :: "32 word \<Rightarrow> 32 word \<Rightarrow> 32 word \<Rightarrow> 32 word" where
  "splitRight k value r =
     (if k = 0 then (value AND 0xffffff) OR push_bit 24 r
      else if k = 1 then (value AND 0xffff) OR push_bit 16 r
      else if k = 2 then (value AND 0xff) OR push_bit 8 r
      else r)"

definition exec_store_unaligned :: "'a exception_handler \<Rightarrow> Instruction \<Rightarrow> 32 word \<Rightarrow>
    'a MachineState_scheme \<Rightarrow> 'a executed option" where
  "exec_store_unaligned eh i pcAfter s =
     (let tmp = reg s (i_rs i) + i_extra i; k = tmp AND 0x3; base = tmp AND NOT 0x3;
          store_it = (\<lambda>split. ASSERT (k = 0) (andThen (ReadMem eh base 4 s) (\<lambda>(v, s1). case v of
            None \<Rightarrow> Inr (Trapped s1)
          | Some value \<Rightarrow>
              andThen (WriteMem eh base 4 (split k value (reg s1 (i_rt i))) s1) (\<lambda>(ok, s2).
                Inr (if ok then Completed pcAfter 0 0 s2 else Trapped s2)))))
      in case i_opCode i of
     OP_SWL \<Rightarrow> Some (store_it splitLeft)
   | OP_SWR \<Rightarrow> Some (store_it splitRight)
   | _ \<Rightarrow> None)"

definition exec_trap :: "'a exception_handler \<Rightarrow> Instruction \<Rightarrow> 'a MachineState_scheme \<Rightarrow> 'a executed option" where
  "exec_trap eh i s = (case i_opCode i of
     OP_SYSCALL \<Rightarrow> Some (andThen (RaiseException eh SyscallException 0 s) (\<lambda>s1. Inr (Trapped s1)))
   | OP_RES \<Rightarrow> Some (andThen (RaiseException eh IllegalInstrException 0 s) (\<lambda>s1. Inr (Trapped s1)))
   | OP_UNIMP \<Rightarrow> Some (andThen (RaiseException eh IllegalInstrException 0 s) (\<lambda>s1. Inr (Trapped s1)))
   | _ \<Rightarrow> None)"

subsection \<open>The instruction cycle\<close>

definition orElse :: "'b option \<Rightarrow> 'b option \<Rightarrow> 'b option" where
  "orElse x y = (case x of None \<Rightarrow> y | Some v \<Rightarrow> Some v)"

definition exec_alu :: "Instruction \<Rightarrow> (nat \<Rightarrow> 32 word) \<Rightarrow> (nat \<times> 32 word) option" where
  "exec_alu i r = orElse (exec_immediate i r) (orElse (exec_move i r) (orElse (exec_logic i r)
     (orElse (exec_shift i r) (exec_compare i r))))"

definition execute :: "'a exception_handler \<Rightarrow> Instruction \<Rightarrow> 32 word \<Rightarrow> 'a MachineState_scheme \<Rightarrow> 'a executed" where
  "execute eh i pcAfter s = (case exec_alu i (reg s) of
     Some (d, v) \<Rightarrow> Inr (Completed pcAfter 0 0 (set_reg d v s))
   | None \<Rightarrow> (case exec_overflow i (reg s) of
     Some (d, Some v) \<Rightarrow> Inr (Completed pcAfter 0 0 (set_reg d v s))
   | Some (d, None) \<Rightarrow> andThen (RaiseException eh OverflowException 0 s) (\<lambda>s1. Inr (Trapped s1))
   | None \<Rightarrow> (case exec_muldiv i (reg s) of
     Some m \<Rightarrow> andThen m (\<lambda>(hi, lo). Inr (Completed pcAfter 0 0 (set_reg LoReg lo (set_reg HiReg hi s))))
   | None \<Rightarrow> (case exec_branch i (reg s) pcAfter of
     Some (link, pc) \<Rightarrow> Inr (Completed pc 0 0 (case link of None \<Rightarrow> s
       | Some d \<Rightarrow> set_reg d (reg s NextPCReg + 4) s))
   | None \<Rightarrow> (case orElse (exec_load eh i pcAfter s) (orElse (exec_load_unaligned eh i pcAfter s)
         (orElse (exec_store eh i pcAfter s) (orElse (exec_store_unaligned eh i pcAfter s)
         (exec_trap eh i s)))) of
     Some m \<Rightarrow> m
   | None \<Rightarrow> Inl Assertion)))))"

definition OneInstruction :: "'a exception_handler \<Rightarrow> 'a machine_action" where
  "OneInstruction eh s = andThen (ReadMem eh (reg s PCReg) 4 s) (\<lambda>(raw, s1). case raw of
     None \<Rightarrow> Inr s1
   | Some w \<Rightarrow> andThen (execute eh (Decode w) (reg s1 NextPCReg + 4) s1) (\<lambda>out. case out of
       Trapped s2 \<Rightarrow> Inr s2
     | Completed pcAfter nextLoadReg nextLoadValue s2 \<Rightarrow>
         andThen (DelayedLoad nextLoadReg nextLoadValue s2) (\<lambda>s3.
           Inr (set_reg NextPCReg pcAfter (set_reg PCReg (reg s3 NextPCReg)
                 (set_reg PrevPCReg (reg s3 PCReg) s3))))))"

text \<open>\<open>Run\<close> never returns; \<open>n\<close> turns of its loop, with the clock tick that follows each instruction.\<close>

fun Run_loop :: "nat \<Rightarrow> 'a exception_handler \<Rightarrow> 'a machine_action \<Rightarrow> 'a machine_action" where
  "Run_loop 0 eh tick s = Inr s"
| "Run_loop (Suc n) eh tick s = andThen (OneInstruction eh s) (\<lambda>s1.
     andThen (tick s1) (Run_loop n eh tick))"

definition Run_user :: "nat \<Rightarrow> 'a exception_handler \<Rightarrow> 'a machine_action \<Rightarrow> 'a machine_action" where
  "Run_user n eh tick s = Run_loop n eh tick (setStatus UserMode s)"

subsection \<open>What decoding can give\<close>

definition executable :: "OpCode \<Rightarrow> bool" where
  "executable opc \<longleftrightarrow> opc \<noteq> SPECIAL \<and> opc \<noteq> BCOND \<and> opc \<noteq> OP_RFE"

lemma unat_and_mask: "unat (w AND mask n :: 32 word) < 2 ^ n"
  by (simp add: and_mask_less' word_less_nat_alt [symmetric] unsigned_take_bit_eq
      flip: take_bit_eq_mask)

lemma field_bounds: "unat (w AND 0x1f :: 32 word) < 32" "unat (w AND 0x3f :: 32 word) < 64"
proof -
  have m: "(0x1f :: 32 word) = mask 5" "(0x3f :: 32 word) = mask 6"
    by (simp_all add: mask_eq_exp_minus_1)
  show "unat (w AND 0x1f :: 32 word) < 32" "unat (w AND 0x3f :: 32 word) < 64"
    unfolding m using unat_and_mask [of w 5] unat_and_mask [of w 6] by simp_all
qed

lemma opTable_ok: "k < 64 \<Longrightarrow> fst (opTable ! k) \<noteq> OP_RFE"
proof -
  have "list_all (\<lambda>p. fst p \<noteq> OP_RFE) opTable" "length opTable = 64" by (simp_all add: opTable_def)
  then show "k < 64 \<Longrightarrow> fst (opTable ! k) \<noteq> OP_RFE" by (simp add: list_all_length)
qed

lemma specialTable_ok: "k < 64 \<Longrightarrow> executable (specialTable ! k)"
proof -
  have "list_all executable specialTable" "length specialTable = 64"
    by (simp_all add: specialTable_def executable_def)
  then show "k < 64 \<Longrightarrow> executable (specialTable ! k)" by (simp add: list_all_length)
qed

lemma Decode_ok:
  "executable (i_opCode (Decode w))" "i_rs (Decode w) < 32" "i_rt (Decode w) < 32" "i_rd (Decode w) < 32"
proof -
  obtain opc f where e: "opTable ! unat (drop_bit 26 w AND 0x3f) = (opc, f)" by fastforce
  have "opc \<noteq> OP_RFE" using opTable_ok [OF field_bounds(2), of "drop_bit 26 w"] e by simp
  then show "executable (i_opCode (Decode w))"
    using specialTable_ok [OF field_bounds(2), of w]
    by (simp add: Decode_def Let_def e) (simp add: executable_def)
  show "i_rs (Decode w) < 32" "i_rt (Decode w) < 32" "i_rd (Decode w) < 32"
    using field_bounds(1) by (simp_all add: Decode_def Let_def e)
qed

subsection \<open>Execution keeps the machine well formed\<close>

text \<open>
  \<open>machine_ok\<close>: forty registers, all of memory, a usable page table or TLB, and the pending
  delayed load names a general register. \<open>same_mmu\<close>: neither the page table in use nor the kernel's own data
  changed. \<open>outcome_ok\<close>: an execution ends in a good state, or it failed because the kernel's exception handler did.
\<close>

definition same_mmu :: "'a MachineState_scheme \<Rightarrow> 'a MachineState_scheme \<Rightarrow> bool" where
  "same_mmu s s' \<longleftrightarrow> pageTable s' = pageTable s \<and> MachineState.more s' = MachineState.more s"

lemma same_mmu_simps [simp]:
  "same_mmu s s" "same_mmu s (set_reg d v s)" "same_mmu s (setStatus st s)" "same_mmu s (s\<lparr>registers := rs\<rparr>)"
  "same_mmu s (s\<lparr>mainMemory := m\<rparr>)" "same_mmu s (set_entry ref x s)"
  by (simp_all add: same_mmu_def set_reg_def setStatus_def set_entry_def split: entry_ref.splits)

lemma same_mmu_trans: "same_mmu s t \<Longrightarrow> same_mmu t u \<Longrightarrow> same_mmu s u"
  by (simp add: same_mmu_def)

definition machine_ok :: "'a MachineState_scheme \<Rightarrow> bool" where
  "machine_ok s \<longleftrightarrow> length (registers s) = NumTotalRegs \<and> memory_ok s \<and> mmu_ok s \<and>
     unat (reg s LoadReg) < NumGPRegs"

definition outcome_ok :: "('a MachineState_scheme \<Rightarrow> bool) \<Rightarrow> 'a exception_handler \<Rightarrow> 'a executed \<Rightarrow> bool" where
  "outcome_ok good eh m \<longleftrightarrow> (case m of
     Inl e \<Rightarrow> \<exists>which s. good s \<and> eh which s = Inl e
   | Inr (Trapped s) \<Rightarrow> good s
   | Inr (Completed pc d v s) \<Rightarrow> good s \<and> d < NumGPRegs)"

lemma outcome_ok_simps [simp]:
  "outcome_ok good eh (Inr (Trapped s)) = good s"
  "outcome_ok good eh (Inr (Completed pc d v s)) = (good s \<and> d < NumGPRegs)"
  "outcome_ok good eh (Inl e) = (\<exists>which s. good s \<and> eh which s = Inl e)"
  by (simp_all add: outcome_ok_def)

lemma sint_small: "unat (w :: 32 word) < 32 \<Longrightarrow> sint w = int (unat w)"
proof -
  assume "unat w < 32"
  then have "uint w < 32" using uint_less_int [of w 32] by simp
  then have "2 * uint w < W" by (simp add: W_def)
  then show ?thesis by (simp add: sint_uint_W)
qed

lemma machine_ok_mmu [simp]:
  "mmu_ok (set_reg d v s) = mmu_ok s" "memory_ok (set_reg d v s) = memory_ok s"
  "mmu_ok (setStatus st s) = mmu_ok s" "memory_ok (setStatus st s) = memory_ok s"
  "registers (setStatus st s) = registers s"
  "registers (set_reg d v s) = (registers s)[d := v]"
  "mmu_ok (s\<lparr>registers := rs\<rparr>) = mmu_ok s" "memory_ok (s\<lparr>registers := rs\<rparr>) = memory_ok s"
  by (simp_all add: set_reg_def setStatus_def mmu_ok_def memory_ok_def split: option.split)

lemma machine_ok_set_reg:
  assumes "machine_ok s" and "d \<noteq> LoadReg"
  shows "machine_ok (set_reg d v s)"
  using assms by (simp add: machine_ok_def reg_def)

lemma machine_ok_setStatus [simp]: "machine_ok (setStatus st s) = machine_ok s"
  by (simp add: machine_ok_def reg_def)

lemma DelayedLoad_ok:
  assumes "machine_ok s" and "r < NumGPRegs"
  shows "\<exists>s'. DelayedLoad r v s = Inr s' \<and> machine_ok s' \<and> same_mmu s s' \<and> reg s' 0 = 0 \<and>
    reg s' PCReg = reg s PCReg \<and> reg s' NextPCReg = reg s NextPCReg"
proof -
  define k where "k = unat (reg s LoadReg)"
  have k: "k < 32" using assms(1) by (simp add: machine_ok_def k_def reg_defs)
  then have "sint (reg s LoadReg) = int k" unfolding k_def by (rule sint_small)
  moreover have len: "length (registers s) = 40" using assms(1) by (simp add: machine_ok_def reg_defs)
  moreover have "unat (of_nat r :: 32 word) = r" using assms(2) by (simp add: unat_of_nat reg_defs)
  ultimately show ?thesis
    using assms k by (simp add: DelayedLoad_def machine_ok_def reg_def reg_defs same_mmu_def set_reg_def)
qed

lemma RaiseException_calls:
  assumes "machine_ok s"
  shows "\<exists>s1. machine_ok s1 \<and> same_mmu s s1 \<and> RaiseException eh which bad s =
    andThen (eh which s1) (\<lambda>s2. Inr (setStatus UserMode s2))"
proof -
  have "machine_ok (set_reg BadVAddrReg bad s)"
    using assms by (rule machine_ok_set_reg) (simp add: reg_defs)
  then obtain s1 where s1: "DelayedLoad 0 0 (set_reg BadVAddrReg bad s) = Inr s1" "machine_ok s1"
      "same_mmu (set_reg BadVAddrReg bad s) s1"
    using DelayedLoad_ok [of "set_reg BadVAddrReg bad s" 0 0] by (auto simp: reg_defs)
  then have "same_mmu s (setStatus SystemMode s1)"
    using same_mmu_trans [of s "set_reg BadVAddrReg bad s" s1] same_mmu_trans [of s s1] same_mmu_simps by blast
  with s1 show ?thesis
    by (intro exI [of _ "setStatus SystemMode s1"]) (simp add: RaiseException_def)
qed

lemma Translate_ok:
  assumes ok: "machine_ok s" and sz: "sz \<in> {1, 2, 4}"
  shows "\<exists>r s'. Translate va sz w s = Inr (r, s') \<and> machine_ok s' \<and> same_mmu s s' \<and> registers s' = registers s \<and>
    (\<forall>x. r = Inl x \<longrightarrow> s' = s)"
proof -
  have mmu: "mmu_ok s" using ok by (simp add: machine_ok_def)
  have set: "machine_ok (set_entry ref x s)" for ref x
    using ok mmu_ok_set_entry [OF mmu] by (simp add: machine_ok_def reg_def memory_ok_def)
  obtain r where r: "findEntry (va div of_nat PageSize) s = Inr r" using findEntry_total [OF mmu] by blast
  show ?thesis
  proof (cases r)
    case (Inr ref)
    then obtain e where "get_entry ref s = Inr e" using findEntry_Inr r by blast
    then show ?thesis using r Inr ok set by (simp add: Translate_spec [OF mmu sz])
  qed (use r ok in \<open>simp add: Translate_spec [OF mmu sz]\<close>)
qed

subsection \<open>The contract of the exception handler\<close>

text \<open>
  \<open>good\<close> is the kernel's own invariant: it implies that the machine is well formed, and says nothing of the parts of the
  machine that a user instruction can change. The handler must keep it.
\<close>

locale kernel_traps =
  fixes eh :: "'a exception_handler" and good :: "'a MachineState_scheme \<Rightarrow> bool"
  assumes eh_ok: "good s \<Longrightarrow> eh which s = Inr s' \<Longrightarrow> good s'"
    and good_ok: "good s \<Longrightarrow> machine_ok s"
    and good_keep: "good s \<Longrightarrow> machine_ok s' \<Longrightarrow> same_mmu s s' \<Longrightarrow> good s'"
begin

lemma good_set_reg: "good s \<Longrightarrow> d \<noteq> LoadReg \<Longrightarrow> good (set_reg d v s)"
  using good_keep [of s "set_reg d v s"] machine_ok_set_reg [OF good_ok [of s]] by simp

lemma good_setStatus: "good s \<Longrightarrow> good (setStatus st s)"
  using good_keep [of s "setStatus st s"] good_ok [of s] by simp

lemma RaiseException_ok:
  assumes "good s"
  shows "case RaiseException eh which bad s of
    Inl e \<Rightarrow> \<exists>w s. good s \<and> eh w s = Inl e | Inr s' \<Rightarrow> good s'"
proof -
  obtain s1 where s1: "machine_ok s1" "same_mmu s s1"
      "RaiseException eh which bad s = andThen (eh which s1) (\<lambda>s2. Inr (setStatus UserMode s2))"
    using RaiseException_calls [OF good_ok [OF assms]] by blast
  have g: "good s1" using good_keep [OF assms s1(1,2)] .
  show ?thesis
  proof (cases "eh which s1")
    case (Inl e)
    then have "RaiseException eh which bad s = Inl e" using s1(3) by simp
    then show ?thesis using g Inl by (simp only: sum.case) blast
  next
    case (Inr s2) then show ?thesis using s1(3) good_setStatus [OF eh_ok [OF g Inr]] by simp
  qed
qed

lemma Translate_good:
  assumes "good s" and "sz \<in> {1, 2, 4}"
  shows "\<exists>r s'. Translate va sz w s = Inr (r, s') \<and> good s' \<and> registers s' = registers s \<and>
    (\<forall>x. r = Inl x \<longrightarrow> s' = s)"
  using Translate_ok [OF good_ok [OF assms(1)] assms(2)] good_keep [OF assms(1)] by blast

lemma trap_ok:
  "good s \<Longrightarrow> outcome_ok good eh (andThen (RaiseException eh which bad s) (\<lambda>s1. Inr (Trapped s1)))"
  using RaiseException_ok [of s which bad] by (auto split: sum.splits)

lemma ReadMem_ok:
  assumes "good s" and "sz \<in> {1, 2, 4}"
  shows "case ReadMem eh va sz s of
    Inl e \<Rightarrow> \<exists>w s. good s \<and> eh w s = Inl e
  | Inr (v, s') \<Rightarrow> good s' \<and> (v \<noteq> None \<longrightarrow> registers s' = registers s)"
proof -
  obtain r s1 where tr: "Translate va sz False s = Inr (r, s1)" "good s1" "registers s1 = registers s"
    using Translate_good [OF assms] by blast
  show ?thesis
  proof (cases r)
    case (Inl x)
    have e: "ReadMem eh va sz s = andThen (RaiseException eh x va s1) (\<lambda>s2. Inr (None, s2))"
      by (simp add: ReadMem_def tr(1) Inl)
    show ?thesis unfolding e using RaiseException_ok [of s1 x va] tr(2)
      by (cases "RaiseException eh x va s1") auto
  next
    case (Inr p)
    then show ?thesis using tr assms(2) by (auto simp: ReadMem_def)
  qed
qed

lemma WriteMem_ok:
  assumes "good s" and "sz \<in> {1, 2, 4}"
  shows "case WriteMem eh va sz v s of
    Inl e \<Rightarrow> \<exists>w s. good s \<and> eh w s = Inl e | Inr (b, s') \<Rightarrow> good s'"
proof -
  obtain r s1 where tr: "Translate va sz True s = Inr (r, s1)" "good s1"
    using Translate_good [OF assms] by blast
  show ?thesis
  proof (cases r)
    case (Inl x)
    have e: "WriteMem eh va sz v s = andThen (RaiseException eh x va s1) (\<lambda>s2. Inr (False, s2))"
      by (simp add: WriteMem_def tr(1) Inl)
    show ?thesis unfolding e using RaiseException_ok [of s1 x va] tr(2)
      by (cases "RaiseException eh x va s1") auto
  next
    case (Inr p)
    have mmu: "mmu_ok s" using good_ok [OF assms(1)] by (simp add: machine_ok_def)
    have b: "p + sz \<le> MemorySize"
      using Translate_bounds [OF mmu assms(2)] tr(1) Inr by blast
    have len: "length (mainMemory s1) = MemorySize"
      using good_ok [OF tr(2)] by (simp add: machine_ok_def memory_ok_def)
    have ok: "good (s1\<lparr>mainMemory := m\<rparr>)" if "length m = MemorySize" for m
      using good_ok [OF tr(2)] that
      by (intro good_keep [OF tr(2)]) (simp_all add: machine_ok_def memory_ok_def reg_def)
    show ?thesis using tr(1) Inr assms(2) b len
      by (auto simp: WriteMem_def guest_store_word guest_short intro!: ok)
  qed
qed

lemma exec_load_ok:
  assumes ok: "good s" and "i_rt i < 32" and "exec_load eh i pc s = Some m"
  shows "outcome_ok good eh m"
proof -
  have load: "outcome_ok good eh (andThen (ReadMem eh va sz s) (\<lambda>(v, s1). case v of None \<Rightarrow> Inr (Trapped s1)
      | Some value \<Rightarrow> Inr (Completed pc (i_rt i) (f value) s1)))" if "sz \<in> {1, 2, 4}" for va sz f
    using ReadMem_ok [OF ok that, of va] assms(2)
    by (cases "ReadMem eh va sz s") (auto simp: reg_defs split: option.splits)
  show ?thesis
    using assms(3) load trap_ok [OF ok]
    by (auto simp: exec_load_def Let_def split: OpCode.splits if_splits)
qed

lemma exec_load_unaligned_ok:
  assumes ok: "good s" and "i_rt i < 32" and "exec_load_unaligned eh i pc s = Some m"
    and "(reg s (i_rs i) + i_extra i) AND 0x3 = 0"
  shows "outcome_ok good eh m"
proof -
  have load: "outcome_ok good eh (andThen (ReadMem eh va 4 s) (\<lambda>(v, s1). case v of None \<Rightarrow> Inr (Trapped s1)
      | Some value \<Rightarrow> let old = g s1 in Inr (Completed pc (i_rt i) (f old value) s1)))" for va f g
    using ReadMem_ok [OF ok, of 4 va] assms(2)
    by (cases "ReadMem eh va 4 s") (auto simp: reg_defs Let_def split: option.splits)
  show ?thesis
    using assms(3,4) by (auto simp: exec_load_unaligned_def Let_def [of "_ + _"] Let_def [of "_ AND _"]
        Let_def [of "\<lambda>_. _"] intro!: load split: OpCode.splits)
qed

lemma store_ok:
  assumes "good s" and "sz \<in> {1, 2, 4}"
  shows "outcome_ok good eh (andThen (WriteMem eh va sz v s) (\<lambda>(b, s1).
    Inr (if b then Completed pc 0 0 s1 else Trapped s1)))"
  using WriteMem_ok [OF assms, of va v]
  by (cases "WriteMem eh va sz v s") (auto simp: reg_defs)

lemma exec_store_ok:
  "good s \<Longrightarrow> exec_store eh i pc s = Some m \<Longrightarrow> outcome_ok good eh m"
  by (auto simp: exec_store_def Let_def store_ok split: OpCode.splits)

lemma exec_store_unaligned_ok:
  assumes ok: "good s" and "exec_store_unaligned eh i pc s = Some m"
    and "(reg s (i_rs i) + i_extra i) AND 0x3 = 0"
  shows "outcome_ok good eh m"
proof -
  have st: "outcome_ok good eh (andThen (ReadMem eh va 4 s) (\<lambda>(v, s1). case v of None \<Rightarrow> Inr (Trapped s1)
      | Some value \<Rightarrow> andThen (WriteMem eh va 4 (f value s1) s1) (\<lambda>(b, s2).
          Inr (if b then Completed pc 0 0 s2 else Trapped s2))))" for va f
    using ReadMem_ok [OF ok, of 4 va] store_ok [of _ 4]
    by (cases "ReadMem eh va 4 s") (auto split: option.splits)
  show ?thesis
    using assms(2,3) by (auto simp: exec_store_unaligned_def Let_def intro!: st split: OpCode.splits)
qed

lemma exec_trap_ok: "good s \<Longrightarrow> exec_trap eh i s = Some m \<Longrightarrow> outcome_ok good eh m"
  by (auto simp: exec_trap_def trap_ok split: OpCode.splits)

end

lemma exec_alu_target:
  "exec_alu i r = Some (d, v) \<Longrightarrow> i_rt i < 32 \<Longrightarrow> i_rd i < 32 \<Longrightarrow> d \<noteq> LoadReg"
  by (auto simp: exec_alu_def orElse_def exec_immediate_def exec_move_def exec_logic_def exec_shift_def
      exec_compare_def reg_defs split: OpCode.splits option.splits)

lemma exec_overflow_target:
  "exec_overflow i r = Some (d, v) \<Longrightarrow> i_rt i < 32 \<Longrightarrow> i_rd i < 32 \<Longrightarrow> d \<noteq> LoadReg"
  by (auto simp: exec_overflow_def Let_def reg_defs split: OpCode.splits)

lemma exec_branch_target:
  "exec_branch i r pc = Some (Some d, pc') \<Longrightarrow> i_rd i < 32 \<Longrightarrow> d \<noteq> LoadReg"
  by (auto simp: exec_branch_def Let_def R31_def reg_defs split: OpCode.splits)

text \<open>
  The two ways an instruction can stop the simulator itself: the one quotient that does not
  fit an \<open>int\<close>, and an unaligned \<open>LWL\<close>, \<open>LWR\<close>, \<open>SWL\<close> or \<open>SWR\<close>.
\<close>

definition host_trap :: "Instruction \<Rightarrow> (nat \<Rightarrow> 32 word) \<Rightarrow> bool" where
  "host_trap i r \<longleftrightarrow> i_opCode i = OP_DIV \<and> r (i_rs i) = SIGN_BIT \<and> r (i_rt i) = - 1"

definition unaligned_trap :: "Instruction \<Rightarrow> (nat \<Rightarrow> 32 word) \<Rightarrow> bool" where
  "unaligned_trap i r \<longleftrightarrow> i_opCode i \<in> {OP_LWL, OP_LWR, OP_SWL, OP_SWR} \<and>
     (r (i_rs i) + i_extra i) AND 0x3 \<noteq> 0"

lemma exec_muldiv_ok:
  "exec_muldiv i r = Some m \<Longrightarrow> \<not> host_trap i r \<Longrightarrow> \<exists>hl. m = Inr hl"
  by (auto simp: exec_muldiv_def host_trap_def Let_def split: OpCode.splits if_splits)

lemma executable_handled:
  assumes "executable (i_opCode i)" and "exec_alu i r = None" and "exec_overflow i r = None"
    and "exec_muldiv i r = None" and "exec_branch i r pc = None"
  shows "orElse (exec_load eh i pc s) (orElse (exec_load_unaligned eh i pc s)
    (orElse (exec_store eh i pc s) (orElse (exec_store_unaligned eh i pc s) (exec_trap eh i s)))) \<noteq> None"
  using assms
  by (auto simp: executable_def exec_alu_def orElse_def exec_immediate_def exec_move_def exec_logic_def
      exec_shift_def exec_compare_def exec_overflow_def exec_muldiv_def exec_branch_def exec_load_def
      exec_load_unaligned_def exec_store_def exec_store_unaligned_def exec_trap_def Let_def
      split: OpCode.splits)

context kernel_traps
begin

lemma execute_ok:
  assumes ok: "good s" and i: "executable (i_opCode i)" "i_rt i < 32" "i_rd i < 32"
    and nt: "\<not> host_trap i (reg s)" "\<not> unaligned_trap i (reg s)"
  shows "outcome_ok good eh (execute eh i pc s)"
proof (cases "exec_alu i (reg s)")
  case (Some p)
  obtain d v where p: "p = (d, v)" by (cases p)
  have "d \<noteq> LoadReg" using exec_alu_target Some p i(2,3) by blast
  then show ?thesis using ok Some p by (simp add: execute_def good_set_reg reg_defs(3))
next
  case alu: None
  show ?thesis
  proof (cases "exec_overflow i (reg s)")
    case (Some p)
    obtain d v where p: "p = (d, v)" by (cases p)
    have "d \<noteq> LoadReg" using exec_overflow_target Some p i(2,3) by blast
    then show ?thesis using ok alu Some p trap_ok [OF ok]
      by (cases v) (simp_all add: execute_def good_set_reg reg_defs(3))
  next
    case ov: None
    show ?thesis
    proof (cases "exec_muldiv i (reg s)")
      case (Some m)
      then obtain hi lo where "m = Inr (hi, lo)" using exec_muldiv_ok nt(1) by fastforce
      moreover have "good (set_reg LoReg lo (set_reg HiReg hi s))"
        using ok by (intro good_set_reg) (simp_all add: reg_defs)
      ultimately show ?thesis using alu ov Some by (simp add: execute_def reg_defs(3))
    next
      case md: None
      show ?thesis
      proof (cases "exec_branch i (reg s) pc")
        case (Some p)
        obtain l pc' where p: "p = (l, pc')" by (cases p)
        have "good (case l of None \<Rightarrow> s | Some d \<Rightarrow> set_reg d v s)" for v
          using ok exec_branch_target [of i "reg s" pc _ pc'] Some p i(3)
          by (auto split: option.splits intro: good_set_reg)
        then show ?thesis using alu ov md Some p by (simp add: execute_def reg_defs(3))
      next
        case br: None
        have un: "(reg s (i_rs i) + i_extra i) AND 0x3 = 0"
          if "i_opCode i \<in> {OP_LWL, OP_LWR, OP_SWL, OP_SWR}"
          using nt(2) that unfolding unaligned_trap_def by blast
        have lu: "outcome_ok good eh m" if "exec_load_unaligned eh i pc s = Some m" for m
          using exec_load_unaligned_ok [OF ok i(2) that] that un
          by (auto simp: exec_load_unaligned_def Let_def split: OpCode.splits)
        have su: "outcome_ok good eh m" if "exec_store_unaligned eh i pc s = Some m" for m
          using exec_store_unaligned_ok [OF ok that] that un
          by (auto simp: exec_store_unaligned_def Let_def split: OpCode.splits)
        obtain m where m: "orElse (exec_load eh i pc s) (orElse (exec_load_unaligned eh i pc s)
            (orElse (exec_store eh i pc s) (orElse (exec_store_unaligned eh i pc s)
            (exec_trap eh i s)))) = Some m"
          using executable_handled [OF i(1) alu ov md br] by blast
        then have "outcome_ok good eh m"
          using exec_load_ok [OF ok i(2)] lu exec_store_ok [OF ok] su exec_trap_ok [OF ok]
          by (auto simp: orElse_def split: option.splits)
        then show ?thesis using alu ov md br m by (simp add: execute_def)
      qed
    qed
  qed
qed

text \<open>One instruction: where it goes wrong, and what it leaves otherwise.\<close>

lemma OneInstruction_ok:
  assumes ok: "good s" and run: "OneInstruction eh s = r"
  shows "case r of
    Inr s' \<Rightarrow> good s'
  | Inl e \<Rightarrow> (\<exists>w s1. good s1 \<and> eh w s1 = Inl e) \<or>
      (\<exists>w s1. ReadMem eh (reg s PCReg) 4 s = Inr (Some w, s1) \<and>
        (host_trap (Decode w) (reg s1) \<or> unaligned_trap (Decode w) (reg s1)))"
proof (cases "ReadMem eh (reg s PCReg) 4 s")
  case (Inl e)
  then have "\<exists>w s1. good s1 \<and> eh w s1 = Inl e" using ReadMem_ok [OF ok, of 4 "reg s PCReg"] by simp
  moreover have "r = Inl e" using Inl run by (auto simp: OneInstruction_def)
  ultimately show ?thesis by simp
next
  case (Inr p)
  obtain raw s1 where p: "p = (raw, s1)" by (cases p)
  have ok1: "good s1" using ReadMem_ok [OF ok, of 4 "reg s PCReg"] Inr p by simp
  show ?thesis
  proof (cases raw)
    case None
    then show ?thesis using Inr p ok1 run by (auto simp: OneInstruction_def)
  next
    case (Some w)
    show ?thesis
    proof (cases "host_trap (Decode w) (reg s1) \<or> unaligned_trap (Decode w) (reg s1)")
      case True
      show ?thesis
      proof (cases r)
        case (Inl e) then show ?thesis using Inr p Some True by auto
      next
        case r: (Inr s')
        obtain out where out: "execute eh (Decode w) (reg s1 NextPCReg + 4) s1 = Inr out"
          using run r Inr p Some by (auto simp: OneInstruction_def res_simps)
        have False
          using True out by (auto simp: host_trap_def unaligned_trap_def execute_def exec_alu_def orElse_def
              exec_immediate_def exec_move_def exec_logic_def exec_shift_def exec_compare_def
              exec_overflow_def exec_muldiv_def exec_branch_def exec_load_def exec_load_unaligned_def
              exec_store_def exec_store_unaligned_def Let_def ASSERT_def SIGN_BIT_def)
        then show ?thesis ..
      qed
    next
      case False
      have out: "outcome_ok good eh (execute eh (Decode w) (reg s1 NextPCReg + 4) s1)"
        using execute_ok [OF ok1 Decode_ok(1,3,4)] False by blast
      show ?thesis
      proof (cases "execute eh (Decode w) (reg s1 NextPCReg + 4) s1")
        case (Inl e)
        then show ?thesis using out Inr p Some run by (auto simp: OneInstruction_def)
      next
        case ex: (Inr o')
        show ?thesis
        proof (cases o')
          case (Trapped s2)
          then show ?thesis using out ex Inr p Some run by (auto simp: OneInstruction_def)
        next
          case (Completed pc d v s2)
          then have s2: "good s2" "d < NumGPRegs" using out ex by simp_all
          obtain s3 where s3: "DelayedLoad d v s2 = Inr s3" "good s3"
            using DelayedLoad_ok [OF good_ok [OF s2(1)] s2(2)] good_keep [OF s2(1)] by blast
          have "good (set_reg NextPCReg pc (set_reg PCReg a (set_reg PrevPCReg b s3)))" for a b
            using s3(2) by (intro good_set_reg) (simp_all add: reg_defs)
          then show ?thesis using s3(1) Completed ex Inr p Some run by (auto simp: OneInstruction_def)
        qed
      qed
    qed
  qed
qed

end

subsection \<open>Properties\<close>

text \<open>
  C6. Running user instructions keeps the machine well formed, and the simulator itself stops
  for two reasons only. As long as the kernel's exception handler returns well-formed
  states, an instruction executed in a well-formed state leaves one; and if it stops the
  simulator instead, then either the exception handler stopped (a system call that halts, a failed
  assertion in the kernel), or the instruction fetched was a division of the smallest integer by
  \<open>-1\<close>, which traps on the host, or an unaligned \<open>LWL\<close>, \<open>LWR\<close>, \<open>SWL\<close> or \<open>SWR\<close>, which fails an assertion. No
  register or memory access is out of bounds and no undecodable instruction reaches the
  default case of the \<open>switch\<close>.
\<close>

theorem OneInstruction_safe:
  assumes "\<And>which s s'. machine_ok s \<Longrightarrow> eh which s = Inr s' \<Longrightarrow> machine_ok s'" and "machine_ok s"
  shows "case OneInstruction eh s of
    Inr s' \<Rightarrow> machine_ok s'
  | Inl e \<Rightarrow> (\<exists>w s1. machine_ok s1 \<and> eh w s1 = Inl e) \<or>
      (\<exists>w s1. ReadMem eh (reg s PCReg) 4 s = Inr (Some w, s1) \<and>
        (host_trap (Decode w) (reg s1) \<or> unaligned_trap (Decode w) (reg s1)))"
proof -
  have k: "kernel_traps eh machine_ok" by (rule kernel_traps.intro) (auto intro: assms(1))
  show ?thesis using kernel_traps.OneInstruction_ok [OF k assms(2) refl] .
qed

text \<open>
  A machine about to execute \<open>LWL\<close> at address 1: the word \<open>0x88010001\<close> at address 0 is
  \<open>LWL r1, 1(r0)\<close>. And one about to execute \<open>ADDIU r1, r0, 7\<close>, the word \<open>0x24010007\<close>.
\<close>

definition demo_program :: "32 word \<Rightarrow> MachineState" where
  "demo_program w = demo_machine\<lparr>mainMemory := overwrite (mainMemory demo_machine) 768 (word_bytes w),
     registers := (registers demo_machine)[NextPCReg := 4]\<rparr>"

lemma demo_program_ok: "machine_ok (demo_program w)"
proof -
  have "length (mainMemory (demo_program w)) = MemorySize"
    by (simp add: demo_program_def size_defs)
  moreover have "registers (demo_program w) = (replicate 40 0)[35 := 4]"
    by (simp add: demo_program_def reg_defs)
  moreover have "mmu_ok (demo_program w)" by (simp add: demo_program_def mmu_ok_def)
  ultimately show ?thesis by (simp add: machine_ok_def memory_ok_def reg_def reg_defs)
qed

lemma demo_program_fetch: "\<exists>s1. ReadMem eh (reg (demo_program w) PCReg) 4 (demo_program w) = Inr (Some w, s1) \<and>
    registers s1 = registers (demo_program w)"
proof -
  have pc: "reg (demo_program w) PCReg = 0" by (simp add: demo_program_def reg_def reg_defs)
  have sz: "(4 :: nat) \<in> {1, 2, 4}" by simp
  have mmu: "mmu_ok (demo_program w)" using demo_program_ok by (simp add: machine_ok_def)
  have f: "findEntry 0 (demo_program w) = Inr (Inr (InTable 0 0))"
    "get_entry (InTable 0 0) (demo_program w) = Inr (demo_entry 0 3 False)"
    by (simp_all add: findEntry_def get_entry_def fetch_def demo_program_def)
  obtain s1 where s1: "Translate 0 4 False (demo_program w) = Inr (Inr 768, s1)"
    "mainMemory s1 = mainMemory (demo_program w)" "registers s1 = registers (demo_program w)"
    using f by (simp add: Translate_spec [OF mmu sz] misaligned_def size_defs)
  have "take 4 (drop 768 (mainMemory s1)) = word_bytes w"
    unfolding s1(2) by (simp add: demo_program_def size_defs)
  then show ?thesis using s1 guest_load_word [of "word_bytes w" False] by (simp add: ReadMem_def pc)
qed

lemma decode_examples:
  "i_opCode (Decode 0x24010007) = OP_ADDIU" "i_opCode (Decode 0x88010001) = OP_LWL"
  "i_rs (Decode 0x88010001) = 0" "i_rt (Decode 0x88010001) = 1" "i_extra (Decode 0x88010001) = 1"
  by (simp_all add: Decode_def opTable_def Let_def)

theorem OneInstruction_safe_witness:
  "\<exists>s'. OneInstruction (\<lambda>_. Inr) (demo_program 0x24010007) = Inr s' \<and> machine_ok s'"
proof -
  have safe: "case OneInstruction (\<lambda>_. Inr) (demo_program 0x24010007) of
      Inr s' \<Rightarrow> machine_ok s'
    | Inl e \<Rightarrow> (\<exists>w s1. ReadMem (\<lambda>_. Inr) (reg (demo_program 0x24010007) PCReg) 4 (demo_program 0x24010007) = Inr (Some w, s1) \<and>
          (host_trap (Decode w) (reg s1) \<or> unaligned_trap (Decode w) (reg s1)))"
    using OneInstruction_safe [of "\<lambda>_. Inr" "demo_program 0x24010007"] demo_program_ok
    by (auto split: sum.splits)
  obtain s1 where "ReadMem (\<lambda>_. Inr) (reg (demo_program 0x24010007) PCReg) 4 (demo_program 0x24010007) =
      Inr (Some 0x24010007, s1)"
    using demo_program_fetch by blast
  then show ?thesis using safe
    by (auto simp: host_trap_def unaligned_trap_def decode_examples split: sum.splits)
qed

text \<open>
  An unaligned \<open>LWL\<close>, which a compiler emits for unaligned data and real MIPS hardware executes, is
  not an exception that the kernel can handle: it stops the simulator with a failed assertion.
\<close>

theorem LWL_unaligned_aborts:
  "OneInstruction eh (demo_program 0x88010001) = Inl Assertion"
proof -
  obtain s1 where s1: "ReadMem eh (reg (demo_program 0x88010001) PCReg) 4 (demo_program 0x88010001) =
      Inr (Some 0x88010001, s1)" "registers s1 = registers (demo_program 0x88010001)"
    using demo_program_fetch by blast
  have r0: "reg s1 0 = 0" by (simp add: reg_def s1(2) demo_program_def reg_defs)
  have "execute eh (Decode 0x88010001) pc s1 = Inl Assertion" for pc
    by (simp add: execute_def exec_alu_def orElse_def exec_immediate_def exec_move_def exec_logic_def
        exec_shift_def exec_compare_def exec_overflow_def exec_muldiv_def exec_branch_def exec_load_def
        exec_load_unaligned_def decode_examples Let_def r0)
  with s1(1) show ?thesis by (simp add: OneInstruction_def)
qed

end
