(* ===== verification/Nachos_Fit.thy ===== *)
theory Nachos_Fit
  imports Nachos_Bitmap Nachos_Machine
begin

section \<open>Choosing page frames: FirstFit, BestFit and WorstFit of userprog/addrspace.cc\<close>

text \<open>
  The three searches of the frame map for a run of free frames that is long enough for a
  new address space. Their loops differ only in what is done at the end of each turn of the inner loop
  (\<open>visit\<close>) and in the test after it (\<open>enough\<close>), so they share one model of the scan; the
  locale \<open>fit_policy\<close> proves once what the scan finds, and is interpreted for each of the three.
\<close>

subsection \<open>The scan\<close>

text \<open>
  The local variables of the loops. \<open>bestChunk\<close> is also \<open>worstChunk\<close>; \<open>StartHere\<close> is the
  member of \<open>AddrSpace\<close> that the searches set. All of them count frames, so they stay far below
  the range of \<open>int\<close>.
\<close>

record Scan =
  chunk :: nat
  bestChunk :: nat
  index :: nat
  startingAddress :: nat
  EndOfMem :: bool
  StartHere :: nat

type_synonym visit = "nat \<Rightarrow> nat \<Rightarrow> nat \<times> nat \<Rightarrow> nat \<times> nat"

text \<open>One turn of the inner loop, on a free frame.\<close>

definition takeFrame :: "visit \<Rightarrow> Scan \<Rightarrow> Scan" where
  "takeFrame visit c =
     (let start = (if chunk c = 0 then index c else startingAddress c);
          chunk' = chunk c + 1; next = index c + 1;
          (best, here) = visit chunk' start (bestChunk c, StartHere c)
      in \<lparr>chunk = chunk', bestChunk = best,
          index = (if next \<ge> NumPhysPages then 0 else next), startingAddress = start,
          EndOfMem = (next \<ge> NumPhysPages \<or> EndOfMem c), StartHere = here\<rparr>)"

text \<open>The inner loop: while the frame is free and the end of memory has not been reached.\<close>

function scanRun :: "visit \<Rightarrow> BitMap \<Rightarrow> Scan \<Rightarrow> Scan res" where
  "scanRun visit mp c = andThen (Test mp (int (index c))) (\<lambda>set.
     if \<not> set \<and> \<not> EndOfMem c then scanRun visit mp (takeFrame visit c) else Inr c)"
  by auto

termination
  by (relation "measure (\<lambda>(v, m, c). if EndOfMem c then 0 else Suc (NumPhysPages - index c))")
    (auto simp: takeFrame_def Let_def split: prod.splits)

declare scanRun.simps [simp del]

lemma scanRun_progress:
  "scanRun visit mp c = Inr c' \<Longrightarrow> EndOfMem c' \<and> \<not> EndOfMem c \<or> index c \<le> index c' \<and> EndOfMem c' = EndOfMem c"
proof (induction visit mp c rule: scanRun.induct)
  case (1 visit mp c)
  show ?case
  proof (cases "Test mp (int (index c)) = Inr False \<and> \<not> EndOfMem c")
    case True
    with 1(2) have r: "scanRun visit mp (takeFrame visit c) = Inr c'"
      by (simp add: scanRun.simps [of visit mp c])
    have t: "EndOfMem (takeFrame visit c) \<or> index c < index (takeFrame visit c) \<and> \<not> EndOfMem (takeFrame visit c)"
      using True by (auto simp: takeFrame_def Let_def split: prod.splits)
    have "EndOfMem c' \<and> \<not> EndOfMem (takeFrame visit c) \<or>
        index (takeFrame visit c) \<le> index c' \<and> EndOfMem c' = EndOfMem (takeFrame visit c)"
      using 1(1) [of False] True r by simp
    with t True show ?thesis by auto
  next
    case False
    then show ?thesis using 1(2) by (auto simp: scanRun.simps [of visit mp c] res_simps split: if_splits)
  qed
qed

text \<open>
  The outer loop, from one run to the next, until \<open>enough\<close> holds after a run or the index
  passes the last frame. Reaching the end of memory sends the index back to 0, so the
  remaining frames are stepped over a second time before the loop ends.
\<close>

function fitLoop :: "visit \<Rightarrow> (Scan \<Rightarrow> bool) \<Rightarrow> BitMap \<Rightarrow> Scan \<Rightarrow> (bool \<times> Scan) res" where
  "fitLoop visit enough mp c =
     (if index c < NumPhysPages then
        andThen (scanRun visit mp c) (\<lambda>c'.
          if enough c' then Inr (True, c')
          else fitLoop visit enough mp (c'\<lparr>chunk := 0, index := index c' + 1\<rparr>))
      else Inr (False, c))"
  by auto

termination
proof (relation "measures [\<lambda>(v, e, m, c). if EndOfMem c then 0 else 1, \<lambda>(v, e, m, c). NumPhysPages - index c]")
  fix visit enough mp c c'
  assume "index c < NumPhysPages" and "scanRun visit mp c = Inr c'"
  with scanRun_progress [OF this(2)]
  show "((visit, enough, mp, c'\<lparr>chunk := 0, index := index c' + 1\<rparr>), visit, enough, mp, c)
      \<in> measures [\<lambda>(v, e, m, c). if EndOfMem c then 0 else 1, \<lambda>(v, e, m, c). NumPhysPages - index c]"
    by auto
qed simp

declare fitLoop.simps [simp del]

definition Scan_new :: "nat \<Rightarrow> Scan" where
  "Scan_new here = \<lparr>chunk = 0, bestChunk = 0, index = 0, startingAddress = 0, EndOfMem = False, StartHere = here\<rparr>"

subsection \<open>The three policies\<close>

text \<open>Each gives \<open>SpaceFound\<close> and the new value of \<open>StartHere\<close>.\<close>

definition FirstFit :: "BitMap \<Rightarrow> nat \<Rightarrow> nat \<Rightarrow> (bool \<times> nat) res" where
  "FirstFit mp numPages here =
     andThen (fitLoop (\<lambda>_ _ bh. bh) (\<lambda>c. chunk c \<ge> numPages) mp (Scan_new here)) (\<lambda>(found, c).
       let SpaceFound = found \<or> chunk c \<ge> numPages
       in Inr (SpaceFound, if SpaceFound then startingAddress c else here))"

definition bestVisit :: "nat \<Rightarrow> visit" where
  "bestVisit numPages q start bh = (case bh of (best, here) \<Rightarrow>
     if q \<ge> numPages then
       if best = 0 then (q, start) else if q < best then (q, start) else (best, here)
     else (best, here))"

definition BestFit :: "BitMap \<Rightarrow> nat \<Rightarrow> nat \<Rightarrow> (bool \<times> nat) res" where
  "BestFit mp numPages here =
     andThen (fitLoop (bestVisit numPages) (\<lambda>c. bestChunk c \<ge> numPages \<and> EndOfMem c) mp (Scan_new here))
       (\<lambda>(found, c). Inr (found, StartHere c))"

definition worstVisit :: "nat \<Rightarrow> visit" where
  "worstVisit numPages q start bh = (case bh of (worst, here) \<Rightarrow>
     if q \<ge> numPages then
       if worst = 0 then (q, start) else if q > worst then (q, start) else (worst, here)
     else (worst, here))"

definition WorstFit :: "BitMap \<Rightarrow> nat \<Rightarrow> nat \<Rightarrow> (bool \<times> nat) res" where
  "WorstFit mp numPages here =
     andThen (fitLoop (worstVisit numPages) (\<lambda>c. bestChunk c \<ge> numPages \<and> EndOfMem c) mp (Scan_new here))
       (\<lambda>(found, c). Inr (found, StartHere c))"

text \<open>\<open>MemoryAllocation\<close>: any other selector leaves \<open>SpaceFound\<close> as it was.\<close>

definition MemoryAllocation :: "int \<Rightarrow> BitMap \<Rightarrow> nat \<Rightarrow> bool \<times> nat \<Rightarrow> (bool \<times> nat) res" where
  "MemoryAllocation i mp numPages old =
     (if i = 0 then FirstFit mp numPages (snd old)
      else if i = 1 then BestFit mp numPages (snd old)
      else if i = 2 then WorstFit mp numPages (snd old)
      else Inr old)"

subsection \<open>What the scan finds\<close>

text \<open>
  \<open>free_run free i k\<close>: the \<open>k\<close> frames from \<open>i\<close> on are free. \<open>maximal free i j\<close>: the inner loop
  started at \<open>i\<close> stops before \<open>j\<close>. \<open>runVisits\<close> is what the visits of one run do to
  \<open>bestChunk\<close> and \<open>StartHere\<close>.
\<close>

definition free_run :: "(nat \<Rightarrow> bool) \<Rightarrow> nat \<Rightarrow> nat \<Rightarrow> bool" where
  "free_run free i k \<longleftrightarrow> i + k \<le> NumPhysPages \<and> (\<forall>x<k. free (i + x))"

definition maximal :: "(nat \<Rightarrow> bool) \<Rightarrow> nat \<Rightarrow> nat \<Rightarrow> bool" where
  "maximal free i j \<longleftrightarrow> i < NumPhysPages \<and> i \<le> j \<and> j \<le> NumPhysPages \<and> (i = 0 \<or> \<not> free (i - 1)) \<and>
     (\<forall>x. i \<le> x \<longrightarrow> x < j \<longrightarrow> free x) \<and> (j < NumPhysPages \<longrightarrow> \<not> free j)"

definition runVisits :: "visit \<Rightarrow> nat \<Rightarrow> nat \<Rightarrow> nat \<Rightarrow> nat \<times> nat \<Rightarrow> nat \<times> nat" where
  "runVisits visit start q k bh = fold (\<lambda>q. visit q start) [Suc q..<Suc (q + k)] bh"

definition after_run :: "visit \<Rightarrow> nat \<Rightarrow> nat \<Rightarrow> Scan \<Rightarrow> Scan \<Rightarrow> bool" where
  "after_run visit i j c c' \<longleftrightarrow> chunk c' = j - i \<and> (i < j \<longrightarrow> startingAddress c' = i) \<and>
     (EndOfMem c' \<longleftrightarrow> j = NumPhysPages) \<and> index c' = (if j = NumPhysPages then 0 else j) \<and>
     (bestChunk c', StartHere c') = runVisits visit i 0 (j - i) (bestChunk c, StartHere c)"

definition frames_map :: "BitMap \<Rightarrow> bool" where
  "frames_map mp \<longleftrightarrow> wf_bitmap mp \<and> numBits mp = int NumPhysPages"

definition free_in :: "BitMap \<Rightarrow> nat \<Rightarrow> bool" where
  "free_in mp i \<longleftrightarrow> \<not> bits mp ! i"

lemma Test_frame: "frames_map mp \<Longrightarrow> i < NumPhysPages \<Longrightarrow> Test mp (int i) = Inr (\<not> free_in mp i)"
  using Test_bits [of mp i] by (simp add: frames_map_def free_in_def)

lemma free_run_split: "free_run free i k \<Longrightarrow> a \<le> k \<Longrightarrow> free_run free i a"
  by (simp add: free_run_def)

lemma maximal_run: "maximal free i j \<Longrightarrow> free_run free i k \<longleftrightarrow> k \<le> j - i"
  unfolding maximal_def free_run_def
proof (intro iffI)
  assume m: "i < NumPhysPages \<and> i \<le> j \<and> j \<le> NumPhysPages \<and> (i = 0 \<or> \<not> free (i - 1)) \<and>
     (\<forall>x. i \<le> x \<longrightarrow> x < j \<longrightarrow> free x) \<and> (j < NumPhysPages \<longrightarrow> \<not> free j)"
  {
    assume f: "i + k \<le> NumPhysPages \<and> (\<forall>x<k. free (i + x))"
    show "k \<le> j - i"
    proof (rule ccontr)
      assume "\<not> k \<le> j - i"
      then have k: "j - i < k" by simp
      then have "free (i + (j - i))" using f by blast
      moreover have "j < NumPhysPages" using k f m by linarith
      moreover have "i + (j - i) = j" using m by simp
      ultimately show False using m by metis
    qed
  next
    assume "k \<le> j - i"
    with m show "i + k \<le> NumPhysPages \<and> (\<forall>x<k. free (i + x))" by auto
  }
qed

text \<open>A run of free frames that starts before a taken frame ends before it.\<close>

lemma run_inside:
  assumes "maximal free i j" and "free_run free a k" and "i \<le> a" and "a \<le> j" and "0 < k"
  shows "a + k \<le> j \<and> k \<le> j - i"
proof (rule ccontr)
  assume "\<not> (a + k \<le> j \<and> k \<le> j - i)"
  then have "j - a < k" using assms(3-4) by linarith
  then have "j < NumPhysPages" "free (a + (j - a))"
    using assms(2,4) by (auto simp: free_run_def)
  with assms(1,4) show False by (simp add: maximal_def)
qed

lemma runVisits_Suc:
  "runVisits visit start q (Suc k) bh = runVisits visit start (Suc q) k (visit (Suc q) start bh)"
proof -
  have "[Suc q..<Suc (q + Suc k)] = Suc q # [Suc (Suc q)..<Suc (Suc q + k)]"
    by (simp add: upt_conv_Cons del: upt_Suc)
  then show ?thesis by (simp only: runVisits_def fold_Cons o_apply)
qed

lemma runVisits_0 [simp]: "runVisits visit start q 0 bh = bh"
  by (simp add: runVisits_def)

lemma scanRun_spec:
  assumes "frames_map mp" and "\<not> EndOfMem c" and "index c < NumPhysPages"
  shows "\<exists>j c'. scanRun visit mp c = Inr c' \<and> index c \<le> j \<and> j \<le> NumPhysPages \<and>
    (\<forall>x. index c \<le> x \<longrightarrow> x < j \<longrightarrow> free_in mp x) \<and> (j < NumPhysPages \<longrightarrow> \<not> free_in mp j) \<and>
    chunk c' = chunk c + (j - index c) \<and>
    (index c < j \<longrightarrow> startingAddress c' = (if chunk c = 0 then index c else startingAddress c)) \<and>
    (EndOfMem c' \<longleftrightarrow> j = NumPhysPages) \<and> index c' = (if j = NumPhysPages then 0 else j) \<and>
    (bestChunk c', StartHere c') = runVisits visit (if chunk c = 0 then index c else startingAddress c)
      (chunk c) (j - index c) (bestChunk c, StartHere c)"
  using assms
proof (induction "NumPhysPages - index c" arbitrary: c)
  case (Suc n c)
  note t = Test_frame [OF Suc.prems(1,3)]
  show ?case
  proof (cases "free_in mp (index c)")
    case False
    then have "scanRun visit mp c = Inr c" using t by (simp add: scanRun.simps)
    with False Suc.prems show ?thesis by (intro exI [of _ "index c"] exI [of _ c]) simp
  next
    case True
    define d where "d = takeFrame visit c"
    have r: "scanRun visit mp c = scanRun visit mp d"
      using t True Suc.prems(2) by (simp add: scanRun.simps [of visit mp c] d_def)
    define start where "start = (if chunk c = 0 then index c else startingAddress c)"
    note st = start_def [symmetric]
    have d: "chunk d = Suc (chunk c)" "startingAddress d = start"
      "(bestChunk d, StartHere d) = visit (Suc (chunk c)) start (bestChunk c, StartHere c)"
      unfolding d_def takeFrame_def Let_def st by (simp_all split: prod.splits)
    show ?thesis
    proof (cases "Suc (index c) < NumPhysPages")
      case last: False
      then have e: "EndOfMem d" "index d = 0"
        by (auto simp: d_def takeFrame_def Let_def split: prod.splits)
      have "scanRun visit mp d = Inr d"
        using e Test_frame [OF Suc.prems(1), of 0] by (simp add: scanRun.simps [of visit mp d] size_defs)
      then have "scanRun visit mp c = Inr d" using r by simp
      moreover have s: "Suc (index c) = NumPhysPages" using last Suc.prems(3) by simp
      moreover have "\<forall>x. index c \<le> x \<longrightarrow> x < NumPhysPages \<longrightarrow> free_in mp x"
        using True s by (metis less_Suc_eq le_antisym not_less)
      moreover have "NumPhysPages - index c = Suc 0" using s by simp
      ultimately show ?thesis unfolding st using d e Suc.prems(3)
        by (intro exI [of _ NumPhysPages] exI [of _ d]) (simp add: runVisits_Suc)
    next
      case True
      then have e: "\<not> EndOfMem d" "index d = Suc (index c)"
        using Suc.prems(2) by (auto simp: d_def takeFrame_def Let_def split: prod.splits)
      have "n = NumPhysPages - index d" using Suc.hyps(2) e by simp
      moreover have "index d < NumPhysPages" using True e(2) by simp
      ultimately obtain j c' where ih: "scanRun visit mp d = Inr c'" "index d \<le> j" "j \<le> NumPhysPages"
        "\<forall>x. index d \<le> x \<longrightarrow> x < j \<longrightarrow> free_in mp x" "j < NumPhysPages \<longrightarrow> \<not> free_in mp j"
        "chunk c' = chunk d + (j - index d)"
        "index d < j \<longrightarrow> startingAddress c' = (if chunk d = 0 then index d else startingAddress d)"
        "EndOfMem c' \<longleftrightarrow> j = NumPhysPages" "index c' = (if j = NumPhysPages then 0 else j)"
        "(bestChunk c', StartHere c') = runVisits visit (if chunk d = 0 then index d else startingAddress d)
          (chunk d) (j - index d) (bestChunk d, StartHere d)"
        using Suc.hyps(1) [OF _ Suc.prems(1) e(1)] by blast
      note c' = ih [unfolded d e(2) nat.simps if_False]
      have "Suc (index c) < j \<or> j = Suc (index c)" using c'(2) by linarith
      then have "startingAddress c' = start"
      proof
        assume j: "j = Suc (index c)"
        then have "scanRun visit mp d = Inr d"
          using c'(5) True e Test_frame [OF Suc.prems(1), of "index d"]
          by (simp add: scanRun.simps [of visit mp d])
        then show ?thesis using c'(1) d by simp
      qed (use c'(7) in simp)
      moreover have "\<forall>x. index c \<le> x \<longrightarrow> x < j \<longrightarrow> free_in mp x"
        using c'(4) \<open>free_in mp (index c)\<close> by (metis Suc_leI le_neq_implies_less)
      moreover have "j - index c = Suc (j - Suc (index c))" using c'(2) by linarith
      ultimately show ?thesis unfolding st using c' r
        by (intro exI [of _ j] exI [of _ c']) (simp add: runVisits_Suc)
    qed
  qed
qed simp

lemma scanRun_maximal:
  assumes "frames_map mp" and "\<not> EndOfMem c" and "chunk c = 0" and "index c < NumPhysPages"
    and "index c = 0 \<or> \<not> free_in mp (index c - 1)"
  shows "\<exists>j c'. scanRun visit mp c = Inr c' \<and> maximal (free_in mp) (index c) j \<and> after_run visit (index c) j c c'"
  using scanRun_spec [OF assms(1,2,4), of visit] assms(3-5)
  by (auto simp: maximal_def after_run_def)

subsection \<open>The interface of a policy\<close>

text \<open>
  \<open>summary free i bh\<close> is what a policy's \<open>bestChunk\<close> and \<open>StartHere\<close> say of the runs that end
  before frame \<open>i\<close>. It must hold at the start and be kept by a run that was not enough;
  \<open>enough\<close> must not become true by going on to the next frame. Then the loop ends with a
  run that was enough, or with a summary of all frames and none that was enough.
\<close>

locale fit_policy =
  fixes visit :: visit and enough :: "Scan \<Rightarrow> bool"
    and summary :: "(nat \<Rightarrow> bool) \<Rightarrow> nat \<Rightarrow> nat \<times> nat \<Rightarrow> bool"
  assumes summary_start: "summary free 0 (0, here)"
    and summary_step: "\<And>c'. summary free i (bestChunk c, StartHere c) \<Longrightarrow> maximal free i j \<Longrightarrow>
      after_run visit i j c c' \<Longrightarrow> \<not> enough c' \<Longrightarrow> summary free (Suc j) (bestChunk c', StartHere c')"
    and not_enough: "\<not> enough c \<Longrightarrow> \<not> enough (c\<lparr>chunk := 0, index := k\<rparr>)"
begin

definition stopped :: "(nat \<Rightarrow> bool) \<Rightarrow> Scan \<Rightarrow> bool" where
  "stopped free c' \<longleftrightarrow> enough c' \<and> (\<exists>i j c. maximal free i j \<and> after_run visit i j c c' \<and>
     summary free i (bestChunk c, StartHere c))"

definition exhausted :: "(nat \<Rightarrow> bool) \<Rightarrow> Scan \<Rightarrow> bool" where
  "exhausted free c' \<longleftrightarrow> chunk c' = 0 \<and> \<not> enough c' \<and>
     (if free (NumPhysPages - 1) then EndOfMem c' \<and> summary free (Suc NumPhysPages) (bestChunk c', StartHere c')
      else \<not> EndOfMem c' \<and> summary free NumPhysPages (bestChunk c', StartHere c'))"

lemma second_pass:
  assumes "frames_map mp" and "EndOfMem c" and "\<not> enough c" and "chunk c = 0" and "index c \<le> NumPhysPages"
  shows "\<exists>k. fitLoop visit enough mp c = Inr (False, c\<lparr>index := k\<rparr>)"
  using assms
proof (induction "NumPhysPages - index c" arbitrary: c)
  case 0
  then have "fitLoop visit enough mp c = Inr (False, c)" by (simp add: fitLoop.simps)
  then show ?case by (intro exI [of _ "index c"]) simp
next
  case (Suc n)
  let ?d = "c\<lparr>chunk := 0, index := index c + 1\<rparr>"
  have i: "index c < NumPhysPages" using Suc.hyps(2) by linarith
  have "scanRun visit mp c = Inr c"
    using Test_frame [OF Suc.prems(1) i] Suc.prems(2) by (simp add: scanRun.simps)
  then have "fitLoop visit enough mp c = fitLoop visit enough mp ?d"
    using i Suc.prems(3) by (simp add: fitLoop.simps [of visit enough mp c])
  moreover have "\<exists>k. fitLoop visit enough mp ?d = Inr (False, ?d\<lparr>index := k\<rparr>)"
    using Suc.hyps(2) Suc.prems i not_enough [OF Suc.prems(3)] by (intro Suc.hyps(1)) auto
  moreover have "?d\<lparr>index := k\<rparr> = c\<lparr>index := k\<rparr>" for k using Suc.prems(4) by simp
  ultimately show ?case by metis
qed

lemma fitLoop_result:
  assumes "frames_map mp" and "\<not> EndOfMem c" and "chunk c = 0" and "index c \<le> NumPhysPages"
    and "index c = 0 \<or> \<not> free_in mp (index c - 1)" and "summary (free_in mp) (index c) (bestChunk c, StartHere c)"
    and "index c = NumPhysPages \<longrightarrow> \<not> enough c"
  shows "\<exists>found c'. fitLoop visit enough mp c = Inr (found, c') \<and>
    (if found then stopped (free_in mp) c' else exhausted (free_in mp) c')"
  using assms
proof (induction "NumPhysPages - index c" arbitrary: c rule: less_induct)
  case less
  show ?case
  proof (cases "index c < NumPhysPages")
    case False
    then have "fitLoop visit enough mp c = Inr (False, c)" by (simp add: fitLoop.simps)
    moreover have "index c = NumPhysPages" using False less.prems(4) by simp
    ultimately show ?thesis using less.prems(2,3,5-7) by (auto simp: exhausted_def size_defs)
  next
    case True
    obtain j c' where c': "scanRun visit mp c = Inr c'" "maximal (free_in mp) (index c) j"
        "after_run visit (index c) j c c'"
      using scanRun_maximal [OF less.prems(1-3) True less.prems(5)] by blast
    define d where "d = c'\<lparr>chunk := 0, index := index c' + 1\<rparr>"
    show ?thesis
    proof (cases "enough c'")
      case e: True
      then have "fitLoop visit enough mp c = Inr (True, c')"
        using c'(1) True by (simp add: fitLoop.simps [of visit enough mp c])
      moreover have "stopped (free_in mp) c'"
        using e c'(2,3) less.prems(6) by (auto simp: stopped_def)
      ultimately show ?thesis by auto
    next
      case e: False
      have s: "summary (free_in mp) (Suc j) (bestChunk d, StartHere d)"
        using summary_step [OF less.prems(6) c'(2,3) e] by (simp add: d_def)
      have r: "fitLoop visit enough mp c = fitLoop visit enough mp d"
        using c'(1) True e by (simp add: fitLoop.simps [of visit enough mp c] d_def)
      have ne: "\<not> enough d" using not_enough [OF e] by (simp add: d_def)
      show ?thesis
      proof (cases "j = NumPhysPages")
        case j: True
        have "EndOfMem d" "chunk d = 0" "index d \<le> NumPhysPages"
          using c'(3) j by (simp_all add: d_def after_run_def size_defs)
        with second_pass [OF less.prems(1) _ ne] obtain k where
          k: "fitLoop visit enough mp d = Inr (False, d\<lparr>index := k\<rparr>)" by blast
        have "free_in mp (NumPhysPages - 1)"
          using c'(2) j True by (auto simp: maximal_def)
        moreover have "\<not> enough (d\<lparr>index := k\<rparr>)"
          using not_enough [OF e, of k] by (simp add: d_def)
        ultimately have "exhausted (free_in mp) (d\<lparr>index := k\<rparr>)"
          using s \<open>EndOfMem d\<close> \<open>chunk d = 0\<close> j by (simp add: exhausted_def)
        with r k show ?thesis by auto
      next
        case False
        then have d: "index d = Suc j" "\<not> EndOfMem d" "chunk d = 0" "j < NumPhysPages"
          using c'(2,3) by (auto simp: d_def after_run_def maximal_def)
        have "\<not> free_in mp j" "index c \<le> j" using c'(2) d(4) by (auto simp: maximal_def)
        then show ?thesis unfolding r
          using less.hyps [of d] less.prems(1) d s ne by simp
      qed
    qed
  qed
qed

lemma search_result:
  assumes "frames_map mp"
  shows "\<exists>found c'. fitLoop visit enough mp (Scan_new here) = Inr (found, c') \<and>
    (if found then stopped (free_in mp) c' else exhausted (free_in mp) c')"
  using assms summary_start by (intro fitLoop_result) (simp_all add: Scan_new_def size_defs)

end

subsection \<open>What the visits of a run do\<close>

lemma runVisits_best:
  assumes "q < n \<or> b = n" and "b = 0 \<or> b = n" and "0 < n"
  shows "runVisits (bestVisit n) i q k (b, h) = (if q + k < n \<or> b = n then (b, h) else (n, i))"
  using assms
proof (induction k arbitrary: q b h)
  case (Suc k)
  show ?case
  proof (cases "b = n")
    case True
    then show ?thesis using Suc by (simp add: runVisits_Suc bestVisit_def)
  next
    case False
    show ?thesis
    proof (cases "Suc q = n")
      case True
      with False Suc.prems Suc.IH [of "Suc q" n i] show ?thesis by (simp add: runVisits_Suc bestVisit_def)
    next
      case ne: False
      with False Suc.prems Suc.IH [of "Suc q" b h] show ?thesis by (simp add: runVisits_Suc bestVisit_def)
    qed
  qed
qed auto

lemma runVisits_worst:
  assumes "b = 0 \<or> n \<le> b" and "0 < n"
  shows "runVisits (worstVisit n) i q k (b, h) =
    (if k = 0 \<or> q + k < n \<or> b \<noteq> 0 \<and> q + k \<le> b then (b, h) else (q + k, i))"
  using assms
proof (induction k arbitrary: q b h)
  case (Suc k)
  show ?case
  proof (cases "Suc q < n \<or> b \<noteq> 0 \<and> Suc q \<le> b")
    case True
    then have v: "worstVisit n (Suc q) i (b, h) = (b, h)" by (auto simp: worstVisit_def)
    show ?thesis using Suc.IH [of b "Suc q" h] Suc.prems True v by (auto simp: runVisits_Suc)
  next
    case False
    then have "worstVisit n (Suc q) i (b, h) = (Suc q, i)" by (auto simp: worstVisit_def)
    with False Suc.IH [of "Suc q" "Suc q" i] Suc.prems(2) show ?thesis by (auto simp: runVisits_Suc)
  qed
qed simp

subsection \<open>The three policies keep their summaries\<close>

definition first_summary :: "nat \<Rightarrow> (nat \<Rightarrow> bool) \<Rightarrow> nat \<Rightarrow> nat \<times> nat \<Rightarrow> bool" where
  "first_summary n free i bh \<longleftrightarrow> (\<forall>a<i. \<not> free_run free a n)"

definition best_summary :: "nat \<Rightarrow> (nat \<Rightarrow> bool) \<Rightarrow> nat \<Rightarrow> nat \<times> nat \<Rightarrow> bool" where
  "best_summary n free i bh \<longleftrightarrow>
     fst bh = 0 \<and> (\<forall>a<i. \<not> free_run free a n) \<or>
     fst bh = n \<and> free_run free (snd bh) n \<and> (\<forall>a < snd bh. \<not> free_run free a n)"

definition worst_summary :: "nat \<Rightarrow> (nat \<Rightarrow> bool) \<Rightarrow> nat \<Rightarrow> nat \<times> nat \<Rightarrow> bool" where
  "worst_summary n free i bh \<longleftrightarrow>
     fst bh = 0 \<and> (\<forall>a<i. \<not> free_run free a n) \<or>
     n \<le> fst bh \<and> free_run free (snd bh) (fst bh) \<and> (\<forall>a<i. \<forall>k. free_run free a k \<longrightarrow> k \<le> fst bh)"

lemma no_run_step:
  assumes "\<forall>a<i. \<not> free_run free a n" and "maximal free i j" and "j - i < n"
  shows "\<forall>a<Suc j. \<not> free_run free a n"
proof (intro allI impI)
  fix a assume a: "a < Suc j"
  show "\<not> free_run free a n"
  proof (cases "a < i")
    case False
    with run_inside [OF assms(2), of a n] a assms(3) show ?thesis by auto
  qed (use assms(1) in simp)
qed

lemma longest_step:
  assumes "\<forall>a<i. \<forall>k. free_run free a k \<longrightarrow> k \<le> b" and "maximal free i j" and "j - i \<le> b'" and "b \<le> b'"
  shows "\<forall>a<Suc j. \<forall>k. free_run free a k \<longrightarrow> k \<le> b'"
proof (intro allI impI)
  fix a k assume a: "a < Suc j" "free_run free a k"
  show "k \<le> b'"
  proof (cases "a < i \<or> k = 0")
    case False
    with run_inside [OF assms(2) a(2)] a(1) assms(3) show ?thesis by auto
  qed (use assms(1,4) a(2) in force)
qed

lemma best_summary_step:
  assumes "0 < n" and "best_summary n free i (bestChunk c, StartHere c)" and "maximal free i j"
    and "after_run (bestVisit n) i j c c'"
  shows "best_summary n free (Suc j) (bestChunk c', StartHere c')"
proof -
  have b: "bestChunk c = 0 \<or> bestChunk c = n" using assms(2) by (auto simp: best_summary_def)
  have v: "(bestChunk c', StartHere c') =
      (if j - i < n \<or> bestChunk c = n then (bestChunk c, StartHere c) else (n, i))"
    using assms(4) runVisits_best [of 0 n "bestChunk c" i "j - i" "StartHere c"] b assms(1)
    by (simp add: after_run_def)
  show ?thesis
  proof (cases "bestChunk c = n")
    case True
    with v assms(1,2) show ?thesis by (auto simp: best_summary_def)
  next
    case False
    then have s: "bestChunk c = 0" "\<forall>a<i. \<not> free_run free a n"
      using assms(2) by (auto simp: best_summary_def)
    show ?thesis
    proof (cases "j - i < n")
      case True
      with v s no_run_step [OF s(2) assms(3)] show ?thesis by (auto simp: best_summary_def)
    next
      case l: False
      with v False s maximal_run [OF assms(3), of n] show ?thesis by (auto simp: best_summary_def)
    qed
  qed
qed

lemma worst_summary_step:
  assumes "0 < n" and "worst_summary n free i (bestChunk c, StartHere c)" and "maximal free i j"
    and "after_run (worstVisit n) i j c c'"
  shows "worst_summary n free (Suc j) (bestChunk c', StartHere c')"
proof -
  have b: "bestChunk c = 0 \<or> n \<le> bestChunk c" using assms(2) by (auto simp: worst_summary_def)
  have v: "(bestChunk c', StartHere c') =
      (if j - i < n \<or> bestChunk c \<noteq> 0 \<and> j - i \<le> bestChunk c then (bestChunk c, StartHere c) else (j - i, i))"
    using assms(4) runVisits_worst [of "bestChunk c" n i 0 "j - i" "StartHere c"] b assms(1)
    by (auto simp: after_run_def)
  have run: "free_run free i (j - i)" using maximal_run [OF assms(3), of "j - i"] by simp
  show ?thesis
  proof (cases "bestChunk c = 0")
    case True
    with assms(1,2) have s: "\<forall>a<i. \<not> free_run free a n" by (auto simp: worst_summary_def)
    show ?thesis
    proof (cases "j - i < n")
      case l: True
      with v True no_run_step [OF s assms(3)] show ?thesis by (auto simp: worst_summary_def)
    next
      case l: False
      have "\<forall>a<i. \<forall>k. free_run free a k \<longrightarrow> k \<le> n"
        using s free_run_split by (metis nat_le_linear)
      from longest_step [OF this assms(3), of "j - i"] l v True run
      show ?thesis by (auto simp: worst_summary_def)
    qed
  next
    case False
    with assms(2) b have s: "n \<le> bestChunk c" "free_run free (StartHere c) (bestChunk c)"
        "\<forall>a<i. \<forall>k. free_run free a k \<longrightarrow> k \<le> bestChunk c"
      by (auto simp: worst_summary_def)
    show ?thesis
    proof (cases "j - i \<le> bestChunk c")
      case True
      with v False s longest_step [OF s(3) assms(3), of "bestChunk c"] show ?thesis
        by (auto simp: worst_summary_def)
    next
      case l: False
      with v False s longest_step [OF s(3) assms(3), of "j - i"] run show ?thesis
        by (auto simp: worst_summary_def)
    qed
  qed
qed

interpretation first_fit: fit_policy "\<lambda>_ _ bh. bh" "\<lambda>c. Suc m \<le> chunk c" "first_summary (Suc m)" for m
proof
  fix free i j c c'
  assume "first_summary (Suc m) free i (bestChunk c, StartHere c)" "maximal free i j"
    "after_run (\<lambda>_ _ bh. bh) i j c c'" "\<not> Suc m \<le> chunk c'"
  then show "first_summary (Suc m) free (Suc j) (bestChunk c', StartHere c')"
    using no_run_step [of i free "Suc m" j] by (auto simp: first_summary_def after_run_def)
qed (simp_all add: first_summary_def)

interpretation best_fit: fit_policy "bestVisit (Suc m)" "\<lambda>c. Suc m \<le> bestChunk c \<and> EndOfMem c"
    "best_summary (Suc m)" for m
  by unfold_locales (auto simp: best_summary_def [of _ _ 0] intro: best_summary_step [OF zero_less_Suc])

interpretation worst_fit: fit_policy "worstVisit (Suc m)" "\<lambda>c. Suc m \<le> bestChunk c \<and> EndOfMem c"
    "worst_summary (Suc m)" for m
  by unfold_locales (auto simp: worst_summary_def [of _ _ 0] intro: worst_summary_step [OF zero_less_Suc])

subsection \<open>The result of each search\<close>

lemma FirstFit_spec:
  assumes "frames_map mp" and "0 < numPages"
  shows "\<exists>found here'. FirstFit mp numPages here = Inr (found, here') \<and>
    (found \<longleftrightarrow> (\<exists>i. free_run (free_in mp) i numPages)) \<and>
    (found \<longrightarrow> free_run (free_in mp) here' numPages \<and> (\<forall>i<here'. \<not> free_run (free_in mp) i numPages))"
proof -
  obtain m where m: "numPages = Suc m" using assms(2) by (cases numPages) auto
  obtain found c where r: "fitLoop (\<lambda>_ _ bh. bh) (\<lambda>c. Suc m \<le> chunk c) mp (Scan_new here) = Inr (found, c)"
      and s: "if found then first_fit.stopped m (free_in mp) c else first_fit.exhausted m (free_in mp) c"
    using first_fit.search_result [OF assms(1), of m here] by blast
  show ?thesis
  proof (cases found)
    case True
    then obtain i j where ij: "maximal (free_in mp) i j" "Suc m \<le> j - i" "startingAddress c = i"
        "\<forall>a<i. \<not> free_run (free_in mp) a (Suc m)"
      using s by (auto simp: first_fit.stopped_def after_run_def first_summary_def)
    moreover have "free_run (free_in mp) i (Suc m)" using maximal_run [OF ij(1)] ij(2) by blast
    ultimately show ?thesis using r True m by (auto simp: FirstFit_def Let_def)
  next
    case False
    then have "chunk c = 0" "\<forall>a<NumPhysPages. \<not> free_run (free_in mp) a (Suc m)"
      using s by (auto simp: first_fit.exhausted_def first_summary_def split: if_splits)
    moreover have "\<not> free_run (free_in mp) a (Suc m)" if "NumPhysPages \<le> a" for a
      using that by (simp add: free_run_def)
    ultimately have "chunk c = 0" "\<And>a. \<not> free_run (free_in mp) a (Suc m)" by (simp, metis not_less)
    then show ?thesis using r False m
      by (intro exI [of _ False] exI [of _ here]) (simp add: FirstFit_def Let_def)
  qed
qed

lemma BestFit_spec:
  assumes "frames_map mp" and "0 < numPages"
  shows "\<exists>found here'. BestFit mp numPages here = Inr (found, here') \<and>
    (found \<longleftrightarrow> free_in mp (NumPhysPages - 1) \<and> (\<exists>i. free_run (free_in mp) i numPages)) \<and>
    (found \<longrightarrow> FirstFit mp numPages here = Inr (True, here'))"
proof -
  obtain m where m: "numPages = Suc m" using assms(2) by (cases numPages) auto
  obtain found c where r: "fitLoop (bestVisit (Suc m)) (\<lambda>c. Suc m \<le> bestChunk c \<and> EndOfMem c) mp (Scan_new here) = Inr (found, c)"
      and s: "if found then best_fit.stopped m (free_in mp) c else best_fit.exhausted m (free_in mp) c"
    using best_fit.search_result [OF assms(1), of m here] by blast
  have b: "BestFit mp numPages here = Inr (found, StartHere c)" using r m by (simp add: BestFit_def)
  obtain f' h' where ff: "FirstFit mp numPages here = Inr (f', h')"
      "f' \<longleftrightarrow> (\<exists>i. free_run (free_in mp) i numPages)"
      "f' \<longrightarrow> free_run (free_in mp) h' numPages \<and> (\<forall>i<h'. \<not> free_run (free_in mp) i numPages)"
    using FirstFit_spec [OF assms] by blast
  show ?thesis
  proof (cases found)
    case True
    then obtain i j c0 where c0: "maximal (free_in mp) i j" "after_run (bestVisit (Suc m)) i j c0 c"
        "best_summary (Suc m) (free_in mp) i (bestChunk c0, StartHere c0)" "Suc m \<le> bestChunk c" "EndOfMem c"
      using s by (auto simp: best_fit.stopped_def)
    have "best_summary (Suc m) (free_in mp) (Suc j) (bestChunk c, StartHere c)"
      using best_summary_step [OF zero_less_Suc c0(3,1,2)] .
    with c0(4) have h: "free_run (free_in mp) (StartHere c) numPages" "\<forall>a < StartHere c. \<not> free_run (free_in mp) a numPages"
      using m by (auto simp: best_summary_def)
    then have "f'" "h' = StartHere c" using ff(2,3) by (blast, metis linorder_neqE_nat)
    moreover have "free_in mp (NumPhysPages - 1)"
      using c0(1,2,5) by (auto simp: after_run_def maximal_def)
    ultimately show ?thesis using b True h ff(1) by auto
  next
    case False
    have "\<not> free_run (free_in mp) a numPages" if "free_in mp (NumPhysPages - 1)" for a
    proof -
      have "EndOfMem c" "best_summary (Suc m) (free_in mp) (Suc NumPhysPages) (bestChunk c, StartHere c)"
        "\<not> (Suc m \<le> bestChunk c \<and> EndOfMem c)"
        using s False that by (auto simp: best_fit.exhausted_def split: if_splits)
      then have "\<forall>a<Suc NumPhysPages. \<not> free_run (free_in mp) a numPages"
        using m by (auto simp: best_summary_def)
      then show ?thesis by (cases "a < Suc NumPhysPages") (auto simp: free_run_def m)
    qed
    then show ?thesis using b False by auto
  qed
qed

lemma WorstFit_spec:
  assumes "frames_map mp" and "0 < numPages"
  shows "\<exists>found here'. WorstFit mp numPages here = Inr (found, here') \<and>
    (found \<longleftrightarrow> free_in mp (NumPhysPages - 1) \<and> (\<exists>i. free_run (free_in mp) i numPages)) \<and>
    (found \<longrightarrow> (\<exists>k\<ge>numPages. free_run (free_in mp) here' k \<and>
      (\<forall>i k'. free_run (free_in mp) i k' \<longrightarrow> k' \<le> k)))"
proof -
  obtain m where m: "numPages = Suc m" using assms(2) by (cases numPages) auto
  obtain found c where r: "fitLoop (worstVisit (Suc m)) (\<lambda>c. Suc m \<le> bestChunk c \<and> EndOfMem c) mp (Scan_new here) = Inr (found, c)"
      and s: "if found then worst_fit.stopped m (free_in mp) c else worst_fit.exhausted m (free_in mp) c"
    using worst_fit.search_result [OF assms(1), of m here] by blast
  have w: "WorstFit mp numPages here = Inr (found, StartHere c)" using r m by (simp add: WorstFit_def)
  show ?thesis
  proof (cases found)
    case True
    then obtain i j c0 where c0: "maximal (free_in mp) i j" "after_run (worstVisit (Suc m)) i j c0 c"
        "worst_summary (Suc m) (free_in mp) i (bestChunk c0, StartHere c0)" "Suc m \<le> bestChunk c" "EndOfMem c"
      using s by (auto simp: worst_fit.stopped_def)
    have j: "j = NumPhysPages" "free_in mp (NumPhysPages - 1)"
      using c0(1,2,5) by (auto simp: after_run_def maximal_def)
    have "worst_summary (Suc m) (free_in mp) (Suc j) (bestChunk c, StartHere c)"
      using worst_summary_step [OF zero_less_Suc c0(3,1,2)] .
    with c0(4) j have h: "free_run (free_in mp) (StartHere c) (bestChunk c)"
        "\<forall>a<Suc NumPhysPages. \<forall>k. free_run (free_in mp) a k \<longrightarrow> k \<le> bestChunk c"
      by (auto simp: worst_summary_def)
    have "k \<le> bestChunk c" if "free_run (free_in mp) a k" for a k
    proof -
      have "a < Suc NumPhysPages" using that by (simp add: free_run_def)
      with h(2) that show ?thesis by blast
    qed
    moreover have "free_run (free_in mp) (StartHere c) numPages"
      using free_run_split [OF h(1)] c0(4) m by simp
    ultimately show ?thesis using w True h j c0(4) m by auto
  next
    case False
    have "\<not> free_run (free_in mp) a numPages" if "free_in mp (NumPhysPages - 1)" for a
    proof -
      have "EndOfMem c" "worst_summary (Suc m) (free_in mp) (Suc NumPhysPages) (bestChunk c, StartHere c)"
        "\<not> (Suc m \<le> bestChunk c \<and> EndOfMem c)"
        using s False that by (auto simp: worst_fit.exhausted_def split: if_splits)
      then have "\<forall>a<Suc NumPhysPages. \<not> free_run (free_in mp) a numPages"
        using m by (auto simp: worst_summary_def)
      then show ?thesis by (cases "a < Suc NumPhysPages") (auto simp: free_run_def m)
    qed
    then show ?thesis using w False by auto
  qed
qed

text \<open>Whatever the policy, frames that it returns with success are free and exist.\<close>

lemma MemoryAllocation_free:
  assumes "frames_map mp" and "0 < numPages" and "fst old \<longrightarrow> i \<in> {0, 1, 2}"
  shows "\<exists>found here. MemoryAllocation i mp numPages old = Inr (found, here) \<and>
    (found \<longrightarrow> free_run (free_in mp) here numPages)"
proof -
  consider "i = 0" | "i = 1" | "i = 2" | "i \<notin> {0, 1, 2}" by blast
  then show ?thesis
  proof cases
    case 1
    then show ?thesis using FirstFit_spec [OF assms(1,2), of "snd old"] by (auto simp: MemoryAllocation_def)
  next
    case 2
    then show ?thesis using BestFit_spec [OF assms(1,2), of "snd old"] FirstFit_spec [OF assms(1,2), of "snd old"] by (auto simp: MemoryAllocation_def)
  next
    case 3
    obtain found h where w: "WorstFit mp numPages (snd old) = Inr (found, h)"
      "found \<longrightarrow> (\<exists>k\<ge>numPages. free_run (free_in mp) h k)"
      using WorstFit_spec [OF assms(1,2), of "snd old"] by blast
    then show ?thesis using 3 free_run_split by (auto simp: MemoryAllocation_def)
  next
    case 4
    then show ?thesis using assms(3) by (cases old) (auto simp: MemoryAllocation_def)
  qed
qed

subsection \<open>Properties\<close>

text \<open>
  C35. First fit is first fit. On a frame map of the machine, \<open>FirstFit\<close> never fails an assertion, it
  finds space for \<open>numPages\<close> pages exactly when there are that many free frames in a row,
  and it then starts at the lowest frame that begins such a run.
\<close>

theorem FirstFit_lowest:
  assumes "frames_map mp" and "0 < numPages"
  shows "\<exists>found here'. FirstFit mp numPages here = Inr (found, here') \<and>
    (found \<longleftrightarrow> (\<exists>i. free_run (free_in mp) i numPages)) \<and>
    (found \<longrightarrow> free_run (free_in mp) here' numPages \<and> (\<forall>i<here'. \<not> free_run (free_in mp) i numPages))"
  using FirstFit_spec [OF assms] .

text \<open>
  Best fit is not best fit. \<open>BestFit\<close> compares chunks while they are still growing, so the first
  run that is long enough always wins, as in first fit; and it reports success only if the last frame
  of memory is free, otherwise it reports that there is no space although there may be.
\<close>

theorem BestFit_is_first_fit:
  assumes "frames_map mp" and "0 < numPages"
  shows "\<exists>found here'. BestFit mp numPages here = Inr (found, here') \<and>
    (found \<longleftrightarrow> free_in mp (NumPhysPages - 1) \<and> (\<exists>i. free_run (free_in mp) i numPages)) \<and>
    (found \<longrightarrow> FirstFit mp numPages here = Inr (True, here'))"
  using BestFit_spec [OF assms] .

text \<open>
  Worst fit finds the longest run of free frames, but like best fit only if the last frame of
  memory is free: \<open>WorstFit\<close> succeeds exactly when that frame is free and some run is long
  enough, and then it starts at a run that no other run of free frames exceeds.
\<close>

theorem WorstFit_longest:
  assumes "frames_map mp" and "0 < numPages"
  shows "\<exists>found here'. WorstFit mp numPages here = Inr (found, here') \<and>
    (found \<longleftrightarrow> free_in mp (NumPhysPages - 1) \<and> (\<exists>i. free_run (free_in mp) i numPages)) \<and>
    (found \<longrightarrow> (\<exists>k\<ge>numPages. free_run (free_in mp) here' k \<and>
      (\<forall>i k'. free_run (free_in mp) i k' \<longrightarrow> k' \<le> k)))"
  using WorstFit_spec [OF assms] .

subsection \<open>Concrete maps\<close>

text \<open>Frames 0 and 31 of the first map are taken; in the second the last frame is free, and so are frames 2 to 4.\<close>

definition demo_frames :: "32 word \<Rightarrow> BitMap" where
  "demo_frames w = \<lparr>numBits = 32, numWords = 1, bm_words = [w]\<rparr>"

lemma demo_frames_ok: "frames_map (demo_frames w)"
  by (simp add: frames_map_def wf_bitmap_def demo_frames_def size_defs BitsInWord_def divRoundUp_def)

lemma demo_frames_free: "i < 32 \<Longrightarrow> free_in (demo_frames w) i \<longleftrightarrow> \<not> bit w i"
  by (simp add: free_in_def demo_frames_def bits_def bitAt_def)

theorem FirstFit_lowest_witness:
  "\<exists>here'. FirstFit (demo_frames 0x80000001) 4 0 = Inr (True, here') \<and> 0 < here'"
proof -
  have "free_run (free_in (demo_frames 0x80000001)) 1 4"
    by (auto simp: free_run_def size_defs demo_frames_free bit_numeral_rec less_Suc_eq numeral_eq_Suc)
  moreover have "\<not> free_run (free_in (demo_frames 0x80000001)) 0 4"
    by (auto simp: free_run_def demo_frames_free intro!: exI [of _ 0])
  ultimately show ?thesis
    using FirstFit_lowest [OF demo_frames_ok, of 4 "0x80000001" 0] by (auto intro: gr0I)
qed

lemma demo_run: "free_run (free_in (demo_frames 0x80000001)) 1 4" "\<not> free_in (demo_frames 0x80000001) 31"
  "free_run (free_in (demo_frames 0x20)) 1 4" "free_in (demo_frames 0x20) 31"
  by (auto simp: free_run_def size_defs demo_frames_free bit_numeral_rec less_Suc_eq numeral_eq_Suc)

theorem BestFit_is_first_fit_witness:
  "(\<exists>i. free_run (free_in (demo_frames 0x80000001)) i 4) \<and>
   (\<exists>here'. BestFit (demo_frames 0x80000001) 4 0 = Inr (False, here'))"
  using BestFit_is_first_fit [OF demo_frames_ok, of 4 "0x80000001" 0] demo_run(1,2)
  by (auto simp: size_defs)

theorem WorstFit_longest_witness:
  "\<exists>here' k. WorstFit (demo_frames 0x20) 4 0 = Inr (True, here') \<and> 4 \<le> k \<and>
     free_run (free_in (demo_frames 0x20)) here' k"
proof -
  have "\<exists>i. free_run (free_in (demo_frames 0x20)) i 4" using demo_run(3) by blast
  then show ?thesis using WorstFit_longest [OF demo_frames_ok, of 4 "0x20" 0] demo_run(4)
    by (simp add: size_defs) metis
qed

end
