(* ===== verification/Nachos_AddrSpace.thy ===== *)
theory Nachos_AddrSpace
  imports Nachos_Fit
begin

section \<open>Address spaces: userprog/addrspace.cc\<close>

text \<open>
  Loading a program: the frames of the new address space are chosen and marked, zeroed, and
  the code and initialised data of the NOFF file are copied in. The kernel state gains the frame
  map, the selected policy and the address spaces, which like threads are addressed by number. Output
  of the code (\<open>printf\<close>) is not modelled. The executable is the host file of the stubbed
  file system (\<open>FILESYS_STUB\<close> in openfile.h), as the list of its bytes.
\<close>

unbundle bit_operations_syntax

subsection \<open>The data (addrspace.h, noff.h)\<close>

record Segment =
  virtualAddr :: "32 word"
  inFileAddr :: "32 word"
  seg_size :: "32 word"

record NoffHeader =
  noffMagic :: "32 word"
  code :: Segment
  initData :: Segment
  uninitData :: Segment

record AddrSpace =
  SpaceFound :: bool
  numPages :: nat
  startHere :: nat
  as_pageTable :: "nat option"

record KernelState = MachineState +
  MainMemMap :: BitMap
  MemAll :: int
  spaces :: "nat \<rightharpoonup> AddrSpace"
  nextSpace :: nat
  nextTable :: nat

type_synonym 'a kernel_action = "'a KernelState_scheme \<Rightarrow> 'a KernelState_scheme res"
type_synonym host_file = "8 word list"

definition NOFFMAGIC :: "32 word" where "NOFFMAGIC = 0xbadfad"
definition UserStackSize :: "32 word" where "UserStackSize = 1024"
definition NoffHeaderSize :: nat where "NoffHeaderSize = 40"

subsection \<open>Reading the executable\<close>

text \<open>\<open>OpenFile::ReadAt\<close> of the stub: seek, and read what the file has of the bytes asked for.\<close>

definition ReadAt :: "host_file \<Rightarrow> int \<Rightarrow> int \<Rightarrow> host_file res" where
  "ReadAt f numBytes position = ASSERT (position \<ge> 0)
     (if numBytes < 0 then Inl OutOfBounds
      else Inr (take (nat numBytes) (drop (nat position) f)))"

text \<open>The header as the ten integers of the struct, on a little-endian host.\<close>

definition header_of :: "8 word list \<Rightarrow> NoffHeader" where
  "header_of bs = (let w = (\<lambda>k. load_word False (take 4 (drop (4 * k) bs)));
     seg = (\<lambda>k. \<lparr>virtualAddr = w k, inFileAddr = w (k + 1), seg_size = w (k + 2)\<rparr>)
     in \<lparr>noffMagic = w 0, code = seg 1, initData = seg 4, uninitData = seg 7\<rparr>)"

definition SwapSegment :: "Segment \<Rightarrow> Segment" where
  "SwapSegment g = \<lparr>virtualAddr = WordToHost False (virtualAddr g),
     inFileAddr = WordToHost False (inFileAddr g), seg_size = WordToHost False (seg_size g)\<rparr>"

definition SwapHeader :: "NoffHeader \<Rightarrow> NoffHeader" where
  "SwapHeader h = \<lparr>noffMagic = WordToHost False (noffMagic h), code = SwapSegment (code h),
     initData = SwapSegment (initData h), uninitData = SwapSegment (uninitData h)\<rparr>"

subsection \<open>Copying a segment into memory\<close>

definition AddrSpace_Translate :: "AddrSpace \<Rightarrow> int \<Rightarrow> int \<Rightarrow> 'a KernelState_scheme \<Rightarrow>
    ((ExceptionType + nat) \<times> 'a KernelState_scheme) res" where
  "AddrSpace_Translate a virtAddr sz s =
     (if virtAddr < 0 then Inr (Inl AddressErrorException, s)
      else let vpn = nat virtAddr div PageSize; offset = nat virtAddr mod PageSize
        in if vpn \<ge> numPages a then Inr (Inl AddressErrorException, s)
        else (case as_pageTable a of None \<Rightarrow> Inl NullPointer | Some t \<Rightarrow>
          andThen (get_entry (InTable t vpn) s) (\<lambda>entry.
            let pageFrame = unat (physicalPage entry)
            in if \<not> valid entry then Inr (Inl PageFaultException, s)
               else if pageFrame \<ge> NumPhysPages then Inr (Inl BusErrorException, s)
               else let s1 = set_entry (InTable t vpn) (entry\<lparr>used := True\<rparr>) s;
                        physAddr = pageFrame * PageSize + offset
                    in ASSERT (int physAddr + sz \<le> int MemorySize) (Inr (Inr physAddr, s1)))))"

text \<open>
  \<open>LoadSegment\<close> ignores the result of \<open>Translate\<close>: after an exception the local variable
  \<open>physAddr\<close> keeps its old value, which at first is none (\<open>phys = None\<close>). The addresses and sizes are
  the integers of the header.
\<close>

definition load_block :: "AddrSpace \<Rightarrow> host_file \<Rightarrow> int \<Rightarrow> int \<Rightarrow> int \<Rightarrow> nat option \<times> 'a KernelState_scheme \<Rightarrow>
    (nat option \<times> 'a KernelState_scheme) res" where
  "load_block a executable addr sz pos = (\<lambda>(phys, s).
     andThen (AddrSpace_Translate a addr sz s) (\<lambda>(r, s1).
       case (case r of Inl _ \<Rightarrow> phys | Inr p \<Rightarrow> Some p) of
         None \<Rightarrow> Inl OutOfBounds
       | Some p \<Rightarrow> andThen (ReadAt executable sz pos) (\<lambda>bytes.
           if p + length bytes \<le> MemorySize
           then Inr (Some p, s1\<lparr>mainMemory := overwrite (mainMemory s1) p bytes\<rparr>)
           else Inl OutOfBounds)))"

fun load_pages :: "nat \<Rightarrow> AddrSpace \<Rightarrow> host_file \<Rightarrow> int \<times> int \<times> int \<Rightarrow> nat option \<times> 'a KernelState_scheme \<Rightarrow>
    ((int \<times> int \<times> int) \<times> nat option \<times> 'a KernelState_scheme) res" where
  "load_pages 0 a executable v ps = Inr (v, ps)"
| "load_pages (Suc n) a executable (addr, sz, pos) ps =
     andThen (load_block a executable addr (int PageSize) pos ps)
       (load_pages n a executable (addr + int PageSize, sz - int PageSize, pos + int PageSize))"

definition LoadSegment :: "AddrSpace \<Rightarrow> host_file \<Rightarrow> int \<Rightarrow> int \<Rightarrow> int \<Rightarrow> 'a kernel_action" where
  "LoadSegment a executable addr sz pos s =
     andThen
       (if addr smod int PageSize \<noteq> 0 then
          andThen (load_block a executable addr (sz smod int PageSize) pos (None, s)) (\<lambda>ps.
            let sz1 = sz - sz smod int PageSize
            in Inr ((addr + sz1 smod int PageSize, sz1, pos + sz1 smod int PageSize), ps))
        else Inr ((addr, sz, pos), (None, s)))
       (\<lambda>((addr1, sz1, pos1), ps1).
     andThen (load_pages (nat (sz1 sdiv int PageSize)) a executable (addr1, sz1, pos1) ps1)
       (\<lambda>((addr2, sz2, pos2), ps2).
       if sz2 smod int PageSize \<noteq> 0
       then andThen (load_block a executable addr2 (sz2 smod int PageSize) pos2 ps2) (\<lambda>(_, s3). Inr s3)
       else Inr (snd ps2)))"

subsection \<open>The constructor\<close>

definition page_entry :: "nat \<Rightarrow> nat \<Rightarrow> TranslationEntry" where
  "page_entry start i = \<lparr>virtualPage = of_nat i, physicalPage = of_nat (i + start), valid = True,
     readOnly = False, used = False, dirty = False\<rparr>"

definition zero_page :: "'a KernelState_scheme \<Rightarrow> TranslationEntry \<Rightarrow> 'a KernelState_scheme res" where
  "zero_page s e = (let p = unat (physicalPage e) * PageSize in
     if p + PageSize \<le> length (mainMemory s)
     then Inr (s\<lparr>mainMemory := overwrite (mainMemory s) p (replicate PageSize 0)\<rparr>) else Inl OutOfBounds)"

text \<open>The pages that the program needs: its segments and the stack, in whole pages.\<close>

definition pages_needed :: "NoffHeader \<Rightarrow> nat" where
  "pages_needed h = nat (divRoundUp
     (uint (seg_size (code h) + seg_size (initData h) + seg_size (uninitData h) + UserStackSize)) (int PageSize))"

definition load_if :: "AddrSpace \<Rightarrow> host_file \<Rightarrow> Segment \<Rightarrow> 'a kernel_action" where
  "load_if a executable g s = (if sint (seg_size g) > 0
     then LoadSegment a executable (sint (virtualAddr g)) (sint (seg_size g)) (sint (inFileAddr g)) s else Inr s)"

text \<open>
  The header is a local variable that the file may not fill (\<open>garbage\<close>); the members of the new
  object hold \<open>junk\<close> until they are set. The result is the number of the new space.
\<close>

definition new_space :: "AddrSpace \<Rightarrow> 'a KernelState_scheme \<Rightarrow> nat \<times> 'a KernelState_scheme" where
  "new_space a s = (nextSpace s, s\<lparr>spaces := (spaces s)(nextSpace s \<mapsto> a), nextSpace := Suc (nextSpace s)\<rparr>)"

definition AddrSpace_new :: "8 word list \<Rightarrow> bool \<times> nat \<Rightarrow> host_file \<Rightarrow> 'a KernelState_scheme \<Rightarrow>
    (nat \<times> 'a KernelState_scheme) res" where
  "AddrSpace_new garbage junk executable s =
     andThen (ReadAt executable (int NoffHeaderSize) 0) (\<lambda>hdr.
       let noff0 = header_of (overwrite garbage 0 hdr);
           noffH = (if noffMagic noff0 \<noteq> NOFFMAGIC \<and> WordToHost False (noffMagic noff0) = NOFFMAGIC
                    then SwapHeader noff0 else noff0);
           np = pages_needed noffH
       in ASSERT (noffMagic noffH = NOFFMAGIC)
         (andThen (MemoryAllocation (MemAll s) (MainMemMap s) np junk) (\<lambda>(found, here).
           if found then
             let t = nextTable s; a = \<lparr>SpaceFound = True, numPages = np, startHere = here, as_pageTable = Some t\<rparr>;
                 es = map (page_entry here) [0..<np]
             in andThen (foldRes Mark (MainMemMap s) (map (\<lambda>i. int (i + here)) [0..<np])) (\<lambda>frames.
                andThen (foldRes zero_page
                  (s\<lparr>MainMemMap := frames, tables := (tables s)(t \<mapsto> es), nextTable := Suc t\<rparr>) es) (\<lambda>s1.
                andThen (load_if a executable (code noffH) s1) (\<lambda>s2.
                andThen (load_if a executable (initData noffH) s2) (\<lambda>s3.
                  Inr (new_space a s3)))))
           else Inr (new_space \<lparr>SpaceFound = False, numPages = np, startHere = here, as_pageTable = None\<rparr> s))))"

subsection \<open>Registers and the page table of the machine\<close>

definition space_at :: "nat \<Rightarrow> 'a KernelState_scheme \<Rightarrow> AddrSpace res" where
  "space_at x s = (case spaces s x of None \<Rightarrow> Inl NullPointer | Some a \<Rightarrow> Inr a)"

definition InitRegisters :: "AddrSpace \<Rightarrow> 'a kernel_action" where
  "InitRegisters a s =
     andThen (foldRes (\<lambda>s i. WriteRegister (int i) 0 s) s [0..<NumTotalRegs]) (\<lambda>s1.
     andThen (WriteRegister (int PCReg) 0 s1) (\<lambda>s2.
     andThen (WriteRegister (int NextPCReg) 4 s2)
       (WriteRegister (int StackReg) (of_nat (numPages a) * of_nat PageSize - 16))))"

definition SaveState :: "AddrSpace \<Rightarrow> 'a kernel_action" where
  "SaveState a s = Inr s"

definition RestoreState :: "AddrSpace \<Rightarrow> 'a kernel_action" where
  "RestoreState a s = Inr (s\<lparr>pageTable := as_pageTable a, pageTableSize := of_nat (numPages a)\<rparr>)"

text \<open>Freeing the frames: the part of the destructor that concerns memory.\<close>

definition free_frames :: "AddrSpace \<Rightarrow> 'a kernel_action" where
  "free_frames a s = (case as_pageTable a of None \<Rightarrow> Inl NullPointer | Some t \<Rightarrow>
     (case tables s t of None \<Rightarrow> Inl NullPointer | Some es \<Rightarrow>
       andThen (foldRes (\<lambda>s i. andThen (fetch es (int i)) (zero_page s)) s [0..<numPages a]) (\<lambda>s1.
       andThen (foldRes Clear (MainMemMap s1) (map (\<lambda>i. int (i + startHere a)) [0..<numPages a])) (\<lambda>frames.
         Inr (s1\<lparr>MainMemMap := frames, tables := (tables s1)(t := None)\<rparr>)))))"

subsection \<open>Loading a segment\<close>

text \<open>
  \<open>space_ok\<close>: an address space whose page table maps its pages to consecutive existing frames.
  \<open>loaded a s s' m\<close>: from \<open>s\<close> to \<open>s'\<close> physical memory became \<open>m\<close>, and nothing else changed but use bits of the
  space's page table.
\<close>

definition space_ok :: "AddrSpace \<Rightarrow> 'a KernelState_scheme \<Rightarrow> bool" where
  "space_ok a s \<longleftrightarrow> startHere a + numPages a \<le> NumPhysPages \<and> (\<exists>t es. as_pageTable a = Some t \<and>
     tables s t = Some es \<and> length es = numPages a \<and>
     (\<forall>i<numPages a. valid (es ! i) \<and> \<not> readOnly (es ! i) \<and> physicalPage (es ! i) = of_nat (i + startHere a)))"

definition loaded :: "AddrSpace \<Rightarrow> 'a KernelState_scheme \<Rightarrow> 'a KernelState_scheme \<Rightarrow> 8 word list \<Rightarrow> bool" where
  "loaded a s s' m \<longleftrightarrow> (\<exists>t es es'. as_pageTable a = Some t \<and> tables s t = Some es \<and> length es' = length es \<and>
     (\<forall>i<length es. (es' ! i)\<lparr>used := True\<rparr> = (es ! i)\<lparr>used := True\<rparr>) \<and>
     s' = s\<lparr>mainMemory := m, tables := (tables s)(t \<mapsto> es')\<rparr>)"

abbreviation base :: "AddrSpace \<Rightarrow> nat" where
  "base a \<equiv> startHere a * PageSize"

lemma loaded_refl: "space_ok a s \<Longrightarrow> loaded a s s (mainMemory s)"
proof -
  assume "space_ok a s"
  then obtain t es where "as_pageTable a = Some t" "tables s t = Some es" by (auto simp: space_ok_def)
  then show ?thesis unfolding loaded_def
    by (intro exI [of _ t] exI [of _ es]) (simp add: fun_upd_idem)
qed

lemma loaded_write: "loaded a s s1 m \<Longrightarrow> loaded a s (s1\<lparr>mainMemory := m'\<rparr>) m'"
proof -
  assume "loaded a s s1 m"
  then obtain t es es' where "as_pageTable a = Some t" "tables s t = Some es" "length es' = length es"
     "\<forall>i<length es. (es' ! i)\<lparr>used := True\<rparr> = (es ! i)\<lparr>used := True\<rparr>"
     "s1 = s\<lparr>mainMemory := m, tables := (tables s)(t \<mapsto> es')\<rparr>" by (auto simp: loaded_def)
  then show ?thesis unfolding loaded_def
    by (intro exI [of _ t] exI [of _ es] exI [of _ es']) simp
qed

lemma loaded_memory: "loaded a s s' m \<Longrightarrow> mainMemory s' = m"
  by (auto simp: loaded_def)

lemma loaded_trans: "loaded a s s1 m1 \<Longrightarrow> loaded a s1 s2 m2 \<Longrightarrow> loaded a s s2 m2"
  by (auto simp: loaded_def)

lemma used_fields:
  "(x :: TranslationEntry)\<lparr>used := True\<rparr> = y\<lparr>used := True\<rparr> \<Longrightarrow>
   valid x = valid y \<and> readOnly x = readOnly y \<and> physicalPage x = physicalPage y \<and> virtualPage x = virtualPage y"
  by (cases x; cases y) simp

lemma loaded_space_ok: "loaded a s s' m \<Longrightarrow> space_ok a s \<Longrightarrow> space_ok a s'"
  by (auto simp: loaded_def space_ok_def dest!: used_fields) (metis used_fields)+

lemma AddrSpace_Translate_ok:
  assumes "space_ok a s" and "v < numPages a * PageSize" and "v + n \<le> numPages a * PageSize"
  shows "\<exists>s1. AddrSpace_Translate a (int v) (int n) s = Inr (Inr (base a + v), s1) \<and> loaded a s s1 (mainMemory s)"
proof -
  from assms(1) obtain t es where t: "as_pageTable a = Some t" "tables s t = Some es" "length es = numPages a"
      "startHere a + numPages a \<le> NumPhysPages"
    and e: "\<And>i. i < numPages a \<Longrightarrow> valid (es ! i) \<and> physicalPage (es ! i) = of_nat (i + startHere a)"
    by (auto simp: space_ok_def)
  define k where "k = v div PageSize"
  have k: "k < numPages a" using assms(2) by (simp add: k_def less_mult_imp_div_less)
  have f: "unat (physicalPage (es ! k)) = k + startHere a"
  proof -
    have "k + startHere a < 2 ^ LENGTH(32)" using k t(4) by (simp add: size_defs)
    then show ?thesis using e [OF k] by (simp add: unat_of_nat del: of_nat_add)
  qed
  have p: "(k + startHere a) * PageSize + v mod PageSize = base a + v"
    unfolding k_def by (simp add: algebra_simps)
  have "(startHere a + numPages a) * PageSize \<le> MemorySize"
    using t(4) by (simp add: size_defs)
  then have "base a + v + n \<le> MemorySize" using assms(3) by (simp add: add_mult_distrib)
  then have m: "int (base a + v) + int n \<le> int MemorySize"
    unfolding of_nat_add [symmetric] of_nat_le_iff .
  let ?s1 = "set_entry (InTable t k) ((es ! k)\<lparr>used := True\<rparr>) s"
  have "AddrSpace_Translate a (int v) (int n) s = Inr (Inr (base a + v), ?s1)"
    using t k e [OF k] f p m by (simp add: AddrSpace_Translate_def k_def [symmetric] Let_def get_entry_def ASSERT_def)
  moreover have "loaded a s ?s1 (mainMemory s)"
    unfolding loaded_def using t k
    by (intro exI [of _ t] exI [of _ es] exI [of _ "es[k := (es ! k)\<lparr>used := True\<rparr>]"])
      (simp add: set_entry_def nth_list_update)
  ultimately show ?thesis by blast
qed

lemma load_block_ok:
  assumes "space_ok a s" and "memory_ok s" and "v < numPages a * PageSize" and "v + n \<le> numPages a * PageSize"
  shows "\<exists>s'. load_block a f (int v) (int n) (int q) (phys, s) = Inr (Some (base a + v), s') \<and>
    loaded a s s' (overwrite (mainMemory s) (base a + v) (take n (drop q f)))"
proof -
  obtain s1 where s1: "AddrSpace_Translate a (int v) (int n) s = Inr (Inr (base a + v), s1)"
      "loaded a s s1 (mainMemory s)"
    using AddrSpace_Translate_ok [OF assms(1,3,4)] by blast
  have "(startHere a + numPages a) * PageSize \<le> MemorySize"
    using assms(1) by (simp add: space_ok_def size_defs)
  then have "base a + v + length (take n (drop q f)) \<le> MemorySize"
    using assms(4) by (simp add: add_mult_distrib)
  moreover have "mainMemory s1 = mainMemory s" using s1(2) by (rule loaded_memory)
  ultimately show ?thesis using s1 loaded_write [OF s1(2)] by (simp add: load_block_def ReadAt_def)
qed

text \<open>Consecutive blocks make up one.\<close>

lemma overwrite_consecutive:
  assumes "p + m + n \<le> length xs"
  shows "overwrite (overwrite xs p (take m ys)) (p + m) (take n (drop m ys)) = overwrite xs p (take (m + n) ys)"
proof (intro nth_equalityI)
  fix k assume "k < length (overwrite (overwrite xs p (take m ys)) (p + m) (take n (drop m ys)))"
  with assms have k: "k < length xs" by simp
  show "overwrite (overwrite xs p (take m ys)) (p + m) (take n (drop m ys)) ! k = overwrite xs p (take (m + n) ys) ! k"
    using assms k by (auto simp: nth_overwrite nth_take min_def)
qed (use assms in simp)

lemma overwrite_Nil [simp]: "p \<le> length xs \<Longrightarrow> overwrite xs p [] = xs"
  by (simp add: overwrite_def)

lemma load_pages_ok:
  assumes "space_ok a s" and "memory_ok s" and "v + n * PageSize \<le> numPages a * PageSize"
  shows "\<exists>s' phys'. load_pages n a f (int v, sz, int q) (phys, s) =
      Inr ((int (v + n * PageSize), sz - int (n * PageSize), int (q + n * PageSize)), phys', s') \<and>
    loaded a s s' (overwrite (mainMemory s) (base a + v) (take (n * PageSize) (drop q f)))"
  using assms
proof (induction n arbitrary: v sz q phys s)
  case 0
  then have "base a + v \<le> length (mainMemory s)"
    by (auto simp: memory_ok_def space_ok_def size_defs)
  with 0 show ?case by (auto intro: loaded_refl)
next
  case (Suc n)
  have lim: "base a + v + Suc n * PageSize \<le> MemorySize"
  proof -
    have "(startHere a + numPages a) * PageSize \<le> MemorySize"
      using Suc.prems(1) by (simp add: space_ok_def size_defs)
    then show ?thesis using Suc.prems(3) by (simp add: add_mult_distrib)
  qed
  have "0 < PageSize" by (simp add: size_defs)
  then have "v < numPages a * PageSize" "v + PageSize \<le> numPages a * PageSize"
    using Suc.prems(3) by (simp_all add: mult_Suc)
  then obtain s1 where s1: "load_block a f (int v) (int PageSize) (int q) (phys, s) = Inr (Some (base a + v), s1)"
      "loaded a s s1 (overwrite (mainMemory s) (base a + v) (take PageSize (drop q f)))"
    using load_block_ok [OF Suc.prems(1,2), of v PageSize f q phys] by blast
  have len: "length (mainMemory s1) = length (mainMemory s)"
    using loaded_memory [OF s1(2)] lim Suc.prems(2) by (simp add: memory_ok_def)
  have "memory_ok s1" using len Suc.prems(2) by (simp add: memory_ok_def)
  moreover have "v + PageSize + n * PageSize \<le> numPages a * PageSize"
    using Suc.prems(3) by (simp add: mult_Suc)
  ultimately obtain s2 phys2 where s2:
    "load_pages n a f (int (v + PageSize), sz - int PageSize, int (q + PageSize)) (Some (base a + v), s1) =
      Inr ((int (v + PageSize + n * PageSize), sz - int PageSize - int (n * PageSize),
            int (q + PageSize + n * PageSize)), phys2, s2)"
    "loaded a s1 s2 (overwrite (mainMemory s1) (base a + (v + PageSize)) (take (n * PageSize) (drop (q + PageSize) f)))"
    using Suc.IH [OF loaded_space_ok [OF s1(2) Suc.prems(1)], of "v + PageSize" "sz - int PageSize" "q + PageSize" "Some (base a + v)"]
    by blast
  have "overwrite (mainMemory s1) (base a + (v + PageSize)) (take (n * PageSize) (drop (q + PageSize) f)) =
      overwrite (mainMemory s) (base a + v) (take (PageSize + n * PageSize) (drop q f))"
    using overwrite_consecutive [of "base a + v" PageSize "n * PageSize" "mainMemory s" "drop q f"] lim
      Suc.prems(2) loaded_memory [OF s1(2)]
    by (simp add: memory_ok_def add.assoc add.commute [of q])
  with s1 s2 loaded_trans [OF s1(2) s2(2)] show ?case
    by (intro exI [of _ s2] exI [of _ phys2]) (simp add: algebra_simps)
qed

lemma overwrite_prefix:
  assumes "m \<le> n" and "p + n \<le> length xs"
  shows "overwrite (overwrite xs p (take m ys)) p (take n ys) = overwrite xs p (take n ys)"
proof (intro nth_equalityI)
  fix k assume "k < length (overwrite (overwrite xs p (take m ys)) p (take n ys))"
  with assms have k: "k < length xs" by simp
  show "overwrite (overwrite xs p (take m ys)) p (take n ys) ! k = overwrite xs p (take n ys) ! k"
    using assms k by (auto simp: nth_overwrite nth_take min_def)
qed (use assms in simp)

text \<open>
  How many bytes of a segment \<open>LoadSegment\<close> copies: all of them, unless the segment starts inside a
  page and is a page or more long. Then the part of a page that it has beyond whole pages is subtracted from the
  size before it is added to the addresses, and those last bytes are left out.
\<close>

definition copied :: "nat \<Rightarrow> nat \<Rightarrow> nat" where
  "copied v sz = (if v mod PageSize = 0 \<or> sz < PageSize then sz else sz - sz mod PageSize)"

lemma LoadSegment_spec:
  assumes "space_ok a s" and "memory_ok s" and "0 < sz" and "v + sz \<le> numPages a * PageSize"
  shows "\<exists>s'. LoadSegment a f (int v) (int sz) (int q) s = Inr s' \<and>
    loaded a s s' (overwrite (mainMemory s) (base a + v) (take (copied v sz) (drop q f)))"
proof -
  define r where "r = sz mod PageSize"
  define n where "n = sz div PageSize"
  have sz: "sz = n * PageSize + r" by (simp add: r_def n_def)
  have r: "r < PageSize" by (simp add: r_def size_defs)
  have sr: "int sz smod int PageSize = int r" by (simp add: smod_nonneg r_def zmod_int)
  have vr: "int v smod int PageSize = int (v mod PageSize)" by (simp add: smod_nonneg zmod_int)
  have lim: "base a + v + sz \<le> length (mainMemory s)"
  proof -
    have "(startHere a + numPages a) * PageSize \<le> MemorySize"
      using assms(1) by (simp add: space_ok_def size_defs)
    then show ?thesis using assms(2,4) by (simp add: memory_ok_def add_mult_distrib)
  qed
  have v: "v < numPages a * PageSize" using assms(3,4) by linarith
  show ?thesis
  proof (cases "v mod PageSize = 0")
    case True
    obtain s1 phys1 where s1: "load_pages n a f (int v, int sz, int q) (None, s) =
        Inr ((int (v + n * PageSize), int sz - int (n * PageSize), int (q + n * PageSize)), phys1, s1)"
      "loaded a s s1 (overwrite (mainMemory s) (base a + v) (take (n * PageSize) (drop q f)))"
      using load_pages_ok [OF assms(1,2), of v n f "int sz" q None] assms(4) sz by auto
    have rest: "int sz - int (n * PageSize) = int r" using sz by simp
    have k: "int sz sdiv int PageSize = int n" by (simp add: sdiv_nonneg n_def zdiv_int)
    have L: "LoadSegment a f (int v) (int sz) (int q) s =
        (if r \<noteq> 0 then andThen (load_block a f (int (v + n * PageSize)) (int r) (int (q + n * PageSize)) (phys1, s1))
           (\<lambda>(_, s3). Inr s3) else Inr s1)"
      using s1(1) True by (simp add: LoadSegment_def vr k rest smod_nonneg r del: of_nat_mult of_nat_add)
    show ?thesis
    proof (cases "r = 0")
      case True
      with L s1(2) sz show ?thesis by (auto simp: copied_def \<open>v mod PageSize = 0\<close>)
    next
      case False
      have mem: "memory_ok s1"
        using loaded_memory [OF s1(2)] lim assms(2) sz by (simp add: memory_ok_def)
      have "v + n * PageSize < numPages a * PageSize" "v + n * PageSize + r \<le> numPages a * PageSize"
        using assms(4) sz False by simp_all
      from load_block_ok [OF loaded_space_ok [OF s1(2) assms(1)] mem this, of f "q + n * PageSize" phys1]
      obtain s2 where s2: "load_block a f (int (v + n * PageSize)) (int r) (int (q + n * PageSize)) (phys1, s1) =
          Inr (Some (base a + (v + n * PageSize)), s2)"
        "loaded a s1 s2 (overwrite (mainMemory s1) (base a + (v + n * PageSize)) (take r (drop (q + n * PageSize) f)))"
        by blast
      have "overwrite (mainMemory s1) (base a + (v + n * PageSize)) (take r (drop (q + n * PageSize) f)) =
          overwrite (mainMemory s) (base a + v) (take (n * PageSize + r) (drop q f))"
        using overwrite_consecutive [of "base a + v" "n * PageSize" r "mainMemory s" "drop q f"] lim sz
          loaded_memory [OF s1(2)]
        by (simp add: add.assoc add.commute [of q])
      with loaded_trans [OF s1(2) s2(2)] L s2(1) False show ?thesis
        using True by (auto simp: copied_def sz)
    qed
  next
    case False
    have "v + r \<le> numPages a * PageSize" using assms(4) sz by simp
    from load_block_ok [OF assms(1,2) v this, of f q None]
    obtain s1 where s1: "load_block a f (int v) (int r) (int q) (None, s) = Inr (Some (base a + v), s1)"
      "loaded a s s1 (overwrite (mainMemory s) (base a + v) (take r (drop q f)))"
      by blast
    have mem: "memory_ok s1"
      using loaded_memory [OF s1(2)] lim assms(2) sz by (simp add: memory_ok_def)
    have "v + n * PageSize \<le> numPages a * PageSize" using assms(4) sz by simp
    from load_pages_ok [OF loaded_space_ok [OF s1(2) assms(1)] mem this, of f "int (n * PageSize)" q "Some (base a + v)"]
    obtain s2 phys2 where s2: "load_pages n a f (int v, int (n * PageSize), int q) (Some (base a + v), s1) =
        Inr ((int (v + n * PageSize), 0, int (q + n * PageSize)), phys2, s2)"
      "loaded a s1 s2 (overwrite (mainMemory s1) (base a + v) (take (n * PageSize) (drop q f)))"
      by auto
    have d: "int sz - int r = int (n * PageSize)" using sz by simp
    have k: "int (n * PageSize) sdiv int PageSize = int n" "int (n * PageSize) smod int PageSize = 0"
      by (simp_all add: sdiv_nonneg smod_nonneg size_defs)
    have L: "LoadSegment a f (int v) (int sz) (int q) s = Inr s2"
      using s1(1) s2(1) False by (simp add: LoadSegment_def vr sr d k del: of_nat_mult)
    have "overwrite (mainMemory s1) (base a + v) (take (n * PageSize) (drop q f)) =
        overwrite (mainMemory s) (base a + v) (take (copied v sz) (drop q f))"
    proof (cases "n = 0")
      case True
      then have "copied v sz = r" using sz r False by (simp add: copied_def)
      then show ?thesis using True loaded_memory [OF s1(2)] lim sz by simp
    next
      case n: False
      then have ge: "PageSize \<le> n * PageSize" by simp
      then have nl: "\<not> sz < PageSize" using sz by linarith
      then have "copied v sz = n * PageSize" using sz r False by (simp add: copied_def)
      moreover have "r \<le> n * PageSize" using ge r by linarith
      ultimately show ?thesis using overwrite_prefix [of r "n * PageSize" "base a + v" "mainMemory s" "drop q f"] lim sz
          loaded_memory [OF s1(2)] by simp
    qed
    with loaded_trans [OF s1(2) s2(2)] L show ?thesis by auto
  qed
qed

subsection \<open>Marking, clearing and zeroing frames\<close>

lemma Mark_frames:
  assumes "frames_map mp" and "h + n \<le> NumPhysPages"
  shows "\<exists>mp'. foldRes Mark mp (map (\<lambda>i. int (i + h)) [0..<n]) = Inr mp' \<and> frames_map mp' \<and>
    (\<forall>i<NumPhysPages. free_in mp' i \<longleftrightarrow> free_in mp i \<and> \<not> (h \<le> i \<and> i < h + n))"
  using assms
proof (induction n)
  case (Suc n)
  then obtain m1 where m1: "foldRes Mark mp (map (\<lambda>i. int (i + h)) [0..<n]) = Inr m1" "frames_map m1"
      "\<forall>i<NumPhysPages. free_in m1 i \<longleftrightarrow> free_in mp i \<and> \<not> (h \<le> i \<and> i < h + n)" by auto
  have "wf_bitmap m1" "n + h < nat (numBits m1)" using m1(2) Suc.prems(2) by (auto simp: frames_map_def)
  then obtain m2 where m2: "Mark m1 (int (n + h)) = Inr m2" "wf_bitmap m2" "numBits m2 = numBits m1"
      "bits m2 = (bits m1)[n + h := True]" using Mark_bits by blast
  have "free_in m2 i \<longleftrightarrow> free_in m1 i \<and> i \<noteq> n + h" if "i < NumPhysPages" for i
    using m2(4) m1(2) that Suc.prems(2)
    by (auto simp: free_in_def nth_list_update frames_map_def simp del: nth_bits)
  with m1 m2 show ?case by (auto simp: foldRes_append frames_map_def simp del: of_nat_add)
qed simp

lemma Clear_frames:
  assumes "frames_map mp" and "h + n \<le> NumPhysPages"
  shows "\<exists>mp'. foldRes Clear mp (map (\<lambda>i. int (i + h)) [0..<n]) = Inr mp' \<and> frames_map mp' \<and>
    (\<forall>i<NumPhysPages. free_in mp' i \<longleftrightarrow> free_in mp i \<or> (h \<le> i \<and> i < h + n))"
  using assms
proof (induction n)
  case (Suc n)
  then obtain m1 where m1: "foldRes Clear mp (map (\<lambda>i. int (i + h)) [0..<n]) = Inr m1" "frames_map m1"
      "\<forall>i<NumPhysPages. free_in m1 i \<longleftrightarrow> free_in mp i \<or> (h \<le> i \<and> i < h + n)" by auto
  have "wf_bitmap m1" "n + h < nat (numBits m1)" using m1(2) Suc.prems(2) by (auto simp: frames_map_def)
  then obtain m2 where m2: "Clear m1 (int (n + h)) = Inr m2" "wf_bitmap m2" "numBits m2 = numBits m1"
      "bits m2 = (bits m1)[n + h := False]" using Clear_bits by blast
  have "free_in m2 i \<longleftrightarrow> free_in m1 i \<or> i = n + h" if "i < NumPhysPages" for i
    using m2(4) m1(2) that Suc.prems(2)
    by (auto simp: free_in_def nth_list_update frames_map_def simp del: nth_bits)
  with m1 m2 show ?case by (auto simp: foldRes_append frames_map_def simp del: of_nat_add)
qed auto

lemma zero_pages:
  assumes "memory_ok s" and "h + n \<le> NumPhysPages"
    and "\<And>i. i < n \<Longrightarrow> physicalPage (es i) = of_nat (i + h)"
  shows "foldRes zero_page s (map es [0..<n]) =
    Inr (s\<lparr>mainMemory := overwrite (mainMemory s) (h * PageSize) (replicate (n * PageSize) 0)\<rparr>)"
  using assms
proof (induction n)
  case 0
  then show ?case by (simp add: memory_ok_def size_defs)
next
  case (Suc n)
  let ?m = "overwrite (mainMemory s) (h * PageSize) (replicate (n * PageSize) 0)"
  have len: "h * PageSize + n * PageSize + PageSize \<le> length (mainMemory s)"
    using Suc.prems(1,2) by (simp add: memory_ok_def size_defs)
  have "n + h < 2 ^ LENGTH(32)" using Suc.prems(2) by (simp add: size_defs)
  then have p: "unat (physicalPage (es n)) = n + h"
    using Suc.prems(3) [of n] by (simp add: unat_of_nat del: of_nat_add)
  have "overwrite ?m ((n + h) * PageSize) (replicate PageSize 0) =
      overwrite (mainMemory s) (h * PageSize) (replicate (Suc n * PageSize) 0)"
    using overwrite_consecutive [of "h * PageSize" "n * PageSize" PageSize "mainMemory s"
        "replicate (n * PageSize + PageSize) (0 :: 8 word)"] len
    by (simp add: add_mult_distrib add.commute)
  moreover have "(n + h) * PageSize + PageSize \<le> length ?m" using len by (simp add: add_mult_distrib)
  ultimately have "zero_page (s\<lparr>mainMemory := ?m\<rparr>) (es n) =
      Inr (s\<lparr>mainMemory := overwrite (mainMemory s) (h * PageSize) (replicate (Suc n * PageSize) 0)\<rparr>)"
    by (simp only: zero_page_def p Let_def) simp
  with Suc show ?case by (simp add: foldRes_append)
qed

lemma overwrite_window:
  assumes "v + length xs \<le> n" and "b + n \<le> length m"
  shows "take n (drop b (overwrite m (b + v) xs)) = overwrite (take n (drop b m)) v xs"
  using assms by (intro nth_equalityI) (auto simp: nth_overwrite)

subsection \<open>What the constructor builds\<close>

text \<open>
  \<open>segment_fits\<close>: a segment that is loaded lies inside the address space, and its place in the file is not
  negative. \<open>place\<close> is the effect of loading it on the image of the address space.
\<close>

definition segment_fits :: "nat \<Rightarrow> Segment \<Rightarrow> bool" where
  "segment_fits np g \<longleftrightarrow> (0 < sint (seg_size g) \<longrightarrow> 0 \<le> sint (virtualAddr g) \<and> 0 \<le> sint (inFileAddr g) \<and>
     sint (virtualAddr g) + sint (seg_size g) \<le> int (np * PageSize))"

definition place :: "host_file \<Rightarrow> Segment \<Rightarrow> 8 word list \<Rightarrow> 8 word list" where
  "place executable g img = (if 0 < sint (seg_size g)
     then overwrite img (nat (sint (virtualAddr g)))
       (take (copied (nat (sint (virtualAddr g))) (nat (sint (seg_size g)))) (drop (nat (sint (inFileAddr g))) executable))
     else img)"

definition program_image :: "host_file \<Rightarrow> NoffHeader \<Rightarrow> 8 word list" where
  "program_image executable h = place executable (initData h) (place executable (code h)
     (replicate (pages_needed h * PageSize) 0))"

definition image_of :: "AddrSpace \<Rightarrow> 'a KernelState_scheme \<Rightarrow> 8 word list" where
  "image_of a s = take (numPages a * PageSize) (drop (base a) (mainMemory s))"

text \<open>\<open>only_image a s s'\<close>: physical memory outside the frames of \<open>a\<close> is unchanged.\<close>

definition only_image :: "AddrSpace \<Rightarrow> 'a KernelState_scheme \<Rightarrow> 'a KernelState_scheme \<Rightarrow> bool" where
  "only_image a s s' \<longleftrightarrow> length (mainMemory s') = length (mainMemory s) \<and>
     (\<forall>k<length (mainMemory s). k < base a \<or> base a + numPages a * PageSize \<le> k \<longrightarrow>
        mainMemory s' ! k = mainMemory s ! k)"

lemma space_room: "space_ok a s \<Longrightarrow> memory_ok s \<Longrightarrow> base a + numPages a * PageSize \<le> length (mainMemory s)"
  by (auto simp: space_ok_def memory_ok_def size_defs)

lemma copied_le: "copied v sz \<le> sz"
  by (simp add: copied_def)

lemma load_if_ok:
  assumes "space_ok a s" and "memory_ok s" and "segment_fits (numPages a) g"
  shows "\<exists>s'. load_if a executable g s = Inr s' \<and> image_of a s' = place executable g (image_of a s) \<and>
    only_image a s s' \<and> loaded a s s' (mainMemory s')"
proof (cases "0 < sint (seg_size g)")
  case False
  then show ?thesis using loaded_refl [OF assms(1)] by (simp add: load_if_def place_def only_image_def)
next
  case True
  define v n q where "v = nat (sint (virtualAddr g))" and "n = nat (sint (seg_size g))" and "q = nat (sint (inFileAddr g))"
  have i: "sint (virtualAddr g) = int v" "sint (seg_size g) = int n" "sint (inFileAddr g) = int q"
    using True assms(3) by (auto simp: segment_fits_def v_def n_def q_def)
  have n: "0 < n" "v + n \<le> numPages a * PageSize"
    using True assms(3) unfolding segment_fits_def i by (simp, metis of_nat_add of_nat_le_iff of_nat_0_less_iff)
  let ?x = "take (copied v n) (drop q executable)"
  obtain s' where s': "LoadSegment a executable (int v) (int n) (int q) s = Inr s'"
      "loaded a s s' (overwrite (mainMemory s) (base a + v) ?x)"
    using LoadSegment_spec [OF assms(1,2) n] by blast
  note m = loaded_memory [OF s'(2)]
  have x: "v + length ?x \<le> numPages a * PageSize" using n(2) copied_le [of v n] by (simp add: min_def)
  note room = space_room [OF assms(1,2)]
  have "image_of a s' = overwrite (image_of a s) v ?x"
    unfolding image_of_def m by (rule overwrite_window [OF x room])
  moreover have "only_image a s s'"
    unfolding only_image_def m using x room by (auto simp: nth_overwrite)
  ultimately show ?thesis using s' True m
    by (simp add: load_if_def place_def i)
qed

lemma only_image_trans: "only_image a s s1 \<Longrightarrow> only_image a s1 s2 \<Longrightarrow> only_image a s s2"
  by (auto simp: only_image_def)

lemma loaded_memory_ok: "only_image a s s' \<Longrightarrow> memory_ok s \<Longrightarrow> memory_ok s'"
  by (simp add: only_image_def memory_ok_def)

lemma WordToHost_id [simp]: "WordToHost False w = w"
  by (simp add: WordToHost_def)

lemma SwapHeader_id [simp]: "SwapHeader h = h"
  by (simp add: SwapHeader_def SwapSegment_def)

text \<open>The state after the constructor has mapped, marked and zeroed the frames.\<close>

definition fresh_space :: "nat \<Rightarrow> nat \<Rightarrow> 'a KernelState_scheme \<Rightarrow> AddrSpace" where
  "fresh_space np here s = \<lparr>SpaceFound = True, numPages = np, startHere = here, as_pageTable = Some (nextTable s)\<rparr>"

definition mapped_frames :: "nat \<Rightarrow> nat \<Rightarrow> BitMap \<Rightarrow> 'a KernelState_scheme \<Rightarrow> 'a KernelState_scheme" where
  "mapped_frames np here frames s = s\<lparr>MainMemMap := frames,
     tables := (tables s)(nextTable s \<mapsto> map (page_entry here) [0..<np]), nextTable := Suc (nextTable s),
     mainMemory := overwrite (mainMemory s) (here * PageSize) (replicate (np * PageSize) 0)\<rparr>"

lemma mapped_frames_ok:
  assumes "memory_ok s" and "here + np \<le> NumPhysPages"
  shows "space_ok (fresh_space np here s) (mapped_frames np here frames s)"
    and "memory_ok (mapped_frames np here frames s)"
    and "image_of (fresh_space np here s) (mapped_frames np here frames s) = replicate (np * PageSize) 0"
    and "only_image (fresh_space np here s) s (mapped_frames np here frames s)"
proof -
  have room: "here * PageSize + np * PageSize \<le> length (mainMemory s)"
    using assms by (simp add: memory_ok_def size_defs)
  show "space_ok (fresh_space np here s) (mapped_frames np here frames s)"
    using assms(2) by (simp add: space_ok_def fresh_space_def mapped_frames_def page_entry_def)
  show "memory_ok (mapped_frames np here frames s)"
    using assms(1) room by (simp add: memory_ok_def mapped_frames_def)
  show "image_of (fresh_space np here s) (mapped_frames np here frames s) = replicate (np * PageSize) 0"
    using room by (simp add: image_of_def fresh_space_def mapped_frames_def)
  show "only_image (fresh_space np here s) s (mapped_frames np here frames s)"
    using room by (auto simp: only_image_def fresh_space_def mapped_frames_def nth_overwrite)
qed

lemma build_space:
  assumes "frames_map (MainMemMap s)" and "memory_ok s" and "free_run (free_in (MainMemMap s)) here np"
  shows "\<exists>frames. foldRes Mark (MainMemMap s) (map (\<lambda>i. int (i + here)) [0..<np]) = Inr frames \<and>
    frames_map frames \<and> (\<forall>i<NumPhysPages. free_in frames i \<longleftrightarrow> free_in (MainMemMap s) i \<and> \<not> (here \<le> i \<and> i < here + np)) \<and>
    foldRes zero_page (s\<lparr>MainMemMap := frames, tables := (tables s)(nextTable s \<mapsto> map (page_entry here) [0..<np]),
       nextTable := Suc (nextTable s)\<rparr>) (map (page_entry here) [0..<np]) = Inr (mapped_frames np here frames s)"
proof -
  have lim: "here + np \<le> NumPhysPages" using assms(3) by (simp add: free_run_def)
  obtain frames where f: "foldRes Mark (MainMemMap s) (map (\<lambda>i. int (i + here)) [0..<np]) = Inr frames"
    "frames_map frames" "\<forall>i<NumPhysPages. free_in frames i \<longleftrightarrow> free_in (MainMemMap s) i \<and> \<not> (here \<le> i \<and> i < here + np)"
    using Mark_frames [OF assms(1) lim] by blast
  have "memory_ok (s\<lparr>MainMemMap := frames, tables := (tables s)(nextTable s \<mapsto> map (page_entry here) [0..<np]),
       nextTable := Suc (nextTable s)\<rparr>)" using assms(2) by (simp add: memory_ok_def)
  from zero_pages [OF this lim, of "page_entry here"] f show ?thesis
    by (intro exI [of _ frames]) (simp add: mapped_frames_def page_entry_def)
qed

lemma header_of_append: "length bs = NoffHeaderSize \<Longrightarrow> header_of (bs @ rest) = header_of bs"
  by (simp add: header_of_def Let_def NoffHeaderSize_def)

text \<open>
  \<open>loadable\<close>: a file with a complete NOFF header whose segments fit into the address space that the header
  asks for.
\<close>

definition program_header :: "host_file \<Rightarrow> NoffHeader" where
  "program_header executable = header_of (take NoffHeaderSize executable)"

definition loadable :: "host_file \<Rightarrow> bool" where
  "loadable executable \<longleftrightarrow> NoffHeaderSize \<le> length executable \<and>
     (let h = program_header executable in noffMagic h = NOFFMAGIC \<and> 0 < pages_needed h \<and>
        segment_fits (pages_needed h) (code h) \<and> segment_fits (pages_needed h) (initData h))"

lemma AddrSpace_new_spec:
  fixes s :: "'a KernelState_scheme"
  assumes "frames_map (MainMemMap s)" and "memory_ok s" and "loadable executable"
    and "fst junk \<longrightarrow> MemAll s \<in> {0, 1, 2}"
  defines "h \<equiv> program_header executable"
  shows "(\<exists>a. \<not> SpaceFound a \<and> AddrSpace_new garbage junk executable s = Inr (new_space a s)) \<or>
    (\<exists>here frames s2. let a = fresh_space (pages_needed h) here s; s1 = mapped_frames (pages_needed h) here frames s in
       AddrSpace_new garbage junk executable s = Inr (new_space a s2) \<and>
       free_run (free_in (MainMemMap s)) here (pages_needed h) \<and> frames_map frames \<and>
       (\<forall>i<NumPhysPages. free_in frames i \<longleftrightarrow> free_in (MainMemMap s) i \<and> \<not> (here \<le> i \<and> i < here + pages_needed h)) \<and>
       loaded a s1 s2 (mainMemory s2) \<and> only_image a s s2 \<and> image_of a s2 = program_image executable h)"
proof -
  have hdr: "header_of (overwrite garbage 0 (take NoffHeaderSize executable)) = h"
    using assms(3) header_of_append [of "take NoffHeaderSize executable"]
    by (simp add: loadable_def Let_def overwrite_def h_def program_header_def)
  have ok: "noffMagic h = NOFFMAGIC" "0 < pages_needed h" "segment_fits (pages_needed h) (code h)"
      "segment_fits (pages_needed h) (initData h)"
    using assms(3) by (simp_all add: loadable_def Let_def h_def)
  obtain found here where m: "MemoryAllocation (MemAll s) (MainMemMap s) (pages_needed h) junk = Inr (found, here)"
      "found \<longrightarrow> free_run (free_in (MainMemMap s)) here (pages_needed h)"
    using MemoryAllocation_free [OF assms(1) ok(2) assms(4)] by blast
  show ?thesis
  proof (cases found)
    case False
    then have "AddrSpace_new garbage junk executable s = Inr (new_space
        \<lparr>SpaceFound = False, numPages = pages_needed h, startHere = here, as_pageTable = None\<rparr> s)"
      using hdr ok(1) m(1) by (simp add: AddrSpace_new_def ReadAt_def Let_def)
    then show ?thesis
      by (intro disjI1 exI [of _ "\<lparr>SpaceFound = False, numPages = pages_needed h, startHere = here, as_pageTable = None\<rparr>"]) simp
  next
    case True
    define np where "np = pages_needed h"
    have run: "free_run (free_in (MainMemMap s)) here np" using m(2) True by (simp add: np_def)
    obtain frames where f: "foldRes Mark (MainMemMap s) (map (\<lambda>i. int (i + here)) [0..<np]) = Inr frames"
      "frames_map frames"
      "\<forall>i<NumPhysPages. free_in frames i \<longleftrightarrow> free_in (MainMemMap s) i \<and> \<not> (here \<le> i \<and> i < here + np)"
      "foldRes zero_page (s\<lparr>MainMemMap := frames, tables := (tables s)(nextTable s \<mapsto> map (page_entry here) [0..<np]),
         nextTable := Suc (nextTable s)\<rparr>) (map (page_entry here) [0..<np]) = Inr (mapped_frames np here frames s)"
      using build_space [OF assms(1,2) run] by blast
    let ?a = "fresh_space np here s" and ?s1 = "mapped_frames np here frames s"
    note s1 = mapped_frames_ok [OF assms(2), of here np frames]
    have lim: "here + np \<le> NumPhysPages" using run by (simp add: free_run_def)
    have fits: "segment_fits (numPages ?a) (code h)" "segment_fits (numPages ?a) (initData h)"
      using ok(3,4) by (simp_all add: fresh_space_def np_def)
    obtain s2 where s2: "load_if ?a executable (code h) ?s1 = Inr s2"
        "image_of ?a s2 = place executable (code h) (replicate (np * PageSize) 0)"
        "only_image ?a ?s1 s2" "loaded ?a ?s1 s2 (mainMemory s2)"
      using load_if_ok [OF s1(1,2) [OF lim] fits(1), of executable] unfolding s1(3) [OF lim] by blast
    have ok2: "space_ok ?a s2" "memory_ok s2"
      using loaded_space_ok [OF s2(4) s1(1) [OF lim]] loaded_memory_ok [OF s2(3) s1(2) [OF lim]] .
    obtain s3 where s3: "load_if ?a executable (initData h) s2 = Inr s3"
        "image_of ?a s3 = place executable (initData h) (image_of ?a s2)"
        "only_image ?a s2 s3" "loaded ?a s2 s3 (mainMemory s3)"
      using load_if_ok [OF ok2 fits(2), of executable] by blast
    have "AddrSpace_new garbage junk executable s = Inr (new_space ?a s3)"
      using hdr ok(1) m(1) True f(1,4) s2(1) s3(1)
      by (simp add: AddrSpace_new_def ReadAt_def Let_def np_def [symmetric] fresh_space_def [symmetric] del: of_nat_add)
    moreover have "image_of ?a s3 = program_image executable h"
      using s3(2) s2(2) by (simp add: program_image_def np_def)
    moreover have "only_image ?a s s3" "loaded ?a ?s1 s3 (mainMemory s3)"
      using only_image_trans [OF s1(4) [OF lim] only_image_trans [OF s2(3) s3(3)]] loaded_trans [OF s2(4) s3(4)] .
    ultimately show ?thesis
      using run f(2,3) unfolding np_def [symmetric] Let_def
      by (intro disjI2 exI [of _ here] exI [of _ frames] exI [of _ s3]) simp
  qed
qed

subsection \<open>Isolation\<close>

text \<open>
  \<open>spaces_ok\<close>: every live address space (one whose allocation succeeded) has a page table that maps
  it to frames which exist and are marked, and no two of them share a frame or a page table.
\<close>

definition live :: "'a KernelState_scheme \<Rightarrow> nat \<Rightarrow> AddrSpace \<Rightarrow> bool" where
  "live s x a \<longleftrightarrow> spaces s x = Some a \<and> SpaceFound a"

definition in_frames :: "AddrSpace \<Rightarrow> nat \<Rightarrow> bool" where
  "in_frames a i \<longleftrightarrow> startHere a \<le> i \<and> i < startHere a + numPages a"

definition apart :: "AddrSpace \<Rightarrow> AddrSpace \<Rightarrow> bool" where
  "apart a b \<longleftrightarrow> as_pageTable a \<noteq> as_pageTable b \<and> (\<forall>i. \<not> (in_frames a i \<and> in_frames b i))"

definition housed :: "AddrSpace \<Rightarrow> 'a KernelState_scheme \<Rightarrow> bool" where
  "housed a s \<longleftrightarrow> space_ok a s \<and> (\<forall>t. as_pageTable a = Some t \<longrightarrow> t < nextTable s) \<and>
     (\<forall>i. in_frames a i \<longrightarrow> \<not> free_in (MainMemMap s) i)"

definition spaces_ok :: "'a KernelState_scheme \<Rightarrow> bool" where
  "spaces_ok s \<longleftrightarrow> frames_map (MainMemMap s) \<and> memory_ok s \<and> (\<forall>x. spaces s x \<noteq> None \<longrightarrow> x < nextSpace s) \<and>
     (\<forall>x a. live s x a \<longrightarrow> housed a s) \<and>
     (\<forall>x y a b. live s x a \<longrightarrow> live s y b \<longrightarrow> x \<noteq> y \<longrightarrow> apart a b)"

lemma apart_sym: "apart a b \<Longrightarrow> apart b a"
  by (auto simp: apart_def)

text \<open>Memory that belongs to one space is outside the frames of another.\<close>

lemma apart_outside:
  assumes "apart a b" and "k < numPages b * PageSize"
  shows "base b + k < base a \<or> base a + numPages a * PageSize \<le> base b + k"
proof (rule ccontr)
  assume c: "\<not> (base b + k < base a \<or> base a + numPages a * PageSize \<le> base b + k)"
  let ?f = "(base b + k) div PageSize"
  have "?f = startHere b + k div PageSize" by (simp add: size_defs)
  then have "in_frames b ?f" using assms(2) by (simp add: in_frames_def less_mult_imp_div_less)
  moreover have "startHere a \<le> ?f" using c div_le_mono [of "base a" "base b + k" PageSize] by (simp add: size_defs)
  moreover have "?f < startHere a + numPages a"
  proof -
    have "base b + k < (startHere a + numPages a) * PageSize" using c by (simp add: add_mult_distrib)
    then show ?thesis by (rule less_mult_imp_div_less)
  qed
  ultimately show False using assms(1) by (auto simp: apart_def in_frames_def)
qed

lemma live_room:
  assumes "spaces_ok s" and "live s y b"
  shows "base b + numPages b * PageSize \<le> length (mainMemory s)"
proof -
  have "space_ok b s" "memory_ok s" using assms by (auto simp: spaces_ok_def housed_def)
  then show ?thesis by (rule space_room)
qed

lemma image_unchanged:
  assumes "apart a b" and "only_image a s s'" and "base b + numPages b * PageSize \<le> length (mainMemory s)"
  shows "image_of b s' = image_of b s"
proof (rule nth_equalityI)
  show "length (image_of b s') = length (image_of b s)"
    using assms(2) by (simp add: image_of_def only_image_def)
  fix k assume "k < length (image_of b s')"
  then have k: "k < numPages b * PageSize" by (simp add: image_of_def)
  with assms(3) have "base b + k < length (mainMemory s)" by simp
  with apart_outside [OF assms(1) k] assms(2) have "mainMemory s' ! (base b + k) = mainMemory s ! (base b + k)"
    by (auto simp: only_image_def)
  then show "image_of b s' ! k = image_of b s ! k"
    using k assms(2,3) by (simp add: image_of_def only_image_def)
qed

lemma space_ok_tables:
  "space_ok a s \<Longrightarrow> (\<And>t. as_pageTable a = Some t \<Longrightarrow> tables s' t = tables s t) \<Longrightarrow> space_ok a s'"
  by (auto simp: space_ok_def)

lemma fresh_isolated:
  fixes s :: "'a KernelState_scheme"
  assumes ok: "spaces_ok s" and run: "free_run (free_in (MainMemMap s)) here np" and "frames_map frames"
    and fr: "\<forall>i<NumPhysPages. free_in frames i \<longleftrightarrow> free_in (MainMemMap s) i \<and> \<not> (here \<le> i \<and> i < here + np)"
  defines "a \<equiv> fresh_space np here s" and "s1 \<equiv> mapped_frames np here frames s"
  assumes ld: "loaded a s1 s2 (mainMemory s2)" and oi: "only_image a s s2"
  shows "spaces_ok (snd (new_space a s2))"
    and "live s y b \<Longrightarrow> live (snd (new_space a s2)) y b \<and> image_of b s2 = image_of b s"
proof -
  have lim: "here + np \<le> NumPhysPages" using run by (simp add: free_run_def)
  have mem: "memory_ok s" using ok by (simp add: spaces_ok_def)
  have fld: "MainMemMap s2 = frames" "nextTable s2 = Suc (nextTable s)" "spaces s2 = spaces s"
      "nextSpace s2 = nextSpace s" "\<And>t. t \<noteq> nextTable s \<Longrightarrow> tables s2 t = tables s t"
  proof -
    obtain m es' where e: "s2 = s1\<lparr>mainMemory := m, tables := (tables s1)(nextTable s \<mapsto> es')\<rparr>"
      using ld by (auto simp: loaded_def a_def fresh_space_def)
    show "MainMemMap s2 = frames" "nextTable s2 = Suc (nextTable s)" "spaces s2 = spaces s"
      "nextSpace s2 = nextSpace s" "\<And>t. t \<noteq> nextTable s \<Longrightarrow> tables s2 t = tables s t"
      by (simp_all add: e s1_def mapped_frames_def)
  qed
  have sa: "space_ok a s2" "numPages a = np" "startHere a = here" "as_pageTable a = Some (nextTable s)" "SpaceFound a"
    using loaded_space_ok [OF ld] mapped_frames_ok(1) [OF mem lim]
    by (simp_all add: a_def s1_def fresh_space_def)
  have old: "housed b s" "apart a b" if l: "live s y b" for y b
  proof -
    show h: "housed b s" using ok l by (auto simp: spaces_ok_def)
    have "\<not> (in_frames a i \<and> in_frames b i)" for i
    proof
      assume i: "in_frames a i \<and> in_frames b i"
      then have "i - here < np" "here \<le> i" using sa(2,3) by (auto simp: in_frames_def)
      then have "free_in (MainMemMap s) (here + (i - here))" using run unfolding free_run_def by blast
      with i h \<open>here \<le> i\<close> show False by (simp add: housed_def)
    qed
    moreover have "as_pageTable a \<noteq> as_pageTable b" using h sa(4) by (metis housed_def less_irrefl)
    ultimately show "apart a b" by (simp add: apart_def)
  qed
  have housed2: "housed b (snd (new_space a s2))" if l: "live s y b" for y b
  proof -
    have h: "housed b s" using old(1) [OF l] .
    have "space_ok b s" using h by (simp add: housed_def)
    then have "space_ok b (snd (new_space a s2))"
      by (rule space_ok_tables) (use h fld(5) in \<open>auto simp: housed_def new_space_def\<close>)
    moreover have "\<not> free_in frames i" if "in_frames b i" for i
      using that h fr by (auto simp: housed_def in_frames_def space_ok_def)
    ultimately show ?thesis using h fld by (auto simp: housed_def new_space_def less_Suc_eq)
  qed
  have housed_a: "housed a (snd (new_space a s2))"
  proof -
    have "\<not> free_in frames i" if "in_frames a i" for i
      using that fr lim sa(2,3) by (auto simp: in_frames_def)
    moreover have "space_ok a (snd (new_space a s2))"
      using sa(1) by (rule space_ok_tables) (simp add: new_space_def)
    ultimately show ?thesis using fld sa(4) by (simp add: housed_def new_space_def)
  qed
  have new_live: "live (snd (new_space a s2)) x c \<longleftrightarrow> (if x = nextSpace s then c = a else live s x c)" for x c
    using fld sa(5) by (auto simp: live_def new_space_def)
  have nx: "x \<noteq> nextSpace s" if "live s x c" for x c
    using ok that by (auto simp: spaces_ok_def live_def)
  show "spaces_ok (snd (new_space a s2))"
    unfolding spaces_ok_def new_live
  proof (intro conjI allI impI)
    show "frames_map (MainMemMap (snd (new_space a s2)))" using fld(1) assms(3) by (simp add: new_space_def)
    show "memory_ok (snd (new_space a s2))" using oi mem by (simp add: only_image_def memory_ok_def new_space_def)
    show "x < nextSpace (snd (new_space a s2))" if "spaces (snd (new_space a s2)) x \<noteq> None" for x
      using that ok fld by (auto simp: new_space_def spaces_ok_def less_Suc_eq split: if_splits)
    show "housed c (snd (new_space a s2))" if "if x = nextSpace s then c = a else live s x c" for x c
      using that housed2 housed_a by (auto split: if_splits)
    show "apart c d" if "if x = nextSpace s then c = a else live s x c"
      "if y = nextSpace s then d = a else live s y d" "x \<noteq> y" for x y c d
      using that old(2) apart_sym ok by (auto simp: spaces_ok_def split: if_splits)
  qed
  show "live (snd (new_space a s2)) y b \<and> image_of b s2 = image_of b s" if l: "live s y b"
  proof
    show "live (snd (new_space a s2)) y b" using l nx [OF l] by (simp add: new_live)
    have "base b + numPages b * PageSize \<le> length (mainMemory s)"
      using old(1) [OF l] mem space_room by (auto simp: housed_def)
    with image_unchanged [OF old(2) [OF l] oi] show "image_of b s2 = image_of b s" .
  qed
qed

lemma dead_space_ok:
  assumes "spaces_ok s" and "\<not> SpaceFound a"
  shows "spaces_ok (snd (new_space a s))" and "live (snd (new_space a s)) y b \<longleftrightarrow> live s y b"
proof -
  have l: "live (snd (new_space a s)) y b \<longleftrightarrow> live s y b" for y b
    using assms by (auto simp: live_def new_space_def spaces_ok_def)
  have h: "housed b (snd (new_space a s)) = housed b s" for b
    by (simp add: housed_def space_ok_def new_space_def)
  show "spaces_ok (snd (new_space a s))"
    using assms(1) unfolding spaces_ok_def l h
    by (auto simp: new_space_def memory_ok_def less_Suc_eq split: if_splits)
  show "live (snd (new_space a s)) y b \<longleftrightarrow> live s y b" by (rule l)
qed

lemma AddrSpace_new_isolated_spec:
  assumes "spaces_ok s" and "loadable executable" and "fst junk \<longrightarrow> MemAll s \<in> {0, 1, 2}"
  shows "\<exists>x s'. AddrSpace_new garbage junk executable s = Inr (x, s') \<and> spaces_ok s' \<and>
    (\<forall>y b. live s y b \<longrightarrow> live s' y b \<and> image_of b s' = image_of b s) \<and>
    (\<forall>a. live s' x a \<longrightarrow> image_of a s' = program_image executable (program_header executable))"
proof -
  have ok: "frames_map (MainMemMap s)" "memory_ok s" using assms(1) by (simp_all add: spaces_ok_def)
  let ?h = "program_header executable"
  from AddrSpace_new_spec [OF ok assms(2,3), of garbage] show ?thesis
  proof (elim disjE exE conjE)
    fix a assume a: "\<not> SpaceFound a" "AddrSpace_new garbage junk executable s = Inr (new_space a s)"
    have im: "image_of b (snd (new_space a s)) = image_of b s" for b
      by (simp add: image_of_def new_space_def)
    have "\<not> live (snd (new_space a s)) (fst (new_space a s)) b" for b
      using a(1) by (auto simp: live_def new_space_def)
    with a(2) dead_space_ok [OF assms(1) a(1)] show ?thesis
      by (intro exI [of _ "fst (new_space a s)"] exI [of _ "snd (new_space a s)"]) (simp add: im)
  next
    fix here frames s2
    let ?a = "fresh_space (pages_needed ?h) here s"
    assume "let a = ?a; s1 = mapped_frames (pages_needed ?h) here frames s in
       AddrSpace_new garbage junk executable s = Inr (new_space a s2) \<and>
       free_run (free_in (MainMemMap s)) here (pages_needed ?h) \<and> frames_map frames \<and>
       (\<forall>i<NumPhysPages. free_in frames i \<longleftrightarrow> free_in (MainMemMap s) i \<and> \<not> (here \<le> i \<and> i < here + pages_needed ?h)) \<and>
       loaded a s1 s2 (mainMemory s2) \<and> only_image a s s2 \<and> image_of a s2 = program_image executable ?h"
    then have r: "AddrSpace_new garbage junk executable s = Inr (new_space ?a s2)"
      "image_of ?a s2 = program_image executable ?h"
      and f: "free_run (free_in (MainMemMap s)) here (pages_needed ?h)" "frames_map frames"
       "\<forall>i<NumPhysPages. free_in frames i \<longleftrightarrow> free_in (MainMemMap s) i \<and> \<not> (here \<le> i \<and> i < here + pages_needed ?h)"
       "loaded ?a (mapped_frames (pages_needed ?h) here frames s) s2 (mainMemory s2)" "only_image ?a s s2"
      by (auto simp: Let_def)
    have im: "image_of b (snd (new_space ?a s2)) = image_of b s2" for b
      by (simp add: image_of_def new_space_def)
    show ?thesis
    proof (intro exI conjI allI impI)
      show "AddrSpace_new garbage junk executable s = Inr (fst (new_space ?a s2), snd (new_space ?a s2))"
        using r(1) by simp
      show "spaces_ok (snd (new_space ?a s2))" by (rule fresh_isolated(1) [OF assms(1) f])
      fix y b assume "live s y b"
      from fresh_isolated(2) [OF assms(1) f this]
      show "live (snd (new_space ?a s2)) y b" "image_of b (snd (new_space ?a s2)) = image_of b s"
        unfolding im by simp_all
    next
      fix a assume "live (snd (new_space ?a s2)) (fst (new_space ?a s2)) a"
      then have "a = ?a" by (simp add: live_def new_space_def)
      with r(2) show "image_of a (snd (new_space ?a s2)) = program_image executable ?h" by (simp add: im)
    qed
  qed
qed


text \<open>
  A segment that starts inside a page and is a page or more long loses its tail: the bytes that
  it has beyond whole pages are not copied, because the code subtracts them from the size before it adds the size's
  remainder to the addresses. They keep the value memory had.
\<close>

theorem LoadSegment_loses_tail:
  assumes "space_ok a s" and "memory_ok s" and "v + sz \<le> numPages a * PageSize"
    and "v mod PageSize \<noteq> 0" and "PageSize \<le> sz"
  shows "\<exists>s'. LoadSegment a f (int v) (int sz) (int q) s = Inr s' \<and>
    (\<forall>k. sz - sz mod PageSize \<le> k \<longrightarrow> k < sz \<longrightarrow> mainMemory s' ! (base a + v + k) = mainMemory s ! (base a + v + k))"
proof -
  have "0 < sz" using assms(5) by (simp add: size_defs)
  from LoadSegment_spec [OF assms(1,2) this assms(3)] obtain s' where
    s': "LoadSegment a f (int v) (int sz) (int q) s = Inr s'"
      "loaded a s s' (overwrite (mainMemory s) (base a + v) (take (copied v sz) (drop q f)))" by blast
  have c: "copied v sz = sz - sz mod PageSize" using assms(4,5) by (simp add: copied_def)
  have room: "base a + v + sz \<le> length (mainMemory s)"
    using space_room [OF assms(1,2)] assms(3) by simp
  show ?thesis
    using s'(1) loaded_memory [OF s'(2)] room c by (auto simp: nth_overwrite)
qed

text \<open>
  C5. User programs are confined. When the machine runs on the page table of a live address space, a
  store by the program, whatever its address and size, changes no byte of another live space.
\<close>

theorem user_store_confined:
  assumes "spaces_ok s" and "live s x a" and "live s y b" and "x \<noteq> y" and "tlb s = None" and "sz \<in> {1, 2, 4}"
    and "RestoreState a s = Inr s1" and "WriteMem eh va sz v s1 = Inr (True, s2)"
  shows "image_of b s2 = image_of b s"
proof -
  have h: "housed a s" "housed b s" "apart a b" "memory_ok s" using assms(1-4) by (auto simp: spaces_ok_def)
  obtain t es where t: "as_pageTable a = Some t" "tables s t = Some es" "length es = numPages a"
      "startHere a + numPages a \<le> NumPhysPages"
    and e: "\<And>i. i < numPages a \<Longrightarrow> physicalPage (es ! i) = of_nat (i + startHere a)"
    using h(1) by (auto simp: housed_def space_ok_def)
  have s1: "pageTable s1 = Some t" "unat (pageTableSize s1) = numPages a" "tables s1 t = Some es" "tlb s1 = None"
      "mainMemory s1 = mainMemory s"
    using assms(5,7) t by (auto simp: RestoreState_def unat_of_nat size_defs)
  have mmu: "mmu_ok s1" using s1 t(3) by (simp add: mmu_ok_def)
  obtain pa s3 where w: "Translate va sz True s1 = Inr (Inr pa, s3)" "length (stored_bytes sz v) = sz"
      "s2 = s3\<lparr>mainMemory := overwrite (mainMemory s3) pa (stored_bytes sz v)\<rparr>"
    using WriteMem_True [OF assms(6,8)] by blast
  obtain ref ent where r: "\<not> misaligned va sz" "findEntry (va div of_nat PageSize) s1 = Inr (Inr ref)"
      "get_entry ref s1 = Inr ent" "pa = unat (physicalPage ent) * PageSize + unat va mod 256"
      "s3 = set_entry ref (ent\<lparr>used := True, dirty := dirty ent \<or> True\<rparr>) s1"
    using Translate_Inr [OF mmu assms(6) w(1)] by metis
  define p where "p = unat (va div of_nat PageSize)"
  have p: "p < numPages a" "ent = es ! p"
    using r(2,3) s1 t(3) by (auto simp: findEntry_def get_entry_def p_def fetch_def res_simps word_less_nat_alt not_le
        split: if_splits)
  have "p + startHere a < 2 ^ LENGTH(32)" using p(1) t(4) by (simp add: size_defs)
  then have f: "unat (physicalPage ent) = p + startHere a"
    using e [OF p(1)] p(2) by (simp add: unat_of_nat del: of_nat_add)
  have fit: "unat va mod 256 + sz \<le> 256" by (rule aligned_fits [OF r(1) assms(6)])
  have pa: "base a \<le> pa" "pa + sz \<le> base a + numPages a * PageSize"
  proof -
    have "(p + 1) * PageSize \<le> numPages a * PageSize" using p(1) by (intro mult_le_mono1) simp
    then show "base a \<le> pa" "pa + sz \<le> base a + numPages a * PageSize"
      using fit unfolding r(4) f by (simp_all add: size_defs)
  qed
  have mem: "mainMemory s3 = mainMemory s" using s1(5) r(5) by simp
  have "only_image a s s2"
    using pa w(2) space_room [of a s] h(1,4) unfolding only_image_def w(3)
    by (auto simp: housed_def mem nth_overwrite)
  moreover have "base b + numPages b * PageSize \<le> length (mainMemory s)"
    using h(2,4) space_room by (auto simp: housed_def)
  ultimately show ?thesis by (rule image_unchanged [OF h(3)])
qed

text \<open>
  Freeing a live address space gives back exactly its frames: they become free, no other frame's
  mark changes, the memory of every other space is unchanged, and the remaining spaces stay isolated.
\<close>

theorem free_frames_returns_frames:
  fixes s :: "'a KernelState_scheme"
  assumes "spaces_ok s" and "live s x a"
  shows "\<exists>s'. free_frames a s = Inr s' \<and> spaces_ok (s'\<lparr>spaces := (spaces s')(x := None)\<rparr>) \<and>
    (\<forall>i<NumPhysPages. free_in (MainMemMap s') i \<longleftrightarrow> free_in (MainMemMap s) i \<or> in_frames a i) \<and>
    (\<forall>y b. live s y b \<longrightarrow> y \<noteq> x \<longrightarrow> image_of b s' = image_of b s)"
proof -
  have h: "housed a s" "memory_ok s" "frames_map (MainMemMap s)" using assms by (auto simp: spaces_ok_def)
  obtain t es where t: "as_pageTable a = Some t" "tables s t = Some es" "length es = numPages a"
      "startHere a + numPages a \<le> NumPhysPages"
    and e: "\<And>i. i < numPages a \<Longrightarrow> physicalPage (es ! i) = of_nat (i + startHere a)"
    using h(1) by (auto simp: housed_def space_ok_def)
  define s1 where "s1 = s\<lparr>mainMemory := overwrite (mainMemory s) (base a) (replicate (numPages a * PageSize) 0)\<rparr>"
  have "foldRes (\<lambda>s i. andThen (fetch es (int i)) (zero_page s)) s' is = foldRes zero_page s' (map ((!) es) is)"
    if "\<forall>i\<in>set is. i < numPages a" for s' :: "'a KernelState_scheme" and "is"
    using that t(3) by (induction "is" arbitrary: s') simp_all
  then have z: "foldRes (\<lambda>s i. andThen (fetch es (int i)) (zero_page s)) s [0..<numPages a] = Inr s1"
    using zero_pages [OF h(2) t(4), of "(!) es", OF e] by (simp add: s1_def)
  obtain frames where f: "foldRes Clear (MainMemMap s) (map (\<lambda>i. int (i + startHere a)) [0..<numPages a]) = Inr frames"
      "frames_map frames" "\<forall>i<NumPhysPages. free_in frames i \<longleftrightarrow>
         free_in (MainMemMap s) i \<or> (startHere a \<le> i \<and> i < startHere a + numPages a)"
    using Clear_frames [OF h(3) t(4)] by blast
  define s' where "s' = s1\<lparr>MainMemMap := frames, tables := (tables s1)(t := None)\<rparr>"
  have r: "free_frames a s = Inr s'"
    using t z f(1) by (simp add: free_frames_def s'_def s1_def del: of_nat_add)
  have oi: "only_image a s s'"
    using space_room [of a s] h by (auto simp: only_image_def s'_def s1_def nth_overwrite housed_def)
  have ap: "apart a b" if "live s y b" "y \<noteq> x" for y b using assms that by (auto simp: spaces_ok_def)
  have rest: "housed b (s'\<lparr>spaces := (spaces s')(x := None)\<rparr>)" if l: "live s y b" "y \<noteq> x" for y b
  proof -
    have b: "housed b s" using assms(1) l(1) by (auto simp: spaces_ok_def)
    have ne: "as_pageTable b \<noteq> Some t" using ap [OF l] t(1) by (auto simp: apart_def)
    have "space_ok b s" using b by (simp add: housed_def)
    then have "space_ok b (s'\<lparr>spaces := (spaces s')(x := None)\<rparr>)"
      by (rule space_ok_tables) (use ne in \<open>auto simp: s'_def s1_def\<close>)
    moreover have "\<not> free_in frames i" if i: "in_frames b i" for i
    proof -
      have "i < NumPhysPages" using i b by (auto simp: in_frames_def housed_def space_ok_def)
      moreover have "\<not> in_frames a i" using ap [OF l] i by (auto simp: apart_def)
      ultimately show ?thesis using i b f(3) by (auto simp: housed_def in_frames_def)
    qed
    ultimately show ?thesis using b by (simp add: housed_def s'_def s1_def)
  qed
  have l': "live (s'\<lparr>spaces := (spaces s')(x := None)\<rparr>) y b \<longleftrightarrow> live s y b \<and> y \<noteq> x" for y b
    by (auto simp: live_def s'_def s1_def)
  have "spaces_ok (s'\<lparr>spaces := (spaces s')(x := None)\<rparr>)"
    unfolding spaces_ok_def l'
  proof (intro conjI allI impI)
    show "memory_ok (s'\<lparr>spaces := (spaces s')(x := None)\<rparr>)"
      using oi h(2) by (simp add: only_image_def memory_ok_def)
    show "y < nextSpace (s'\<lparr>spaces := (spaces s')(x := None)\<rparr>)"
      if "spaces (s'\<lparr>spaces := (spaces s')(x := None)\<rparr>) y \<noteq> None" for y
      using that assms(1) by (auto simp: spaces_ok_def s'_def s1_def split: if_splits)
  qed (use f(2) rest assms(1) in \<open>auto simp: s'_def s1_def spaces_ok_def\<close>)
  moreover have "image_of b s' = image_of b s" if "live s y b" "y \<noteq> x" for y b
    by (rule image_unchanged [OF ap [OF that] oi]) (rule live_room [OF assms(1) that(1)])
  ultimately show ?thesis using r f(3) by (auto simp: s'_def in_frames_def)
qed

subsection \<open>A concrete kernel\<close>

text \<open>Two live spaces, of two pages from frame 4 on and of one page in frame 8, and a program of two instructions.\<close>

definition demo_space :: AddrSpace where
  "demo_space = \<lparr>SpaceFound = True, numPages = 2, startHere = 4, as_pageTable = Some 0\<rparr>"

definition demo_space2 :: AddrSpace where
  "demo_space2 = \<lparr>SpaceFound = True, numPages = 1, startHere = 8, as_pageTable = Some 1\<rparr>"

definition demo_kernel :: KernelState where
  "demo_kernel = MachineState.extend
     (demo_machine\<lparr>tables := [0 \<mapsto> map (page_entry 4) [0..<2], 1 \<mapsto> map (page_entry 8) [0..<1]]\<rparr>)
     (KernelState.fields (demo_frames 0x130) 0 [0 \<mapsto> demo_space, 1 \<mapsto> demo_space2] 2 2)"

definition demo_executable :: host_file where
  "demo_executable = words_bytes [NOFFMAGIC, 0, 40, 8, 0, 0, 0, 0, 0, 0, 0x24010007, 0x0000000c]"

lemma demo_kernel_fields [simp]:
  "MainMemMap demo_kernel = demo_frames 0x130" "spaces demo_kernel = [0 \<mapsto> demo_space, 1 \<mapsto> demo_space2]"
  "nextSpace demo_kernel = 2" "nextTable demo_kernel = 2" "MemAll demo_kernel = 0" "tlb demo_kernel = None"
  "tables demo_kernel = [0 \<mapsto> map (page_entry 4) [0..<2], 1 \<mapsto> map (page_entry 8) [0..<1]]"
  "mainMemory demo_kernel = replicate MemorySize 0"
  by (simp_all add: demo_kernel_def MachineState.defs KernelState.defs)

lemma demo_space_ok: "space_ok demo_space demo_kernel" "space_ok demo_space2 demo_kernel" "memory_ok demo_kernel"
  by (auto simp: space_ok_def demo_space_def demo_space2_def page_entry_def size_defs memory_ok_def less_2_cases_iff)

lemma demo_live: "live demo_kernel 0 demo_space" "live demo_kernel 1 demo_space2"
  by (simp_all add: live_def demo_space_def demo_space2_def)

lemma demo_spaces_ok: "spaces_ok demo_kernel"
proof -
  have f: "\<not> free_in (demo_frames 0x130) 4" "\<not> free_in (demo_frames 0x130) 5" "\<not> free_in (demo_frames 0x130) 8"
    by (simp_all add: demo_frames_free bit_numeral_rec numeral_eq_Suc)
  have i: "in_frames demo_space i \<longleftrightarrow> i = 4 \<or> i = 5" "in_frames demo_space2 i \<longleftrightarrow> i = 8" for i
    by (auto simp: in_frames_def demo_space_def demo_space2_def)
  have h: "housed demo_space demo_kernel" "housed demo_space2 demo_kernel"
    using demo_space_ok f by (auto simp: housed_def i) (auto simp: demo_space_def demo_space2_def)
  have a: "apart demo_space demo_space2" by (auto simp: apart_def i) (simp add: demo_space_def demo_space2_def)
  show ?thesis unfolding spaces_ok_def
    using h a apart_sym [OF a] demo_space_ok(3) demo_frames_ok by (auto simp: live_def split: if_splits)
qed

lemma demo_loadable: "loadable demo_executable" "pages_needed (program_header demo_executable) \<le> NumPhysPages"
proof -
  have "program_header demo_executable = \<lparr>noffMagic = NOFFMAGIC,
     code = \<lparr>virtualAddr = 0, inFileAddr = 40, seg_size = 8\<rparr>,
     initData = \<lparr>virtualAddr = 0, inFileAddr = 0, seg_size = 0\<rparr>,
     uninitData = \<lparr>virtualAddr = 0, inFileAddr = 0, seg_size = 0\<rparr>\<rparr>"
    by (simp add: program_header_def header_of_def demo_executable_def NoffHeaderSize_def Let_def load_word_def)
  then show "loadable demo_executable" "pages_needed (program_header demo_executable) \<le> NumPhysPages"
    by (simp_all add: loadable_def demo_executable_def NoffHeaderSize_def pages_needed_def UserStackSize_def
        divRoundUp_nonneg size_defs segment_fits_def)
qed


theorem LoadSegment_loses_tail_witness:
  "\<exists>s'. LoadSegment demo_space (replicate 300 7) 1 300 0 demo_kernel = Inr s' \<and> mainMemory s' ! 1324 = 0"
proof -
  have "\<exists>s'. LoadSegment demo_space (replicate 300 7) (int 1) (int 300) (int 0) demo_kernel = Inr s' \<and>
    (\<forall>k. 300 - 300 mod PageSize \<le> k \<longrightarrow> k < 300 \<longrightarrow>
       mainMemory s' ! (base demo_space + 1 + k) = mainMemory demo_kernel ! (base demo_space + 1 + k))"
    by (rule LoadSegment_loses_tail [OF demo_space_ok(1,3)]) (simp_all add: demo_space_def size_defs)
  then obtain s' where s': "LoadSegment demo_space (replicate 300 7) (int 1) (int 300) (int 0) demo_kernel = Inr s'"
    "\<forall>k. 300 - 300 mod PageSize \<le> k \<longrightarrow> k < 300 \<longrightarrow>
       mainMemory s' ! (base demo_space + 1 + k) = mainMemory demo_kernel ! (base demo_space + 1 + k)" by blast
  from s'(2) [rule_format, of 299] s'(1) show ?thesis by (simp add: demo_space_def size_defs)
qed

theorem user_store_confined_witness:
  "\<exists>s1 s2. RestoreState demo_space demo_kernel = Inr s1 \<and> WriteMem (\<lambda>_. Inr) 0 4 7 s1 = Inr (True, s2) \<and>
     image_of demo_space2 s2 = image_of demo_space2 demo_kernel"
proof -
  obtain s1 where s1: "RestoreState demo_space demo_kernel = Inr s1" by (simp add: RestoreState_def)
  then have f: "tlb s1 = None" "pageTable s1 = Some 0" "pageTableSize s1 = 2"
      "tables s1 0 = Some (map (page_entry 4) [0..<2])"
    by (auto simp: RestoreState_def demo_space_def)
  have mmu: "mmu_ok s1" by (simp add: mmu_ok_def f)
  have sz: "(4 :: nat) \<in> {1, 2, 4}" by simp
  have g: "findEntry 0 s1 = Inr (Inr (InTable 0 0))" "get_entry (InTable 0 0) s1 = Inr (page_entry 4 0)"
    by (simp_all add: findEntry_def get_entry_def fetch_def f page_entry_def upt_rec)
  obtain s3 where "Translate 0 4 True s1 = Inr (Inr 1024, s3)"
    using g by (simp add: Translate_spec [OF mmu sz] misaligned_def size_defs page_entry_def)
  then obtain s2 where s2: "WriteMem (\<lambda>_. Inr) 0 4 7 s1 = Inr (True, s2)" by (simp add: WriteMem_def)
  from user_store_confined [OF demo_spaces_ok demo_live _ _ sz s1 s2] s1 s2 show ?thesis by auto
qed

theorem free_frames_returns_frames_witness:
  "\<exists>s'. free_frames demo_space demo_kernel = Inr s' \<and> free_in (MainMemMap s') 5 \<and> \<not> free_in (MainMemMap s') 8"
proof -
  obtain s' where "free_frames demo_space demo_kernel = Inr s'"
    "\<forall>i<NumPhysPages. free_in (MainMemMap s') i \<longleftrightarrow> free_in (MainMemMap demo_kernel) i \<or> in_frames demo_space i"
    using free_frames_returns_frames [OF demo_spaces_ok demo_live(1)] by blast
  then show ?thesis
    by (auto simp: in_frames_def demo_space_def size_defs demo_frames_free bit_numeral_rec numeral_eq_Suc)
qed

end
