(* ===== verification/Nachos_Process.thy ===== *)
theory Nachos_Process
  imports Nachos_AddrSpace
begin

section \<open>The process table: class ProcessList of userprog/exception.cc\<close>

text \<open>
  The doubly linked list of process control blocks, with its next and previous pointers: nodes are addressed by
  number, a missing node is the null pointer. The state gains the nodes, the head and tail of the list, and
  the other globals of progtest.cc and exception.cc. The lemmas relate a list in memory to the sequence
  of its nodes (\<open>chain\<close>); the locale \<open>pid_table\<close> states what the system calls use of it.
\<close>

subsection \<open>The data (system.h, progtest.cc)\<close>

record ProcessElement =
  Next :: "nat option"
  Previous :: "nat option"
  CurrentThread :: nat
  PID :: int
  Valid :: bool
  ParentPID :: int
  ProcessSemaphore :: nat

text \<open>
  The state of a kernel with processes. \<open>hostFiles\<close> are the files that the stubbed file system can open, by
  name; \<open>hostInput\<close> what can still be read from each host file descriptor, \<open>hostWords\<close> the words on
  standard input, \<open>hostOutput\<close> what has been written, by descriptor.
\<close>

record ProcessState = KernelState +
  elements :: "nat \<rightharpoonup> ProcessElement"
  nextElement :: nat
  Head :: "nat option"
  Tail :: "nat option"
  NumProcess :: int
  MutexNumProc :: nat
  hostFiles :: "8 word list \<rightharpoonup> host_file"
  hostInput :: "int \<Rightarrow> 8 word list"
  hostWords :: "8 word list list"
  hostOutput :: "(int \<times> 8 word list) list"

type_synonym 'a process_action = "'a ProcessState_scheme \<Rightarrow> 'a ProcessState_scheme res"

subsection \<open>The operations\<close>

definition element_at :: "nat option \<Rightarrow> 'a ProcessState_scheme \<Rightarrow> ProcessElement res" where
  "element_at p s = (case p of None \<Rightarrow> Inl NullPointer | Some x \<Rightarrow>
     (case elements s x of None \<Rightarrow> Inl NullPointer | Some e \<Rightarrow> Inr e))"

definition update_element :: "nat option \<Rightarrow> (ProcessElement \<Rightarrow> ProcessElement) \<Rightarrow> 'a process_action" where
  "update_element p f s = (case p of None \<Rightarrow> Inl NullPointer | Some x \<Rightarrow>
     (case elements s x of None \<Rightarrow> Inl NullPointer | Some e \<Rightarrow> Inr (s\<lparr>elements := (elements s)(x \<mapsto> f e)\<rparr>)))"

text \<open>\<open>new ProcessElement\<close>; the members hold what was in memory until they are set.\<close>

definition new_element :: "ProcessElement \<Rightarrow> 'a ProcessState_scheme \<Rightarrow> nat \<times> 'a ProcessState_scheme" where
  "new_element e s = (nextElement s,
     s\<lparr>elements := (elements s)(nextElement s \<mapsto> e), nextElement := Suc (nextElement s)\<rparr>)"

definition ProcessList_new :: "'a ProcessState_scheme \<Rightarrow> 'a ProcessState_scheme" where
  "ProcessList_new s = s\<lparr>Head := None, Tail := None\<rparr>"

definition PCB_IsEmpty :: "'a ProcessState_scheme \<Rightarrow> bool" where
  "PCB_IsEmpty s \<longleftrightarrow> Head s = None"

definition PCB_Append :: "nat \<Rightarrow> 'a process_action" where
  "PCB_Append current s =
     (if PCB_IsEmpty s then Inr (s\<lparr>Head := Some current, Tail := Some current\<rparr>)
      else let old = Tail s in
        andThen (update_element old (\<lambda>e. e\<lparr>Next := Some current\<rparr>) s) (\<lambda>s1.
          update_element (Some current) (\<lambda>e. e\<lparr>Previous := old\<rparr>) (s1\<lparr>Tail := Some current\<rparr>)))"

definition PCB_Remove :: "nat \<Rightarrow> 'a process_action" where
  "PCB_Remove current s =
     (if PCB_IsEmpty s then Inr s
      else if Some current = Head s \<and> Some current = Tail s then Inr (s\<lparr>Head := None, Tail := None\<rparr>)
      else andThen (element_at (Some current) s) (\<lambda>e.
        if Some current = Head s then
          update_element (Next e) (\<lambda>n. n\<lparr>Previous := None\<rparr>) (s\<lparr>Head := Next e\<rparr>)
        else if Some current = Tail s then
          update_element (Previous e) (\<lambda>p. p\<lparr>Next := None\<rparr>) (s\<lparr>Tail := Previous e\<rparr>)
        else andThen (update_element (Previous e) (\<lambda>p. p\<lparr>Next := Next e\<rparr>) s) (\<lambda>s1.
          andThen (element_at (Some current) s1) (\<lambda>e1.
            update_element (Next e1) (\<lambda>n. n\<lparr>Previous := Previous e1\<rparr>) s1))))"

text \<open>
  The search: a loop that tests a node, moves on, and ends at the node whose \<open>PID\<close> is that of the tail, which is
  tested after the loop. It does not look whether there is a next node. No list is longer than the number of nodes ever
  made, which bounds the loop.
\<close>

fun returnLoop :: "nat \<Rightarrow> int \<Rightarrow> nat option \<Rightarrow> 'a ProcessState_scheme \<Rightarrow> nat option res" where
  "returnLoop 0 pid node s = Inl Diverges"
| "returnLoop (Suc n) pid node s = andThen (element_at node s) (\<lambda>e.
     if PID e = pid then Inr node
     else andThen (element_at (Next e) s) (\<lambda>e1.
       andThen (element_at (Tail s) s) (\<lambda>t.
         if PID e1 \<noteq> PID t then returnLoop n pid (Next e) s
         else Inr (if PID e1 \<noteq> pid then None else Next e))))"

definition PCB_Return :: "int \<Rightarrow> 'a ProcessState_scheme \<Rightarrow> nat option res" where
  "PCB_Return pid s = (if PCB_IsEmpty s then Inr None
     else returnLoop (Suc (nextElement s)) pid (Head s) s)"

subsection \<open>The sequence a list stands for\<close>

text \<open>
  \<open>chain s xs\<close>: the nodes from \<open>Head\<close> to \<open>Tail\<close> are \<open>xs\<close>, linked in both directions, with
  different process numbers. Nothing is said of the next pointer of the tail, nor of the previous pointer
  of the head: the code leaves there what it finds.
\<close>

definition link :: "(nat \<rightharpoonup> ProcessElement) \<Rightarrow> nat \<Rightarrow> nat \<Rightarrow> bool" where
  "link els x y \<longleftrightarrow> (\<exists>e f. els x = Some e \<and> els y = Some f \<and> Next e = Some y \<and> Previous f = Some x)"

fun linked :: "(nat \<rightharpoonup> ProcessElement) \<Rightarrow> nat list \<Rightarrow> bool" where
  "linked els (x # y # xs) \<longleftrightarrow> link els x y \<and> linked els (y # xs)"
| "linked els _ \<longleftrightarrow> True"

lemma all_nat_split: "(\<forall>i. P i) \<longleftrightarrow> P 0 \<and> (\<forall>i. P (Suc i))"
  by (metis not0_implies_Suc)

lemma linked_iff: "linked els xs \<longleftrightarrow> (\<forall>i. Suc i < length xs \<longrightarrow> link els (xs ! i) (xs ! Suc i))"
proof (induction els xs rule: linked.induct)
  case (1 els x y xs)
  show ?case by (subst all_nat_split) (simp add: 1)
qed simp_all

lemma linked_Cons: "linked els (x # xs) \<longleftrightarrow> linked els xs \<and> (xs \<noteq> [] \<longrightarrow> link els x (hd xs))"
  by (cases xs) auto

lemma linked_append:
  "linked els (ys @ zs) \<longleftrightarrow> linked els ys \<and> linked els zs \<and> (ys \<noteq> [] \<longrightarrow> zs \<noteq> [] \<longrightarrow> link els (last ys) (hd zs))"
  by (induction ys) (auto simp: linked_Cons)

lemma linked_cong:
  assumes "linked els xs" and "distinct xs"
    and "\<And>x e. x \<in> set xs \<Longrightarrow> els x = Some e \<Longrightarrow> \<exists>e'. els' x = Some e' \<and>
      (Next e' = Next e \<or> x = last xs) \<and> (Previous e' = Previous e \<or> x = hd xs)"
  shows "linked els' xs"
  unfolding linked_iff
proof (intro allI impI)
  fix i assume i: "Suc i < length xs"
  obtain e f where ef: "els (xs ! i) = Some e" "els (xs ! Suc i) = Some f" "Next e = Some (xs ! Suc i)" "Previous f = Some (xs ! i)"
    using assms(1) i by (auto simp: linked_iff link_def)
  have "xs \<noteq> []" using i by auto
  then have "xs ! i \<noteq> last xs" "xs ! Suc i \<noteq> hd xs"
    using i assms(2) by (simp_all add: last_conv_nth hd_conv_nth nth_eq_iff_index_eq)
  moreover have "xs ! i \<in> set xs" "xs ! Suc i \<in> set xs" using i by simp_all
  ultimately show "link els' (xs ! i) (xs ! Suc i)"
    using assms(3) [of "xs ! i" e] assms(3) [of "xs ! Suc i" f] ef by (auto simp: link_def)
qed

definition pid_of :: "'a ProcessState_scheme \<Rightarrow> nat \<Rightarrow> int" where
  "pid_of s x = (case elements s x of None \<Rightarrow> 0 | Some e \<Rightarrow> PID e)"

definition chain :: "'a ProcessState_scheme \<Rightarrow> nat list \<Rightarrow> bool" where
  "chain s xs \<longleftrightarrow> Head s = (if xs = [] then None else Some (List.hd xs)) \<and>
     Tail s = (if xs = [] then None else Some (last xs)) \<and> distinct xs \<and>
     (\<forall>x\<in>set xs. elements s x \<noteq> None \<and> x < nextElement s) \<and> linked (elements s) xs \<and>
     distinct (map (pid_of s) xs)"

definition tail_next :: "'a ProcessState_scheme \<Rightarrow> nat list \<Rightarrow> nat option" where
  "tail_next s xs = (case elements s (last xs) of None \<Rightarrow> None | Some e \<Rightarrow> Next e)"

lemma chain_Head: "chain s xs \<Longrightarrow> PCB_IsEmpty s \<longleftrightarrow> xs = []"
  by (auto simp: chain_def PCB_IsEmpty_def)

lemma chain_nth: "chain s xs \<Longrightarrow> i < length xs \<Longrightarrow> \<exists>e. elements s (xs ! i) = Some e"
  by (auto simp: chain_def)

lemma chain_next:
  assumes "chain s xs" and "Suc i < length xs" and "elements s (xs ! i) = Some e"
  shows "Next e = Some (xs ! Suc i)"
  using assms by (auto simp: chain_def linked_iff link_def)

lemma chain_length: "chain s xs \<Longrightarrow> length xs \<le> nextElement s"
  using distinct_bounded_length [of xs "nextElement s"] by (auto simp: chain_def)

lemma chain_tail:
  assumes "chain s xs" and "xs \<noteq> []"
  obtains t where "Tail s = Some (xs ! (length xs - 1))" and "elements s (xs ! (length xs - 1)) = Some t"
proof -
  have "length xs - 1 < length xs" using assms(2) by (cases xs) auto
  then obtain t where "elements s (xs ! (length xs - 1)) = Some t" using chain_nth [OF assms(1)] by blast
  moreover have "Tail s = Some (xs ! (length xs - 1))" using assms by (simp add: chain_def last_conv_nth)
  ultimately show ?thesis using that by blast
qed

lemma chain_pid_eq:
  assumes "chain s xs" and "i < length xs" and "j < length xs" and "pid_of s (xs ! i) = pid_of s (xs ! j)"
  shows "i = j"
  using assms distinct_nth_index [of "map (pid_of s) xs" i j] by (simp add: chain_def)

lemma returnLoop_found:
  assumes "chain s xs" and "j < length xs" and "pid_of s (xs ! j) = pid" and "i \<le> j" and "j - i < n"
  shows "returnLoop n pid (Some (xs ! i)) s = Inr (Some (xs ! j))"
  using assms(4,5)
proof (induction n arbitrary: i)
  case (Suc n)
  obtain e where e: "elements s (xs ! i) = Some e" using chain_nth [OF assms(1)] Suc.prems(1) assms(2) by force
  show ?case
  proof (cases "i = j")
    case True
    then show ?thesis using e assms(3) by (simp add: element_at_def pid_of_def)
  next
    case False
    with Suc.prems have lt: "i < j" by simp
    then have si: "Suc i < length xs" using assms(2) by simp
    have ne: "PID e \<noteq> pid"
      using chain_pid_eq [OF assms(1) _ assms(2), of i] lt assms(2,3) e by (auto simp: pid_of_def)
    note nx = chain_next [OF assms(1) si e]
    obtain f where f: "elements s (xs ! Suc i) = Some f" using chain_nth [OF assms(1) si] by blast
    obtain t where tl: "Tail s = Some (xs ! (length xs - 1))" and t: "elements s (xs ! (length xs - 1)) = Some t"
      using chain_tail [OF assms(1)] si by (metis list.size(3) not_less_zero)
    show ?thesis
    proof (cases "PID f = PID t")
      case True
      have "Suc i = length xs - 1"
        using chain_pid_eq [OF assms(1) si, of "length xs - 1"] True f t si by (auto simp: pid_of_def)
      then have "j = Suc i" using lt assms(2) by linarith
      then show ?thesis using e ne nx f t tl True assms(3) by (simp add: element_at_def pid_of_def)
    next
      case False
      with Suc.IH [of "Suc i"] lt Suc.prems show ?thesis
        using e ne nx f t tl by (simp add: element_at_def)
    qed
  qed
qed simp

lemma returnLoop_absent:
  assumes "chain s xs" and "pid \<notin> pid_of s ` set xs" and "Suc i < length xs" and "length xs - i \<le> Suc n"
  shows "returnLoop n pid (Some (xs ! i)) s = Inr None"
  using assms(3,4)
proof (induction n arbitrary: i)
  case (Suc n)
  obtain e where e: "elements s (xs ! i) = Some e" using chain_nth [OF assms(1)] Suc.prems(1) by force
  obtain f where f: "elements s (xs ! Suc i) = Some f" using chain_nth [OF assms(1) Suc.prems(1)] by blast
  have absent: "PID e \<noteq> pid" "PID f \<noteq> pid"
    using assms(2) e f Suc.prems(1) by (auto simp: pid_of_def image_iff in_set_conv_nth)
      (metis option.simps(5) Suc_lessD nth_mem, metis option.simps(5) nth_mem)
  note nx = chain_next [OF assms(1) Suc.prems(1) e]
  obtain t where tl: "Tail s = Some (xs ! (length xs - 1))" and t: "elements s (xs ! (length xs - 1)) = Some t"
    using chain_tail [OF assms(1)] Suc.prems(1) by (metis list.size(3) not_less_zero)
  show ?case
  proof (cases "PID f = PID t")
    case True
    then show ?thesis using e absent nx f t tl by (simp add: element_at_def)
  next
    case False
    then have "Suc i \<noteq> length xs - 1" using f t by auto
    then have "Suc (Suc i) < length xs" using Suc.prems(1) by linarith
    with Suc.IH [of "Suc i"] Suc.prems show ?thesis
      using False e absent nx f t tl by (simp add: element_at_def)
  qed
qed simp

lemma PCB_Return_found:
  assumes "chain s xs" and "x \<in> set xs"
  shows "PCB_Return (pid_of s x) s = Inr (Some x)"
proof -
  obtain j where j: "j < length xs" "xs ! j = x" using assms(2) by (auto simp: in_set_conv_nth)
  have "xs \<noteq> []" using j by auto
  then have h: "Head s = Some (xs ! 0)" using assms(1) by (simp add: chain_def hd_conv_nth)
  have "j - 0 < Suc (nextElement s)" using j chain_length [OF assms(1)] by simp
  from returnLoop_found [OF assms(1) j(1) refl _ this] show ?thesis
    using h j by (simp add: PCB_Return_def PCB_IsEmpty_def del: returnLoop.simps)
qed

text \<open>
  For a process number that is not in the list the result depends on its length: two nodes or more, or none, and the
  search says so; with one node it follows that node's next pointer, which is the node itself
  or null.
\<close>

lemma PCB_Return_absent:
  assumes "chain s xs" and "pid \<notin> pid_of s ` set xs" and "length xs \<noteq> 1"
  shows "PCB_Return pid s = Inr None"
proof (cases "xs = []")
  case True
  then show ?thesis using assms(1) by (simp add: PCB_Return_def PCB_IsEmpty_def chain_def)
next
  case False
  then have h: "Head s = Some (xs ! 0)" using assms(1) by (simp add: chain_def hd_conv_nth)
  have "Suc 0 < length xs" using False assms(3) by (cases xs) auto
  from returnLoop_absent [OF assms(1,2) this, of "Suc (nextElement s)"] chain_length [OF assms(1)]
  show ?thesis using h by (simp add: PCB_Return_def PCB_IsEmpty_def del: returnLoop.simps)
qed

lemma PCB_Return_single:
  assumes "chain s [x]" and "pid \<noteq> pid_of s x"
  shows "tail_next s [x] = None \<Longrightarrow> PCB_Return pid s = Inl NullPointer"
    and "tail_next s [x] = Some x \<Longrightarrow> PCB_Return pid s = Inr None"
proof -
  obtain e where e: "elements s x = Some e" using assms(1) by (auto simp: chain_def)
  have h: "Head s = Some x" "Tail s = Some x" using assms(1) by (simp_all add: chain_def)
  show "tail_next s [x] = None \<Longrightarrow> PCB_Return pid s = Inl NullPointer"
    and "tail_next s [x] = Some x \<Longrightarrow> PCB_Return pid s = Inr None"
    using e h assms(2) by (simp_all add: PCB_Return_def PCB_IsEmpty_def tail_next_def element_at_def pid_of_def)
qed

text \<open>Appending a node, and removing one at either end or in the middle.\<close>

lemma pid_of_update:
  "elements s' = (elements s)(x \<mapsto> f) \<Longrightarrow> elements s x = Some e \<Longrightarrow> PID f = PID e \<Longrightarrow> pid_of s' = pid_of s"
  by (auto simp: pid_of_def fun_eq_iff)

lemma PCB_Append_chain:
  assumes "chain s xs" and "elements s x \<noteq> None" and "x < nextElement s" and "x \<notin> set xs"
    and "pid_of s x \<notin> pid_of s ` set xs"
  shows "\<exists>s'. PCB_Append x s = Inr s' \<and> chain s' (xs @ [x]) \<and> tail_next s' (xs @ [x]) = tail_next s [x] \<and>
    pid_of s' = pid_of s \<and> s' = s\<lparr>elements := elements s', Head := Head s', Tail := Tail s'\<rparr>"
proof (cases "xs = []")
  case True
  then show ?thesis using assms
    by (auto simp: PCB_Append_def PCB_IsEmpty_def chain_def tail_next_def pid_of_def fun_eq_iff)
next
  case False
  obtain f where f: "elements s x = Some f" using assms(2) by blast
  have lt: "Tail s = Some (last xs)" "last xs \<noteq> x" "last xs < nextElement s"
    using assms(1,4) False by (auto simp: chain_def)
  obtain e where e: "elements s (last xs) = Some e"
    using assms(1) last_in_set [OF False] by (auto simp: chain_def)
  let ?els = "(elements s)(last xs \<mapsto> e\<lparr>Next := Some x\<rparr>, x \<mapsto> f\<lparr>Previous := Some (last xs)\<rparr>)"
  let ?s = "s\<lparr>elements := ?els, Tail := Some x\<rparr>"
  have r: "PCB_Append x s = Inr ?s"
    using False assms(1) lt e f by (simp add: PCB_Append_def chain_Head update_element_def)
  have p: "pid_of ?s = pid_of s" using e f by (auto simp: pid_of_def fun_eq_iff)
  have "linked ?els xs"
    by (rule linked_cong [of "elements s"]) (use assms(1,4) e in \<open>auto simp: chain_def\<close>)
  then have "linked ?els (xs @ [x])" using lt(2) by (simp add: linked_append link_def)
  then have "chain ?s (xs @ [x])"
    using assms False p by (auto simp: chain_def)
  moreover have "tail_next ?s (xs @ [x]) = tail_next s [x]" using f by (simp add: tail_next_def)
  ultimately show ?thesis using r p by (intro exI [of _ ?s]) simp
qed

lemma PCB_Remove_chain:
  assumes "chain s (ys @ x # zs)"
  shows "\<exists>s'. PCB_Remove x s = Inr s' \<and> chain s' (ys @ zs) \<and>
    (zs = [] \<longrightarrow> ys \<noteq> [] \<longrightarrow> tail_next s' ys = None) \<and>
    (zs \<noteq> [] \<longrightarrow> tail_next s' (ys @ zs) = tail_next s (ys @ x # zs)) \<and>
    pid_of s' = pid_of s \<and> s' = s\<lparr>elements := elements s', Head := Head s', Tail := Tail s'\<rparr>"
proof -
  have d: "distinct (ys @ x # zs)" and l: "linked (elements s) (ys @ x # zs)"
    and ex: "\<forall>y\<in>set (ys @ x # zs). elements s y \<noteq> None \<and> y < nextElement s"
    and p: "distinct (map (pid_of s) (ys @ x # zs))"
    and ht: "Head s = Some (hd (ys @ x # zs))" "Tail s = Some (last (ys @ x # zs))"
    using assms by (simp_all add: chain_def)
  obtain e where e: "elements s x = Some e" using ex by auto
  have l2: "linked (elements s) ys" "linked (elements s) zs"
    and lx: "ys \<noteq> [] \<longrightarrow> (\<exists>a. elements s (last ys) = Some a \<and> Next a = Some x \<and> Previous e = Some (last ys))"
    and xz: "zs \<noteq> [] \<longrightarrow> (\<exists>b. elements s (hd zs) = Some b \<and> Next e = Some (hd zs) \<and> Previous b = Some x)"
    using l e by (auto simp: linked_append linked_Cons link_def)
  have nh: "ys \<noteq> [] \<longrightarrow> hd ys \<noteq> x \<and> last ys \<noteq> x" "zs \<noteq> [] \<longrightarrow> hd zs \<noteq> x \<and> last zs \<noteq> x"
    "ys \<noteq> [] \<longrightarrow> zs \<noteq> [] \<longrightarrow> last ys \<noteq> hd zs \<and> last ys \<noteq> last zs \<and> last ys \<notin> set zs \<and> hd zs \<notin> set ys"
    using d by (auto dest: hd_in_set last_in_set)
  consider "ys = []" "zs = []" | "ys = []" "zs \<noteq> []" | "ys \<noteq> []" "zs = []" | "ys \<noteq> []" "zs \<noteq> []" by blast
  then show ?thesis
  proof cases
    case 1
    then have "PCB_Remove x s = Inr (s\<lparr>Head := None, Tail := None\<rparr>)"
      using ht by (simp add: PCB_Remove_def PCB_IsEmpty_def)
    then show ?thesis using 1
      by (intro exI [of _ "s\<lparr>Head := None, Tail := None\<rparr>"]) (simp add: chain_def pid_of_def fun_eq_iff)
  next
    case 2
    then obtain b where b: "elements s (hd zs) = Some b" "Next e = Some (hd zs)" using xz by blast
    let ?s = "s\<lparr>Head := Some (hd zs), elements := (elements s)(hd zs \<mapsto> b\<lparr>Previous := None\<rparr>)\<rparr>"
    have "PCB_Remove x s = Inr ?s"
      using 2 ht nh e b by (simp add: PCB_Remove_def PCB_IsEmpty_def element_at_def update_element_def)
    moreover have pp: "pid_of ?s = pid_of s" using b by (auto simp: pid_of_def fun_eq_iff)
    moreover have "linked (elements ?s) zs" by (rule linked_cong [OF l2(2)]) (use d b in auto)
    then have "chain ?s zs" using 2 ht ex p d pp by (auto simp: chain_def)
    moreover have "tail_next ?s zs = tail_next s (ys @ x # zs)" using 2 b by (simp add: tail_next_def)
    ultimately show ?thesis using 2 by (intro exI [of _ ?s]) simp
  next
    case 3
    then obtain a where a: "elements s (last ys) = Some a" "Previous e = Some (last ys)" using lx by blast
    let ?s = "s\<lparr>Tail := Some (last ys), elements := (elements s)(last ys \<mapsto> a\<lparr>Next := None\<rparr>)\<rparr>"
    have "PCB_Remove x s = Inr ?s"
      using 3 ht nh e a by (simp add: PCB_Remove_def PCB_IsEmpty_def element_at_def update_element_def)
    moreover have pp: "pid_of ?s = pid_of s" using a by (auto simp: pid_of_def fun_eq_iff)
    moreover have "linked (elements ?s) ys" by (rule linked_cong [OF l2(1)]) (use d a in auto)
    then have "chain ?s ys" using 3 ht ex p d pp by (auto simp: chain_def)
    moreover have "tail_next ?s ys = None" by (simp add: tail_next_def)
    ultimately show ?thesis using 3 by (intro exI [of _ ?s]) simp
  next
    case 4
    then obtain a b where a: "elements s (last ys) = Some a" "Previous e = Some (last ys)"
        and b: "elements s (hd zs) = Some b" "Next e = Some (hd zs)" using lx xz by blast
    let ?els = "(elements s)(last ys \<mapsto> a\<lparr>Next := Some (hd zs)\<rparr>, hd zs \<mapsto> b\<lparr>Previous := Some (last ys)\<rparr>)"
    let ?s = "s\<lparr>elements := ?els\<rparr>"
    have "PCB_Remove x s = Inr ?s"
      using 4 ht nh e a b by (simp add: PCB_Remove_def PCB_IsEmpty_def element_at_def update_element_def)
    moreover have pp: "pid_of ?s = pid_of s" using a b by (auto simp: pid_of_def fun_eq_iff)
    moreover have "linked ?els ys" by (rule linked_cong [OF l2(1)]) (use d a nh 4 in auto)
    moreover have "linked ?els zs" by (rule linked_cong [OF l2(2)]) (use d b nh 4 in auto)
    ultimately have "chain ?s (ys @ zs)"
      using 4 ht ex p d nh by (auto simp: chain_def linked_append link_def)
    moreover have "tail_next ?s (ys @ zs) = tail_next s (ys @ x # zs)"
      using 4 b nh by (auto simp: tail_next_def)
    ultimately show ?thesis using 4 \<open>PCB_Remove x s = Inr ?s\<close> pp by (intro exI [of _ ?s]) simp
  qed
qed

subsection \<open>The interface of the process table\<close>

text \<open>
  What the system calls use of the list: rows with different keys, in order; a row can be appended, removed,
  and looked up by its key. Looking up an absent key is promised an answer only in a table of two rows or
  more.
\<close>

locale pid_table =
  fixes append_row remove_row :: "nat \<Rightarrow> 's \<Rightarrow> 's res" and lookup :: "int \<Rightarrow> 's \<Rightarrow> nat option res"
    and rows :: "'s \<Rightarrow> nat list \<Rightarrow> bool" and key :: "'s \<Rightarrow> nat \<Rightarrow> int" and allocated :: "'s \<Rightarrow> nat \<Rightarrow> bool"
  assumes append_row: "rows s xs \<Longrightarrow> allocated s x \<Longrightarrow> x \<notin> set xs \<Longrightarrow> key s x \<notin> key s ` set xs \<Longrightarrow>
      \<exists>s'. append_row x s = Inr s' \<and> rows s' (xs @ [x]) \<and> key s' = key s"
    and remove_row: "rows s (ys @ x # zs) \<Longrightarrow>
      \<exists>s'. remove_row x s = Inr s' \<and> rows s' (ys @ zs) \<and> key s' = key s"
    and lookup: "rows s xs \<Longrightarrow> x \<in> set xs \<Longrightarrow> lookup (key s x) s = Inr (Some x)"
    and absent: "rows s xs \<Longrightarrow> pid \<notin> key s ` set xs \<Longrightarrow> 2 \<le> length xs \<Longrightarrow> lookup pid s = Inr None"
begin

lemma append_lookup:
  assumes "rows s xs" and "allocated s x" and "x \<notin> set xs" and "key s x \<notin> key s ` set xs"
  shows "\<exists>s'. append_row x s = Inr s' \<and> rows s' (xs @ [x]) \<and> key s' = key s \<and>
    (\<forall>y\<in>set (xs @ [x]). lookup (key s y) s' = Inr (Some y))"
  using append_row [OF assms] lookup by fastforce

lemma remove_lookup:
  assumes "rows s (ys @ x # zs)" and "2 \<le> length (ys @ zs)" and "key s x \<notin> key s ` set (ys @ zs)"
  shows "\<exists>s'. remove_row x s = Inr s' \<and> rows s' (ys @ zs) \<and> lookup (key s x) s' = Inr None \<and>
    (\<forall>y\<in>set (ys @ zs). lookup (key s y) s' = Inr (Some y))"
proof -
  obtain s' where s': "remove_row x s = Inr s'" "rows s' (ys @ zs)" "key s' = key s"
    using remove_row [OF assms(1)] by blast
  then have "lookup (key s x) s' = Inr None" using absent [OF s'(2), of "key s x"] assms(2,3) by simp
  with s' lookup [OF s'(2)] show ?thesis by auto
qed

lemma append_remove:
  assumes "rows s xs" and "allocated s x" and "x \<notin> set xs" and "key s x \<notin> key s ` set xs"
  shows "\<exists>s1 s2. append_row x s = Inr s1 \<and> remove_row x s1 = Inr s2 \<and> rows s2 xs \<and> key s2 = key s"
  using append_row [OF assms] remove_row [of _ xs x "[]"] by fastforce

end

interpretation pcb: pid_table PCB_Append PCB_Remove PCB_Return chain pid_of
    "\<lambda>s x. elements s x \<noteq> None \<and> x < nextElement s"
proof
  show "\<exists>s'. PCB_Append x s = Inr s' \<and> chain s' (xs @ [x]) \<and> pid_of s' = pid_of s"
    if "chain s xs" "elements s x \<noteq> None \<and> x < nextElement s" "x \<notin> set xs" "pid_of s x \<notin> pid_of s ` set xs"
    for s :: "'a ProcessState_scheme" and xs x
    using PCB_Append_chain [OF that(1) _ _ that(3,4)] that(2) by blast
  show "\<exists>s'. PCB_Remove x s = Inr s' \<and> chain s' (ys @ zs) \<and> pid_of s' = pid_of s"
    if "chain s (ys @ x # zs)" for s :: "'a ProcessState_scheme" and ys x zs
    using PCB_Remove_chain [OF that] by blast
qed (auto intro: PCB_Return_found PCB_Return_absent)

text \<open>
  C32. The process table. Appending a new process to a list of processes keeps it a list, in which every
  process is found by its number, the new one too; removing any process from a list of three or more keeps it a
  list in which the others are found and the removed one is reported absent; and removing a process that was
  just appended gives the list back.
\<close>

theorem ProcessList_is_a_table:
  assumes "chain s xs" and "elements s x \<noteq> None" and "x < nextElement s" and "x \<notin> set xs"
    and "pid_of s x \<notin> pid_of s ` set xs"
  shows "(\<exists>s1. PCB_Append x s = Inr s1 \<and> chain s1 (xs @ [x]) \<and>
      (\<forall>y\<in>set (xs @ [x]). PCB_Return (pid_of s y) s1 = Inr (Some y)) \<and>
      (\<exists>s2. PCB_Remove x s1 = Inr s2 \<and> chain s2 xs)) \<and>
    (\<forall>ys y zs. xs = ys @ y # zs \<longrightarrow> 2 \<le> length (ys @ zs) \<longrightarrow>
      (\<exists>s2. PCB_Remove y s = Inr s2 \<and> chain s2 (ys @ zs) \<and> PCB_Return (pid_of s y) s2 = Inr None \<and>
        (\<forall>z\<in>set (ys @ zs). PCB_Return (pid_of s z) s2 = Inr (Some z))))"
proof (intro conjI allI impI)
  obtain s1 where s1: "PCB_Append x s = Inr s1" "chain s1 (xs @ [x])" "pid_of s1 = pid_of s"
      "\<forall>y\<in>set (xs @ [x]). PCB_Return (pid_of s y) s1 = Inr (Some y)"
    using pcb.append_lookup [OF assms(1) _ assms(4,5)] assms(2,3) by blast
  then show "\<exists>s1. PCB_Append x s = Inr s1 \<and> chain s1 (xs @ [x]) \<and>
      (\<forall>y\<in>set (xs @ [x]). PCB_Return (pid_of s y) s1 = Inr (Some y)) \<and>
      (\<exists>s2. PCB_Remove x s1 = Inr s2 \<and> chain s2 xs)"
    using pcb.remove_row [of s1 xs x "[]"] by auto
  fix ys y zs assume xs: "xs = ys @ y # zs" and l: "2 \<le> length (ys @ zs)"
  then have "pid_of s y \<notin> pid_of s ` set (ys @ zs)" using assms(1) by (auto simp: chain_def)
  then show "\<exists>s2. PCB_Remove y s = Inr s2 \<and> chain s2 (ys @ zs) \<and> PCB_Return (pid_of s y) s2 = Inr None \<and>
        (\<forall>z\<in>set (ys @ zs). PCB_Return (pid_of s z) s2 = Inr (Some z))"
    using pcb.remove_lookup [of s ys y zs] assms(1) xs l by auto
qed

text \<open>
  Asking for an exited child can crash the kernel. When a process has started a child, the child has
  exited, and the parent is the only process left, looking up the child (as \<open>Join\<close> does) dereferences
  a null pointer: removing the tail has set the next pointer of the one remaining node to \<open>NULL\<close>.
\<close>

theorem lookup_of_exited_child_crashes:
  assumes "chain s [p]" and "elements s c \<noteq> None" and "c < nextElement s" and "c \<noteq> p" and "pid_of s c \<noteq> pid_of s p"
  shows "\<exists>s1 s2. PCB_Append c s = Inr s1 \<and> PCB_Return (pid_of s c) s1 = Inr (Some c) \<and>
    PCB_Remove c s1 = Inr s2 \<and> PCB_Return (pid_of s c) s2 = Inl NullPointer"
proof -
  obtain s1 where s1: "PCB_Append c s = Inr s1" "chain s1 ([p] @ [c])" "pid_of s1 = pid_of s"
    using PCB_Append_chain [OF assms(1-3)] assms(4,5) by auto
  obtain s2 where s2: "PCB_Remove c s1 = Inr s2" "chain s2 [p]" "tail_next s2 [p] = None" "pid_of s2 = pid_of s1"
    using PCB_Remove_chain [of s1 "[p]" c "[]"] s1(2) by auto
  have "PCB_Return (pid_of s c) s2 = Inl NullPointer"
    using PCB_Return_single(1) [OF s2(2) _ s2(3)] s2(4) s1(3) assms(5) by simp
  moreover have "PCB_Return (pid_of s c) s1 = Inr (Some c)"
    using PCB_Return_found [OF s1(2), of c] s1(3) by simp
  ultimately show ?thesis using s1(1) s2(1) by blast
qed

subsection \<open>A concrete table\<close>

text \<open>Process 7 on the list, the control block of its child 8 allocated.\<close>

definition demo_element :: "int \<Rightarrow> nat \<Rightarrow> ProcessElement" where
  "demo_element pid x = \<lparr>Next = Some x, Previous = Some x, CurrentThread = x, PID = pid, Valid = True,
     ParentPID = 0, ProcessSemaphore = x\<rparr>"

definition demo_processes :: ProcessState where
  "demo_processes = KernelState.extend demo_kernel (ProcessState.fields
     [0 \<mapsto> demo_element 7 0, 1 \<mapsto> demo_element 8 1, 2 \<mapsto> demo_element 9 2] 3 (Some 0) (Some 0) 1 0
     (\<lambda>_. None) (\<lambda>_. []) [] [])"

lemma demo_processes_fields [simp]:
  "elements demo_processes = [0 \<mapsto> demo_element 7 0, 1 \<mapsto> demo_element 8 1, 2 \<mapsto> demo_element 9 2]"
  "nextElement demo_processes = 3" "Head demo_processes = Some 0" "Tail demo_processes = Some 0"
  by (simp_all add: demo_processes_def KernelState.defs ProcessState.defs)

lemma demo_chain: "chain demo_processes [0]" "pid_of demo_processes 0 = 7" "pid_of demo_processes 1 = 8"
    "pid_of demo_processes 2 = 9"
  by (simp_all add: chain_def pid_of_def demo_element_def)

theorem ProcessList_is_a_table_witness:
  "\<exists>s1. PCB_Append 2 demo_processes = Inr s1 \<and> chain s1 [0, 2] \<and> PCB_Return 9 s1 = Inr (Some 2)"
  using ProcessList_is_a_table [OF demo_chain(1), of 2] by (auto simp: demo_chain)

theorem lookup_of_exited_child_crashes_witness:
  "\<exists>s1 s2. PCB_Append 1 demo_processes = Inr s1 \<and> PCB_Return 8 s1 = Inr (Some 1) \<and>
    PCB_Remove 1 s1 = Inr s2 \<and> PCB_Return 8 s2 = Inl NullPointer"
  using lookup_of_exited_child_crashes [OF demo_chain(1), of 1] demo_chain by simp

end
