(* ===== verification/Nachos_Syscall.thy ===== *)
theory Nachos_Syscall
  imports Nachos_Process Nachos_Exec
begin

section \<open>System calls and exceptions: userprog/exception.cc\<close>

text \<open>
  The kernel's \<open>ExceptionHandler\<close> with every system call. A call that can give up the processor (\<open>Yield\<close>, a
  semaphore's \<open>P\<close>, \<open>Finish\<close>, or enabling interrupts when the timer has fired) is modelled with an
  argument \<open>others\<close>: what the rest of the system does from the context switch until this thread is
  switched in again. \<open>r\<close> says whether the timer is random, as \<open>-rs\<close> asks; \<open>n\<close> bounds loops that need not end:
  the nesting of yields, the turns of \<open>P\<close> and of the idle loop, the retries of \<open>Write\<close>, the nesting of
  exceptions. Messages that the code prints are not modelled.
\<close>

unbundle bit_operations_syntax

subsection \<open>Calls that can switch threads\<close>

text \<open>What \<open>CheckIfDue\<close> and \<open>Scheduler::Run\<close> do under \<open>USER_PROGRAM\<close>.\<close>

definition dl_user :: "'a process_action" where
  "dl_user s = DelayedLoad 0 0 s"

definition save_user :: "'a process_action" where
  "save_user s = andThen (thread_at (currentThread s) s) (\<lambda>th. case t_space th of
     None \<Rightarrow> Inr s
   | Some x \<Rightarrow> andThen (SaveUserState (currentThread s) s) (\<lambda>s1.
       andThen (space_at x s1) (\<lambda>a. SaveState a s1)))"

definition restore_user :: "'a process_action" where
  "restore_user s = andThen (thread_at (currentThread s) s) (\<lambda>th. case t_space th of
     None \<Rightarrow> Inr s
   | Some x \<Rightarrow> andThen (RestoreUserState (currentThread s) s) (\<lambda>s1.
       andThen (space_at x s1) (\<lambda>a. RestoreState a s1)))"

fun Yield_call :: "nat \<Rightarrow> bool \<Rightarrow> 'a process_action \<Rightarrow> 'a process_action" where
  "Yield_call 0 r others s = Inl Diverges"
| "Yield_call (Suc n) r others s =
     andThen (SetLevel (timer_only r) dl_user (Yield_call n r others) IntOff s) (\<lambda>(oldLevel, s1).
     andThen (Yield_body save_user (currentThread s1) s1) (\<lambda>(switched, s2).
     andThen (if switched then andThen (others s2) (Run_in restore_user) else Inr s2) (\<lambda>s3.
     andThen (SetLevel (timer_only r) dl_user (Yield_call n r others) oldLevel s3) (\<lambda>(_, s4). Inr s4))))"

definition set_level :: "nat \<Rightarrow> bool \<Rightarrow> 'a process_action \<Rightarrow> IntStatus \<Rightarrow> 'a ProcessState_scheme \<Rightarrow>
    (IntStatus \<times> 'a ProcessState_scheme) res" where
  "set_level n r others = SetLevel (timer_only r) dl_user (Yield_call n r others)"

definition tick :: "nat \<Rightarrow> bool \<Rightarrow> 'a process_action \<Rightarrow> 'a process_action" where
  "tick n r others = OneTick (timer_only r) dl_user (Yield_call n r others)"

definition idle_user :: "bool \<Rightarrow> 'a process_action" where
  "idle_user r = Idle (timer_only r) dl_user"

fun P_loop :: "nat \<Rightarrow> bool \<Rightarrow> 'a process_action \<Rightarrow> nat \<Rightarrow> 'a process_action" where
  "P_loop 0 r others m s = Inl Diverges"
| "P_loop (Suc n) r others m s = andThen (P_turn n (idle_user r) save_user m s) (\<lambda>(taken, s1).
     if taken then Inr s1
     else andThen (others s1) (\<lambda>s2. andThen (Run_in restore_user s2) (P_loop n r others m)))"

definition P_call :: "nat \<Rightarrow> bool \<Rightarrow> 'a process_action \<Rightarrow> nat \<Rightarrow> 'a process_action" where
  "P_call n r others m s = andThen (set_level n r others IntOff s) (\<lambda>(oldLevel, s1).
     andThen (P_loop n r others m s1) (\<lambda>s2.
     andThen (set_level n r others oldLevel s2) (\<lambda>(_, s3). Inr s3)))"

definition V_call :: "nat \<Rightarrow> bool \<Rightarrow> 'a process_action \<Rightarrow> nat \<Rightarrow> 'a process_action" where
  "V_call n r others m = V (timer_only r) dl_user (Yield_call n r others) m"

definition Fork_call :: "nat \<Rightarrow> bool \<Rightarrow> 'a process_action \<Rightarrow> nat \<Rightarrow> nat \<Rightarrow> int \<Rightarrow> 'a process_action" where
  "Fork_call n r others t func arg = Fork (timer_only r) dl_user (Yield_call n r others) t func arg"

text \<open>\<open>Finish\<close> does not return, unless \<open>others\<close> ran a thread that is destroyed.\<close>

definition Finish_call :: "nat \<Rightarrow> bool \<Rightarrow> 'a process_action \<Rightarrow> 'a process_action" where
  "Finish_call n r others s = andThen (set_level n r others IntOff s) (\<lambda>(_, s1).
     andThen (Finish_body n (idle_user r) save_user (currentThread s1) s1) (\<lambda>s2.
     andThen (others s2) (Run_in restore_user)))"

subsection \<open>The end of a process (addrspace.cc)\<close>

text \<open>
  \<open>CleanupExit\<close> takes the current process off the list and wakes its parent. A node it allocates first, with
  members that hold \<open>junk\<close>, stands in when the process is not on the list.
\<close>

definition CleanupExit :: "nat \<Rightarrow> bool \<Rightarrow> 'a process_action \<Rightarrow> ProcessElement \<Rightarrow> 'a process_action" where
  "CleanupExit n r others junk s =
     andThen (GetId (currentThread s) s) (\<lambda>pid.
     let (temp, s1) = new_element junk s
     in andThen (PCB_Return pid s1) (\<lambda>found.
     andThen (case found of None \<Rightarrow> Inr (temp, s1)
       | Some x \<Rightarrow> andThen (PCB_Remove x s1) (\<lambda>s2. Inr (x, s2))) (\<lambda>(x, s2).
     andThen (element_at (Some x) s2) (\<lambda>e.
       if ParentPID e \<noteq> 0 then
         andThen (PCB_Return (ParentPID e) s2) (\<lambda>parent.
         andThen (element_at parent s2) (\<lambda>p. V_call n r others (ProcessSemaphore p) s2))
       else Inr s2))))"

definition AddrSpace_delete :: "nat \<Rightarrow> bool \<Rightarrow> 'a process_action \<Rightarrow> ProcessElement \<Rightarrow> nat \<Rightarrow> 'a process_action" where
  "AddrSpace_delete n r others junk x s =
     andThen (space_at x s) (\<lambda>a.
     andThen (free_frames a s) (\<lambda>s1.
     andThen (CleanupExit n r others junk s1) (\<lambda>s2.
     andThen (P_call n r others (MutexNumProc s2) s2) (\<lambda>s3.
     let s4 = s3\<lparr>NumProcess := NumProcess s3 - 1\<rparr>
     in andThen (V_call n r others (MutexNumProc s4) s4) (Finish_call n r others)))))"

subsection \<open>Advancing the program counters, and starting a child\<close>

definition AdvancePC :: "'a MachineState_scheme \<Rightarrow> 'a MachineState_scheme" where
  "AdvancePC s = (let s1 = set_reg PrevPCReg (reg s PCReg) s;
     s2 = set_reg PCReg (reg s1 NextPCReg) s1
     in set_reg NextPCReg (reg s2 NextPCReg + 4) s2)"

definition current_space :: "'a ProcessState_scheme \<Rightarrow> nat res" where
  "current_space s = andThen (thread_at (currentThread s) s) (\<lambda>th.
     case t_space th of None \<Rightarrow> Inl NullPointer | Some x \<Rightarrow> Inr x)"

text \<open>\<open>processCreator\<close>, up to the call of \<open>machine->Run\<close>.\<close>

definition processCreator :: "nat \<Rightarrow> bool \<Rightarrow> 'a process_action \<Rightarrow> 'a process_action" where
  "processCreator n r others s = andThen (Yield_call n r others s) (\<lambda>s1.
     andThen (current_space s1) (\<lambda>x. andThen (space_at x s1) (\<lambda>a.
     andThen (InitRegisters a s1) (RestoreState a))))"

subsection \<open>The system calls\<close>

definition SC_Halt :: "32 word" where "SC_Halt = 0"
definition SC_Exit :: "32 word" where "SC_Exit = 1"
definition SC_Exec :: "32 word" where "SC_Exec = 2"
definition SC_Join :: "32 word" where "SC_Join = 3"
definition SC_Read :: "32 word" where "SC_Read = 6"
definition SC_Write :: "32 word" where "SC_Write = 7"
definition SC_Yield :: "32 word" where "SC_Yield = 10"

lemmas syscall_defs = SC_Halt_def SC_Exit_def SC_Exec_def SC_Join_def SC_Read_def SC_Write_def SC_Yield_def

definition NumBuff :: nat where "NumBuff = 128"

text \<open>
  Reading the name for \<open>Exec\<close>: characters up to a zero byte into \<open>filename[128]\<close>. The guard lets the index
  reach 128. \<open>None\<close> when a byte cannot be read or the guard fails.
\<close>

fun name_loop :: "nat \<Rightarrow> 'a exception_handler \<Rightarrow> 32 word \<Rightarrow> 8 word list \<Rightarrow> 32 word \<Rightarrow> 'a MachineState_scheme \<Rightarrow>
    (8 word list option \<times> 'a MachineState_scheme) res" where
  "name_loop 0 eh addr name val s = Inl Diverges"
| "name_loop (Suc n) eh addr name val s =
     (if val = 0 then (if length name < NumBuff then Inr (Some name, s) else Inl OutOfBounds)
      else if length name \<le> NumBuff then
        (if length name < NumBuff then
           andThen (ReadMem eh (addr + 1) 1 s) (\<lambda>(v, s1). case v of
             None \<Rightarrow> Inr (None, s1)
           | Some val' \<Rightarrow> name_loop n eh (addr + 1) (name @ [ucast val]) val' s1)
         else Inl OutOfBounds)
      else Inr (None, s))"

definition read_name :: "'a exception_handler \<Rightarrow> 32 word \<Rightarrow> 'a MachineState_scheme \<Rightarrow>
    (8 word list option \<times> 'a MachineState_scheme) res" where
  "read_name eh addr s = andThen (ReadMem eh addr 1 s) (\<lambda>(v, s1). case v of
     None \<Rightarrow> Inr (None, s1)
   | Some val \<Rightarrow> name_loop (Suc (Suc NumBuff)) eh addr [] val s1)"

text \<open>
  \<open>junk\<close> holds what the memory of new objects contains: the thread's registers and number, the space's
  members, the header on the stack and the node of the process list.
\<close>

record Junk =
  j_thread :: "int \<times> 32 word list"
  j_space :: "bool \<times> nat"
  j_header :: "8 word list"
  j_element :: ProcessElement

definition exec_failed :: "int \<Rightarrow> 'a process_action" where
  "exec_failed pid s = WriteRegister 2 (word_of_int pid) (AdvancePC s)"

definition process_creator_code :: nat where "process_creator_code = 0"

definition start_process :: "nat \<Rightarrow> bool \<Rightarrow> 'a process_action \<Rightarrow> nat \<Rightarrow> int \<Rightarrow> 'a process_action" where
  "start_process n r others t pid s =
     andThen (P_call n r others (MutexNumProc s) s) (\<lambda>s1.
     let s2 = s1\<lparr>NumProcess := NumProcess s1 + 1\<rparr>
     in andThen (V_call n r others (MutexNumProc s2) s2) (Fork_call n r others t process_creator_code pid))"

definition exec_file :: "nat \<Rightarrow> bool \<Rightarrow> 'a process_action \<Rightarrow> Junk \<Rightarrow> nat \<Rightarrow> int \<Rightarrow> host_file \<Rightarrow> 'a process_action" where
  "exec_file n r others junk t pid f s =
     andThen (AddrSpace_new (j_header junk) (j_space junk) f s) (\<lambda>(x, s1).
     andThen (update_thread t (\<lambda>th. th\<lparr>t_space := Some x\<rparr>) s1) (\<lambda>s2.
     andThen (GetId (currentThread s2) s2) (\<lambda>parent.
     let (sem, s3) = Semaphore_new ''ProcessSemaphore'' 0 s2; el = nextElement s3;
         (_, s4) = new_element ((j_element junk)\<lparr>ParentPID := parent, PID := pid, CurrentThread := t,
           ProcessSemaphore := sem, Next := Some el, Previous := Some el\<rparr>) s3
     in andThen (space_at x s4) (\<lambda>a.
     andThen (update_element (Some el) (\<lambda>e. e\<lparr>Valid := SpaceFound a\<rparr>) s4) (\<lambda>s5.
     andThen (if SpaceFound a then start_process n r others t pid s5 else Inr s5) (\<lambda>s6.
     andThen (PCB_Append el s6) (\<lambda>s7.
     andThen (WriteRegister 2 (word_of_int pid) s7) (\<lambda>s8. Inr (AdvancePC s8)))))))))"

definition sys_Exec :: "nat \<Rightarrow> bool \<Rightarrow> 'a process_action \<Rightarrow> Junk \<Rightarrow>
    (ExceptionType \<Rightarrow> 'a process_action) \<Rightarrow> 'a process_action" where
  "sys_Exec n r others junk eh s =
     andThen (ReadRegister 4 s) (\<lambda>addr.
     let (t, s1) = Thread_new ''SyscallThread'' (j_thread junk) s
     in andThen (CreatId t s1) (\<lambda>s2.
     andThen (GetId t s2) (\<lambda>pid.
     andThen (read_name eh addr s2) (\<lambda>(name, s3). case name of
         None \<Rightarrow> exec_failed pid s3
       | Some filename \<Rightarrow> (case hostFiles s3 filename of
             None \<Rightarrow> Inr (AdvancePC s3)
           | Some f \<Rightarrow> exec_file n r others junk t pid f s3)))))"

definition sys_Join :: "nat \<Rightarrow> bool \<Rightarrow> 'a process_action \<Rightarrow> 'a process_action" where
  "sys_Join n r others s =
     andThen (ReadRegister 4 s) (\<lambda>child.
     andThen (PCB_Return (sint child) s) (\<lambda>found. case found of
         None \<Rightarrow> andThen (WriteRegister 2 (- 1) s) (\<lambda>s1. Inr (AdvancePC s1))
       | Some x \<Rightarrow> andThen (element_at (Some x) s) (\<lambda>e.
           andThen (if Valid e then
               andThen (PCB_Return (ParentPID e) s) (\<lambda>parent.
               andThen (element_at parent s) (\<lambda>p.
               andThen (P_call n r others (ProcessSemaphore p) s) (WriteRegister 2 0)))
             else Inr s) (\<lambda>s1. Inr (AdvancePC s1)))))"

definition sys_Exit :: "nat \<Rightarrow> bool \<Rightarrow> 'a process_action \<Rightarrow> Junk \<Rightarrow> 'a process_action" where
  "sys_Exit n r others junk s = (let s1 = AdvancePC s in
     andThen (thread_at (currentThread s1) s1) (\<lambda>th. case t_space th of
         None \<Rightarrow> Inr s1
       | Some x \<Rightarrow> AddrSpace_delete n r others (j_element junk) x s1))"

definition sys_Yield :: "nat \<Rightarrow> bool \<Rightarrow> 'a process_action \<Rightarrow> 'a process_action" where
  "sys_Yield n r others s = andThen (Yield_call n r others s) (\<lambda>s1. Inr (AdvancePC s1))"

text \<open>
  \<open>Write\<close> copies the string at the address into \<open>ch[500]\<close> without looking at the length it is given, and
  tries an address that cannot be read again and again.
\<close>

fun write_loop :: "nat \<Rightarrow> 'a exception_handler \<Rightarrow> 32 word \<Rightarrow> 8 word list \<Rightarrow> 'a MachineState_scheme \<Rightarrow>
    (8 word list \<times> 'a MachineState_scheme) res" where
  "write_loop 0 eh addr ch s = Inl Diverges"
| "write_loop (Suc n) eh addr ch s =
     andThen (ReadMem eh (addr + of_nat (length ch)) 1 s) (\<lambda>(v, s1). case v of
         None \<Rightarrow> write_loop n eh addr ch s1
       | Some i \<Rightarrow> if length ch \<ge> 500 then Inl OutOfBounds
           else if (ucast i :: 8 word) = 0 then Inr (ch, s1)
           else write_loop n eh addr (ch @ [ucast i]) s1)"

definition SWrite :: "8 word list \<Rightarrow> 32 word \<Rightarrow> 'a process_action" where
  "SWrite buffer fd s = (if sint fd = 1 \<or> sint fd \<ge> 2
     then Inr (s\<lparr>hostOutput := hostOutput s @ [(sint fd, buffer)]\<rparr>) else Inr s)"

definition sys_Write :: "nat \<Rightarrow> (ExceptionType \<Rightarrow> 'a process_action) \<Rightarrow> 'a process_action" where
  "sys_Write n eh s =
     andThen (ReadRegister 4 s) (\<lambda>arg1. andThen (ReadRegister 6 s) (\<lambda>arg3.
     andThen (write_loop n eh arg1 [] s) (\<lambda>(ch, s1).
     andThen (if ch = [] then Inr s1 else SWrite ch arg3 s1) (\<lambda>s2. Inr (AdvancePC s2)))))"

text \<open>
  \<open>SRead\<close>: a word of standard input, or bytes of a host file one at a time, up to a zero byte. The buffer has
  \<open>size + 10\<close> bytes.
\<close>

fun store_loop :: "'a exception_handler \<Rightarrow> 32 word \<Rightarrow> nat \<Rightarrow> 8 word list \<Rightarrow> 'a MachineState_scheme \<Rightarrow>
    (nat \<times> 'a MachineState_scheme) res" where
  "store_loop eh addr num [] s = Inr (num, s)"
| "store_loop eh addr num (b # bs) s =
     andThen (WriteMem eh (addr + of_nat num) 1 (scast b) s) (\<lambda>(_, s1).
       if b = 0 then Inr (num, s1) else store_loop eh addr (Suc num) bs s1)"

definition word_buffer :: "int \<Rightarrow> 8 word list \<Rightarrow> 8 word list res" where
  "word_buffer sz w = (let num = int (length w) in
     if sz + 10 \<le> num then Inl OutOfBounds
     else if num > sz + 1 then (if sz + 1 < 0 then Inl OutOfBounds else Inr (take (nat (sz + 1)) w))
     else Inr (w @ [0]))"

fun file_loop :: "nat \<Rightarrow> (ExceptionType \<Rightarrow> 'a process_action) \<Rightarrow> int \<Rightarrow> 32 word \<Rightarrow> nat \<Rightarrow> 'a ProcessState_scheme \<Rightarrow>
    (nat \<times> 'a ProcessState_scheme) res" where
  "file_loop 0 eh fd addr num s = Inr (num, s)"
| "file_loop (Suc k) eh fd addr num s = (case hostInput s fd of
     [] \<Rightarrow> Inl Assertion
   | b # bs \<Rightarrow>
       andThen (WriteMem eh (addr + of_nat num) 1 (scast b) (s\<lparr>hostInput := (hostInput s)(fd := bs)\<rparr>)) (\<lambda>(_, s1).
         if b = 0 then Inr (num, s1) else file_loop k eh fd addr (Suc num) s1))"

definition SRead :: "(ExceptionType \<Rightarrow> 'a process_action) \<Rightarrow> 32 word \<Rightarrow> int \<Rightarrow> int \<Rightarrow> 'a ProcessState_scheme \<Rightarrow>
    (nat \<times> 'a ProcessState_scheme) res" where
  "SRead eh addr sz fd s =
     (if sz + 10 \<le> 0 then Inl OutOfBounds
      else if fd = 0 then (case hostWords s of
        [] \<Rightarrow> Inl OutOfBounds
      | w # ws \<Rightarrow> andThen (word_buffer sz w) (\<lambda>buffer.
          store_loop eh addr 0 buffer (s\<lparr>hostWords := ws\<rparr>)))
      else file_loop (nat sz) eh fd addr 0 s)"

definition sys_Read :: "(ExceptionType \<Rightarrow> 'a process_action) \<Rightarrow> 'a process_action" where
  "sys_Read eh s =
     andThen (ReadRegister 4 s) (\<lambda>arg1. andThen (ReadRegister 5 s) (\<lambda>arg2. andThen (ReadRegister 6 s) (\<lambda>arg3.
     andThen (SRead eh arg1 (sint arg2) (sint arg3) s) (\<lambda>(result, s1).
     andThen (WriteRegister 2 (of_nat result) s1) (\<lambda>s2. Inr (AdvancePC s2))))))"

subsection \<open>The exception handler\<close>

definition syscall :: "nat \<Rightarrow> bool \<Rightarrow> 'a process_action \<Rightarrow> Junk \<Rightarrow> (ExceptionType \<Rightarrow> 'a process_action) \<Rightarrow>
    32 word \<Rightarrow> 'a process_action" where
  "syscall n r others junk eh type s =
     (if type = SC_Exec then sys_Exec n r others junk eh s
      else if type = SC_Join then sys_Join n r others s
      else if type = SC_Exit then sys_Exit n r others junk s
      else if type = SC_Yield then sys_Yield n r others s
      else if type = SC_Halt then Halt (AdvancePC s)
      else if type = SC_Read then sys_Read eh s
      else if type = SC_Write then sys_Write n eh s
      else Inr (AdvancePC s))"

text \<open>
  The test \<open>currentThread->getName() == "main"\<close> compares pointers to string literals of two files; whether equal
  literals are one object is up to the compiler and linker (\<open>merged\<close>).
\<close>

definition named_main :: "bool \<Rightarrow> 'a ThreadState_scheme \<Rightarrow> bool res" where
  "named_main merged s = andThen (thread_at (currentThread s) s) (\<lambda>th. Inr (merged \<and> t_name th = ''main''))"

text \<open>Exceptions raised while a system call touches user memory enter the handler again.\<close>

fun ExceptionHandler :: "nat \<Rightarrow> bool \<Rightarrow> bool \<Rightarrow> 'a process_action \<Rightarrow> Junk \<Rightarrow> ExceptionType \<Rightarrow> 'a process_action" where
  "ExceptionHandler 0 merged r others junk which s = Inl Diverges"
| "ExceptionHandler (Suc n) merged r others junk which s = andThen (ReadRegister 2 s) (\<lambda>type.
     case which of
       NoException \<Rightarrow> Inr s
     | SyscallException \<Rightarrow> syscall n r others junk (ExceptionHandler n merged r others junk) type s
     | PageFaultException \<Rightarrow> Inr s
     | IllegalInstrException \<Rightarrow> andThen (named_main merged s) (\<lambda>main.
         let s1 = (if main then AdvancePC s else s) in ASSERT False (Inr s1))
     | _ \<Rightarrow> andThen (named_main merged s) (\<lambda>main. if main then ASSERT False (Inr s) else Inr s))"

end
