(* ===== verification/Nachos_Trap.thy ===== *)
theory Nachos_Trap
  imports Nachos_Syscall
begin

section \<open>What system calls keep and what they do\<close>

text \<open>
  The exception handler meets the contract that running user programs relies on (\<open>kernel_traps\<close>), and the clock the one of
  interrupt handlers; and the properties of the system calls.
\<close>

subsection \<open>The invariant that the handler keeps\<close>

text \<open>
  \<open>kernel_ok\<close>: the machine is well formed, and its page table is one that has been allocated. It depends on
  the machine part of the state only (\<open>mach\<close>).
\<close>

definition kernel_ok :: "'a KernelState_scheme \<Rightarrow> bool" where
  "kernel_ok s \<longleftrightarrow> machine_ok s \<and> (case pageTable s of None \<Rightarrow> True | Some t \<Rightarrow> t < nextTable s)"

definition mach :: "'a KernelState_scheme \<Rightarrow> 32 word list \<times> 8 word list \<times> TranslationEntry list option \<times>
    nat option \<times> 32 word \<times> (nat \<rightharpoonup> TranslationEntry list) \<times> nat" where
  "mach s = (registers s, mainMemory s, tlb s, pageTable s, pageTableSize s, tables s, nextTable s)"

lemma mach_kernel_ok: "mach s' = mach s \<Longrightarrow> kernel_ok s' = kernel_ok s"
  by (simp add: mach_def kernel_ok_def machine_ok_def memory_ok_def mmu_ok_def reg_def cong: option.case_cong)

lemma mach_updates [simp]:
  "mach (s\<lparr>stats := a\<rparr>) = mach s" "mach (s\<lparr>level := b\<rparr>) = mach s" "mach (s\<lparr>pending := c\<rparr>) = mach s"
  "mach (s\<lparr>inHandler := d\<rparr>) = mach s" "mach (s\<lparr>yieldOnReturn := d\<rparr>) = mach s" "mach (s\<lparr>status := e\<rparr>) = mach s"
  "mach (s\<lparr>rngPos := f\<rparr>) = mach s" "mach (s\<lparr>threads := g\<rparr>) = mach s" "mach (s\<lparr>nextThread := f\<rparr>) = mach s"
  "mach (s\<lparr>readyList := i\<rparr>) = mach s" "mach (s\<lparr>currentThread := f\<rparr>) = mach s"
  "mach (s\<lparr>threadToBeDestroyed := j\<rparr>) = mach s" "mach (s\<lparr>ProcessId := k\<rparr>) = mach s"
  "mach (s\<lparr>semaphores := l\<rparr>) = mach s" "mach (s\<lparr>nextSemaphore := f\<rparr>) = mach s"
  by (simp_all add: mach_def)

lemma mach_kernel_updates [simp]:
  "mach (s\<lparr>MainMemMap := m\<rparr>) = mach s" "mach (s\<lparr>spaces := n\<rparr>) = mach s" "mach (s\<lparr>nextSpace := f\<rparr>) = mach s"
  by (simp_all add: mach_def)

lemma mach_process_updates [simp]:
  "mach (s\<lparr>elements := a\<rparr>) = mach s" "mach (s\<lparr>nextElement := b\<rparr>) = mach s" "mach (s\<lparr>Head := c\<rparr>) = mach s"
  "mach (s\<lparr>Tail := c\<rparr>) = mach s" "mach (s\<lparr>NumProcess := d\<rparr>) = mach s" "mach (s\<lparr>hostInput := e\<rparr>) = mach s"
  "mach (s\<lparr>hostWords := f\<rparr>) = mach s" "mach (s\<lparr>hostOutput := g\<rparr>) = mach s"
  by (simp_all add: mach_def)

lemmas kernel_ok_updates [simp] = mach_updates [THEN mach_kernel_ok] mach_kernel_updates [THEN mach_kernel_ok]
  mach_process_updates [THEN mach_kernel_ok]

definition keeps :: "('a KernelState_scheme \<Rightarrow> 'a KernelState_scheme res) \<Rightarrow> bool" where
  "keeps f \<longleftrightarrow> (\<forall>s s'. kernel_ok s \<longrightarrow> f s = Inr s' \<longrightarrow> kernel_ok s')"

lemma keepsD: "keeps f \<Longrightarrow> kernel_ok s \<Longrightarrow> f s = Inr s' \<Longrightarrow> kernel_ok s'"
  by (simp add: keeps_def)

lemma kernel_ok_set_reg [simp]: "kernel_ok s \<Longrightarrow> d \<noteq> LoadReg \<Longrightarrow> kernel_ok (set_reg d v s)"
proof -
  assume a: "kernel_ok s" "d \<noteq> LoadReg"
  have "MachineState.more (set_reg d v s) = MachineState.more s" "pageTable (set_reg d v s) = pageTable s"
    by (simp_all add: set_reg_def)
  then have "nextTable (set_reg d v s) = nextTable s" by (simp add: set_reg_def)
  with a show "kernel_ok (set_reg d v s)"
    using machine_ok_set_reg [of s d v] by (simp add: kernel_ok_def set_reg_def cong: option.case_cong)
qed

lemma same_mmu_kernel_ok: "kernel_ok s \<Longrightarrow> machine_ok s' \<Longrightarrow> same_mmu s s' \<Longrightarrow> kernel_ok s'"
proof -
  assume a: "kernel_ok s" "machine_ok s'" "same_mmu s s'"
  have "nextTable s' = nextTable s" using a(3) by (cases s; cases s') (simp add: same_mmu_def)
  then show "kernel_ok s'" using a by (simp add: kernel_ok_def same_mmu_def cong: option.case_cong)
qed

lemma dl_user_keeps: "keeps dl_user"
  using DelayedLoad_ok [of _ 0 0] same_mmu_kernel_ok
  by (fastforce simp: keeps_def dl_user_def kernel_ok_def reg_defs)

subsection \<open>The clock and context switches\<close>

lemma more_mach: "IntState.more (s :: 'a KernelState_scheme) = IntState.more s' \<Longrightarrow> mach s' = mach s"
  by (cases s; cases s') (simp add: mach_def)

interpretation user_quiet: interrupt_keeps "timer_only r" dl_user kernel_ok
proof
  fix s s' :: "'a ProcessState_scheme" and k a
  show "kernel_ok s' \<and> level s' = IntOff"
    if "kernel_ok s" "level s = IntOff" "timer_only r k a s = Inr s'"
  proof -
    have "TimerExpired r a s = Inr s'" using that(3) by (cases k) (simp_all add: timer_only_def)
    from TimerExpired_more [OF this] show ?thesis using that mach_kernel_ok more_mach by metis
  qed
  show "kernel_ok s' \<and> level s' = level s" if "kernel_ok s" "dl_user s = Inr s'"
  proof -
    have "level s' = level s"
      using that(2) by (auto simp: dl_user_def DelayedLoad_def set_reg_def res_simps)
    then show ?thesis using keepsD [OF dl_user_keeps that] by simp
  qed
  show "kernel_ok s'" if "IntState.more s = IntState.more s'" "kernel_ok s"
    using that mach_kernel_ok more_mach by metis
qed

interpretation user_clock: interrupt_env "timer_only r" dl_user kernel_ok "\<lambda>k. k = TimerHandler"
proof
  fix s s' :: "'a ProcessState_scheme" and k a
  show "\<exists>s'. timer_only r k a s = Inr s' \<and> kernel_ok s' \<and> queue_ok (\<lambda>k. k = TimerHandler) s' \<and>
      level s' = IntOff \<and> inHandler s' \<and> same_time s s' \<and> due s' = due s"
    if "kernel_ok s" "queue_ok (\<lambda>k. k = TimerHandler) s" "k = TimerHandler" "level s = IntOff" "inHandler s"
  proof -
    note a = that
    obtain s' where "TimerExpired r a s = Inr s'" "queue_ok (\<lambda>k. k = TimerHandler) s'" "due s' = due s"
        "level s' = level s" "inHandler s'" "same_time s s'" "IntState.more s' = IntState.more s"
      using TimerExpired_queue [OF a(2,5)] by blast
    then show ?thesis using a more_mach [of s s'] mach_kernel_ok [of s' s] by (auto simp: timer_only_def)
  qed
  show "\<exists>s'. dl_user s = Inr s' \<and> kernel_ok s' \<and> IntState.truncate s' = IntState.truncate s" if ok: "kernel_ok s"
  proof -
    obtain s' where s': "dl_user s = Inr s'"
      using DelayedLoad_ok [of s 0 0] ok by (auto simp: dl_user_def kernel_ok_def reg_defs)
    then have "IntState.truncate s' = IntState.truncate s"
      by (auto simp: dl_user_def DelayedLoad_def set_reg_def res_simps IntState.truncate_def)
    then show ?thesis using s' keepsD [OF dl_user_keeps ok] by blast
  qed
  show "kernel_ok s'" if "IntState.more s = IntState.more s'" "kernel_ok s"
    using that mach_kernel_ok more_mach by metis
qed

subsection \<open>Every operation of the kernel keeps the invariant\<close>

text \<open>\<open>result_ok P m\<close>: if \<open>m\<close> returns, then \<open>P\<close> holds of what it returns.\<close>

definition result_ok :: "('b \<Rightarrow> bool) \<Rightarrow> 'b res \<Rightarrow> bool" where
  "result_ok P m \<longleftrightarrow> (case m of Inl _ \<Rightarrow> True | Inr x \<Rightarrow> P x)"

lemma result_ok_simps [simp]:
  "result_ok P (Inl e)" "result_ok P (Inr x) = P x"
  "result_ok P (ASSERT c m) = (c \<longrightarrow> result_ok P m)"
  by (cases m; simp add: result_ok_def ASSERT_def)+

lemma result_ok_andThen [simp]: "result_ok P (andThen m f) = result_ok (\<lambda>x. result_ok P (f x)) m"
  by (cases m) simp_all

lemma result_ok_True [simp]: "result_ok (\<lambda>_. True) m"
  by (cases m) simp_all

lemma result_ok_mono: "result_ok Q m \<Longrightarrow> (\<And>x. Q x \<Longrightarrow> P x) \<Longrightarrow> result_ok P m"
  by (cases m) simp_all

lemma result_okI: "(\<And>x. m = Inr x \<Longrightarrow> P x) \<Longrightarrow> result_ok P m"
  by (cases m) simp_all

lemma result_okD: "result_ok P m \<Longrightarrow> m = Inr x \<Longrightarrow> P x"
  by simp

lemma result_ok_if:
  "(b \<Longrightarrow> result_ok P m) \<Longrightarrow> (\<not> b \<Longrightarrow> result_ok P n) \<Longrightarrow> result_ok P (if b then m else n)"
  by simp

lemma keeps_iff: "keeps f \<longleftrightarrow> (\<forall>s. kernel_ok s \<longrightarrow> result_ok kernel_ok (f s))"
  by (auto simp: keeps_def result_ok_def split: sum.split)

lemma keeps_ok: "keeps f \<Longrightarrow> kernel_ok s \<Longrightarrow> result_ok kernel_ok (f s)"
  by (simp add: keeps_iff)

lemma keepsI: "(\<And>s. kernel_ok s \<Longrightarrow> result_ok kernel_ok (f s)) \<Longrightarrow> keeps f"
  by (simp add: keeps_iff)

lemma mach_keeps: "result_ok (\<lambda>s'. mach s' = mach s) m \<Longrightarrow> kernel_ok s \<Longrightarrow> result_ok kernel_ok m"
  by (erule result_ok_mono) (metis mach_kernel_ok)

lemma foldRes_keeps:
  fixes f :: "'b KernelState_scheme \<Rightarrow> 'c \<Rightarrow> 'b KernelState_scheme res"
  shows "(\<And>x. keeps (\<lambda>s. f s x)) \<Longrightarrow> keeps (\<lambda>s. foldRes f s xs)"
proof (induction xs)
  case (Cons x xs)
  show ?case
  proof (rule keepsI)
    fix s :: "'b KernelState_scheme" assume "kernel_ok s"
    then have "result_ok kernel_ok (f s x)" using keeps_ok [OF Cons.prems] by simp
    then show "result_ok kernel_ok (foldRes f s (x # xs))"
      using keeps_ok [OF Cons.IH [OF Cons.prems]] by (auto elim: result_ok_mono)
  qed
qed (simp add: keeps_def)

lemma OneTick_keeps:
  assumes "keeps yield" and "kernel_ok s"
  shows "result_ok kernel_ok (OneTick (timer_only r) dl_user yield s)"
proof -
  have "result_ok kernel_ok (fireTick (timer_only r) dl_user s)"
    using user_quiet.fireTick_keeps [OF assms(2)] by (intro result_okI) simp
  moreover have "result_ok kernel_ok (let s3 = ChangeLevel IntOff IntOn s2 in if yieldOnReturn s3
        then andThen (yield (s3\<lparr>yieldOnReturn := False, status := SystemMode\<rparr>)) (\<lambda>s4. Inr (s4\<lparr>status := status s\<rparr>))
        else Inr s3)" if "kernel_ok s2" for s2
  proof -
    let ?u = "(ChangeLevel IntOff IntOn s2)\<lparr>yieldOnReturn := False, status := SystemMode\<rparr>"
    have u: "kernel_ok (ChangeLevel IntOff IntOn s2)" "kernel_ok ?u"
      using that by (simp_all add: ChangeLevel_def)
    have "result_ok kernel_ok (yield ?u)" by (rule keeps_ok [OF assms(1) u(2)])
    then have "result_ok (\<lambda>s4. kernel_ok (s4\<lparr>status := status s\<rparr>)) (yield ?u)"
      by (rule result_ok_mono) simp
    then show ?thesis using u(1) by (simp add: Let_def)
  qed
  ultimately show ?thesis unfolding OneTick_def Let_def result_ok_andThen by (rule result_ok_mono)
qed

lemma SetLevel_keeps:
  assumes "keeps yield" and "kernel_ok s"
  shows "result_ok (\<lambda>(old, s'). kernel_ok s') (SetLevel (timer_only r) dl_user yield now s)"
proof -
  have "kernel_ok (ChangeLevel (level s) now s)" using assms(2) by (simp add: ChangeLevel_def)
  then show ?thesis using OneTick_keeps [OF assms(1), of "ChangeLevel (level s) now s"] by (auto simp: SetLevel_def Let_def)
qed

text \<open>
  What the rest of the system must have seen to before this thread is switched in again: that the registers and the
  page table restored for it are well formed.
\<close>

definition resumable :: "'a process_action \<Rightarrow> 'a process_action" where
  "resumable others s = andThen (others s) (\<lambda>s1. case Run_in restore_user s1 of
     Inl e \<Rightarrow> Inr s1 | Inr s2 \<Rightarrow> ASSERT (kernel_ok s2) (Inr s1))"

lemma resumed: "result_ok (\<lambda>s1. result_ok kernel_ok (Run_in restore_user s1)) (resumable others s)"
  by (cases "others s") (auto simp: resumable_def split: sum.split)

lemma Yield_body_not_switched:
  "result_ok (\<lambda>(switched, s'). \<not> switched \<longrightarrow> mach s' = mach s) (Yield_body save t s)"
proof -
  obtain r s1 where f: "FindNextToRun s = (r, s1)" by (cases "FindNextToRun s")
  have "mach s1 = mach s" using f by (auto simp: FindNextToRun_def split: prod.splits)
  then show ?thesis by (cases r) (simp_all add: Yield_body_def f)
qed

lemma Yield_call_keeps: "keeps (Yield_call n r (resumable others))"
proof (induction n)
  case (Suc n)
  note sl = SetLevel_keeps [OF Suc]
  show ?case unfolding keeps_iff
  proof (intro allI impI)
    fix s :: "'a ProcessState_scheme" assume s: "kernel_ok s"
    have "result_ok (\<lambda>s3. result_ok (\<lambda>(_, s'). kernel_ok s')
        (SetLevel (timer_only r) dl_user (Yield_call n r (resumable others)) now s3))
        (if switched then andThen (resumable others s2) (Run_in restore_user) else Inr s2)"
      if "\<not> switched \<longrightarrow> mach s2 = mach s1" "kernel_ok s1" for s1 s2 switched now
    proof -
      have "result_ok kernel_ok (if switched then andThen (resumable others s2) (Run_in restore_user) else Inr s2)"
        using resumed [of others s2] that mach_kernel_ok [of s2 s1] by simp
      then show ?thesis by (rule result_ok_mono) (rule sl)
    qed
    then have body: "result_ok (\<lambda>p. result_ok (\<lambda>s3. result_ok (\<lambda>(_, s'). kernel_ok s')
        (SetLevel (timer_only r) dl_user (Yield_call n r (resumable others)) now s3))
        (if fst p then andThen (resumable others (snd p)) (Run_in restore_user) else Inr (snd p)))
        (Yield_body save_user t s1)"
      if "kernel_ok s1" for s1 t now
      by (intro result_ok_mono [OF Yield_body_not_switched [of s1 save_user t]]) (use that in \<open>simp only: split_def fst_conv snd_conv\<close>)
    show "result_ok kernel_ok (Yield_call (Suc n) r (resumable others) s)"
      unfolding Yield_call.simps result_ok_andThen split_def
      by (rule result_ok_mono [OF sl [OF s, of r IntOff]]) (use body in \<open>simp add: split_def\<close>)
  qed
qed (simp add: keeps_def)

lemma result_ok_then: "result_ok Q m \<Longrightarrow> (\<And>x. Q x \<Longrightarrow> result_ok P (f x)) \<Longrightarrow> result_ok P (andThen m f)"
  unfolding result_ok_andThen by (rule result_ok_mono)

lemma set_level_keeps:
  "kernel_ok s \<Longrightarrow> result_ok (\<lambda>p. kernel_ok (snd p)) (set_level n r (resumable others) now s)"
  using SetLevel_keeps [OF Yield_call_keeps, of s r n r others now] by (simp add: set_level_def split_def)

lemma P_turn_taken: "result_ok (\<lambda>p. fst p \<longrightarrow> mach (snd p) = mach s) (P_turn k idle save m s)"
  by (cases "sem_at m s") (simp_all add: P_turn_def set_sem_def)

lemma P_loop_keeps: "keeps (P_loop n r (resumable others) m)"
proof (induction n)
  case (Suc n)
  show ?case
  proof (rule keepsI)
    fix s :: "'a ProcessState_scheme" assume s: "kernel_ok s"
    show "result_ok kernel_ok (P_loop (Suc n) r (resumable others) m s)"
      unfolding P_loop.simps
    proof (rule result_ok_then [OF P_turn_taken], simp only: split_def, rule result_ok_if)
      fix p :: "bool \<times> 'a ProcessState_scheme" assume "fst p \<longrightarrow> mach (snd p) = mach s" "fst p"
      then show "result_ok kernel_ok (Inr (snd p))" using mach_kernel_ok s by auto
    next
      fix p :: "bool \<times> 'a ProcessState_scheme"
      have "result_ok (\<lambda>s1. result_ok kernel_ok (andThen (Run_in restore_user s1) (P_loop n r (resumable others) m)))
          (resumable others (snd p))"
        by (rule result_ok_mono [OF resumed]) (rule result_ok_then, assumption, rule keeps_ok [OF Suc])
      then show "result_ok kernel_ok (andThen (resumable others (snd p)) (\<lambda>s2. andThen (Run_in restore_user s2)
          (P_loop n r (resumable others) m)))" by simp
    qed
  qed
qed (simp add: keeps_def)

lemma P_call_keeps: "kernel_ok s \<Longrightarrow> result_ok kernel_ok (P_call n r (resumable others) m s)"
  unfolding P_call_def split_def
  by (rule result_ok_then [OF set_level_keeps], assumption, rule result_ok_then [OF keeps_ok [OF P_loop_keeps]],
      assumption, rule result_ok_then [OF set_level_keeps], assumption, simp)

text \<open>A body that leaves the machine alone, run with interrupts off, keeps the invariant.\<close>

lemma masked_keeps:
  assumes "\<And>s. result_ok (\<lambda>s'. mach s' = mach s) (body s)" and "kernel_ok s"
  shows "result_ok kernel_ok (andThen (set_level n r (resumable others) IntOff s) (\<lambda>(old, s1).
    andThen (body s1) (\<lambda>s2. andThen (set_level n r (resumable others) old s2) (\<lambda>(_, s3). Inr s3))))"
  unfolding split_def
  by (rule result_ok_then [OF set_level_keeps [OF assms(2)]], rule result_ok_then [OF mach_keeps [OF assms(1)]],
      assumption, rule result_ok_then [OF set_level_keeps], assumption, simp)

lemma update_thread_mach: "result_ok (\<lambda>s'. mach s' = mach s) (update_thread t f s)"
  by (auto simp: update_thread_def thread_at_def split: option.split)

lemma ReadyToRun_mach: "result_ok (\<lambda>s'. mach s' = mach s) (ReadyToRun t s)"
  unfolding ReadyToRun_def setThreadStatus_def
  by (rule result_ok_then [OF update_thread_mach]) simp

lemma V_body_mach: "result_ok (\<lambda>s'. mach s' = mach s) (V_body m s)"
proof -
  have b: "result_ok (\<lambda>s'. mach s' = mach s) (andThen (case r of None \<Rightarrow> Inr s1 | Some (_, t) \<Rightarrow> ReadyToRun t s1)
      (\<lambda>s2. andThen (sem_at m s2) (\<lambda>x. Inr (set_sem m (f x) s2))))" if "mach s1 = mach s"
    for r :: "(int \<times> nat) option" and s1 f
  proof (rule result_ok_then)
    show "result_ok (\<lambda>s'. mach s' = mach s) (case r of None \<Rightarrow> Inr s1 | Some (_, t) \<Rightarrow> ReadyToRun t s1)"
      using ReadyToRun_mach [of s1] that by (auto split: option.split elim: result_ok_mono)
    show "result_ok (\<lambda>s'. mach s' = mach s) (andThen (sem_at m s2) (\<lambda>x. Inr (set_sem m (f x) s2)))"
      if "mach s2 = mach s" for s2
      using that by (cases "sem_at m s2") (simp_all add: set_sem_def)
  qed
  show ?thesis
  proof (cases "sem_at m s")
    case (Inr x)
    show ?thesis unfolding V_body_def Inr andThen_Inr Let_def split_def
      by (rule b [unfolded split_def]) (simp add: set_sem_def)
  qed (simp add: V_body_def)
qed

lemma V_call_keeps: "kernel_ok s \<Longrightarrow> result_ok kernel_ok (V_call n r (resumable others) m s)"
  unfolding V_call_def V_def set_level_def [symmetric] by (rule masked_keeps [OF V_body_mach])

lemma Fork_call_keeps: "kernel_ok s \<Longrightarrow> result_ok kernel_ok (Fork_call n r (resumable others) t f a s)"
  unfolding Fork_call_def Fork_def set_level_def [symmetric] StackAllocate_def
  by (rule result_ok_then [OF mach_keeps [OF update_thread_mach]], assumption, rule masked_keeps [OF ReadyToRun_mach])

subsection \<open>Loading a program\<close>

lemma set_entry_kernel_ok: "kernel_ok s \<Longrightarrow> kernel_ok (set_entry ref x s)"
proof (rule same_mmu_kernel_ok [of s])
  assume "kernel_ok s"
  then have "machine_ok s" by (simp add: kernel_ok_def)
  then show "machine_ok (set_entry ref x s)"
    using mmu_ok_set_entry [of s] by (simp add: machine_ok_def reg_def memory_ok_def)
qed simp_all

lemma memory_kernel_ok: "kernel_ok s \<Longrightarrow> length m = length (mainMemory s) \<Longrightarrow> kernel_ok (s\<lparr>mainMemory := m\<rparr>)"
proof (rule same_mmu_kernel_ok [of s])
  assume "kernel_ok s" "length m = length (mainMemory s)"
  then have "machine_ok s" "length m = length (mainMemory s)" by (simp_all add: kernel_ok_def)
  then show "machine_ok (s\<lparr>mainMemory := m\<rparr>)" by (simp add: machine_ok_def reg_def memory_ok_def)
qed simp_all

lemma kernel_memory: "kernel_ok s \<Longrightarrow> length (mainMemory s) = MemorySize"
  by (simp add: kernel_ok_def machine_ok_def memory_ok_def)

text \<open>Loading touches neither the threads nor the registers nor what is outside the kernel's memory management.\<close>

definition rest :: "'a KernelState_scheme \<Rightarrow> ThreadState \<times> 32 word list \<times> nat option \<times> 32 word \<times> 'a" where
  "rest s = (ThreadState.truncate s, registers s, pageTable s, pageTableSize s, KernelState.more s)"

definition steady :: "ThreadState \<times> 32 word list \<times> nat option \<times> 32 word \<times> 'a \<Rightarrow> 'a KernelState_scheme \<Rightarrow> bool" where
  "steady c s \<longleftrightarrow> kernel_ok s \<and> rest s = c"

lemma steadyD: "steady c s \<Longrightarrow> kernel_ok s" "steady c s \<Longrightarrow> rest s = c"
  by (simp_all add: steady_def)

lemma set_entry_steady: "steady c s \<Longrightarrow> steady c (set_entry ref x s)"
  using set_entry_kernel_ok [of s ref x]
  by (simp add: steady_def) (simp add: rest_def set_entry_def ThreadState.truncate_def split: entry_ref.split)

lemma memory_steady: "steady c s \<Longrightarrow> length m = length (mainMemory s) \<Longrightarrow> steady c (s\<lparr>mainMemory := m\<rparr>)"
  using memory_kernel_ok [of s m] by (simp add: steady_def) (simp add: rest_def ThreadState.truncate_def)

lemma new_space_steady [simp]:
  "steady c (s\<lparr>spaces := x, nextSpace := y\<rparr>) = steady c s"
  by (simp add: steady_def rest_def ThreadState.truncate_def)

lemma AddrSpace_Translate_keeps:
  "steady c s \<Longrightarrow> result_ok (\<lambda>p. steady c (snd p)) (AddrSpace_Translate a v sz s)"
  by (auto simp: AddrSpace_Translate_def Let_def set_entry_steady intro!: result_ok_mono [OF result_ok_True]
      split: option.split)

lemma load_block_keeps:
  "steady c (snd ps) \<Longrightarrow> result_ok (\<lambda>q. steady c (snd q)) (load_block a f v sz pos ps)"
  unfolding load_block_def split_def
proof (rule result_ok_then [OF AddrSpace_Translate_keeps], assumption)
  fix q :: "(ExceptionType + nat) \<times> 'a KernelState_scheme" assume q: "steady c (snd q)"
  show "result_ok (\<lambda>q. steady c (snd q))
    (case case fst q of Inl _ \<Rightarrow> fst ps | Inr p \<Rightarrow> Some p of None \<Rightarrow> Inl OutOfBounds
     | Some p \<Rightarrow> andThen (ReadAt f sz pos) (\<lambda>bytes. if p + length bytes \<le> MemorySize
         then Inr (Some p, (snd q)\<lparr>mainMemory := overwrite (mainMemory (snd q)) p bytes\<rparr>) else Inl OutOfBounds))"
    by (cases "ReadAt f sz pos") (auto simp: kernel_memory [OF steadyD(1) [OF q]] intro!: memory_steady [OF q] split: option.split sum.split)
qed

lemma load_pages_keeps:
  "steady c (snd ps) \<Longrightarrow> result_ok (\<lambda>q. steady c (snd (snd q))) (load_pages n a f v ps)"
proof (induction n arbitrary: v ps)
  case (Suc n)
  obtain addr sz' pos where v: "v = (addr, sz', pos)" by (cases v)
  show ?case unfolding v load_pages.simps
    by (rule result_ok_then [OF load_block_keeps [OF Suc.prems]]) (rule Suc.IH)
qed simp

lemma LoadSegment_keeps: "steady c s \<Longrightarrow> result_ok (steady c) (LoadSegment a f v sz pos s)"
  unfolding LoadSegment_def split_def
proof (rule result_ok_then)
  assume s: "steady c s"
  show "result_ok (\<lambda>q. steady c (snd (snd q)))
      (if v smod int PageSize \<noteq> 0
       then andThen (load_block a f v (sz smod int PageSize) pos (None, s)) (\<lambda>ps.
              let sz1 = sz - sz smod int PageSize in Inr ((v + sz1 smod int PageSize, sz1, pos + sz1 smod int PageSize), ps))
       else Inr ((v, sz, pos), None, s))"
    using load_block_keeps [of c "(None, s)"] s by (simp add: Let_def)
next
  fix q :: "(int \<times> int \<times> int) \<times> nat option \<times> 'a KernelState_scheme" assume "steady c (snd (snd q))"
  from load_pages_keeps [OF this]
  show "result_ok (steady c) (andThen (load_pages (nat (fst (snd (fst q)) sdiv int PageSize)) a f
      (fst (fst q), fst (snd (fst q)), snd (snd (fst q))) (snd q)) (\<lambda>p.
        if fst (snd (fst p)) smod int PageSize \<noteq> 0
        then andThen (load_block a f (fst (fst p)) (fst (snd (fst p)) smod int PageSize) (snd (snd (fst p))) (snd p))
               (\<lambda>p. Inr (snd p))
        else Inr (snd (snd p))))"
    by (rule result_ok_then) (simp add: load_block_keeps)
qed

lemma zero_pages_keeps: "steady c s \<Longrightarrow> result_ok (steady c) (foldRes zero_page s es)"
proof (induction es arbitrary: s)
  case (Cons e es)
  have "result_ok (steady c) (zero_page s e)"
    using Cons.prems by (simp add: zero_page_def Let_def memory_steady)
  then show ?case unfolding foldRes.simps by (rule result_ok_then) (rule Cons.IH)
qed simp

lemma load_if_keeps: "steady c s \<Longrightarrow> result_ok (steady c) (load_if a f g s)"
  by (simp add: load_if_def LoadSegment_keeps)

lemma new_table_keeps:
  assumes "steady c s"
  shows "steady c (s\<lparr>MainMemMap := frames, tables := (tables s)(nextTable s \<mapsto> es), nextTable := Suc (nextTable s)\<rparr>)"
  using assms
  by (auto simp: steady_def rest_def kernel_ok_def machine_ok_def mmu_ok_def memory_ok_def reg_def
      ThreadState.truncate_def split: option.splits)

lemma AddrSpace_new_steady:
  assumes "steady c s"
  shows "result_ok (\<lambda>q. steady c (snd q)) (AddrSpace_new garbage junk f s)"
proof -
  have load: "result_ok (\<lambda>q. steady c (snd q)) (andThen (foldRes zero_page s1 es) (\<lambda>s1.
      andThen (load_if a f g s1) (\<lambda>s2. andThen (load_if a f h s2) (\<lambda>s3. Inr (new_space a s3)))))"
    if "steady c s1" for s1 :: "'a KernelState_scheme" and es a g h
    by (rule result_ok_then [OF zero_pages_keeps [OF that]],
        rule result_ok_then [OF load_if_keeps], assumption,
        rule result_ok_then [OF load_if_keeps], assumption) (simp add: new_space_def)
  have hdr: "result_ok P (andThen m k)" if "\<And>x. result_ok P (k x)" for P :: "'c \<Rightarrow> bool" and m :: "'d res" and k
    using that by (cases m) simp_all
  show ?thesis unfolding AddrSpace_new_def Let_def
    by (rule hdr, rule impI [THEN result_ok_simps(3) [THEN iffD2]], rule hdr, simp only: split_def, rule result_ok_if, rule hdr,
        rule load, rule new_table_keeps [OF assms]) (simp add: new_space_def assms)
qed

lemma AddrSpace_new_keeps:
  "kernel_ok s \<Longrightarrow> result_ok (\<lambda>q. kernel_ok (snd q)) (AddrSpace_new garbage junk f s)"
  by (rule result_ok_mono [OF AddrSpace_new_steady [of "rest s"]]) (simp_all add: steady_def)

subsection \<open>The system calls\<close>

lemma WriteRegister_keeps: "kernel_ok s \<Longrightarrow> result_ok kernel_ok (WriteRegister 2 v s)"
  using kernel_ok_set_reg [of s 2 v]
  by (auto simp: WriteRegister_def set_reg_def store_def reg_defs intro!: result_ok_if)

lemma AdvancePC_keeps [simp]: "kernel_ok s \<Longrightarrow> kernel_ok (AdvancePC s)"
  by (simp add: AdvancePC_def Let_def reg_defs)

lemma any_then: "(\<And>x. result_ok P (f x)) \<Longrightarrow> result_ok P (andThen m f)"
  by (cases m) simp_all

lemma ReadMem_keeps:
  assumes "kernel_traps eh kernel_ok" and "kernel_ok s"
  shows "result_ok (\<lambda>p. kernel_ok (snd p)) (ReadMem eh va 1 s)"
  using kernel_traps.ReadMem_ok [OF assms, of 1 va] by (cases "ReadMem eh va 1 s") auto

lemma WriteMem_keeps:
  assumes "kernel_traps eh kernel_ok" and "kernel_ok s"
  shows "result_ok (\<lambda>p. kernel_ok (snd p)) (WriteMem eh va 1 v s)"
  using kernel_traps.WriteMem_ok [OF assms, of 1 va v] by (cases "WriteMem eh va 1 v s") auto

lemma name_loop_keeps:
  assumes "kernel_traps eh kernel_ok"
  shows "kernel_ok s \<Longrightarrow> result_ok (\<lambda>p. kernel_ok (snd p)) (name_loop n eh addr name val s)"
proof (induction n arbitrary: addr name val s)
  case (Suc n)
  have "result_ok (\<lambda>p. kernel_ok (snd p)) (andThen (ReadMem eh (addr + 1) 1 s) (\<lambda>(v, s1). case v of
      None \<Rightarrow> Inr (None, s1) | Some val' \<Rightarrow> name_loop n eh (addr + 1) (name @ [ucast val]) val' s1))"
    by (rule result_ok_then [OF ReadMem_keeps [OF assms Suc.prems]]) (auto simp: Suc.IH split: option.split)
  then show ?case using Suc.prems by simp
qed simp

lemma read_name_keeps:
  assumes "kernel_traps eh kernel_ok" and "kernel_ok s"
  shows "result_ok (\<lambda>p. kernel_ok (snd p)) (read_name eh addr s)"
  unfolding read_name_def
  by (rule result_ok_then [OF ReadMem_keeps [OF assms]]) (auto simp: name_loop_keeps [OF assms(1)] simp del: name_loop.simps split: option.split)

lemma write_loop_keeps:
  assumes "kernel_traps eh kernel_ok"
  shows "kernel_ok s \<Longrightarrow> result_ok (\<lambda>p. kernel_ok (snd p)) (write_loop n eh addr ch s)"
proof (induction n arbitrary: ch s)
  case (Suc n)
  show ?case unfolding write_loop.simps
    by (rule result_ok_then [OF ReadMem_keeps [OF assms Suc.prems]]) (auto simp: Suc.IH split: option.split)
qed simp

lemma store_loop_keeps:
  assumes "kernel_traps eh kernel_ok"
  shows "kernel_ok s \<Longrightarrow> result_ok (\<lambda>p. kernel_ok (snd p)) (store_loop eh addr num bs s)"
proof (induction bs arbitrary: num s)
  case (Cons b bs)
  show ?case unfolding store_loop.simps
    by (rule result_ok_then [OF WriteMem_keeps [OF assms Cons.prems]]) (auto simp: Cons.IH)
qed simp

lemma file_loop_keeps:
  assumes "kernel_traps eh kernel_ok"
  shows "kernel_ok s \<Longrightarrow> result_ok (\<lambda>p. kernel_ok (snd p)) (file_loop k eh fd addr num s)"
proof (induction k arbitrary: num s)
  case (Suc k)
  show ?case
  proof (cases "hostInput s fd")
    case (Cons b bs)
    show ?thesis unfolding file_loop.simps Cons list.case
      by (rule result_ok_then [OF WriteMem_keeps [OF assms]]) (auto simp: Suc)
  qed simp
qed simp

lemma SRead_keeps:
  assumes "kernel_traps eh kernel_ok" and "kernel_ok s"
  shows "result_ok (\<lambda>p. kernel_ok (snd p)) (SRead eh addr sz fd s)"
  unfolding SRead_def
  by (auto intro!: any_then simp: store_loop_keeps [OF assms(1)] file_loop_keeps [OF assms] assms(2) split: list.split)

lemma sys_Read_keeps:
  assumes "kernel_traps eh kernel_ok" and "kernel_ok s"
  shows "result_ok kernel_ok (sys_Read eh s)"
  unfolding sys_Read_def
  by (intro any_then result_ok_then [OF SRead_keeps [OF assms]])
    (auto intro!: result_ok_mono [OF WriteRegister_keeps])

lemma sys_Write_keeps:
  assumes "kernel_traps eh kernel_ok" and "kernel_ok s"
  shows "result_ok kernel_ok (sys_Write n eh s)"
  unfolding sys_Write_def
  by (intro any_then result_ok_then [OF write_loop_keeps [OF assms]]) (auto simp: SWrite_def)

lemma update_element_mach: "result_ok (\<lambda>s'. mach s' = mach s) (update_element p f s)"
  by (auto simp: update_element_def split: option.split)

lemma PCB_Append_mach:
  fixes s :: "'a ProcessState_scheme"
  shows "result_ok (\<lambda>s'. mach s' = mach s) (PCB_Append x s)"
proof -
  have "result_ok (\<lambda>s'. mach s' = mach s) (andThen (update_element p f s) (\<lambda>s1. update_element q g (s1\<lparr>Tail := t\<rparr>)))"
    for p q f g t
  proof (rule result_ok_then [OF update_element_mach])
    fix s1 :: "'a ProcessState_scheme" assume "mach s1 = mach s"
    with update_element_mach [of "s1\<lparr>Tail := t\<rparr>" q g]
    show "result_ok (\<lambda>s'. mach s' = mach s) (update_element q g (s1\<lparr>Tail := t\<rparr>))" by simp
  qed
  then show ?thesis by (simp add: PCB_Append_def Let_def)
qed

lemma sys_Join_keeps:
  assumes s: "kernel_ok s"
  shows "result_ok kernel_ok (sys_Join n r (resumable others) s)"
proof -
  have w: "result_ok kernel_ok (andThen (WriteRegister 2 v s) (\<lambda>s1. Inr (AdvancePC s1)))" for v
    by (rule result_ok_then [OF WriteRegister_keeps [OF s]]) simp
  have p: "result_ok kernel_ok (andThen (P_call n r (resumable others) m s) (WriteRegister 2 v))" for m v
    by (rule result_ok_then [OF P_call_keeps [OF s]]) (rule WriteRegister_keeps)
  have j: "result_ok kernel_ok (andThen (PCB_Return pid s) (\<lambda>parent. andThen (element_at parent s) (\<lambda>p.
      andThen (P_call n r (resumable others) (ProcessSemaphore p) s) (WriteRegister 2 0))))" for pid
    by (intro any_then p)
  have "result_ok kernel_ok (andThen (if Valid e then
      andThen (PCB_Return pid s) (\<lambda>parent. andThen (element_at parent s) (\<lambda>p.
      andThen (P_call n r (resumable others) (ProcessSemaphore p) s) (WriteRegister 2 0))) else Inr s)
      (\<lambda>s1. Inr (AdvancePC s1)))" for e pid
    by (rule result_ok_then [where Q = kernel_ok]) (use j [of pid] s in auto)
  note e = this
  show ?thesis unfolding sys_Join_def
  proof (rule any_then, rule any_then)
    fix child found
    show "result_ok kernel_ok (case found of
         None \<Rightarrow> andThen (WriteRegister 2 (- 1) s) (\<lambda>s1. Inr (AdvancePC s1))
       | Some x \<Rightarrow> andThen (element_at (Some x) s) (\<lambda>e.
           andThen (if Valid e then
               andThen (PCB_Return (ParentPID e) s) (\<lambda>parent.
               andThen (element_at parent s) (\<lambda>p.
               andThen (P_call n r (resumable others) (ProcessSemaphore p) s) (WriteRegister 2 0)))
             else Inr s) (\<lambda>s1. Inr (AdvancePC s1))))"
    proof (cases found)
      case (Some x) then show ?thesis unfolding option.case(2) Some by (intro any_then [where m = "element_at _ _"] e)
    qed (use w in simp)
  qed
qed

lemma sys_Yield_keeps: "kernel_ok s \<Longrightarrow> result_ok kernel_ok (sys_Yield n r (resumable others) s)"
  unfolding sys_Yield_def by (rule result_ok_then [OF keeps_ok [OF Yield_call_keeps]]) simp_all

text \<open>A process that exits returns only in a thread that is switched in.\<close>

lemma Finish_call_keeps: "result_ok kernel_ok (Finish_call n r (resumable others) s)"
  unfolding Finish_call_def split_def by (rule any_then, rule any_then, rule result_ok_then [OF resumed])

lemma sys_Exit_keeps: "kernel_ok s \<Longrightarrow> result_ok kernel_ok (sys_Exit n r (resumable others) junk s)"
  unfolding sys_Exit_def AddrSpace_delete_def Let_def
  by (rule any_then) (auto intro!: any_then Finish_call_keeps split: option.split simp del: result_ok_andThen)

lemma start_process_keeps:
  assumes "kernel_ok s"
  shows "result_ok kernel_ok (start_process n r (resumable others) t pid s)"
  unfolding start_process_def Let_def
  by (rule result_ok_then [OF P_call_keeps [OF assms]], rule result_ok_then [OF V_call_keeps])
    (simp, rule Fork_call_keeps)

lemma exec_file_keeps:
  assumes "kernel_ok s"
  shows "result_ok kernel_ok (exec_file n r (resumable others) junk t pid f s)"
proof -
  have last: "result_ok kernel_ok (andThen (PCB_Append el s6) (\<lambda>s7.
      andThen (WriteRegister 2 v s7) (\<lambda>s8. Inr (AdvancePC s8))))" if "kernel_ok s6" for el v and s6 :: "'a ProcessState_scheme"
    by (rule result_ok_then [OF mach_keeps [OF PCB_Append_mach that]], rule result_ok_then [OF WriteRegister_keeps]) simp_all
  have start: "result_ok kernel_ok (andThen (if b then start_process n r (resumable others) t pid s5 else Inr s5)
      (\<lambda>s6. andThen (PCB_Append el s6) (\<lambda>s7. andThen (WriteRegister 2 v s7) (\<lambda>s8. Inr (AdvancePC s8)))))"
    if "kernel_ok s5" for b el v and s5 :: "'a ProcessState_scheme"
  proof (rule result_ok_then [where Q = kernel_ok])
    show "result_ok kernel_ok (if b then start_process n r (resumable others) t pid s5 else Inr s5)"
      using start_process_keeps [OF that] that by simp
  qed (rule last)
  have upd: "result_ok kernel_ok (andThen (update_element p g s4) (\<lambda>s5.
      andThen (if b then start_process n r (resumable others) t pid s5 else Inr s5)
      (\<lambda>s6. andThen (PCB_Append el s6) (\<lambda>s7. andThen (WriteRegister 2 v s7) (\<lambda>s8. Inr (AdvancePC s8))))))"
    if "kernel_ok s4" for p g b el v and s4 :: "'a ProcessState_scheme"
    by (rule result_ok_then [OF mach_keeps [OF update_element_mach that]]) (rule start)
  show ?thesis unfolding exec_file_def split_def Let_def
    by (rule result_ok_then [OF AddrSpace_new_keeps [OF assms]],
        rule result_ok_then [OF mach_keeps [OF update_thread_mach]], assumption, rule any_then, rule any_then, rule upd)
      (simp add: Semaphore_new_def new_element_def)
qed

lemma sys_Exec_keeps:
  assumes "kernel_traps eh kernel_ok" and "kernel_ok s"
  shows "result_ok kernel_ok (sys_Exec n r (resumable others) junk eh s)"
proof -
  have n: "result_ok kernel_ok (case p of (name, s3) \<Rightarrow> (case name of
         None \<Rightarrow> exec_failed pid s3
       | Some filename \<Rightarrow> (case hostFiles s3 filename of
             None \<Rightarrow> Inr (AdvancePC s3)
           | Some f \<Rightarrow> exec_file n r (resumable others) junk t pid f s3)))" if "kernel_ok (snd p)" for p t pid
    using that by (cases p; cases "fst p") (auto simp: exec_failed_def WriteRegister_keeps exec_file_keeps split: option.split)
  have c: "result_ok kernel_ok (CreatId t (snd (Thread_new nm jk s)))" for t nm jk
    unfolding CreatId_def Let_def
    by (rule mach_keeps [OF update_thread_mach]) (simp add: Thread_new_def assms(2))
  show ?thesis unfolding sys_Exec_def Let_def split_def
    by (rule any_then, rule result_ok_then [OF c], rule any_then,
        rule result_ok_then [OF read_name_keeps [OF assms(1)]], assumption, rule n [unfolded split_def])
qed

lemma syscall_keeps:
  assumes "kernel_traps eh kernel_ok" and "kernel_ok s"
  shows "result_ok kernel_ok (syscall n r (resumable others) junk eh type s)"
  using sys_Exec_keeps [OF assms] sys_Join_keeps [OF assms(2)] sys_Exit_keeps [OF assms(2)] sys_Yield_keeps [OF assms(2)]
    sys_Read_keeps [OF assms] sys_Write_keeps [OF assms] assms(2)
  by (simp add: syscall_def Halt_def)

lemma kernel_trapsI:
  assumes "\<And>which s. kernel_ok s \<Longrightarrow> result_ok kernel_ok (eh which s)"
  shows "kernel_traps eh kernel_ok"
proof
  show "kernel_ok s'" if "kernel_ok s" "eh which s = Inr s'" for s s' which
    using result_okD [OF assms [OF that(1)] that(2)] .
  show "machine_ok s" if "kernel_ok s" for s :: "'a KernelState_scheme" using that by (simp add: kernel_ok_def)
  show "kernel_ok s'" if "kernel_ok s" "machine_ok s'" "same_mmu s s'" for s s' :: "'a KernelState_scheme"
    by (rule same_mmu_kernel_ok [OF that])
qed

lemma ExceptionHandler_keeps: "kernel_traps (ExceptionHandler n merged r (resumable others) junk) kernel_ok"
proof (induction n)
  case 0
  show ?case by (rule kernel_trapsI) simp
next
  case (Suc n)
  have m: "result_ok kernel_ok (andThen (named_main merged s) f)" if "\<And>b. result_ok kernel_ok (f b)" for s f
    by (rule any_then) (rule that)
  have "result_ok kernel_ok (ExceptionHandler (Suc n) merged r (resumable others) junk which s)"
    if s: "kernel_ok s" for which s
    unfolding ExceptionHandler.simps using syscall_keeps [OF Suc s] s
    by (intro any_then) (cases which; auto intro!: m simp del: result_ok_andThen)
  then show ?case by (rule kernel_trapsI)
qed

interpretation user_programs: kernel_traps "ExceptionHandler n merged r (resumable others) junk" kernel_ok
  by (rule ExceptionHandler_keeps)

subsection \<open>Faults that the kernel does not handle\<close>

lemma tick_keeps: "keeps (tick n r (resumable others))"
  unfolding tick_def by (rule keepsI) (rule OneTick_keeps [OF Yield_call_keeps])

lemma Run_loop_keeps:
  "keeps (Run_loop k (ExceptionHandler n merged r (resumable others) junk) (tick n r (resumable others)))"
proof (induction k)
  case (Suc k)
  show ?case
  proof (rule keepsI)
    fix s :: "'a ProcessState_scheme" assume s: "kernel_ok s"
    have "result_ok kernel_ok (OneInstruction (ExceptionHandler n merged r (resumable others) junk) s)"
      using user_programs.OneInstruction_ok [OF s refl, of n merged r others junk]
      by (intro result_okI) simp
    then show "result_ok kernel_ok (Run_loop (Suc k) (ExceptionHandler n merged r (resumable others) junk)
        (tick n r (resumable others)) s)"
      unfolding Run_loop.simps
      by (rule result_ok_then) (rule result_ok_then [OF keeps_ok [OF tick_keeps]], assumption, rule keeps_ok [OF Suc])
  qed
qed (simp add: keeps_def)

text \<open>Translation looks at the MMU's part of the state only, and the faults it reports are four.\<close>

definition mmu_faults :: "ExceptionType set" where
  "mmu_faults = {PageFaultException, ReadOnlyException, BusErrorException, AddressErrorException}"

lemma findEntry_fault: "findEntry vpn s = Inr (Inl e) \<Longrightarrow> e \<in> mmu_faults"
  by (auto simp: findEntry_def mmu_faults_def res_simps split: option.splits if_splits)

lemma Translate_fault:
  assumes "mmu_ok s" and "sz \<in> {1, 2, 4}" and "Translate va sz w s = Inr (Inl e, s1)"
  shows "e \<in> mmu_faults" and "s1 = s"
proof -
  obtain f where f: "findEntry (va div of_nat PageSize) s = Inr f" using findEntry_total [OF assms(1)] by blast
  have m: "AddressErrorException \<in> mmu_faults" "ReadOnlyException \<in> mmu_faults" "BusErrorException \<in> mmu_faults"
    by (simp_all add: mmu_faults_def)
  show "e \<in> mmu_faults" and "s1 = s"
    using assms(3) f findEntry_fault [of "va div of_nat PageSize" s] m
    by (auto simp: Translate_spec [OF assms(1,2)] res_simps split: if_splits sum.splits)
qed

lemma Translate_fault_cong:
  assumes "mmu_ok s" and "sz \<in> {1, 2, 4}" and "Translate va sz w s = Inr (Inl e, s)"
    and m: "tlb s' = tlb s" "pageTable s' = pageTable s" "pageTableSize s' = pageTableSize s" "tables s' = tables s"
  shows "Translate va sz w s' = Inr (Inl e, s')"
proof -
  have g: "get_entry ref s' = get_entry ref s" for ref
    using m by (cases ref) (simp_all add: get_entry_def cong: option.case_cong)
  have f: "findEntry vpn s' = findEntry vpn s" for vpn
    using m by (simp add: findEntry_def g cong: option.case_cong if_cong)
  have ok: "mmu_ok s'" using assms(1) m by (simp add: mmu_ok_def cong: option.case_cong)
  obtain q where q: "findEntry (va div of_nat PageSize) s = Inr q" using findEntry_total [OF assms(1)] by blast
  show ?thesis
    using assms(3) q
    by (auto simp: Translate_spec [OF assms(1,2)] Translate_spec [OF ok assms(2)] f g res_simps split: if_splits sum.splits)
qed

lemma RaiseException_frame:
  assumes "machine_ok s"
  shows "\<exists>rs. machine_ok (s\<lparr>registers := rs\<rparr>) \<and> rs ! PCReg = reg s PCReg \<and>
    RaiseException eh which bad s = andThen (eh which (s\<lparr>registers := rs, status := SystemMode\<rparr>))
      (\<lambda>s2. Inr (s2\<lparr>status := UserMode\<rparr>))"
proof -
  have b: "machine_ok (set_reg BadVAddrReg bad s)"
    using assms by (rule machine_ok_set_reg) (simp add: reg_defs)
  then obtain s1 where s1: "DelayedLoad 0 0 (set_reg BadVAddrReg bad s) = Inr s1" "machine_ok s1"
      "reg s1 PCReg = reg (set_reg BadVAddrReg bad s) PCReg"
    using DelayedLoad_ok [OF b, of 0 0] by (auto simp: reg_defs)
  have "s1 = s\<lparr>registers := registers s1\<rparr>"
    using s1(1) by (auto simp: DelayedLoad_def set_reg_def res_simps)
  then obtain rs where rs: "s1 = s\<lparr>registers := rs\<rparr>" by blast
  have "length (registers s) = 40" using assms by (simp add: machine_ok_def reg_defs)
  then have "rs ! PCReg = reg s PCReg" using s1(3) by (simp add: rs reg_def set_reg_def reg_defs)
  with s1 show ?thesis by (intro exI [of _ rs]) (simp add: RaiseException_def setStatus_def rs)
qed

text \<open>A fault in a thread that does not count as \<open>main\<close> is reported on the console, and ignored.\<close>

lemma named_main_cong [simp]:
  "named_main merged (s\<lparr>registers := rs\<rparr>) = named_main merged s" "named_main merged (s\<lparr>status := st\<rparr>) = named_main merged s"
  "named_main merged (s\<lparr>stats := v\<rparr>) = named_main merged s" "named_main merged (s\<lparr>level := l\<rparr>) = named_main merged s"
  by (simp_all add: named_main_def thread_at_def cong: option.case_cong)

lemma handler_ignores_fault:
  assumes "machine_ok s" and "named_main merged s = Inr False" and "e \<in> mmu_faults"
  shows "ExceptionHandler (Suc n) merged r others junk e s = Inr s"
proof -
  have "ReadRegister 2 s = Inr (reg s 2)" using assms(1) by (simp add: ReadRegister_def fetch_def reg_def machine_ok_def reg_defs)
  then show ?thesis using assms(2,3) by (auto simp: mmu_faults_def)
qed

lemma ReadMem_fault:
  assumes "machine_ok s" and "sz \<in> {1, 2, 4}" and "named_main merged s = Inr False"
    and "Translate va sz False s = Inr (Inl e, s)"
  shows "ReadMem (ExceptionHandler 0 merged r others junk) va sz s = Inl Diverges"
    and "\<exists>rs. machine_ok (s\<lparr>registers := rs\<rparr>) \<and> rs ! PCReg = reg s PCReg \<and>
      ReadMem (ExceptionHandler (Suc n) merged r others junk) va sz s = Inr (None, s\<lparr>registers := rs, status := UserMode\<rparr>)"
proof -
  have e: "e \<in> mmu_faults" using Translate_fault(1) [OF _ assms(2,4)] assms(1) by (simp add: machine_ok_def)
  show "ReadMem (ExceptionHandler 0 merged r others junk) va sz s = Inl Diverges"
    using RaiseException_frame [OF assms(1), of "ExceptionHandler 0 merged r others junk" e va]
    by (auto simp: ReadMem_def assms(4))
  obtain rs where rs: "machine_ok (s\<lparr>registers := rs\<rparr>)" "rs ! PCReg = reg s PCReg"
    "RaiseException (ExceptionHandler (Suc n) merged r others junk) e va s =
      andThen (ExceptionHandler (Suc n) merged r others junk e (s\<lparr>registers := rs, status := SystemMode\<rparr>))
      (\<lambda>s2. Inr (s2\<lparr>status := UserMode\<rparr>))"
    using RaiseException_frame [OF assms(1)] by blast
  have "ExceptionHandler (Suc n) merged r others junk e (s\<lparr>registers := rs, status := SystemMode\<rparr>) =
      Inr (s\<lparr>registers := rs, status := SystemMode\<rparr>)"
    using rs(1) assms(3) e machine_ok_setStatus [of SystemMode "s\<lparr>registers := rs\<rparr>"]
    by (intro handler_ignores_fault) (simp_all add: setStatus_def)
  with rs show "\<exists>rs. machine_ok (s\<lparr>registers := rs\<rparr>) \<and> rs ! PCReg = reg s PCReg \<and>
      ReadMem (ExceptionHandler (Suc n) merged r others junk) va sz s = Inr (None, s\<lparr>registers := rs, status := UserMode\<rparr>)"
    by (intro exI [of _ rs]) (simp add: ReadMem_def assms(4) del: ExceptionHandler.simps)
qed

subsection \<open>Properties\<close>


text \<open>A state in which the next instruction cannot be fetched, and no interrupt is pending.\<close>

definition stuck :: "bool \<Rightarrow> 'a ProcessState_scheme \<Rightarrow> bool" where
  "stuck merged s \<longleftrightarrow> kernel_ok s \<and> named_main merged s = Inr False \<and> pending s = [] \<and> \<not> yieldOnReturn s \<and>
     (\<exists>e. Translate (reg s PCReg) 4 False s = Inr (Inl e, s))"

lemma stuck_setStatus:
  assumes "stuck merged s"
  shows "stuck merged (setStatus st s)"
proof -
  obtain e where e: "Translate (reg s PCReg) 4 False s = Inr (Inl e, s)" and ok: "kernel_ok s"
    using assms by (auto simp only: stuck_def)
  have mmu: "mmu_ok s" using ok by (simp add: kernel_ok_def machine_ok_def)
  have "Translate (reg s PCReg) 4 False (setStatus st s) = Inr (Inl e, setStatus st s)"
    by (rule Translate_fault_cong [OF mmu _ e]) (simp_all add: setStatus_def)
  moreover have "reg (setStatus st s) PCReg = reg s PCReg" by (simp add: reg_def setStatus_def)
  ultimately show ?thesis unfolding stuck_def using assms by (auto simp only: stuck_def) (simp_all add: setStatus_def)
qed

lemma quiet_tick:
  assumes "pending s = []" and "\<not> yieldOnReturn s"
  shows "\<exists>st. tick m r others s = Inr (s\<lparr>stats := st, level := IntOn\<rparr>)"
  using assms by (intro exI [of _ "stats (advanceTime s)"]) (simp add: tick_def OneTick_def fireTick_def CheckIfDue_def ChangeLevel_def advanceTime_def Let_def)

lemma stuck_turn:
  assumes "stuck merged s"
  shows "\<exists>s'. Run_loop 1 (ExceptionHandler (Suc n) merged r others junk) (tick m r others') s = Inr s' \<and> stuck merged s' \<and>
    reg s' PCReg = reg s PCReg \<and> mainMemory s' = mainMemory s"
proof -
  obtain e where s: "kernel_ok s" "named_main merged s = Inr False" "pending s = []" "\<not> yieldOnReturn s"
      "Translate (reg s PCReg) 4 False s = Inr (Inl e, s)"
    using assms by (auto simp: stuck_def)
  have m: "machine_ok s" "mmu_ok s" using s(1) by (simp_all add: kernel_ok_def machine_ok_def)
  obtain rs where rs: "machine_ok (s\<lparr>registers := rs\<rparr>)" "rs ! PCReg = reg s PCReg"
      "ReadMem (ExceptionHandler (Suc n) merged r others junk) (reg s PCReg) 4 s =
        Inr (None, s\<lparr>registers := rs, status := UserMode\<rparr>)"
    using ReadMem_fault(2) [OF m(1) _ s(2,5)] by blast
  let ?s1 = "s\<lparr>registers := rs, status := UserMode\<rparr>"
  obtain st where st: "tick m r others' ?s1 = Inr (?s1\<lparr>stats := st, level := IntOn\<rparr>)"
    using quiet_tick [of ?s1 m r others'] s(3,4) by auto
  let ?s2 = "?s1\<lparr>stats := st, level := IntOn\<rparr>"
  have "Translate (reg s PCReg) 4 False ?s2 = Inr (Inl e, ?s2)"
    by (rule Translate_fault_cong [OF m(2) _ s(5)]) simp_all
  moreover have "kernel_ok (s\<lparr>registers := rs\<rparr>)" by (rule same_mmu_kernel_ok [OF s(1) rs(1)]) simp
  ultimately have "stuck merged ?s2" using s(2-4) rs(2) by (auto simp: stuck_def reg_def)
  moreover have "Run_loop 1 (ExceptionHandler (Suc n) merged r others junk) (tick m r others') s = Inr ?s2"
    using rs(3) st by (simp add: OneInstruction_def del: ExceptionHandler.simps)
  ultimately show ?thesis using rs(2) by (intro exI [of _ ?s2]) (simp add: reg_def)
qed

lemma stuck_turns:
  "stuck merged s \<Longrightarrow>
    \<exists>s'. Run_loop k (ExceptionHandler (Suc n) merged r others junk) (tick m r others') s = Inr s' \<and> stuck merged s' \<and>
    reg s' PCReg = reg s PCReg \<and> mainMemory s' = mainMemory s"
proof (induction k arbitrary: s)
  case (Suc k)
  obtain s1 where s1: "Run_loop 1 (ExceptionHandler (Suc n) merged r others junk) (tick m r others') s = Inr s1"
      "stuck merged s1" "reg s1 PCReg = reg s PCReg" "mainMemory s1 = mainMemory s"
    using stuck_turn [OF Suc.prems] by blast
  have "Run_loop (Suc k) (ExceptionHandler (Suc n) merged r others junk) (tick m r others') s =
      Run_loop k (ExceptionHandler (Suc n) merged r others junk) (tick m r others') s1"
    using s1(1) by (auto simp: res_simps simp del: ExceptionHandler.simps)
  with Suc.IH [OF s1(2)] s1(3,4) show ?case by (simp del: ExceptionHandler.simps)
qed simp

text \<open>
  A program that runs outside its memory is never stopped. If the next instruction cannot be fetched (an address outside the
  address space, a page that is not valid, a misaligned program counter), the kernel prints a message and returns to the
  program, whose program counter has not moved: however many turns the machine is given, it
  executes nothing more, and the process is not terminated.
\<close>

theorem runaway_program_never_stopped:
  assumes "kernel_ok s" and "named_main merged s = Inr False" and "pending s = []" and "\<not> yieldOnReturn s"
    and "Translate (reg s PCReg) 4 False s = Inr (Inl e, s)"
  shows "\<exists>s'. Run_user k (ExceptionHandler (Suc n) merged r others junk) (tick m r others') s = Inr s' \<and>
    reg s' PCReg = reg s PCReg \<and> mainMemory s' = mainMemory s"
proof -
  have "stuck merged s" using assms by (auto simp: stuck_def)
  from stuck_turns [OF stuck_setStatus [OF this], of k n r others junk m others' UserMode] show ?thesis
    by (auto simp: Run_user_def setStatus_def reg_def)
qed

lemma write_loop_diverges:
  assumes "machine_ok s" and "named_main merged s = Inr False" and "Translate addr 1 False s = Inr (Inl e, s)"
  shows "write_loop k (ExceptionHandler n merged r others junk) addr [] s = Inl Diverges"
  using assms
proof (induction k arbitrary: s)
  case (Suc k)
  show ?case
  proof (cases n)
    case 0
    then show ?thesis using ReadMem_fault(1) [OF Suc.prems(1) _ Suc.prems(2,3)] by (simp del: ExceptionHandler.simps)
  next
    case (Suc n')
    obtain rs where rs: "machine_ok (s\<lparr>registers := rs\<rparr>)"
      "ReadMem (ExceptionHandler n merged r others junk) addr 1 s = Inr (None, s\<lparr>registers := rs, status := UserMode\<rparr>)"
      using ReadMem_fault(2) [OF Suc.prems(1) _ Suc.prems(2,3)] unfolding Suc by blast
    let ?s1 = "s\<lparr>registers := rs, status := UserMode\<rparr>"
    have "Translate addr 1 False ?s1 = Inr (Inl e, ?s1)"
      by (rule Translate_fault_cong [OF _ _ Suc.prems(3)]) (use Suc.prems(1) in \<open>simp_all add: machine_ok_def\<close>)
    moreover have "machine_ok ?s1" using rs(1) machine_ok_setStatus [of UserMode "s\<lparr>registers := rs\<rparr>"] by (simp add: setStatus_def)
    ultimately have "write_loop k (ExceptionHandler n merged r others junk) addr [] ?s1 = Inl Diverges"
      using Suc.IH [of ?s1] Suc.prems(2) by simp
    then show ?thesis using rs(2) by (simp del: ExceptionHandler.simps)
  qed
qed simp

text \<open>
  \<open>Write\<close> with an address that cannot be read never returns. The loop that copies the string tries the
  same address again after every fault, so the system call uses up any amount of fuel.
\<close>

theorem Write_unreadable_never_returns:
  assumes "machine_ok s" and "named_main merged s = Inr False" and "reg s 2 = SC_Write"
    and "Translate (reg s 4) 1 False s = Inr (Inl e, s)"
  shows "ExceptionHandler n merged r others junk SyscallException s = Inl Diverges"
proof (cases n)
  case (Suc k)
  have "ReadRegister i s = Inr (reg s (nat i))" if "0 \<le> i" "i < 40" for i
    using assms(1) that by (simp add: ReadRegister_def fetch_def reg_def machine_ok_def reg_defs)
  then show ?thesis
    using write_loop_diverges [OF assms(1,2,4)] assms(3) by (simp add: Suc syscall_def syscall_defs sys_Write_def)
qed simp

subsection \<open>The properties at concrete states\<close>

text \<open>The state \<open>demo_processes\<close> with some registers set.\<close>

definition demo_user :: "(nat \<times> 32 word) list \<Rightarrow> ProcessState" where
  "demo_user rs = demo_processes\<lparr>registers := fold (\<lambda>(k, v) xs. xs[k := v]) rs (replicate NumTotalRegs 0)\<rparr>"

lemma demo_user_fields [simp]:
  "registers (demo_user rs) = fold (\<lambda>(k, v) xs. xs[k := v]) rs (replicate NumTotalRegs 0)"
  "tlb (demo_user rs) = None" "pageTable (demo_user rs) = Some 0" "pageTableSize (demo_user rs) = 2"
  "tables (demo_user rs) = [0 \<mapsto> map (page_entry 4) [0..<2], 1 \<mapsto> map (page_entry 8) [0..<1]]"
  "mainMemory (demo_user rs) = replicate MemorySize 0" "nextTable (demo_user rs) = 2"
  "pending (demo_user rs) = []" "yieldOnReturn (demo_user rs) = False" "currentThread (demo_user rs) = 0"
  "threads (demo_user rs) = [0 \<mapsto> demo_thread RUNNING None]"
  by (simp_all add: demo_user_def demo_processes_def demo_kernel_def demo_machine_def KernelState.defs ProcessState.defs MachineState.defs)

lemma demo_user_not_main: "named_main merged (demo_user rs) = Inr False"
  by (simp add: named_main_def thread_at_def demo_thread_def)

lemma demo_user_ok:
  assumes "LoadReg \<notin> fst ` set rs"
  shows "kernel_ok (demo_user rs)"
proof -
  have "length (fold (\<lambda>(k, v) xs. xs[k := v]) rs xs) = length xs \<and>
      fold (\<lambda>(k, v) xs. xs[k := v]) rs xs ! LoadReg = xs ! LoadReg" for xs :: "32 word list"
    using assms by (induction rs arbitrary: xs) (auto simp: nth_list_update_neq)
  then show ?thesis
    by (simp add: kernel_ok_def machine_ok_def memory_ok_def mmu_ok_def reg_def reg_defs)
qed

lemma demo_user_unmapped:
  assumes "kernel_ok (demo_user rs)"
  shows "Translate 0x10000 4 False (demo_user rs) = Inr (Inl AddressErrorException, demo_user rs)"
    and "Translate 0x10000 1 False (demo_user rs) = Inr (Inl AddressErrorException, demo_user rs)"
proof -
  have ok: "mmu_ok (demo_user rs)" using assms by (simp add: kernel_ok_def machine_ok_def)
  have sz: "(4 :: nat) \<in> {1, 2, 4}" "(1 :: nat) \<in> {1, 2, 4}" by simp_all
  show "Translate 0x10000 4 False (demo_user rs) = Inr (Inl AddressErrorException, demo_user rs)"
    and "Translate 0x10000 1 False (demo_user rs) = Inr (Inl AddressErrorException, demo_user rs)"
    by (simp_all add: Translate_spec [OF ok sz(1)] Translate_spec [OF ok sz(2), unfolded One_nat_def] misaligned_def findEntry_def size_defs)
qed

definition demo_junk :: Junk where
  "demo_junk = \<lparr>j_thread = (0, replicate 32 0), j_space = (False, 0), j_header = replicate 40 0, j_element = demo_element 0 0\<rparr>"

theorem runaway_program_never_stopped_witness:
  "\<exists>s'. Run_user 1000 (ExceptionHandler 1 True True Inr demo_junk) (tick 1 True Inr) (demo_user [(PCReg, 0x10000)]) = Inr s' \<and>
    reg s' PCReg = 0x10000"
proof -
  let ?s = "demo_user [(PCReg, 0x10000)]"
  have ok: "kernel_ok ?s" by (rule demo_user_ok) (simp add: reg_defs)
  have pc: "reg ?s PCReg = 0x10000" by (simp add: reg_def reg_defs)
  have "Translate (reg ?s PCReg) 4 False ?s = Inr (Inl AddressErrorException, ?s)"
    unfolding pc by (rule demo_user_unmapped(1) [OF ok])
  from runaway_program_never_stopped [OF ok demo_user_not_main _ _ this, where k = 1000 and n = 0 and m = 1]
  have "\<exists>s'. Run_user 1000 (ExceptionHandler 1 True True Inr demo_junk) (tick 1 True Inr) ?s = Inr s' \<and> reg s' PCReg = reg ?s PCReg"
    by (simp only: demo_user_fields One_nat_def) blast
  then show ?thesis unfolding pc .
qed

theorem Write_unreadable_never_returns_witness:
  "ExceptionHandler 1000 True True Inr demo_junk SyscallException (demo_user [(2, SC_Write), (4, 0x10000)]) = Inl Diverges"
proof -
  let ?s = "demo_user [(2, SC_Write), (4, 0x10000)]"
  have ok: "kernel_ok ?s" by (rule demo_user_ok) (auto simp: reg_defs)
  have r: "reg ?s 2 = SC_Write" "reg ?s 4 = 0x10000" by (simp_all add: reg_def reg_defs)
  show ?thesis
    using Write_unreadable_never_returns [of ?s True AddressErrorException 1000 True Inr demo_junk] ok demo_user_not_main [of True] r
      demo_user_unmapped(2) [OF ok] by (simp add: kernel_ok_def del: ExceptionHandler.simps)
qed


end
