(* ===== verification/Nachos_ExecCall.thy ===== *)
theory Nachos_ExecCall
  imports Nachos_Trap
begin

section \<open>What Exec does: userprog/exception.cc\<close>

text \<open>
  The two halves of the system call \<open>Exec\<close>: reading the name of the program from user memory, and making the new
  process from the file.
\<close>

subsection \<open>Reading user memory byte by byte\<close>

text \<open>
  \<open>vread s va\<close>: the byte that a user program sees at the virtual address \<open>va\<close>, if it sees any.
  \<open>same_view\<close>: all of them are the same, and the states differ in use bits only.
\<close>

definition vread :: "'a MachineState_scheme \<Rightarrow> 32 word \<Rightarrow> 8 word option" where
  "vread s va = (case Translate va 1 False s of Inr (Inr p, _) \<Rightarrow> Some (mainMemory s ! p) | _ \<Rightarrow> None)"

definition same_view :: "'a MachineState_scheme \<Rightarrow> 'a MachineState_scheme \<Rightarrow> bool" where
  "same_view s s' \<longleftrightarrow> (\<forall>va. vread s' va = vread s va) \<and> (\<exists>tl ts. s' = s\<lparr>tlb := tl, tables := ts\<rparr>)"

lemma same_view_refl: "same_view s s"
  by (auto simp: same_view_def intro!: exI [of _ "tlb s"] exI [of _ "tables s"])

lemma same_view_trans: "same_view s t \<Longrightarrow> same_view t u \<Longrightarrow> same_view s u"
  unfolding same_view_def by (elim conjE exE, intro conjI) (simp, simp, blast)

lemma get_entry_other:
  "get_entry ref s = Inr e \<Longrightarrow> ref' \<noteq> ref \<Longrightarrow> get_entry ref' (set_entry ref x s) = get_entry ref' s"
  by (cases ref; cases ref') (auto simp: get_entry_def set_entry_def fetch_def split: option.splits)

lemma vread_spec:
  assumes "mmu_ok s"
  shows "vread s va = (case findEntry (va div of_nat PageSize) s of
    Inr (Inr ref) \<Rightarrow> (case get_entry ref s of Inl _ \<Rightarrow> None | Inr e \<Rightarrow>
      if NumPhysPages \<le> unat (physicalPage e) then None
      else Some (mainMemory s ! (unat (physicalPage e) * PageSize + unat va mod 256)))
  | _ \<Rightarrow> None)"
  using Translate_spec [OF assms, of 1 va False]
  by (auto simp: vread_def misaligned_def andThen_def split: sum.splits)

lemma used_same_view:
  assumes ok: "mmu_ok s" and e: "get_entry ref s = Inr e"
  shows "same_view s (set_entry ref (e\<lparr>used := True\<rparr>) s)"
proof -
  let ?s = "set_entry ref (e\<lparr>used := True\<rparr>) s"
  have f: "findEntry vpn ?s = findEntry vpn s" for vpn by (rule findEntry_set_entry [OF e]) simp_all
  let ?g = "\<lambda>va e. if NumPhysPages \<le> unat (physicalPage e) then None
    else Some (mainMemory s ! (unat (physicalPage e) * PageSize + unat va mod 256))"
  have p: "(case get_entry r ?s of Inl _ \<Rightarrow> None | Inr e \<Rightarrow> ?g va e) =
      (case get_entry r s of Inl _ \<Rightarrow> None | Inr e \<Rightarrow> ?g va e)" for r and va :: "32 word"
    using get_entry_other [OF e, of r "e\<lparr>used := True\<rparr>"] get_set_entry [OF e, of "e\<lparr>used := True\<rparr>"] e
    by (cases "r = ref") simp_all
  have "vread ?s va = vread s va" for va
    by (simp add: vread_spec [OF ok] vread_spec [OF mmu_ok_set_entry [OF ok]] f p cong: sum.case_cong if_cong)
  moreover have "?s = s\<lparr>tlb := tlb ?s, tables := tables ?s\<rparr>"
    by (cases ref) (simp_all add: set_entry_def)
  then have "\<exists>tl ts. ?s = s\<lparr>tlb := tl, tables := ts\<rparr>" by blast
  ultimately show ?thesis by (simp add: same_view_def)
qed

lemma ReadMem_byte:
  assumes "kernel_ok s" and b: "vread s va = Some b"
  shows "\<exists>s'. ReadMem eh va 1 s = Inr (Some (scast b), s') \<and> kernel_ok s' \<and> same_view s s'"
proof -
  have ok: "mmu_ok s" using assms(1) by (simp add: kernel_ok_def machine_ok_def)
  have sz: "(1 :: nat) \<in> {1, 2, 4}" by simp
  obtain p s' where tr: "Translate va 1 False s = Inr (Inr p, s')" and p: "b = mainMemory s ! p"
    using b by (auto simp: vread_def split: sum.splits)
  obtain ref e where r: "get_entry ref s = Inr e" "s' = set_entry ref (e\<lparr>used := True, dirty := dirty e \<or> False\<rparr>) s"
    using Translate_Inr [OF ok sz tr] by metis
  have s': "s' = set_entry ref (e\<lparr>used := True\<rparr>) s" using r(2) by (cases e) simp
  have "ReadMem eh va 1 s = Inr (Some (scast b), s')" by (simp add: ReadMem_def tr [unfolded One_nat_def] p s')
  then show ?thesis using used_same_view [OF ok r(1)] set_entry_kernel_ok [OF assms(1)] by (auto simp: s')
qed

text \<open>\<open>user_string s addr bs\<close>: the bytes \<open>bs\<close>, none of them zero, stand in user memory from \<open>addr\<close>.\<close>

definition user_string :: "'a MachineState_scheme \<Rightarrow> 32 word \<Rightarrow> 8 word list \<Rightarrow> bool" where
  "user_string s addr bs \<longleftrightarrow> (\<forall>i<length bs. bs ! i \<noteq> 0 \<and> vread s (addr + of_nat i) = Some (bs ! i))"

lemma user_string_Cons:
  "user_string s addr (b # bs) \<longleftrightarrow> b \<noteq> 0 \<and> vread s addr = Some b \<and> user_string s (addr + 1) bs"
  unfolding user_string_def by (auto simp: less_Suc_eq_0_disj algebra_simps)

lemma user_string_view: "same_view s s' \<Longrightarrow> user_string s' addr bs = user_string s addr bs"
  by (simp add: user_string_def same_view_def)

lemma char_of_byte [simp]: "(ucast (scast (b :: 8 word) :: 32 word) :: 8 word) = b"
  by (rule bit_word_eqI) (simp add: bit_simps)

lemma char_nonzero: "(scast (b :: 8 word) :: 32 word) = 0 \<longleftrightarrow> b = 0"
  using char_of_byte [of b] by (metis scast_0 ucast_0)

text \<open>
  The name is read up to a zero byte; with 128 bytes or more before it, the code writes beyond the buffer.
\<close>

lemma name_loop_reads:
  assumes "kernel_ok s" and "user_string s (addr + 1) bs" and "vread s (addr + 1 + of_nat (length bs)) = Some 0"
    and "length name + Suc (length bs) < NumBuff" and "b \<noteq> 0" and "length bs < n"
  shows "\<exists>s'. name_loop (Suc n) eh addr name (scast b) s = Inr (Some (name @ b # bs), s') \<and> kernel_ok s' \<and> same_view s s'"
  using assms
proof (induction bs arbitrary: n addr name b s)
  case Nil
  obtain k where n: "n = Suc k" using Nil(6) by (cases n) auto
  obtain s' where s': "ReadMem eh (addr + 1) 1 s = Inr (Some 0, s')" "kernel_ok s'" "same_view s s'"
    using ReadMem_byte [OF Nil(1), of "addr + 1" 0] Nil(3) by auto
  then show ?case using Nil(4,5) by (simp add: n char_nonzero)
next
  case (Cons c bs)
  obtain k where n: "n = Suc k" "length bs < k" using Cons.prems(6) by (cases n) auto
  obtain s1 where s1: "ReadMem eh (addr + 1) 1 s = Inr (Some (scast c), s1)" "kernel_ok s1" "same_view s s1"
    using ReadMem_byte [OF Cons.prems(1), of "addr + 1" c] Cons.prems(2) by (auto simp: user_string_Cons)
  have st: "user_string s1 (addr + 1 + 1) bs" "c \<noteq> 0"
    using Cons.prems(2) by (auto simp: user_string_Cons user_string_view [OF s1(3)])
  have "vread s1 (addr + 1 + 1 + of_nat (length bs)) = Some 0"
    using Cons.prems(3) s1(3) by (simp add: same_view_def algebra_simps)
  from Cons.IH [OF s1(2) st(1) this _ st(2) n(2), of "name @ [b]"] Cons.prems(4)
  obtain s' where s': "name_loop (Suc k) eh (addr + 1) (name @ [b]) (scast c) s1 = Inr (Some ((name @ [b]) @ c # bs), s')"
      "kernel_ok s'" "same_view s1 s'" by auto
  have "name_loop (Suc n) eh addr name (scast b) s = name_loop n eh (addr + 1) (name @ [b]) (scast c) s1"
    using s1(1) Cons.prems(4,5) by (simp add: char_nonzero)
  with s' same_view_trans [OF s1(3) s'(3)] n(1) show ?case by auto
qed

lemma name_loop_overflows:
  fixes b :: "8 word"
  assumes "kernel_ok s" and "user_string s (addr + 1) bs" and "vread s (addr + 1 + of_nat (length bs)) = Some d"
    and "length name + Suc (length bs) = NumBuff" and "b \<noteq> 0" and "length bs < n"
  shows "name_loop (Suc n) eh addr name (scast b) s = Inl OutOfBounds"
  using assms
proof (induction bs arbitrary: n addr name b s)
  case Nil
  obtain k where n: "n = Suc k" using Nil(6) by (cases n) auto
  obtain s' where s': "ReadMem eh (addr + 1) 1 s = Inr (Some (scast d), s')" "kernel_ok s'" "same_view s s'"
    using ReadMem_byte [OF Nil(1), of "addr + 1" d] Nil(3) by auto
  then show ?case using Nil(4,5) by (simp add: n char_nonzero)
next
  case (Cons c bs)
  obtain k where n: "n = Suc k" "length bs < k" using Cons.prems(6) by (cases n) auto
  obtain s1 where s1: "ReadMem eh (addr + 1) 1 s = Inr (Some (scast c), s1)" "kernel_ok s1" "same_view s s1"
    using ReadMem_byte [OF Cons.prems(1), of "addr + 1" c] Cons.prems(2) by (auto simp: user_string_Cons)
  have st: "user_string s1 (addr + 1 + 1) bs" "c \<noteq> 0"
    using Cons.prems(2) by (auto simp: user_string_Cons user_string_view [OF s1(3)])
  have "vread s1 (addr + 1 + 1 + of_nat (length bs)) = Some d"
    using Cons.prems(3) s1(3) by (simp add: same_view_def algebra_simps)
  from Cons.IH [OF s1(2) st(1) this _ st(2) n(2), of "name @ [b]"] Cons.prems(4)
  have "name_loop (Suc k) eh (addr + 1) (name @ [b]) (scast c) s1 = Inl OutOfBounds" by simp
  moreover have "name_loop (Suc n) eh addr name (scast b) s = name_loop n eh (addr + 1) (name @ [b]) (scast c) s1"
    using s1(1) Cons.prems(4,5) by (simp add: char_nonzero)
  ultimately show ?case by (simp only: n(1))
qed

lemma read_name_spec:
  assumes "kernel_ok s" and "user_string s addr name" and "vread s (addr + of_nat (length name)) = Some d"
  shows "length name < NumBuff \<Longrightarrow> d = 0 \<Longrightarrow>
      \<exists>s'. read_name eh addr s = Inr (Some name, s') \<and> kernel_ok s' \<and> same_view s s'"
    and "length name = NumBuff \<Longrightarrow> read_name eh addr s = Inl OutOfBounds"
proof -
  show "\<exists>s'. read_name eh addr s = Inr (Some name, s') \<and> kernel_ok s' \<and> same_view s s'"
    if l: "length name < NumBuff" and z: "d = 0"
  proof (cases name)
    case Nil
    then obtain s1 where "ReadMem eh addr 1 s = Inr (Some 0, s1)" "kernel_ok s1" "same_view s s1"
      using ReadMem_byte [OF assms(1), of addr 0] assms(3) z by auto
    then show ?thesis using Nil l by (simp add: read_name_def)
  next
    case (Cons b bs)
    obtain s1 where s1: "ReadMem eh addr 1 s = Inr (Some (scast b), s1)" "kernel_ok s1" "same_view s s1"
      using ReadMem_byte [OF assms(1), of addr b] assms(2) Cons by (auto simp: user_string_Cons)
    have "user_string s1 (addr + 1) bs" "b \<noteq> 0" "vread s1 (addr + 1 + of_nat (length bs)) = Some 0"
      using assms(2,3) z Cons s1(3) by (auto simp: user_string_Cons user_string_view [OF s1(3)] same_view_def algebra_simps)
    from name_loop_reads [OF s1(2) this(1,3) _ this(2), of "[]" "Suc NumBuff" eh] l Cons
    obtain s' where "name_loop (Suc (Suc NumBuff)) eh addr [] (scast b) s1 = Inr (Some name, s')" "kernel_ok s'" "same_view s1 s'"
      by auto
    then show ?thesis using s1 same_view_trans by (auto simp: read_name_def simp del: name_loop.simps)
  qed
  show "read_name eh addr s = Inl OutOfBounds" if l: "length name = NumBuff"
  proof (cases name)
    case (Cons b bs)
    obtain s1 where s1: "ReadMem eh addr 1 s = Inr (Some (scast b), s1)" "kernel_ok s1" "same_view s s1"
      using ReadMem_byte [OF assms(1), of addr b] assms(2) Cons by (auto simp: user_string_Cons)
    have "user_string s1 (addr + 1) bs" "b \<noteq> 0" "vread s1 (addr + 1 + of_nat (length bs)) = Some d"
      using assms(2,3) Cons s1(3) by (auto simp: user_string_Cons user_string_view [OF s1(3)] same_view_def algebra_simps)
    from name_loop_overflows [OF s1(2) this(1,3) _ this(2), of "[]" "Suc NumBuff" eh] l Cons
    show ?thesis using s1(1) by (simp add: read_name_def del: name_loop.simps)
  qed (use l in \<open>simp add: NumBuff_def\<close>)
qed

text \<open>
  The name that \<open>Exec\<close> reads. If a string of fewer than 128 characters stands at the address, exactly
  that string is read, nothing but use bits of the page table changes, and the search for the file starts; if the
  first 128 characters are not zero and one more byte can be read, the kernel writes behind the end of its buffer,
  because the guard compares with \<open>i <= NumBuff\<close>.
\<close>

theorem Exec_file_name:
  assumes "kernel_ok s" and "user_string s addr name" and "vread s (addr + of_nat (length name)) = Some d"
  shows "(length name < NumBuff \<longrightarrow> d = 0 \<longrightarrow>
      (\<exists>s'. read_name eh addr s = Inr (Some name, s') \<and> kernel_ok s' \<and> same_view s s')) \<and>
    (length name = NumBuff \<longrightarrow> read_name eh addr s = Inl OutOfBounds)"
  using read_name_spec [OF assms] by blast

text \<open>Memory full of the letter A.\<close>

definition demo_letters :: ProcessState where
  "demo_letters = (demo_user [])\<lparr>mainMemory := replicate MemorySize 65\<rparr>"

lemma demo_letters_vread:
  assumes "i < 256"
  shows "vread demo_letters (of_nat i) = Some 65"
proof -
  have k: "kernel_ok demo_letters"
    unfolding demo_letters_def by (rule memory_kernel_ok [OF demo_user_ok]) (simp_all del: demo_user_fields, simp)
  then have ok: "mmu_ok demo_letters" by (simp add: kernel_ok_def machine_ok_def)
  have u: "unat (of_nat i :: 32 word) = i" using assms by (simp add: unat_of_nat)
  have v: "(of_nat i :: 32 word) div of_nat PageSize = 0"
    by (rule word_unat_eq_iff [THEN iffD2]) (use assms in \<open>simp only: word_offset u, simp\<close>)
  have "findEntry 0 demo_letters = Inr (Inr (InTable 0 0))" "get_entry (InTable 0 0) demo_letters = Inr (page_entry 4 0)"
    by (simp_all add: demo_letters_def findEntry_def get_entry_def fetch_def page_entry_def)
  then show ?thesis using assms
    by (simp add: vread_spec [OF ok] v u) (simp add: page_entry_def demo_letters_def size_defs)
qed

theorem Exec_file_name_witness:
  "read_name (\<lambda>_. Inr) 0 demo_letters = Inl OutOfBounds"
proof -
  have k: "kernel_ok demo_letters"
    unfolding demo_letters_def by (rule memory_kernel_ok [OF demo_user_ok]) (simp_all del: demo_user_fields, simp)
  have "user_string demo_letters 0 (replicate 128 65)" using demo_letters_vread by (simp add: user_string_def)
  moreover have "vread demo_letters (0 + of_nat (length (replicate 128 (65 :: 8 word)))) = Some 65"
    using demo_letters_vread [of 128] by simp
  ultimately show ?thesis using Exec_file_name [OF k, of 0 "replicate 128 65" 65] by (simp add: NumBuff_def)
qed

subsection \<open>Semaphores and forks when nothing is pending\<close>

definition quiet :: "'a IntState_scheme \<Rightarrow> bool" where
  "quiet s \<longleftrightarrow> pending s = [] \<and> \<not> yieldOnReturn s \<and> \<not> inHandler s"

lemma set_level_quiet:
  "quiet s \<Longrightarrow> \<exists>st. set_level n r others now s = Inr (level s, s\<lparr>stats := st, level := now\<rparr>)"
proof -
  assume q: "quiet s"
  obtain st where st: "OneTick (timer_only r) dl_user (Yield_call n r others) (s\<lparr>level := now\<rparr>) = Inr (s\<lparr>stats := st, level := IntOn\<rparr>)"
    using quiet_tick [of "s\<lparr>level := now\<rparr>" n r others] q by (auto simp: quiet_def tick_def)
  show ?thesis
  proof (cases "now = IntOn \<and> level s = IntOff")
    case True
    then show ?thesis using st q
      by (intro exI [of _ st]) (simp add: set_level_def SetLevel_def ChangeLevel_def quiet_def)
  next
    case False
    then show ?thesis using q
      by (intro exI [of _ "stats s"]) (auto simp add: set_level_def SetLevel_def ChangeLevel_def quiet_def Let_def)
  qed
qed

lemma P_call_quiet:
  assumes q: "quiet s" and x: "semaphores s m = Some x" "0 < sem_value x"
  shows "\<exists>st. P_call (Suc n) r others m s =
    Inr (s\<lparr>semaphores := (semaphores s)(m \<mapsto> x\<lparr>sem_value := sem_value x - 1\<rparr>), stats := st, level := level s\<rparr>)"
proof -
  obtain st where st: "set_level (Suc n) r others IntOff s = Inr (level s, s\<lparr>stats := st, level := IntOff\<rparr>)"
    using set_level_quiet [OF q] by blast
  let ?s1 = "s\<lparr>stats := st, level := IntOff\<rparr>"
  let ?s2 = "set_sem m (x\<lparr>sem_value := sem_value x - 1\<rparr>) ?s1"
  have "quiet ?s2" using q by (simp add: quiet_def set_sem_def)
  from set_level_quiet [OF this, of "Suc n" r others "level s"] obtain st2 where
    "set_level (Suc n) r others (level s) ?s2 = Inr (IntOff, ?s2\<lparr>stats := st2, level := level s\<rparr>)"
    by (auto simp: set_sem_def)
  moreover have "P_loop (Suc n) r others m ?s1 = Inr ?s2" using x by (simp add: P_turn_def sem_at_def)
  ultimately have "P_call (Suc n) r others m s = Inr (?s2\<lparr>stats := st2, level := level s\<rparr>)"
    using st by (simp add: P_call_def del: P_loop.simps)
  then show ?thesis by (intro exI [of _ st2]) (simp add: set_sem_def)
qed

lemma V_call_quiet:
  assumes q: "quiet s" and x: "semaphores s m = Some x" "sem_queue x = []"
  shows "\<exists>st. V_call n r others m s =
    Inr (s\<lparr>semaphores := (semaphores s)(m \<mapsto> x\<lparr>sem_value := sem_value x + 1\<rparr>), stats := st, level := level s\<rparr>)"
proof -
  obtain st where st: "set_level n r others IntOff s = Inr (level s, s\<lparr>stats := st, level := IntOff\<rparr>)"
    using set_level_quiet [OF q] by blast
  let ?s1 = "s\<lparr>stats := st, level := IntOff\<rparr>"
  let ?s2 = "s\<lparr>stats := st, level := IntOff, semaphores := (semaphores s)(m \<mapsto> x\<lparr>sem_value := sem_value x + 1\<rparr>)\<rparr>"
  have "quiet ?s2" using q by (simp add: quiet_def)
  from set_level_quiet [OF this, of n r others "level s"] obtain st2 where
    "set_level n r others (level s) ?s2 = Inr (IntOff, ?s2\<lparr>stats := st2, level := level s\<rparr>)"
    by auto
  moreover obtain nm v where "x = \<lparr>sem_name = nm, sem_value = v, sem_queue = []\<rparr>" using x(2) by (cases x) auto
  then have "V_body m ?s1 = Inr ?s2" using x(1) by (simp add: V_body_def sem_at_def set_sem_def)
  ultimately have "V_call n r others m s = Inr (?s2\<lparr>stats := st2, level := level s\<rparr>)"
    using st by (simp add: V_call_def V_def set_level_def [symmetric])
  then show ?thesis by (intro exI [of _ st2]) simp
qed

definition forked :: "Thread \<Rightarrow> nat \<Rightarrow> int \<Rightarrow> Thread" where
  "forked th func arg = th\<lparr>t_stack := Some STACK_FENCEPOST,
     t_frame := Some \<lparr>PCState = ThreadRoot, StartupPCState = InterruptEnable,
       InitialPCState = Func func, InitialArgState = arg, WhenDonePCState = ThreadFinish\<rparr>, t_status := READY\<rparr>"

lemma Fork_call_quiet:
  assumes q: "quiet s" and x: "threads s t = Some th"
  shows "\<exists>st. Fork_call n r others t func arg s =
    Inr (s\<lparr>threads := (threads s)(t \<mapsto> forked th func arg), readyList := seq_append (readyList s) t, stats := st, level := level s\<rparr>)"
proof -
  obtain s0 where s0: "StackAllocate t func arg s = Inr s0"
    and u0: "s0 = s\<lparr>threads := (threads s)(t \<mapsto> (forked th func arg)\<lparr>t_status := t_status th\<rparr>)\<rparr>"
    using x by (simp add: StackAllocate_def update_thread_def thread_at_def forked_def)
  have q0: "quiet s0" "level s0 = level s" using q by (simp_all add: quiet_def u0)
  obtain st where st: "set_level n r others IntOff s0 = Inr (level s, s0\<lparr>stats := st, level := IntOff\<rparr>)"
    using set_level_quiet [OF q0(1)] q0(2) by metis
  let ?s2 = "s\<lparr>threads := (threads s)(t \<mapsto> forked th func arg), readyList := seq_append (readyList s) t, stats := st, level := IntOff\<rparr>"
  have "quiet ?s2" using q by (simp add: quiet_def)
  from set_level_quiet [OF this, of n r others "level s"] obtain st2 where
    "set_level n r others (level s) ?s2 = Inr (IntOff, ?s2\<lparr>stats := st2, level := level s\<rparr>)"
    by auto
  moreover have "ReadyToRun t (s0\<lparr>stats := st, level := IntOff\<rparr>) = Inr ?s2"
    by (simp add: ReadyToRun_def setThreadStatus_def update_thread_def thread_at_def u0 forked_def)
  ultimately have "Fork_call n r others t func arg s = Inr (?s2\<lparr>stats := st2, level := level s\<rparr>)"
    using st s0 by (simp add: Fork_call_def Fork_def set_level_def [symmetric])
  then show ?thesis by (intro exI [of _ st2]) simp
qed

lemma start_process_quiet:
  assumes q: "quiet s" and x: "semaphores s (MutexNumProc s) = Some x" "0 < sem_value x" "sem_queue x = []"
    and th: "threads s t = Some th"
  shows "\<exists>st. start_process (Suc n) r others t pid s = Inr (s\<lparr>NumProcess := NumProcess s + 1,
    threads := (threads s)(t \<mapsto> forked th process_creator_code pid), readyList := seq_append (readyList s) t, stats := st, level := level s\<rparr>)"
proof -
  let ?x1 = "x\<lparr>sem_value := sem_value x - 1\<rparr>"
  obtain st1 where 1: "P_call (Suc n) r others (MutexNumProc s) s =
      Inr (s\<lparr>semaphores := (semaphores s)(MutexNumProc s \<mapsto> ?x1), stats := st1, level := level s\<rparr>)"
    using P_call_quiet [OF q x(1,2)] by blast
  let ?s2 = "s\<lparr>semaphores := (semaphores s)(MutexNumProc s \<mapsto> ?x1), stats := st1, level := level s, NumProcess := NumProcess s + 1\<rparr>"
  have q2: "quiet ?s2" using q by (simp add: quiet_def)
  have "(semaphores s)(MutexNumProc s \<mapsto> ?x1\<lparr>sem_value := sem_value ?x1 + 1\<rparr>) = semaphores s"
    using x(1) by (simp add: fun_upd_idem)
  with V_call_quiet [OF q2, of "MutexNumProc s" ?x1 "Suc n" r others] x(3) obtain st2 where
    2: "V_call (Suc n) r others (MutexNumProc s) ?s2 = Inr (s\<lparr>NumProcess := NumProcess s + 1, stats := st2, level := level s\<rparr>)"
    by auto
  let ?s3 = "s\<lparr>NumProcess := NumProcess s + 1, stats := st2, level := level s\<rparr>"
  have q3: "quiet ?s3" "threads ?s3 t = Some th" using q th by (simp_all add: quiet_def)
  obtain st3 where "Fork_call (Suc n) r others t process_creator_code pid ?s3 = Inr (s\<lparr>NumProcess := NumProcess s + 1,
    threads := (threads s)(t \<mapsto> forked th process_creator_code pid), readyList := seq_append (readyList s) t, stats := st3, level := level s\<rparr>)"
    using Fork_call_quiet [OF q3] by fastforce
  with 1 2 show ?thesis by (auto simp: start_process_def)
qed

subsection \<open>Making the process\<close>

lemma rest_fields:
  assumes "rest s' = rest s"
  shows "threads s' = threads s" "readyList s' = readyList s" "currentThread s' = currentThread s" "semaphores s' = semaphores s"
    "nextSemaphore s' = nextSemaphore s" "pending s' = pending s" "yieldOnReturn s' = yieldOnReturn s" "inHandler s' = inHandler s"
    "level s' = level s" "registers s' = registers s" "KernelState.more s' = KernelState.more s"
  using assms by (simp_all add: rest_def ThreadState.truncate_def)

lemma process_fields:
  assumes "KernelState.more (s' :: 'a ProcessState_scheme) = KernelState.more s"
  shows "elements s' = elements s" "nextElement s' = nextElement s" "Head s' = Head s" "Tail s' = Tail s"
    "NumProcess s' = NumProcess s" "MutexNumProc s' = MutexNumProc s"
  using assms by (cases s; cases s'; simp)+

text \<open>The invariant of the address spaces depends on the kernel's memory management only.\<close>

definition mem_view :: "'a KernelState_scheme \<Rightarrow> 8 word list \<times> (nat \<rightharpoonup> TranslationEntry list) \<times> BitMap \<times>
    (nat \<rightharpoonup> AddrSpace) \<times> nat \<times> nat" where
  "mem_view s = (mainMemory s, tables s, MainMemMap s, spaces s, nextSpace s, nextTable s)"

lemma mem_view_ok:
  assumes "mem_view s' = mem_view s"
  shows "spaces_ok s' = spaces_ok s" "live s' = live s" "image_of a s' = image_of a s"
proof -
  have l: "live s' = live s" using assms by (simp add: mem_view_def live_def fun_eq_iff)
  have h: "housed a s' = housed a s" for a using assms by (simp add: mem_view_def housed_def space_ok_def)
  show "live s' = live s" "image_of a s' = image_of a s"
    using l assms by (simp_all add: mem_view_def image_of_def)
  show "spaces_ok s' = spaces_ok s"
    using assms by (simp add: spaces_ok_def l h) (simp add: mem_view_def memory_ok_def)
qed

lemma AddrSpace_new_space: "result_ok (\<lambda>q. \<exists>a. spaces (snd q) (fst q) = Some a) (AddrSpace_new garbage junk f s)"
  unfolding AddrSpace_new_def Let_def
  by (intro any_then) (auto simp: new_space_def intro!: any_then result_ok_if simp del: result_ok_andThen)

lemma PCB_Append_data:
  assumes "PCB_Append x s = Inr s'" and "elements s y = Some e"
  shows "\<exists>e'. elements s' y = Some e' \<and> PID e' = PID e \<and> ParentPID e' = ParentPID e \<and> Valid e' = Valid e \<and>
    CurrentThread e' = CurrentThread e \<and> ProcessSemaphore e' = ProcessSemaphore e"
  using assms
  by (auto simp: PCB_Append_def update_element_def res_simps Let_def split: option.splits if_splits)

lemma chain_cong:
  assumes "chain s xs" and "Head s' = Head s" and "Tail s' = Tail s" and "nextElement s \<le> nextElement s'"
    and "\<And>x. x \<in> set xs \<Longrightarrow> elements s' x = elements s x"
  shows "chain s' xs"
proof -
  have "linked (elements s') xs"
    by (rule linked_cong [of "elements s"]) (use assms(1,5) in \<open>auto simp: chain_def\<close>)
  moreover have m: "map (pid_of s') xs = map (pid_of s) xs" using assms(5) by (simp add: pid_of_def)
  have "distinct (map (pid_of s') xs)" unfolding m using assms(1) by (simp add: chain_def)
  moreover have "\<forall>x\<in>set xs. elements s' x \<noteq> None \<and> x < nextElement s'"
    using assms(1,4,5) by (auto simp: chain_def)
  moreover have "distinct xs"
    "Head s = (if xs = [] then None else Some (List.hd xs))" "Tail s = (if xs = [] then None else Some (last xs))"
    using assms(1) by (simp_all add: chain_def)
  ultimately show ?thesis unfolding chain_def assms(2,3) by (intro conjI) simp_all
qed

text \<open>The end of \<open>Exec\<close>: the new entry goes on the process list, the number to register 2, the counters on.\<close>

lemma exec_finish:
  fixes s :: "'a ProcessState_scheme"
  assumes "chain s xs" and e: "elements s el = Some e" and "el < nextElement s" and "el \<notin> set xs"
    and "PID e = pid" and "pid \<notin> pid_of s ` set xs" and len: "length (registers s) = NumTotalRegs"
  shows "\<exists>s' e'. andThen (PCB_Append el s) (\<lambda>s7. andThen (WriteRegister 2 (word_of_int pid) s7) (\<lambda>s8. Inr (AdvancePC s8))) = Inr s' \<and>
    chain s' (xs @ [el]) \<and> PCB_Return pid s' = Inr (Some el) \<and> elements s' el = Some e' \<and>
    PID e' = pid \<and> ParentPID e' = ParentPID e \<and> CurrentThread e' = CurrentThread e \<and> Valid e' = Valid e \<and>
    reg s' 2 = word_of_int pid \<and> reg s' PCReg = reg s NextPCReg \<and> reg s' NextPCReg = reg s NextPCReg + 4 \<and>
    mem_view s' = mem_view s \<and> NumProcess s' = NumProcess s \<and> ready s' = ready s \<and> threads s' = threads s"
proof -
  have p: "pid_of s el = pid" using e assms(5) by (simp add: pid_of_def)
  obtain s7 where s7: "PCB_Append el s = Inr s7" "chain s7 (xs @ [el])" "pid_of s7 = pid_of s"
      "s7 = s\<lparr>elements := elements s7, Head := Head s7, Tail := Tail s7\<rparr>"
    using PCB_Append_chain [OF assms(1) _ assms(3,4)] e assms(6) p by auto
  obtain els h tl where f: "s7 = s\<lparr>elements := els, Head := h, Tail := tl\<rparr>" using s7(4) by blast
  obtain e' where e': "elements s7 el = Some e'" "PID e' = PID e" "ParentPID e' = ParentPID e" "Valid e' = Valid e"
      "CurrentThread e' = CurrentThread e"
    using PCB_Append_data [OF s7(1) e] by blast
  let ?s8 = "s7\<lparr>registers := (registers s7)[2 := word_of_int pid]\<rparr>"
  have w: "WriteRegister 2 (word_of_int pid) s7 = Inr ?s8"
    using len by (simp add: WriteRegister_def store_def f reg_defs)
  obtain rs where rs: "AdvancePC ?s8 = s7\<lparr>registers := rs\<rparr>" by (simp add: AdvancePC_def Let_def set_reg_def)
  have pr: "pid_of (s7\<lparr>registers := rs\<rparr>) = pid_of s7" by (simp add: pid_of_def fun_eq_iff)
  have "chain (AdvancePC ?s8) (xs @ [el])" unfolding rs by (rule chain_cong [OF s7(2)]) simp_all
  moreover from pcb.lookup [OF this, of el] have "PCB_Return pid (AdvancePC ?s8) = Inr (Some el)"
    using p s7(3) pr by (simp add: rs)
  moreover have "reg (AdvancePC ?s8) 2 = word_of_int pid" "reg (AdvancePC ?s8) PCReg = reg s NextPCReg"
    "reg (AdvancePC ?s8) NextPCReg = reg s NextPCReg + 4"
    using len by (simp_all add: AdvancePC_def Let_def set_reg_def reg_def f reg_defs)
  moreover have "mem_view (AdvancePC ?s8) = mem_view s" "NumProcess (AdvancePC ?s8) = NumProcess s"
    "ready (AdvancePC ?s8) = ready s" "threads (AdvancePC ?s8) = threads s" "elements (AdvancePC ?s8) el = Some e'"
    using e'(1) by (simp_all add: rs) (simp_all add: f mem_view_def ready_def)
  ultimately show ?thesis using s7(1) w e' assms(5) by (intro exI [of _ "AdvancePC ?s8"] exI [of _ e']) simp
qed


text \<open>The kernel of the examples with a program file, and a thread made for it.\<close>

definition demo_exec :: ProcessState where
  "demo_exec = (demo_user [])\<lparr>threads := [0 \<mapsto> demo_thread RUNNING None, 1 \<mapsto> demo_thread JUST_CREATED None],
     semaphores := [0 \<mapsto> \<lparr>sem_name = ''MutexNumProc'', sem_value = 1, sem_queue = []\<rparr>], nextSemaphore := 1\<rparr>"

lemma demo_exec_fields [simp]:
  "MutexNumProc demo_exec = 0" "currentThread demo_exec = 0" "quiet demo_exec" "nextSemaphore demo_exec = 1"
  "semaphores demo_exec = [0 \<mapsto> \<lparr>sem_name = ''MutexNumProc'', sem_value = 1, sem_queue = []\<rparr>]"
  "threads demo_exec = [0 \<mapsto> demo_thread RUNNING None, 1 \<mapsto> demo_thread JUST_CREATED None]"
  by (simp_all add: demo_exec_def quiet_def demo_user_def demo_processes_def demo_kernel_def demo_machine_def
      KernelState.defs ProcessState.defs MachineState.defs)

lemma demo_exec_ok: "spaces_ok demo_exec" "kernel_ok demo_exec" "chain demo_exec [0]" "pid_of demo_exec 0 = 7"
proof -
  have v: "mainMemory demo_exec = mainMemory demo_kernel" "tables demo_exec = tables demo_kernel"
    "MainMemMap demo_exec = MainMemMap demo_kernel" "spaces demo_exec = spaces demo_kernel"
    "nextSpace demo_exec = nextSpace demo_kernel" "nextTable demo_exec = nextTable demo_kernel"
    by (simp_all add: demo_exec_def demo_user_def demo_processes_def KernelState.defs ProcessState.defs)
  then have l: "live demo_exec = live demo_kernel" and h: "housed a demo_exec = housed a demo_kernel" for a
    by (simp_all add: live_def fun_eq_iff housed_def space_ok_def)
  show "spaces_ok demo_exec" using demo_spaces_ok unfolding spaces_ok_def l h memory_ok_def v .
  show "kernel_ok demo_exec" unfolding demo_exec_def using demo_user_ok [of "[]"] by simp
  have e: "Head demo_exec = Head demo_processes" "Tail demo_exec = Tail demo_processes"
    "nextElement demo_exec = nextElement demo_processes" "elements demo_exec = elements demo_processes"
    by (simp_all add: demo_exec_def demo_user_def)
  show "chain demo_exec [0]" by (rule chain_cong [OF demo_chain(1)]) (simp_all add: e)
  show "pid_of demo_exec 0 = 7" using demo_chain(2) by (simp add: pid_of_def e)
qed


end
