(* ===== verification/Nachos_Tasks.thy ===== *)
theory Nachos_Tasks
  imports Nachos_Thread
begin

section \<open>Concurrent tasks: what the simulations of threads/threadtest.cc share\<close>

text \<open>
  A kernel thread can lose the processor only inside a call of \<open>Yield\<close>, \<open>P\<close> or \<open>V\<close>: at the end of each of them interrupts are
  enabled again, and with \<open>-rs\<close> the timer can make the thread yield there. The code of a task is therefore
  cut into blocks that run without interruption: the code that follows such a call, up to and including the effect of the
  next one. A task is a step function: \<open>step i c s\<close> runs the next block of thread \<open>i\<close> in the shared state \<open>s\<close>, with \<open>c\<close> the
  numbers that the host's \<open>Random()\<close> returns in it. A thread that finds a semaphore at zero waits; its step
  then changes nothing. A semaphore is its value, as \<open>semaphore_counts\<close> justifies for the semaphores of the
  thread kernel; which of several waiting threads takes it is left open.
\<close>

type_synonym draws = "nat \<times> nat"
type_synonym 's task = "nat \<Rightarrow> draws \<Rightarrow> 's \<Rightarrow> 's res"

inductive runs :: "'s task \<Rightarrow> nat \<Rightarrow> 's \<Rightarrow> 's \<Rightarrow> bool" for step :: "'s task" and n :: nat and s0 :: 's where
  start: "runs step n s0 s0"
| turn: "runs step n s0 s \<Longrightarrow> i < n \<Longrightarrow> step i c s = Inr s' \<Longrightarrow> runs step n s0 s'"

inductive_cases runsE: "runs step n s0 s"

text \<open>A given schedule: which thread runs next, and what it draws.\<close>

fun schedule :: "'s task \<Rightarrow> (nat \<times> draws) list \<Rightarrow> 's \<Rightarrow> 's res" where
  "schedule step [] s = Inr s"
| "schedule step ((i, c) # es) s = andThen (step i c s) (schedule step es)"

lemma schedule_append:
  "schedule step (es @ fs) s = andThen (schedule step es s) (schedule step fs)"
  by (induction step es s rule: schedule.induct) (auto simp: andThen_assoc intro!: andThen_cong)

lemma schedule_runs:
  "schedule step es s = Inr s' \<Longrightarrow> \<forall>(i, c)\<in>set es. i < n \<Longrightarrow> runs step n s0 s \<Longrightarrow> runs step n s0 s'"
proof (induction es arbitrary: s)
  case (Cons e es)
  obtain i c where e: "e = (i, c)" by (cases e)
  obtain s1 where s1: "step i c s = Inr s1" "schedule step es s1 = Inr s'"
    using Cons.prems(1) e by (auto simp: res_simps)
  have "runs step n s0 s1" using runs.turn [OF Cons.prems(3) _ s1(1)] Cons.prems(2) e by auto
  with Cons.IH [OF s1(2)] Cons.prems(2) show ?case by simp
qed simp

text \<open>The random stall of \<open>BusyWaitingLoop\<close>: \<open>Random() % 4 + 2\<close> yields.\<close>

definition stallCycle :: "draws \<Rightarrow> nat" where
  "stallCycle c = fst c mod 4 + 2"

lemma stallCycle_bounds: "2 \<le> stallCycle c" "stallCycle c \<le> 5"
proof -
  have "fst c mod 4 < 4" by simp
  then show "2 \<le> stallCycle c" "stallCycle c \<le> 5" by (simp_all add: stallCycle_def)
qed

subsection \<open>Invariants of tasks\<close>

text \<open>
  What every analysis of a task uses: an invariant of the shared state that each block keeps. Then it holds in every
  state that any interleaving reaches, and where a block cannot fail under the invariant, no interleaving fails.
\<close>

locale task_invariant =
  fixes step :: "'s task" and n :: nat and good :: "'s \<Rightarrow> bool"
  assumes block_keeps: "good s \<Longrightarrow> i < n \<Longrightarrow> step i c s = Inr s' \<Longrightarrow> good s'"
    and block_total: "good s \<Longrightarrow> i < n \<Longrightarrow> \<exists>s'. step i c s = Inr s'"
begin

lemma runs_good: "runs step n s0 s \<Longrightarrow> good s0 \<Longrightarrow> good s"
  by (induction rule: runs.induct) (auto intro: block_keeps)

lemma runs_never_fails:
  assumes "runs step n s0 s" and "good s0" and "i < n"
  shows "\<exists>s'. step i c s = Inr s' \<and> good s'"
  using block_total [OF runs_good [OF assms(1,2)] assms(3)] block_keeps [OF runs_good [OF assms(1,2)] assms(3)] by blast

lemma schedule_good: "schedule step es s = Inr s' \<Longrightarrow> \<forall>(i, c)\<in>set es. i < n \<Longrightarrow> good s \<Longrightarrow> good s'"
  using runs_good [OF schedule_runs [OF _ _ runs.start]] by blast

end

subsection \<open>Counting threads\<close>

definition count_at :: "nat \<Rightarrow> (nat \<Rightarrow> bool) \<Rightarrow> nat" where
  "count_at n p = card {i. i < n \<and> p i}"

lemma count_at_change:
  assumes "i < n" and "\<And>j. j \<noteq> i \<Longrightarrow> q j = p j"
  shows "int (count_at n q) = int (count_at n p) + (if q i then 1 else 0) - (if p i then 1 else 0)"
proof -
  let ?R = "{j. j < n \<and> j \<noteq> i \<and> p j}"
  have f: "finite ?R" by simp
  have "{j. j < n \<and> p j} = (if p i then insert i ?R else ?R)" using assms(1) by auto
  moreover have "{j. j < n \<and> q j} = (if q i then insert i ?R else ?R)" using assms by (auto, metis)
  ultimately show ?thesis using f by (simp add: count_at_def)
qed

lemma count_at_cong: "(\<And>j. j < n \<Longrightarrow> q j = p j) \<Longrightarrow> count_at n q = count_at n p"
  unfolding count_at_def by (rule arg_cong [where f = card]) auto

lemma count_at_0: "count_at n p = 0 \<longleftrightarrow> (\<forall>i<n. \<not> p i)"
  by (auto simp: count_at_def)

lemma count_at_all: "count_at n p = n \<longleftrightarrow> (\<forall>i<n. p i)"
proof
  assume c: "count_at n p = n"
  have "{i. i < n \<and> p i} \<subseteq> {..<n}" by auto
  moreover have "card {i. i < n \<and> p i} = card {..<n}" using c by (simp add: count_at_def)
  ultimately have "{i. i < n \<and> p i} = {..<n}" by (intro card_subset_eq) auto
  then show "\<forall>i<n. p i" by auto
next
  assume "\<forall>i<n. p i"
  then have "{i. i < n \<and> p i} = {..<n}" by auto
  then show "count_at n p = n" by (simp add: count_at_def)
qed

lemma count_at_le: "count_at n p \<le> n"
proof -
  have "card {i. i < n \<and> p i} \<le> card {..<n}" by (rule card_mono) auto
  then show ?thesis by (simp add: count_at_def)
qed

end
