(* ===== verification/Nachos_Dinner.thy ===== *)
theory Nachos_Dinner
  imports Nachos_Tasks
begin

section \<open>Dining philosophers with semaphores: task 4 of threads/threadtest.cc\<close>

text \<open>
  \<open>DinPhilSemaphore\<close> and the routines it calls, cut into blocks. \<open>seat\<close> says where in the code each thread is: which
  call it has just returned from, or which semaphore it is waiting for. The globals keep their names
  (\<open>is_done\<close> is \<open>done\<close>, \<open>phils\<close> is \<open>P\<close>).
\<close>

datatype pState = THINKING | ISEATING | ISHUNGRY

datatype seat = Outside | WaitEnter | HaveEnter | SitGranted nat | EnterReleased | WaitSit | Seated
  | WaitMutex | HaveMutex | GrantGiven | MutexReleased | WaitGrant | Granted | WaitMeal | HaveMeal | MealReleased
  | EatYield nat | WaitPut | HavePut | LeftWoken | RightWoken | PutReleased | ThinkYield nat
  | WaitLeave | HaveLeave | LeaveGranted nat | LeaveReleased | WaitLeaveSem | HaveLeaveSem | WaitLeave2 | HaveLeave2 | Gone

record Dinner =
  phils :: nat
  MealLeft :: int
  NumPhilNotIn :: int
  PhilState :: "nat \<Rightarrow> pState"
  is_done :: "nat \<Rightarrow> bool"
  NumRdyLeave :: int
  NumGrantLeave :: int
  LeaveGrant :: bool
  mutex :: nat
  EnterMutex :: nat
  LeaveMutex :: nat
  SitSemaphore :: nat
  LeaveSemaphore :: nat
  MealLeftMutex :: nat
  PhilGrantSemaphore :: "nat \<Rightarrow> nat"
  at :: "nat \<Rightarrow> seat"

text \<open>The initialisation in \<open>ThreadTest\<close>.\<close>

definition dinner_start :: "nat \<Rightarrow> int \<Rightarrow> Dinner" where
  "dinner_start p m = \<lparr>phils = p, MealLeft = m, NumPhilNotIn = int p, PhilState = (\<lambda>_. THINKING), is_done = (\<lambda>_. False),
     NumRdyLeave = 0, NumGrantLeave = 0, LeaveGrant = False, mutex = 1, EnterMutex = 1, LeaveMutex = 1,
     SitSemaphore = 0, LeaveSemaphore = 0, MealLeftMutex = 1, PhilGrantSemaphore = (\<lambda>_. 0), at = (\<lambda>_. Outside)\<rparr>"

definition goto :: "nat \<Rightarrow> seat \<Rightarrow> Dinner \<Rightarrow> Dinner" where
  "goto i p d = d\<lparr>at := (at d)(i := p)\<rparr>"

subsection \<open>The semaphore operations\<close>

definition P_mutex :: "nat \<Rightarrow> seat \<Rightarrow> seat \<Rightarrow> Dinner \<Rightarrow> Dinner" where
  "P_mutex i wait have d = (if mutex d = 0 then goto i wait d else goto i have (d\<lparr>mutex := mutex d - 1\<rparr>))"

definition P_enter :: "nat \<Rightarrow> Dinner \<Rightarrow> Dinner" where
  "P_enter i d = (if EnterMutex d = 0 then goto i WaitEnter d else goto i HaveEnter (d\<lparr>EnterMutex := EnterMutex d - 1\<rparr>))"

definition P_sit :: "nat \<Rightarrow> Dinner \<Rightarrow> Dinner" where
  "P_sit i d = (if SitSemaphore d = 0 then goto i WaitSit d else goto i Seated (d\<lparr>SitSemaphore := SitSemaphore d - 1\<rparr>))"

definition P_leave :: "nat \<Rightarrow> seat \<Rightarrow> seat \<Rightarrow> Dinner \<Rightarrow> Dinner" where
  "P_leave i wait have d = (if LeaveMutex d = 0 then goto i wait d else goto i have (d\<lparr>LeaveMutex := LeaveMutex d - 1\<rparr>))"

definition P_together :: "nat \<Rightarrow> Dinner \<Rightarrow> Dinner" where
  "P_together i d = (if LeaveSemaphore d = 0 then goto i WaitLeaveSem d
     else goto i HaveLeaveSem (d\<lparr>LeaveSemaphore := LeaveSemaphore d - 1\<rparr>))"

definition P_meal :: "nat \<Rightarrow> Dinner \<Rightarrow> Dinner" where
  "P_meal i d = (if MealLeftMutex d = 0 then goto i WaitMeal d
     else goto i HaveMeal (d\<lparr>MealLeftMutex := MealLeftMutex d - 1\<rparr>))"

definition P_grant :: "nat \<Rightarrow> Dinner \<Rightarrow> Dinner" where
  "P_grant i d = (if PhilGrantSemaphore d i = 0 then goto i WaitGrant d
     else goto i Granted (d\<lparr>PhilGrantSemaphore := (PhilGrantSemaphore d)(i := PhilGrantSemaphore d i - 1)\<rparr>))"

definition V_mutex :: "nat \<Rightarrow> seat \<Rightarrow> Dinner \<Rightarrow> Dinner" where
  "V_mutex i p d = goto i p (d\<lparr>mutex := mutex d + 1\<rparr>)"

definition V_enter :: "nat \<Rightarrow> Dinner \<Rightarrow> Dinner" where
  "V_enter i d = goto i EnterReleased (d\<lparr>EnterMutex := EnterMutex d + 1\<rparr>)"

definition V_sit :: "nat \<Rightarrow> nat \<Rightarrow> Dinner \<Rightarrow> Dinner" where
  "V_sit i j d = goto i (SitGranted j) (d\<lparr>SitSemaphore := SitSemaphore d + 1\<rparr>)"

definition V_leave :: "nat \<Rightarrow> seat \<Rightarrow> Dinner \<Rightarrow> Dinner" where
  "V_leave i p d = goto i p (d\<lparr>LeaveMutex := LeaveMutex d + 1\<rparr>)"

definition V_together :: "nat \<Rightarrow> nat \<Rightarrow> Dinner \<Rightarrow> Dinner" where
  "V_together i j d = goto i (LeaveGranted j) (d\<lparr>LeaveSemaphore := LeaveSemaphore d + 1\<rparr>)"

definition V_meal :: "nat \<Rightarrow> Dinner \<Rightarrow> Dinner" where
  "V_meal i d = goto i MealReleased (d\<lparr>MealLeftMutex := MealLeftMutex d + 1\<rparr>)"

definition V_grant :: "nat \<Rightarrow> nat \<Rightarrow> seat \<Rightarrow> Dinner \<Rightarrow> Dinner" where
  "V_grant i j p d = goto i p (d\<lparr>PhilGrantSemaphore := (PhilGrantSemaphore d)(j := PhilGrantSemaphore d j + 1)\<rparr>)"

lemmas dinner_ops = goto_def P_mutex_def P_enter_def P_sit_def P_leave_def P_together_def P_meal_def P_grant_def
  V_mutex_def V_enter_def V_sit_def V_leave_def V_together_def V_meal_def V_grant_def

subsection \<open>The routines\<close>

definition left_of :: "nat \<Rightarrow> Dinner \<Rightarrow> nat" where "left_of i d = (i + phils d - 1) mod phils d"
definition right_of :: "nat \<Rightarrow> Dinner \<Rightarrow> nat" where "right_of i d = (i + 1) mod phils d"

definition set_state :: "nat \<Rightarrow> pState \<Rightarrow> Dinner \<Rightarrow> Dinner" where
  "set_state i st d = d\<lparr>PhilState := (PhilState d)(i := st)\<rparr>"

text \<open>One turn of the loop of \<open>GetSticks\<close>: the test, and the release of \<open>mutex\<close> or of the philosopher's own semaphore.\<close>

definition may_eat :: "nat \<Rightarrow> Dinner \<Rightarrow> bool" where
  "may_eat i d \<longleftrightarrow> (PhilState d i = ISHUNGRY \<and> PhilState d (left_of i d) \<noteq> ISEATING \<and>
       PhilState d (right_of i d) \<noteq> ISEATING \<and> phils d > 2) \<or>
     (PhilState d i = ISHUNGRY \<and> PhilState d (right_of i d) \<noteq> ISEATING \<and> phils d = 2)"

definition hungry_turn :: "nat \<Rightarrow> Dinner \<Rightarrow> Dinner" where
  "hungry_turn i d = (if may_eat i d then V_grant i i GrantGiven (set_state i ISEATING d)
     else V_mutex i MutexReleased d)"

definition put_down :: "nat \<Rightarrow> Dinner \<Rightarrow> Dinner" where
  "put_down i d = V_mutex i PutReleased (set_state i THINKING d)"

definition wake_right :: "nat \<Rightarrow> Dinner \<Rightarrow> Dinner" where
  "wake_right i d = (if phils d > 2 \<and> PhilState d (right_of i d) = ISHUNGRY
     then V_grant i (right_of i d) RightWoken d else put_down i d)"

definition PutSticks :: "nat \<Rightarrow> Dinner \<Rightarrow> Dinner" where
  "PutSticks i d = (if PhilState d (left_of i d) = ISHUNGRY then V_grant i (left_of i d) LeftWoken d else wake_right i d)"

definition Eat :: "nat \<Rightarrow> Dinner \<Rightarrow> Dinner" where
  "Eat i d = V_meal i (if MealLeft d \<noteq> 0 then d\<lparr>MealLeft := MealLeft d - 1\<rparr> else d\<lparr>is_done := (is_done d)(i := True)\<rparr>)"

text \<open>The loop \<open>while (done[i] != true)\<close>.\<close>

definition dinner_loop :: "nat \<Rightarrow> Dinner \<Rightarrow> Dinner" where
  "dinner_loop i d = (if is_done d i then P_leave i WaitLeave HaveLeave d else P_mutex i WaitMutex HaveMutex d)"

definition EnterRoom :: "nat \<Rightarrow> Dinner \<Rightarrow> Dinner" where
  "EnterRoom i d = (let d1 = d\<lparr>NumPhilNotIn := NumPhilNotIn d - 1\<rparr>
     in if NumPhilNotIn d1 = 0 \<and> 0 < phils d then V_sit i 1 d1 else V_enter i d1)"

definition LeaveRoom :: "nat \<Rightarrow> Dinner \<Rightarrow> Dinner" where
  "LeaveRoom i d = (let d1 = d\<lparr>NumRdyLeave := NumRdyLeave d + 1\<rparr>
     in if NumRdyLeave d1 = int (phils d) \<and> 0 < phils d then V_together i 1 d1 else V_leave i LeaveReleased d1)"

definition last_out :: "nat \<Rightarrow> Dinner \<Rightarrow> Dinner" where
  "last_out i d = (if NumGrantLeave d < int (phils d) - 1
     then V_leave i Gone (d\<lparr>NumGrantLeave := NumGrantLeave d + 1\<rparr>)
     else goto i Gone (if LeaveGrant d then d else d\<lparr>LeaveGrant := True\<rparr>))"

fun DinPhilSemaphore :: "nat \<Rightarrow> draws \<Rightarrow> seat \<Rightarrow> Dinner \<Rightarrow> Dinner" where
  "DinPhilSemaphore i c Outside d = P_enter i d"
| "DinPhilSemaphore i c WaitEnter d = P_enter i d"
| "DinPhilSemaphore i c HaveEnter d = EnterRoom i d"
| "DinPhilSemaphore i c (SitGranted j) d = (if j < phils d then V_sit i (Suc j) d else V_enter i d)"
| "DinPhilSemaphore i c EnterReleased d = P_sit i d"
| "DinPhilSemaphore i c WaitSit d = P_sit i d"
| "DinPhilSemaphore i c Seated d = dinner_loop i d"
| "DinPhilSemaphore i c WaitMutex d = P_mutex i WaitMutex HaveMutex d"
| "DinPhilSemaphore i c HaveMutex d = hungry_turn i (set_state i ISHUNGRY d)"
| "DinPhilSemaphore i c GrantGiven d = V_mutex i MutexReleased d"
| "DinPhilSemaphore i c MutexReleased d = P_grant i d"
| "DinPhilSemaphore i c WaitGrant d = P_grant i d"
| "DinPhilSemaphore i c Granted d = (if PhilState d i = ISHUNGRY then hungry_turn i d else P_meal i d)"
| "DinPhilSemaphore i c WaitMeal d = P_meal i d"
| "DinPhilSemaphore i c HaveMeal d = Eat i d"
| "DinPhilSemaphore i c MealReleased d = goto i (EatYield (stallCycle c - 1)) d"
| "DinPhilSemaphore i c (EatYield k) d = (if k \<noteq> 0 then goto i (EatYield (k - 1)) d else P_mutex i WaitPut HavePut d)"
| "DinPhilSemaphore i c WaitPut d = P_mutex i WaitPut HavePut d"
| "DinPhilSemaphore i c HavePut d = PutSticks i d"
| "DinPhilSemaphore i c LeftWoken d = wake_right i d"
| "DinPhilSemaphore i c RightWoken d = put_down i d"
| "DinPhilSemaphore i c PutReleased d = goto i (ThinkYield (stallCycle c - 1)) d"
| "DinPhilSemaphore i c (ThinkYield k) d = (if k \<noteq> 0 then goto i (ThinkYield (k - 1)) d else dinner_loop i d)"
| "DinPhilSemaphore i c WaitLeave d = P_leave i WaitLeave HaveLeave d"
| "DinPhilSemaphore i c HaveLeave d = LeaveRoom i d"
| "DinPhilSemaphore i c (LeaveGranted j) d = (if j < phils d then V_together i (Suc j) d else V_leave i LeaveReleased d)"
| "DinPhilSemaphore i c LeaveReleased d = P_together i d"
| "DinPhilSemaphore i c WaitLeaveSem d = P_together i d"
| "DinPhilSemaphore i c HaveLeaveSem d = P_leave i WaitLeave2 HaveLeave2 d"
| "DinPhilSemaphore i c WaitLeave2 d = P_leave i WaitLeave2 HaveLeave2 d"
| "DinPhilSemaphore i c HaveLeave2 d = last_out i d"
| "DinPhilSemaphore i c Gone d = d"

definition dinner_step :: "Dinner task" where
  "dinner_step i c d = Inr (DinPhilSemaphore i c (at d i) d)"


subsection \<open>Who eats, who is in the room, who leaves\<close>

fun eating_at :: "seat \<Rightarrow> bool" where
  "eating_at GrantGiven = True" | "eating_at WaitMeal = True" | "eating_at HaveMeal = True"
| "eating_at MealReleased = True" | "eating_at (EatYield k) = True" | "eating_at WaitPut = True"
| "eating_at HavePut = True" | "eating_at LeftWoken = True" | "eating_at RightWoken = True" | "eating_at pl = False"

fun waiting_for_sticks :: "seat \<Rightarrow> bool" where
  "waiting_for_sticks MutexReleased = True" | "waiting_for_sticks WaitGrant = True"
| "waiting_for_sticks Granted = True" | "waiting_for_sticks pl = False"

fun not_in :: "seat \<Rightarrow> bool" where
  "not_in Outside = True" | "not_in WaitEnter = True" | "not_in HaveEnter = True" | "not_in pl = False"

fun not_seated :: "seat \<Rightarrow> bool" where
  "not_seated Outside = True" | "not_seated WaitEnter = True" | "not_seated HaveEnter = True"
| "not_seated EnterReleased = True" | "not_seated WaitSit = True" | "not_seated pl = False"

fun leaving :: "seat \<Rightarrow> bool" where
  "leaving WaitLeave = True" | "leaving HaveLeave = True" | "leaving (LeaveGranted j) = True" | "leaving LeaveReleased = True"
| "leaving WaitLeaveSem = True" | "leaving HaveLeaveSem = True" | "leaving WaitLeave2 = True" | "leaving HaveLeave2 = True"
| "leaving Gone = True" | "leaving pl = False"

fun ready_to_leave :: "seat \<Rightarrow> bool" where
  "ready_to_leave WaitLeave = False" | "ready_to_leave HaveLeave = False" | "ready_to_leave pl = leaving pl"

fun let_out :: "seat \<Rightarrow> bool" where
  "let_out LeaveReleased = False" | "let_out WaitLeaveSem = False" | "let_out pl = ready_to_leave pl"

text \<open>
  The chopsticks: \<open>PhilState\<close> says truthfully where each philosopher is, and two neighbours are never both eating. It
  holds although \<open>GetSticks\<close> examines its neighbours again without \<open>mutex\<close>, because the test and the assignment are in
  one block.
\<close>

definition sticks_ok :: "Dinner \<Rightarrow> bool" where
  "sticks_ok d \<longleftrightarrow> (\<forall>i<phils d. PhilState d i = ISEATING \<longrightarrow> PhilState d (right_of i d) \<noteq> ISEATING) \<and>
     (\<forall>i<phils d. (eating_at (at d i) \<longrightarrow> PhilState d i = ISEATING) \<and>
        (PhilState d i = THINKING \<longleftrightarrow> \<not> eating_at (at d i) \<and> \<not> waiting_for_sticks (at d i)))"

definition room_ok :: "Dinner \<Rightarrow> bool" where
  "room_ok d \<longleftrightarrow> NumPhilNotIn d = int (count_at (phils d) (\<lambda>i. not_in (at d i))) \<and>
     (0 < SitSemaphore d \<or> (\<exists>i<phils d. \<not> not_seated (at d i)) \<longrightarrow> (\<forall>i<phils d. \<not> not_in (at d i)))"

definition meals_ok :: "Dinner \<Rightarrow> bool" where
  "meals_ok d \<longleftrightarrow> 0 \<le> MealLeft d \<and> (\<forall>i<phils d. leaving (at d i) \<longrightarrow> is_done d i) \<and>
     (\<forall>i<phils d. is_done d i \<longrightarrow> MealLeft d = 0)"

definition exit_ok :: "Dinner \<Rightarrow> bool" where
  "exit_ok d \<longleftrightarrow> NumRdyLeave d = int (count_at (phils d) (\<lambda>i. ready_to_leave (at d i))) \<and>
     (0 < LeaveSemaphore d \<or> (\<exists>i<phils d. let_out (at d i)) \<longrightarrow> (\<forall>i<phils d. ready_to_leave (at d i)))"

definition dinner_ok :: "Dinner \<Rightarrow> bool" where
  "dinner_ok d \<longleftrightarrow> 2 \<le> phils d \<and> sticks_ok d \<and> room_ok d \<and> meals_ok d \<and> exit_ok d"

lemmas routines = hungry_turn_def put_down_def wake_right_def PutSticks_def Eat_def dinner_loop_def EnterRoom_def LeaveRoom_def
  last_out_def set_state_def dinner_ops

lemma DinPhil_phils [simp]: "phils (DinPhilSemaphore i c pl d) = phils d"
  by (cases pl) (simp_all add: routines Let_def)

lemma DinPhil_others: "j \<noteq> i \<Longrightarrow> at (DinPhilSemaphore i c pl d) j = at d j"
  by (cases pl) (simp_all add: routines Let_def)

lemma count_turn:
  "i < phils d \<Longrightarrow> int (count_at (phils d) (\<lambda>j. q (at (DinPhilSemaphore i c pl d) j))) =
     int (count_at (phils d) (\<lambda>j. q (at d j))) + (if q (at (DinPhilSemaphore i c pl d) i) then 1 else 0) - (if q (at d i) then 1 else 0)"
  by (rule count_at_change) (simp_all add: DinPhil_others)

lemma neighbours:
  assumes "i < phils d" "2 \<le> phils d"
  shows "left_of i d < phils d" "right_of i d < phils d" "right_of i d \<noteq> i" "left_of i d \<noteq> i"
    and "j < phils d \<Longrightarrow> right_of j d = i \<longleftrightarrow> j = left_of i d"
    and "phils d = 2 \<Longrightarrow> left_of i d = right_of i d"
proof -
  have l: "left_of i d = (if i = 0 then phils d - 1 else i - 1)"
    using assms by (auto simp: left_of_def mod_if)
  have r: "right_of j d = (if j = phils d - 1 then 0 else j + 1)" if "j < phils d" for j
    using assms that by (auto simp: right_of_def mod_if)
  show "left_of i d < phils d" "right_of i d < phils d" "right_of i d \<noteq> i" "left_of i d \<noteq> i"
    "j < phils d \<Longrightarrow> right_of j d = i \<longleftrightarrow> j = left_of i d" "phils d = 2 \<Longrightarrow> left_of i d = right_of i d"
    using assms l r by (auto split: if_splits)
qed

lemma turn_sides [simp]:
  "right_of j (DinPhilSemaphore i c pl d) = right_of j d" "left_of j (DinPhilSemaphore i c pl d) = left_of j d"
  by (simp_all add: right_of_def left_of_def)


lemma state_others: "j \<noteq> i \<Longrightarrow> PhilState (DinPhilSemaphore i c pl d) j = PhilState d j"
  by (cases pl) (simp_all add: routines Let_def)

lemma starts_eating:
  assumes "i < phils d" "2 \<le> phils d" "PhilState (DinPhilSemaphore i c pl d) i = ISEATING" "PhilState d i \<noteq> ISEATING"
  shows "PhilState d (right_of i d) \<noteq> ISEATING \<and> PhilState d (left_of i d) \<noteq> ISEATING"
proof -
  have n: "left_of i d \<noteq> i" "right_of i d \<noteq> i" "phils d = 2 \<longrightarrow> left_of i d = right_of i d"
    using neighbours [OF assms(1,2)] by auto
  have sides: "right_of i (d\<lparr>PhilState := f\<rparr>) = right_of i d" "left_of i (d\<lparr>PhilState := f\<rparr>) = left_of i d" for f
    by (simp_all add: right_of_def left_of_def)
  show ?thesis
    using assms(3,4) n
    by (cases pl) (auto simp: routines Let_def may_eat_def sides split: if_splits)
qed

lemma turn_sticks:
  assumes "sticks_ok d" "2 \<le> phils d" "i < phils d"
  shows "sticks_ok (DinPhilSemaphore i c (at d i) d)" (is "sticks_ok ?d")
proof -
  have here: "(eating_at (at ?d i) \<longrightarrow> PhilState ?d i = ISEATING) \<and>
      (PhilState ?d i = THINKING \<longleftrightarrow> \<not> eating_at (at ?d i) \<and> \<not> waiting_for_sticks (at ?d i))"
    using assms(1,3) unfolding sticks_ok_def
    by (cases "PhilState d i"; cases "at d i") (auto simp: routines Let_def)
  have apart: "PhilState ?d (right_of j d) \<noteq> ISEATING" if j: "j < phils d" "PhilState ?d j = ISEATING" for j
  proof (cases "j = i")
    case True
    show ?thesis
      using starts_eating [OF assms(3,2)] state_others neighbours(3) [OF assms(3,2)] assms(1) j True
      unfolding sticks_ok_def by metis
  next
    case False
    show ?thesis
      using starts_eating [OF assms(3,2)] state_others neighbours(5) [OF assms(3,2) j(1)] assms(1) j False
      unfolding sticks_ok_def by metis
  qed
  show ?thesis
    unfolding sticks_ok_def
  proof (intro conjI allI impI)
    fix j assume j: "j < phils ?d"
    { assume "PhilState ?d j = ISEATING" then show "PhilState ?d (right_of j ?d) \<noteq> ISEATING" using apart j by simp }
    { assume "eating_at (at ?d j)"
      then show "PhilState ?d j = ISEATING"
        using here assms(1) j by (cases "j = i") (auto simp: sticks_ok_def DinPhil_others state_others) }
    show "PhilState ?d j = THINKING \<longleftrightarrow> \<not> eating_at (at ?d j) \<and> \<not> waiting_for_sticks (at ?d j)"
      using here assms(1) j by (cases "j = i") (auto simp: sticks_ok_def DinPhil_others state_others)
  qed
qed

lemma all_in_count: "(\<forall>i<n. \<not> p i) \<longleftrightarrow> count_at n p = 0"
  by (simp add: count_at_0)

lemma turn_room:
  assumes "room_ok d" "i < phils d"
  shows "room_ok (DinPhilSemaphore i c (at d i) d)" (is "room_ok ?d")
proof -
  note count = count_turn [OF assms(2), of not_in c "at d i"]
  have num: "NumPhilNotIn ?d = NumPhilNotIn d + (if not_in (at ?d i) then 1 else 0) - (if not_in (at d i) then 1 else 0)"
    by (cases "at d i") (auto simp: routines Let_def)
  have n: "NumPhilNotIn ?d = int (count_at (phils d) (\<lambda>j. not_in (at ?d j)))"
    using num count assms(1) by (simp add: room_ok_def)
  have in_stays: "\<not> not_in (at d i) \<Longrightarrow> \<not> not_in (at ?d i)"
    by (cases "at d i") (auto simp: routines Let_def)
  have sit: "NumPhilNotIn ?d = 0 \<or> 0 < SitSemaphore d \<or> \<not> not_seated (at d i)"
    if "0 < SitSemaphore ?d \<or> \<not> not_seated (at ?d i)"
    using that by (cases "at d i") (auto simp: routines Let_def split: if_splits)
  have "\<forall>j<phils d. \<not> not_in (at ?d j)" if t: "0 < SitSemaphore ?d \<or> (\<exists>j<phils d. \<not> not_seated (at ?d j))"
  proof -
    have "NumPhilNotIn ?d = 0 \<or> 0 < SitSemaphore d \<or> (\<exists>j<phils d. \<not> not_seated (at d j))"
      using t sit assms(2) DinPhil_others by metis
    then consider "NumPhilNotIn ?d = 0" | "\<forall>j<phils d. \<not> not_in (at d j)" using assms(1) by (auto simp: room_ok_def)
    then show ?thesis
    proof cases
      case 1 then show ?thesis using n by (simp add: all_in_count)
    next
      case 2 then show ?thesis using in_stays DinPhil_others assms(2) by metis
    qed
  qed
  then show ?thesis using n by (simp add: room_ok_def)
qed

lemma turn_exit:
  assumes "exit_ok d" "i < phils d"
  shows "exit_ok (DinPhilSemaphore i c (at d i) d)" (is "exit_ok ?d")
proof -
  note count = count_turn [OF assms(2), of ready_to_leave c "at d i"]
  have num: "NumRdyLeave ?d = NumRdyLeave d + (if ready_to_leave (at ?d i) then 1 else 0) - (if ready_to_leave (at d i) then 1 else 0)"
    by (cases "at d i") (auto simp: routines Let_def)
  have n: "NumRdyLeave ?d = int (count_at (phils d) (\<lambda>j. ready_to_leave (at ?d j)))"
    using num count assms(1) by (simp add: exit_ok_def)
  have out_stays: "ready_to_leave (at d i) \<Longrightarrow> ready_to_leave (at ?d i)"
    by (cases "at d i") (auto simp: routines Let_def)
  have go: "NumRdyLeave ?d = int (phils d) \<or> 0 < LeaveSemaphore d \<or> let_out (at d i)"
    if "0 < LeaveSemaphore ?d \<or> let_out (at ?d i)"
    using that by (cases "at d i") (auto simp: routines Let_def split: if_splits)
  have "\<forall>j<phils d. ready_to_leave (at ?d j)" if t: "0 < LeaveSemaphore ?d \<or> (\<exists>j<phils d. let_out (at ?d j))"
  proof -
    have "NumRdyLeave ?d = int (phils d) \<or> 0 < LeaveSemaphore d \<or> (\<exists>j<phils d. let_out (at d j))"
      using t go assms(2) DinPhil_others by metis
    then consider "NumRdyLeave ?d = int (phils d)" | "\<forall>j<phils d. ready_to_leave (at d j)" using assms(1) by (auto simp: exit_ok_def)
    then show ?thesis
    proof cases
      case 1 then show ?thesis using n by (simp add: count_at_all)
    next
      case 2 then show ?thesis using out_stays DinPhil_others assms(2) by metis
    qed
  qed
  then show ?thesis using n by (simp add: exit_ok_def)
qed

lemma turn_meals:
  assumes "meals_ok d" "i < phils d"
  shows "meals_ok (DinPhilSemaphore i c (at d i) d)" (is "meals_ok ?d")
proof -
  have others: "is_done ?d j = is_done d j" if "j \<noteq> i" for j
    using that by (cases "at d i") (simp_all add: routines Let_def)
  have left: "0 \<le> MealLeft ?d" "MealLeft d = 0 \<longrightarrow> MealLeft ?d = 0"
    using assms(1) by (cases "at d i"; auto simp: meals_ok_def routines Let_def)+
  have ends: "leaving (at ?d i) \<longrightarrow> is_done ?d i" "is_done ?d i \<longrightarrow> is_done d i \<or> MealLeft ?d = 0"
    using assms by (cases "at d i"; auto simp: meals_ok_def routines Let_def split: if_splits)+
  show ?thesis unfolding meals_ok_def
    using assms left ends others DinPhil_others DinPhil_phils unfolding meals_ok_def by metis
qed

interpretation semaphore_dinner: task_invariant dinner_step n "\<lambda>d. dinner_ok d \<and> phils d = n" for n
proof unfold_locales
  fix s i c s'
  assume "dinner_ok s \<and> phils s = n" "i < n" "dinner_step i c s = Inr s'"
  then show "dinner_ok s' \<and> phils s' = n"
    by (auto simp: dinner_step_def dinner_ok_def turn_sticks turn_room turn_exit turn_meals)
qed (simp add: dinner_step_def)

lemma dinner_start_ok: "2 \<le> p \<Longrightarrow> 0 \<le> m \<Longrightarrow> dinner_ok (dinner_start p m)"
  by (auto simp: dinner_ok_def dinner_start_def sticks_ok_def room_ok_def meals_ok_def exit_ok_def count_at_all [THEN iffD2]
    count_at_0 [THEN iffD2])

text \<open>C18. In every interleaving of two or more philosophers of task 4, no two neighbours are ever eating at the same time,
  and \<open>PhilState\<close> says \<open>ISEATING\<close> of everyone who is between taking and putting down the sticks, although \<open>GetSticks\<close> looks at its
  neighbours again, after being woken, without holding \<open>mutex\<close>.\<close>

theorem neighbours_never_eat_together:
  assumes "2 \<le> p" "0 \<le> m" "runs dinner_step p (dinner_start p m) d" "i < p"
  shows "eating_at (at d i) \<Longrightarrow> PhilState d i = ISEATING \<and> \<not> eating_at (at d ((i + 1) mod p)) \<and> \<not> eating_at (at d ((i + p - 1) mod p))"
proof -
  assume e: "eating_at (at d i)"
  have ok: "dinner_ok d" "phils d = p"
    using semaphore_dinner.runs_good [OF assms(3)] dinner_start_ok [OF assms(1,2)] by (auto simp: dinner_start_def)
  have i: "i < phils d" "2 \<le> phils d" using assms(1,4) ok by auto
  have "left_of i d < p" "right_of i d < p" "right_of (left_of i d) d = i"
    using neighbours [OF i] ok by auto
  then have "PhilState d i = ISEATING \<and> \<not> eating_at (at d (right_of i d)) \<and> \<not> eating_at (at d (left_of i d))"
    using ok assms(4) e unfolding dinner_ok_def sticks_ok_def by metis
  then show ?thesis using ok by (simp add: left_of_def right_of_def)
qed

lemma dinner_begins_and_ends_together_parts:
  assumes "2 \<le> p" "0 \<le> m" "runs dinner_step p (dinner_start p m) d"
  shows "(\<exists>i<p. \<not> not_seated (at d i)) \<longrightarrow> NumPhilNotIn d = 0 \<and> (\<forall>i<p. \<not> not_in (at d i))"
    and "(\<exists>i<p. let_out (at d i)) \<longrightarrow> NumRdyLeave d = int p \<and> (\<forall>i<p. ready_to_leave (at d i))"
    and "(\<exists>i<p. leaving (at d i)) \<longrightarrow> MealLeft d = 0"
proof -
  have ok: "dinner_ok d" "phils d = p"
    using semaphore_dinner.runs_good [OF assms(3)] dinner_start_ok [OF assms(1,2)] by (auto simp: dinner_start_def)
  show "(\<exists>i<p. \<not> not_seated (at d i)) \<longrightarrow> NumPhilNotIn d = 0 \<and> (\<forall>i<p. \<not> not_in (at d i))"
    using ok by (auto simp: dinner_ok_def room_ok_def all_in_count)
  show "(\<exists>i<p. let_out (at d i)) \<longrightarrow> NumRdyLeave d = int p \<and> (\<forall>i<p. ready_to_leave (at d i))"
    using ok by (auto simp: dinner_ok_def exit_ok_def count_at_all)
  show "(\<exists>i<p. leaving (at d i)) \<longrightarrow> MealLeft d = 0"
    using ok by (auto simp: dinner_ok_def meals_ok_def)
qed

text \<open>In every interleaving of task 4, nobody sits down before all philosophers have entered the room, nobody leaves the table
  before all are ready to leave it, and nobody is ready to leave while a meal is left.\<close>

theorem dinner_begins_and_ends_together:
  assumes "2 \<le> p" "0 \<le> m" "runs dinner_step p (dinner_start p m) d"
  shows "((\<exists>i<p. \<not> not_seated (at d i)) \<longrightarrow> NumPhilNotIn d = 0 \<and> (\<forall>i<p. \<not> not_in (at d i))) \<and>
    ((\<exists>i<p. let_out (at d i)) \<longrightarrow> NumRdyLeave d = int p \<and> (\<forall>i<p. ready_to_leave (at d i))) \<and>
    ((\<exists>i<p. leaving (at d i)) \<longrightarrow> MealLeft d = 0)"
  using dinner_begins_and_ends_together_parts [OF assms] by simp

subsection \<open>A dinner that does not end\<close>

definition stepsOf :: "nat \<Rightarrow> nat \<Rightarrow> (nat \<times> draws) list" where
  "stepsOf i n = replicate n (i, (0, 0))"

definition two :: "'a \<Rightarrow> 'a \<Rightarrow> 'a \<Rightarrow> nat \<Rightarrow> 'a" where
  "two x y z j = (if j = 0 then x else if j = Suc 0 then y else z)"

lemma two_simps [simp]:
  "two x y z 0 = x" "two x y z (Suc 0) = y" "(two x y z)(0 := a) = two a y z" "(two x y z)(Suc 0 := a) = two x a z"
  by (auto simp: two_def)

lemma two_const: "(\<lambda>_. Outside) = two Outside Outside Outside" "(\<lambda>_. THINKING) = two THINKING THINKING THINKING"
    "(\<lambda>_. False) = two False False False" "(\<lambda>_. 0 :: nat) = two 0 0 0"
  by (auto simp: two_def fun_eq_iff)

text \<open>Two philosophers at the table: where each of them is, \<open>PhilState\<close>, whether the first is done, \<open>mutex\<close>, the second's grants.\<close>

definition at_table :: "seat \<times> seat \<Rightarrow> nat \<Rightarrow> pState \<times> pState \<Rightarrow> bool \<Rightarrow> nat \<Rightarrow> nat \<Rightarrow> nat \<Rightarrow> int \<Rightarrow> Dinner" where
  "at_table pl m st dn mx h g out = \<lparr>phils = 2, MealLeft = int m, NumPhilNotIn = 0, PhilState = two (fst st) (snd st) THINKING,
     is_done = two dn False False, NumRdyLeave = out, NumGrantLeave = 0, LeaveGrant = False, mutex = mx, EnterMutex = 1, LeaveMutex = 1,
     SitSemaphore = 0, LeaveSemaphore = 0, MealLeftMutex = 1, PhilGrantSemaphore = two h g 0, at = two (fst pl) (snd pl) Outside\<rparr>"

lemmas run_dinner = dinner_step_def stallCycle_def routines may_eat_def left_of_def right_of_def Let_def

lemma stepsOf_simps [simp]: "stepsOf i 0 = []" "stepsOf i (Suc k) = (i, (0, 0)) # stepsOf i k"
  by (simp_all add: stepsOf_def)

lemma sit_down: "schedule dinner_step (stepsOf 0 3 @ stepsOf 1 5 @ stepsOf 0 1) (dinner_start 2 (int m)) =
  Inr (at_table (Seated, Seated) m (THINKING, THINKING) False 1 0 0 0)"
  by (simp add: run_dinner dinner_start_def at_table_def two_const numeral_nat)

text \<open>The blocks of the first philosopher while the second has not started.\<close>

lemma first_turns:
  "dinner_step 0 (0, 0) (at_table (Seated, b) m st False (Suc k) h g out) = Inr (at_table (HaveMutex, b) m st False k h g out)"
  "dinner_step 0 (0, 0) (at_table (ThinkYield 0, b) m st False (Suc k) h g out) = Inr (at_table (HaveMutex, b) m st False k h g out)"
  "dinner_step 0 (0, 0) (at_table (HaveMutex, b) m (s0, THINKING) False k 0 g out) = Inr (at_table (GrantGiven, b) m (ISEATING, THINKING) False k 1 g out)"
  "dinner_step 0 (0, 0) (at_table (GrantGiven, b) m st False k h g out) = Inr (at_table (MutexReleased, b) m st False (Suc k) h g out)"
  "dinner_step 0 (0, 0) (at_table (MutexReleased, b) m st False k 1 g out) = Inr (at_table (Granted, b) m st False k 0 g out)"
  "dinner_step 0 (0, 0) (at_table (Granted, b) m (ISEATING, s1) False k h g out) =
     Inr (at_table (HaveMeal, b) m (ISEATING, s1) False k h g out\<lparr>MealLeftMutex := 0\<rparr>)"
  "dinner_step 0 (0, 0) (at_table (HaveMeal, b) (Suc m) st False k h g out\<lparr>MealLeftMutex := 0\<rparr>) =
     Inr (at_table (MealReleased, b) m st False k h g out)"
  "dinner_step 0 (0, 0) (at_table (HaveMeal, b) 0 st False k h g out\<lparr>MealLeftMutex := 0\<rparr>) =
     Inr (at_table (MealReleased, b) 0 st True k h g out)"
  "dinner_step 0 (0, 0) (at_table (MealReleased, b) m st dn k h g out) = Inr (at_table (EatYield 1, b) m st dn k h g out)"
  "dinner_step 0 (0, 0) (at_table (EatYield 1, b) m st dn k h g out) = Inr (at_table (EatYield 0, b) m st dn k h g out)"
  "dinner_step 0 (0, 0) (at_table (EatYield 0, b) m st dn (Suc k) h g out) = Inr (at_table (HavePut, b) m st dn k h g out)"
  "dinner_step 0 (0, 0) (at_table (HavePut, b) m (s0, THINKING) dn k h g out) = Inr (at_table (PutReleased, b) m (THINKING, THINKING) dn (Suc k) h g out)"
  "dinner_step 0 (0, 0) (at_table (HavePut, b) m (s0, ISHUNGRY) dn k h g out) = Inr (at_table (LeftWoken, b) m (s0, ISHUNGRY) dn k h (Suc g) out)"
  "dinner_step 0 (0, 0) (at_table (LeftWoken, b) m (s0, s1) dn k h g out) = Inr (at_table (PutReleased, b) m (THINKING, s1) dn (Suc k) h g out)"
  "dinner_step 0 (0, 0) (at_table (PutReleased, b) m st dn k h g out) = Inr (at_table (ThinkYield 1, b) m st dn k h g out)"
  "dinner_step 0 (0, 0) (at_table (ThinkYield 1, b) m st dn k h g out) = Inr (at_table (ThinkYield 0, b) m st dn k h g out)"
  by (simp_all add: run_dinner at_table_def)

lemma first_leaves:
  "dinner_step 0 (0, 0) (at_table (ThinkYield 0, b) m st True (Suc k) h g 0) = Inr (at_table (HaveLeave, b) m st True (Suc k) h g 0\<lparr>LeaveMutex := 0\<rparr>)"
  "dinner_step 0 (0, 0) (at_table (HaveLeave, b) m st True k h g 0\<lparr>LeaveMutex := 0\<rparr>) = Inr (at_table (LeaveReleased, b) m st True k h g 1)"
  "dinner_step 0 (0, 0) (at_table (LeaveReleased, b) m st True k h g 1) = Inr (at_table (WaitLeaveSem, b) m st True k h g 1)"
  by (simp_all add: run_dinner at_table_def)

lemma second_turns:
  "dinner_step (Suc 0) (0, 0) (at_table (a, Seated) m st dn (Suc k) h g out) = Inr (at_table (a, HaveMutex) m st dn k h g out)"
  "dinner_step (Suc 0) (0, 0) (at_table (a, HaveMutex) m (ISEATING, s1) dn k h g out) = Inr (at_table (a, MutexReleased) m (ISEATING, ISHUNGRY) dn (Suc k) h g out)"
  "dinner_step (Suc 0) (0, 0) (at_table (a, MutexReleased) m st dn k h 0 out) = Inr (at_table (a, WaitGrant) m st dn k h 0 out)"
  "dinner_step (Suc 0) (0, 0) (at_table (a, WaitGrant) m st dn k h (Suc g) out) = Inr (at_table (a, Granted) m st dn k h g out)"
  "dinner_step (Suc 0) (0, 0) (at_table (a, Granted) m (ISEATING, ISHUNGRY) dn k h g out) = Inr (at_table (a, MutexReleased) m (ISEATING, ISHUNGRY) dn (Suc k) h g out)"
  by (simp_all add: run_dinner at_table_def)

lemmas turns = first_turns [unfolded One_nat_def] first_leaves second_turns

lemma one_meal:
  "a = Seated \<or> a = ThinkYield 0 \<Longrightarrow> schedule dinner_step (stepsOf 0 12) (at_table (a, Seated) (Suc m) (THINKING, THINKING) False 1 0 0 0) =
     Inr (at_table (ThinkYield 0, Seated) m (THINKING, THINKING) False 1 0 0 0)"
  by (elim disjE; simp add: turns numeral_nat)

lemma meals:
  assumes "a = Seated \<or> a = ThinkYield 0"
  shows "\<exists>a'. (a' = Seated \<or> a' = ThinkYield 0) \<and>
    schedule dinner_step (stepsOf 0 (12 * m)) (at_table (a, Seated) m (THINKING, THINKING) False 1 0 0 0) =
      Inr (at_table (a', Seated) 0 (THINKING, THINKING) False 1 0 0 0)"
  using assms
proof (induction m arbitrary: a)
  case (Suc m)
  have "stepsOf 0 (12 * Suc m) = stepsOf 0 12 @ stepsOf 0 (12 * m)" by (simp add: stepsOf_def replicate_add del: stepsOf_simps)
  with Suc.IH [of "ThinkYield 0"] one_meal [OF Suc.prems] show ?case by (simp add: schedule_append del: stepsOf_simps)
qed auto

lemma last_round:
  "a = Seated \<or> a = ThinkYield 0 \<Longrightarrow>
   schedule dinner_step (stepsOf 0 8 @ stepsOf 1 3 @ stepsOf 0 2 @ stepsOf 1 3 @ stepsOf 0 6) (at_table (a, Seated) 0 (THINKING, THINKING) False 1 0 0 0)
   = Inr (at_table (WaitLeaveSem, WaitGrant) 0 (THINKING, ISHUNGRY) True 2 0 0 1)"
  by (elim disjE; simp add: turns numeral_nat)

definition endless_dinner :: "nat \<Rightarrow> (nat \<times> draws) list" where
  "endless_dinner m = (stepsOf 0 3 @ stepsOf 1 5 @ stepsOf 0 1) @ stepsOf 0 (12 * m) @
     (stepsOf 0 8 @ stepsOf 1 3 @ stepsOf 0 2 @ stepsOf 1 3 @ stepsOf 0 6)"

lemma stuck: "i < 2 \<Longrightarrow> dinner_step i c (at_table (WaitLeaveSem, WaitGrant) 0 st True 2 0 0 1) =
    Inr (at_table (WaitLeaveSem, WaitGrant) 0 st True 2 0 0 1)"
  by (auto simp: less_2_cases_iff run_dinner at_table_def)

text \<open>C23. Two philosophers can deadlock in task 4, whatever the number of meals: in the interleaving \<open>endless_dinner m\<close>, which the timer of
  \<open>-rs\<close> can produce, the first philosopher wakes its neighbour in \<open>PutSticks\<close> while its own state is still \<open>ISEATING\<close>. The neighbour looks
  again, finds it eating, and waits for a grant that nobody gives any more; the first one waits at \<open>LeaveSemaphore\<close> for it. From
  there no step of any thread changes anything, no meal is left and nobody has gone.\<close>

theorem dinner_can_deadlock:
  "\<exists>d. schedule dinner_step (endless_dinner m) (dinner_start 2 (int m)) = Inr d \<and> MealLeft d = 0 \<and>
     at d 0 = WaitLeaveSem \<and> at d 1 = WaitGrant \<and> {d'. runs dinner_step 2 d d'} = {d}"
proof -
  let ?d = "at_table (WaitLeaveSem, WaitGrant) 0 (THINKING, ISHUNGRY) True 2 0 0 1"
  obtain a where a: "a = Seated \<or> a = ThinkYield 0"
    "schedule dinner_step (stepsOf 0 (12 * m)) (at_table (Seated, Seated) m (THINKING, THINKING) False 1 0 0 0) =
      Inr (at_table (a, Seated) 0 (THINKING, THINKING) False 1 0 0 0)" using meals by blast
  have "schedule dinner_step (endless_dinner m) (dinner_start 2 (int m)) = Inr ?d"
    unfolding endless_dinner_def schedule_append [of _ "stepsOf 0 3 @ _"] schedule_append [of _ "stepsOf 0 (12 * m)"] sit_down
    using a(2) last_round [OF a(1)] by simp
  moreover have "d' = ?d" if "runs dinner_step 2 ?d d'" for d'
    using that by (induction rule: runs.induct) (auto simp: stuck)
  moreover have "MealLeft ?d = 0" "at ?d 0 = WaitLeaveSem" "at ?d 1 = WaitGrant" by (simp_all add: at_table_def)
  ultimately show ?thesis by (blast intro: runs.start)
qed

text \<open>The first philosopher eats while the second waits for the sticks.\<close>

lemma neighbours_never_eat_together_witness:
  "\<exists>d. runs dinner_step 2 (dinner_start 2 1) d \<and> eating_at (at d 0) \<and> PhilState d 0 = ISEATING \<and>
     \<not> eating_at (at d ((0 + 1) mod 2)) \<and> \<not> eating_at (at d ((0 + 2 - 1) mod 2))"
proof -
  let ?es = "(stepsOf 0 3 @ stepsOf 1 5 @ stepsOf 0 1) @ stepsOf 0 6 @ stepsOf 1 3"
  have "\<exists>d. schedule dinner_step ?es (dinner_start 2 (int 1)) = Inr d \<and> eating_at (at d 0)"
    unfolding schedule_append [of _ "stepsOf 0 3 @ _"] sit_down
    by (simp add: turns numeral_nat) (simp add: at_table_def)
  then obtain d where d: "schedule dinner_step ?es (dinner_start 2 1) = Inr d" "eating_at (at d 0)" by auto
  have r: "runs dinner_step 2 (dinner_start 2 1) d" using schedule_runs [OF d(1) _ runs.start] by (simp add: stepsOf_def)
  with neighbours_never_eat_together [OF _ _ r, of 0] d(2) show ?thesis by auto
qed

lemma dinner_begins_and_ends_together_witness:
  "\<exists>d. runs dinner_step 2 (dinner_start 2 1) d \<and> (\<exists>i<2. \<not> not_seated (at d i)) \<and> NumPhilNotIn d = 0 \<and>
     ((\<exists>i<2. leaving (at d i)) \<longrightarrow> MealLeft d = 0)"
proof -
  let ?es = "stepsOf 0 3 @ stepsOf 1 5 @ stepsOf 0 1"
  have s: "schedule dinner_step ?es (dinner_start 2 1) = Inr (at_table (Seated, Seated) 1 (THINKING, THINKING) False 1 0 0 0)"
    using sit_down [of 1] by simp
  have r: "runs dinner_step 2 (dinner_start 2 1) (at_table (Seated, Seated) 1 (THINKING, THINKING) False 1 0 0 0)"
    using schedule_runs [OF s _ runs.start] by (simp add: stepsOf_def)
  moreover have "\<exists>i<2. \<not> not_seated (at (at_table (Seated, Seated) 1 (THINKING, THINKING) False 1 0 0 0) i)"
    by (rule exI [of _ 0]) (simp add: at_table_def)
  ultimately show ?thesis using dinner_begins_and_ends_together [OF _ _ r] by auto
qed

end
