(* ===== verification/Nachos_BusyDinner.thy ===== *)
theory Nachos_BusyDinner
  imports Nachos_Tasks
begin

section \<open>Dining philosophers with busy waiting: task 3 of threads/threadtest.cc\<close>

text \<open>
  \<open>DinPhilBusyWait\<close> and \<open>ReachChopStick\<close>, cut into blocks at the calls of \<open>Yield\<close>, the only ones where this task can lose the
  processor. \<open>stage\<close> says which loop each philosopher yields in: before sitting down, while reaching for a chopstick (which one, after
  how many failures, and the yields left), while eating, thinking or waiting to leave.
\<close>

datatype hand = LeftHand | RightHand

datatype stage = NotIn | AtSit | Reaching hand nat nat | Eating nat | Thinking nat | Leaving nat | Left

record Table =
  phils :: nat
  chopstick :: "nat \<Rightarrow> int"
  NumPhilNotIn :: int
  SeatGrant :: bool
  LeaveGrant :: bool
  MealLeft :: int
  PhilosopherLeaveRdy :: int
  stage :: "nat \<Rightarrow> stage"

definition table_start :: "nat \<Rightarrow> int \<Rightarrow> Table" where
  "table_start p m = \<lparr>phils = p, chopstick = (\<lambda>_. 1), NumPhilNotIn = int p, SeatGrant = False, LeaveGrant = False,
     MealLeft = m, PhilosopherLeaveRdy = 0, stage = (\<lambda>_. NotIn)\<rparr>"

definition stay :: "nat \<Rightarrow> stage \<Rightarrow> Table \<Rightarrow> Table" where
  "stay i st t = t\<lparr>stage := (stage t)(i := st)\<rparr>"

definition set_stick :: "nat \<Rightarrow> int \<Rightarrow> Table \<Rightarrow> Table" where
  "set_stick j v t = t\<lparr>chopstick := (chopstick t)(j := v)\<rparr>"

definition stick_of :: "nat \<Rightarrow> hand \<Rightarrow> Table \<Rightarrow> nat" where
  "stick_of i h t = (case h of LeftHand \<Rightarrow> i mod phils t | RightHand \<Rightarrow> (i + 1) mod phils t)"

text \<open>A call of \<open>BusyWaitingLoop\<close>, up to its first \<open>Yield\<close>; the argument of the stage is how many more follow.\<close>

definition stall :: "nat \<Rightarrow> draws \<Rightarrow> (nat \<Rightarrow> stage) \<Rightarrow> Table \<Rightarrow> Table" where
  "stall i c st t = stay i (st (stallCycle c - 1)) t"

definition think :: "nat \<Rightarrow> draws \<Rightarrow> Table \<Rightarrow> Table" where
  "think i c t = stall i c Thinking t"

definition drop_both :: "nat \<Rightarrow> Table \<Rightarrow> Table" where
  "drop_both i t = set_stick (stick_of i RightHand t) 1 (set_stick (stick_of i LeftHand t) 1 t)"

text \<open>What follows when both chopsticks are picked up, and when the attempt for one of them is given up.\<close>

definition both_up :: "nat \<Rightarrow> draws \<Rightarrow> Table \<Rightarrow> Table" where
  "both_up i c t = (if MealLeft t = 0 then think i c (drop_both i t) else stall i c Eating (t\<lparr>MealLeft := MealLeft t - 1\<rparr>))"

definition abort_pickup :: "nat \<Rightarrow> draws \<Rightarrow> hand \<Rightarrow> Table \<Rightarrow> Table" where
  "abort_pickup i c h t = think i c (case h of LeftHand \<Rightarrow> t | RightHand \<Rightarrow> set_stick (stick_of i LeftHand t) 1 t)"

definition ReachRight :: "nat \<Rightarrow> draws \<Rightarrow> nat \<Rightarrow> Table \<Rightarrow> Table" where
  "ReachRight i c cnt t = (if cnt = 5 then abort_pickup i c RightHand t
     else if chopstick t (stick_of i RightHand t) = 1 then both_up i c (set_stick (stick_of i RightHand t) 0 t)
     else stall i c (Reaching RightHand (cnt + 1)) t)"

definition ReachLeft :: "nat \<Rightarrow> draws \<Rightarrow> nat \<Rightarrow> Table \<Rightarrow> Table" where
  "ReachLeft i c cnt t = (if cnt = 5 then abort_pickup i c LeftHand t
     else if chopstick t (stick_of i LeftHand t) = 1 then ReachRight i c 0 (set_stick (stick_of i LeftHand t) 0 t)
     else stall i c (Reaching LeftHand (cnt + 1)) t)"

definition leave_loop :: "nat \<Rightarrow> draws \<Rightarrow> Table \<Rightarrow> Table" where
  "leave_loop i c t = (if PhilosopherLeaveRdy t < int (phils t) then stall i c Leaving t
     else stay i Left (if PhilosopherLeaveRdy t = int (phils t) \<and> \<not> LeaveGrant t then t\<lparr>LeaveGrant := True\<rparr> else t))"

definition dine_loop :: "nat \<Rightarrow> draws \<Rightarrow> Table \<Rightarrow> Table" where
  "dine_loop i c t = (if MealLeft t \<noteq> 0 then ReachLeft i c 0 t
     else leave_loop i c (t\<lparr>PhilosopherLeaveRdy := PhilosopherLeaveRdy t + 1\<rparr>))"

definition sit_loop :: "nat \<Rightarrow> draws \<Rightarrow> Table \<Rightarrow> Table" where
  "sit_loop i c t = (if 0 < NumPhilNotIn t then stay i AtSit t
     else dine_loop i c (if NumPhilNotIn t = 0 \<and> \<not> SeatGrant t then t\<lparr>SeatGrant := True\<rparr> else t))"

fun DinPhilBusyWait :: "nat \<Rightarrow> draws \<Rightarrow> stage \<Rightarrow> Table \<Rightarrow> Table" where
  "DinPhilBusyWait i c NotIn t = sit_loop i c (t\<lparr>NumPhilNotIn := NumPhilNotIn t - 1\<rparr>)"
| "DinPhilBusyWait i c AtSit t = sit_loop i c t"
| "DinPhilBusyWait i c (Reaching h cnt (Suc k)) t = stay i (Reaching h cnt k) t"
| "DinPhilBusyWait i c (Reaching LeftHand cnt 0) t = ReachLeft i c cnt t"
| "DinPhilBusyWait i c (Reaching RightHand cnt 0) t = ReachRight i c cnt t"
| "DinPhilBusyWait i c (Eating (Suc k)) t = stay i (Eating k) t"
| "DinPhilBusyWait i c (Eating 0) t = think i c (drop_both i t)"
| "DinPhilBusyWait i c (Thinking (Suc k)) t = stay i (Thinking k) t"
| "DinPhilBusyWait i c (Thinking 0) t = dine_loop i c t"
| "DinPhilBusyWait i c (Leaving (Suc k)) t = stay i (Leaving k) t"
| "DinPhilBusyWait i c (Leaving 0) t = leave_loop i c t"
| "DinPhilBusyWait i c Left t = t"

definition table_step :: "Table task" where
  "table_step i c t = Inr (DinPhilBusyWait i c (stage t i) t)"

lemmas table_ops = stay_def set_stick_def stall_def think_def drop_both_def both_up_def abort_pickup_def ReachRight_def ReachLeft_def
  leave_loop_def dine_loop_def sit_loop_def

subsection \<open>Who holds which chopstick\<close>

fun holds :: "nat \<Rightarrow> stage \<Rightarrow> nat \<Rightarrow> nat \<Rightarrow> bool" where
  "holds p (Eating k) i x \<longleftrightarrow> x = i \<or> x = (i + 1) mod p"
| "holds p (Reaching RightHand cnt k) i x \<longleftrightarrow> x = i"
| "holds p st i x \<longleftrightarrow> False"

fun not_sitting :: "stage \<Rightarrow> bool" where
  "not_sitting NotIn = True" | "not_sitting AtSit = True" | "not_sitting st = False"

fun to_leave :: "stage \<Rightarrow> bool" where
  "to_leave (Leaving k) = True" | "to_leave Left = True" | "to_leave st = False"

text \<open>
  A chopstick is marked free exactly when nobody holds it, and nobody holds one that another holds; the counters count; nobody sits
  before all are in, gets up before the meals are eaten, or leaves before all have got up.
\<close>

definition forks_ok :: "Table \<Rightarrow> bool" where
  "forks_ok t \<longleftrightarrow> (\<forall>x<phils t. \<forall>i<phils t. holds (phils t) (stage t i) i x \<longrightarrow>
       chopstick t x = 0 \<and> (\<forall>j<phils t. holds (phils t) (stage t j) j x \<longrightarrow> j = i)) \<and>
     (\<forall>x<phils t. chopstick t x = 1 \<or> chopstick t x = 0 \<and> (\<exists>i<phils t. holds (phils t) (stage t i) i x))"

definition party_ok :: "Table \<Rightarrow> bool" where
  "party_ok t \<longleftrightarrow> NumPhilNotIn t = int (count_at (phils t) (\<lambda>i. stage t i = NotIn)) \<and>
     ((\<exists>i<phils t. \<not> not_sitting (stage t i)) \<longrightarrow> NumPhilNotIn t = 0)"

definition parting_ok :: "Table \<Rightarrow> bool" where
  "parting_ok t \<longleftrightarrow> PhilosopherLeaveRdy t = int (count_at (phils t) (\<lambda>i. to_leave (stage t i))) \<and>
     ((\<exists>i<phils t. stage t i = Left) \<longrightarrow> PhilosopherLeaveRdy t = int (phils t)) \<and>
     0 \<le> MealLeft t \<and> ((\<exists>i<phils t. to_leave (stage t i)) \<longrightarrow> MealLeft t = 0)"

definition table_ok :: "Table \<Rightarrow> bool" where
  "table_ok t \<longleftrightarrow> 2 \<le> phils t \<and> forks_ok t \<and> party_ok t \<and> parting_ok t"


lemma stage_cases [case_names NotIn AtSit ReachYield ReachL ReachR EatYield EatEnd ThinkYield ThinkEnd LeaveYield LeaveEnd Left]:
  assumes "st = NotIn \<Longrightarrow> Q" "st = AtSit \<Longrightarrow> Q" "\<And>h n k. st = Reaching h n (Suc k) \<Longrightarrow> Q" "\<And>n. st = Reaching LeftHand n 0 \<Longrightarrow> Q"
    "\<And>n. st = Reaching RightHand n 0 \<Longrightarrow> Q" "\<And>k. st = Eating (Suc k) \<Longrightarrow> Q" "st = Eating 0 \<Longrightarrow> Q"
    "\<And>k. st = Thinking (Suc k) \<Longrightarrow> Q" "st = Thinking 0 \<Longrightarrow> Q" "\<And>k. st = Leaving (Suc k) \<Longrightarrow> Q" "st = Leaving 0 \<Longrightarrow> Q" "st = Left \<Longrightarrow> Q"
  shows Q
proof (cases st)
  case (Reaching h n k)
  then show Q using assms(3-5) by (cases k; cases h) auto
next
  case (Eating k)
  then show Q using assms(6,7) by (cases k) auto
next
  case (Thinking k)
  then show Q using assms(8,9) by (cases k) auto
next
  case (Leaving k)
  then show Q using assms(10,11) by (cases k) auto
qed (use assms in auto)

lemma busy_phils [simp]: "phils (DinPhilBusyWait i c st t) = phils t"
  by (cases st rule: stage_cases) (simp_all add: table_ops split: hand.split)

lemma busy_others: "j \<noteq> i \<Longrightarrow> stage (DinPhilBusyWait i c st t) j = stage t j"
  by (cases st rule: stage_cases) (simp_all add: table_ops split: hand.split)

lemma busy_count:
  "i < phils t \<Longrightarrow> int (count_at (phils t) (\<lambda>j. q (stage (DinPhilBusyWait i c st t) j))) =
     int (count_at (phils t) (\<lambda>j. q (stage t j))) + (if q (stage (DinPhilBusyWait i c st t) i) then 1 else 0) - (if q (stage t i) then 1 else 0)"
  by (rule count_at_change) (simp_all add: busy_others)

lemma right_stick: "(i :: nat) < p \<Longrightarrow> 2 \<le> p \<Longrightarrow> (i + 1) mod p < p \<and> (i + 1) mod p \<noteq> i"
  by (auto simp: mod_if)

text \<open>What a block does to the chopsticks: those it takes were free, and those it lets go are free.\<close>

lemma holds_case: "holds p st i x = (case st of Eating k \<Rightarrow> x = i \<or> x = (i + 1) mod p
    | Reaching h cnt k \<Rightarrow> (case h of LeftHand \<Rightarrow> False | RightHand \<Rightarrow> x = i) | _ \<Rightarrow> False)"
  by (cases st) (auto split: hand.split)

lemma busy_sticks:
  assumes "i < phils t" "2 \<le> phils t" "\<forall>x<phils t. holds (phils t) (stage t i) i x \<longrightarrow> chopstick t x = 0" "x < phils t"
  shows "chopstick (DinPhilBusyWait i c (stage t i) t) x =
      (if holds (phils t) (stage (DinPhilBusyWait i c (stage t i) t) i) i x then 0
       else if holds (phils t) (stage t i) i x then 1 else chopstick t x)" (is ?V)
    and "holds (phils t) (stage (DinPhilBusyWait i c (stage t i) t) i) i x \<Longrightarrow> \<not> holds (phils t) (stage t i) i x \<Longrightarrow> chopstick t x = 1"
proof -
  define r where "r = (i + 1) mod phils t"
  have r: "r < phils t" "r \<noteq> i" "i mod phils t = i" "Suc i mod phils t = r"
    using right_stick [OF assms(1,2)] assms(1) by (auto simp: r_def)
  note simps = table_ops stick_of_def holds_case r
  show ?V
    using assms(1,3,4) r by (cases "stage t i" rule: stage_cases) (auto simp: simps split: hand.split)
  show "chopstick t x = 1"
    if "holds (phils t) (stage (DinPhilBusyWait i c (stage t i) t) i) i x" "\<not> holds (phils t) (stage t i) i x"
    using that assms(1,3,4) r by (cases "stage t i" rule: stage_cases) (auto simp: simps split: hand.split_asm if_splits)
qed

lemma forks_handed_on:
  fixes H H' :: "nat \<Rightarrow> nat \<Rightarrow> bool" and C C' :: "nat \<Rightarrow> int"
  assumes "\<forall>k<p. H k x \<longrightarrow> C x = 0 \<and> (\<forall>j<p. H j x \<longrightarrow> j = k)" "C x = 1 \<or> C x = 0 \<and> (\<exists>k<p. H k x)" "i < p"
    and "C' x = (if H' i x then 0 else if H i x then 1 else C x)" "H' i x \<Longrightarrow> \<not> H i x \<Longrightarrow> C x = 1"
    and "\<And>k. k \<noteq> i \<Longrightarrow> H' k x = H k x"
  shows "(\<forall>k<p. H' k x \<longrightarrow> C' x = 0 \<and> (\<forall>j<p. H' j x \<longrightarrow> j = k)) \<and> (C' x = 1 \<or> C' x = 0 \<and> (\<exists>k<p. H' k x))"
proof (cases "H' i x")
  case True
  have free: "\<not> H k x" if "k < p" "k \<noteq> i" for k
    using that True assms(1,3,5) zero_neq_one by metis
  then show ?thesis using True assms(3,4,6) by metis
next
  case False
  have "\<not> H k x" if "H i x" "k < p" "k \<noteq> i" for k using that assms(1,3) by blast
  then show ?thesis
  proof (cases "H i x")
    case True
    then have "C' x = 1" "\<forall>k<p. \<not> H' k x"
      using False assms(3,4,6) \<open>\<And>k. H i x \<Longrightarrow> k < p \<Longrightarrow> k \<noteq> i \<Longrightarrow> \<not> H k x\<close> by metis+
    then show ?thesis by blast
  next
    case unheld: False
    then have "C' x = C x" "\<And>k. H' k x = H k x"
      using False assms(4,6) by metis+
    then show ?thesis using assms(1,2) by simp
  qed
qed

lemma busy_forks:
  assumes "forks_ok t" "2 \<le> phils t" "i < phils t"
  shows "forks_ok (DinPhilBusyWait i c (stage t i) t)"
proof -
  have mine: "\<forall>x<phils t. holds (phils t) (stage t i) i x \<longrightarrow> chopstick t x = 0"
    using assms(1,3) by (auto simp: forks_ok_def)
  have "(\<forall>k<phils t. holds (phils t) (stage (DinPhilBusyWait i c (stage t i) t) k) k x \<longrightarrow>
        chopstick (DinPhilBusyWait i c (stage t i) t) x = 0 \<and>
        (\<forall>j<phils t. holds (phils t) (stage (DinPhilBusyWait i c (stage t i) t) j) j x \<longrightarrow> j = k)) \<and>
      (chopstick (DinPhilBusyWait i c (stage t i) t) x = 1 \<or> chopstick (DinPhilBusyWait i c (stage t i) t) x = 0 \<and>
        (\<exists>k<phils t. holds (phils t) (stage (DinPhilBusyWait i c (stage t i) t) k) k x))"
    if x: "x < phils t" for x
    using assms(1) x
    by (intro forks_handed_on [where H = "\<lambda>k. holds (phils t) (stage t k) k" and C = "chopstick t" and i = i])
      (auto simp: forks_ok_def assms(3) busy_others busy_sticks(1) [OF assms(3,2) mine x] intro: busy_sticks(2) [OF assms(3,2) mine x])
  then show ?thesis by (simp add: forks_ok_def)
qed


lemma busy_party:
  assumes "party_ok t" "i < phils t"
  shows "party_ok (DinPhilBusyWait i c (stage t i) t)" (is "party_ok ?t")
proof -
  note count = busy_count [OF assms(2), of "\<lambda>st. st = NotIn" c "stage t i"]
  have num: "NumPhilNotIn ?t = NumPhilNotIn t - (if stage t i = NotIn then 1 else 0)" "stage ?t i \<noteq> NotIn"
    by (cases "stage t i" rule: stage_cases; simp add: table_ops split: hand.split)+
  have n: "NumPhilNotIn ?t = int (count_at (phils t) (\<lambda>j. stage ?t j = NotIn))"
    using num count assms(1) by (simp add: party_ok_def)
  have sit: "NumPhilNotIn ?t \<le> 0 \<or> \<not> not_sitting (stage t i)" if "\<not> not_sitting (stage ?t i)"
    using that by (cases "stage t i" rule: stage_cases) (auto simp: table_ops split: hand.split_asm if_splits)
  have "NumPhilNotIn ?t = 0" if "j < phils t" "\<not> not_sitting (stage ?t j)" for j
  proof -
    have "NumPhilNotIn ?t \<le> 0 \<or> (\<exists>k<phils t. \<not> not_sitting (stage t k))"
      using that sit busy_others [of j i c "stage t i" t] by (cases "j = i") auto
    then have "NumPhilNotIn ?t \<le> 0" using assms(1) num(1) unfolding party_ok_def by fastforce
    then show ?thesis using n by simp
  qed
  then show ?thesis using n by (auto simp: party_ok_def)
qed

lemma busy_parting:
  assumes "parting_ok t" "i < phils t"
  shows "parting_ok (DinPhilBusyWait i c (stage t i) t)" (is "parting_ok ?t")
proof -
  note count = busy_count [OF assms(2), of to_leave c "stage t i"]
  have num: "PhilosopherLeaveRdy ?t = PhilosopherLeaveRdy t + (if to_leave (stage ?t i) then 1 else 0) - (if to_leave (stage t i) then 1 else 0)"
    by (cases "stage t i" rule: stage_cases) (simp_all add: table_ops split: hand.split)
  have n: "PhilosopherLeaveRdy ?t = int (count_at (phils t) (\<lambda>j. to_leave (stage ?t j)))"
    using num count assms(1) by (simp add: parting_ok_def)
  have up: "PhilosopherLeaveRdy t \<le> PhilosopherLeaveRdy ?t" "PhilosopherLeaveRdy ?t \<le> int (phils t)"
    subgoal by (cases "stage t i" rule: stage_cases) (simp_all add: table_ops split: hand.split)
    subgoal using count_at_le [of "phils t" "\<lambda>j. to_leave (stage ?t j)"] unfolding n by simp
    done
  have out: "int (phils t) \<le> PhilosopherLeaveRdy ?t \<or> stage t i = Left" if "stage ?t i = Left"
    using that by (cases "stage t i" rule: stage_cases) (auto simp: table_ops split: hand.split_asm if_splits)
  have meals: "0 \<le> MealLeft ?t" "MealLeft t = 0 \<longrightarrow> MealLeft ?t = 0" "to_leave (stage ?t i) \<longrightarrow> to_leave (stage t i) \<or> MealLeft ?t = 0"
    using assms(1) by (cases "stage t i" rule: stage_cases; auto simp: parting_ok_def table_ops split: hand.split)+
  have "PhilosopherLeaveRdy ?t = int (phils t)" if "j < phils t" "stage ?t j = Left" for j
  proof -
    have "int (phils t) \<le> PhilosopherLeaveRdy ?t \<or> (\<exists>k<phils t. stage t k = Left)"
      using that out busy_others [of j i c "stage t i" t] by (cases "j = i") auto
    then show ?thesis using up assms(1) unfolding parting_ok_def by fastforce
  qed
  moreover have "MealLeft ?t = 0" if "j < phils t" "to_leave (stage ?t j)" for j
    using that meals assms busy_others [of j i c "stage t i" t] unfolding parting_ok_def by (cases "j = i") auto
  ultimately show ?thesis using n meals(1) by (auto simp: parting_ok_def)
qed

interpretation busy_dinner: task_invariant table_step n "\<lambda>t. table_ok t \<and> phils t = n" for n
proof unfold_locales
  fix s i c s'
  assume "table_ok s \<and> phils s = n" "i < n" "table_step i c s = Inr s'"
  then show "table_ok s' \<and> phils s' = n"
    by (auto simp: table_step_def table_ok_def busy_forks busy_party busy_parting)
qed (simp add: table_step_def)

lemma table_start_ok: "2 \<le> p \<Longrightarrow> 0 \<le> m \<Longrightarrow> table_ok (table_start p m)"
  by (auto simp: table_ok_def table_start_def forks_ok_def party_ok_def parting_ok_def count_at_all [THEN iffD2] count_at_0 [THEN iffD2])

lemma busy_dinner_is_orderly_parts:
  assumes "2 \<le> p" "0 \<le> m" "runs table_step p (table_start p m) t"
  shows "\<forall>i<p. \<forall>k. stage t i = Eating k \<longrightarrow> chopstick t i = 0 \<and> chopstick t ((i + 1) mod p) = 0 \<and>
      (\<forall>j<p. j \<noteq> i \<longrightarrow> \<not> holds p (stage t j) j i \<and> \<not> holds p (stage t j) j ((i + 1) mod p))"
    and "(\<exists>i<p. \<not> not_sitting (stage t i)) \<longrightarrow> (\<forall>i<p. stage t i \<noteq> NotIn)"
    and "(\<exists>i<p. stage t i = Left) \<longrightarrow> (\<forall>i<p. to_leave (stage t i))"
    and "(\<exists>i<p. to_leave (stage t i)) \<longrightarrow> MealLeft t = 0"
proof -
  have ok: "table_ok t" "phils t = p"
    using busy_dinner.runs_good [OF assms(3)] table_start_ok [OF assms(1,2)] by (auto simp: table_start_def)
  show "\<forall>i<p. \<forall>k. stage t i = Eating k \<longrightarrow> chopstick t i = 0 \<and> chopstick t ((i + 1) mod p) = 0 \<and>
      (\<forall>j<p. j \<noteq> i \<longrightarrow> \<not> holds p (stage t j) j i \<and> \<not> holds p (stage t j) j ((i + 1) mod p))"
  proof (intro allI impI)
    fix i k assume i: "i < p" "stage t i = Eating k"
    have "holds p (stage t i) i i" "holds p (stage t i) i ((i + 1) mod p)" using i by auto
    then show "chopstick t i = 0 \<and> chopstick t ((i + 1) mod p) = 0 \<and>
      (\<forall>j<p. j \<noteq> i \<longrightarrow> \<not> holds p (stage t j) j i \<and> \<not> holds p (stage t j) j ((i + 1) mod p))"
      using ok i(1) right_stick [OF i(1) assms(1)] unfolding table_ok_def forks_ok_def by blast
  qed
  show "(\<exists>i<p. \<not> not_sitting (stage t i)) \<longrightarrow> (\<forall>i<p. stage t i \<noteq> NotIn)"
    using ok by (auto simp: table_ok_def party_ok_def count_at_0)
  show "(\<exists>i<p. stage t i = Left) \<longrightarrow> (\<forall>i<p. to_leave (stage t i))"
    using ok count_at_all [of "phils t" "\<lambda>i. to_leave (stage t i)"] by (auto simp: table_ok_def parting_ok_def)
  show "(\<exists>i<p. to_leave (stage t i)) \<longrightarrow> MealLeft t = 0"
    using ok by (auto simp: table_ok_def parting_ok_def)
qed

text \<open>C21. In every interleaving of task 3, a philosopher who eats holds both its chopsticks, both are marked taken, and no other
  philosopher holds either of them: neighbours never eat at the same time. Nobody sits before all are in the room, nobody leaves before all
  have got up, and nobody gets up while a meal is left.\<close>

theorem busy_dinner_is_orderly:
  assumes "2 \<le> p" "0 \<le> m" "runs table_step p (table_start p m) t"
  shows "(\<forall>i<p. \<forall>k. stage t i = Eating k \<longrightarrow> chopstick t i = 0 \<and> chopstick t ((i + 1) mod p) = 0 \<and>
      (\<forall>j<p. j \<noteq> i \<longrightarrow> \<not> holds p (stage t j) j i \<and> \<not> holds p (stage t j) j ((i + 1) mod p))) \<and>
    ((\<exists>i<p. \<not> not_sitting (stage t i)) \<longrightarrow> (\<forall>i<p. stage t i \<noteq> NotIn)) \<and>
    ((\<exists>i<p. stage t i = Left) \<longrightarrow> (\<forall>i<p. to_leave (stage t i))) \<and>
    ((\<exists>i<p. to_leave (stage t i)) \<longrightarrow> MealLeft t = 0)"
  by (intro conjI busy_dinner_is_orderly_parts [OF assms])

text \<open>Both sit down and the second takes both chopsticks.\<close>

lemma busy_dinner_is_orderly_witness:
  "\<exists>t. runs table_step 2 (table_start 2 1) t \<and> stage t 1 = Eating 1 \<and> chopstick t 0 = 0 \<and> chopstick t 1 = 0 \<and>
     \<not> holds 2 (stage t 0) 0 0 \<and> stage t 0 \<noteq> NotIn"
proof -
  have "\<exists>t. schedule table_step [(0, (0, 0)), (1, (0, 0))] (table_start 2 1) = Inr t \<and> stage t 1 = Eating 1"
    by (simp add: table_step_def table_start_def table_ops stick_of_def stallCycle_def)
  then obtain t where t: "schedule table_step [(0, (0, 0)), (1, (0, 0))] (table_start 2 1) = Inr t" "stage t 1 = Eating 1" by blast
  have r: "runs table_step 2 (table_start 2 1) t" using schedule_runs [OF t(1) _ runs.start] by simp
  have two: "(2 :: nat) \<le> 2" "(0 :: int) \<le> 1" "(1 :: nat) < 2" "(0 :: nat) < 2" "(0 :: nat) \<noteq> 1" "(1 + 1) mod 2 = (0 :: nat)" by simp_all
  have "\<not> not_sitting (stage t 1)" using t(2) by simp
  then have "stage t 0 \<noteq> NotIn" using busy_dinner_is_orderly [OF two(1,2) r] two by blast
  moreover have "chopstick t 1 = 0 \<and> chopstick t 0 = 0 \<and> \<not> holds 2 (stage t 0) 0 0"
    using busy_dinner_is_orderly [OF two(1,2) r, THEN conjunct1, rule_format, OF two(3) t(2)] two(4,5) unfolding two(6) by blast
  ultimately show ?thesis using r t(2) by blast
qed

end
