(* ===== verification/Nachos_PostOffice.thy ===== *)
theory Nachos_PostOffice
  imports Nachos_Tasks
begin

section \<open>The post office with semaphores: task 6 of threads/threadtest.cc\<close>

text \<open>
  The globals of the two post office simulations, the operations on them that both share, and \<open>PostOfficeSemaphore\<close> cut
  into blocks. A message is the index of its text in \<open>MsgList\<close>. \<open>MailBox\<close> is an array of 128 by 64 slots whatever the numbers typed in;
  an access outside is \<open>OutOfBounds\<close>.
\<close>

record 'pc Office =
  people :: nat
  capacity :: int
  wanted :: int
  MsgSentCnt :: int
  is_done :: "nat \<Rightarrow> bool"
  MsgPtr :: "nat \<Rightarrow> int"
  MailBox :: "nat \<Rightarrow> int \<Rightarrow> nat \<times> nat"
  mailboxSemaphore :: "nat \<Rightarrow> nat"
  freeSpaceSemaphore :: "nat \<Rightarrow> nat"
  MsgCntSemaphore :: nat
  spot :: "nat \<Rightarrow> 'pc"

definition office_start :: "nat \<Rightarrow> nat \<Rightarrow> int \<Rightarrow> 'pc \<Rightarrow> 'pc Office" where
  "office_start p s m pc = \<lparr>people = p, capacity = int s, wanted = m, MsgSentCnt = 0, is_done = (\<lambda>_. False), MsgPtr = (\<lambda>_. 0),
     MailBox = (\<lambda>_ _. (0, 0)), mailboxSemaphore = (\<lambda>_. 1), freeSpaceSemaphore = (\<lambda>_. s), MsgCntSemaphore = 1, spot = (\<lambda>_. pc)\<rparr>"

definition walk :: "nat \<Rightarrow> 'pc \<Rightarrow> ('pc, 'm) Office_scheme \<Rightarrow> ('pc, 'm) Office_scheme" where
  "walk i pc s = s\<lparr>spot := (spot s)(i := pc)\<rparr>"

definition P_box :: "nat \<Rightarrow> nat \<Rightarrow> 'pc \<Rightarrow> 'pc \<Rightarrow> ('pc, 'm) Office_scheme \<Rightarrow> ('pc, 'm) Office_scheme" where
  "P_box i j wait got s = (if mailboxSemaphore s j = 0 then walk i wait s
     else walk i got (s\<lparr>mailboxSemaphore := (mailboxSemaphore s)(j := mailboxSemaphore s j - 1)\<rparr>))"

definition V_box :: "nat \<Rightarrow> nat \<Rightarrow> 'pc \<Rightarrow> ('pc, 'm) Office_scheme \<Rightarrow> ('pc, 'm) Office_scheme" where
  "V_box i j pc s = walk i pc (s\<lparr>mailboxSemaphore := (mailboxSemaphore s)(j := mailboxSemaphore s j + 1)\<rparr>)"

definition P_space :: "nat \<Rightarrow> nat \<Rightarrow> 'pc \<Rightarrow> 'pc \<Rightarrow> ('pc, 'm) Office_scheme \<Rightarrow> ('pc, 'm) Office_scheme" where
  "P_space i j wait got s = (if freeSpaceSemaphore s j = 0 then walk i wait s
     else walk i got (s\<lparr>freeSpaceSemaphore := (freeSpaceSemaphore s)(j := freeSpaceSemaphore s j - 1)\<rparr>))"

definition V_space :: "nat \<Rightarrow> nat \<Rightarrow> 'pc \<Rightarrow> ('pc, 'm) Office_scheme \<Rightarrow> ('pc, 'm) Office_scheme" where
  "V_space i j pc s = walk i pc (s\<lparr>freeSpaceSemaphore := (freeSpaceSemaphore s)(j := freeSpaceSemaphore s j + 1)\<rparr>)"

definition P_cnt :: "nat \<Rightarrow> 'pc \<Rightarrow> 'pc \<Rightarrow> ('pc, 'm) Office_scheme \<Rightarrow> ('pc, 'm) Office_scheme" where
  "P_cnt i wait got s = (if MsgCntSemaphore s = 0 then walk i wait s else walk i got (s\<lparr>MsgCntSemaphore := MsgCntSemaphore s - 1\<rparr>))"

definition V_cnt :: "nat \<Rightarrow> 'pc \<Rightarrow> ('pc, 'm) Office_scheme \<Rightarrow> ('pc, 'm) Office_scheme" where
  "V_cnt i pc s = walk i pc (s\<lparr>MsgCntSemaphore := MsgCntSemaphore s + 1\<rparr>)"

definition slot_exists :: "nat \<Rightarrow> int \<Rightarrow> bool" where
  "slot_exists i k \<longleftrightarrow> i < 128 \<and> 0 \<le> k \<and> k < 64"

text \<open>Reading the last letter of one's own box, and putting a letter into somebody's.\<close>

definition read_letter :: "nat \<Rightarrow> ('pc, 'm) Office_scheme \<Rightarrow> ('pc, 'm) Office_scheme res" where
  "read_letter i s = (if slot_exists i (MsgPtr s i - 1) then Inr (s\<lparr>MsgPtr := (MsgPtr s)(i := MsgPtr s i - 1)\<rparr>) else Inl OutOfBounds)"

definition put_letter :: "nat \<Rightarrow> nat \<Rightarrow> nat \<Rightarrow> ('pc, 'm) Office_scheme \<Rightarrow> ('pc, 'm) Office_scheme res" where
  "put_letter i j z s = (if slot_exists j (MsgPtr s j) then Inr (s\<lparr>MsgPtr := (MsgPtr s)(j := MsgPtr s j + 1),
      MailBox := (MailBox s)(j := (MailBox s j)(MsgPtr s j := (i, z))), MsgSentCnt := MsgSentCnt s + 1\<rparr>) else Inl OutOfBounds)"

text \<open>The test at the end of a visit.\<close>

definition all_read :: "('pc, 'm) Office_scheme \<Rightarrow> bool" where
  "all_read s \<longleftrightarrow> (\<forall>j\<in>set [0..<people s]. MsgPtr s j = 0)"

definition set_done :: "nat \<Rightarrow> ('pc, 'm) Office_scheme \<Rightarrow> ('pc, 'm) Office_scheme" where
  "set_done i s = s\<lparr>is_done := (is_done s)(i := all_read s \<and> MsgSentCnt s = wanted s)\<rparr>"

lemmas office_ops = walk_def P_box_def V_box_def P_space_def V_space_def P_cnt_def V_cnt_def read_letter_def put_letter_def set_done_def

subsection \<open>PostOfficeSemaphore\<close>

datatype visit_spot = Top | WaitRead | GotBox | FreedSpace | ReleasedBox | AfterRead | WaitSpace nat nat | GotSpace nat nat
  | WaitBox nat nat | GotSendBox nat nat | WaitCnt nat nat | GotCnt nat nat | AbortFreed nat | SentReleased | Released | Pause nat | Home

text \<open>
  Choosing a recipient and a message. A first draw that names the sender itself is drawn again by the \<open>do\<close> loop; nothing has
  happened in the block before, so the step then leaves the state as it is.
\<close>

definition send_to :: "nat \<Rightarrow> draws \<Rightarrow> visit_spot Office \<Rightarrow> visit_spot Office" where
  "send_to i c s = (let j = fst c mod people s; z = snd c mod 6
     in if j = i then s else P_space i j (WaitSpace j z) (GotSpace j z) s)"

definition open_box :: "nat \<Rightarrow> draws \<Rightarrow> visit_spot Office \<Rightarrow> visit_spot Office" where
  "open_box i c s = (if MsgPtr s i \<noteq> 0 then P_box i i WaitRead GotBox s else send_to i c s)"

definition visit_loop :: "nat \<Rightarrow> draws \<Rightarrow> visit_spot Office \<Rightarrow> visit_spot Office" where
  "visit_loop i c s = (if is_done s i then walk i Home s else open_box i c s)"

definition send_letter :: "nat \<Rightarrow> nat \<Rightarrow> nat \<Rightarrow> visit_spot Office \<Rightarrow> visit_spot Office res" where
  "send_letter i j z s = (if MsgSentCnt s < wanted s then andThen (put_letter i j z s) (\<lambda>s'. Inr (V_box i j SentReleased s'))
     else Inr (V_space i j (AbortFreed j) s))"

fun PostOfficeSemaphore :: "nat \<Rightarrow> draws \<Rightarrow> visit_spot \<Rightarrow> visit_spot Office \<Rightarrow> visit_spot Office res" where
  "PostOfficeSemaphore i c Top s = Inr (visit_loop i c s)"
| "PostOfficeSemaphore i c WaitRead s = Inr (P_box i i WaitRead GotBox s)"
| "PostOfficeSemaphore i c GotBox s = andThen (read_letter i s) (\<lambda>s'. Inr (V_space i i FreedSpace s'))"
| "PostOfficeSemaphore i c FreedSpace s = Inr (V_box i i ReleasedBox s)"
| "PostOfficeSemaphore i c ReleasedBox s = Inr (walk i AfterRead s)"
| "PostOfficeSemaphore i c AfterRead s = Inr (open_box i c s)"
| "PostOfficeSemaphore i c (WaitSpace j z) s = Inr (P_space i j (WaitSpace j z) (GotSpace j z) s)"
| "PostOfficeSemaphore i c (GotSpace j z) s = Inr (P_box i j (WaitBox j z) (GotSendBox j z) s)"
| "PostOfficeSemaphore i c (WaitBox j z) s = Inr (P_box i j (WaitBox j z) (GotSendBox j z) s)"
| "PostOfficeSemaphore i c (GotSendBox j z) s = Inr (P_cnt i (WaitCnt j z) (GotCnt j z) s)"
| "PostOfficeSemaphore i c (WaitCnt j z) s = Inr (P_cnt i (WaitCnt j z) (GotCnt j z) s)"
| "PostOfficeSemaphore i c (GotCnt j z) s = send_letter i j z s"
| "PostOfficeSemaphore i c (AbortFreed j) s = Inr (V_box i j SentReleased s)"
| "PostOfficeSemaphore i c SentReleased s = Inr (V_cnt i Released s)"
| "PostOfficeSemaphore i c Released s = Inr (walk i (Pause (stallCycle c - 1)) s)"
| "PostOfficeSemaphore i c (Pause k) s = Inr (if k \<noteq> 0 then walk i (Pause (k - 1)) s else visit_loop i c (set_done i s))"
| "PostOfficeSemaphore i c Home s = Inr s"

definition visit_step :: "visit_spot Office task" where
  "visit_step i c s = PostOfficeSemaphore i c (spot s i) s"

lemmas visit_ops = send_to_def Let_def open_box_def visit_loop_def send_letter_def office_ops

subsection \<open>Who is in which mailbox\<close>

text \<open>\<open>sending j\<close>: has taken a free place of box \<open>j\<close> and not yet used it; \<open>in_box i j\<close>: person \<open>i\<close> holds box \<open>j\<close>; \<open>in_cnt\<close>: holds the counter.\<close>

fun sending :: "nat \<Rightarrow> visit_spot \<Rightarrow> bool" where
  "sending j (GotSpace k z) \<longleftrightarrow> k = j" | "sending j (WaitBox k z) \<longleftrightarrow> k = j" | "sending j (GotSendBox k z) \<longleftrightarrow> k = j"
| "sending j (WaitCnt k z) \<longleftrightarrow> k = j" | "sending j (GotCnt k z) \<longleftrightarrow> k = j" | "sending j pc \<longleftrightarrow> False"

fun in_box :: "nat \<Rightarrow> nat \<Rightarrow> visit_spot \<Rightarrow> bool" where
  "in_box i j GotBox \<longleftrightarrow> i = j" | "in_box i j FreedSpace \<longleftrightarrow> i = j" | "in_box i j (GotSendBox k z) \<longleftrightarrow> k = j"
| "in_box i j (WaitCnt k z) \<longleftrightarrow> k = j" | "in_box i j (GotCnt k z) \<longleftrightarrow> k = j" | "in_box i j (AbortFreed k) \<longleftrightarrow> k = j"
| "in_box i j pc \<longleftrightarrow> False"

fun in_cnt :: "visit_spot \<Rightarrow> bool" where
  "in_cnt (GotCnt k z) = True" | "in_cnt (AbortFreed k) = True" | "in_cnt SentReleased = True" | "in_cnt pc = False"

fun target :: "visit_spot \<Rightarrow> nat option" where
  "target (WaitSpace k z) = Some k" | "target (GotSpace k z) = Some k" | "target (WaitBox k z) = Some k"
| "target (GotSendBox k z) = Some k" | "target (WaitCnt k z) = Some k" | "target (GotCnt k z) = Some k"
| "target (AbortFreed k) = Some k" | "target pc = None"

fun about_to_read :: "visit_spot \<Rightarrow> bool" where
  "about_to_read WaitRead = True" | "about_to_read GotBox = True" | "about_to_read pc = False"


definition room_kept :: "visit_spot Office \<Rightarrow> bool" where
  "room_kept s \<longleftrightarrow> (\<forall>j<people s. 0 \<le> MsgPtr s j \<and>
     MsgPtr s j + int (freeSpaceSemaphore s j) + int (count_at (people s) (\<lambda>i. sending j (spot s i))) = capacity s)"

definition boxes_ok :: "visit_spot Office \<Rightarrow> bool" where
  "boxes_ok s \<longleftrightarrow> (\<forall>j<people s. int (mailboxSemaphore s j) + int (count_at (people s) (\<lambda>i. in_box i j (spot s i))) = 1) \<and>
     int (MsgCntSemaphore s) + int (count_at (people s) (\<lambda>i. in_cnt (spot s i))) = 1"

definition persons_ok :: "visit_spot Office \<Rightarrow> bool" where
  "persons_ok s \<longleftrightarrow> MsgSentCnt s \<le> wanted s \<and> (\<forall>i<people s. (about_to_read (spot s i) \<longrightarrow> 1 \<le> MsgPtr s i) \<and>
     (\<forall>j. target (spot s i) = Some j \<longrightarrow> j < people s) \<and> (spot s i = Home \<longrightarrow> is_done s i) \<and>
     (is_done s i \<longrightarrow> all_read s \<and> MsgSentCnt s = wanted s))"

definition office_ok :: "visit_spot Office \<Rightarrow> bool" where
  "office_ok s \<longleftrightarrow> 2 \<le> people s \<and> people s \<le> 128 \<and> capacity s \<le> 64 \<and> room_kept s \<and> boxes_ok s \<and> persons_ok s"

lemma visit_frame:
  assumes "PostOfficeSemaphore i c pc s = Inr s'"
  shows "people s' = people s" "capacity s' = capacity s" "wanted s' = wanted s" "j \<noteq> i \<Longrightarrow> spot s' j = spot s j"
  using assms by (cases pc; auto simp: visit_ops split: if_splits)+

text \<open>Each block moves one unit between a semaphore, a mailbox and the person who runs it.\<close>

lemma visit_balance:
  assumes "PostOfficeSemaphore i c (spot s i) s = Inr s'"
  shows "MsgPtr s' j + int (freeSpaceSemaphore s' j) + (if sending j (spot s' i) then 1 else 0) =
      MsgPtr s j + int (freeSpaceSemaphore s j) + (if sending j (spot s i) then 1 else 0)"
    and "int (mailboxSemaphore s' j) + (if in_box i j (spot s' i) then 1 else 0) =
      int (mailboxSemaphore s j) + (if in_box i j (spot s i) then 1 else 0)"
    and "int (MsgCntSemaphore s') + (if in_cnt (spot s' i) then 1 else 0) =
      int (MsgCntSemaphore s) + (if in_cnt (spot s i) then 1 else 0)"
  using assms by (cases "spot s i"; auto simp: visit_ops split: if_splits)+

lemma visit_letters:
  assumes "PostOfficeSemaphore i c (spot s i) s = Inr s'"
  shows "MsgPtr s' j = MsgPtr s j \<or> (\<exists>z. spot s i = GotCnt j z \<and> MsgSentCnt s < wanted s \<and> MsgPtr s' j = MsgPtr s j + 1) \<or>
      (spot s i = GotBox \<and> j = i \<and> MsgPtr s' j = MsgPtr s j - 1 \<and> 1 \<le> MsgPtr s j)"
    and "MsgSentCnt s' = MsgSentCnt s \<or> (\<exists>k z. spot s i = GotCnt k z \<and> MsgSentCnt s < wanted s \<and> MsgSentCnt s' = MsgSentCnt s + 1)"
  using assms by (cases "spot s i"; auto simp: visit_ops slot_exists_def split: if_splits)+

lemma visit_ends:
  assumes "PostOfficeSemaphore i c (spot s i) s = Inr s'"
  shows "about_to_read (spot s' i) \<Longrightarrow> MsgPtr s' i \<noteq> 0 \<or> about_to_read (spot s i) \<and> spot s i \<noteq> GotBox"
    and "target (spot s' i) = Some j \<Longrightarrow> 0 < people s \<Longrightarrow> j < people s \<or> target (spot s i) = Some j"
    and "j \<noteq> i \<Longrightarrow> is_done s' j = is_done s j"
    and "is_done s' i \<Longrightarrow> is_done s i \<or> all_read s \<and> MsgSentCnt s = wanted s \<and> (\<forall>j. MsgPtr s' j = MsgPtr s j) \<and> MsgSentCnt s' = MsgSentCnt s"
    and "spot s' i = Home \<Longrightarrow> is_done s' i \<or> spot s i = Home"
  using assms by (cases "spot s i"; auto simp: visit_ops slot_exists_def split: if_splits)+


lemma visit_count:
  assumes "PostOfficeSemaphore i c (spot s i) s = Inr s'" "i < people s"
  shows "int (count_at (people s) (\<lambda>k. q k (spot s' k))) =
    int (count_at (people s) (\<lambda>k. q k (spot s k))) + (if q i (spot s' i) then 1 else 0) - (if q i (spot s i) then 1 else 0)"
  by (rule count_at_change [OF assms(2)]) (simp add: visit_frame(4) [OF assms(1)])

lemma visit_space:
  assumes "PostOfficeSemaphore i c (spot s i) s = Inr s'" "i < people s" "room_kept s"
  shows "room_kept s'"
  unfolding room_kept_def visit_frame(1,2) [OF assms(1)]
proof (intro allI impI)
  fix j assume j: "j < people s"
  have "0 \<le> MsgPtr s' j" using visit_letters(1) [OF assms(1), of j] assms(3) j by (auto simp: room_kept_def)
  moreover have "MsgPtr s' j + int (freeSpaceSemaphore s' j) + int (count_at (people s) (\<lambda>i. sending j (spot s' i))) = capacity s"
    using visit_balance(1) [OF assms(1), of j] visit_count [OF assms(1,2), of "\<lambda>k. sending j"] assms(3) j
    unfolding room_kept_def by fastforce
  ultimately show "0 \<le> MsgPtr s' j \<and>
     MsgPtr s' j + int (freeSpaceSemaphore s' j) + int (count_at (people s) (\<lambda>i. sending j (spot s' i))) = capacity s" ..
qed

lemma visit_boxes:
  assumes "PostOfficeSemaphore i c (spot s i) s = Inr s'" "i < people s" "boxes_ok s"
  shows "boxes_ok s'"
  unfolding boxes_ok_def visit_frame(1) [OF assms(1)]
proof (intro conjI allI impI)
  fix j assume j: "j < people s"
  have old: "int (mailboxSemaphore s j) + int (count_at (people s) (\<lambda>i. in_box i j (spot s i))) = 1"
    using assms(3) j by (simp add: boxes_ok_def)
  show "int (mailboxSemaphore s' j) + int (count_at (people s) (\<lambda>i. in_box i j (spot s' i))) = 1"
    using visit_balance(2) [OF assms(1), of j] visit_count [OF assms(1,2), of "\<lambda>k. in_box k j"] old by linarith
next
  have old: "int (MsgCntSemaphore s) + int (count_at (people s) (\<lambda>i. in_cnt (spot s i))) = 1"
    using assms(3) by (simp add: boxes_ok_def)
  show "int (MsgCntSemaphore s') + int (count_at (people s) (\<lambda>i. in_cnt (spot s' i))) = 1"
    using visit_balance(3) [OF assms(1)] visit_count [OF assms(1,2), of "\<lambda>k. in_cnt"] old by linarith
qed

lemma visit_persons:
  assumes "PostOfficeSemaphore i c (spot s i) s = Inr s'" "i < people s" "persons_ok s" "room_kept s"
  shows "persons_ok s'"
proof -
  note frame = visit_frame [OF assms(1)] and letters = visit_letters [OF assms(1)] and ends = visit_ends [OF assms(1)]
  have sent: "MsgSentCnt s' \<le> wanted s" using letters(2) assms(3) by (auto simp: persons_ok_def)
  have over: "all_read s' \<and> MsgSentCnt s' = wanted s" if "all_read s" "MsgSentCnt s = wanted s"
  proof -
    have "MsgPtr s' j = 0" if "j < people s" for j
      using letters(1) [of j] \<open>all_read s\<close> \<open>MsgSentCnt s = wanted s\<close> that by (auto simp: all_read_def)
    then show ?thesis using letters(2) that(2) frame(1) by (auto simp: all_read_def)
  qed
  have reading: "1 \<le> MsgPtr s' k" if "k < people s" "about_to_read (spot s' k)" for k
  proof (cases "k = i")
    case True
    have "0 \<le> MsgPtr s' k" using visit_space [OF assms(1,2,4)] that(1) frame(1) by (simp add: room_kept_def)
    moreover have "MsgPtr s' k \<noteq> 0"
    proof (cases "about_to_read (spot s i) \<and> spot s i \<noteq> GotBox")
      case pc: True
      then have "1 \<le> MsgPtr s k" using assms(2,3) True by (simp add: persons_ok_def)
      with pc letters(1) [of k] show ?thesis by auto
    next
      case False
      then show ?thesis using ends(1) that(2) True by auto
    qed
    ultimately show ?thesis by simp
  next
    case False
    then have "1 \<le> MsgPtr s k" using frame(4) [OF False] that assms(3) by (simp add: persons_ok_def)
    then show ?thesis using letters(1) [of k] False by auto
  qed
  have "(\<forall>j. target (spot s' k) = Some j \<longrightarrow> j < people s) \<and> (spot s' k = Home \<longrightarrow> is_done s' k) \<and>
      (is_done s' k \<longrightarrow> all_read s' \<and> MsgSentCnt s' = wanted s)" if "k < people s" for k
  proof (cases "k = i")
    case True
    have old: "\<forall>j. target (spot s i) = Some j \<longrightarrow> j < people s" "spot s i = Home \<longrightarrow> is_done s i"
      "is_done s i \<longrightarrow> all_read s \<and> MsgSentCnt s = wanted s"
      using assms(2,3) by (auto simp: persons_ok_def)
    have home: "spot s i = Home \<longrightarrow> s' = s" using assms(1) by auto
    show ?thesis using ends old home over True that by (metis gr_implies_not0 not_gr_zero)
  next
    case False
    then show ?thesis using that assms(3) frame(4) [OF False] ends(3) [OF False] over by (auto simp: persons_ok_def)
  qed
  then show ?thesis unfolding persons_ok_def frame(1,3) using sent reading by blast
qed

lemma count_pos: "i < n \<Longrightarrow> p i \<Longrightarrow> 0 < count_at n p"
  using count_at_0 [of n p] by auto

text \<open>Within the bounds of the array no access is outside it.\<close>

lemma visit_total:
  assumes "office_ok s" "i < people s"
  shows "\<exists>s'. PostOfficeSemaphore i c (spot s i) s = Inr s'"
proof -
  have own: "about_to_read (spot s i) \<Longrightarrow> 1 \<le> MsgPtr s i \<and> MsgPtr s i \<le> 64"
    using assms unfolding office_ok_def persons_ok_def room_kept_def by (smt (verit) of_nat_0_le_iff)
  have full: "0 \<le> MsgPtr s j \<and> MsgPtr s j < 64 \<and> j < 128" if "spot s i = GotCnt j z" for j z
  proof -
    have j: "j < people s" using that assms unfolding office_ok_def persons_ok_def by (metis target.simps(6))
    have "sending j (spot s i)" using that by simp
    then have "0 < count_at (people s) (\<lambda>k. sending j (spot s k))" using count_pos [OF assms(2), of "\<lambda>k. sending j (spot s k)"] by simp
    moreover have "0 \<le> MsgPtr s j" "MsgPtr s j + int (freeSpaceSemaphore s j) +
        int (count_at (people s) (\<lambda>i. sending j (spot s i))) = capacity s"
      using assms j by (auto simp: office_ok_def room_kept_def)
    ultimately show ?thesis using assms(1) j unfolding office_ok_def by linarith
  qed
  show ?thesis
    using own full assms by (cases "spot s i") (auto simp: visit_ops slot_exists_def office_ok_def)
qed

interpretation semaphore_office: task_invariant visit_step n "\<lambda>s. office_ok s \<and> people s = n" for n
proof unfold_locales
  fix s i c s'
  assume "office_ok s \<and> people s = n" "i < n" "visit_step i c s = Inr s'"
  then show "office_ok s' \<and> people s' = n"
    using visit_frame [of i c "spot s i" s s'] visit_space [of i c s s'] visit_boxes [of i c s s'] visit_persons [of i c s s']
    by (auto simp: visit_step_def office_ok_def)
next
  fix s i c
  assume "office_ok s \<and> people s = n" "i < n"
  then show "\<exists>s'. visit_step i c s = Inr s'" by (auto simp: visit_step_def visit_total)
qed

lemma office_start_ok: "2 \<le> p \<Longrightarrow> p \<le> 128 \<Longrightarrow> s \<le> 64 \<Longrightarrow> 0 \<le> m \<Longrightarrow> office_ok (office_start p s m Top)"
  by (simp add: office_ok_def office_start_def room_kept_def boxes_ok_def persons_ok_def all_read_def count_at_0 [THEN iffD2])


lemma count_one: "count_at n p \<le> 1 \<Longrightarrow> i < n \<Longrightarrow> j < n \<Longrightarrow> p i \<Longrightarrow> p j \<Longrightarrow> i = j"
  by (auto simp: count_at_def card_le_Suc0_iff_eq)

lemma post_office_is_orderly_parts:
  assumes "2 \<le> p" "p \<le> 128" "s \<le> 64" "0 \<le> m" "runs visit_step p (office_start p s m Top) t" "i < p" "j < p"
  shows "\<exists>t'. visit_step i c t = Inr t'"
    and "0 \<le> MsgPtr t j \<and> MsgPtr t j \<le> int s \<and> MsgSentCnt t \<le> m"
    and "in_box i j (spot t i) \<Longrightarrow> k < p \<Longrightarrow> in_box k j (spot t k) \<Longrightarrow> k = i"
    and "spot t i = Home \<Longrightarrow> MsgSentCnt t = m \<and> MsgPtr t j = 0"
proof -
  have start: "office_ok (office_start p s m Top)" "people (office_start p s m Top) = p"
    using office_start_ok [OF assms(1-4)] by (simp_all add: office_start_def)
  have const: "capacity t = int s \<and> wanted t = m"
    using assms(5) by (induction rule: runs.induct) (auto simp: office_start_def visit_step_def visit_frame)
  have ok: "office_ok t" "people t = p"
    using semaphore_office.runs_good [OF assms(5)] start by auto
  show "\<exists>t'. visit_step i c t = Inr t'" using semaphore_office.block_total ok assms(6) by blast
  show "0 \<le> MsgPtr t j \<and> MsgPtr t j \<le> int s \<and> MsgSentCnt t \<le> m"
    using ok const assms(7) unfolding office_ok_def room_kept_def persons_ok_def by fastforce
  have "int (mailboxSemaphore t j) + int (count_at p (\<lambda>i. in_box i j (spot t i))) = 1"
    using ok assms(7) by (auto simp: office_ok_def boxes_ok_def)
  then have "count_at p (\<lambda>i. in_box i j (spot t i)) \<le> 1" by linarith
  then show "in_box i j (spot t i) \<Longrightarrow> k < p \<Longrightarrow> in_box k j (spot t k) \<Longrightarrow> k = i"
    using count_one [of p "\<lambda>i. in_box i j (spot t i)" k i] assms(6) by blast
  show "spot t i = Home \<Longrightarrow> MsgSentCnt t = m \<and> MsgPtr t j = 0"
    using ok const assms(6,7) unfolding office_ok_def persons_ok_def all_read_def by auto
qed

text \<open>C22. With at most 128 people and boxes of at most 64 letters, no interleaving of task 6 accesses a slot outside \<open>MailBox\<close>; no box ever
  holds more letters than its capacity, no more than \<open>M\<close> are sent, each box is used by one person at a time, and whoever goes home
  knows that all \<open>M\<close> messages have been sent and all boxes are empty.\<close>

theorem post_office_is_orderly:
  assumes "2 \<le> p" "p \<le> 128" "s \<le> 64" "0 \<le> m" "runs visit_step p (office_start p s m Top) t" "i < p" "j < p"
  shows "(\<exists>t'. visit_step i c t = Inr t') \<and> 0 \<le> MsgPtr t j \<and> MsgPtr t j \<le> int s \<and> MsgSentCnt t \<le> m \<and>
    (\<forall>k<p. in_box i j (spot t i) \<and> in_box k j (spot t k) \<longrightarrow> k = i) \<and>
    (spot t i = Home \<longrightarrow> MsgSentCnt t = m \<and> MsgPtr t j = 0)"
  using post_office_is_orderly_parts [OF assms] by blast

text \<open>One person holds the other's box.\<close>

lemma post_office_is_orderly_witness:
  "\<exists>t. runs visit_step 2 (office_start 2 1 1 Top) t \<and> in_box 0 1 (spot t 0) \<and> (\<exists>t'. visit_step 0 (0, 0) t = Inr t') \<and> MsgPtr t 1 \<le> 1 \<and>
     \<not> in_box 1 1 (spot t 1)"
proof -
  have "\<exists>t. schedule visit_step [(0, (1, 0)), (0, (0, 0))] (office_start 2 1 1 Top) = Inr t \<and> in_box 0 1 (spot t 0)"
    by (simp add: visit_step_def office_start_def visit_ops)
  then obtain t where t: "schedule visit_step [(0, (1, 0)), (0, (0, 0))] (office_start 2 1 1 Top) = Inr t" "in_box 0 1 (spot t 0)" by blast
  have r: "runs visit_step 2 (office_start 2 1 1 Top) t" using schedule_runs [OF t(1) _ runs.start] by simp
  have n: "(2 :: nat) \<le> 2" "(2 :: nat) \<le> 128" "(1 :: nat) \<le> 64" "(0 :: int) \<le> 1" "(0 :: nat) < 2" "(1 :: nat) < 2" by simp_all
  note order = post_office_is_orderly [OF n(1-4) r n(5,6)]
  have "MsgPtr t 1 \<le> 1" using order by simp
  moreover have "\<not> in_box 1 1 (spot t 1)" using order t(2) n(6) zero_neq_one [where 'a = nat] by metis
  ultimately show ?thesis using r t(2) order by blast
qed

text \<open>The numbers typed in are not compared with the size of the array: the box of person 128 does not exist.\<close>

lemma post_office_overflow:
  assumes "128 < p" "1 \<le> s" "1 \<le> m"
  shows "schedule visit_step [(0, (128, 0)), (0, (0, 0)), (0, (0, 0)), (0, (0, 0))] (office_start p s m Top) = Inl OutOfBounds"
  using assms by (simp add: visit_step_def office_start_def visit_ops slot_exists_def)

end
