(* ===== verification/Nachos_PostLoop.thy ===== *)
theory Nachos_PostLoop
  imports Nachos_PostOffice
begin

section \<open>The post office with a waiting loop: task 5 of threads/threadtest.cc\<close>

text \<open>
  \<open>PostOfficeLoop\<close> cut into blocks, over the globals and operations of \<open>Nachos_PostOffice\<close>; the two locals that live
  across blocks, \<open>sentCount\<close> and \<open>deadlock\<close>, are kept per person. The person who sends keeps \<open>MsgCntSemaphore\<close>
  for the whole attempt, also while it yields in front of a full box.
\<close>

datatype round = LTop | LWaitRead | LGotBox | LReleasedBox | LAfterRead | LWaitCnt | LGotCnt | LFull nat nat
  | LWaitBox nat nat | LGotSendBox nat nat | LSentReleased | LReleased | LPause nat | LHome

record LoopOffice = "round Office" +
  sentCount :: "nat \<Rightarrow> int"
  deadlock :: "nat \<Rightarrow> bool"

definition loop_start :: "nat \<Rightarrow> nat \<Rightarrow> int \<Rightarrow> LoopOffice" where
  "loop_start p s m = Office.extend (office_start p s m LTop) (LoopOffice.fields (\<lambda>_. 0) (\<lambda>_. False))"

text \<open>Step 7: another turn of the loop that waits for room in the box, and what follows it.\<close>

definition count_try :: "nat \<Rightarrow> LoopOffice \<Rightarrow> LoopOffice" where
  "count_try i s = (let n = sentCount s i + 1
     in s\<lparr>sentCount := (sentCount s)(i := n), deadlock := (deadlock s)(i := n = 3 \<or> deadlock s i)\<rparr>)"

definition give_up :: "nat \<Rightarrow> LoopOffice \<Rightarrow> LoopOffice" where
  "give_up i s = s\<lparr>sentCount := (sentCount s)(i := 0), deadlock := (deadlock s)(i := False)\<rparr>"

definition check_full :: "nat \<Rightarrow> nat \<Rightarrow> nat \<Rightarrow> LoopOffice \<Rightarrow> LoopOffice" where
  "check_full i j z s = (if MsgPtr s j = capacity s \<and> \<not> deadlock s i then walk i (LFull j z) (count_try i s)
     else if \<not> deadlock s i then P_box i j (LWaitBox j z) (LGotSendBox j z) s else V_cnt i LReleased (give_up i s))"

definition try_send :: "nat \<Rightarrow> draws \<Rightarrow> LoopOffice \<Rightarrow> LoopOffice" where
  "try_send i c s = (let j = fst c mod people s; z = snd c mod 6
     in if MsgSentCnt s < wanted s then (if j = i then s else check_full i j z s) else V_cnt i LReleased s)"

definition check_box :: "nat \<Rightarrow> LoopOffice \<Rightarrow> LoopOffice" where
  "check_box i s = (if MsgPtr s i \<noteq> 0 then P_box i i LWaitRead LGotBox s else P_cnt i LWaitCnt LGotCnt s)"

definition loop_again :: "nat \<Rightarrow> LoopOffice \<Rightarrow> LoopOffice" where
  "loop_again i s = (if is_done s i then walk i LHome s else check_box i s)"

fun PostOfficeLoop :: "nat \<Rightarrow> draws \<Rightarrow> round \<Rightarrow> LoopOffice \<Rightarrow> LoopOffice res" where
  "PostOfficeLoop i c LTop s = Inr (loop_again i s)"
| "PostOfficeLoop i c LWaitRead s = Inr (P_box i i LWaitRead LGotBox s)"
| "PostOfficeLoop i c LGotBox s = andThen (read_letter i s) (\<lambda>s'. Inr (V_box i i LReleasedBox s'))"
| "PostOfficeLoop i c LReleasedBox s = Inr (walk i LAfterRead s)"
| "PostOfficeLoop i c LAfterRead s = Inr (check_box i s)"
| "PostOfficeLoop i c LWaitCnt s = Inr (P_cnt i LWaitCnt LGotCnt s)"
| "PostOfficeLoop i c LGotCnt s = Inr (try_send i c s)"
| "PostOfficeLoop i c (LFull j z) s = Inr (check_full i j z s)"
| "PostOfficeLoop i c (LWaitBox j z) s = Inr (P_box i j (LWaitBox j z) (LGotSendBox j z) s)"
| "PostOfficeLoop i c (LGotSendBox j z) s = andThen (put_letter i j z s) (\<lambda>s'. Inr (V_box i j LSentReleased s'))"
| "PostOfficeLoop i c LSentReleased s = Inr (V_cnt i LReleased s)"
| "PostOfficeLoop i c LReleased s = Inr (walk i (LPause (stallCycle c - 1)) s)"
| "PostOfficeLoop i c (LPause k) s = Inr (if k \<noteq> 0 then walk i (LPause (k - 1)) s else loop_again i (set_done i s))"
| "PostOfficeLoop i c LHome s = Inr s"

definition loop_step :: "LoopOffice task" where
  "loop_step i c s = PostOfficeLoop i c (spot s i) s"

lemmas loop_ops = count_try_def give_up_def check_full_def try_send_def check_box_def loop_again_def Let_def office_ops

subsection \<open>Who holds what\<close>

fun holds_cnt :: "round \<Rightarrow> bool" where
  "holds_cnt LGotCnt = True" | "holds_cnt (LFull j z) = True" | "holds_cnt (LWaitBox j z) = True"
| "holds_cnt (LGotSendBox j z) = True" | "holds_cnt LSentReleased = True" | "holds_cnt pc = False"

fun holds_box :: "nat \<Rightarrow> nat \<Rightarrow> round \<Rightarrow> bool" where
  "holds_box i j LGotBox \<longleftrightarrow> i = j" | "holds_box i j (LGotSendBox k z) \<longleftrightarrow> k = j" | "holds_box i j pc \<longleftrightarrow> False"

fun recipient :: "round \<Rightarrow> nat option" where
  "recipient (LFull j z) = Some j" | "recipient (LWaitBox j z) = Some j" | "recipient (LGotSendBox j z) = Some j" | "recipient pc = None"

fun room_seen :: "round \<Rightarrow> nat option" where
  "room_seen (LWaitBox j z) = Some j" | "room_seen (LGotSendBox j z) = Some j" | "room_seen pc = None"

fun will_read :: "round \<Rightarrow> bool" where
  "will_read LWaitRead = True" | "will_read LGotBox = True" | "will_read pc = False"

text \<open>
  The counter is held by one person at a time, so the box that a sender found with room in it still has room when the
  sender puts its letter there: others only read.
\<close>

definition locks_ok :: "LoopOffice \<Rightarrow> bool" where
  "locks_ok s \<longleftrightarrow> (\<forall>j<people s. int (mailboxSemaphore s j) + int (count_at (people s) (\<lambda>i. holds_box i j (spot s i))) = 1) \<and>
     int (MsgCntSemaphore s) + int (count_at (people s) (\<lambda>i. holds_cnt (spot s i))) = 1"

definition letters_ok :: "LoopOffice \<Rightarrow> bool" where
  "letters_ok s \<longleftrightarrow> (\<forall>j<people s. 0 \<le> MsgPtr s j \<and> MsgPtr s j \<le> capacity s) \<and> MsgSentCnt s \<le> wanted s \<and>
     (\<forall>i<people s. (will_read (spot s i) \<longrightarrow> 1 \<le> MsgPtr s i) \<and>
       (\<forall>j. recipient (spot s i) = Some j \<longrightarrow> j < people s \<and> MsgSentCnt s < wanted s) \<and>
       (\<forall>j. room_seen (spot s i) = Some j \<longrightarrow> MsgPtr s j < capacity s) \<and> (spot s i = LHome \<longrightarrow> is_done s i) \<and>
       (is_done s i \<longrightarrow> all_read s \<and> MsgSentCnt s = wanted s))"

definition loop_ok :: "LoopOffice \<Rightarrow> bool" where
  "loop_ok s \<longleftrightarrow> 2 \<le> people s \<and> people s \<le> 128 \<and> capacity s \<le> 64 \<and> locks_ok s \<and> letters_ok s"

lemma loop_frame:
  assumes "PostOfficeLoop i c pc s = Inr s'"
  shows "people s' = people s" "capacity s' = capacity s" "wanted s' = wanted s" "j \<noteq> i \<Longrightarrow> spot s' j = spot s j"
  using assms by (cases pc; auto simp: loop_ops split: if_splits)+

lemma loop_balance:
  assumes "PostOfficeLoop i c (spot s i) s = Inr s'"
  shows "int (mailboxSemaphore s' j) + (if holds_box i j (spot s' i) then 1 else 0) =
      int (mailboxSemaphore s j) + (if holds_box i j (spot s i) then 1 else 0)"
    and "int (MsgCntSemaphore s') + (if holds_cnt (spot s' i) then 1 else 0) =
      int (MsgCntSemaphore s) + (if holds_cnt (spot s i) then 1 else 0)"
  using assms by (cases "spot s i"; auto simp: loop_ops split: if_splits)+

lemma loop_letters:
  assumes "PostOfficeLoop i c (spot s i) s = Inr s'"
  shows "MsgPtr s' j = MsgPtr s j \<or> (\<exists>z. spot s i = LGotSendBox j z \<and> MsgPtr s' j = MsgPtr s j + 1) \<or>
      (spot s i = LGotBox \<and> j = i \<and> MsgPtr s' j = MsgPtr s j - 1 \<and> 1 \<le> MsgPtr s j)"
    and "MsgSentCnt s' = MsgSentCnt s \<or> (\<exists>k z. spot s i = LGotSendBox k z \<and> MsgSentCnt s' = MsgSentCnt s + 1)"
  using assms by (cases "spot s i"; auto simp: loop_ops slot_exists_def split: if_splits)+

lemma loop_ends:
  assumes "PostOfficeLoop i c (spot s i) s = Inr s'"
  shows "will_read (spot s' i) \<Longrightarrow> MsgPtr s' i \<noteq> 0 \<or> spot s i = LWaitRead"
    and "recipient (spot s' i) = Some j \<Longrightarrow> 0 < people s \<Longrightarrow> MsgSentCnt s' = MsgSentCnt s \<and>
      (j < people s \<and> MsgSentCnt s < wanted s \<or> recipient (spot s i) = Some j)"
    and "room_seen (spot s' i) = Some j \<Longrightarrow> MsgPtr s' j = MsgPtr s j \<and> (MsgPtr s j \<noteq> capacity s \<or> room_seen (spot s i) = Some j)"
    and "j \<noteq> i \<Longrightarrow> is_done s' j = is_done s j"
    and "is_done s' i \<Longrightarrow> is_done s i \<or> all_read s \<and> MsgSentCnt s = wanted s \<and> (\<forall>j. MsgPtr s' j = MsgPtr s j) \<and> MsgSentCnt s' = MsgSentCnt s"
    and "spot s' i = LHome \<Longrightarrow> is_done s' i \<or> spot s i = LHome"
  using assms by (cases "spot s i"; auto simp: loop_ops slot_exists_def split: if_splits)+


lemma loop_count:
  assumes "PostOfficeLoop i c (spot s i) s = Inr s'" "i < people s"
  shows "int (count_at (people s) (\<lambda>k. q k (spot s' k))) =
    int (count_at (people s) (\<lambda>k. q k (spot s k))) + (if q i (spot s' i) then 1 else 0) - (if q i (spot s i) then 1 else 0)"
  by (rule count_at_change [OF assms(2)]) (simp add: loop_frame(4) [OF assms(1)])

lemma loop_locks:
  assumes "PostOfficeLoop i c (spot s i) s = Inr s'" "i < people s" "locks_ok s"
  shows "locks_ok s'"
  unfolding locks_ok_def loop_frame(1) [OF assms(1)]
proof (intro conjI allI impI)
  fix j assume j: "j < people s"
  have old: "int (mailboxSemaphore s j) + int (count_at (people s) (\<lambda>i. holds_box i j (spot s i))) = 1"
    using assms(3) j by (simp add: locks_ok_def)
  show "int (mailboxSemaphore s' j) + int (count_at (people s) (\<lambda>i. holds_box i j (spot s' i))) = 1"
    using loop_balance(1) [OF assms(1), of j] loop_count [OF assms(1,2), of "\<lambda>k. holds_box k j"] old by linarith
next
  have old: "int (MsgCntSemaphore s) + int (count_at (people s) (\<lambda>i. holds_cnt (spot s i))) = 1"
    using assms(3) by (simp add: locks_ok_def)
  show "int (MsgCntSemaphore s') + int (count_at (people s) (\<lambda>i. holds_cnt (spot s' i))) = 1"
    using loop_balance(2) [OF assms(1)] loop_count [OF assms(1,2), of "\<lambda>k. holds_cnt"] old by linarith
qed

lemma one_sender:
  assumes "locks_ok s" "i < people s" "k < people s" "holds_cnt (spot s i)" "holds_cnt (spot s k)"
  shows "i = k"
proof -
  have "int (MsgCntSemaphore s) + int (count_at (people s) (\<lambda>i. holds_cnt (spot s i))) = 1" using assms(1) by (simp add: locks_ok_def)
  then have "count_at (people s) (\<lambda>i. holds_cnt (spot s i)) \<le> 1" by linarith
  then show ?thesis using count_one [of _ "\<lambda>i. holds_cnt (spot s i)"] assms(2-5) by blast
qed

lemma recipient_holds: "recipient pc = Some j \<Longrightarrow> holds_cnt pc" "room_seen pc = Some j \<Longrightarrow> holds_cnt pc \<and> recipient pc = Some j"
  by (cases pc; simp)+

text \<open>What a block of person \<open>i\<close> leaves of another person's part of the invariant.\<close>

lemma loop_other:
  assumes "PostOfficeLoop i c (spot s i) s = Inr s'" "i < people s" "letters_ok s" "locks_ok s" "k < people s" "k \<noteq> i"
  shows "will_read (spot s' k) \<Longrightarrow> 1 \<le> MsgPtr s' k"
    and "recipient (spot s' k) = Some j \<Longrightarrow> j < people s \<and> MsgSentCnt s' < wanted s"
    and "room_seen (spot s' k) = Some j \<Longrightarrow> MsgPtr s' j < capacity s"
proof -
  have same: "spot s' k = spot s k" using loop_frame(4) [OF assms(1,6)] .
  have alone: "spot s i \<noteq> LGotSendBox m z" if "holds_cnt (spot s k)" for m z
    using one_sender [OF assms(4,2,5)] that assms(6) by auto
  show "will_read (spot s' k) \<Longrightarrow> 1 \<le> MsgPtr s' k"
    using same assms(3,5,6) loop_letters(1) [OF assms(1), of k] by (auto simp: letters_ok_def)
  show "j < people s \<and> MsgSentCnt s' < wanted s" if r: "recipient (spot s' k) = Some j"
  proof -
    have "recipient (spot s k) = Some j" using r same by simp
    then show ?thesis
      using loop_letters(2) [OF assms(1)] alone recipient_holds(1) [of "spot s k" j] assms(3,5) unfolding letters_ok_def by metis
  qed
  show "MsgPtr s' j < capacity s" if r: "room_seen (spot s' k) = Some j"
  proof -
    have old: "room_seen (spot s k) = Some j" "MsgPtr s j < capacity s" using r same assms(3,5) by (auto simp: letters_ok_def)
    have "holds_cnt (spot s k)" using recipient_holds(2) [OF old(1)] by blast
    then have "MsgPtr s' j \<le> MsgPtr s j" using loop_letters(1) [OF assms(1), of j] alone by auto
    then show ?thesis using old(2) by simp
  qed
qed

lemma loop_done:
  assumes "PostOfficeLoop i c (spot s i) s = Inr s'" "i < people s" "letters_ok s" "k < people s"
  shows "(spot s' k = LHome \<longrightarrow> is_done s' k) \<and> (is_done s' k \<longrightarrow> all_read s' \<and> MsgSentCnt s' = wanted s)"
proof -
  note frame = loop_frame [OF assms(1)] and ends = loop_ends [OF assms(1)]
  have stays: "all_read s' \<and> MsgSentCnt s' = wanted s" if "all_read s" "MsgSentCnt s = wanted s"
  proof -
    have "spot s i \<noteq> LGotSendBox j z" for j z using assms(2,3) that(2) unfolding letters_ok_def by (metis less_irrefl recipient.simps(3))
    moreover have "MsgPtr s' j = 0" if "j < people s" for j
      using loop_letters(1) [OF assms(1), of j] \<open>all_read s\<close> calculation that by (auto simp: all_read_def)
    ultimately show ?thesis using loop_letters(2) [OF assms(1)] that(2) frame(1) by (auto simp: all_read_def)
  qed
  show ?thesis
  proof (cases "k = i")
    case True
    have "spot s i = LHome \<Longrightarrow> s' = s" using assms(1) by auto
    moreover have "spot s i = LHome \<longrightarrow> is_done s i" "is_done s i \<longrightarrow> all_read s \<and> MsgSentCnt s = wanted s"
      using assms(2,3) by (auto simp: letters_ok_def)
    ultimately show ?thesis using ends(5,6) stays True by metis
  next
    case False
    then show ?thesis using frame(4) [OF False] ends(4) [OF False] stays assms(3,4) by (auto simp: letters_ok_def)
  qed
qed

lemma loop_keeps_letters:
  assumes "PostOfficeLoop i c (spot s i) s = Inr s'" "i < people s" "letters_ok s" "locks_ok s"
  shows "letters_ok s'"
proof -
  note frame = loop_frame [OF assms(1)] and letters = loop_letters [OF assms(1)] and ends = loop_ends [OF assms(1)]
  have old: "recipient (spot s i) = Some j \<longrightarrow> j < people s \<and> MsgSentCnt s < wanted s" "room_seen (spot s i) = Some j \<longrightarrow> MsgPtr s j < capacity s"
    "will_read (spot s i) \<longrightarrow> 1 \<le> MsgPtr s i" "j < people s \<Longrightarrow> 0 \<le> MsgPtr s j \<and> MsgPtr s j \<le> capacity s" for j
    using assms(2,3) by (auto simp: letters_ok_def)
  have range: "0 \<le> MsgPtr s' j \<and> MsgPtr s' j \<le> capacity s" if "j < people s" for j
    using letters(1) [of j] old(2) [of j] old(4) [OF that] by auto
  have sent: "MsgSentCnt s' \<le> wanted s"
    using letters(2) old(1) assms(3) by (force simp: letters_ok_def)
  have mine: "will_read (spot s' i) \<longrightarrow> 1 \<le> MsgPtr s' i"
    using ends(1) range [OF assms(2)] old(3) letters(1) [of i] by force
  have rcpt: "j < people s \<and> MsgSentCnt s' < wanted s" if "recipient (spot s' i) = Some j" for j
    using ends(2) [OF that] old(1) [of j] assms(2) by auto
  have room: "MsgPtr s' j < capacity s" if "room_seen (spot s' i) = Some j" for j
    using ends(3) [OF that] old(2) [of j] rcpt [of j] recipient_holds(2) [OF that] old(4) [of j] by force
  have each: "(will_read (spot s' k) \<longrightarrow> 1 \<le> MsgPtr s' k) \<and>
      (\<forall>j. recipient (spot s' k) = Some j \<longrightarrow> j < people s \<and> MsgSentCnt s' < wanted s) \<and>
      (\<forall>j. room_seen (spot s' k) = Some j \<longrightarrow> MsgPtr s' j < capacity s)" if "k < people s" for k
    using mine rcpt room loop_other [OF assms that] by (cases "k = i") auto
  show ?thesis
    unfolding letters_ok_def frame(1-3) using range sent each loop_done [OF assms(1-3)] by blast
qed

lemma loop_total:
  assumes "loop_ok s" "i < people s"
  shows "\<exists>s'. PostOfficeLoop i c (spot s i) s = Inr s'"
proof -
  have l: "letters_ok s" "people s \<le> 128" "capacity s \<le> 64" using assms(1) by (auto simp: loop_ok_def)
  have own: "will_read (spot s i) \<Longrightarrow> 1 \<le> MsgPtr s i" "MsgPtr s i \<le> 64" using l assms(2) by (auto simp: letters_ok_def)
  have "j < 128 \<and> 0 \<le> MsgPtr s j \<and> MsgPtr s j < 64" if "spot s i = LGotSendBox j z" for j z
  proof -
    have "j < people s" "MsgPtr s j < capacity s" using l(1) assms(2) that unfolding letters_ok_def by (metis recipient.simps(3), metis room_seen.simps(2))
    then show ?thesis using l unfolding letters_ok_def by auto
  qed
  then show ?thesis
    using own assms(2) l(2) by (cases "spot s i") (auto simp: office_ops slot_exists_def)
qed

interpretation loop_office: task_invariant loop_step n "\<lambda>s. loop_ok s \<and> people s = n" for n
proof unfold_locales
  fix s i c s'
  assume "loop_ok s \<and> people s = n" "i < n" "loop_step i c s = Inr s'"
  then show "loop_ok s' \<and> people s' = n"
    using loop_frame [of i c "spot s i" s s'] loop_locks [of i c s s'] loop_keeps_letters [of i c s s']
    by (auto simp: loop_step_def loop_ok_def)
next
  fix s i c
  assume "loop_ok s \<and> people s = n" "i < n"
  then show "\<exists>s'. loop_step i c s = Inr s'" by (auto simp: loop_step_def loop_total)
qed

lemma loop_start_simps [simp]:
  "people (loop_start p s m) = p" "capacity (loop_start p s m) = int s" "wanted (loop_start p s m) = m" "MsgSentCnt (loop_start p s m) = 0"
  "is_done (loop_start p s m) i = False" "MsgPtr (loop_start p s m) j = 0" "mailboxSemaphore (loop_start p s m) j = 1"
  "MsgCntSemaphore (loop_start p s m) = 1" "spot (loop_start p s m) i = LTop"
  by (simp_all add: loop_start_def office_start_def Office.defs LoopOffice.defs)

lemma loop_start_ok: "2 \<le> p \<Longrightarrow> p \<le> 128 \<Longrightarrow> s \<le> 64 \<Longrightarrow> 0 \<le> m \<Longrightarrow> loop_ok (loop_start p s m)"
  by (simp add: loop_ok_def locks_ok_def letters_ok_def all_read_def count_at_0 [THEN iffD2])

lemma post_loop_is_orderly_parts:
  assumes "2 \<le> p" "p \<le> 128" "s \<le> 64" "0 \<le> m" "runs loop_step p (loop_start p s m) t" "i < p" "j < p"
  shows "\<exists>t'. loop_step i c t = Inr t'"
    and "0 \<le> MsgPtr t j \<and> MsgPtr t j \<le> int s \<and> MsgSentCnt t \<le> m"
    and "holds_cnt (spot t i) \<Longrightarrow> holds_cnt (spot t j) \<Longrightarrow> j = i"
    and "spot t i = LHome \<Longrightarrow> MsgSentCnt t = m \<and> MsgPtr t j = 0"
proof -
  have const: "capacity t = int s \<and> wanted t = m"
    using assms(5) by (induction rule: runs.induct) (auto simp: loop_step_def loop_frame)
  have ok: "loop_ok t" "people t = p"
    using loop_office.runs_good [OF assms(5)] loop_start_ok [OF assms(1-4)] by auto
  show "\<exists>t'. loop_step i c t = Inr t'" using loop_office.block_total ok assms(6) by blast
  show "0 \<le> MsgPtr t j \<and> MsgPtr t j \<le> int s \<and> MsgSentCnt t \<le> m"
    using ok const assms(7) by (auto simp: loop_ok_def letters_ok_def)
  show "holds_cnt (spot t i) \<Longrightarrow> holds_cnt (spot t j) \<Longrightarrow> j = i"
    using one_sender [of t j i] ok assms(6,7) by (auto simp: loop_ok_def)
  show "spot t i = LHome \<Longrightarrow> MsgSentCnt t = m \<and> MsgPtr t j = 0"
    using ok const assms(6,7) by (auto simp: loop_ok_def letters_ok_def all_read_def)
qed

text \<open>The waiting-loop version, task 5, keeps the same promises in every interleaving of at most 128 people with boxes of at most 64
  letters: no slot outside \<open>MailBox\<close> is used, no box holds more than its capacity although only a comparison guards it, one
  person at a time is sending, and whoever goes home knows that all messages have been sent and read.\<close>

theorem post_loop_is_orderly:
  assumes "2 \<le> p" "p \<le> 128" "s \<le> 64" "0 \<le> m" "runs loop_step p (loop_start p s m) t" "i < p" "j < p"
  shows "(\<exists>t'. loop_step i c t = Inr t') \<and> 0 \<le> MsgPtr t j \<and> MsgPtr t j \<le> int s \<and> MsgSentCnt t \<le> m \<and>
    (holds_cnt (spot t i) \<and> holds_cnt (spot t j) \<longrightarrow> j = i) \<and>
    (spot t i = LHome \<longrightarrow> MsgSentCnt t = m \<and> MsgPtr t j = 0)"
  using post_loop_is_orderly_parts [OF assms] by blast

text \<open>The first person is sending, the second waits for the counter.\<close>

lemma post_loop_is_orderly_witness:
  "\<exists>t. runs loop_step 2 (loop_start 2 1 1) t \<and> holds_cnt (spot t 0) \<and> \<not> holds_cnt (spot t 1) \<and> MsgPtr t 1 \<le> 1 \<and>
     (\<exists>t'. loop_step 1 (0, 0) t = Inr t')"
proof -
  have "\<exists>t. schedule loop_step [(0, (0, 0))] (loop_start 2 1 1) = Inr t \<and> holds_cnt (spot t 0)"
    by (simp add: loop_step_def loop_ops)
  then obtain t where t: "schedule loop_step [(0, (0, 0))] (loop_start 2 1 1) = Inr t" "holds_cnt (spot t 0)" by blast
  have r: "runs loop_step 2 (loop_start 2 1 1) t" using schedule_runs [OF t(1) _ runs.start] by simp
  have n: "(2 :: nat) \<le> 2" "(2 :: nat) \<le> 128" "(1 :: nat) \<le> 64" "(0 :: int) \<le> 1" "(0 :: nat) < 2" "(1 :: nat) < 2" by simp_all
  have "\<not> holds_cnt (spot t 1)" using post_loop_is_orderly [OF n(1-4) r n(5,6)] t(2) by force
  moreover have "MsgPtr t 1 \<le> 1" using post_loop_is_orderly [OF n(1-4) r n(5,6)] by simp
  moreover have "\<exists>t'. loop_step 1 (0, 0) t = Inr t'" using post_loop_is_orderly [OF n(1-4) r n(6,6)] by blast
  ultimately show ?thesis using r t(2) by blast
qed

end
