(* ===== verification/Nachos_Input.thy ===== *)
theory Nachos_Input
  imports Nachos_Dinner Nachos_BusyDinner Nachos_PostLoop
begin

section \<open>Typed input and the choice of a task (threads/threadtest.cc)\<close>

text \<open>
  \<open>CheckType\<close>, which classifies a word typed by the user, \<open>promptInput\<close>, which asks until it gets an integer, \<open>Shout\<close>, and
  \<open>ThreadTest\<close>, which sets up the simulations of the theories imported here. A word is a list of characters without the
  terminating NUL. \<open>atoi\<close> and \<open>sprintf("%d")\<close> are the C library's, for a machine whose \<open>long\<close> has 32 bits, where \<open>atoi\<close>
  returns the nearest \<open>int\<close> to a number that is too large. The one-byte buffers into which \<open>sprintf\<close> and \<open>scanf\<close> write are not
  modelled as such: the words are taken as they are.
\<close>

subsection \<open>Numbers and their texts\<close>

definition is_digit :: "char \<Rightarrow> bool" where
  "is_digit c \<longleftrightarrow> 48 \<le> (of_char c :: int) \<and> (of_char c :: int) \<le> 57"

definition digit_value :: "char \<Rightarrow> int" where
  "digit_value c = of_char c - 48"

definition is_space :: "char \<Rightarrow> bool" where
  "is_space c \<longleftrightarrow> (of_char c :: int) = 32 \<or> 9 \<le> (of_char c :: int) \<and> (of_char c :: int) \<le> 13"

definition is_sign :: "char \<Rightarrow> bool" where
  "is_sign c \<longleftrightarrow> c = CHR ''+'' \<or> c = CHR ''-''"

definition to_int :: "int \<Rightarrow> int" where
  "to_int n = max (- (2 ^ 31)) (min (2 ^ 31 - 1) n)"

definition number_of :: "string \<Rightarrow> int" where
  "number_of ds = foldl (\<lambda>v d. 10 * v + digit_value d) 0 ds"

definition atoi :: "string \<Rightarrow> int" where
  "atoi s = (case dropWhile is_space s of [] \<Rightarrow> 0
     | c # cs \<Rightarrow> to_int (if c = CHR ''-'' then - number_of (takeWhile is_digit cs)
         else if c = CHR ''+'' then number_of (takeWhile is_digit cs) else number_of (takeWhile is_digit (c # cs))))"

definition digit_char :: "nat \<Rightarrow> char" where
  "digit_char d = ''0123456789'' ! d"

function decimal :: "nat \<Rightarrow> string" where
  "decimal n = (if n < 10 then [digit_char n] else decimal (n div 10) @ [digit_char (n mod 10)])"
  by pat_completeness auto
termination by (relation "measure id") auto

declare decimal.simps [simp del]

definition sprintf_d :: "int \<Rightarrow> string" where
  "sprintf_d n = (if n < 0 then CHR ''-'' # decimal (nat (- n)) else decimal (nat n))"

subsection \<open>CheckType\<close>

record scan =
  flag :: bool
  num_pt :: nat
  only_sign :: bool
  num_append :: bool

definition scan_char :: "nat \<Rightarrow> char \<Rightarrow> scan \<Rightarrow> scan" where
  "scan_char j c t = (let a = (of_char c :: int) in
     if 48 \<le> a \<and> a \<le> 57 then t\<lparr>only_sign := False, num_append := True\<rparr>
     else if a = 46 then
       (if j = 0 \<or> only_sign t then t\<lparr>flag := True\<rparr>
        else let n = num_pt t + 1 in if n = 1 then t\<lparr>num_pt := n, num_append := False\<rparr> else t\<lparr>num_pt := n, flag := True\<rparr>)
     else if a = 43 \<or> a = 45 then (if j = 0 then t\<lparr>only_sign := True\<rparr> else t\<lparr>flag := True\<rparr>)
     else t\<lparr>flag := True\<rparr>)"

fun scan_word :: "nat \<Rightarrow> string \<Rightarrow> scan \<Rightarrow> scan" where
  "scan_word j [] t = t"
| "scan_word j (c # cs) t = scan_word (Suc j) cs (scan_char j c t)"

definition CheckType :: "string \<Rightarrow> nat" where
  "CheckType str = (let i_str = sprintf_d (atoi str) in
     if str = i_str then (if hd i_str = CHR ''-'' then 2 else if hd str = CHR ''0'' then 0 else 1)
     else let t = scan_word 0 str \<lparr>flag = False, num_pt = 0, only_sign = False, num_append = True\<rparr>
       in if flag t \<or> only_sign t \<or> \<not> num_append t then 5
          else if str \<noteq> [] \<and> hd str = CHR ''-'' then (if str = ''-0'' then 0 else 4) else 3)"

text \<open>\<open>CheckInputOnly\<close>: the line it prints.\<close>

definition CheckInputOnly :: "string \<Rightarrow> string" where
  "CheckInputOnly str = (case CheckType str of 0 \<Rightarrow> ''Input type: Integer 0'' | Suc 0 \<Rightarrow> ''Input type: Positive Integer''
     | Suc (Suc 0) \<Rightarrow> ''Input type: Negative Integer'' | Suc (Suc (Suc 0)) \<Rightarrow> ''Input type: Pos Decimal''
     | Suc (Suc (Suc (Suc 0))) \<Rightarrow> ''Input type: Neg Decimal'' | Suc (Suc (Suc (Suc (Suc 0)))) \<Rightarrow> ''Input type: Character''
     | _ \<Rightarrow> ''Invalid input type!'')"

text \<open>\<open>promptInput\<close>: the words that \<open>scanf\<close> will deliver are given; when they are used up, it repeats the last one for ever.\<close>

fun promptInput :: "nat \<Rightarrow> string list \<Rightarrow> (int \<times> string list) res" where
  "promptInput InputType [] = Inl Diverges"
| "promptInput InputType (w # ws) = (if CheckType w = InputType then Inr (atoi w, ws) else promptInput InputType ws)"

subsection \<open>What the texts mean\<close>

lemma char_digit: "n < 10 \<Longrightarrow> is_digit (digit_char n) \<and> digit_value (digit_char n) = int n"
proof -
  assume "n < 10"
  then have "n \<in> {0, 1, 2, 3, 4, 5, 6, 7, 8, 9}" by auto
  then show ?thesis by (auto simp: is_digit_def digit_value_def digit_char_def)
qed

lemma decimal_digits: "decimal n \<noteq> [] \<and> (\<forall>c\<in>set (decimal n). is_digit c)"
proof (induction n rule: decimal.induct)
  case (1 n)
  then show ?case using char_digit [of n] char_digit [of "n mod 10"] by (subst (1 2) decimal.simps) auto
qed

lemma number_of_decimal: "number_of (decimal n) = int n"
proof (induction n rule: decimal.induct)
  case (1 n)
  show ?case
  proof (cases "n < 10")
    case True
    then show ?thesis using char_digit [of n] by (subst decimal.simps) (simp add: number_of_def)
  next
    case False
    have "number_of (decimal n) = 10 * number_of (decimal (n div 10)) + digit_value (digit_char (n mod 10))"
      using False by (subst decimal.simps) (simp add: number_of_def)
    also have "\<dots> = 10 * int (n div 10) + int (n mod 10)" using 1 False char_digit [of "n mod 10"] by simp
    also have "\<dots> = int n" by (simp add: zdiv_int zmod_int)
    finally show ?thesis .
  qed
qed

lemma digit_no_space: "is_digit c \<Longrightarrow> \<not> is_space c \<and> c \<noteq> CHR ''-'' \<and> c \<noteq> CHR ''+''"
  by (auto simp: is_digit_def is_space_def)

text \<open>Printing an \<open>int\<close> and reading it back.\<close>

lemma atoi_sprintf:
  assumes "- (2 ^ 31) \<le> n" "n < 2 ^ 31"
  shows "atoi (sprintf_d n) = n"
proof -
  have all: "takeWhile is_digit (decimal k) = decimal k" for k using decimal_digits by simp
  obtain c cs where d: "decimal (nat n) = c # cs" using decimal_digits [of "nat n"] by (cases "decimal (nat n)") auto
  have c: "is_digit c" using decimal_digits [of "nat n"] d by auto
  show ?thesis
  proof (cases "n < 0")
    case True
    then show ?thesis using assms by (simp add: sprintf_d_def atoi_def is_space_def all number_of_decimal to_int_def)
  next
    case False
    have "takeWhile is_digit (c # cs) = c # cs" "number_of (c # cs) = n" using all [of "nat n"] number_of_decimal [of "nat n"] d False by simp_all
    then show ?thesis using assms False digit_no_space [OF c] by (simp add: sprintf_d_def atoi_def d to_int_def)
  qed
qed

lemma atoi_range: "- (2 ^ 31) \<le> atoi s \<and> atoi s < 2 ^ 31"
proof -
  have "- (2 ^ 31) \<le> to_int n \<and> to_int n < 2 ^ 31" for n by (auto simp: to_int_def)
  then show ?thesis by (auto simp: atoi_def simp del: power_numeral split: list.split)
qed


lemma decimal_head: "hd (decimal n) = CHR ''0'' \<longleftrightarrow> n = 0"
proof (induction n rule: decimal.induct)
  case (1 n)
  show ?case
  proof (cases "n < 10")
    case True
    then have "n \<in> {0, 1, 2, 3, 4, 5, 6, 7, 8, 9}" by auto
    then show ?thesis using True by (subst decimal.simps) (auto simp: digit_char_def)
  next
    case False
    then show ?thesis using 1 decimal_digits [of "n div 10"] by (subst decimal.simps) (auto simp: div_eq_0_iff)
  qed
qed

lemma sprintf_head: "hd (sprintf_d n) = CHR ''-'' \<longleftrightarrow> n < 0" "hd (sprintf_d n) = CHR ''0'' \<longleftrightarrow> n = 0"
proof -
  have "is_digit (hd (decimal k))" for k using decimal_digits [of k] by (cases "decimal k") auto
  then have "hd (decimal k) \<noteq> CHR ''-''" for k using digit_no_space by metis
  then show "hd (sprintf_d n) = CHR ''-'' \<longleftrightarrow> n < 0" "hd (sprintf_d n) = CHR ''0'' \<longleftrightarrow> n = 0"
    by (auto simp: sprintf_d_def decimal_head)
qed

lemma sprintf_canonical: "s = sprintf_d (atoi s) \<longleftrightarrow> (\<exists>n. - (2 ^ 31) \<le> n \<and> n < 2 ^ 31 \<and> s = sprintf_d n)"
  using atoi_sprintf atoi_range [of s] by metis

subsection \<open>Which words are decimals\<close>

text \<open>A sign or none, digits, and nothing or a point and more digits.\<close>

definition after_digits :: "string \<Rightarrow> bool" where
  "after_digits r \<longleftrightarrow> (case r of [] \<Rightarrow> True | c # f \<Rightarrow> c = CHR ''.'' \<and> f \<noteq> [] \<and> list_all is_digit f)"

definition number_text :: "string \<Rightarrow> bool" where
  "number_text s \<longleftrightarrow> (let u = (if s \<noteq> [] \<and> is_sign (hd s) then tl s else s)
     in takeWhile is_digit u \<noteq> [] \<and> after_digits (dropWhile is_digit u))"

definition accepted :: "scan \<Rightarrow> bool" where
  "accepted t \<longleftrightarrow> \<not> flag t \<and> \<not> only_sign t \<and> num_append t"

lemma scan_flag: "flag t \<Longrightarrow> flag (scan_word j s t)"
  by (induction j s t rule: scan_word.induct) (simp_all add: scan_char_def Let_def)

lemma scan_flagged: "flag (scan_char j c t) \<Longrightarrow> \<not> accepted (scan_word k cs (scan_char j c t))"
  using scan_flag by (auto simp: accepted_def)

lemma point_code: "(of_char c :: int) = 46 \<longleftrightarrow> c = CHR ''.''" "(of_char c :: int) = 43 \<longleftrightarrow> c = CHR ''+''" "(of_char c :: int) = 45 \<longleftrightarrow> c = CHR ''-''"
proof -
  have e: "(of_char c :: int) = of_char d \<longleftrightarrow> c = d" for d by (metis char_of_char)
  show "(of_char c :: int) = 46 \<longleftrightarrow> c = CHR ''.''" "(of_char c :: int) = 43 \<longleftrightarrow> c = CHR ''+''" "(of_char c :: int) = 45 \<longleftrightarrow> c = CHR ''-''"
    using e [of "CHR ''.''"] e [of "CHR ''+''"] e [of "CHR ''-''"] by simp_all
qed

text \<open>\<open>scan_char\<close> in terms of the classes of characters.\<close>

lemma scan_classes:
  "is_digit c \<Longrightarrow> scan_char j c t = t\<lparr>only_sign := False, num_append := True\<rparr>"
  "c = CHR ''.'' \<Longrightarrow> j = 0 \<or> only_sign t \<Longrightarrow> flag (scan_char j c t)"
  "c = CHR ''.'' \<Longrightarrow> 0 < num_pt t \<Longrightarrow> flag (scan_char j c t)"
  "c = CHR ''.'' \<Longrightarrow> 0 < j \<Longrightarrow> \<not> only_sign t \<Longrightarrow> num_pt t = 0 \<Longrightarrow> scan_char j c t = t\<lparr>num_pt := 1, num_append := False\<rparr>"
  "is_sign c \<Longrightarrow> scan_char 0 c t = t\<lparr>only_sign := True\<rparr>"
  "is_sign c \<Longrightarrow> 0 < j \<Longrightarrow> flag (scan_char j c t)"
  "\<not> is_digit c \<Longrightarrow> c \<noteq> CHR ''.'' \<Longrightarrow> \<not> is_sign c \<Longrightarrow> flag (scan_char j c t)"
  by (auto simp: scan_char_def Let_def is_digit_def is_sign_def point_code)

lemma digit_classes: "is_digit c \<Longrightarrow> c \<noteq> CHR ''.'' \<and> \<not> is_sign c"
  by (auto simp: is_digit_def is_sign_def)

lemma sign_not_point: "is_sign c \<Longrightarrow> c \<noteq> CHR ''.''"
  by (auto simp: is_sign_def)

lemma scan_fraction:
  "0 < j \<Longrightarrow> 0 < num_pt t \<Longrightarrow> \<not> flag t \<Longrightarrow> \<not> only_sign t \<Longrightarrow>
     accepted (scan_word j s t) \<longleftrightarrow> list_all is_digit s \<and> (s \<noteq> [] \<or> num_append t)"
proof (induction j s t rule: scan_word.induct)
  case (2 j c cs t)
  show ?case
  proof (cases "is_digit c")
    case True
    then show ?thesis using 2 by (simp add: scan_classes(1))
  next
    case False
    then have "flag (scan_char j c t)" using 2 scan_classes(3,6,7) [of c] by metis
    then show ?thesis using scan_flagged False by simp
  qed
qed (simp add: accepted_def)

lemma scan_digits:
  "0 < j \<Longrightarrow> num_pt t = 0 \<Longrightarrow> \<not> flag t \<Longrightarrow> \<not> only_sign t \<Longrightarrow> num_append t \<Longrightarrow>
     accepted (scan_word j s t) \<longleftrightarrow> after_digits (dropWhile is_digit s)"
proof (induction j s t rule: scan_word.induct)
  case (2 j c cs t)
  consider "is_digit c" | "c = CHR ''.''" | "\<not> is_digit c" "c \<noteq> CHR ''.''" by blast
  then show ?case
  proof cases
    case 1
    then show ?thesis using 2 by (simp add: scan_classes(1))
  next
    case 2: 2
    then have "\<not> is_digit c" using digit_classes by blast
    then show ?thesis using 2 "2.prems" by (simp add: scan_classes(4) scan_fraction after_digits_def conj_commute)
  next
    case 3
    then have "flag (scan_char j c t)" using 2 scan_classes(6,7) [of c] by metis
    then show ?thesis using scan_flagged 3 by (simp add: after_digits_def)
  qed
qed (simp add: accepted_def after_digits_def)

lemma scan_number:
  "accepted (scan_word 0 s \<lparr>flag = False, num_pt = 0, only_sign = False, num_append = True\<rparr>) \<longleftrightarrow> s = [] \<or> number_text s"
proof (cases s)
  case (Cons c cs)
  let ?t = "\<lparr>flag = False, num_pt = 0, only_sign = False, num_append = True\<rparr>"
  consider "is_digit c" | "is_sign c" "\<not> is_digit c" | "\<not> is_digit c" "\<not> is_sign c" using digit_classes by blast
  then show ?thesis
  proof cases
    case 1
    then show ?thesis using Cons digit_classes [of c] by (simp add: scan_classes(1) scan_digits number_text_def)
  next
    case 2
    show ?thesis
    proof (cases cs)
      case Nil
      then show ?thesis using Cons 2 by (simp add: scan_classes(5) number_text_def accepted_def)
    next
      case cs: (Cons b bs)
      show ?thesis
      proof (cases "is_digit b")
        case True
        then show ?thesis using Cons cs 2 by (simp add: scan_classes(1,5) scan_digits number_text_def)
      next
        case False
        have "flag (scan_char 1 b (scan_char 0 c ?t))"
          using False 2 scan_classes(2,6,7) [of b 1 "scan_char 0 c ?t"] scan_classes(5) [of c ?t] by (cases "b = CHR ''.''"; cases "is_sign b") auto
        then show ?thesis using Cons cs 2 False scan_flagged [of 1 b] by (simp add: number_text_def)
      qed
    qed
  next
    case 3
    then have "flag (scan_char 0 c ?t)" using scan_classes(2,7) [of c] by metis
    then show ?thesis using Cons 3 scan_flagged by (simp add: number_text_def)
  qed
qed (simp add: accepted_def)


lemma zero_text: "sprintf_d 0 = ''0''" "''-0'' \<noteq> sprintf_d n" "number_text ''-0''"
proof -
  show z: "sprintf_d 0 = ''0''" by (simp add: sprintf_d_def decimal.simps digit_char_def)
  show "''-0'' \<noteq> sprintf_d n"
  proof
    assume e: "''-0'' = sprintf_d n"
    then have "n < 0" using sprintf_head(1) [of n] by (metis list.sel(1))
    then have "decimal (nat (- n)) = ''0''" using e by (simp add: sprintf_d_def)
    then show False using decimal_head [of "nat (- n)"] \<open>n < 0\<close> by simp
  qed
  show "number_text ''-0''" by (simp add: number_text_def is_sign_def is_digit_def after_digits_def)
qed

text \<open>C37. \<open>CheckType\<close> says 0 of \<open>0\<close> and \<open>-0\<close>, 1 exactly of the texts that \<open>printf("%d")\<close> prints for a positive \<open>int\<close>, 2 of those of a
  negative one, 5 of everything else that is not a decimal number, and 4 or 3 of the other decimals by their sign (integers with
  leading zeros, with a plus sign or too large for an \<open>int\<close> among them, and the empty word).\<close>

theorem CheckType_meaning:
  "CheckType s = (if s = ''0'' \<or> s = ''-0'' then 0
     else if \<exists>n. 0 < n \<and> n < 2 ^ 31 \<and> s = sprintf_d n then 1
     else if \<exists>n. - (2 ^ 31) \<le> n \<and> n < 0 \<and> s = sprintf_d n then 2
     else if s \<noteq> [] \<and> \<not> number_text s then 5
     else if s \<noteq> [] \<and> hd s = CHR ''-'' then 4 else 3)"
proof (cases "s = sprintf_d (atoi s)")
  case True
  note range = atoi_range [of s] and h = sprintf_head [of "atoi s", folded True]
  have other: "s = sprintf_d n \<Longrightarrow> - (2 ^ 31) \<le> n \<Longrightarrow> n < 2 ^ 31 \<Longrightarrow> n = atoi s" for n using atoi_sprintf by metis
  consider "atoi s = 0" | "0 < atoi s" | "atoi s < 0" by linarith
  then show ?thesis
  proof cases
    case 1
    then show ?thesis using True zero_text(1) h by (simp add: CheckType_def Let_def)
  next
    case 2
    then have "s \<noteq> ''0''" "s \<noteq> ''-0''" using h zero_text(2) True by auto
    then show ?thesis using 2 True range h by (auto simp: CheckType_def Let_def)
  next
    case 3
    then have "s \<noteq> ''0''" "s \<noteq> ''-0''" using h zero_text(2) True by auto
    moreover have "\<not> (\<exists>n. 0 < n \<and> n < 2 ^ 31 \<and> s = sprintf_d n)" using other 3 by force
    ultimately show ?thesis using 3 True range h by (auto simp: CheckType_def Let_def)
  qed
next
  case False
  then have none: "\<not> (\<exists>n. - (2 ^ 31) \<le> n \<and> n < 2 ^ 31 \<and> s = sprintf_d n)" using sprintf_canonical by blast
  then have "s \<noteq> ''0''" using zero_text(1) exI [of "\<lambda>n. - (2 ^ 31) \<le> n \<and> n < 2 ^ 31 \<and> s = sprintf_d n" 0] by auto
  moreover have "\<not> (\<exists>n. 0 < n \<and> n < 2 ^ 31 \<and> s = sprintf_d n)" "\<not> (\<exists>n. - (2 ^ 31) \<le> n \<and> n < 0 \<and> s = sprintf_d n)"
    using none by force+
  ultimately show ?thesis
    using False scan_number [of s] zero_text(3) by (auto simp: CheckType_def Let_def accepted_def)
qed

lemma CheckType_positive: "CheckType s = 1 \<Longrightarrow> s = sprintf_d (atoi s) \<and> 0 < atoi s"
  using sprintf_head [of "atoi s"] by (simp add: CheckType_def Let_def split: if_splits)

text \<open>What \<open>promptInput(1)\<close> returns was typed as it stands, and is a positive \<open>int\<close>.\<close>

lemma promptInput_positive:
  "promptInput 1 ws = Inr (n, rest) \<Longrightarrow> 0 < n \<and> n < 2 ^ 31 \<and> sprintf_d n \<in> set ws \<and> length rest < length ws"
proof (induction "1 :: nat" ws rule: promptInput.induct)
  case (2 w ws)
  show ?case
  proof (cases "CheckType w = 1")
    case True
    then show ?thesis using 2 True CheckType_positive [OF True] atoi_range [of w] by auto
  next
    case False
    then show ?thesis using 2 by auto
  qed
qed simp


subsection \<open>ThreadTest\<close>

text \<open>What the run of \<open>ThreadTest\<close> leaves: the threads it has forked are those of the simulation, in its initial state.\<close>

datatype simulation = NoOption | WrongOption | NoTask | TypeCheck | Shouters int int | WaitingDinner Table | SemaphoreDinner Dinner
  | WaitingOffice LoopOffice | SemaphoreOffice "visit_spot Office"

function promptPeople :: "string list \<Rightarrow> (int \<times> string list) res" where
  "promptPeople ws = andThen (promptInput 1 ws) (\<lambda>(p, rest). if p \<le> 1 then promptPeople rest else Inr (p, rest))"
  by pat_completeness auto
termination by (relation "measure length") (auto dest: promptInput_positive [unfolded One_nat_def])

declare promptPeople.simps [simp del]

definition promptDinner :: "(nat \<Rightarrow> int \<Rightarrow> simulation) \<Rightarrow> string list \<Rightarrow> (simulation \<times> string list) res" where
  "promptDinner begin_dinner ws = andThen (promptPeople ws) (\<lambda>(p, ws1). andThen (promptInput 1 ws1) (\<lambda>(m, ws2). Inr (begin_dinner (nat p) m, ws2)))"

definition promptOffice :: "(nat \<Rightarrow> nat \<Rightarrow> int \<Rightarrow> simulation) \<Rightarrow> string list \<Rightarrow> (simulation \<times> string list) res" where
  "promptOffice open_office ws = andThen (promptPeople ws) (\<lambda>(p, ws1). andThen (promptInput 1 ws1) (\<lambda>(s, ws2).
     andThen (promptInput 1 ws2) (\<lambda>(m, ws3). Inr (open_office (nat p) (nat s) m, ws3))))"

definition ThreadTest :: "string option \<Rightarrow> string list \<Rightarrow> (simulation \<times> string list) res" where
  "ThreadTest selectArgs ws = (case selectArgs of None \<Rightarrow> Inr (NoOption, ws)
     | Some a \<Rightarrow> if CheckType a = 1 then let Task = atoi a in
         if Task = 1 then Inr (TypeCheck, ws)
         else if Task = 2 then andThen (promptInput 1 ws) (\<lambda>(t, ws1). andThen (promptInput 1 ws1) (\<lambda>(n, ws2). Inr (Shouters t n, ws2)))
         else if Task = 3 then promptDinner (\<lambda>p m. WaitingDinner (table_start p m)) ws
         else if Task = 4 then promptDinner (\<lambda>p m. SemaphoreDinner (dinner_start p m)) ws
         else if Task = 5 then promptOffice (\<lambda>p s m. WaitingOffice (loop_start p s m)) ws
         else if Task = 6 then promptOffice (\<lambda>p s m. SemaphoreOffice (office_start p s m Top)) ws
         else Inr (NoTask, ws)
       else Inr (WrongOption, ws))"

lemma promptPeople_many: "promptPeople ws = Inr (p, rest) \<Longrightarrow> 2 \<le> p"
proof (induction ws rule: promptPeople.induct)
  case (1 ws)
  obtain q rest' where q: "promptInput 1 ws = Inr (q, rest')" "(if q \<le> 1 then promptPeople rest' else Inr (q, rest')) = Inr (p, rest)"
    using "1.prems" unfolding promptPeople.simps [of ws] by (auto simp: res_simps)
  show ?case using q "1.IH" [OF q(1) refl] by (cases "q \<le> 1") auto
qed

text \<open>
  Whatever is typed, a dinner starts in a state that satisfies its invariant, and so does an office
  whose numbers fit the array; nothing makes them fit.
\<close>

fun starts_well :: "simulation \<Rightarrow> bool" where
  "starts_well (WaitingDinner t) = table_ok t"
| "starts_well (SemaphoreDinner d) = dinner_ok d"
| "starts_well (WaitingOffice s) \<longleftrightarrow> people s \<le> 128 \<and> capacity s \<le> 64 \<longrightarrow> loop_ok s"
| "starts_well (SemaphoreOffice s) \<longleftrightarrow> people s \<le> 128 \<and> capacity s \<le> 64 \<longrightarrow> office_ok s"
| "starts_well sim = True"

lemma ThreadTest_starts_well:
  assumes "ThreadTest selectArgs ws = Inr (sim, rest)"
  shows "starts_well sim"
proof -
  have dinner: "\<exists>p m. 2 \<le> p \<and> 0 \<le> m \<and> sim = f p m" if "promptDinner f ws = Inr (sim, rest)" for f
  proof -
    note e = that
    obtain p m ws1 ws2 where "promptPeople ws = Inr (p, ws1)" "promptInput 1 ws1 = Inr (m, ws2)" "sim = f (nat p) m"
      using e by (auto simp: promptDinner_def res_simps)
    then show ?thesis using promptPeople_many [of ws p ws1] promptInput_positive [of ws1 m ws2] by (intro exI [of _ "nat p"] exI [of _ m]) simp
  qed
  have office: "\<exists>p s m. 2 \<le> p \<and> 0 \<le> m \<and> sim = f p s m" if "promptOffice f ws = Inr (sim, rest)" for f
  proof -
    note e = that
    obtain p c m ws1 ws2 ws3 where "promptPeople ws = Inr (p, ws1)" "promptInput 1 ws2 = Inr (m, ws3)" "sim = f (nat p) (nat c) m"
      using e by (auto simp: promptOffice_def res_simps)
    then show ?thesis using promptPeople_many [of ws p ws1] promptInput_positive [of ws2 m ws3]
      by (intro exI [of _ "nat p"] exI [of _ "nat c"] exI [of _ m]) simp
  qed
  have so: "people (office_start p s m Top) = p" "capacity (office_start p s m Top) = int s" for p s m by (simp_all add: office_start_def)
  show ?thesis
    using assms dinner office table_start_ok dinner_start_ok office_start_ok loop_start_ok
    by (auto simp: ThreadTest_def Let_def res_simps so split: option.splits if_splits; fastforce simp: so)
qed

subsection \<open>Shout\<close>

text \<open>The shouters of task 2: how often each has shouted, the yields it has left, and what was printed, latest first.\<close>

record Hall =
  NumShout :: int
  shouted :: "nat \<Rightarrow> nat"
  yields :: "nat \<Rightarrow> nat"
  printed :: "(nat \<times> nat \<times> nat) list"

definition hall_start :: "int \<Rightarrow> Hall" where
  "hall_start n = \<lparr>NumShout = n, shouted = (\<lambda>_. 0), yields = (\<lambda>_. 0), printed = []\<rparr>"

definition Shout :: "nat \<Rightarrow> draws \<Rightarrow> Hall \<Rightarrow> Hall" where
  "Shout which c h = (if yields h which \<noteq> 0 then h\<lparr>yields := (yields h)(which := yields h which - 1)\<rparr>
     else if int (shouted h which) < NumShout h
     then h\<lparr>shouted := (shouted h)(which := shouted h which + 1), yields := (yields h)(which := stallCycle c - 1),
            printed := (which, shouted h which + 1, snd c mod 6) # printed h\<rparr>
     else h)"

definition shout_step :: "Hall task" where
  "shout_step which c h = Inr (Shout which c h)"

definition hall_ok :: "Hall \<Rightarrow> bool" where
  "hall_ok h \<longleftrightarrow> 0 \<le> NumShout h \<and> (\<forall>i. int (shouted h i) \<le> NumShout h \<and>
     map (\<lambda>(w, k, j). k) (filter (\<lambda>(w, k, j). w = i) (rev (printed h))) = [1..<Suc (shouted h i)])"

interpretation shouting: task_invariant shout_step n hall_ok for n
proof unfold_locales
  fix h i c h'
  assume "hall_ok h" "i < n" "shout_step i c h = Inr h'"
  then show "hall_ok h'" by (auto simp: shout_step_def Shout_def hall_ok_def split: if_splits)
qed (simp add: shout_step_def)

text \<open>Every shouter's lines are numbered 1, 2, 3 and so on, at most \<open>NumShout\<close> of them, whatever the interleaving.\<close>

lemma shouts_in_order:
  assumes "0 \<le> m" "runs shout_step n (hall_start m) h"
  shows "int (shouted h i) \<le> NumShout h"
    and "map (\<lambda>(w, k, j). k) (filter (\<lambda>(w, k, j). w = i) (rev (printed h))) = [1..<Suc (shouted h i)]"
  using shouting.runs_good [OF assms(2)] assms(1) by (auto simp: hall_ok_def hall_start_def)

end
