(* ===== verification/Nachos_Disk.thy ===== *)
theory Nachos_Disk
  imports Nachos_Interrupt Nachos_Bytes Nachos_Tasks
begin

section \<open>The disk and its synchronous interface (machine/disk.cc, filesys/synchdisk.cc)\<close>

text \<open>
  The simulated disk: a UNIX file that starts with a magic number, the position of the head and the start of the track
  buffer, on top of the interrupt emulation, which it asks for an interrupt when a request ends. \<open>unix_read\<close> and
  \<open>unix_write\<close> are \<open>Lseek\<close> followed by \<open>Read\<close> or \<open>WriteFile\<close> inside the file. Then \<open>SynchDisk\<close>, whose lock
  is one of the empty locks of \<open>synch.cc\<close>.
\<close>

definition SectorsPerTrack :: int where "SectorsPerTrack = 32"
definition NumTracks :: int where "NumTracks = 32"
definition NumSectors :: int where "NumSectors = SectorsPerTrack * NumTracks"
definition MagicNumber :: "32 word" where "MagicNumber = 0x456789ab"
definition MagicSize :: nat where "MagicSize = 4"
definition DiskSize :: nat where "DiskSize = MagicSize + nat NumSectors * SectorSize"

lemmas disk_sizes = SectorsPerTrack_def NumTracks_def NumSectors_def MagicSize_def DiskSize_def SectorSize_def

record DiskState = IntState +
  diskFile :: "8 word list"
  active :: bool
  lastSector :: int
  bufferInit :: int

definition unix_read :: "8 word list \<Rightarrow> nat \<Rightarrow> nat \<Rightarrow> 8 word list" where
  "unix_read f pos n = take n (drop pos f)"

definition unix_write :: "8 word list \<Rightarrow> nat \<Rightarrow> 8 word list \<Rightarrow> 8 word list" where
  "unix_write f pos bs = overwrite f pos bs"

text \<open>The constructor, with the file found under the name, if there is one.\<close>

definition Disk_new :: "8 word list option \<Rightarrow> 'a DiskState_scheme \<Rightarrow> 'a DiskState_scheme res" where
  "Disk_new existing d = (let d0 = d\<lparr>lastSector := 0, bufferInit := 0\<rparr> in case existing of
     Some f \<Rightarrow> ASSERT (MagicSize \<le> length f) (ASSERT (bytes_word (unix_read f 0 MagicSize) = MagicNumber)
       (Inr (d0\<lparr>diskFile := f, active := False\<rparr>)))
   | None \<Rightarrow> Inr (d0\<lparr>diskFile := word_bytes MagicNumber @ replicate (DiskSize - MagicSize) 0, active := False\<rparr>))"

subsection \<open>Timing\<close>

definition TimeToSeek :: "int \<Rightarrow> 'a DiskState_scheme \<Rightarrow> int \<times> int" where
  "TimeToSeek newSector d =
     (let newTrack = newSector sdiv SectorsPerTrack; oldTrack = lastSector d sdiv SectorsPerTrack;
          seek = \<bar>newTrack - oldTrack\<bar> * SeekTime; over = (totalTicks (stats d) + seek) smod RotationTime
      in (seek, if over > 0 then RotationTime - over else 0))"

definition ModuloDiff :: "int \<Rightarrow> int \<Rightarrow> int" where
  "ModuloDiff to from = ((to smod SectorsPerTrack - from smod SectorsPerTrack) + SectorsPerTrack) smod SectorsPerTrack"

definition ComputeLatency :: "int \<Rightarrow> bool \<Rightarrow> 'a DiskState_scheme \<Rightarrow> int" where
  "ComputeLatency newSector writing d =
     (let (seek, rotation) = TimeToSeek newSector d; timeAfter = totalTicks (stats d) + seek + rotation
      in if \<not> writing \<and> seek = 0 \<and>
            (timeAfter - bufferInit d) sdiv RotationTime > ModuloDiff newSector (bufferInit d sdiv RotationTime)
         then RotationTime
         else seek + (rotation + ModuloDiff newSector (timeAfter sdiv RotationTime) * RotationTime) + RotationTime)"

definition UpdateLast :: "int \<Rightarrow> 'a DiskState_scheme \<Rightarrow> 'a DiskState_scheme" where
  "UpdateLast newSector d = (let (seek, rotate) = TimeToSeek newSector d
     in (if seek \<noteq> 0 then d\<lparr>bufferInit := totalTicks (stats d) + seek + rotate\<rparr> else d)\<lparr>lastSector := newSector\<rparr>)"

subsection \<open>Requests\<close>

definition sector_pos :: "int \<Rightarrow> nat" where
  "sector_pos sectorNumber = SectorSize * nat sectorNumber + MagicSize"

definition ReadRequest :: "int \<Rightarrow> 'a DiskState_scheme \<Rightarrow> (8 word list \<times> 'a DiskState_scheme) res" where
  "ReadRequest sectorNumber d = (let ticks = ComputeLatency sectorNumber False d in
     ASSERT (\<not> active d) (ASSERT (sectorNumber \<ge> 0 \<and> sectorNumber < NumSectors)
       (let data = unix_read (diskFile d) (sector_pos sectorNumber) SectorSize;
            d1 = UpdateLast sectorNumber (d\<lparr>active := True\<rparr>);
            d2 = d1\<lparr>stats := (stats d1)\<lparr>numDiskReads := numDiskReads (stats d1) + 1\<rparr>\<rparr>
        in andThen (Schedule DiskDone 0 ticks DiskInt d2) (\<lambda>d3. Inr (data, d3)))))"

definition WriteRequest :: "int \<Rightarrow> 8 word list \<Rightarrow> 'a DiskState_scheme \<Rightarrow> 'a DiskState_scheme res" where
  "WriteRequest sectorNumber data d = (let ticks = ComputeLatency sectorNumber True d in
     ASSERT (\<not> active d) (ASSERT (sectorNumber \<ge> 0 \<and> sectorNumber < NumSectors)
       (let d0 = d\<lparr>diskFile := unix_write (diskFile d) (sector_pos sectorNumber) data\<rparr>;
            d1 = UpdateLast sectorNumber (d0\<lparr>active := True\<rparr>);
            d2 = d1\<lparr>stats := (stats d1)\<lparr>numDiskWrites := numDiskWrites (stats d1) + 1\<rparr>\<rparr>
        in Schedule DiskDone 0 ticks DiskInt d2)))"

definition Disk_HandleInterrupt :: "('a DiskState_scheme \<Rightarrow> 'a DiskState_scheme res) \<Rightarrow> 'a DiskState_scheme \<Rightarrow> 'a DiskState_scheme res" where
  "Disk_HandleInterrupt requestDone d = requestDone (d\<lparr>active := False\<rparr>)"

subsection \<open>How long a request takes\<close>

definition disk_ok :: "'a DiskState_scheme \<Rightarrow> bool" where
  "disk_ok d \<longleftrightarrow> length (diskFile d) = DiskSize \<and> 0 \<le> lastSector d \<and> lastSector d < NumSectors \<and> 0 \<le> bufferInit d \<and>
     0 \<le> totalTicks (stats d)"

lemma ModuloDiff_range: "0 \<le> a \<Longrightarrow> 0 \<le> b \<Longrightarrow> 0 \<le> ModuloDiff a b \<and> ModuloDiff a b < SectorsPerTrack"
proof -
  assume nn: "0 \<le> a" "0 \<le> b"
  have "0 \<le> a mod 32 - b mod 32 + 32" using pos_mod_bound [of 32 b] pos_mod_sign [of 32 a] by linarith
  then show ?thesis using nn by (simp add: ModuloDiff_def SectorsPerTrack_def smod_nonneg)
qed

lemma TimeToSeek_range:
  assumes "disk_ok d" "0 \<le> newSector" "newSector < NumSectors" "TimeToSeek newSector d = (seek, rotation)"
  shows "0 \<le> seek" "seek \<le> 31 * SeekTime" "0 \<le> rotation" "rotation < RotationTime"
proof -
  have tracks: "0 \<le> newSector div 32" "newSector div 32 \<le> 31" "0 \<le> lastSector d div 32" "lastSector d div 32 \<le> 31"
    using assms(1-3) by (auto simp: disk_ok_def disk_sizes)
  have s: "seek = \<bar>newSector div 32 - lastSector d div 32\<bar> * 500"
    and r: "rotation = (let over = (totalTicks (stats d) + seek) mod 500 in if over > 0 then 500 - over else 0)"
    using assms by (auto simp: TimeToSeek_def Let_def disk_ok_def disk_sizes tick_defs sdiv_nonneg smod_nonneg)
  show seek: "0 \<le> seek" "seek \<le> 31 * SeekTime" using tracks unfolding s by (auto simp: SeekTime_def)
  have "0 \<le> (totalTicks (stats d) + seek) mod 500" "(totalTicks (stats d) + seek) mod 500 < 500" by simp_all
  then show "0 \<le> rotation" "rotation < RotationTime" unfolding r by (auto simp: Let_def RotationTime_def)
qed

text \<open>Every request takes between one sector time and a seek over all tracks and a full turn of the disk.\<close>

lemma ComputeLatency_range:
  assumes "disk_ok d" "0 \<le> newSector" "newSector < NumSectors"
  shows "RotationTime \<le> ComputeLatency newSector writing d"
    and "ComputeLatency newSector writing d < 31 * SeekTime + (SectorsPerTrack + 1) * RotationTime"
proof -
  obtain seek rotation where t: "TimeToSeek newSector d = (seek, rotation)" by fastforce
  note r = TimeToSeek_range [OF assms t]
  let ?after = "(totalTicks (stats d) + seek + rotation) sdiv RotationTime"
  have "0 \<le> ?after" using r assms(1) by (simp add: disk_ok_def RotationTime_def sdiv_nonneg pos_imp_zdiv_nonneg_iff)
  then have m: "0 \<le> ModuloDiff newSector ?after" "ModuloDiff newSector ?after \<le> 31"
    using ModuloDiff_range [OF assms(2), of ?after] by (simp_all add: SectorsPerTrack_def)
  then have "0 \<le> ModuloDiff newSector ?after * RotationTime" "ModuloDiff newSector ?after * RotationTime \<le> 31 * RotationTime"
    by (simp_all add: RotationTime_def)
  then show "RotationTime \<le> ComputeLatency newSector writing d"
    "ComputeLatency newSector writing d < 31 * SeekTime + (SectorsPerTrack + 1) * RotationTime"
    using r by (auto simp: ComputeLatency_def t Let_def SectorsPerTrack_def RotationTime_def SeekTime_def)
qed


definition sector_data :: "int \<Rightarrow> 'a DiskState_scheme \<Rightarrow> 8 word list" where
  "sector_data n d = unix_read (diskFile d) (sector_pos n) SectorSize"

lemma sector_inside: "0 \<le> n \<Longrightarrow> n < NumSectors \<Longrightarrow> sector_pos n + SectorSize \<le> DiskSize"
  by (simp add: sector_pos_def disk_sizes)

lemma sector_apart: "0 \<le> n \<Longrightarrow> 0 \<le> k \<Longrightarrow> n \<noteq> k \<Longrightarrow> sector_pos k + SectorSize \<le> sector_pos n \<or> sector_pos n + SectorSize \<le> sector_pos k"
  by (simp add: sector_pos_def SectorSize_def) linarith

lemma UpdateLast_frame [simp]:
  "stats (UpdateLast n d) = stats d" "pending (UpdateLast n d) = pending d" "diskFile (UpdateLast n d) = diskFile d"
  "active (UpdateLast n d) = active d" "lastSector (UpdateLast n d) = n"
  by (simp_all add: UpdateLast_def split: prod.split)

lemma UpdateLast_buffer:
  assumes "disk_ok d" "0 \<le> n" "n < NumSectors"
  shows "0 \<le> bufferInit (UpdateLast n d)"
  using assms TimeToSeek_range [OF assms, of "fst (TimeToSeek n d)" "snd (TimeToSeek n d)"]
  by (auto simp: UpdateLast_def disk_ok_def split_beta)

text \<open>What a request leaves: the head at the sector, one interrupt more, the data read or stored.\<close>

lemma ReadRequest_spec:
  assumes "disk_ok d" "\<not> active d" "0 \<le> n" "n < NumSectors"
  shows "\<exists>d'. ReadRequest n d = Inr (sector_data n d, d') \<and> disk_ok d' \<and> active d' \<and> diskFile d' = diskFile d \<and> lastSector d' = n \<and>
    numDiskReads (stats d') = numDiskReads (stats d) + 1 \<and>
    pending d' = seq_insert (pending d) (PendingInterrupt_new DiskDone 0 (totalTicks (stats d) + ComputeLatency n False d) DiskInt)
      (totalTicks (stats d) + ComputeLatency n False d)"
proof -
  have pos: "0 < ComputeLatency n False d" using ComputeLatency_range(1) [OF assms(1,3,4), of False] by (simp add: RotationTime_def)
  have a: "disk_ok (d\<lparr>active := True\<rparr>)" using assms(1) by (simp add: disk_ok_def)
  show ?thesis
    using assms pos UpdateLast_buffer [OF a assms(3,4)]
    by (simp add: ReadRequest_def Schedule_def sector_data_def disk_ok_def Let_def)
qed

lemma WriteRequest_spec:
  assumes "disk_ok d" "\<not> active d" "0 \<le> n" "n < NumSectors" "length data = SectorSize"
  shows "\<exists>d'. WriteRequest n data d = Inr d' \<and> disk_ok d' \<and> active d' \<and> sector_data n d' = data \<and> lastSector d' = n \<and>
    (\<forall>k. 0 \<le> k \<and> k < NumSectors \<and> k \<noteq> n \<longrightarrow> sector_data k d' = sector_data k d) \<and> take MagicSize (diskFile d') = take MagicSize (diskFile d) \<and>
    pending d' = seq_insert (pending d) (PendingInterrupt_new DiskDone 0 (totalTicks (stats d) + ComputeLatency n True d) DiskInt)
      (totalTicks (stats d) + ComputeLatency n True d)"
proof -
  have pos: "0 < ComputeLatency n True d" using ComputeLatency_range(1) [OF assms(1,3,4), of True] by (simp add: RotationTime_def)
  have room: "sector_pos n + length data \<le> length (diskFile d)" using sector_inside [OF assms(3,4)] assms(1,5) by (simp add: disk_ok_def)
  let ?f = "overwrite (diskFile d) (sector_pos n) data"
  have a: "disk_ok (d\<lparr>diskFile := ?f, active := True\<rparr>)" using assms(1) room by (simp add: disk_ok_def)
  have same: "take SectorSize (drop (sector_pos k) ?f) = take SectorSize (drop (sector_pos k) (diskFile d))"
    if "0 \<le> k" "k < NumSectors" "k \<noteq> n" for k
    using sector_apart [OF assms(3) that(1)] sector_inside [OF that(1,2)] that(3) room assms(1,5)
    by (intro take_drop_overwrite_other) (auto simp: disk_ok_def)
  have magic: "take MagicSize ?f = take MagicSize (diskFile d)"
    using room by (simp add: overwrite_def sector_pos_def MagicSize_def)
  have mine: "take SectorSize (drop (sector_pos n) ?f) = data" using room assms(5) by simp
  show ?thesis
    using assms pos room UpdateLast_buffer [OF a assms(3,4)] same mine magic
    by (simp add: WriteRequest_def Schedule_def sector_data_def disk_ok_def Let_def unix_write_def unix_read_def)
qed


lemma Disk_interrupt_ok: "disk_ok (d\<lparr>active := False\<rparr>) = disk_ok d" "sector_data n (d\<lparr>active := False\<rparr>) = sector_data n d"
  by (simp_all add: disk_ok_def sector_data_def)

text \<open>C29. What is written to a sector is read back from it once the interrupt of the write has come, and all other sectors keep their
  contents; each request makes the disk busy and schedules its interrupt, in order of time, at least one sector time ahead, so the
  assertion in \<open>Schedule\<close> cannot fail. A request to a busy disk or outside it fails an assertion.\<close>

theorem disk_write_read:
  assumes "disk_ok d" "\<not> active d" "0 \<le> n" "n < NumSectors" "length data = SectorSize"
  shows "\<exists>d1 d2 rest. WriteRequest n data d = Inr d1 \<and> active d1 \<and> ReadRequest n d1 = Inl Assertion \<and>
      pending d1 = seq_insert (pending d) (PendingInterrupt_new DiskDone 0 (totalTicks (stats d) + rest) DiskInt) (totalTicks (stats d) + rest) \<and>
      RotationTime \<le> rest \<and> rest < 31 * SeekTime + (SectorsPerTrack + 1) * RotationTime \<and>
      Disk_HandleInterrupt Inr d1 = Inr d2 \<and>
      (\<forall>k. 0 \<le> k \<and> k < NumSectors \<longrightarrow> (\<exists>d3. ReadRequest k d2 = Inr (if k = n then data else sector_data k d, d3))) \<and>
      (\<forall>k. k < 0 \<or> NumSectors \<le> k \<longrightarrow> ReadRequest k d2 = Inl Assertion \<and> WriteRequest k data d2 = Inl Assertion)"
proof -
  obtain d1 where w: "WriteRequest n data d = Inr d1" "disk_ok d1" "active d1" "sector_data n d1 = data"
    "\<forall>k. 0 \<le> k \<and> k < NumSectors \<and> k \<noteq> n \<longrightarrow> sector_data k d1 = sector_data k d"
    "pending d1 = seq_insert (pending d) (PendingInterrupt_new DiskDone 0 (totalTicks (stats d) + ComputeLatency n True d) DiskInt)
      (totalTicks (stats d) + ComputeLatency n True d)"
    using WriteRequest_spec [OF assms] by blast
  let ?d2 = "d1\<lparr>active := False\<rparr>"
  have ok: "disk_ok ?d2" "\<not> active ?d2" using w(2) by (simp_all add: Disk_interrupt_ok)
  have "\<exists>d3. ReadRequest k ?d2 = Inr (if k = n then data else sector_data k d, d3)" if "0 \<le> k" "k < NumSectors" for k
    using ReadRequest_spec [OF ok that] w(4,5) that by (auto simp: Disk_interrupt_ok)
  moreover have "ReadRequest n d1 = Inl Assertion" using w(3) by (simp add: ReadRequest_def Let_def)
  moreover have "ReadRequest k ?d2 = Inl Assertion \<and> WriteRequest k data ?d2 = Inl Assertion" if "k < 0 \<or> NumSectors \<le> k" for k
  proof -
    have "\<not> (k \<ge> 0 \<and> k < NumSectors)" using that by auto
    then show ?thesis by (simp only: ReadRequest_def WriteRequest_def Let_def ASSERT_def if_False) simp
  qed
  ultimately show ?thesis
    using w ComputeLatency_range [OF assms(1,3,4), of True]
    by (intro exI [of _ d1] exI [of _ ?d2] exI [of _ "ComputeLatency n True d"]) (simp add: Disk_HandleInterrupt_def)
qed

subsection \<open>SynchDisk\<close>

text \<open>
  Threads that call \<open>ReadSector\<close> and \<open>WriteSector\<close>, as tasks: what each still has to do, what it has read, latest first, and
  whether it waits at the semaphore. \<open>Acquire\<close> and \<open>Release\<close> do nothing. Thread \<open>clients\<close> is the device: its step delivers
  the interrupt of a request.
\<close>

datatype diskCall = ReadSector int | WriteSector int "8 word list"

record SynchDisk = DiskState +
  semaphore :: nat
  waiting :: "nat \<Rightarrow> bool"
  calls :: "nat \<Rightarrow> diskCall list"
  got :: "nat \<Rightarrow> 8 word list list"

definition RequestDone :: "SynchDisk \<Rightarrow> SynchDisk res" where
  "RequestDone d = Inr (d\<lparr>semaphore := semaphore d + 1\<rparr>)"

definition P_disk :: "nat \<Rightarrow> SynchDisk \<Rightarrow> SynchDisk" where
  "P_disk i d = (if semaphore d = 0 then d\<lparr>waiting := (waiting d)(i := True)\<rparr>
     else d\<lparr>semaphore := semaphore d - 1, waiting := (waiting d)(i := False)\<rparr>)"

definition disk_call :: "nat \<Rightarrow> SynchDisk \<Rightarrow> SynchDisk res" where
  "disk_call i d = (case calls d i of [] \<Rightarrow> Inr d
     | ReadSector n # cs \<Rightarrow> andThen (ReadRequest n d) (\<lambda>(data, d1).
         Inr (P_disk i (d1\<lparr>calls := (calls d1)(i := cs), got := (got d1)(i := data # got d1 i)\<rparr>)))
     | WriteSector n data # cs \<Rightarrow> andThen (WriteRequest n data d) (\<lambda>d1. Inr (P_disk i (d1\<lparr>calls := (calls d1)(i := cs)\<rparr>))))"

definition synch_step :: "nat \<Rightarrow> SynchDisk task" where
  "synch_step clients i c d = (if i < clients then if waiting d i then Inr (P_disk i d) else disk_call i d
     else if active d then Disk_HandleInterrupt RequestDone d else Inr d)"

fun call_ok :: "diskCall \<Rightarrow> bool" where
  "call_ok (ReadSector n) \<longleftrightarrow> 0 \<le> n \<and> n < NumSectors"
| "call_ok (WriteSector n data) \<longleftrightarrow> 0 \<le> n \<and> n < NumSectors \<and> length data = SectorSize"

definition synch_ok :: "SynchDisk \<Rightarrow> bool" where
  "synch_ok d \<longleftrightarrow> disk_ok d \<and> (\<forall>x\<in>set (calls d 0). call_ok x) \<and>
     (waiting d 0 \<longrightarrow> active d \<and> semaphore d = 0 \<or> \<not> active d \<and> semaphore d = 1) \<and> (\<not> waiting d 0 \<longrightarrow> \<not> active d \<and> semaphore d = 0)"


lemma P_disk_frame [simp]:
  "disk_ok (P_disk i d) = disk_ok d" "calls (P_disk i d) = calls d" "active (P_disk i d) = active d"
  by (simp_all add: P_disk_def disk_ok_def)

lemma ReadRequest_frame:
  "ReadRequest n d = Inr (x, d') \<Longrightarrow> SynchDisk.more d' = SynchDisk.more d \<and> semaphore d' = semaphore d \<and> waiting d' = waiting d \<and>
     calls d' = calls d \<and> got d' = got d \<and> active d'"
  by (auto simp: ReadRequest_def Let_def res_simps Schedule_def UpdateLast_def split_beta)

lemma WriteRequest_frame:
  "WriteRequest n x d = Inr d' \<Longrightarrow> semaphore d' = semaphore d \<and> waiting d' = waiting d \<and> calls d' = calls d \<and> got d' = got d \<and> active d'"
  by (auto simp: WriteRequest_def Let_def res_simps Schedule_def UpdateLast_def split_beta)

lemma client_keeps:
  assumes "synch_ok d"
  shows "\<exists>d'. synch_step 1 0 c d = Inr d' \<and> synch_ok d'"
proof (cases "waiting d 0")
  case True
  then show ?thesis using assms by (auto simp: synch_step_def synch_ok_def P_disk_def disk_ok_def)
next
  case False
  then have idle: "disk_ok d" "\<not> active d" "semaphore d = 0" using assms by (auto simp: synch_ok_def)
  show ?thesis
  proof (cases "calls d 0")
    case Nil
    then show ?thesis using False assms by (simp add: synch_step_def disk_call_def)
  next
    case (Cons x cs)
    then have x: "call_ok x" "\<forall>y\<in>set cs. call_ok y" using assms by (auto simp: synch_ok_def)
    show ?thesis
    proof (cases x)
      case (ReadSector n)
      obtain d1 where r: "ReadRequest n d = Inr (sector_data n d, d1)" "disk_ok d1"
        using ReadRequest_spec [OF idle(1,2)] x(1) ReadSector by fastforce
      then show ?thesis using ReadRequest_frame [OF r(1)] x(2) idle(3) False Cons ReadSector
        by (simp add: synch_step_def disk_call_def synch_ok_def P_disk_def disk_ok_def)
    next
      case (WriteSector n data)
      obtain d1 where r: "WriteRequest n data d = Inr d1" "disk_ok d1"
        using WriteRequest_spec [OF idle(1,2)] x(1) WriteSector by fastforce
      then show ?thesis using WriteRequest_frame [OF r(1)] x(2) idle(3) False Cons WriteSector
        by (simp add: synch_step_def disk_call_def synch_ok_def P_disk_def disk_ok_def)
    qed
  qed
qed

lemma device_keeps: "synch_ok d \<Longrightarrow> \<exists>d'. synch_step 1 1 c d = Inr d' \<and> synch_ok d'"
  by (auto simp: synch_step_def synch_ok_def Disk_HandleInterrupt_def RequestDone_def disk_ok_def)

interpretation one_client: task_invariant "synch_step 1" 2 synch_ok
proof unfold_locales
  fix s i c s'
  assume "synch_ok s" "i < 2" "synch_step 1 i c s = Inr s'"
  then show "synch_ok s'" using client_keeps [of s c] device_keeps [of s c] by (auto simp: less_2_cases_iff)
next
  fix s c and i :: nat
  assume "synch_ok s" "i < 2"
  then show "\<exists>s'. synch_step 1 i c s = Inr s'" using client_keeps [of s c] device_keeps [of s c] by (auto simp: less_2_cases_iff)
qed

text \<open>C30. The synchronous disk is safe for one thread only: whatever that thread reads and writes, in any order with the interrupts, no
  assertion fails. Since the lock is empty, a second thread that issues a request before the interrupt of the first one's has come
  aborts the kernel.\<close>

theorem synch_disk_needs_a_lock:
  assumes "synch_ok d" "\<not> waiting d 0" "\<not> waiting d 1" "calls d 0 \<noteq> []" "calls d 1 \<noteq> []" "runs (synch_step 1) 2 d e" "i < 2"
  shows "(\<exists>e'. synch_step 1 i c e = Inr e') \<and> schedule (synch_step 2) [(0, x), (1, y)] d = Inl Assertion"
proof -
  have alone: "\<exists>e'. synch_step 1 i c e = Inr e'"
    using one_client.runs_never_fails [OF assms(6,1,7)] by blast
  obtain d1 where d1: "synch_step 1 0 x d = Inr d1" using client_keeps [OF assms(1)] by blast
  have same: "synch_step 2 0 x d = synch_step 1 0 x d" by (simp add: synch_step_def)
  have busy: "active d1 \<and> calls d1 1 = calls d 1 \<and> waiting d1 1 = waiting d 1"
  proof -
    obtain r cs where r: "calls d 0 = r # cs" using assms(4) by (cases "calls d 0") auto
    show ?thesis
    proof (cases r)
      case (ReadSector n)
      then obtain data d2 where "ReadRequest n d = Inr (data, d2)"
          "d1 = P_disk 0 (d2\<lparr>calls := (calls d2)(0 := cs), got := (got d2)(0 := data # got d2 0)\<rparr>)"
        using d1 assms(2) r by (cases "ReadRequest n d") (auto simp: synch_step_def disk_call_def)
      then show ?thesis using ReadRequest_frame [of n d data d2] by (simp add: P_disk_def)
    next
      case (WriteSector n data)
      then obtain d2 where "WriteRequest n data d = Inr d2" "d1 = P_disk 0 (d2\<lparr>calls := (calls d2)(0 := cs)\<rparr>)"
        using d1 assms(2) r by (cases "WriteRequest n data d") (auto simp: synch_step_def disk_call_def)
      then show ?thesis using WriteRequest_frame [of n data d d2] by (simp add: P_disk_def)
    qed
  qed
  have "synch_step 2 1 y d1 = Inl Assertion"
    using busy assms(3,5)
    by (auto simp: synch_step_def disk_call_def ReadRequest_def WriteRequest_def Let_def split: list.splits diskCall.splits)
  then show ?thesis using alone d1 same by simp
qed

subsection \<open>A fresh disk\<close>

definition demo_clock :: IntState where
  "demo_clock = \<lparr>stats = Statistics_new, level = IntOn, pending = [], inHandler = False, yieldOnReturn = False, status = SystemMode,
     rng = (\<lambda>_. 0), rngPos = 0\<rparr>"

definition demo_disk :: "diskCall list \<Rightarrow> SynchDisk" where
  "demo_disk cs = DiskState.extend (IntState.extend demo_clock (DiskState.fields
     (word_bytes MagicNumber @ replicate (DiskSize - MagicSize) 0) False 0 0)) (SynchDisk.fields 0 (\<lambda>_. False) (\<lambda>_. cs) (\<lambda>_. []))"

lemma demo_disk_fields [simp]:
  "diskFile (demo_disk cs) = word_bytes MagicNumber @ replicate (DiskSize - MagicSize) 0" "active (demo_disk cs) = False"
  "lastSector (demo_disk cs) = 0" "bufferInit (demo_disk cs) = 0" "stats (demo_disk cs) = Statistics_new"
  "semaphore (demo_disk cs) = 0" "waiting (demo_disk cs) i = False" "calls (demo_disk cs) i = cs"
  by (simp_all add: demo_disk_def demo_clock_def IntState.defs DiskState.defs SynchDisk.defs)

lemma demo_disk_ok: "\<forall>x\<in>set cs. call_ok x \<Longrightarrow> synch_ok (demo_disk cs)"
  by (simp add: synch_ok_def disk_ok_def disk_sizes Statistics_new_def)

lemma disk_write_read_witness:
  "\<exists>d1. WriteRequest 7 (replicate SectorSize 1) (demo_disk []) = Inr d1 \<and> ReadRequest 7 d1 = Inl Assertion"
proof -
  have ok: "disk_ok (demo_disk [])" using demo_disk_ok [of "[]"] by (simp add: synch_ok_def)
  show ?thesis
    using disk_write_read [OF ok, of 7 "replicate SectorSize 1"] by (auto simp: disk_sizes)
qed

lemma synch_disk_needs_a_lock_witness:
  "schedule (synch_step 2) [(0, (0, 0)), (1, (0, 0))] (demo_disk [ReadSector 3]) = Inl Assertion \<and>
   (\<exists>e'. synch_step 1 0 (0, 0) (demo_disk [ReadSector 3]) = Inr e')"
proof -
  have ok: "synch_ok (demo_disk [ReadSector 3])" by (rule demo_disk_ok) (simp add: disk_sizes)
  show ?thesis using synch_disk_needs_a_lock [OF ok _ _ _ _ runs.start, of 0] by simp
qed

end
