(* ===== verification/Nachos_OpenFile.thy ===== *)
theory Nachos_OpenFile
  imports Nachos_Bitmap Nachos_Disk
begin

section \<open>File headers and open files (filesys/filehdr.cc, filesys/openfile.cc)\<close>

text \<open>
  The file system sees the disk through \<open>SynchDisk\<close> as an array of sectors (\<open>platter\<close>); \<open>platter_read\<close> and
  \<open>platter_write\<close> say that the requests of \<open>Nachos_Disk\<close> implement it. A \<open>FileHeader\<close> is the image of one sector. An open file
  is a header and a position; \<open>contents\<close> are the bytes it stands for, and the lemmas say that
  \<open>ReadAt\<close> and \<open>WriteAt\<close>, which only move whole sectors, read and overwrite a stretch of them.
\<close>

type_synonym platter = "int \<Rightarrow> 8 word list"

definition platter_of :: "'a DiskState_scheme \<Rightarrow> platter" where
  "platter_of d n = sector_data n d"

definition platter_ok :: "platter \<Rightarrow> bool" where
  "platter_ok p \<longleftrightarrow> (\<forall>n. 0 \<le> n \<and> n < NumSectors \<longrightarrow> length (p n) = SectorSize)"

definition read_sector :: "int \<Rightarrow> platter \<Rightarrow> 8 word list res" where
  "read_sector n p = ASSERT (0 \<le> n \<and> n < NumSectors) (Inr (p n))"

definition write_sector :: "int \<Rightarrow> 8 word list \<Rightarrow> platter \<Rightarrow> platter res" where
  "write_sector n data p = ASSERT (0 \<le> n \<and> n < NumSectors) (Inr (p(n := data)))"

lemma platter_read:
  "disk_ok d \<Longrightarrow> \<not> active d \<Longrightarrow> 0 \<le> n \<Longrightarrow> n < NumSectors \<Longrightarrow>
     \<exists>d'. ReadRequest n d = Inr (platter_of d n, d') \<and> read_sector n (platter_of d) = Inr (platter_of d n)"
  using ReadRequest_spec [of d n] by (auto simp: platter_of_def read_sector_def)

lemma platter_write:
  "disk_ok d \<Longrightarrow> \<not> active d \<Longrightarrow> 0 \<le> n \<Longrightarrow> n < NumSectors \<Longrightarrow> length data = SectorSize \<Longrightarrow>
     \<exists>d' p. WriteRequest n data d = Inr d' \<and> write_sector n data (platter_of d) = Inr p \<and>
       (\<forall>k. 0 \<le> k \<and> k < NumSectors \<longrightarrow> platter_of d' k = p k)"
  using WriteRequest_spec [of d n data] by (fastforce simp: platter_of_def write_sector_def)

subsection \<open>FileHeader\<close>

definition NumDirect :: nat where "NumDirect = (SectorSize - 2 * 4) div 4"

record FileHeader =
  numBytes :: "32 word"
  numSectors :: "32 word"
  dataSectors :: "32 word list"

definition header_bytes :: "FileHeader \<Rightarrow> 8 word list" where
  "header_bytes h = words_bytes (numBytes h # numSectors h # dataSectors h)"

definition FileHeader_of :: "8 word list \<Rightarrow> FileHeader" where
  "FileHeader_of bs = (let ws = bytes_words (2 + NumDirect) bs in \<lparr>numBytes = ws ! 0, numSectors = ws ! 1, dataSectors = drop 2 ws\<rparr>)"

fun allocate_loop :: "int list \<Rightarrow> FileHeader \<Rightarrow> BitMap \<Rightarrow> (FileHeader \<times> BitMap) res" where
  "allocate_loop [] h freeMap = Inr (h, freeMap)"
| "allocate_loop (i # is) h freeMap = andThen (Find freeMap) (\<lambda>(s, m).
     andThen (store (dataSectors h) i (word_of_int s)) (\<lambda>ds. allocate_loop is (h\<lparr>dataSectors := ds\<rparr>) m))"

definition Hdr_Allocate :: "FileHeader \<Rightarrow> BitMap \<Rightarrow> int \<Rightarrow> (bool \<times> FileHeader \<times> BitMap) res" where
  "Hdr_Allocate h freeMap fileSize =
     (let n = divRoundUp fileSize (int SectorSize); h1 = h\<lparr>numBytes := word_of_int fileSize, numSectors := word_of_int n\<rparr>
      in andThen (NumClear freeMap) (\<lambda>clear. if clear < n then Inr (False, h1, freeMap)
           else andThen (allocate_loop [0..n - 1] h1 freeMap) (\<lambda>r. Inr (True, r))))"

fun deallocate_loop :: "int list \<Rightarrow> FileHeader \<Rightarrow> BitMap \<Rightarrow> BitMap res" where
  "deallocate_loop [] h freeMap = Inr freeMap"
| "deallocate_loop (i # is) h freeMap = andThen (fetch (dataSectors h) i) (\<lambda>s. andThen (Test freeMap (sint s)) (\<lambda>marked.
     ASSERT marked (andThen (Clear freeMap (sint s)) (deallocate_loop is h))))"

definition Hdr_Deallocate :: "FileHeader \<Rightarrow> BitMap \<Rightarrow> BitMap res" where
  "Hdr_Deallocate h freeMap = deallocate_loop [0..sint (numSectors h) - 1] h freeMap"

definition Hdr_FetchFrom :: "int \<Rightarrow> platter \<Rightarrow> FileHeader res" where
  "Hdr_FetchFrom sector p = andThen (read_sector sector p) (\<lambda>bs. Inr (FileHeader_of bs))"

definition Hdr_WriteBack :: "FileHeader \<Rightarrow> int \<Rightarrow> platter \<Rightarrow> platter res" where
  "Hdr_WriteBack h sector p = write_sector sector (header_bytes h) p"

definition ByteToSector :: "FileHeader \<Rightarrow> int \<Rightarrow> int res" where
  "ByteToSector h offset = andThen (fetch (dataSectors h) (offset sdiv int SectorSize)) (\<lambda>s. Inr (sint s))"

definition FileLength :: "FileHeader \<Rightarrow> int" where
  "FileLength h = sint (numBytes h)"

subsection \<open>OpenFile\<close>

record OpenFile =
  hdr :: FileHeader
  seekPosition :: int

definition OpenFile_new :: "int \<Rightarrow> platter \<Rightarrow> OpenFile res" where
  "OpenFile_new sector p = andThen (Hdr_FetchFrom sector p) (\<lambda>h. Inr \<lparr>hdr = h, seekPosition = 0\<rparr>)"

definition Seek :: "int \<Rightarrow> OpenFile \<Rightarrow> OpenFile" where
  "Seek position f = f\<lparr>seekPosition := position\<rparr>"

definition Length :: "OpenFile \<Rightarrow> int" where
  "Length f = FileLength (hdr f)"

text \<open>The loop that reads the sectors \<open>is\<close> of the file, one after the other, into the buffer.\<close>

fun read_sectors :: "FileHeader \<Rightarrow> int list \<Rightarrow> platter \<Rightarrow> 8 word list res" where
  "read_sectors h [] p = Inr []"
| "read_sectors h (i # is) p = andThen (ByteToSector h (i * int SectorSize)) (\<lambda>s. andThen (read_sector s p) (\<lambda>bs.
     andThen (read_sectors h is p) (\<lambda>rest. Inr (bs @ rest))))"

fun write_sectors :: "FileHeader \<Rightarrow> int list \<Rightarrow> 8 word list \<Rightarrow> platter \<Rightarrow> platter res" where
  "write_sectors h [] buf p = Inr p"
| "write_sectors h (i # is) buf p = andThen (ByteToSector h (i * int SectorSize)) (\<lambda>s.
     andThen (write_sector s (take SectorSize buf) p) (write_sectors h is (drop SectorSize buf)))"

text \<open>
  How many bytes a request transfers, after the checks at the start of \<open>ReadAt\<close> and \<open>WriteAt\<close>. The sum of the position and the
  count is a signed \<open>int\<close>; when it does not fit, the behaviour is undefined, as it is for an index outside an array.
\<close>

definition clipped :: "FileHeader \<Rightarrow> int \<Rightarrow> int \<Rightarrow> int res" where
  "clipped h n position = (if n \<le> 0 \<or> position \<ge> FileLength h then Inr 0
     else if position + n \<ge> 2 ^ 31 then Inl OutOfBounds
     else if position + n > FileLength h then Inr (FileLength h - position) else Inr n)"

text \<open>\<open>bcopy\<close> out of and into a buffer, with the bounds of the buffer.\<close>

definition copy_out :: "8 word list \<Rightarrow> int \<Rightarrow> int \<Rightarrow> 8 word list res" where
  "copy_out buf off n = (if 0 \<le> off \<and> 0 \<le> n \<and> off + n \<le> int (length buf) then Inr (take (nat n) (drop (nat off) buf)) else Inl OutOfBounds)"

definition copy_in :: "8 word list \<Rightarrow> 8 word list \<Rightarrow> int \<Rightarrow> 8 word list res" where
  "copy_in data buf off = (if 0 \<le> off \<and> off + int (length data) \<le> int (length buf) then Inr (overwrite buf (nat off) data) else Inl OutOfBounds)"

definition Open_ReadAt :: "OpenFile \<Rightarrow> int \<Rightarrow> int \<Rightarrow> platter \<Rightarrow> 8 word list res" where
  "Open_ReadAt f num position p = (let h = hdr f in andThen (clipped h num position) (\<lambda>n.
     if n = 0 then Inr [] else
       (let firstSector = divRoundDown position (int SectorSize); last = divRoundDown (position + n - 1) (int SectorSize)
        in andThen (read_sectors h [firstSector..last] p) (\<lambda>buf. copy_out buf (position - firstSector * int SectorSize) n))))"

text \<open>\<open>WriteAt\<close> returns the number of bytes; \<open>junk\<close> is what the new buffer contains before it is filled.\<close>

definition Open_WriteAt :: "(nat \<Rightarrow> 8 word) \<Rightarrow> OpenFile \<Rightarrow> 8 word list \<Rightarrow> int \<Rightarrow> int \<Rightarrow> platter \<Rightarrow> (int \<times> platter) res" where
  "Open_WriteAt junk f source num position p = (let h = hdr f in andThen (clipped h num position) (\<lambda>n.
     if n = 0 then Inr (0, p) else
       (let firstSector = divRoundDown position (int SectorSize); last = divRoundDown (position + n - 1) (int SectorSize);
            count = 1 + last - firstSector;
            buf = map junk [0..<nat (count * int SectorSize)];
            firstAligned = (position = firstSector * int SectorSize);
            lastAligned = (position + n = (last + 1) * int SectorSize)
        in andThen (if \<not> firstAligned then andThen (Open_ReadAt f (int SectorSize) (firstSector * int SectorSize) p) (\<lambda>r. copy_in r buf 0)
             else Inr buf) (\<lambda>buf1.
           andThen (if \<not> lastAligned \<and> (firstSector \<noteq> last \<or> firstAligned)
             then andThen (Open_ReadAt f (int SectorSize) (last * int SectorSize) p) (\<lambda>r. copy_in r buf1 ((last - firstSector) * int SectorSize))
             else Inr buf1) (\<lambda>buf2.
           andThen (copy_out source 0 n) (\<lambda>data. andThen (copy_in data buf2 (position - firstSector * int SectorSize)) (\<lambda>buf3.
           andThen (write_sectors h [firstSector..last] buf3 p) (\<lambda>p'. Inr (n, p')))))))))"

definition Read :: "OpenFile \<Rightarrow> int \<Rightarrow> platter \<Rightarrow> (8 word list \<times> OpenFile) res" where
  "Read f num p = andThen (Open_ReadAt f num (seekPosition f) p) (\<lambda>bs. Inr (bs, f\<lparr>seekPosition := seekPosition f + int (length bs)\<rparr>))"

definition Write :: "(nat \<Rightarrow> 8 word) \<Rightarrow> OpenFile \<Rightarrow> 8 word list \<Rightarrow> int \<Rightarrow> platter \<Rightarrow> (int \<times> OpenFile \<times> platter) res" where
  "Write junk f source num p = andThen (Open_WriteAt junk f source num (seekPosition f) p) (\<lambda>(n, p').
     Inr (n, f\<lparr>seekPosition := seekPosition f + n\<rparr>, p'))"


subsection \<open>Lists of blocks\<close>

lemma length_blocks: "\<forall>x\<in>set bs. length x = B \<Longrightarrow> length (concat bs) = B * length bs"
  by (induction bs) auto

lemma drop_blocks: "\<forall>x\<in>set bs. length x = B \<Longrightarrow> a \<le> length bs \<Longrightarrow> drop (B * a) (concat bs) = concat (drop a bs)"
proof (induction bs arbitrary: a)
  case (Cons x bs)
  then show ?case by (cases a) auto
qed simp

lemma take_blocks: "\<forall>x\<in>set bs. length x = B \<Longrightarrow> a \<le> length bs \<Longrightarrow> take (B * a) (concat bs) = concat (take a bs)"
proof (induction bs arbitrary: a)
  case (Cons x bs)
  then show ?case by (cases a) auto
qed simp

lemma concat_update:
  assumes "\<forall>x\<in>set bs. length x = B" "a < length bs" "length y = B"
  shows "concat (bs[a := y]) = overwrite (concat bs) (B * a) y"
proof -
  have "bs[a := y] = take a bs @ y # drop (Suc a) bs" using assms(2) by (simp add: upd_conv_take_nth_drop)
  moreover have "drop (B * a + B) (concat bs) = concat (drop (Suc a) bs)"
    using drop_blocks [OF assms(1), of "Suc a"] assms(2) by (simp add: algebra_simps)
  ultimately show ?thesis using take_blocks [OF assms(1), of a] assms by (simp add: overwrite_def)
qed

lemma overwrite_next: "p + length x + length y \<le> length xs \<Longrightarrow> overwrite (overwrite xs p x) (p + length x) y = overwrite xs p (x @ y)"
  by (cases x) (auto simp: overwrite_def min_def algebra_simps)

subsection \<open>Well-formed headers and the contents of a file\<close>

definition sector_count :: "FileHeader \<Rightarrow> nat" where
  "sector_count h = nat (sint (numSectors h))"

definition file_sectors :: "FileHeader \<Rightarrow> int list" where
  "file_sectors h = map sint (take (sector_count h) (dataSectors h))"

definition file_size :: "FileHeader \<Rightarrow> nat" where
  "file_size h = nat (FileLength h)"

definition header_ok :: "FileHeader \<Rightarrow> bool" where
  "header_ok h \<longleftrightarrow> 0 \<le> FileLength h \<and> file_size h \<le> SectorSize * sector_count h \<and> sector_count h \<le> NumDirect \<and>
     length (dataSectors h) = NumDirect \<and> distinct (file_sectors h) \<and> (\<forall>s\<in>set (file_sectors h). 0 \<le> s \<and> s < NumSectors)"

definition file_bytes :: "FileHeader \<Rightarrow> platter \<Rightarrow> 8 word list" where
  "file_bytes h p = concat (map p (file_sectors h))"

definition contents :: "FileHeader \<Rightarrow> platter \<Rightarrow> 8 word list" where
  "contents h p = take (file_size h) (file_bytes h p)"

lemma length_file_sectors: "header_ok h \<Longrightarrow> length (file_sectors h) = sector_count h"
  by (simp add: header_ok_def file_sectors_def)

lemma file_blocks: "header_ok h \<Longrightarrow> platter_ok p \<Longrightarrow> \<forall>x\<in>set (map p (file_sectors h)). length x = SectorSize"
  by (auto simp: header_ok_def platter_ok_def)

lemma length_file_bytes: "header_ok h \<Longrightarrow> platter_ok p \<Longrightarrow> length (file_bytes h p) = SectorSize * sector_count h"
  using length_blocks [OF file_blocks] length_file_sectors by (simp add: file_bytes_def)

lemma length_contents: "header_ok h \<Longrightarrow> platter_ok p \<Longrightarrow> length (contents h p) = file_size h"
  by (simp add: contents_def length_file_bytes) (simp add: header_ok_def)

lemma ByteToSector_nth:
  assumes "header_ok h" "i < sector_count h"
  shows "ByteToSector h (int i * int SectorSize) = Inr (file_sectors h ! i)"
proof -
  have "int i * int SectorSize sdiv int SectorSize = int i" by (simp add: sdiv_nonneg SectorSize_def)
  then show ?thesis using assms by (simp add: ByteToSector_def header_ok_def file_sectors_def fetch_def)
qed

lemma file_sector_range: "header_ok h \<Longrightarrow> i < sector_count h \<Longrightarrow> 0 \<le> file_sectors h ! i \<and> file_sectors h ! i < NumSectors"
  using length_file_sectors [of h] unfolding header_ok_def by (metis nth_mem)

lemma read_sectors_spec:
  assumes "header_ok h" "platter_ok p" "b \<le> sector_count h" "a \<le> b"
  shows "read_sectors h (map int [a..<b]) p = Inr (take (SectorSize * (b - a)) (drop (SectorSize * a) (file_bytes h p)))"
proof -
  have "read_sectors h (map int [a..<b]) p = Inr (concat (map p (map (\<lambda>i. file_sectors h ! i) [a..<b])))"
    using assms(3,4)
  proof (induction "b - a" arbitrary: a)
    case (Suc k)
    then have "read_sectors h (map int [Suc a..<b]) p = Inr (concat (map p (map (\<lambda>i. file_sectors h ! i) [Suc a..<b])))" by simp
    then show ?case using Suc.hyps(2) Suc.prems ByteToSector_nth [OF assms(1), of a] file_sector_range [OF assms(1), of a]
      by (simp add: upt_rec [of a b] read_sector_def)
  qed simp
  also have "map (\<lambda>i. file_sectors h ! i) [a..<b] = take (b - a) (drop a (file_sectors h))"
    using assms(3,4) length_file_sectors [OF assms(1)] by (intro nth_equalityI) auto
  also have "concat (map p (take (b - a) (drop a (file_sectors h)))) = take (SectorSize * (b - a)) (drop (SectorSize * a) (file_bytes h p))"
  proof -
    have "\<forall>x\<in>set (map p (drop a (file_sectors h))). length x = SectorSize"
      using file_blocks [OF assms(1,2)] by (auto dest: in_set_dropD)
    then show ?thesis
      using drop_blocks [OF file_blocks [OF assms(1,2)], of a] assms(3,4) length_file_sectors [OF assms(1)]
        take_blocks [of "map p (drop a (file_sectors h))" SectorSize "b - a"]
      by (simp add: file_bytes_def take_map drop_map)
  qed
  finally show ?thesis .
qed

lemma sector_written:
  assumes "header_ok h" "platter_ok p" "a < sector_count h" "length x = SectorSize"
  shows "file_bytes h (p(file_sectors h ! a := x)) = overwrite (file_bytes h p) (SectorSize * a) x"
    and "platter_ok (p(file_sectors h ! a := x))"
proof -
  have "map (p(file_sectors h ! a := x)) (file_sectors h) = (map p (file_sectors h))[a := x]"
    using assms(1,3) length_file_sectors [OF assms(1)] by (intro nth_equalityI) (auto simp: header_ok_def nth_eq_iff_index_eq nth_list_update)
  then show "file_bytes h (p(file_sectors h ! a := x)) = overwrite (file_bytes h p) (SectorSize * a) x"
    using concat_update [OF file_blocks [OF assms(1,2)], of a x] assms(3,4) length_file_sectors [OF assms(1)] by (simp add: file_bytes_def)
  show "platter_ok (p(file_sectors h ! a := x))" using assms(2,4) by (auto simp: platter_ok_def)
qed

lemma write_sectors_spec:
  assumes "header_ok h" "platter_ok p" "b \<le> sector_count h" "a \<le> b" "length buf = SectorSize * (b - a)"
  shows "\<exists>p'. write_sectors h (map int [a..<b]) buf p = Inr p' \<and> platter_ok p' \<and>
    file_bytes h p' = overwrite (file_bytes h p) (SectorSize * a) buf \<and> (\<forall>s. s \<notin> set (file_sectors h) \<longrightarrow> p' s = p s)"
  using assms(2-5)
proof (induction "b - a" arbitrary: a p buf)
  case 0
  then show ?case by (simp add: overwrite_def)
next
  case (Suc k)
  let ?x = "take SectorSize buf" and ?s = "file_sectors h ! a"
  have a: "a < sector_count h" using Suc.hyps(2) Suc.prems by simp
  have sz: "SectorSize * (b - a) = SectorSize + SectorSize * (b - Suc a)" using Suc.hyps(2) by (simp flip: mult_Suc_right add: Suc_diff_Suc)
  have x: "length ?x = SectorSize" using Suc.prems(4) sz by simp
  note w = sector_written [OF assms(1) Suc.prems(1) a x]
  obtain p' where p': "write_sectors h (map int [Suc a..<b]) (drop SectorSize buf) (p(?s := ?x)) = Inr p'" "platter_ok p'"
      "file_bytes h p' = overwrite (file_bytes h (p(?s := ?x))) (SectorSize * Suc a) (drop SectorSize buf)"
      "\<forall>s. s \<notin> set (file_sectors h) \<longrightarrow> p' s = (p(?s := ?x)) s"
  proof -
    have e: "k = b - Suc a" "Suc a \<le> b" "length (drop SectorSize buf) = SectorSize * (b - Suc a)"
      using Suc.hyps(2) Suc.prems sz by auto
    show ?thesis using Suc.hyps(1) [OF e(1) w(2) Suc.prems(2) e(2,3)] that by blast
  qed
  have "SectorSize * a + SectorSize * (b - a) \<le> SectorSize * sector_count h"
    using Suc.prems(2,3) by (simp flip: add_mult_distrib2)
  then have "SectorSize * a + length ?x + length (drop SectorSize buf) \<le> length (file_bytes h p)"
    using length_file_bytes [OF assms(1) Suc.prems(1)] x sz Suc.prems(4) by simp
  then have "file_bytes h p' = overwrite (file_bytes h p) (SectorSize * a) buf"
    using p'(3) w(1) x overwrite_next [of "SectorSize * a" ?x "drop SectorSize buf" "file_bytes h p"] by (simp add: algebra_simps)
  moreover have "?s \<in> set (file_sectors h)" using a length_file_sectors [OF assms(1)] by simp
  ultimately show ?case
    using p' Suc.hyps(2) Suc.prems ByteToSector_nth [OF assms(1) a] file_sector_range [OF assms(1) a]
    by (auto simp: upt_rec [of a b] write_sector_def)
qed


subsection \<open>Open_ReadAt and Open_WriteAt\<close>

definition transfer :: "FileHeader \<Rightarrow> int \<Rightarrow> nat \<Rightarrow> nat" where
  "transfer h num pos = min (nat num) (file_size h - pos)"

lemma file_size_small: "header_ok h \<Longrightarrow> file_size h \<le> 15872"
proof -
  assume h: "header_ok h"
  then have "file_size h \<le> SectorSize * sector_count h" "sector_count h \<le> 62"
    by (simp_all add: header_ok_def NumDirect_def SectorSize_def)
  then show ?thesis by (simp add: SectorSize_def)
qed

lemma clipped_nat: "header_ok h \<Longrightarrow> int pos + num < 2 ^ 31 \<Longrightarrow> clipped h num (int pos) = Inr (int (transfer h num pos))"
  by (auto simp: clipped_def transfer_def file_size_def header_ok_def)

lemma divRoundDown_sector: "divRoundDown (int k) (int SectorSize) = int (k div SectorSize)"
  by (simp add: divRoundDown_def sdiv_nonneg SectorSize_def zdiv_int)

lemma upto_sectors: "[int a..int l] = map int [a..<Suc l]"
proof (induction "Suc l - a" arbitrary: a)
  case (Suc k)
  then show ?case using Suc.hyps(1) [of "Suc a"] by (cases "a = l") (auto simp: upto_rec1 upt_rec add.commute)
qed (simp add: upto_Nil)

lemma copy_out_nat: "off + n \<le> length buf \<Longrightarrow> copy_out buf (int off) (int n) = Inr (take n (drop off buf))"
  by (simp add: copy_out_def)

lemma copy_in_nat: "off + length data \<le> length buf \<Longrightarrow> copy_in data buf (int off) = Inr (overwrite buf off data)"
  by (simp add: copy_in_def)

text \<open>The sectors that a request of \<open>n > 0\<close> bytes at \<open>pos\<close> touches, and where in them it starts.\<close>

lemma request_sectors:
  assumes "header_ok h" "0 < n" "pos + n \<le> file_size h"
  defines "a \<equiv> pos div SectorSize" and "l \<equiv> (pos + n - 1) div SectorSize"
  shows "a \<le> l" "Suc l \<le> sector_count h" "SectorSize * a \<le> pos" "pos < SectorSize * Suc a" "pos + n \<le> SectorSize * Suc l"
    "SectorSize * l < pos + n" "SectorSize * a + SectorSize * (Suc l - a) = SectorSize * Suc l"
proof -
  show al: "a \<le> l" using assms(2) by (simp add: a_def l_def div_le_mono)
  have "SectorSize * l \<le> pos + n - 1" "pos + n - 1 < SectorSize * Suc l"
    unfolding l_def by (simp_all add: SectorSize_def)
  moreover have "SectorSize * a \<le> pos" "pos < SectorSize * Suc a"
    unfolding a_def by (simp_all add: SectorSize_def)
  ultimately show "SectorSize * a \<le> pos" "pos < SectorSize * Suc a" "pos + n \<le> SectorSize * Suc l" "SectorSize * l < pos + n"
    using assms(2) by simp_all
  have "SectorSize * l < SectorSize * sector_count h"
    using \<open>SectorSize * l \<le> pos + n - 1\<close> assms(1-3) unfolding header_ok_def by linarith
  then show "Suc l \<le> sector_count h" by (simp add: SectorSize_def)
  show "SectorSize * a + SectorSize * (Suc l - a) = SectorSize * Suc l" using al by (simp flip: add_mult_distrib2)
qed

lemma transfer_range: "transfer h num pos \<noteq> 0 \<Longrightarrow> pos + transfer h num pos \<le> file_size h"
  by (auto simp: transfer_def)

lemma last_sector: "0 < n \<Longrightarrow> divRoundDown (int pos + int n - 1) (int SectorSize) = int ((pos + n - 1) div SectorSize)"
  using divRoundDown_sector [of "pos + n - 1"] by (simp add: of_nat_diff)

lemma sector_offset: "SectorSize * a \<le> pos \<Longrightarrow> int pos - int a * int SectorSize = int (pos - SectorSize * a)"
  by (simp add: of_nat_diff mult.commute)

lemma length_window:
  assumes "header_ok h" "platter_ok p" "Suc l \<le> sector_count h" "a \<le> l"
  shows "length (take (SectorSize * (Suc l - a)) (drop (SectorSize * a) (file_bytes h p))) = SectorSize * (Suc l - a)"
proof -
  have "SectorSize * Suc l \<le> SectorSize * sector_count h" using assms(3) by (rule mult_le_mono2)
  moreover have "SectorSize * a + SectorSize * (Suc l - a) = SectorSize * Suc l" using assms(4) by (simp flip: add_mult_distrib2)
  ultimately show ?thesis using length_file_bytes [OF assms(1,2)] by simp
qed

lemma ReadAt_spec:
  assumes "header_ok (hdr f)" "platter_ok p" "int pos + num < 2 ^ 31"
  shows "Open_ReadAt f num (int pos) p = Inr (take (nat num) (drop pos (contents (hdr f) p)))"
proof (cases "transfer (hdr f) num pos = 0")
  case True
  then show ?thesis using assms length_contents [OF assms(1,2)] by (auto simp: Open_ReadAt_def clipped_nat transfer_def min_def split: if_splits)
next
  case False
  define n where "n = transfer (hdr f) num pos"
  define a where "a = pos div SectorSize"
  define l where "l = (pos + n - 1) div SectorSize"
  define buf where "buf = take (SectorSize * (Suc l - a)) (drop (SectorSize * a) (file_bytes (hdr f) p))"
  have n: "0 < n" "pos + n \<le> file_size (hdr f)" using False transfer_range [of "hdr f" num pos] by (auto simp: n_def)
  note r = request_sectors [OF assms(1) n, folded a_def l_def]
  have "read_sectors (hdr f) [int a..int l] p = Inr buf"
    unfolding upto_sectors buf_def by (rule read_sectors_spec [OF assms(1,2) r(2)]) (use r(1) in simp)
  moreover have "pos - SectorSize * a + n \<le> length buf"
    using length_window [OF assms(1,2) r(2,1)] r(3,5,7) unfolding buf_def by linarith
  moreover have "divRoundDown (int pos) (int SectorSize) = int a" "divRoundDown (int pos + int n - 1) (int SectorSize) = int l"
    using divRoundDown_sector last_sector [OF n(1)] by (simp_all add: a_def l_def)
  ultimately have "Open_ReadAt f num (int pos) p = Inr (take n (drop (pos - SectorSize * a) buf))"
    using n(1) sector_offset [OF r(3)] unfolding Open_ReadAt_def Let_def clipped_nat [OF assms(1,3)] andThen_Inr n_def [symmetric]
    by (simp add: copy_out_nat del: of_nat_diff)
  also have "take n (drop (pos - SectorSize * a) buf) = take n (drop pos (file_bytes (hdr f) p))"
  proof -
    have "pos - SectorSize * a + n \<le> SectorSize * (Suc l - a)" using r(3,5,7) by linarith
    then show ?thesis using r(3) by (simp add: buf_def drop_take min_def)
  qed
  also have "\<dots> = take (nat num) (drop pos (contents (hdr f) p))"
    by (simp add: contents_def drop_take n_def transfer_def)
  finally show ?thesis .
qed


text \<open>
  What \<open>WriteAt\<close> has in its buffer once the partial sectors at both ends are read: everywhere outside the bytes to be written,
  and inside the file, the old bytes.
\<close>

definition edges :: "8 word list \<Rightarrow> 8 word list \<Rightarrow> nat \<Rightarrow> nat \<Rightarrow> nat \<Rightarrow> nat \<Rightarrow> 8 word list" where
  "edges buf c pos n a l =
     (let buf1 = if pos = SectorSize * a then buf else overwrite buf 0 (take SectorSize (drop (SectorSize * a) c))
      in if pos + n \<noteq> SectorSize * Suc l \<and> (a \<noteq> l \<or> pos = SectorSize * a)
         then overwrite buf1 (SectorSize * (l - a)) (take SectorSize (drop (SectorSize * l) c)) else buf1)"

lemma edges_old:
  assumes "length buf = SectorSize * (Suc l - a)" "a \<le> l" "SectorSize * a \<le> pos" "pos < SectorSize * Suc a" "SectorSize * l < pos + n"
    and "SectorSize * a \<le> k" "k < SectorSize * Suc l" "k < length c" "k < pos \<or> pos + n \<le> k"
  shows "edges buf c pos n a l ! (k - SectorSize * a) = c ! k" "length (edges buf c pos n a l) = length buf"
proof -
  let ?r1 = "take SectorSize (drop (SectorSize * a) c)" and ?r2 = "take SectorSize (drop (SectorSize * l) c)"
  define buf1 where "buf1 = (if pos = SectorSize * a then buf else overwrite buf 0 ?r1)"
  have B: "length buf = SectorSize * (l - a) + SectorSize" using assms(1,2) by (simp add: Suc_diff_le)
  have d: "SectorSize * l = SectorSize * a + SectorSize * (l - a)" using assms(2) by (simp flip: add_mult_distrib2)
  have l1: "length buf1 = length buf" using B by (simp add: buf1_def)
  have e: "edges buf c pos n a l = (if pos + n \<noteq> SectorSize * Suc l \<and> (a \<noteq> l \<or> pos = SectorSize * a)
      then overwrite buf1 (SectorSize * (l - a)) ?r2 else buf1)"
    by (simp add: edges_def buf1_def Let_def)
  have room: "SectorSize * (l - a) + length ?r2 \<le> length buf1" using B l1 by simp
  show "length (edges buf c pos n a l) = length buf" using l1 room by (simp add: e)
  have i: "k - SectorSize * a < length buf" using assms(6,7) B d by simp
  have first: "buf1 ! (k - SectorSize * a) = c ! k" if "pos \<noteq> SectorSize * a" "k < SectorSize * Suc a"
  proof -
    have "k - SectorSize * a < length c - SectorSize * a" "k - SectorSize * a < SectorSize"
      using that(2) assms(6,8) by simp_all
    then show ?thesis using that(1) assms(6) i B by (simp add: buf1_def nth_overwrite)
  qed
  have apart: "a \<noteq> l \<Longrightarrow> SectorSize \<le> SectorSize * (l - a)" using assms(2) by (simp add: SectorSize_def)
  show "edges buf c pos n a l ! (k - SectorSize * a) = c ! k"
  proof (cases "k < pos")
    case True
    then have f: "pos \<noteq> SectorSize * a" "k < SectorSize * Suc a" using assms(4,6) by auto
    have "k - SectorSize * a < SectorSize" using f(2) assms(6) by simp
    then have "k - SectorSize * a < SectorSize * (l - a)" if "a \<noteq> l" using apart [OF that] by (rule order.strict_trans2)
    then show ?thesis unfolding e using first [OF f] f(1) i l1 room assms(6) by (auto simp: nth_overwrite)
  next
    case False
    then have k: "pos + n \<le> k" using assms(9) by simp
    then have inl: "SectorSize * l \<le> k" "pos + n \<noteq> SectorSize * Suc l" using assms(5,7) by auto
    show ?thesis
    proof (cases "a \<noteq> l \<or> pos = SectorSize * a")
      case True
      have j: "k - SectorSize * a = SectorSize * (l - a) + (k - SectorSize * l)" using d inl(1) by linarith
      have "k - SectorSize * l < length ?r2" using inl(1) assms(7,8) by auto
      then have "overwrite buf1 (SectorSize * (l - a)) ?r2 ! (k - SectorSize * a) = ?r2 ! (k - SectorSize * l)"
        using nth_overwrite [OF room, of "k - SectorSize * a"] i l1 unfolding j by simp
      moreover have "?r2 ! (k - SectorSize * l) = c ! k" using \<open>k - SectorSize * l < length ?r2\<close> inl(1) assms(8) by simp
      ultimately show ?thesis unfolding e using True inl by simp
    next
      case False
      then show ?thesis unfolding e using first assms(7) by simp
    qed
  qed
qed

lemma file_bytes_contents: "header_ok h \<Longrightarrow> platter_ok p \<Longrightarrow> k < file_size h \<Longrightarrow> contents h p ! k = file_bytes h p ! k"
  by (simp add: contents_def)

lemma nth_eq_overwrite:
  assumes "length xs = length ys" "p + length zs \<le> length ys"
    "\<And>k. k < length ys \<Longrightarrow> xs ! k = (if p \<le> k \<and> k < p + length zs then zs ! (k - p) else ys ! k)"
  shows "xs = overwrite ys p zs"
  using assms by (intro nth_equalityI) (auto simp: nth_overwrite)

lemma new_contents:
  assumes "header_ok h" "platter_ok p" "platter_ok p'" "0 < n" "pos + n \<le> file_size h" "length data = n" "length buf = SectorSize * (Suc l - a)"
    and "a = pos div SectorSize" "l = (pos + n - 1) div SectorSize"
    and "file_bytes h p' = overwrite (file_bytes h p) (SectorSize * a) (overwrite (edges buf (contents h p) pos n a l) (pos - SectorSize * a) data)"
  shows "contents h p' = overwrite (contents h p) pos data"
proof (rule nth_eq_overwrite)
  note r = request_sectors [OF assms(1,4,5), folded assms(8,9)]
  let ?e = "edges buf (contents h p) pos n a l"
  show "length (contents h p') = length (contents h p)" using length_contents assms(1-3) by simp
  show "pos + length data \<le> length (contents h p)" using length_contents [OF assms(1,2)] assms(5,6) by simp
  have le: "length ?e = SectorSize * (Suc l - a)"
    using r(1) assms(7) by (simp add: edges_def Let_def Suc_diff_le)
  have room: "pos - SectorSize * a + length data \<le> length ?e" using le r(3,5,7) assms(6) by linarith
  have "SectorSize * Suc l \<le> SectorSize * sector_count h" using r(2) by (rule mult_le_mono2)
  then have all: "SectorSize * a + length (overwrite ?e (pos - SectorSize * a) data) \<le> length (file_bytes h p)"
    using length_file_bytes [OF assms(1,2)] r(7) le room by simp
  fix k assume "k < length (contents h p)"
  then have k: "k < file_size h" using length_contents [OF assms(1,2)] by simp
  have kF: "k < length (file_bytes h p)" using k length_file_bytes [OF assms(1,2)] assms(1) by (simp add: header_ok_def)
  have new: "contents h p' ! k = (if SectorSize * a \<le> k \<and> k < SectorSize * a + length ?e
      then overwrite ?e (pos - SectorSize * a) data ! (k - SectorSize * a) else contents h p ! k)"
    using file_bytes_contents [OF assms(1,3) k] file_bytes_contents [OF assms(1,2) k] nth_overwrite [OF all kF] assms(10) room by simp
  show "contents h p' ! k = (if pos \<le> k \<and> k < pos + length data then data ! (k - pos) else contents h p ! k)"
  proof (cases "SectorSize * a \<le> k \<and> k < SectorSize * a + length ?e")
    case inside: True
    have i: "k - SectorSize * a < length ?e" using inside by auto
    show ?thesis
    proof (cases "pos \<le> k \<and> k < pos + length data")
      case True
      then have "k - SectorSize * a - (pos - SectorSize * a) = k - pos" using r(3) by simp
      then show ?thesis using True inside new nth_overwrite [OF room i] r(3) by auto
    next
      case False
      have "?e ! (k - SectorSize * a) = contents h p ! k"
        using edges_old(1) [OF assms(7) r(1,3,4,6)] inside le r(7) k length_contents [OF assms(1,2)] False assms(6) by auto
      then show ?thesis using False inside new nth_overwrite [OF room i] r(3) by auto
    qed
  next
    case False
    then have "\<not> (pos \<le> k \<and> k < pos + length data)" using r(3,5,7) le assms(6) by auto
    then show ?thesis using new False by auto
  qed
qed


lemma WriteAt_spec:
  assumes "header_ok (hdr f)" "platter_ok p" "transfer (hdr f) num pos \<le> length source" "int pos + num < 2 ^ 31"
  shows "\<exists>p'. Open_WriteAt junk f source num (int pos) p = Inr (int (transfer (hdr f) num pos), p') \<and> platter_ok p' \<and>
    contents (hdr f) p' = overwrite (contents (hdr f) p) pos (take (transfer (hdr f) num pos) source) \<and>
    (\<forall>s. s \<notin> set (file_sectors (hdr f)) \<longrightarrow> p' s = p s)"
proof (cases "transfer (hdr f) num pos = 0")
  case True
  then show ?thesis using assms by (simp add: Open_WriteAt_def clipped_nat overwrite_def)
next
  case False
  define n where "n = transfer (hdr f) num pos"
  define a where "a = pos div SectorSize"
  define l where "l = (pos + n - 1) div SectorSize"
  define L where "L = SectorSize * (Suc l - a)"
  define buf where "buf = map junk [0..<L]"
  define data where "data = take n source"
  let ?h = "hdr f" and ?c = "contents (hdr f) p"
  define buf1 where "buf1 = (if pos = SectorSize * a then buf else overwrite buf 0 (take SectorSize (drop (SectorSize * a) ?c)))"
  have n: "0 < n" "pos + n \<le> file_size ?h" using False transfer_range [of ?h num pos] by (auto simp: n_def)
  note r = request_sectors [OF assms(1) n, folded a_def l_def]
  have B: "L = SectorSize * (l - a) + SectorSize" using r(1) by (simp add: L_def Suc_diff_le)
  have buf: "length buf = L" "length buf1 = L" using B by (simp_all add: buf_def buf1_def)
  have e: "edges buf ?c pos n a l = (if pos + n \<noteq> SectorSize * Suc l \<and> (a \<noteq> l \<or> pos = SectorSize * a)
      then overwrite buf1 (SectorSize * (l - a)) (take SectorSize (drop (SectorSize * l) ?c)) else buf1)"
    by (simp add: edges_def buf1_def Let_def)
  have le: "length (edges buf ?c pos n a l) = L" using buf B by (simp add: e)
  have ld: "length data = n" using assms(3) by (simp add: data_def n_def)
  let ?buf3 = "overwrite (edges buf ?c pos n a l) (pos - SectorSize * a) data"
  have room: "pos - SectorSize * a + length data \<le> length (edges buf ?c pos n a l)" using le r(3,5,7) ld by (simp add: L_def)
  obtain p' where p': "write_sectors ?h (map int [a..<Suc l]) ?buf3 p = Inr p'" "platter_ok p'"
      "file_bytes ?h p' = overwrite (file_bytes ?h p) (SectorSize * a) ?buf3" "\<forall>s. s \<notin> set (file_sectors ?h) \<longrightarrow> p' s = p s"
    using write_sectors_spec [OF assms(1,2) r(2), of a ?buf3] r(1) le room by (auto simp: L_def)
  have c: "contents ?h p' = overwrite ?c pos data"
    by (rule new_contents [OF assms(1,2) p'(2) n ld _ a_def l_def p'(3)]) (simp add: buf(1) L_def)
  have sectors: "divRoundDown (int pos) (int SectorSize) = int a" "divRoundDown (int pos + int n - 1) (int SectorSize) = int l"
    using divRoundDown_sector last_sector [OF n(1)] by (simp_all add: a_def l_def)
  have count: "1 + int l - int a = int (Suc l - a)" using r(1) by simp
  have product: "nat (int x * int y) = y * x" for x y by (simp add: nat_mult_distrib mult.commute)
  have whole: "nat ((1 + int l - int a) * int SectorSize) = L" unfolding count product L_def by (rule refl)
  have "int a * int SectorSize = int (SectorSize * a)" "(int l + 1) * int SectorSize = int (SectorSize * Suc l)"
    by (simp_all add: algebra_simps)
  then have al: "(int pos = int a * int SectorSize) = (pos = SectorSize * a)"
    "(int pos + int n = (int l + 1) * int SectorSize) = (pos + n = SectorSize * Suc l)" "(int a \<noteq> int l) = (a \<noteq> l)"
    by (simp_all only: of_nat_add [symmetric] of_nat_eq_iff)
  have "SectorSize * Suc l \<le> SectorSize * 62" using r(2) assms(1) by (intro mult_le_mono2) (simp add: header_ok_def NumDirect_def SectorSize_def)
  then have room31: "int (SectorSize * l) + int SectorSize < 2 ^ 31" "int (SectorSize * a) + int SectorSize < 2 ^ 31"
    using mult_le_mono2 [OF r(1), of SectorSize] by (simp_all add: SectorSize_def)
  have commute: "int i * int SectorSize = int (SectorSize * i)" for i by simp
  have reads: "Open_ReadAt f (int SectorSize) (int l * int SectorSize) p = Inr (take SectorSize (drop (SectorSize * l) ?c))"
    "Open_ReadAt f (int SectorSize) (int a * int SectorSize) p = Inr (take SectorSize (drop (SectorSize * a) ?c))"
    unfolding commute using ReadAt_spec [OF assms(1,2) room31(1)] ReadAt_spec [OF assms(1,2) room31(2)] by simp_all
  have in1: "copy_in (take SectorSize (drop (SectorSize * a) ?c)) buf 0 = Inr (overwrite buf 0 (take SectorSize (drop (SectorSize * a) ?c)))"
    using copy_in_nat [of 0 _ buf] buf(1) B by simp
  have in2: "copy_in (take SectorSize (drop (SectorSize * l) ?c)) buf1 ((int l - int a) * int SectorSize) =
      Inr (overwrite buf1 (SectorSize * (l - a)) (take SectorSize (drop (SectorSize * l) ?c)))"
    using copy_in_nat [of "SectorSize * (l - a)" _ buf1] buf(2) B r(1) by (simp add: of_nat_diff mult.commute)
  have in3: "copy_in data (edges buf ?c pos n a l) (int (pos - SectorSize * a)) = Inr ?buf3" using copy_in_nat [OF room] .
  have out: "copy_out source 0 (int n) = Inr data" using copy_out_nat [of 0 n source] assms(3) by (simp add: data_def n_def)
  let ?r = "\<lambda>i. take SectorSize (drop (SectorSize * i) ?c)"
  have first: "(if \<not> (pos = SectorSize * a) then copy_in (?r a) buf 0 else Inr buf) = Inr buf1"
    by (simp add: in1 buf1_def)
  have last: "(if \<not> (pos + n = SectorSize * Suc l) \<and> (a \<noteq> l \<or> pos = SectorSize * a)
      then copy_in (?r l) buf1 ((int l - int a) * int SectorSize) else Inr buf1) = Inr (edges buf ?c pos n a l)"
    by (simp add: in2 e)
  have "int n \<noteq> 0" using n(1) by simp
  then have "Open_WriteAt junk f source num (int pos) p = Inr (int n, p')"
    unfolding Open_WriteAt_def Let_def clipped_nat [OF assms(1,4)] andThen_Inr n_def [symmetric] sectors whole buf_def [symmetric] al reads sector_offset [OF r(3)]
    by (simp only: if_False first last andThen_Inr out in3 upto_sectors p'(1))
  then show ?thesis using p' c by (auto simp: n_def data_def)
qed

end
