(* ===== verification/Nachos_FileAlloc.thy ===== *)
theory Nachos_FileAlloc
  imports Nachos_OpenFile
begin

section \<open>Allocation of sectors and the bit map on disk (filesys/filehdr.cc, userprog/bitmap.cc)\<close>

text \<open>
  What the operations of \<open>FileHeader\<close> do with the map of free sectors, the image of a header in its sector, and
  \<open>BitMap::FetchFrom\<close> and \<open>BitMap::WriteBack\<close>, which keep the map itself in a file.
\<close>

subsection \<open>BitMap::FetchFrom, BitMap::WriteBack\<close>

definition Map_FetchFrom :: "OpenFile \<Rightarrow> platter \<Rightarrow> BitMap \<Rightarrow> BitMap res" where
  "Map_FetchFrom f p b = andThen (Open_ReadAt f (numWords b * 4) 0 p) (\<lambda>bs.
     Inr (b\<lparr>bm_words := bytes_words (length (bm_words b)) (overwrite (words_bytes (bm_words b)) 0 bs)\<rparr>))"

definition Map_WriteBack :: "(nat \<Rightarrow> 8 word) \<Rightarrow> OpenFile \<Rightarrow> BitMap \<Rightarrow> platter \<Rightarrow> platter res" where
  "Map_WriteBack junk f b p = andThen (Open_WriteAt junk f (words_bytes (bm_words b)) (numWords b * 4) 0 p) (\<lambda>(n, p'). Inr p')"

text \<open>The map of \<open>n\<close> bits that a sequence of bytes stands for.\<close>

definition bitmap_of :: "nat \<Rightarrow> 8 word list \<Rightarrow> BitMap" where
  "bitmap_of n bs = \<lparr>numBits = int n, numWords = divRoundUp (int n) BitsInWord, bm_words = bytes_words (nat (divRoundUp (int n) BitsInWord)) bs\<rparr>"

lemma bitmap_of_ok: "wf_bitmap (bitmap_of n bs)" "numBits (bitmap_of n bs) = int n" "length (bits (bitmap_of n bs)) = n"
  by (simp_all add: bitmap_of_def wf_bitmap_def)

lemma Map_FetchFrom_spec:
  assumes "header_ok (hdr f)" "platter_ok p" "wf_bitmap b" "file_size (hdr f) = nat (numWords b * 4)" "numBits b = int n"
  shows "Map_FetchFrom f p b = Inr (bitmap_of n (contents (hdr f) p))"
proof -
  have l: "length (contents (hdr f) p) = 4 * length (bm_words b)"
    using length_contents [OF assms(1,2)] assms(3,4) by (simp add: wf_bitmap_def nat_mult_distrib mult.commute)
  have "nat (numWords b * 4) = length (contents (hdr f) p)" using length_contents [OF assms(1,2)] assms(4) by simp
  moreover have "int 0 + numWords b * 4 < 2 ^ 31" using file_size_small [OF assms(1)] assms(4) by simp
  ultimately have "Open_ReadAt f (numWords b * 4) 0 p = Inr (contents (hdr f) p)"
    using ReadAt_spec [OF assms(1,2), of 0 "numWords b * 4"] by simp
  then show ?thesis using l assms(3,5) by (cases b) (simp add: Map_FetchFrom_def bitmap_of_def overwrite_def wf_bitmap_def)
qed

lemma Map_WriteBack_spec:
  assumes "header_ok (hdr f)" "platter_ok p" "wf_bitmap b" "file_size (hdr f) = nat (numWords b * 4)" "numBits b = int n"
  shows "\<exists>p'. Map_WriteBack junk f b p = Inr p' \<and> platter_ok p' \<and> bitmap_of n (contents (hdr f) p') = b \<and>
    (\<forall>s. s \<notin> set (file_sectors (hdr f)) \<longrightarrow> p' s = p s)"
proof -
  let ?ws = "words_bytes (bm_words b)"
  have l: "length ?ws = file_size (hdr f)" using assms(3,4) by (simp add: wf_bitmap_def nat_mult_distrib mult.commute)
  have t: "transfer (hdr f) (numWords b * 4) 0 = file_size (hdr f)" using assms(4) by (simp add: transfer_def)
  obtain p' where p': "Open_WriteAt junk f ?ws (numWords b * 4) (int 0) p = Inr (int (file_size (hdr f)), p')" "platter_ok p'"
      "contents (hdr f) p' = overwrite (contents (hdr f) p) 0 (take (file_size (hdr f)) ?ws)"
      "\<forall>s. s \<notin> set (file_sectors (hdr f)) \<longrightarrow> p' s = p s"
  proof -
    have "int 0 + numWords b * 4 < 2 ^ 31" using file_size_small [OF assms(1)] assms(4) by simp
    then show ?thesis using WriteAt_spec [OF assms(1,2), of "numWords b * 4" 0 ?ws junk] t l that by auto
  qed
  have "contents (hdr f) p' = ?ws" using p'(3) l length_contents [OF assms(1,2)] by (simp add: overwrite_def)
  moreover have "bytes_words (length (bm_words b)) ?ws = bm_words b" using bytes_words_words [of "bm_words b" "[]"] by simp
  ultimately have "bitmap_of n (contents (hdr f) p') = b" using assms(3,5) by (cases b) (auto simp: bitmap_of_def wf_bitmap_def)
  with p'(1,2,4) show ?thesis by (auto simp: Map_WriteBack_def)
qed

subsection \<open>A header and its sector\<close>

lemma length_header_bytes: "length (dataSectors h) = NumDirect \<Longrightarrow> length (header_bytes h) = SectorSize"
  by (simp add: header_bytes_def NumDirect_def SectorSize_def)

lemma header_of_bytes: "length (dataSectors h) = NumDirect \<Longrightarrow> FileHeader_of (header_bytes h) = h"
  using bytes_words_words [of "numBytes h # numSectors h # dataSectors h" "[]"]
  by (simp add: FileHeader_of_def header_bytes_def Let_def del: bytes_words_words bytes_words.simps)

lemma header_of_length: "length (dataSectors (FileHeader_of bs)) = NumDirect"
  by (simp add: FileHeader_of_def Let_def del: bytes_words.simps)

subsection \<open>FileHeader::Allocate\<close>

lemma free_count: "i < length xs \<Longrightarrow> \<not> xs ! i \<Longrightarrow> length (filter Not xs) = Suc (length (filter Not (xs[i := True])))"
  by (simp add: take_update_drop) (subst id_take_nth_drop, assumption, simp)

lemma allocate_loop_spec:
  assumes "wf_bitmap m" "k \<le> n" "n - k \<le> length (filter Not (bits m))" "n \<le> length (dataSectors h)"
  shows "\<exists>ss m'. allocate_loop (map int [k..<n]) h m =
      Inr (h\<lparr>dataSectors := take k (dataSectors h) @ map (\<lambda>s. word_of_int (int s)) ss @ drop n (dataSectors h)\<rparr>, m') \<and>
    length ss = n - k \<and> distinct ss \<and> wf_bitmap m' \<and> length (bits m') = length (bits m) \<and>
    (\<forall>s\<in>set ss. s < length (bits m) \<and> \<not> bits m ! s) \<and>
    (\<forall>j < length (bits m). bits m' ! j \<longleftrightarrow> bits m ! j \<or> j \<in> set ss)"
  using assms
proof (induction "n - k" arbitrary: k h m)
  case 0
  then show ?case by (intro exI [of _ "[]"] exI [of _ m]) simp
next
  case (Suc d)
  then have k: "k < n" and "filter Not (bits m) \<noteq> []" by auto
  then have "False \<in> set (bits m)" by (auto simp: filter_empty_conv)
  then obtain i m1 where i: "i < length (bits m)" "\<not> bits m ! i" "Find m = Inr (int i, m1)" "wf_bitmap m1" "bits m1 = (bits m)[i := True]"
    using sector_map.find_free_ex [OF Suc.prems(1)] by blast
  define h1 where "h1 = h\<lparr>dataSectors := (dataSectors h)[k := word_of_int (int i)]\<rparr>"
  have prem: "d = n - Suc k" "Suc k \<le> n" "n - Suc k \<le> length (filter Not (bits m1))" "n \<le> length (dataSectors h1)"
    using Suc.hyps(2) Suc.prems(3,4) k free_count [OF i(1,2)] i(5) by (simp_all add: h1_def)
  obtain ss m2 where ss: "allocate_loop (map int [Suc k..<n]) h1 m1 =
      Inr (h1\<lparr>dataSectors := take (Suc k) (dataSectors h1) @ map (\<lambda>s. word_of_int (int s)) ss @ drop n (dataSectors h1)\<rparr>, m2)"
    "length ss = n - Suc k" "distinct ss" "wf_bitmap m2" "length (bits m2) = length (bits m1)"
    "\<forall>s\<in>set ss. s < length (bits m1) \<and> \<not> bits m1 ! s"
    "\<forall>j < length (bits m1). bits m2 ! j \<longleftrightarrow> bits m1 ! j \<or> j \<in> set ss"
    using Suc.hyps(1) [OF prem(1) i(4) prem(2,3,4)] by blast
  have step: "allocate_loop (map int [k..<n]) h m = allocate_loop (map int [Suc k..<n]) h1 m1"
    using k i(3) Suc.prems(4) by (simp add: upt_rec [of k n] h1_def)
  have shape: "take (Suc k) (dataSectors h1) @ map (\<lambda>s. word_of_int (int s)) ss @ drop n (dataSectors h1) =
      take k (dataSectors h) @ map (\<lambda>s. word_of_int (int s)) (i # ss) @ drop n (dataSectors h)"
    using k Suc.prems(4) by (simp add: h1_def take_Suc_conv_app_nth)
  have len: "length (bits m1) = length (bits m)" unfolding i(5) by (rule length_list_update)
  have "i \<notin> set ss" using ss(6) i(1) unfolding i(5) by (metis nth_list_update_eq)
  moreover have "\<forall>s\<in>set ss. s < length (bits m) \<and> \<not> bits m ! s"
    using ss(6) unfolding i(5) by (metis length_list_update nth_list_update_eq nth_list_update_neq)
  moreover have "\<forall>j < length (bits m). bits m2 ! j \<longleftrightarrow> bits m ! j \<or> j \<in> set (i # ss)"
    using ss(7) i(1) unfolding i(5) by (auto simp: nth_list_update simp del: length_bits nth_bits)
  moreover have "allocate_loop (map int [k..<n]) h m =
      Inr (h\<lparr>dataSectors := take k (dataSectors h) @ map (\<lambda>s. word_of_int (int s)) (i # ss) @ drop n (dataSectors h)\<rparr>, m2)"
    unfolding step ss(1) shape by (simp add: h1_def)
  moreover have "length (i # ss) = n - k" using ss(2) k by simp
  ultimately show ?case
    using ss(3,4,5) len i(1,2) by (intro exI [of _ "i # ss"] exI [of _ m2]) (simp del: length_bits nth_bits)
qed

lemma sectors_needed: "0 \<le> bytes \<Longrightarrow> bytes \<le> int (NumDirect * SectorSize) \<Longrightarrow>
   0 \<le> divRoundUp bytes (int SectorSize) \<and> divRoundUp bytes (int SectorSize) \<le> int NumDirect"
  using divRoundUp_bounds [of bytes "int SectorSize"] divRoundUp_ceiling [of bytes "int SectorSize"]
  by (simp add: SectorSize_def NumDirect_def)

text \<open>Allocation of a file of at most 62 sectors: refused when too few sectors are free, otherwise it takes free sectors only.\<close>

lemma Hdr_Allocate_spec:
  assumes "wf_bitmap m" "length (bits m) = nat NumSectors" "length (dataSectors h) = NumDirect"
    and "0 \<le> bytes" "bytes \<le> int (NumDirect * SectorSize)"
  shows "if length (filter Not (bits m)) < nat (divRoundUp bytes (int SectorSize))
    then \<exists>h'. Hdr_Allocate h m bytes = Inr (False, h', m)
    else \<exists>ss h' m'. Hdr_Allocate h m bytes = Inr (True, h', m') \<and> header_ok h' \<and> FileLength h' = bytes \<and>
      file_sectors h' = map int ss \<and> distinct ss \<and> wf_bitmap m' \<and> length (bits m') = length (bits m) \<and>
      (\<forall>s\<in>set ss. s < length (bits m) \<and> \<not> bits m ! s) \<and>
      (\<forall>j < length (bits m). bits m' ! j \<longleftrightarrow> bits m ! j \<or> j \<in> set ss)"
proof -
  define n where "n = nat (divRoundUp bytes (int SectorSize))"
  define h1 where "h1 = h\<lparr>numBytes := word_of_int bytes, numSectors := word_of_int (int n)\<rparr>"
  note need = sectors_needed [OF assms(4,5)]
  have n: "divRoundUp bytes (int SectorSize) = int n" "n \<le> NumDirect" using need unfolding n_def by (simp_all add: nat_le_iff)
  have clear: "NumClear m = Inr (int (length (filter Not (bits m))))" by (rule NumClear_bits [OF assms(1)])
  show ?thesis
  proof (cases "length (filter Not (bits m)) < n")
    case True
    then show ?thesis by (simp add: Hdr_Allocate_def Let_def n clear)
  next
    case False
    have ds: "dataSectors h1 = dataSectors h" by (simp add: h1_def)
    obtain ss m' where ss: "allocate_loop (map int [0..<n]) h1 m =
        Inr (h1\<lparr>dataSectors := take 0 (dataSectors h1) @ map (\<lambda>s. word_of_int (int s)) ss @ drop n (dataSectors h1)\<rparr>, m')"
      "length ss = n - 0" "distinct ss" "wf_bitmap m'" "length (bits m') = length (bits m)"
      "\<forall>s\<in>set ss. s < length (bits m) \<and> \<not> bits m ! s" "\<forall>j < length (bits m). bits m' ! j \<longleftrightarrow> bits m ! j \<or> j \<in> set ss"
    proof -
      have "n - 0 \<le> length (filter Not (bits m))" "n \<le> length (dataSectors h1)" using False n(2) assms(3) ds by simp_all
      from allocate_loop_spec [OF assms(1) le0 this] that show ?thesis by blast
    qed
    note ss = ss(1) [unfolded ds take_0 append_Nil] ss(2) [unfolded minus_nat.diff_0] ss(3-)
    define h' where "h' = h1\<lparr>dataSectors := map (\<lambda>s. word_of_int (int s)) ss @ drop n (dataSectors h)\<rparr>"
    have count: "sector_count h' = n" using n(2) by (simp add: sector_count_def h'_def h1_def sint_int32 sint_nat32 NumDirect_def SectorSize_def)
    have small: "\<forall>s\<in>set ss. int s < NumSectors" using ss(6) assms(2) by auto
    then have fs: "file_sectors h' = map int ss"
      using ss(2) count by (auto simp: file_sectors_def h'_def sint_nat32 disk_sizes)
    have fl: "FileLength h' = bytes"
      using assms(4,5) by (simp add: FileLength_def h'_def h1_def sint_int32 sint_nat32 NumDirect_def SectorSize_def)
    have "bytes \<le> int n * int SectorSize" using divRoundUp_ceiling(1) [OF assms(4), of "int SectorSize"] n(1) by (simp add: SectorSize_def)
    then have "file_size h' \<le> SectorSize * n" using fl by (simp add: file_size_def nat_le_iff mult.commute)
    moreover have "length (dataSectors h') = NumDirect" using ss(2) n(2) assms(3) by (simp add: h'_def h1_def)
    ultimately have "header_ok h'"
      using fl fs count n(2) assms(4) ss(3) small by (auto simp: header_ok_def distinct_map inj_on_def)
    moreover have "Hdr_Allocate h m bytes = Inr (True, h', m')"
      using False ss(1) by (simp add: Hdr_Allocate_def Let_def n clear upto_int_nat h'_def h1_def)
    ultimately show ?thesis using False fs fl ss(3-7) unfolding n_def [symmetric] by (simp del: length_bits nth_bits)
  qed
qed

lemma allocate_loop_append:
  "allocate_loop (is @ js) h m = andThen (allocate_loop is h m) (\<lambda>(h', m'). allocate_loop js h' m')"
proof (induction "is" arbitrary: h m)
  case (Cons i "is")
  then show ?case by (cases "Find m") (auto simp: andThen_assoc)
qed simp

subsection \<open>FileHeader::Deallocate\<close>

lemma deallocate_loop_spec:
  assumes "wf_bitmap m" "b \<le> sector_count h" "a \<le> b" "header_ok h" "length (bits m) = nat NumSectors"
    and "\<forall>s\<in>set (drop a (take b (file_sectors h))). bits m ! nat s"
  shows "\<exists>m'. deallocate_loop (map int [a..<b]) h m = Inr m' \<and> wf_bitmap m' \<and> length (bits m') = length (bits m) \<and>
    (\<forall>j < length (bits m). bits m' ! j \<longleftrightarrow> bits m ! j \<and> int j \<notin> set (drop a (take b (file_sectors h))))"
  using assms(1,3,5,6)
proof (induction "b - a" arbitrary: a m)
  case 0
  then show ?case by auto
next
  case (Suc d)
  let ?fs = "take b (file_sectors h)"
  have a: "a < b" using Suc.hyps(2) by simp
  have lfs: "length ?fs = b" using length_file_sectors [OF assms(4)] assms(2) by simp
  define t where "t = ?fs ! a"
  have split: "drop a ?fs = t # drop (Suc a) ?fs" using a lfs unfolding t_def by (metis Cons_nth_drop_Suc)
  have tr: "0 \<le> t" "t < NumSectors" and f: "fetch (dataSectors h) (int a) = Inr ((dataSectors h) ! a)" "sint (dataSectors h ! a) = t"
    using file_sector_range [OF assms(4), of a] a assms(2,4) by (auto simp: t_def header_ok_def file_sectors_def)
  have tn: "nat t < length (bits m)" "int (nat t) = t" using tr Suc.prems(3) by simp_all
  have "distinct ?fs" using assms(4) by (auto simp: header_ok_def)
  then have new: "t \<notin> set (drop (Suc a) ?fs)" using split distinct_drop [of ?fs a] by simp
  have on: "bits m ! nat t" using Suc.prems(4) split by simp
  have test: "Test m t = Inr True" using sector_map.test [OF Suc.prems(1) tn(1)] on tn(2) by simp
  obtain m1 where m1: "Clear m t = Inr m1" "wf_bitmap m1" "bits m1 = (bits m)[nat t := False]"
    using sector_map.clear [OF Suc.prems(1) tn(1)] tn(2) by auto
  have len: "length (bits m1) = length (bits m)" unfolding m1(3) by (rule length_list_update)
  have rest: "\<forall>s\<in>set (drop (Suc a) ?fs). bits m1 ! nat s"
  proof
    fix s assume s: "s \<in> set (drop (Suc a) ?fs)"
    then have "s \<in> set (file_sectors h)" by (meson in_set_dropD in_set_takeD)
    then have "0 \<le> s" using assms(4) by (simp add: header_ok_def)
    moreover have "s \<noteq> t" using s new by auto
    ultimately have "nat s \<noteq> nat t" using tr(1) by simp
    then show "bits m1 ! nat s" using Suc.prems(4) s split unfolding m1(3) by simp
  qed
  obtain m2 where m2: "deallocate_loop (map int [Suc a..<b]) h m1 = Inr m2" "wf_bitmap m2" "length (bits m2) = length (bits m1)"
      "\<forall>j < length (bits m1). bits m2 ! j \<longleftrightarrow> bits m1 ! j \<and> int j \<notin> set (drop (Suc a) ?fs)"
  proof -
    have e: "d = b - Suc a" "Suc a \<le> b" "length (bits m1) = nat NumSectors" using Suc.hyps(2) a Suc.prems(3) len by simp_all
    note hyp = that
    show ?thesis using Suc.hyps(1) [OF e(1) m1(2) e(2,3) rest] hyp by blast
  qed
  have "bits m1 ! j \<longleftrightarrow> bits m ! j \<and> int j \<noteq> t" if "j < length (bits m)" for j
    unfolding m1(3) using that tn by (cases "j = nat t") (auto simp del: length_bits nth_bits)
  then have "\<forall>j < length (bits m). bits m2 ! j \<longleftrightarrow> bits m ! j \<and> int j \<notin> set (drop a ?fs)"
    using m2(4) unfolding len split by auto
  moreover have "deallocate_loop (map int [a..<b]) h m = Inr m2"
    using a f test m1(1) m2(1) by (simp add: upt_rec [of a b])
  ultimately show ?case using m2(2,3) len by auto
qed

lemma Hdr_Deallocate_spec:
  assumes "wf_bitmap m" "header_ok h" "length (bits m) = nat NumSectors" "\<forall>s\<in>set (file_sectors h). bits m ! nat s"
  shows "\<exists>m'. Hdr_Deallocate h m = Inr m' \<and> wf_bitmap m' \<and> length (bits m') = length (bits m) \<and>
    (\<forall>j < length (bits m). bits m' ! j \<longleftrightarrow> bits m ! j \<and> int j \<notin> set (file_sectors h))"
proof -
  have "[0..sint (numSectors h) - 1] = map int [0..<sector_count h]" by (simp add: upto_int_nat sector_count_def)
  then show ?thesis
    using deallocate_loop_spec [OF assms(1) order_refl, of 0 h] assms length_file_sectors [OF assms(2)]
    by (simp add: Hdr_Deallocate_def del: length_bits nth_bits)
qed

subsection \<open>What a header and an open file guarantee\<close>

text \<open>
  C19. An open file is a sequence of bytes. \<open>ReadAt\<close> returns the bytes asked for that lie inside the file, none for a negative
  count; \<open>WriteAt\<close> overwrites exactly the bytes of the request that lie inside the file and returns their number: the
  sectors it has to read back at both ends, the new buffer with whatever it holds, and all sectors of other files are as before.
\<close>

theorem open_file_is_bytes:
  assumes "header_ok (hdr f)" "platter_ok p" "0 \<le> position" "num \<le> int (length source)" "position + num < 2 ^ 31"
  shows "Open_ReadAt f num position p = Inr (take (nat num) (drop (nat position) (contents (hdr f) p))) \<and>
    (\<exists>p' n. Open_WriteAt junk f source num position p = Inr (int n, p') \<and> n = min (nat num) (nat (Length f) - nat position) \<and>
       platter_ok p' \<and> contents (hdr f) p' = overwrite (contents (hdr f) p) (nat position) (take n source) \<and>
       (\<forall>s. s \<notin> set (file_sectors (hdr f)) \<longrightarrow> p' s = p s))"
proof -
  have p: "position = int (nat position)" using assms(3) by simp
  have t: "transfer (hdr f) num (nat position) = min (nat num) (nat (Length f) - nat position)"
    by (simp add: transfer_def file_size_def Length_def)
  have "transfer (hdr f) num (nat position) \<le> length source" using assms(4) by (simp add: transfer_def)
  moreover have "int (nat position) + num < 2 ^ 31" using assms(3,5) by simp
  ultimately show ?thesis using WriteAt_spec [OF assms(1,2), of num "nat position" source junk] ReadAt_spec [OF assms(1,2), of "nat position" num]
    unfolding t using p by metis
qed

definition demo_header :: FileHeader where
  "demo_header = \<lparr>numBytes = 300, numSectors = 2, dataSectors = [7, 5] @ replicate 60 0\<rparr>"

lemma demo_header_ok: "header_ok demo_header"
  by (simp add: header_ok_def demo_header_def FileLength_def file_size_def sector_count_def file_sectors_def NumDirect_def disk_sizes)

theorem open_file_is_bytes_witness:
  "\<exists>p'. Open_WriteAt (\<lambda>_. 0) \<lparr>hdr = demo_header, seekPosition = 0\<rparr> [1, 2, 3, 4] 4 298 (\<lambda>_. replicate SectorSize 9) = Inr (2, p') \<and>
     contents demo_header p' = overwrite (contents demo_header (\<lambda>_. replicate SectorSize 9)) 298 [1, 2] \<and>
     p' 3 = replicate SectorSize 9"
proof -
  have len: "nat (Length \<lparr>hdr = demo_header, seekPosition = 0\<rparr>) = 300" by (simp add: Length_def FileLength_def demo_header_def)
  have "3 \<notin> set (file_sectors demo_header)" by (simp add: file_sectors_def sector_count_def demo_header_def)
  moreover have "platter_ok (\<lambda>_. replicate SectorSize 9)" by (simp add: platter_ok_def)
  ultimately show ?thesis
    using open_file_is_bytes [of "\<lparr>hdr = demo_header, seekPosition = 0\<rparr>" "\<lambda>_. replicate SectorSize 9" 298 4 "[1, 2, 3, 4]" "\<lambda>_. 0"]
      demo_header_ok len by (auto simp: numeral_2_eq_2)
qed

text \<open>
  C31. A file's life on disk is a round trip. A header that \<open>Allocate\<close> filled for a file of at most 62 sectors describes a well-formed
  file of that size on sectors that were free; written to its sector and fetched again it is the same header; and
  \<open>Deallocate\<close> with it finds every sector marked and gives the map back with the same bits.
\<close>

theorem allocate_deallocate_roundtrip:
  assumes "wf_bitmap m" "numBits m = NumSectors" "length (dataSectors h) = NumDirect"
    and "0 \<le> bytes" "bytes \<le> int (NumDirect * SectorSize)" "Hdr_Allocate h m bytes = Inr (True, h', m')"
    and "0 \<le> sec" "sec < NumSectors"
  shows "header_ok h' \<and> FileLength h' = bytes \<and> (\<forall>s\<in>set (file_sectors h'). Test m s = Inr False \<and> Test m' s = Inr True) \<and>
    (\<exists>p' m2. Hdr_WriteBack h' sec p = Inr p' \<and> Hdr_FetchFrom sec p' = Inr h' \<and>
       Hdr_Deallocate h' m' = Inr m2 \<and> bits m2 = bits m)"
proof -
  have lm: "length (bits m) = nat NumSectors" using assms(2) by simp
  obtain ss where a: "header_ok h'" "FileLength h' = bytes" "file_sectors h' = map int ss"
      "wf_bitmap m'" "length (bits m') = length (bits m)" "\<forall>s\<in>set ss. s < length (bits m) \<and> \<not> bits m ! s"
      "\<forall>j < length (bits m). bits m' ! j \<longleftrightarrow> bits m ! j \<or> j \<in> set ss"
    using Hdr_Allocate_spec [OF assms(1) lm assms(3-5)] assms(6) by (auto simp del: length_bits nth_bits split: if_splits)
  have marked: "\<forall>s\<in>set (file_sectors h'). bits m' ! nat s" using a(3,6,7) by auto
  have lm': "length (bits m') = nat NumSectors" using a(5) lm by simp
  obtain m2 where m2: "Hdr_Deallocate h' m' = Inr m2" "length (bits m2) = length (bits m')"
      "\<forall>j < length (bits m'). bits m2 ! j \<longleftrightarrow> bits m' ! j \<and> int j \<notin> set (file_sectors h')"
    using Hdr_Deallocate_spec [OF a(4,1) lm' marked] by blast
  have "bits m2 = bits m" using m2(2,3) a(3,5-7) by (intro nth_equalityI) (auto simp del: length_bits nth_bits)
  moreover have "\<forall>s\<in>set (file_sectors h'). Test m s = Inr False \<and> Test m' s = Inr True"
    unfolding a(3) using sector_map.test [OF assms(1)] sector_map.test [OF a(4)] a(5-7)
    by (auto simp del: length_bits nth_bits)
  moreover have "Hdr_FetchFrom sec (p(sec := header_bytes h')) = Inr h'"
    using assms(7,8) a(1) by (simp add: Hdr_FetchFrom_def read_sector_def header_of_bytes header_ok_def)
  ultimately show ?thesis using a(1,2) m2(1) assms(7,8) by (simp add: Hdr_WriteBack_def write_sector_def)
qed

theorem allocate_deallocate_roundtrip_witness:
  "\<exists>m h' m' m2. Hdr_Allocate demo_header m 1000 = Inr (True, h', m') \<and> FileLength h' = 1000 \<and>
     Hdr_Deallocate h' m' = Inr m2 \<and> bits m2 = bits m"
proof -
  obtain m where m: "wf_bitmap m" "numBits m = NumSectors" "bits m = replicate (nat NumSectors) False"
    using BitMap_new_bits [of NumSectors "\<lambda>_. 0"] by (auto simp: disk_sizes)
  have d: "length (dataSectors demo_header) = NumDirect" by (simp add: demo_header_def NumDirect_def SectorSize_def)
  have "length (filter Not (bits m)) = nat NumSectors" using m(3) by simp
  moreover have "\<not> nat NumSectors < nat (divRoundUp 1000 (int SectorSize))" by (simp add: disk_sizes divRoundUp_def sdiv_nonneg smod_nonneg)
  moreover have "(1000::int) \<le> int (NumDirect * SectorSize)" by (simp add: NumDirect_def SectorSize_def)
  ultimately obtain h' m' where a: "Hdr_Allocate demo_header m 1000 = Inr (True, h', m')"
    using Hdr_Allocate_spec [OF m(1) _ d, of 1000] m(2,3) by auto
  with allocate_deallocate_roundtrip [OF m(1,2) d _ _ a, of 0] show ?thesis
    by (fastforce simp: NumDirect_def disk_sizes)
qed

lemma Find_returns: "wf_bitmap m \<Longrightarrow> \<exists>i m'. Find m = Inr (i, m')"
  using sector_map.find_free_ex [of m] Find_full [of m] by (cases "False \<in> set (bits m)") (auto simp: in_set_conv_nth)

text \<open>
  \<open>Allocate\<close> asks whether the disk has enough free sectors, never whether the header has room for their numbers: for a file
  of more than 62 sectors (15872 bytes) on a disk that has the space, it goes on writing past the end of \<open>dataSectors\<close>.
\<close>

theorem Allocate_past_the_header:
  assumes "wf_bitmap m" "length (dataSectors h) = NumDirect" "int (NumDirect * SectorSize) < bytes"
    and "NumClear m = Inr clear" "divRoundUp bytes (int SectorSize) \<le> clear"
  shows "Hdr_Allocate h m bytes = Inl OutOfBounds"
proof -
  define n where "n = nat (divRoundUp bytes (int SectorSize))"
  define h1 where "h1 = h\<lparr>numBytes := word_of_int bytes, numSectors := word_of_int (int n)\<rparr>"
  have "0 \<le> bytes" using assms(3) by (simp add: NumDirect_def SectorSize_def)
  note up = divRoundUp_ceiling(1) [OF this, of "int SectorSize"] divRoundUp_bounds [OF this, of "int SectorSize"]
  have n: "divRoundUp bytes (int SectorSize) = int n" "NumDirect < n"
    using up assms(3) by (simp_all add: n_def SectorSize_def NumDirect_def)
  have free: "clear = int (length (filter Not (bits m)))" using NumClear_bits [OF assms(1)] assms(4) by simp
  have "NumDirect - 0 \<le> length (filter Not (bits m))" "NumDirect \<le> length (dataSectors h1)"
    using n assms(2,5) free by (simp_all add: h1_def del: length_bits)
  from allocate_loop_spec [OF assms(1) le0 this] obtain ss m' where ss: "allocate_loop (map int [0..<NumDirect]) h1 m =
      Inr (h1\<lparr>dataSectors := take 0 (dataSectors h1) @ map (\<lambda>s. word_of_int (int s)) ss @ drop NumDirect (dataSectors h1)\<rparr>, m')"
    "length ss = NumDirect - 0" "wf_bitmap m'" by blast
  obtain i m'' where "Find m' = Inr (i, m'')" using Find_returns [OF ss(3)] by blast
  moreover have "length (dataSectors h1) = NumDirect" using assms(2) by (simp add: h1_def)
  ultimately have fail: "allocate_loop (map int [0..<NumDirect] @ map int (NumDirect # [Suc NumDirect..<n])) h1 m = Inl OutOfBounds"
    unfolding allocate_loop_append ss(1) using ss(2) by (simp add: store_def)
  have "[0..<n] = [0..<NumDirect] @ [NumDirect..<n]" using n(2) upt_add_eq_append [of 0 NumDirect "n - NumDirect"] by simp
  then have "map int [0..<n] = map int [0..<NumDirect] @ map int (NumDirect # [Suc NumDirect..<n])"
    using n(2) upt_conv_Cons by (metis map_append)
  then show ?thesis using fail assms(5) by (simp add: Hdr_Allocate_def Let_def n(1) assms(4) upto_int_nat h1_def)
qed

theorem Allocate_past_the_header_witness:
  "\<exists>m. NumClear m = Inr 1024 \<and> Hdr_Allocate demo_header m 15873 = Inl OutOfBounds"
proof -
  obtain m where m: "wf_bitmap m" "numBits m = NumSectors" "bits m = replicate (nat NumSectors) False"
    using BitMap_new_bits [of NumSectors "\<lambda>_. 0"] by (auto simp: disk_sizes)
  have d: "length (dataSectors demo_header) = NumDirect" by (simp add: demo_header_def NumDirect_def SectorSize_def)
  have c: "NumClear m = Inr 1024" using NumClear_bits [OF m(1)] m(3) by (simp add: disk_sizes)
  moreover have "divRoundUp 15873 (int SectorSize) \<le> 1024" by (simp add: SectorSize_def divRoundUp_def sdiv_nonneg smod_nonneg)
  ultimately show ?thesis
    using Allocate_past_the_header [OF m(1) d, of 15873 1024] by (auto simp: NumDirect_def SectorSize_def)
qed

end
