(* ===== verification/Nachos_Directory.thy ===== *)
theory Nachos_Directory
  imports Nachos_FileAlloc
begin

section \<open>Directories (filesys/directory.h, filesys/directory.cc)\<close>

text \<open>
  A directory is a table of a fixed number of entries that lives in a file byte for byte. \<open>entry_bytes\<close> is the layout the host
  compiler gives \<open>DirectoryEntry\<close>: the flag, three bytes of padding, the sector, ten characters and two bytes of padding. Names
  are C strings compared and copied up to nine characters, so a name counts up to its \<open>key\<close> only. The locale \<open>name_table\<close> states
  what the file system expects of a directory, and the model of \<open>Directory\<close> interprets it.
\<close>

subsection \<open>Entries and the table\<close>

definition FileNameMaxLen :: nat where "FileNameMaxLen = 9"

record DirectoryEntry =
  inUse :: "8 word"
  pad :: "8 word list"
  header_sector :: "32 word"
  entry_name :: "8 word list"
  tail_pad :: "8 word list"

record Directory =
  tableSize :: int
  table :: "DirectoryEntry list"

definition EntrySize :: nat where "EntrySize = 20"

definition entry_bytes :: "DirectoryEntry \<Rightarrow> 8 word list" where
  "entry_bytes e = inUse e # pad e @ word_bytes (header_sector e) @ entry_name e @ tail_pad e"

definition entry_of :: "8 word list \<Rightarrow> DirectoryEntry" where
  "entry_of bs = \<lparr>inUse = bs ! 0, pad = take 3 (drop 1 bs), header_sector = bytes_word (take 4 (drop 4 bs)),
     entry_name = take 10 (drop 8 bs), tail_pad = take 2 (drop 18 bs)\<rparr>"

definition table_bytes :: "DirectoryEntry list \<Rightarrow> 8 word list" where
  "table_bytes es = concat (map entry_bytes es)"

fun entries_of :: "nat \<Rightarrow> 8 word list \<Rightarrow> DirectoryEntry list" where
  "entries_of 0 bs = []"
| "entries_of (Suc n) bs = entry_of (take EntrySize bs) # entries_of n (drop EntrySize bs)"

definition used :: "DirectoryEntry \<Rightarrow> bool" where
  "used e \<longleftrightarrow> inUse e \<noteq> 0"

text \<open>\<open>strncmp\<close> and \<open>strncpy\<close> on C strings that end at the first null character (or at the end of the list).\<close>

definition c_prefix :: "nat \<Rightarrow> 8 word list \<Rightarrow> 8 word list" where
  "c_prefix n s = takeWhile (\<lambda>c. c \<noteq> 0) (take n s)"

definition strncmp_eq :: "8 word list \<Rightarrow> 8 word list \<Rightarrow> nat \<Rightarrow> bool" where
  "strncmp_eq s t n \<longleftrightarrow> c_prefix n s = c_prefix n t"

definition strncpy :: "8 word list \<Rightarrow> 8 word list \<Rightarrow> nat \<Rightarrow> 8 word list" where
  "strncpy dst src n = (let s = c_prefix n src in overwrite dst 0 (s @ replicate (n - length s) 0))"

subsection \<open>The operations\<close>

text \<open>The constructor: \<open>new\<close> leaves \<open>junk\<close> in the entries, and the loop resets the flags.\<close>

definition Directory_new :: "(nat \<Rightarrow> 8 word) \<Rightarrow> int \<Rightarrow> Directory" where
  "Directory_new junk n = \<lparr>tableSize = n, table = map (\<lambda>e. e\<lparr>inUse := 0\<rparr>) (entries_of (nat n) (map junk [0..<nat n * EntrySize]))\<rparr>"

definition Dir_FetchFrom :: "OpenFile \<Rightarrow> platter \<Rightarrow> Directory \<Rightarrow> Directory res" where
  "Dir_FetchFrom f p d = andThen (Open_ReadAt f (tableSize d * int EntrySize) 0 p) (\<lambda>bs.
     Inr (d\<lparr>table := entries_of (length (table d)) (overwrite (table_bytes (table d)) 0 bs)\<rparr>))"

definition Dir_WriteBack :: "(nat \<Rightarrow> 8 word) \<Rightarrow> OpenFile \<Rightarrow> Directory \<Rightarrow> platter \<Rightarrow> platter res" where
  "Dir_WriteBack junk f d p = andThen (Open_WriteAt junk f (table_bytes (table d)) (tableSize d * int EntrySize) 0 p) (\<lambda>(n, p'). Inr p')"

fun find_index_loop :: "DirectoryEntry list \<Rightarrow> 8 word list \<Rightarrow> int list \<Rightarrow> int res" where
  "find_index_loop es name [] = Inr (-1)"
| "find_index_loop es name (i # is) = andThen (fetch es i) (\<lambda>e.
     if used e \<and> strncmp_eq (entry_name e) name FileNameMaxLen then Inr i else find_index_loop es name is)"

definition FindIndex :: "Directory \<Rightarrow> 8 word list \<Rightarrow> int res" where
  "FindIndex d name = find_index_loop (table d) name [0..tableSize d - 1]"

definition Dir_Find :: "Directory \<Rightarrow> 8 word list \<Rightarrow> int res" where
  "Dir_Find d name = andThen (FindIndex d name) (\<lambda>i.
     if i \<noteq> -1 then andThen (fetch (table d) i) (\<lambda>e. Inr (sint (header_sector e))) else Inr (-1))"

fun add_loop :: "Directory \<Rightarrow> 8 word list \<Rightarrow> int \<Rightarrow> int list \<Rightarrow> (bool \<times> Directory) res" where
  "add_loop d name newSector [] = Inr (False, d)"
| "add_loop d name newSector (i # is) = andThen (fetch (table d) i) (\<lambda>e.
     if \<not> used e then andThen (store (table d) i (e\<lparr>inUse := 1, entry_name := strncpy (entry_name e) name FileNameMaxLen,
         header_sector := word_of_int newSector\<rparr>)) (\<lambda>es. Inr (True, d\<lparr>table := es\<rparr>))
     else add_loop d name newSector is)"

definition Dir_Add :: "Directory \<Rightarrow> 8 word list \<Rightarrow> int \<Rightarrow> (bool \<times> Directory) res" where
  "Dir_Add d name newSector = andThen (FindIndex d name) (\<lambda>i.
     if i \<noteq> -1 then Inr (False, d) else add_loop d name newSector [0..tableSize d - 1])"

definition Dir_Remove :: "Directory \<Rightarrow> 8 word list \<Rightarrow> (bool \<times> Directory) res" where
  "Dir_Remove d name = andThen (FindIndex d name) (\<lambda>i.
     if i = -1 then Inr (False, d)
     else andThen (fetch (table d) i) (\<lambda>e. andThen (store (table d) i (e\<lparr>inUse := 0\<rparr>)) (\<lambda>es. Inr (True, d\<lparr>table := es\<rparr>))))"

text \<open>\<open>List\<close> prints the name of every entry in use; \<open>printf\<close> stops at the null character and does not look at the end of the array.\<close>

fun c_string :: "8 word list \<Rightarrow> 8 word list res" where
  "c_string [] = Inl OutOfBounds"
| "c_string (c # cs) = (if c = 0 then Inr [] else andThen (c_string cs) (\<lambda>s. Inr (c # s)))"

fun list_loop :: "DirectoryEntry list \<Rightarrow> int list \<Rightarrow> 8 word list list res" where
  "list_loop es [] = Inr []"
| "list_loop es (i # is) = andThen (fetch es i) (\<lambda>e. if used e
     then andThen (c_string (entry_name e)) (\<lambda>s. andThen (list_loop es is) (\<lambda>rest. Inr (s # rest))) else list_loop es is)"

definition Dir_List :: "Directory \<Rightarrow> 8 word list list res" where
  "Dir_List d = list_loop (table d) [0..tableSize d - 1]"

subsection \<open>Names\<close>

definition key :: "8 word list \<Rightarrow> 8 word list" where
  "key = c_prefix FileNameMaxLen"

lemma length_c_prefix: "length (c_prefix n s) \<le> n"
proof -
  have "length (takeWhile (\<lambda>c. c \<noteq> 0) (take n s)) \<le> length (take n s)" by (rule length_takeWhile_le)
  also have "\<dots> \<le> n" by simp
  finally show ?thesis by (simp add: c_prefix_def)
qed

lemma c_prefix_nonzero: "c \<in> set (c_prefix n s) \<Longrightarrow> c \<noteq> 0"
  by (auto simp: c_prefix_def dest: set_takeWhileD)

lemma c_prefix_padded: "\<forall>c\<in>set s. c \<noteq> 0 \<Longrightarrow> length s \<le> n \<Longrightarrow> c_prefix n ((s @ replicate (n - length s) 0) @ rest) = s"
  by (cases "n - length s") (simp_all add: c_prefix_def takeWhile_append)

lemma strncpy_spec:
  assumes "n \<le> length dst"
  shows "c_prefix n (strncpy dst src n) = c_prefix n src" "length (strncpy dst src n) = length dst"
    "drop n (strncpy dst src n) = drop n dst"
proof -
  have l: "length (c_prefix n src) \<le> n" by (rule length_c_prefix)
  then have e: "strncpy dst src n = (c_prefix n src @ replicate (n - length (c_prefix n src)) 0) @ drop n dst"
    by (simp add: strncpy_def overwrite_def Let_def)
  show "c_prefix n (strncpy dst src n) = c_prefix n src"
    unfolding e by (rule c_prefix_padded) (use l c_prefix_nonzero in auto)
  show "length (strncpy dst src n) = length dst" "drop n (strncpy dst src n) = drop n dst"
    using l assms by (simp_all add: e)
qed

lemma strncmp_key: "strncmp_eq s t FileNameMaxLen \<longleftrightarrow> key s = key t"
  by (simp add: strncmp_eq_def key_def)

lemma key_idem: "key (key s) = key s"
proof -
  have "take FileNameMaxLen (key s) = key s" by (simp add: key_def length_c_prefix)
  then show ?thesis unfolding key_def c_prefix_def by (simp add: takeWhile_idem)
qed

subsection \<open>The table as bytes\<close>

definition entry_ok :: "DirectoryEntry \<Rightarrow> bool" where
  "entry_ok e \<longleftrightarrow> length (pad e) = 3 \<and> length (entry_name e) = 10 \<and> length (tail_pad e) = 2"

lemma length_entry_bytes: "entry_ok e \<Longrightarrow> length (entry_bytes e) = EntrySize"
  by (simp add: entry_ok_def entry_bytes_def EntrySize_def)

lemma entry_of_bytes: "entry_ok e \<Longrightarrow> entry_of (entry_bytes e) = e"
  by (cases e) (simp add: entry_ok_def entry_bytes_def entry_of_def)

lemma entry_of_ok: "length bs = EntrySize \<Longrightarrow> entry_ok (entry_of bs)"
  by (simp add: entry_ok_def entry_of_def EntrySize_def)

lemma length_entries_of [simp]: "length (entries_of n bs) = n"
  by (induction n arbitrary: bs) simp_all

lemma entries_of_ok: "n * EntrySize \<le> length bs \<Longrightarrow> e \<in> set (entries_of n bs) \<Longrightarrow> entry_ok e"
proof (induction n arbitrary: bs)
  case (Suc n)
  then show ?case using entry_of_ok [of "take EntrySize bs"] Suc.IH [of "drop EntrySize bs"] by auto
qed simp

lemma length_table_bytes: "\<forall>e\<in>set es. entry_ok e \<Longrightarrow> length (table_bytes es) = length es * EntrySize"
  by (induction es) (simp_all add: table_bytes_def length_entry_bytes)

lemma entries_of_bytes: "\<forall>e\<in>set es. entry_ok e \<Longrightarrow> entries_of (length es) (table_bytes es @ rest) = es"
  by (induction es) (simp_all add: table_bytes_def length_entry_bytes entry_of_bytes)

definition directory_of :: "nat \<Rightarrow> 8 word list \<Rightarrow> Directory" where
  "directory_of n bs = \<lparr>tableSize = int n, table = entries_of n bs\<rparr>"

definition dir_table_ok :: "Directory \<Rightarrow> bool" where
  "dir_table_ok d \<longleftrightarrow> tableSize d = int (length (table d)) \<and> (\<forall>e\<in>set (table d). entry_ok e)"

lemma Directory_new_ok:
  "0 \<le> n \<Longrightarrow> dir_table_ok (Directory_new junk n)" "0 \<le> n \<Longrightarrow> tableSize (Directory_new junk n) = n" "\<forall>e\<in>set (table (Directory_new junk n)). \<not> used e"
  using entries_of_ok [of "nat n" "map junk [0..<nat n * EntrySize]"]
  by (auto simp: dir_table_ok_def Directory_new_def used_def entry_ok_def)

lemma directory_of_ok: "n * EntrySize \<le> length bs \<Longrightarrow> dir_table_ok (directory_of n bs)"
  using entries_of_ok by (auto simp: dir_table_ok_def directory_of_def)

lemma Dir_FetchFrom_spec:
  assumes "header_ok (hdr f)" "platter_ok p" "dir_table_ok d" "tableSize d = int n" "file_size (hdr f) = n * EntrySize"
  shows "Dir_FetchFrom f p d = Inr (directory_of n (contents (hdr f) p))"
proof -
  have l: "length (contents (hdr f) p) = n * EntrySize" using length_contents [OF assms(1,2)] assms(5) by simp
  have t: "length (table d) = n" "length (table_bytes (table d)) = n * EntrySize"
    using assms(3,4) length_table_bytes [of "table d"] by (simp_all add: dir_table_ok_def)
  have "Open_ReadAt f (tableSize d * int EntrySize) 0 p = Inr (contents (hdr f) p)"
    using ReadAt_spec [OF assms(1,2), of 0 "tableSize d * int EntrySize"] l assms(4,5) file_size_small [OF assms(1)]
    by (simp add: nat_mult_distrib flip: of_nat_mult)
  then show ?thesis using l t assms(4) by (cases d) (simp add: Dir_FetchFrom_def directory_of_def overwrite_def)
qed

lemma Dir_WriteBack_spec:
  assumes "header_ok (hdr f)" "platter_ok p" "dir_table_ok d" "tableSize d = int n" "file_size (hdr f) = n * EntrySize"
  shows "\<exists>p'. Dir_WriteBack junk f d p = Inr p' \<and> platter_ok p' \<and> directory_of n (contents (hdr f) p') = d \<and>
    (\<forall>s. s \<notin> set (file_sectors (hdr f)) \<longrightarrow> p' s = p s)"
proof -
  let ?bs = "table_bytes (table d)"
  have l: "length ?bs = file_size (hdr f)" using assms(3-5) length_table_bytes [of "table d"] by (simp add: dir_table_ok_def)
  have t: "transfer (hdr f) (tableSize d * int EntrySize) 0 = file_size (hdr f)"
    using assms(4,5) by (simp add: transfer_def nat_mult_distrib)
  obtain p' where p': "Open_WriteAt junk f ?bs (tableSize d * int EntrySize) (int 0) p = Inr (int (file_size (hdr f)), p')" "platter_ok p'"
      "contents (hdr f) p' = overwrite (contents (hdr f) p) 0 (take (file_size (hdr f)) ?bs)"
      "\<forall>s. s \<notin> set (file_sectors (hdr f)) \<longrightarrow> p' s = p s"
    using WriteAt_spec [OF assms(1,2), of "tableSize d * int EntrySize" 0 ?bs junk] t l file_size_small [OF assms(1)] assms(4,5)
    by (auto simp flip: of_nat_mult)
  have "contents (hdr f) p' = ?bs" using p'(3) l length_contents [OF assms(1,2)] by (simp add: overwrite_def)
  moreover have "entries_of n ?bs = table d" using entries_of_bytes [of "table d" "[]"] assms(3,4) by (simp add: dir_table_ok_def)
  ultimately have "directory_of n (contents (hdr f) p') = d" using assms(4) by (cases d) (simp add: directory_of_def)
  with p'(1,2,4) show ?thesis by (auto simp: Dir_WriteBack_def)
qed

subsection \<open>The entries in use\<close>

definition entry_key :: "DirectoryEntry \<Rightarrow> 8 word list" where
  "entry_key e = key (entry_name e)"

definition listed :: "Directory \<Rightarrow> DirectoryEntry list" where
  "listed d = filter used (table d)"

lemma filter_insert: "i < length xs \<Longrightarrow> \<not> P (xs ! i) \<Longrightarrow> P y \<Longrightarrow> \<exists>us vs. filter P xs = us @ vs \<and> filter P (xs[i := y]) = us @ y # vs"
  by (subst id_take_nth_drop, assumption) (auto simp: upd_conv_take_nth_drop)

lemma filter_delete: "i < length xs \<Longrightarrow> P (xs ! i) \<Longrightarrow> \<not> P y \<Longrightarrow> \<exists>us vs. filter P xs = us @ xs ! i # vs \<and> filter P (xs[i := y]) = us @ vs"
  by (subst id_take_nth_drop, assumption) (auto simp: upd_conv_take_nth_drop)

lemma find_index_loop_spec:
  "\<forall>i\<in>set is. i < length es \<Longrightarrow> find_index_loop es name (map int is) =
     Inr (case find (\<lambda>i. used (es ! i) \<and> entry_key (es ! i) = key name) is of None \<Rightarrow> -1 | Some i \<Rightarrow> int i)"
  by (induction "is") (auto simp: strncmp_key entry_key_def)

lemma FindIndex_cases:
  assumes "dir_table_ok d"
  obtains (absent) "FindIndex d name = Inr (-1)" "\<forall>e\<in>set (listed d). entry_key e \<noteq> key name"
    | (found) i where "FindIndex d name = Inr (int i)" "i < length (table d)" "used (table d ! i)" "entry_key (table d ! i) = key name"
proof -
  let ?P = "\<lambda>i. used (table d ! i) \<and> entry_key (table d ! i) = key name"
  have e: "FindIndex d name = Inr (case find ?P [0..<length (table d)] of None \<Rightarrow> -1 | Some i \<Rightarrow> int i)"
    using find_index_loop_spec [of "[0..<length (table d)]" "table d" name] assms by (simp add: FindIndex_def dir_table_ok_def upto_int_nat)
  show ?thesis
  proof (cases "find ?P [0..<length (table d)]")
    case None
    then have "\<forall>e\<in>set (listed d). entry_key e \<noteq> key name" by (auto simp: find_None_iff listed_def in_set_conv_nth)
    then show ?thesis using absent e None by simp
  next
    case (Some i)
    then show ?thesis using found e find_Some_iff [of ?P "[0..<length (table d)]" i] by auto
  qed
qed

lemma add_loop_spec:
  "\<forall>i\<in>set is. i < length (table d) \<Longrightarrow> add_loop d name s (map int is) =
     Inr (case find (\<lambda>i. \<not> used (table d ! i)) is of None \<Rightarrow> (False, d)
       | Some i \<Rightarrow> (True, d\<lparr>table := (table d)[i := (table d ! i)\<lparr>inUse := 1,
           entry_name := strncpy (entry_name (table d ! i)) name FileNameMaxLen, header_sector := word_of_int s\<rparr>]\<rparr>))"
  by (induction "is") auto

lemma Dir_Add_spec:
  assumes "dir_table_ok d"
  shows "if (\<exists>e\<in>set (listed d). entry_key e = key name) \<or> length (listed d) = length (table d) then Dir_Add d name s = Inr (False, d)
    else \<exists>e us vs d'. Dir_Add d name s = Inr (True, d') \<and> dir_table_ok d' \<and> tableSize d' = tableSize d \<and>
      listed d = us @ vs \<and> listed d' = us @ e # vs \<and> entry_key e = key name \<and> header_sector e = word_of_int s"
  using assms
proof (cases rule: FindIndex_cases [of _ name])
  case (found i)
  then have "table d ! i \<in> set (listed d)" by (simp add: listed_def)
  then show ?thesis using found by (auto simp: Dir_Add_def)
next
  case absent
  have range: "\<forall>i\<in>set [0..<length (table d)]. i < length (table d)" by simp
  have n: "[0..tableSize d - 1] = map int [0..<length (table d)]" using assms by (simp add: dir_table_ok_def upto_int_nat)
  show ?thesis
  proof (cases "find (\<lambda>i. \<not> used (table d ! i)) [0..<length (table d)]")
    case None
    then have "filter used (table d) = table d" by (auto simp: find_None_iff in_set_conv_nth intro!: filter_True)
    then show ?thesis using absent None add_loop_spec [OF range] by (simp add: Dir_Add_def n listed_def)
  next
    case (Some i)
    define e where "e = (table d ! i)\<lparr>inUse := 1, entry_name := strncpy (entry_name (table d ! i)) name FileNameMaxLen,
      header_sector := word_of_int s\<rparr>"
    have i: "i < length (table d)" "\<not> used (table d ! i)"
      using Some find_Some_iff [of "\<lambda>i. \<not> used (table d ! i)" "[0..<length (table d)]" i] by auto
    have l: "FileNameMaxLen \<le> length (entry_name (table d ! i))" "entry_ok (table d ! i)"
      using assms i(1) by (simp_all add: dir_table_ok_def entry_ok_def FileNameMaxLen_def)
    have e: "used e" "entry_key e = key name" "header_sector e = word_of_int s" "entry_ok e"
      using strncpy_spec [OF l(1), of name] l(2) by (simp_all add: e_def used_def entry_key_def key_def entry_ok_def)
    obtain us vs where uv: "listed d = us @ vs" "filter used ((table d)[i := e]) = us @ e # vs"
      unfolding listed_def using filter_insert [of i "table d" used e] i e(1) by blast
    have "length (listed d) \<noteq> length (table d)" using i by (metis listed_def length_filter_less nth_mem nat_neq_iff)
    moreover have "Dir_Add d name s = Inr (True, d\<lparr>table := (table d)[i := e]\<rparr>)"
      using absent Some add_loop_spec [OF range, of name s] by (simp add: Dir_Add_def n e_def)
    moreover have "dir_table_ok (d\<lparr>table := (table d)[i := e]\<rparr>)"
      using assms e(4) by (auto simp: dir_table_ok_def dest!: set_update_subset_insert [THEN subsetD])
    moreover have "listed (d\<lparr>table := (table d)[i := e]\<rparr>) = us @ e # vs" using uv(2) by (simp add: listed_def)
    moreover have "tableSize (d\<lparr>table := (table d)[i := e]\<rparr>) = tableSize d" by simp
    moreover have "\<not> (\<exists>e\<in>set (listed d). entry_key e = key name)" using absent(2) by blast
    ultimately show ?thesis using uv(1) e(2,3) by (simp only: if_False simp_thms) blast
  qed
qed

lemma Dir_Remove_spec:
  assumes "dir_table_ok d"
  shows "if \<forall>e\<in>set (listed d). entry_key e \<noteq> key name then Dir_Remove d name = Inr (False, d)
    else \<exists>e us vs d'. Dir_Remove d name = Inr (True, d') \<and> dir_table_ok d' \<and> tableSize d' = tableSize d \<and>
      listed d = us @ e # vs \<and> listed d' = us @ vs \<and> entry_key e = key name"
  using assms
proof (cases rule: FindIndex_cases [of _ name])
  case absent
  then show ?thesis by (simp add: Dir_Remove_def)
next
  case (found i)
  let ?e = "table d ! i"
  have "?e \<in> set (listed d)" using found by (simp add: listed_def)
  moreover obtain us vs where uv: "listed d = us @ ?e # vs" "filter used ((table d)[i := ?e\<lparr>inUse := 0\<rparr>]) = us @ vs"
    unfolding listed_def using filter_delete [of i "table d" used "?e\<lparr>inUse := 0\<rparr>"] found by (auto simp: used_def)
  moreover have "Dir_Remove d name = Inr (True, d\<lparr>table := (table d)[i := ?e\<lparr>inUse := 0\<rparr>]\<rparr>)"
    using found by (simp add: Dir_Remove_def)
  moreover have "entry_ok ?e" using assms found(2) by (simp add: dir_table_ok_def)
  then have "entry_ok (?e\<lparr>inUse := 0\<rparr>)" by (simp add: entry_ok_def)
  then have "dir_table_ok (d\<lparr>table := (table d)[i := ?e\<lparr>inUse := 0\<rparr>]\<rparr>)"
    using assms by (auto simp: dir_table_ok_def dest!: set_update_subset_insert [THEN subsetD])
  ultimately show ?thesis using found(4) by (auto simp: listed_def)
qed

subsection \<open>A directory as a finite map\<close>

text \<open>What the file system relies on: a table of names of bounded size, in which \<open>-1\<close> stands for a missing name.\<close>

locale name_table =
  fixes lookup :: "'d \<Rightarrow> 'n \<Rightarrow> int res"
    and insert_name :: "'d \<Rightarrow> 'n \<Rightarrow> int \<Rightarrow> (bool \<times> 'd) res"
    and delete_name :: "'d \<Rightarrow> 'n \<Rightarrow> (bool \<times> 'd) res"
    and norm :: "'n \<Rightarrow> 'n"
    and abs :: "'d \<Rightarrow> 'n \<Rightarrow> int option"
    and capacity :: "'d \<Rightarrow> nat"
    and sector_ok :: "int \<Rightarrow> bool"
    and valid :: "'d \<Rightarrow> bool"
  assumes lookup: "valid d \<Longrightarrow> lookup d n = Inr (case abs d (norm n) of None \<Rightarrow> -1 | Some s \<Rightarrow> s)"
    and insert_name: "valid d \<Longrightarrow> sector_ok s \<Longrightarrow>
      if abs d (norm n) \<noteq> None \<or> card (dom (abs d)) = capacity d then insert_name d n s = Inr (False, d)
      else \<exists>d'. insert_name d n s = Inr (True, d') \<and> valid d' \<and> capacity d' = capacity d \<and> abs d' = (abs d)(norm n \<mapsto> s)"
    and delete_name: "valid d \<Longrightarrow>
      if abs d (norm n) = None then delete_name d n = Inr (False, d)
      else \<exists>d'. delete_name d n = Inr (True, d') \<and> valid d' \<and> capacity d' = capacity d \<and> abs d' = (abs d)(norm n := None)"
    and stored: "valid d \<Longrightarrow> abs d n = Some s \<Longrightarrow> 0 \<le> s"
    and finite_names: "finite (dom (abs d))"
begin

lemma absent: "valid d \<Longrightarrow> lookup d n = Inr (-1) \<longleftrightarrow> abs d (norm n) = None"
  using lookup [of d n] stored [of d "norm n"] by (cases "abs d (norm n)") force+

lemma insert_lookup:
  assumes "valid d" "sector_ok s" "insert_name d n s = Inr (True, d')"
  shows "valid d' \<and> lookup d' m = (if norm m = norm n then Inr s else lookup d m)"
  using insert_name [OF assms(1,2), of n] assms(3) lookup [OF assms(1), of m] lookup [of d' m]
  by (auto split: if_splits)

lemma insert_refused:
  assumes "valid d" "sector_ok s"
  shows "insert_name d n s = Inr (False, d) \<longleftrightarrow> lookup d n \<noteq> Inr (-1) \<or> card (dom (abs d)) = capacity d"
  using insert_name [OF assms, of n] absent [OF assms(1), of n] by (auto split: if_splits)

lemma delete_lookup:
  assumes "valid d" "delete_name d n = Inr (True, d')"
  shows "valid d' \<and> lookup d n \<noteq> Inr (-1) \<and> lookup d' m = (if norm m = norm n then Inr (-1) else lookup d m)"
  using delete_name [OF assms(1), of n] assms(2) lookup [OF assms(1), of m] lookup [of d' m] absent [OF assms(1), of n]
  by (auto split: if_splits)

lemma insert_delete:
  assumes "valid d" "sector_ok s" "insert_name d n s = Inr (True, d')"
  shows "\<exists>d''. delete_name d' n = Inr (True, d'') \<and> valid d'' \<and> abs d'' = abs d"
proof -
  have d': "valid d'" "abs d' = (abs d)(norm n \<mapsto> s)" "abs d (norm n) = None"
    using insert_name [OF assms(1,2), of n] assms(3) by (auto split: if_splits)
  then have "(abs d')(norm n := None) = abs d" by (simp add: fun_upd_idem)
  then show ?thesis using delete_name [OF d'(1), of n] d'(2) by auto
qed

end

definition entry_pair :: "DirectoryEntry \<Rightarrow> 8 word list \<times> int" where
  "entry_pair e = (entry_key e, sint (header_sector e))"

definition dir_map :: "Directory \<Rightarrow> 8 word list \<Rightarrow> int option" where
  "dir_map d = map_of (map entry_pair (listed d))"

definition dir_sector :: "int \<Rightarrow> bool" where
  "dir_sector s \<longleftrightarrow> 0 \<le> s \<and> s < NumSectors"

definition dir_ok :: "Directory \<Rightarrow> bool" where
  "dir_ok d \<longleftrightarrow> dir_table_ok d \<and> distinct (map entry_key (listed d)) \<and> (\<forall>e\<in>set (listed d). dir_sector (sint (header_sector e)))"

lemma fst_entry_pair [simp]: "fst (entry_pair e) = entry_key e" "fst \<circ> entry_pair = entry_key"
  by (auto simp: entry_pair_def)

lemma map_of_insert:
  "distinct (map fst (us @ (k, v) # vs)) \<Longrightarrow> map_of (us @ (k, v) # vs) = (map_of (us @ vs))(k \<mapsto> v)"
  by (induction us) auto

lemma map_of_delete:
  "distinct (map fst (us @ (k, v) # vs)) \<Longrightarrow> map_of (us @ vs) = (map_of (us @ (k, v) # vs))(k := None)"
proof -
  assume d: "distinct (map fst (us @ (k, v) # vs))"
  then have "map_of (us @ vs) k = None" by (auto simp: map_of_eq_None_iff)
  then show ?thesis using map_of_insert [OF d] by (simp add: fun_upd_idem)
qed

lemma card_dir_map: "dir_ok d \<Longrightarrow> card (dom (dir_map d)) = length (listed d)"
  by (simp add: dir_map_def dom_map_of_conv_image_fst image_image dir_ok_def flip: set_map) (metis distinct_card length_map set_map)

lemma dir_map_None: "dir_map d k = None \<longleftrightarrow> (\<forall>e\<in>set (listed d). entry_key e \<noteq> k)"
  by (auto simp: dir_map_def map_of_eq_None_iff image_iff)

lemma Dir_Find_map:
  assumes "dir_ok d"
  shows "Dir_Find d name = Inr (case dir_map d (key name) of None \<Rightarrow> -1 | Some s \<Rightarrow> s)"
proof -
  have t: "dir_table_ok d" and dk: "distinct (map fst (map entry_pair (listed d)))" using assms by (simp_all add: dir_ok_def)
  from t show ?thesis
  proof (cases rule: FindIndex_cases [of _ name])
    case absent
    then show ?thesis using dir_map_None [of d "key name"] by (simp add: Dir_Find_def)
  next
    case (found i)
    then have "entry_pair (table d ! i) \<in> set (map entry_pair (listed d))" by (simp add: listed_def)
    then have "dir_map d (key name) = Some (sint (header_sector (table d ! i)))"
      using map_of_is_SomeI [OF dk] found(4) by (simp add: dir_map_def entry_pair_def)
    then show ?thesis using found(1,2) by (simp add: Dir_Find_def)
  qed
qed

lemma Dir_Add_map:
  assumes "dir_ok d" "dir_sector s"
  shows "if dir_map d (key name) \<noteq> None \<or> card (dom (dir_map d)) = length (table d) then Dir_Add d name s = Inr (False, d)
    else \<exists>d'. Dir_Add d name s = Inr (True, d') \<and> dir_ok d' \<and> length (table d') = length (table d) \<and> dir_map d' = (dir_map d)(key name \<mapsto> s)"
proof -
  have t: "dir_table_ok d" using assms(1) by (simp add: dir_ok_def)
  have c: "(dir_map d (key name) \<noteq> None \<or> card (dom (dir_map d)) = length (table d)) \<longleftrightarrow>
      ((\<exists>e\<in>set (listed d). entry_key e = key name) \<or> length (listed d) = length (table d))"
    unfolding dir_map_None card_dir_map [OF assms(1)] by blast
  show ?thesis
  proof (cases "(\<exists>e\<in>set (listed d). entry_key e = key name) \<or> length (listed d) = length (table d)")
    case True
    then show ?thesis unfolding c using Dir_Add_spec [OF t, of name s] by (simp only: if_True)
  next
    case False
    then obtain e us vs d' where e: "Dir_Add d name s = Inr (True, d')" "dir_table_ok d'" "tableSize d' = tableSize d"
        "listed d = us @ vs" "listed d' = us @ e # vs" "entry_key e = key name" "header_sector e = word_of_int s"
      using Dir_Add_spec [OF t, of name s] by (simp only: if_False) blast
    have s: "sint (header_sector e) = s" using assms(2) e(7) by (simp add: sint_int32 dir_sector_def disk_sizes)
    have fresh: "key name \<notin> entry_key ` set (us @ vs)" using False e(4) by auto
    then have d: "distinct (map entry_key (listed d'))" using assms(1) e(4-6) by (auto simp: dir_ok_def)
    have "dir_map d' = (dir_map d)(key name \<mapsto> s)"
      using map_of_insert [of "map entry_pair us" "key name" s "map entry_pair vs"] d e(4-6) s
      by (simp add: dir_map_def entry_pair_def)
    moreover have "dir_ok d'" using assms e(2,4,5) d s by (auto simp: dir_ok_def)
    moreover have "length (table d') = length (table d)" using e(2,3) t by (simp add: dir_table_ok_def)
    ultimately show ?thesis unfolding c using False e(1) by (simp only: if_False) blast
  qed
qed

lemma Dir_Remove_map:
  assumes "dir_ok d"
  shows "if dir_map d (key name) = None then Dir_Remove d name = Inr (False, d)
    else \<exists>d'. Dir_Remove d name = Inr (True, d') \<and> dir_ok d' \<and> length (table d') = length (table d) \<and> dir_map d' = (dir_map d)(key name := None)"
proof -
  have t: "dir_table_ok d" using assms(1) by (simp add: dir_ok_def)
  show ?thesis
  proof (cases "\<forall>e\<in>set (listed d). entry_key e \<noteq> key name")
    case True
    show ?thesis unfolding dir_map_None if_P [OF True] using Dir_Remove_spec [OF t, of name] unfolding if_P [OF True] .
  next
    case False
    then obtain e us vs d' where e: "Dir_Remove d name = Inr (True, d')" "dir_table_ok d'" "tableSize d' = tableSize d"
        "listed d = us @ e # vs" "listed d' = us @ vs" "entry_key e = key name"
      using Dir_Remove_spec [OF t, of name] by (simp only: if_False) blast
    have "dir_map d' = (dir_map d)(key name := None)"
      using map_of_delete [of "map entry_pair us" "key name" "sint (header_sector e)" "map entry_pair vs"] assms e(4-6)
      by (simp add: dir_map_def entry_pair_def dir_ok_def)
    moreover have "dir_ok d'" using assms e(2,4,5) by (auto simp: dir_ok_def)
    moreover have "length (table d') = length (table d)" using e(2,3) t by (simp add: dir_table_ok_def)
    ultimately show ?thesis unfolding dir_map_None using False e(1) by (simp only: if_False) blast
  qed
qed

interpretation names: name_table Dir_Find Dir_Add Dir_Remove key dir_map "\<lambda>d. length (table d)" dir_sector dir_ok
proof unfold_locales
  show "dir_ok d \<Longrightarrow> dir_map d n = Some s \<Longrightarrow> 0 \<le> s" for d n s
    by (auto simp: dir_map_def entry_pair_def dir_ok_def dir_sector_def dest!: map_of_SomeD)
  show "finite (dom (dir_map d))" for d by (simp add: dir_map_def finite_dom_map_of)
qed (rule Dir_Find_map Dir_Add_map Dir_Remove_map; assumption)+


lemma empty_directory: "0 \<le> n \<Longrightarrow> dir_ok (Directory_new junk n) \<and> listed (Directory_new junk n) = []"
  using Directory_new_ok(1,2) [of n junk] Directory_new_ok(3) [of junk n] by (simp add: dir_ok_def listed_def filter_empty_conv)


lemma c_string_unended: "\<forall>c\<in>set cs. c \<noteq> 0 \<Longrightarrow> c_string cs = Inl OutOfBounds"
  by (induction cs) simp_all

text \<open>
  \<open>DirectoryEntry::name\<close> has a tenth character for the end of the string, but \<open>strncpy\<close> with nine never writes it. A name of
  nine characters or more, put into a new directory whose memory was not zero, has no end: \<open>List\<close> reads past the entry.
\<close>

theorem nine_letters_have_no_end:
  assumes "\<forall>i. junk i \<noteq> 0" "length (key name) = FileNameMaxLen" "0 < n"
  shows "\<exists>d. Dir_Add (Directory_new junk n) name s = Inr (True, d) \<and> Dir_List d = Inl OutOfBounds"
proof -
  let ?d = "Directory_new junk n"
  obtain k where k: "nat n = Suc k" using assms(3) by (metis gr0_implies_Suc zero_less_nat_eq)
  define e0 where "e0 = (entry_of (take EntrySize (map junk [0..<nat n * EntrySize])))\<lparr>inUse := 0\<rparr>"
  define es where "es = map (\<lambda>e. e\<lparr>inUse := 0\<rparr>) (entries_of k (drop EntrySize (map junk [0..<nat n * EntrySize])))"
  define e where "e = e0\<lparr>inUse := 1, entry_name := strncpy (entry_name e0) name FileNameMaxLen, header_sector := word_of_int s\<rparr>"
  have t: "table ?d = e0 # es" "tableSize ?d = n" unfolding Directory_new_def k by (simp_all add: e0_def es_def k)
  have ok: "dir_table_ok ?d" "listed ?d = []" using Directory_new_ok(1) [of n junk] Directory_new_ok(3) [of junk n] assms(3)
    by (simp_all add: listed_def filter_empty_conv)
  then have absent: "FindIndex ?d name = Inr (-1)" using FindIndex_cases [OF ok(1), of name] by (metis listed_def filter_empty_conv nth_mem)
  have up: "[0..n - 1] = 0 # [1..n - 1]" using assms(3) by (simp add: upto_rec1)
  have "\<not> used e0" by (simp add: used_def e0_def)
  then have add: "Dir_Add ?d name s = Inr (True, ?d\<lparr>table := e # es\<rparr>)"
    using absent by (simp add: Dir_Add_def t up fetch_def store_def e_def)
  have len: "length (entry_name e0) = 10" using ok(1) t(1) by (simp add: dir_table_ok_def entry_ok_def)
  have junk_name: "c \<noteq> 0" if "c \<in> set (entry_name e0)" for c
    using that assms(1) by (auto simp: e0_def entry_of_def dest!: in_set_takeD in_set_dropD)
  have new: "strncpy (entry_name e0) name FileNameMaxLen = key name @ drop FileNameMaxLen (entry_name e0)"
    using assms(2) by (simp add: strncpy_def key_def overwrite_def Let_def)
  have "\<forall>c\<in>set (entry_name e). c \<noteq> 0"
  proof
    fix c assume "c \<in> set (entry_name e)"
    then have "c \<in> set (key name) \<or> c \<in> set (drop FileNameMaxLen (entry_name e0))" by (simp add: e_def new)
    then show "c \<noteq> 0" using junk_name [OF in_set_dropD] c_prefix_nonzero unfolding key_def by blast
  qed
  then have "c_string (entry_name e) = Inl OutOfBounds" by (rule c_string_unended)
  moreover have "used e" by (simp add: e_def used_def)
  ultimately have "Dir_List (?d\<lparr>table := e # es\<rparr>) = Inl OutOfBounds" by (simp add: Dir_List_def t(2) up fetch_def)
  then show ?thesis using add by blast
qed

theorem nine_letters_have_no_end_witness:
  "\<exists>d. Dir_Add (Directory_new (\<lambda>_. 7) 10) (replicate 9 97) 5 = Inr (True, d) \<and> Dir_List d = Inl OutOfBounds"
proof -
  have "length (key (replicate 9 97)) = FileNameMaxLen" by (simp add: key_def c_prefix_def FileNameMaxLen_def takeWhile_replicate)
  then show ?thesis using nine_letters_have_no_end [of "\<lambda>_. 7" "replicate 9 97" 10 5] by simp
qed

end
