(* ===== verification/Nachos_FileSys.thy ===== *)
theory Nachos_FileSys
  imports Nachos_Directory
begin

section \<open>The file system (filesys/filesys.cc)\<close>

text \<open>
  A \<open>FileSystem\<close> keeps two files open, the map of free sectors and the directory; everything else is on the disk. The invariant
  \<open>fs_ok\<close> says that the headers on the disk are well formed, that no sector belongs to two files and that the map marks
  exactly the sectors in use; \<open>files\<close> is the abstract state, a map from names to byte sequences. Formatting, \<open>Create\<close>, \<open>Open\<close>
  and \<open>Remove\<close> keep the invariant and refine the operations on that map. \<open>mem k\<close> is what the \<open>k\<close>-th piece of memory an
  operation takes from the heap contains before it is initialised.
\<close>

subsection \<open>The operations\<close>

definition FreeMapSector :: int where "FreeMapSector = 0"
definition DirectorySector :: int where "DirectorySector = 1"
definition FreeMapFileSize :: int where "FreeMapFileSize = NumSectors div BitsInByte"
definition NumDirEntries :: nat where "NumDirEntries = 10"
definition DirectoryFileSize :: int where "DirectoryFileSize = int (EntrySize * NumDirEntries)"

record FileSystem =
  freeMapFile :: OpenFile
  directoryFile :: OpenFile

definition heap_words :: "(nat \<Rightarrow> 8 word) \<Rightarrow> nat \<Rightarrow> 32 word" where
  "heap_words m i = bytes_word (map m [4 * i..<4 * i + 4])"

definition FileHeader_new :: "(nat \<Rightarrow> 8 word) \<Rightarrow> FileHeader" where
  "FileHeader_new m = FileHeader_of (map m [0..<SectorSize])"

definition FS_new :: "(nat \<Rightarrow> nat \<Rightarrow> 8 word) \<Rightarrow> bool \<Rightarrow> platter \<Rightarrow> (FileSystem \<times> platter) res" where
  "FS_new mem format p = (if format then
     andThen (BitMap_new (heap_words (mem 0)) NumSectors) (\<lambda>freeMap.
     let directory = Directory_new (mem 1) (int NumDirEntries) in
     andThen (Mark freeMap FreeMapSector) (\<lambda>freeMap. andThen (Mark freeMap DirectorySector) (\<lambda>freeMap.
     andThen (Hdr_Allocate (FileHeader_new (mem 2)) freeMap FreeMapFileSize) (\<lambda>(success, mapHdr, freeMap). ASSERT success (
     andThen (Hdr_Allocate (FileHeader_new (mem 3)) freeMap DirectoryFileSize) (\<lambda>(success, dirHdr, freeMap). ASSERT success (
     andThen (Hdr_WriteBack mapHdr FreeMapSector p) (\<lambda>p. andThen (Hdr_WriteBack dirHdr DirectorySector p) (\<lambda>p.
     andThen (OpenFile_new FreeMapSector p) (\<lambda>mapFile. andThen (OpenFile_new DirectorySector p) (\<lambda>dirFile.
     andThen (Map_WriteBack (mem 4) mapFile freeMap p) (\<lambda>p. andThen (Dir_WriteBack (mem 5) dirFile directory p) (\<lambda>p.
       Inr (\<lparr>freeMapFile = mapFile, directoryFile = dirFile\<rparr>, p))))))))))))))
   else andThen (OpenFile_new FreeMapSector p) (\<lambda>mapFile. andThen (OpenFile_new DirectorySector p) (\<lambda>dirFile.
       Inr (\<lparr>freeMapFile = mapFile, directoryFile = dirFile\<rparr>, p))))"

text \<open>The directory and the map as an operation fetches them into newly allocated objects.\<close>

definition fetch_directory :: "(nat \<Rightarrow> 8 word) \<Rightarrow> FileSystem \<Rightarrow> platter \<Rightarrow> Directory res" where
  "fetch_directory m fs p = Dir_FetchFrom (directoryFile fs) p (Directory_new m (int NumDirEntries))"

definition fetch_map :: "(nat \<Rightarrow> 8 word) \<Rightarrow> FileSystem \<Rightarrow> platter \<Rightarrow> BitMap res" where
  "fetch_map m fs p = andThen (BitMap_new (heap_words m) NumSectors) (Map_FetchFrom (freeMapFile fs) p)"

definition FS_Create :: "(nat \<Rightarrow> nat \<Rightarrow> 8 word) \<Rightarrow> FileSystem \<Rightarrow> 8 word list \<Rightarrow> int \<Rightarrow> platter \<Rightarrow> (bool \<times> platter) res" where
  "FS_Create mem fs name initialSize p = andThen (fetch_directory (mem 0) fs p) (\<lambda>directory.
     andThen (Dir_Find directory name) (\<lambda>found. if found \<noteq> -1 then Inr (False, p) else
     andThen (fetch_map (mem 1) fs p) (\<lambda>freeMap.
     andThen (Find freeMap) (\<lambda>(sec, freeMap). if sec = -1 then Inr (False, p) else
     andThen (Dir_Add directory name sec) (\<lambda>(added, directory). if \<not> added then Inr (False, p) else
     andThen (Hdr_Allocate (FileHeader_new (mem 2)) freeMap initialSize) (\<lambda>(success, h, freeMap). if \<not> success then Inr (False, p) else
     andThen (Hdr_WriteBack h sec p) (\<lambda>p.
     andThen (Dir_WriteBack (mem 3) (directoryFile fs) directory p) (\<lambda>p.
     andThen (Map_WriteBack (mem 4) (freeMapFile fs) freeMap p) (\<lambda>p. Inr (True, p))))))))))"

definition FS_Open :: "(nat \<Rightarrow> nat \<Rightarrow> 8 word) \<Rightarrow> FileSystem \<Rightarrow> 8 word list \<Rightarrow> platter \<Rightarrow> OpenFile option res" where
  "FS_Open mem fs name p = andThen (fetch_directory (mem 0) fs p) (\<lambda>directory. andThen (Dir_Find directory name) (\<lambda>sec.
     if sec \<ge> 0 then andThen (OpenFile_new sec p) (\<lambda>f. Inr (Some f)) else Inr None))"

definition FS_Remove :: "(nat \<Rightarrow> nat \<Rightarrow> 8 word) \<Rightarrow> FileSystem \<Rightarrow> 8 word list \<Rightarrow> platter \<Rightarrow> (bool \<times> platter) res" where
  "FS_Remove mem fs name p = andThen (fetch_directory (mem 0) fs p) (\<lambda>directory.
     andThen (Dir_Find directory name) (\<lambda>sec. if sec = -1 then Inr (False, p) else
     andThen (Hdr_FetchFrom sec p) (\<lambda>fileHdr.
     andThen (fetch_map (mem 1) fs p) (\<lambda>freeMap.
     andThen (Hdr_Deallocate fileHdr freeMap) (\<lambda>freeMap. andThen (Clear freeMap sec) (\<lambda>freeMap.
     andThen (Dir_Remove directory name) (\<lambda>(_, directory).
     andThen (Map_WriteBack (mem 2) (freeMapFile fs) freeMap p) (\<lambda>p.
     andThen (Dir_WriteBack (mem 3) (directoryFile fs) directory p) (\<lambda>p. Inr (True, p))))))))))"

definition FS_List :: "(nat \<Rightarrow> nat \<Rightarrow> 8 word) \<Rightarrow> FileSystem \<Rightarrow> platter \<Rightarrow> 8 word list list res" where
  "FS_List mem fs p = andThen (fetch_directory (mem 0) fs p) Dir_List"

subsection \<open>The invariant and the abstract state\<close>

abbreviation mapHdr :: "FileSystem \<Rightarrow> FileHeader" where "mapHdr fs \<equiv> hdr (freeMapFile fs)"
abbreviation dirHdr :: "FileSystem \<Rightarrow> FileHeader" where "dirHdr fs \<equiv> hdr (directoryFile fs)"

definition disk_bits :: nat where "disk_bits = 1024"

definition the_map :: "FileSystem \<Rightarrow> platter \<Rightarrow> BitMap" where
  "the_map fs p = bitmap_of disk_bits (contents (mapHdr fs) p)"

definition the_dir :: "FileSystem \<Rightarrow> platter \<Rightarrow> Directory" where
  "the_dir fs p = directory_of NumDirEntries (contents (dirHdr fs) p)"

definition entry_header :: "platter \<Rightarrow> DirectoryEntry \<Rightarrow> FileHeader" where
  "entry_header p e = FileHeader_of (p (sint (header_sector e)))"

definition owned :: "platter \<Rightarrow> DirectoryEntry \<Rightarrow> int list" where
  "owned p e = sint (header_sector e) # file_sectors (entry_header p e)"

definition system_sectors :: "FileSystem \<Rightarrow> int list" where
  "system_sectors fs = FreeMapSector # DirectorySector # file_sectors (mapHdr fs) @ file_sectors (dirHdr fs)"

definition all_sectors :: "FileSystem \<Rightarrow> platter \<Rightarrow> int list" where
  "all_sectors fs p = system_sectors fs @ concat (map (owned p) (listed (the_dir fs p)))"

definition system_ok :: "FileSystem \<Rightarrow> bool" where
  "system_ok fs \<longleftrightarrow> header_ok (mapHdr fs) \<and> file_size (mapHdr fs) = nat FreeMapFileSize \<and>
     header_ok (dirHdr fs) \<and> file_size (dirHdr fs) = nat DirectoryFileSize \<and> distinct (system_sectors fs)"

definition fs_ok :: "FileSystem \<Rightarrow> platter \<Rightarrow> bool" where
  "fs_ok fs p \<longleftrightarrow> system_ok fs \<and> platter_ok p \<and> FileHeader_of (p FreeMapSector) = mapHdr fs \<and> FileHeader_of (p DirectorySector) = dirHdr fs \<and>
     dir_ok (the_dir fs p) \<and> (\<forall>e\<in>set (listed (the_dir fs p)). header_ok (entry_header p e)) \<and> distinct (all_sectors fs p) \<and>
     (\<forall>j < disk_bits. bits (the_map fs p) ! j \<longleftrightarrow> int j \<in> set (all_sectors fs p))"

definition file_pair :: "platter \<Rightarrow> DirectoryEntry \<Rightarrow> 8 word list \<times> 8 word list" where
  "file_pair p e = (entry_key e, contents (entry_header p e) p)"

definition files :: "FileSystem \<Rightarrow> platter \<Rightarrow> 8 word list \<Rightarrow> 8 word list option" where
  "files fs p = map_of (map (file_pair p) (listed (the_dir fs p)))"

lemmas fs_sizes = disk_sizes FreeMapFileSize_def DirectoryFileSize_def EntrySize_def NumDirEntries_def BitsInByte_def disk_bits_def

subsection \<open>Fetching and writing back the map and the directory\<close>

lemma map_words: "numBits b = int disk_bits \<Longrightarrow> wf_bitmap b \<Longrightarrow> nat (numWords b * 4) = nat FreeMapFileSize"
  by (simp add: wf_bitmap_def fs_sizes BitsInWord_def divRoundUp_def sdiv_nonneg smod_nonneg)

lemma fetch_directory_spec:
  assumes "system_ok fs" "platter_ok p"
  shows "fetch_directory m fs p = Inr (the_dir fs p)"
  using Dir_FetchFrom_spec [of "directoryFile fs" p "Directory_new m (int NumDirEntries)" NumDirEntries] assms
    Directory_new_ok(1,2) [of "int NumDirEntries" m]
  by (simp add: fetch_directory_def the_dir_def system_ok_def DirectoryFileSize_def mult.commute nat_mult_distrib)

lemma fetch_map_spec:
  assumes "system_ok fs" "platter_ok p"
  shows "fetch_map m fs p = Inr (the_map fs p)"
proof -
  obtain b where b: "BitMap_new (heap_words m) NumSectors = Inr b" "wf_bitmap b" "numBits b = NumSectors"
    using BitMap_new_bits [of NumSectors "heap_words m"] by (auto simp: disk_sizes)
  then have "numBits b = int disk_bits" by (simp add: fs_sizes)
  then show ?thesis using Map_FetchFrom_spec [of "freeMapFile fs" p b disk_bits] b(1,2) assms map_words [of b]
    by (simp add: fetch_map_def the_map_def system_ok_def)
qed

lemma contents_frame: "\<forall>s\<in>set (file_sectors h). p' s = p s \<Longrightarrow> contents h p' = contents h p"
  unfolding contents_def file_bytes_def by (simp cong: map_cong)

definition system_blocks :: "FileSystem \<Rightarrow> int set" where
  "system_blocks fs = set (file_sectors (mapHdr fs)) \<union> set (file_sectors (dirHdr fs))"

lemma write_directory:
  assumes "system_ok fs" "platter_ok p" "dir_table_ok d" "tableSize d = int NumDirEntries"
  shows "\<exists>p'. Dir_WriteBack m (directoryFile fs) d p = Inr p' \<and> platter_ok p' \<and> the_dir fs p' = d \<and> the_map fs p' = the_map fs p \<and>
    (\<forall>s. s \<notin> system_blocks fs \<longrightarrow> p' s = p s)"
proof -
  have "file_size (dirHdr fs) = NumDirEntries * EntrySize" "header_ok (dirHdr fs)"
    using assms(1) by (simp_all add: system_ok_def fs_sizes)
  then obtain p' where p': "Dir_WriteBack m (directoryFile fs) d p = Inr p'" "platter_ok p'" "the_dir fs p' = d"
      "\<forall>s. s \<notin> set (file_sectors (dirHdr fs)) \<longrightarrow> p' s = p s"
    using Dir_WriteBack_spec [of "directoryFile fs" p d NumDirEntries m] assms(2-4) unfolding the_dir_def by auto
  have "\<forall>s\<in>set (file_sectors (mapHdr fs)). p' s = p s" using p'(4) assms(1) by (auto simp: system_ok_def system_sectors_def)
  then have "the_map fs p' = the_map fs p" unfolding the_map_def using contents_frame [of "mapHdr fs" p' p] by simp
  with p' show ?thesis by (auto simp: system_blocks_def)
qed

lemma write_map:
  assumes "system_ok fs" "platter_ok p" "wf_bitmap b" "numBits b = int disk_bits"
  shows "\<exists>p'. Map_WriteBack m (freeMapFile fs) b p = Inr p' \<and> platter_ok p' \<and> the_map fs p' = b \<and> the_dir fs p' = the_dir fs p \<and>
    (\<forall>s. s \<notin> system_blocks fs \<longrightarrow> p' s = p s)"
proof -
  have "file_size (mapHdr fs) = nat (numWords b * 4)" "header_ok (mapHdr fs)"
    using assms(1) map_words [OF assms(4,3)] by (simp_all add: system_ok_def)
  then obtain p' where p': "Map_WriteBack m (freeMapFile fs) b p = Inr p'" "platter_ok p'" "the_map fs p' = b"
      "\<forall>s. s \<notin> set (file_sectors (mapHdr fs)) \<longrightarrow> p' s = p s"
    using Map_WriteBack_spec [of "freeMapFile fs" p b disk_bits m] assms(2-4) unfolding the_map_def by auto
  have "\<forall>s\<in>set (file_sectors (dirHdr fs)). p' s = p s" using p'(4) assms(1) by (auto simp: system_ok_def system_sectors_def)
  then have "the_dir fs p' = the_dir fs p" unfolding the_dir_def using contents_frame [of "dirHdr fs" p' p] by simp
  with p' show ?thesis by (auto simp: system_blocks_def)
qed

subsection \<open>Sectors and their owners\<close>

lemma system_blocks_sectors: "system_blocks fs \<subseteq> set (system_sectors fs)"
  by (auto simp: system_blocks_def system_sectors_def)

lemma system_numbers: "system_ok fs \<Longrightarrow> FreeMapSector \<notin> system_blocks fs \<and> DirectorySector \<notin> system_blocks fs"
  by (auto simp: system_ok_def system_sectors_def system_blocks_def)

lemma entry_frame:
  assumes "\<forall>s\<in>set (owned p e). p' s = p s"
  shows "entry_header p' e = entry_header p e" "owned p' e = owned p e" "file_pair p' e = file_pair p e"
proof -
  show h: "entry_header p' e = entry_header p e" using assms by (simp add: owned_def entry_header_def)
  then show "owned p' e = owned p e" by (simp add: owned_def)
  have "contents (entry_header p e) p' = contents (entry_header p e) p" by (rule contents_frame) (use assms in \<open>simp add: owned_def\<close>)
  then show "file_pair p' e = file_pair p e" using h by (simp add: file_pair_def)
qed

lemma file_pair_fst [simp]: "fst (file_pair p e) = entry_key e" "fst \<circ> file_pair p = entry_key"
  by (auto simp: file_pair_def)

lemma files_None: "files fs p k = None \<longleftrightarrow> (\<forall>e\<in>set (listed (the_dir fs p)). entry_key e \<noteq> k)"
  by (auto simp: files_def map_of_eq_None_iff image_iff)

lemma files_dir_map: "files fs p k = None \<longleftrightarrow> dir_map (the_dir fs p) k = None"
  by (simp add: files_None dir_map_None)

lemma card_files: "dir_ok (the_dir fs p) \<Longrightarrow> card (dom (files fs p)) = length (listed (the_dir fs p))"
proof -
  assume d: "dir_ok (the_dir fs p)"
  have "dom (files fs p) = dom (dir_map (the_dir fs p))" unfolding dom_def files_dir_map by (rule refl)
  then show ?thesis using card_dir_map [OF d] by simp
qed

lemma owned_in_all: "e \<in> set (listed (the_dir fs p)) \<Longrightarrow> set (owned p e) \<subseteq> set (all_sectors fs p)"
  by (auto simp: all_sectors_def)

lemma owned_apart: "fs_ok fs p \<Longrightarrow> e \<in> set (listed (the_dir fs p)) \<Longrightarrow> set (owned p e) \<inter> set (system_sectors fs) = {}"
  by (auto simp: fs_ok_def all_sectors_def)

lemma all_sectors_range:
  assumes "fs_ok fs p" "s \<in> set (all_sectors fs p)"
  shows "0 \<le> s \<and> s < int disk_bits"
proof -
  have sys: "\<forall>s\<in>set (system_sectors fs). 0 \<le> s \<and> s < NumSectors"
    using assms(1) by (auto simp: fs_ok_def system_ok_def system_sectors_def header_ok_def FreeMapSector_def DirectorySector_def disk_sizes)
  have "\<forall>e\<in>set (listed (the_dir fs p)). \<forall>s\<in>set (owned p e). 0 \<le> s \<and> s < NumSectors"
    using assms(1) by (auto simp: fs_ok_def owned_def header_ok_def dir_ok_def dir_sector_def)
  then show ?thesis using sys assms(2) by (auto simp: all_sectors_def fs_sizes)
qed

lemma count_marked:
  assumes "distinct xs" "\<forall>x\<in>set xs. 0 \<le> x \<and> x < int n" "length bs = n" "\<forall>j < n. bs ! j \<longleftrightarrow> int j \<in> set xs"
  shows "length (filter Not bs) + length xs = n"
proof -
  have "{j. j < length bs \<and> bs ! j} = nat ` set xs"
  proof (intro equalityI subsetI)
    fix j assume "j \<in> {j. j < length bs \<and> bs ! j}"
    then have "int j \<in> set xs" using assms(3,4) by blast
    then show "j \<in> nat ` set xs" by (metis image_eqI nat_int)
  next
    fix j assume "j \<in> nat ` set xs"
    then show "j \<in> {j. j < length bs \<and> bs ! j}" using assms(2-4) by auto
  qed
  then have "length (filter (\<lambda>b. b) bs) = card (nat ` set xs)" by (simp add: length_filter_conv_card)
  also have "\<dots> = length xs"
  proof -
    have "inj_on nat (set xs)" using assms(2) by (intro inj_onI) (metis int_nat_eq)
    then show ?thesis using card_image distinct_card [OF assms(1)] by metis
  qed
  finally show ?thesis using sum_length_filter_compl [of "\<lambda>b. b" bs] assms(3) by simp
qed

lemma free_sectors:
  assumes "fs_ok fs p"
  shows "length (filter Not (bits (the_map fs p))) + length (all_sectors fs p) = disk_bits"
  using count_marked [of "all_sectors fs p" disk_bits "bits (the_map fs p)"] assms all_sectors_range [OF assms]
    bitmap_of_ok(3) [of disk_bits "contents (mapHdr fs) p"]
  by (simp add: fs_ok_def the_map_def del: length_bits nth_bits)

text \<open>One more file: its entry and sectors are new, and nothing outside its header, the map and the directory has changed.\<close>

lemma fs_grow:
  assumes ok: "fs_ok fs p" and d: "listed (the_dir fs p) = us @ vs" "listed (the_dir fs p') = us @ e # vs" "dir_table_ok (the_dir fs p')"
    and k: "\<forall>x\<in>set (us @ vs). entry_key x \<noteq> entry_key e"
    and h: "FileHeader_of (p' (sint (header_sector e))) = h" "header_ok h" "dir_sector (sint (header_sector e))"
    and new: "distinct (sint (header_sector e) # file_sectors h)"
      "set (sint (header_sector e) # file_sectors h) \<inter> set (all_sectors fs p) = {}"
    and p': "platter_ok p'" "\<And>t. t \<noteq> sint (header_sector e) \<Longrightarrow> t \<notin> system_blocks fs \<Longrightarrow> p' t = p t"
    and m: "\<forall>j < disk_bits. bits (the_map fs p') ! j \<longleftrightarrow> int j \<in> set (sint (header_sector e) # file_sectors h) \<union> set (all_sectors fs p)"
  shows "fs_ok fs p' \<and> files fs p' = (files fs p)(entry_key e \<mapsto> contents h p')"
proof -
  have e: "owned p' e = sint (header_sector e) # file_sectors h" "entry_header p' e = h" "file_pair p' e = (entry_key e, contents h p')"
    using h(1) by (simp_all add: owned_def entry_header_def file_pair_def)
  have old: "\<forall>s\<in>set (owned p x). p' s = p s" if "x \<in> set (us @ vs)" for x
    using owned_apart [OF ok, of x] owned_in_all [of x fs p] new(2) that d(1) system_blocks_sectors [of fs] by (auto intro!: p'(2))
  note fr = entry_frame [OF old]
  have maps: "map (owned p') us = map (owned p) us" "map (owned p') vs = map (owned p) vs"
      "map (file_pair p') us = map (file_pair p) us" "map (file_pair p') vs = map (file_pair p) vs"
    using fr(2,3) by simp_all
  have lists: "all_sectors fs p' = system_sectors fs @ concat (map (owned p) us) @ owned p' e @ concat (map (owned p) vs)"
      "all_sectors fs p = system_sectors fs @ concat (map (owned p) us) @ concat (map (owned p) vs)"
    by (simp_all only: all_sectors_def d map_append list.map maps concat_append concat.simps)
  have "distinct (all_sectors fs p)" using ok by (simp add: fs_ok_def)
  moreover have "distinct (owned p' e)" "set (owned p' e) \<inter> set (all_sectors fs p) = {}" using new e(1) by simp_all
  ultimately have all: "set (all_sectors fs p') = set (owned p' e) \<union> set (all_sectors fs p)" "distinct (all_sectors fs p')"
    unfolding lists by (simp_all only: distinct_append set_append) blast+
  have num: "FreeMapSector \<in> set (all_sectors fs p)" "DirectorySector \<in> set (all_sectors fs p)"
    by (simp_all add: all_sectors_def system_sectors_def)
  have sys: "p' FreeMapSector = p FreeMapSector" "p' DirectorySector = p DirectorySector"
    using system_numbers [of fs] num ok new(2) by (auto simp: fs_ok_def intro!: p'(2))
  have "dir_ok (the_dir fs p')" using ok d k h(3) by (auto simp: dir_ok_def fs_ok_def)
  moreover have "\<forall>x\<in>set (listed (the_dir fs p')). header_ok (entry_header p' x)"
    using ok d e(2) h(2) fr(1) by (auto simp: fs_ok_def)
  ultimately have "fs_ok fs p'" using ok sys p'(1) all m e(1) by (auto simp: fs_ok_def)
  moreover have "distinct (map fst (map (file_pair p) us @ (entry_key e, contents h p') # map (file_pair p) vs))"
    using ok d(1) k by (auto simp: fs_ok_def dir_ok_def)
  from map_of_insert [OF this] have "files fs p' = (files fs p)(entry_key e \<mapsto> contents h p')"
    by (simp add: files_def d maps e(3))
  ultimately show ?thesis ..
qed

lemma fs_shrink:
  assumes ok: "fs_ok fs p" and d: "listed (the_dir fs p) = us @ e # vs" "listed (the_dir fs p') = us @ vs" "dir_table_ok (the_dir fs p')"
    and p': "platter_ok p'" "\<And>t. t \<notin> system_blocks fs \<Longrightarrow> p' t = p t"
    and m: "\<forall>j < disk_bits. bits (the_map fs p') ! j \<longleftrightarrow> int j \<in> set (all_sectors fs p) \<and> int j \<notin> set (owned p e)"
  shows "fs_ok fs p' \<and> files fs p' = (files fs p)(entry_key e := None)"
proof -
  have old: "\<forall>s\<in>set (owned p x). p' s = p s" if "x \<in> set (us @ vs)" for x
    using owned_apart [OF ok, of x] that d(1) system_blocks_sectors [of fs] by (auto intro!: p'(2))
  note fr = entry_frame [OF old]
  have maps: "map (owned p') us = map (owned p) us" "map (owned p') vs = map (owned p) vs"
      "map (file_pair p') us = map (file_pair p) us" "map (file_pair p') vs = map (file_pair p) vs"
    using fr(2,3) by simp_all
  have lists: "all_sectors fs p = system_sectors fs @ concat (map (owned p) us) @ owned p e @ concat (map (owned p) vs)"
      "all_sectors fs p' = system_sectors fs @ concat (map (owned p) us) @ concat (map (owned p) vs)"
    by (simp_all only: all_sectors_def d map_append list.map maps concat_append concat.simps)
  have "distinct (all_sectors fs p)" using ok by (simp add: fs_ok_def)
  then have all: "set (all_sectors fs p') = set (all_sectors fs p) - set (owned p e)" "distinct (all_sectors fs p')"
    unfolding lists by (simp_all only: distinct_append set_append) blast+
  have sys: "p' FreeMapSector = p FreeMapSector" "p' DirectorySector = p DirectorySector"
    using system_numbers [of fs] ok by (auto simp: fs_ok_def intro!: p'(2))
  have "dir_ok (the_dir fs p')" using ok d by (auto simp: dir_ok_def fs_ok_def)
  moreover have "\<forall>x\<in>set (listed (the_dir fs p')). header_ok (entry_header p' x)"
    using ok d fr(1) by (auto simp: fs_ok_def)
  ultimately have "fs_ok fs p'" using ok sys p'(1) all m by (auto simp: fs_ok_def)
  moreover have "distinct (map fst (map (file_pair p) us @ (entry_key e, snd (file_pair p e)) # map (file_pair p) vs))"
    using ok d(1) by (simp add: fs_ok_def dir_ok_def)
  from map_of_delete [OF this] have "files fs p' = (files fs p)(entry_key e := None)"
    by (simp add: files_def d maps file_pair_def)
  ultimately show ?thesis ..
qed

subsection \<open>Create, Open and Remove\<close>

lemma fs_parts:
  assumes "fs_ok fs p"
  shows "system_ok fs" "platter_ok p" "dir_ok (the_dir fs p)" "dir_table_ok (the_dir fs p)" "tableSize (the_dir fs p) = int NumDirEntries"
    "length (table (the_dir fs p)) = NumDirEntries" "wf_bitmap (the_map fs p)" "length (bits (the_map fs p)) = disk_bits"
    "\<forall>j < disk_bits. bits (the_map fs p) ! j \<longleftrightarrow> int j \<in> set (all_sectors fs p)"
  using assms bitmap_of_ok [of disk_bits] by (simp_all add: fs_ok_def dir_ok_def the_dir_def directory_of_def the_map_def del: nth_bits)

lemma Find_cases:
  assumes "wf_bitmap m"
  obtains (full) "filter Not (bits m) = []" "Find m = Inr (-1, m)"
    | (free) i m' where "i < length (bits m)" "\<not> bits m ! i" "Find m = Inr (int i, m')" "wf_bitmap m'" "bits m' = (bits m)[i := True]"
proof (cases "False \<in> set (bits m)")
  case True
  then show ?thesis using sector_map.find_free_ex [OF assms] free by blast
next
  case False
  then have all: "\<forall>b\<in>set (bits m). b" by (metis (full_types))
  then have "filter Not (bits m) = []" by (auto simp: filter_empty_conv)
  moreover have "\<forall>j < nat (numBits m). bits m ! j" using all by (metis length_bits nth_mem)
  ultimately show ?thesis using Find_full [OF assms] full by blast
qed

definition sectors_for :: "int \<Rightarrow> nat" where
  "sectors_for bytes = nat (divRoundUp bytes (int SectorSize))"

text \<open>The case in which \<open>Create\<close> has found a sector, an entry and the blocks.\<close>

lemma create_commits:
  assumes ok: "fs_ok fs p"
    and i: "i < disk_bits" "int i \<notin> set (all_sectors fs p)"
    and d: "listed (the_dir fs p) = us @ vs" "listed d' = us @ e # vs" "dir_table_ok d'" "tableSize d' = int NumDirEntries"
      "entry_key e = k" "header_sector e = word_of_int (int i)" "\<forall>x\<in>set (us @ vs). entry_key x \<noteq> k"
    and h: "header_ok h" "file_sectors h = map int ss" "\<forall>s\<in>set ss. s < disk_bits \<and> s \<noteq> i \<and> int s \<notin> set (all_sectors fs p)"
    and m: "wf_bitmap m" "length (bits m) = disk_bits"
      "\<forall>j < disk_bits. bits m ! j \<longleftrightarrow> j = i \<or> j \<in> set ss \<or> int j \<in> set (all_sectors fs p)"
  shows "\<exists>p1 p2 p3. Hdr_WriteBack h (int i) p = Inr p1 \<and> Dir_WriteBack m3 (directoryFile fs) d' p1 = Inr p2 \<and>
    Map_WriteBack m4 (freeMapFile fs) m p2 = Inr p3 \<and> fs_ok fs p3 \<and> files fs p3 = (files fs p)(k \<mapsto> contents h p3)"
proof -
  note parts = fs_parts [OF ok]
  let ?p1 = "p(int i := header_bytes h)"
  have lh: "length (dataSectors h) = NumDirect" using h(1) by (simp add: header_ok_def)
  have w1: "Hdr_WriteBack h (int i) p = Inr ?p1" using i(1) by (simp add: Hdr_WriteBack_def write_sector_def fs_sizes)
  have "platter_ok ?p1" using parts(2) length_header_bytes [OF lh] by (simp add: platter_ok_def)
  then obtain p2 where p2: "Dir_WriteBack m3 (directoryFile fs) d' ?p1 = Inr p2" "platter_ok p2" "the_dir fs p2 = d'"
      "\<forall>s. s \<notin> system_blocks fs \<longrightarrow> p2 s = ?p1 s"
    using write_directory [OF parts(1) _ d(3,4)] by blast
  have nm: "numBits m = int disk_bits" using m(1,2) unfolding wf_bitmap_def length_bits by linarith
  obtain p3 where p3: "Map_WriteBack m4 (freeMapFile fs) m p2 = Inr p3" "platter_ok p3" "the_map fs p3 = m" "the_dir fs p3 = the_dir fs p2"
      "\<forall>s. s \<notin> system_blocks fs \<longrightarrow> p3 s = p2 s"
    using write_map [OF parts(1) p2(2) m(1) nm] by blast
  have s: "sint (header_sector e) = int i" using d(6) i(1) by (simp add: sint_nat32 fs_sizes)
  have "int i \<notin> system_blocks fs" using i(2) system_blocks_sectors [of fs] by (auto simp: all_sectors_def)
  then have "p3 (int i) = header_bytes h" using p2(4) p3(5) by simp
  then have hd: "FileHeader_of (p3 (sint (header_sector e))) = h" by (simp add: s header_of_bytes [OF lh])
  have "fs_ok fs p3 \<and> files fs p3 = (files fs p)(entry_key e \<mapsto> contents h p3)"
  proof (rule fs_grow [OF ok d(1), where p' = p3 and e = e and h = h])
    show "FileHeader_of (p3 (sint (header_sector e))) = h" "header_ok h" using hd h(1) by simp_all
    show "listed (the_dir fs p3) = us @ e # vs" "dir_table_ok (the_dir fs p3)" using p3(4) p2(3) d(2,3) by simp_all
    show "\<forall>x\<in>set (us @ vs). entry_key x \<noteq> entry_key e" using d(5,7) by simp
    show "dir_sector (sint (header_sector e))" using s i(1) by (simp add: dir_sector_def fs_sizes)
    show "distinct (sint (header_sector e) # file_sectors h)" using h(1,2,3) s by (auto simp: header_ok_def)
    show "set (sint (header_sector e) # file_sectors h) \<inter> set (all_sectors fs p) = {}" using h(2,3) s i(2) by auto
    show "platter_ok p3" by (rule p3(2))
    show "p3 t = p t" if "t \<noteq> sint (header_sector e)" "t \<notin> system_blocks fs" for t using that p2(4) p3(5) s by simp
    show "\<forall>j < disk_bits. bits (the_map fs p3) ! j \<longleftrightarrow> int j \<in> set (sint (header_sector e) # file_sectors h) \<union> set (all_sectors fs p)"
      using m(3) s h(2) unfolding p3(3) by auto
  qed
  then show ?thesis using w1 p2(1) p3(1) d(5) by blast
qed

lemma FS_Create_spec:
  assumes ok: "fs_ok fs p" and size: "0 \<le> bytes" "bytes \<le> int (NumDirect * SectorSize)"
  shows "if files fs p (key name) \<noteq> None \<or> card (dom (files fs p)) = NumDirEntries \<or>
      disk_bits < length (all_sectors fs p) + 1 + sectors_for bytes
    then FS_Create mem fs name bytes p = Inr (False, p)
    else \<exists>p' c. FS_Create mem fs name bytes p = Inr (True, p') \<and> fs_ok fs p' \<and> length c = nat bytes \<and>
      files fs p' = (files fs p)(key name \<mapsto> c)"
    (is "if ?refused then _ else _")
proof -
  note parts = fs_parts [OF ok]
  have fetches: "fetch_directory m fs p = Inr (the_dir fs p)" "fetch_map m fs p = Inr (the_map fs p)" for m
    by (simp_all add: fetch_directory_spec fetch_map_spec parts(1,2))
  show ?thesis
  proof (cases "files fs p (key name)")
    case (Some c)
    then have "Dir_Find (the_dir fs p) name \<noteq> Inr (-1)"
      using names.absent [OF parts(3), of name] files_dir_map [of fs p "key name"] by simp
    then obtain s where "Dir_Find (the_dir fs p) name = Inr s" "s \<noteq> -1" using names.lookup [OF parts(3), of name] by auto
    then show ?thesis using Some by (simp add: FS_Create_def fetches)
  next
    case None
    then have absent: "Dir_Find (the_dir fs p) name = Inr (-1)"
      using names.absent [OF parts(3), of name] files_dir_map [of fs p "key name"] by simp
    from parts(7) show ?thesis
    proof (cases rule: Find_cases)
      case full
      then have "?refused" using free_sectors [OF ok] by simp
      then show ?thesis using absent full(2) by (simp add: FS_Create_def fetches)
    next
      case (free i m1)
      have i: "i < disk_bits" "int i \<notin> set (all_sectors fs p)" using free(1,2) parts(8,9) by simp_all
      show ?thesis
      proof (cases "card (dom (files fs p)) = NumDirEntries")
        case True
        then have "Dir_Add (the_dir fs p) name (int i) = Inr (False, the_dir fs p)"
          using Dir_Add_spec [OF parts(4), of name "int i"] card_files [OF parts(3)] parts(6) by (auto split: if_splits)
        then show ?thesis using True absent free(3) by (simp add: FS_Create_def fetches)
      next
        case room: False
        have keys: "\<forall>e\<in>set (listed (the_dir fs p)). entry_key e \<noteq> key name" using None by (simp add: files_None)
        have "\<not> ((\<exists>e\<in>set (listed (the_dir fs p)). entry_key e = key name) \<or> length (listed (the_dir fs p)) = length (table (the_dir fs p)))"
          using room keys card_files [OF parts(3)] parts(6) by simp
        then obtain e us vs d' where d: "Dir_Add (the_dir fs p) name (int i) = Inr (True, d')" "dir_table_ok d'" "tableSize d' = int NumDirEntries"
            "listed (the_dir fs p) = us @ vs" "listed d' = us @ e # vs" "entry_key e = key name" "header_sector e = word_of_int (int i)"
          using Dir_Add_spec [OF parts(4), of name "int i"] parts(5) by (simp only: if_False) blast
        have l1: "length (bits m1) = nat NumSectors" using parts(8) unfolding free(5) by (simp add: fs_sizes del: length_bits)
        have lh: "length (dataSectors (FileHeader_new (mem 2))) = NumDirect" by (simp add: FileHeader_new_def header_of_length)
        have count: "length (filter Not (bits m1)) + length (all_sectors fs p) + 1 = disk_bits"
          using free_count [OF free(1,2)] free_sectors [OF ok] unfolding free(5) by simp
        note alloc = Hdr_Allocate_spec [OF free(4) l1 lh size]
        show ?thesis
        proof (cases "length (filter Not (bits m1)) < nat (divRoundUp bytes (int SectorSize))")
          case True
          then obtain h' where "Hdr_Allocate (FileHeader_new (mem 2)) m1 bytes = Inr (False, h', m1)" using alloc by auto
          moreover have "?refused" using True count by (auto simp: sectors_for_def)
          ultimately show ?thesis using absent free(3) d(1) by (simp add: FS_Create_def fetches)
        next
          case False
          then obtain ss h m2 where h: "Hdr_Allocate (FileHeader_new (mem 2)) m1 bytes = Inr (True, h, m2)" "header_ok h" "FileLength h = bytes"
              "file_sectors h = map int ss" "wf_bitmap m2" "length (bits m2) = length (bits m1)"
              "\<forall>s\<in>set ss. s < length (bits m1) \<and> \<not> bits m1 ! s" "\<forall>j < length (bits m1). bits m2 ! j \<longleftrightarrow> bits m1 ! j \<or> j \<in> set ss"
            using alloc unfolding if_not_P [OF False] by blast
          have lb: "length (bits m1) = disk_bits" using parts(8) unfolding free(5) by simp
          have b1: "bits m1 ! j \<longleftrightarrow> j = i \<or> int j \<in> set (all_sectors fs p)" if "j < disk_bits" for j
            using parts(8,9) that i(1) unfolding free(5) by (cases "j = i") (simp_all del: length_bits nth_bits)
          have "\<forall>s\<in>set ss. s < disk_bits \<and> s \<noteq> i \<and> int s \<notin> set (all_sectors fs p)" using h(7) b1 unfolding lb by blast
          moreover have "\<forall>j < disk_bits. bits m2 ! j \<longleftrightarrow> j = i \<or> j \<in> set ss \<or> int j \<in> set (all_sectors fs p)"
            using h(8) b1 unfolding lb by blast
          moreover have "\<forall>x\<in>set (us @ vs). entry_key x \<noteq> key name" using keys d(4) by simp
          moreover have "length (bits m2) = disk_bits" using h(6) lb by simp
          ultimately obtain p1 p2 p3 where p: "Hdr_WriteBack h (int i) p = Inr p1" "Dir_WriteBack (mem 3) (directoryFile fs) d' p1 = Inr p2"
              "Map_WriteBack (mem 4) (freeMapFile fs) m2 p2 = Inr p3" "fs_ok fs p3" "files fs p3 = (files fs p)(key name \<mapsto> contents h p3)"
            using create_commits [OF ok i d(4,5,2,3,6,7) _ h(2,4) _ h(5), of "mem 3" "mem 4"] by blast
          have "platter_ok p3" using p(4) by (simp add: fs_ok_def)
          from length_contents [OF h(2) this] have "length (contents h p3) = nat bytes" using h(3) by (simp add: file_size_def)
          moreover have "FS_Create mem fs name bytes p = Inr (True, p3)"
            using absent free(3) d(1) h(1) p(1-3) by (simp add: FS_Create_def fetches)
          moreover have "\<not> ?refused" using None room False count by (simp add: sectors_for_def)
          ultimately show ?thesis using p(4,5) by (simp only: if_False) blast
        qed
      qed
    qed
  qed
qed

lemma opened:
  assumes ok: "fs_ok fs p" and e: "e \<in> set (listed (the_dir fs p))"
  shows "dir_map (the_dir fs p) (entry_key e) = Some (sint (header_sector e))"
    "files fs p (entry_key e) = Some (contents (entry_header p e) p)"
    "Hdr_FetchFrom (sint (header_sector e)) p = Inr (entry_header p e)"
    "0 \<le> sint (header_sector e)" "header_ok (entry_header p e)"
proof -
  have d: "dir_ok (the_dir fs p)" using ok by (simp add: fs_ok_def)
  have k: "distinct (map fst (map entry_pair (listed (the_dir fs p))))" "distinct (map fst (map (file_pair p) (listed (the_dir fs p))))"
    using d by (simp_all add: dir_ok_def)
  show "dir_map (the_dir fs p) (entry_key e) = Some (sint (header_sector e))"
    unfolding dir_map_def by (rule map_of_is_SomeI [OF k(1)]) (use e in \<open>auto simp: entry_pair_def\<close>)
  show "files fs p (entry_key e) = Some (contents (entry_header p e) p)"
    unfolding files_def by (rule map_of_is_SomeI [OF k(2)]) (use e in \<open>auto simp: file_pair_def\<close>)
  have s: "dir_sector (sint (header_sector e))" using d e by (simp add: dir_ok_def)
  then show "Hdr_FetchFrom (sint (header_sector e)) p = Inr (entry_header p e)"
    by (simp add: Hdr_FetchFrom_def read_sector_def dir_sector_def entry_header_def)
  show "0 \<le> sint (header_sector e)" using s by (simp add: dir_sector_def)
  show "header_ok (entry_header p e)" using ok e by (simp add: fs_ok_def)
qed

lemma FS_Open_spec:
  assumes ok: "fs_ok fs p"
  shows "case files fs p (key name) of None \<Rightarrow> FS_Open mem fs name p = Inr None
    | Some c \<Rightarrow> \<exists>e. e \<in> set (listed (the_dir fs p)) \<and> entry_key e = key name \<and> c = contents (entry_header p e) p \<and>
        FS_Open mem fs name p = Inr (Some \<lparr>hdr = entry_header p e, seekPosition = 0\<rparr>)"
proof (cases "files fs p (key name)")
  case None
  then have "Dir_Find (the_dir fs p) name = Inr (-1)"
    using names.absent [OF fs_parts(3) [OF ok], of name] files_dir_map [of fs p "key name"] by simp
  then show ?thesis using None by (simp add: FS_Open_def fetch_directory_spec fs_parts(1,2) [OF ok])
next
  case (Some c)
  then obtain e where e: "e \<in> set (listed (the_dir fs p))" "entry_key e = key name" using files_None [of fs p "key name"] by auto
  note o = opened [OF ok e(1), unfolded e(2)]
  have "Dir_Find (the_dir fs p) name = Inr (sint (header_sector e))" using names.lookup [OF fs_parts(3) [OF ok], of name] o(1) by simp
  then show ?thesis using Some e o(2-4)
    by (auto simp: FS_Open_def fetch_directory_spec fs_parts(1,2) [OF ok] OpenFile_new_def)
qed

text \<open>Writing the blocks of one file leaves the file system in order and the other files alone.\<close>

lemma fs_update:
  assumes ok: "fs_ok fs p" and e: "e \<in> set (listed (the_dir fs p))"
    and p': "platter_ok p'" "\<forall>s. s \<notin> set (file_sectors (entry_header p e)) \<longrightarrow> p' s = p s"
  shows "fs_ok fs p' \<and> files fs p' = (files fs p)(entry_key e \<mapsto> contents (entry_header p e) p')"
proof -
  obtain us vs where d: "listed (the_dir fs p) = us @ e # vs" using split_list [OF e] by blast
  have lists: "all_sectors fs p = system_sectors fs @ concat (map (owned p) us) @ owned p e @ concat (map (owned p) vs)"
    by (simp only: all_sectors_def d map_append list.map concat_append concat.simps)
  have dist: "distinct (all_sectors fs p)" using ok by (simp add: fs_ok_def)
  have mine: "set (file_sectors (entry_header p e)) \<subseteq> set (owned p e)" "sint (header_sector e) \<notin> set (file_sectors (entry_header p e))"
    using dist by (auto simp: lists owned_def)
  have "set (owned p e) \<inter> set (system_sectors fs) = {}" using owned_apart [OF ok e] .
  then have sys: "\<forall>s\<in>set (system_sectors fs). p' s = p s" using p'(2) mine(1) by blast
  have frames: "contents (dirHdr fs) p' = contents (dirHdr fs) p" "contents (mapHdr fs) p' = contents (mapHdr fs) p"
    using sys by (auto intro!: contents_frame simp: system_sectors_def)
  have same: "the_dir fs p' = the_dir fs p" "the_map fs p' = the_map fs p" unfolding the_dir_def the_map_def frames by simp_all
  have other: "\<forall>s\<in>set (owned p x). p' s = p s" if "x \<in> set us \<union> set vs" for x
  proof -
    have "set (owned p e) \<inter> set (concat (map (owned p) us)) = {}" "set (owned p e) \<inter> set (concat (map (owned p) vs)) = {}"
      using dist unfolding lists by auto
    then have "set (owned p e) \<inter> set (owned p x) = {}" using that by auto
    then show ?thesis using p'(2) mine(1) by blast
  qed
  have h: "entry_header p' e = entry_header p e" "owned p' e = owned p e" using mine(2) p'(2) by (simp_all add: entry_header_def owned_def)
  note fr = entry_frame [OF other]
  have eq: "entry_header p' x = entry_header p x" "owned p' x = owned p x" if "x \<in> set (listed (the_dir fs p))" for x
    using that h fr(1,2) d by auto
  have "map (owned p') (listed (the_dir fs p)) = map (owned p) (listed (the_dir fs p))" using eq(2) by simp
  then have all: "all_sectors fs p' = all_sectors fs p" by (simp only: all_sectors_def same)
  have heads: "p' FreeMapSector = p FreeMapSector" "p' DirectorySector = p DirectorySector"
    using sys by (simp_all add: system_sectors_def)
  have good: "fs_ok fs p'" using ok p'(1) eq(1) unfolding fs_ok_def same all heads by auto
  have maps: "map (file_pair p') us = map (file_pair p) us" "map (file_pair p') vs = map (file_pair p) vs"
    using fr(3) by simp_all
  have keys: "distinct (map fst (map (file_pair p) us @ (entry_key e, c) # map (file_pair p) vs))" for c
    using ok d by (simp add: fs_ok_def dir_ok_def)
  have "files fs p' = map_of (map (file_pair p) us @ (entry_key e, contents (entry_header p e) p') # map (file_pair p) vs)"
    unfolding files_def same d by (simp add: maps) (simp add: file_pair_def h)
  also have "\<dots> = (map_of (map (file_pair p) us @ map (file_pair p) vs))(entry_key e \<mapsto> contents (entry_header p e) p')"
    by (rule map_of_insert [OF keys])
  also have "\<dots> = (files fs p)(entry_key e \<mapsto> contents (entry_header p e) p')"
    using map_of_insert [OF keys, of "contents (entry_header p e) p"] by (simp add: files_def d file_pair_def)
  finally show ?thesis using good by blast
qed

lemma FS_Remove_spec:
  assumes ok: "fs_ok fs p"
  shows "if files fs p (key name) = None then FS_Remove mem fs name p = Inr (False, p)
    else \<exists>p'. FS_Remove mem fs name p = Inr (True, p') \<and> fs_ok fs p' \<and> files fs p' = (files fs p)(key name := None)"
proof -
  note parts = fs_parts [OF ok]
  have fetches: "fetch_directory m fs p = Inr (the_dir fs p)" "fetch_map m fs p = Inr (the_map fs p)" for m
    by (simp_all add: fetch_directory_spec fetch_map_spec parts(1,2))
  show ?thesis
  proof (cases "files fs p (key name)")
    case None
    then have "Dir_Find (the_dir fs p) name = Inr (-1)"
      using names.absent [OF parts(3), of name] files_dir_map [of fs p "key name"] by simp
    then show ?thesis using None by (simp add: FS_Remove_def fetches)
  next
    case (Some c)
    then have "\<not> (\<forall>e\<in>set (listed (the_dir fs p)). entry_key e \<noteq> key name)" using files_None [of fs p "key name"] by auto
    then obtain e us vs d' where d: "Dir_Remove (the_dir fs p) name = Inr (True, d')" "dir_table_ok d'" "tableSize d' = int NumDirEntries"
        "listed (the_dir fs p) = us @ e # vs" "listed d' = us @ vs" "entry_key e = key name"
      using Dir_Remove_spec [OF parts(4), of name] parts(5) by (simp only: if_False) blast
    have e: "e \<in> set (listed (the_dir fs p))" using d(4) by simp
    note o = opened [OF ok e, unfolded d(6)]
    define s where "s = sint (header_sector e)"
    define h where "h = entry_header p e"
    have find: "Dir_Find (the_dir fs p) name = Inr s" "s \<noteq> -1" using names.lookup [OF parts(3), of name] o(1,4) by (simp_all add: s_def)
    have own: "set (owned p e) = insert s (set (file_sectors h))" "set (owned p e) \<subseteq> set (all_sectors fs p)"
      using owned_in_all [OF e] by (simp_all add: owned_def s_def h_def)
    have nat: "int (nat t) = t" "nat t < disk_bits" if "t \<in> set (all_sectors fs p)" for t
      using all_sectors_range [OF ok that] by (simp_all add: nat_less_iff)
    have marked: "\<forall>t\<in>set (file_sectors h). bits (the_map fs p) ! nat t"
      using nat own parts(9) by (metis insertCI subsetD)
    have lb: "length (bits (the_map fs p)) = nat NumSectors" using parts(8) by (simp add: fs_sizes del: length_bits)
    obtain m1 where m1: "Hdr_Deallocate h (the_map fs p) = Inr m1" "wf_bitmap m1" "length (bits m1) = length (bits (the_map fs p))"
        "\<forall>j < length (bits (the_map fs p)). bits m1 ! j \<longleftrightarrow> bits (the_map fs p) ! j \<and> int j \<notin> set (file_sectors h)"
      using Hdr_Deallocate_spec [OF parts(7) _ lb marked] o(5) by (auto simp: h_def)
    have sn: "int (nat s) = s" "nat s < length (bits m1)" using nat own m1(3) parts(8) by auto
    obtain m2 where m2: "Clear m1 s = Inr m2" "wf_bitmap m2" "bits m2 = (bits m1)[nat s := False]"
      using sector_map.clear [OF m1(2) sn(2)] sn(1) by auto
    have l2: "length (bits m2) = disk_bits" unfolding m2(3) using m1(3) parts(8) by simp
    have nm: "numBits m2 = int disk_bits" using m2(2) l2 unfolding wf_bitmap_def length_bits by linarith
    obtain p1 where p1: "Map_WriteBack (mem 2) (freeMapFile fs) m2 p = Inr p1" "platter_ok p1" "the_map fs p1 = m2"
        "\<forall>t. t \<notin> system_blocks fs \<longrightarrow> p1 t = p t"
      using write_map [OF parts(1,2) m2(2) nm] by blast
    obtain p2 where p2: "Dir_WriteBack (mem 3) (directoryFile fs) d' p1 = Inr p2" "platter_ok p2" "the_dir fs p2 = d'" "the_map fs p2 = the_map fs p1"
        "\<forall>t. t \<notin> system_blocks fs \<longrightarrow> p2 t = p1 t"
      using write_directory [OF parts(1) p1(2) d(2,3)] by blast
    have b2: "bits m2 ! j \<longleftrightarrow> int j \<in> set (all_sectors fs p) \<and> int j \<notin> set (owned p e)" if "j < disk_bits" for j
      unfolding m2(3) own(1) using that m1(3,4) parts(8,9) sn by (cases "j = nat s") (auto simp del: length_bits nth_bits)
    have "fs_ok fs p2 \<and> files fs p2 = (files fs p)(entry_key e := None)"
    proof (rule fs_shrink [OF ok d(4)])
      show "listed (the_dir fs p2) = us @ vs" "dir_table_ok (the_dir fs p2)" using d(2,5) p2(3) by simp_all
      show "platter_ok p2" by (rule p2(2))
      show "p2 t = p t" if "t \<notin> system_blocks fs" for t using that p1(4) p2(5) by simp
      show "\<forall>j < disk_bits. bits (the_map fs p2) ! j \<longleftrightarrow> int j \<in> set (all_sectors fs p) \<and> int j \<notin> set (owned p e)"
        using b2 unfolding p2(4) p1(3) by blast
    qed
    moreover have "FS_Remove mem fs name p = Inr (True, p2)"
      using find o(3) m1(1) m2(1) d(1) p1(1) p2(1) by (simp add: FS_Remove_def fetches s_def h_def)
    ultimately show ?thesis using Some d(6) by simp
  qed
qed

subsection \<open>Formatting\<close>

lemma sectors_listed: "header_ok h \<Longrightarrow> file_sectors h = map int ss \<Longrightarrow> length ss \<le> NumDirect"
  using length_file_sectors [of h] by (simp add: header_ok_def)

lemma format_map:
  "\<exists>b1 b2 b3 h1 h2 b4 ss1 ss2. BitMap_new (heap_words m) NumSectors = Inr b1 \<and> Mark b1 FreeMapSector = Inr b2 \<and> Mark b2 DirectorySector = Inr b3 \<and>
     Hdr_Allocate (FileHeader_new m1) b3 FreeMapFileSize = Inr (True, h1, b4) \<and> header_ok h1 \<and> FileLength h1 = FreeMapFileSize \<and>
     file_sectors h1 = map int ss1 \<and>
     (\<exists>b5. Hdr_Allocate (FileHeader_new m2) b4 DirectoryFileSize = Inr (True, h2, b5) \<and> header_ok h2 \<and> FileLength h2 = DirectoryFileSize \<and>
     file_sectors h2 = map int ss2 \<and> wf_bitmap b5 \<and> numBits b5 = int disk_bits \<and> distinct (0 # 1 # ss1 @ ss2) \<and>
     (\<forall>j < disk_bits. bits b5 ! j \<longleftrightarrow> j \<in> set (0 # 1 # ss1 @ ss2)))"
proof -
  obtain b1 where b1: "BitMap_new (heap_words m) NumSectors = Inr b1" "wf_bitmap b1" "bits b1 = replicate disk_bits False"
    using BitMap_new_bits [of NumSectors "heap_words m"] by (auto simp: fs_sizes)
  have l1: "length (bits b1) = disk_bits" unfolding b1(3) by simp
  obtain b2 where b2: "Mark b1 (int 0) = Inr b2" "wf_bitmap b2" "bits b2 = (bits b1)[0 := True]"
    using sector_map.mark [OF b1(2), of 0] l1 unfolding disk_bits_def by (metis zero_less_numeral)
  have l2: "length (bits b2) = disk_bits" unfolding b2(3) using l1 by simp
  obtain b3 where b3: "Mark b2 (int 1) = Inr b3" "wf_bitmap b3" "bits b3 = (bits b2)[1 := True]"
    using sector_map.mark [OF b2(2), of 1] l2 unfolding disk_bits_def by (metis one_less_numeral_iff semiring_norm(76))
  have l3: "length (bits b3) = disk_bits" unfolding b3(3) using l2 by simp
  have m3: "bits b3 ! j \<longleftrightarrow> j = 0 \<or> j = 1" if "j < disk_bits" for j
    unfolding b3(3) b2(3) b1(3) using that by (auto simp: nth_list_update split: if_splits)
  have c3: "length (filter Not (bits b3)) + 2 = disk_bits"
    using count_marked [of "[0, 1]" disk_bits "bits b3"] m3 l3 by (simp add: disk_bits_def)
  have lh: "length (dataSectors (FileHeader_new x)) = NumDirect" for x by (simp add: FileHeader_new_def header_of_length)
  have nN: "length (bits b) = nat NumSectors" if "length (bits b) = disk_bits" for b using that by (simp add: fs_sizes del: length_bits)
  have one: "nat (divRoundUp FreeMapFileSize (int SectorSize)) = 1" "nat (divRoundUp DirectoryFileSize (int SectorSize)) = 1"
    by (simp_all add: fs_sizes divRoundUp_def sdiv_nonneg smod_nonneg)
  have small: "0 \<le> FreeMapFileSize" "FreeMapFileSize \<le> int (NumDirect * SectorSize)"
      "0 \<le> DirectoryFileSize" "DirectoryFileSize \<le> int (NumDirect * SectorSize)"
    by (simp_all add: fs_sizes NumDirect_def)
  have ok3: "\<not> length (filter Not (bits b3)) < nat (divRoundUp FreeMapFileSize (int SectorSize))" using c3 one by (simp add: disk_bits_def)
  obtain ss1 h1 b4 where a: "Hdr_Allocate (FileHeader_new m1) b3 FreeMapFileSize = Inr (True, h1, b4)" "header_ok h1" "FileLength h1 = FreeMapFileSize"
      "file_sectors h1 = map int ss1" "distinct ss1" "wf_bitmap b4" "length (bits b4) = length (bits b3)"
      "\<forall>s\<in>set ss1. s < length (bits b3) \<and> \<not> bits b3 ! s" "\<forall>j < length (bits b3). bits b4 ! j \<longleftrightarrow> bits b3 ! j \<or> j \<in> set ss1"
    using Hdr_Allocate_spec [OF b3(2) nN [OF l3] lh small(1,2), of m1] unfolding if_not_P [OF ok3] by blast
  have l4: "length (bits b4) = disk_bits" using a(7) l3 by simp
  have new1: "\<forall>s\<in>set ss1. s < disk_bits \<and> s \<noteq> 0 \<and> s \<noteq> 1"
  proof
    fix s assume "s \<in> set ss1"
    then have "s < disk_bits" "\<not> bits b3 ! s" using a(8) unfolding l3 by auto
    then show "s < disk_bits \<and> s \<noteq> 0 \<and> s \<noteq> 1" using m3 [of s] by simp
  qed
  have m4: "bits b4 ! j \<longleftrightarrow> j = 0 \<or> j = 1 \<or> j \<in> set ss1" if "j < disk_bits" for j using a(9) m3 [OF that] that unfolding l3 by simp
  have "length (filter Not (bits b4)) + length (map int (0 # 1 # ss1)) = disk_bits"
  proof (rule count_marked)
    show "distinct (map int (0 # 1 # ss1))" using a(5) new1 by (auto simp: distinct_map)
    show "\<forall>x\<in>set (map int (0 # 1 # ss1)). 0 \<le> x \<and> x < int disk_bits" using new1 by (auto simp: disk_bits_def)
    show "\<forall>j<disk_bits. bits b4 ! j \<longleftrightarrow> int j \<in> set (map int (0 # 1 # ss1))" using m4 by auto
  qed (rule l4)
  moreover have "length ss1 \<le> 62" using sectors_listed [OF a(2,4)] by (simp add: NumDirect_def SectorSize_def)
  ultimately have "1 \<le> length (filter Not (bits b4))" unfolding disk_bits_def length_map list.size by linarith
  then have ok4: "\<not> length (filter Not (bits b4)) < nat (divRoundUp DirectoryFileSize (int SectorSize))" unfolding one by linarith
  obtain ss2 h2 b5 where c: "Hdr_Allocate (FileHeader_new m2) b4 DirectoryFileSize = Inr (True, h2, b5)" "header_ok h2" "FileLength h2 = DirectoryFileSize"
      "file_sectors h2 = map int ss2" "distinct ss2" "wf_bitmap b5" "length (bits b5) = length (bits b4)"
      "\<forall>s\<in>set ss2. s < length (bits b4) \<and> \<not> bits b4 ! s" "\<forall>j < length (bits b4). bits b5 ! j \<longleftrightarrow> bits b4 ! j \<or> j \<in> set ss2"
    using Hdr_Allocate_spec [OF a(6) nN [OF l4] lh small(3,4), of m2] unfolding if_not_P [OF ok4] by blast
  have new2: "\<forall>s\<in>set ss2. s \<noteq> 0 \<and> s \<noteq> 1 \<and> s \<notin> set ss1"
  proof
    fix s assume "s \<in> set ss2"
    then have "s < disk_bits" "\<not> bits b4 ! s" using c(8) unfolding l4 by auto
    then show "s \<noteq> 0 \<and> s \<noteq> 1 \<and> s \<notin> set ss1" using m4 [of s] by simp
  qed
  have "distinct (0 # 1 # ss1 @ ss2)" using a(5) c(5) new1 new2 by auto
  moreover have "\<forall>j < disk_bits. bits b5 ! j \<longleftrightarrow> j \<in> set (0 # 1 # ss1 @ ss2)" using c(9) m4 unfolding l4 by auto
  moreover have "numBits b5 = int disk_bits" using c(6,7) l4 unfolding wf_bitmap_def length_bits by linarith
  ultimately show ?thesis using b1(1) b2(1) b3(1) a(1-4) c(1-4,6) by (simp add: FreeMapSector_def DirectorySector_def)
qed

lemma FS_reopen:
  assumes "fs_ok fs p" "seekPosition (freeMapFile fs) = 0" "seekPosition (directoryFile fs) = 0"
  shows "FS_new mem False p = Inr (fs, p)"
  using assms
  by (simp add: FS_new_def OpenFile_new_def Hdr_FetchFrom_def read_sector_def fs_ok_def FreeMapSector_def DirectorySector_def disk_sizes)

lemma FS_format_spec:
  assumes "platter_ok p"
  shows "\<exists>fs p'. FS_new mem True p = Inr (fs, p') \<and> fs_ok fs p' \<and> files fs p' = Map.empty \<and>
    seekPosition (freeMapFile fs) = 0 \<and> seekPosition (directoryFile fs) = 0"
proof -
  obtain b1 b2 b3 h1 h2 b4 ss1 ss2 b5 where f: "BitMap_new (heap_words (mem 0)) NumSectors = Inr b1" "Mark b1 FreeMapSector = Inr b2"
      "Mark b2 DirectorySector = Inr b3" "Hdr_Allocate (FileHeader_new (mem 2)) b3 FreeMapFileSize = Inr (True, h1, b4)" "header_ok h1"
      "FileLength h1 = FreeMapFileSize" "file_sectors h1 = map int ss1"
      "Hdr_Allocate (FileHeader_new (mem 3)) b4 DirectoryFileSize = Inr (True, h2, b5)" "header_ok h2" "FileLength h2 = DirectoryFileSize"
      "file_sectors h2 = map int ss2" "wf_bitmap b5" "numBits b5 = int disk_bits" "distinct (0 # 1 # ss1 @ ss2)"
      "\<forall>j < disk_bits. bits b5 ! j \<longleftrightarrow> j \<in> set (0 # 1 # ss1 @ ss2)"
    using format_map [of "mem 0" "mem 2" "mem 3"] by blast
  define fs where "fs = \<lparr>freeMapFile = \<lparr>hdr = h1, seekPosition = 0\<rparr>, directoryFile = \<lparr>hdr = h2, seekPosition = 0\<rparr>\<rparr>"
  have sys: "system_sectors fs = map int (0 # 1 # ss1 @ ss2)"
    using f(7,11) by (simp add: system_sectors_def fs_def FreeMapSector_def DirectorySector_def)
  have dist: "distinct (map int (0 # 1 # ss1 @ ss2))" using f(14) by (simp only: distinct_map) (simp add: inj_on_def)
  have ok: "system_ok fs" using f(5,6,9,10) dist unfolding system_ok_def sys by (simp add: fs_def file_size_def)
  have lh: "length (dataSectors h1) = NumDirect" "length (dataSectors h2) = NumDirect" using f(5,9) by (simp_all add: header_ok_def)
  define p2 where "p2 = p(0 := header_bytes h1, 1 := header_bytes h2)"
  have p2: "platter_ok p2" using assms length_header_bytes lh by (simp add: p2_def platter_ok_def)
  have w: "Hdr_WriteBack h1 FreeMapSector p = Inr (p(0 := header_bytes h1))"
      "Hdr_WriteBack h2 DirectorySector (p(0 := header_bytes h1)) = Inr p2"
    by (simp_all add: Hdr_WriteBack_def write_sector_def FreeMapSector_def DirectorySector_def disk_sizes p2_def)
  have heads: "FileHeader_of (p2 0) = h1" "FileHeader_of (p2 1) = h2" by (simp_all add: p2_def header_of_bytes lh)
  then have o: "OpenFile_new FreeMapSector p2 = Inr (freeMapFile fs)" "OpenFile_new DirectorySector p2 = Inr (directoryFile fs)"
    by (simp_all add: OpenFile_new_def Hdr_FetchFrom_def read_sector_def FreeMapSector_def DirectorySector_def disk_sizes fs_def)
  let ?d = "Directory_new (mem 1) (int NumDirEntries)"
  have d: "dir_ok ?d" "listed ?d = []" "dir_table_ok ?d" "tableSize ?d = int NumDirEntries"
    using empty_directory [of "int NumDirEntries" "mem 1"] Directory_new_ok(1,2) [of "int NumDirEntries" "mem 1"] by simp_all
  obtain p3 where p3: "Map_WriteBack (mem 4) (freeMapFile fs) b5 p2 = Inr p3" "platter_ok p3" "the_map fs p3 = b5"
      "\<forall>s. s \<notin> system_blocks fs \<longrightarrow> p3 s = p2 s"
    using write_map [OF ok p2 f(12,13)] by blast
  obtain p4 where p4: "Dir_WriteBack (mem 5) (directoryFile fs) ?d p3 = Inr p4" "platter_ok p4" "the_dir fs p4 = ?d" "the_map fs p4 = the_map fs p3"
      "\<forall>s. s \<notin> system_blocks fs \<longrightarrow> p4 s = p3 s"
    using write_directory [OF ok p3(2) d(3,4)] by blast
  have all: "all_sectors fs p4 = map int (0 # 1 # ss1 @ ss2)" unfolding all_sectors_def p4(3) d(2) sys by simp
  have "p4 FreeMapSector = p2 0" "p4 DirectorySector = p2 1"
    using system_numbers [OF ok] p3(4) p4(5) by (simp_all add: FreeMapSector_def DirectorySector_def)
  moreover have "\<forall>j < disk_bits. bits (the_map fs p4) ! j \<longleftrightarrow> int j \<in> set (all_sectors fs p4)"
    using f(15) unfolding p4(4) p3(3) all by auto
  moreover have "distinct (all_sectors fs p4)" unfolding all by (rule dist)
  ultimately have "fs_ok fs p4"
    using ok p4(2) heads d(1) unfolding fs_ok_def p4(3) d(2) by (simp add: fs_def)
  moreover have "files fs p4 = Map.empty" unfolding files_def p4(3) d(2) by simp
  moreover have "FS_new mem True p = Inr (fs, p4)"
    using f(1-4,8) w o p3(1) p4(1) by (simp add: FS_new_def)
  ultimately show ?thesis by (auto simp: fs_def)
qed

subsection \<open>What the file system guarantees\<close>

text \<open>
  C20. Formatting. On any disk, whatever its sectors and the heap contain, the constructor with \<open>format\<close> succeeds and leaves a file system
  in order and without files: the map marks exactly the two header sectors and the blocks of the two system files; and the
  constructor without \<open>format\<close>, on the disk it leaves, finds the same file system.
\<close>

theorem format_then_open:
  assumes "platter_ok p"
  shows "\<exists>fs p'. FS_new mem True p = Inr (fs, p') \<and> fs_ok fs p' \<and> files fs p' = Map.empty \<and> FS_new mem' False p' = Inr (fs, p')"
  using FS_format_spec [OF assms, of mem] FS_reopen by blast

definition blank_disk :: platter where
  "blank_disk n = replicate SectorSize 165"

lemma blank_disk_ok: "platter_ok blank_disk"
  by (simp add: platter_ok_def blank_disk_def)

theorem format_then_open_witness:
  "\<exists>fs p. FS_new (\<lambda>_ _. 3) True blank_disk = Inr (fs, p) \<and> files fs p [65] = None"
  using format_then_open [OF blank_disk_ok, of "\<lambda>_ _. 3" "\<lambda>_ _. 5"] by (auto simp: fun_eq_iff)

text \<open>
  C8. The file system refines a map from names to byte sequences. In a file system in order, for a size of at most 62 sectors: \<open>Create\<close>
  refuses exactly a name in use, a full directory and a disk with fewer free sectors than the header and the blocks need, and
  then nothing has changed; otherwise it adds a file of that size and touches no other. \<open>Remove\<close> refuses exactly a missing name
  and otherwise removes that file only. \<open>Open\<close> returns \<open>NULL\<close> exactly for a missing name, and otherwise a file whose bytes are
  those of the map. Every operation leaves the file system in order: no sector has two owners and the map marks exactly those in use.
\<close>

theorem file_system_refines_map:
  assumes "fs_ok fs p" "0 \<le> bytes" "bytes \<le> int (NumDirect * SectorSize)"
  shows "(if files fs p (key name) \<noteq> None \<or> card (dom (files fs p)) = NumDirEntries \<or>
        disk_bits < length (all_sectors fs p) + 1 + sectors_for bytes
      then FS_Create mem fs name bytes p = Inr (False, p)
      else \<exists>p' c. FS_Create mem fs name bytes p = Inr (True, p') \<and> fs_ok fs p' \<and> length c = nat bytes \<and>
        files fs p' = (files fs p)(key name \<mapsto> c)) \<and>
    (if files fs p (key name) = None then FS_Remove mem fs name p = Inr (False, p)
      else \<exists>p'. FS_Remove mem fs name p = Inr (True, p') \<and> fs_ok fs p' \<and> files fs p' = (files fs p)(key name := None)) \<and>
    (case files fs p (key name) of None \<Rightarrow> FS_Open mem fs name p = Inr None
      | Some c \<Rightarrow> \<exists>f. FS_Open mem fs name p = Inr (Some f) \<and> Length f = int (length c) \<and> Open_ReadAt f (Length f) 0 p = Inr c)"
    (is "?create \<and> ?remove \<and> ?open")
proof (intro conjI)
  show "?create" "?remove" by (rule FS_Create_spec [OF assms] FS_Remove_spec [OF assms(1)])+
  show "?open"
  proof (cases "files fs p (key name)")
    case None
    then show ?thesis using FS_Open_spec [OF assms(1), of mem name] by simp
  next
    case (Some c)
    then obtain e where e: "e \<in> set (listed (the_dir fs p))" "c = contents (entry_header p e) p"
        "FS_Open mem fs name p = Inr (Some \<lparr>hdr = entry_header p e, seekPosition = 0\<rparr>)"
      using FS_Open_spec [OF assms(1), of mem name] by auto
    let ?f = "\<lparr>hdr = entry_header p e, seekPosition = 0\<rparr>"
    have h: "header_ok (hdr ?f)" using opened(5) [OF assms(1) e(1)] by simp
    then have l: "Length ?f = int (length c)"
      using length_contents [OF h fs_parts(2) [OF assms(1)]] e(2) by (simp add: Length_def file_size_def header_ok_def)
    have "Open_ReadAt ?f (Length ?f) (int 0) p = Inr c"
      using ReadAt_spec [OF h fs_parts(2) [OF assms(1)], of 0 "Length ?f"] file_size_small [OF h] l e(2)
        length_contents [OF h fs_parts(2) [OF assms(1)]] by simp
    then show ?thesis using Some e(3) l by auto
  qed
qed

lemma empty_file_system:
  assumes "fs_ok fs p" "files fs p = Map.empty"
  shows "length (all_sectors fs p) \<le> 2 + 2 * NumDirect" "card (dom (files fs p)) = 0"
proof -
  have "e \<notin> set (listed (the_dir fs p))" for e using opened(2) [OF assms(1), of e] assms(2) by auto
  then have none: "listed (the_dir fs p) = []" by (metis last_in_set)
  have "header_ok (mapHdr fs)" "header_ok (dirHdr fs)" using assms(1) by (simp_all add: fs_ok_def system_ok_def)
  then show "length (all_sectors fs p) \<le> 2 + 2 * NumDirect"
    using length_file_sectors by (simp add: all_sectors_def none system_sectors_def header_ok_def)
  show "card (dom (files fs p)) = 0" using assms(2) by simp
qed

lemma room: "fs_ok fs p \<Longrightarrow> files fs p = Map.empty \<Longrightarrow> \<not> disk_bits < length (all_sectors fs p) + 1 + sectors_for 300"
proof -
  assume f: "fs_ok fs p" "files fs p = Map.empty"
  have "sectors_for 300 = 2" by (simp add: sectors_for_def SectorSize_def divRoundUp_def sdiv_nonneg smod_nonneg)
  moreover have "length (all_sectors fs p) \<le> 126" using empty_file_system(1) [OF f] by (simp add: NumDirect_def SectorSize_def)
  ultimately show ?thesis by (simp add: disk_bits_def)
qed

lemma formatted: "\<exists>fs p. FS_new (\<lambda>_ _. 3) True blank_disk = Inr (fs, p) \<and> fs_ok fs p \<and> files fs p = Map.empty"
  using FS_format_spec [OF blank_disk_ok, of "\<lambda>_ _. 3"] by blast

theorem file_system_refines_map_witness:
  "\<exists>fs p p' c. FS_new (\<lambda>_ _. 3) True blank_disk = Inr (fs, p) \<and> FS_Create (\<lambda>_ _. 3) fs [65, 66] 300 p = Inr (True, p') \<and>
     files fs p' [65, 66] = Some c \<and> length c = 300 \<and> FS_Remove (\<lambda>_ _. 3) fs [65, 66] p = Inr (False, p)"
proof -
  obtain fs p where f: "FS_new (\<lambda>_ _. 3) True blank_disk = Inr (fs, p)" "fs_ok fs p" "files fs p = Map.empty" using formatted by blast
  have "\<not> (files fs p (key [65, 66]) \<noteq> None \<or> card (dom (files fs p)) = NumDirEntries \<or>
      disk_bits < length (all_sectors fs p) + 1 + sectors_for 300)"
    using room [OF f(2,3)] empty_file_system(2) [OF f(2,3)] f(3) by (simp add: NumDirEntries_def)
  moreover have "(300::int) \<le> int (NumDirect * SectorSize)" by (simp add: NumDirect_def SectorSize_def)
  moreover have k: "key [65, 66] = [65, 66]" by (simp add: key_def c_prefix_def FileNameMaxLen_def)
  ultimately have "\<exists>p' c. FS_Create (\<lambda>_ _. 3) fs [65, 66] 300 p = Inr (True, p') \<and> fs_ok fs p' \<and> length c = nat 300 \<and>
      files fs p' = (files fs p)(key [65, 66] \<mapsto> c)" "FS_Remove (\<lambda>_ _. 3) fs [65, 66] p = Inr (False, p)"
    using file_system_refines_map [OF f(2), of 300 "[65, 66]" "\<lambda>_ _. 3"] f(3) by (simp_all only: if_False if_True simp_thms fun_upd_apply zero_le_numeral)
  then show ?thesis using f(1) k by auto
qed

text \<open>A file that is open: one with the header of an entry, whatever its position.\<close>

definition open_file :: "FileSystem \<Rightarrow> platter \<Rightarrow> 8 word list \<Rightarrow> OpenFile \<Rightarrow> bool" where
  "open_file fs p k f \<longleftrightarrow> (\<exists>e. e \<in> set (listed (the_dir fs p)) \<and> entry_key e = k \<and> hdr f = entry_header p e)"

lemma open_file_data:
  assumes "fs_ok fs p" "open_file fs p k f"
  shows "files fs p k = Some (contents (hdr f) p)" "header_ok (hdr f)" "length (contents (hdr f) p) = file_size (hdr f)"
  using assms opened(2,5) [OF assms(1)] length_contents [OF _ fs_parts(2) [OF assms(1)]] by (auto simp: open_file_def)

lemma FS_Open_opens:
  assumes "fs_ok fs p"
  shows "FS_Open mem fs name p = Inr None \<and> files fs p (key name) = None \<or>
    (\<exists>f. FS_Open mem fs name p = Inr (Some f) \<and> open_file fs p (key name) f \<and> seekPosition f = 0)"
  using FS_Open_spec [OF assms, of mem name] by (cases "files fs p (key name)") (auto simp: open_file_def)

lemma WriteAt_opened:
  assumes ok: "fs_ok fs p" and f: "open_file fs p k f" and "num \<le> int (length source)" "int pos + num < 2 ^ 31"
  shows "\<exists>c p' n. files fs p k = Some c \<and> Open_WriteAt junk f source num (int pos) p = Inr (int n, p') \<and>
    n = min (nat num) (length c - pos) \<and> fs_ok fs p' \<and> the_map fs p' = the_map fs p \<and> the_dir fs p' = the_dir fs p \<and>
    files fs p' = (files fs p)(k \<mapsto> overwrite c pos (take n source)) \<and> open_file fs p' k f"
proof -
  obtain e where e: "e \<in> set (listed (the_dir fs p))" "entry_key e = k" "hdr f = entry_header p e" using f by (auto simp: open_file_def)
  define c where "c = contents (entry_header p e) p"
  note data = open_file_data [OF ok f]
  define n where "n = min (nat num) (length c - pos)"
  have n: "n = transfer (hdr f) num pos" using data(3) e(3) by (simp add: n_def transfer_def c_def)
  have "transfer (hdr f) num pos \<le> length source" using assms(3) by (simp add: transfer_def)
  then obtain p' where
    p': "Open_WriteAt junk f source num (int pos) p = Inr (int n, p')" "platter_ok p'"
      "contents (hdr f) p' = overwrite c pos (take n source)" "\<forall>s. s \<notin> set (file_sectors (hdr f)) \<longrightarrow> p' s = p s"
    using WriteAt_spec [OF data(2) fs_parts(2) [OF ok], of num pos source junk] assms(4) e(3) by (auto simp: n c_def)
  have keep: "\<forall>s. s \<notin> set (file_sectors (entry_header p e)) \<longrightarrow> p' s = p s" using p'(4) e(3) by simp
  have "set (file_sectors (entry_header p e)) \<inter> set (system_sectors fs) = {}" using owned_apart [OF ok e(1)] by (simp add: owned_def)
  then have "contents (dirHdr fs) p' = contents (dirHdr fs) p" "contents (mapHdr fs) p' = contents (mapHdr fs) p"
    using keep by (auto intro!: contents_frame simp: system_sectors_def)
  then have same: "the_map fs p' = the_map fs p" "the_dir fs p' = the_dir fs p" by (simp_all add: the_map_def the_dir_def)
  moreover have u: "fs_ok fs p'" "files fs p' = (files fs p)(k \<mapsto> overwrite c pos (take n source))"
    using fs_update [OF ok e(1) p'(2) keep] p'(3) e(2,3) by simp_all
  moreover have "sint (header_sector e) \<notin> set (file_sectors (entry_header p e))"
    using ok e(1) by (auto simp: fs_ok_def all_sectors_def owned_def distinct_concat_iff)
  then have "entry_header p' e = entry_header p e" using keep by (simp add: entry_header_def)
  then have "open_file fs p' k f" using e same(2) unfolding open_file_def by metis
  moreover have "files fs p k = Some c" using data(1) e(3) c_def by simp
  ultimately show ?thesis using p'(1) n_def by blast
qed

text \<open>
  C9. Writing through an open file. A file opened by name is the file of the map with that name: \<open>WriteAt\<close> through it overwrites the bytes
  of that file inside its length, changes no other file, no header, not the directory and not the map of free sectors.
\<close>

theorem write_through_open_file:
  assumes "fs_ok fs p" "FS_Open mem fs name p = Inr (Some f)" "0 \<le> position" "num \<le> int (length source)" "position + num < 2 ^ 31"
  shows "\<exists>c p' n. files fs p (key name) = Some c \<and> Open_WriteAt junk f source num position p = Inr (int n, p') \<and>
    n = min (nat num) (length c - nat position) \<and> fs_ok fs p' \<and> the_map fs p' = the_map fs p \<and> the_dir fs p' = the_dir fs p \<and>
    files fs p' = (files fs p)(key name \<mapsto> overwrite c (nat position) (take n source))"
proof -
  have f: "open_file fs p (key name) f" using FS_Open_opens [OF assms(1), of mem name] assms(2) by auto
  show ?thesis using WriteAt_opened [OF assms(1) f assms(4), of "nat position" junk] assms(3,5) by auto
qed

theorem write_through_open_file_witness:
  "\<exists>fs p f c p'. fs_ok fs p \<and> FS_Open (\<lambda>_ _. 3) fs [65] p = Inr (Some f) \<and> Open_WriteAt (\<lambda>_. 0) f [1, 2, 3] 3 299 p = Inr (1, p') \<and>
     files fs p [65] = Some c \<and> files fs p' [65] = Some (overwrite c 299 [1])"
proof -
  obtain fs p0 where f: "fs_ok fs p0" "files fs p0 = Map.empty" using formatted by blast
  have k: "key [65] = [65]" by (simp add: key_def c_prefix_def FileNameMaxLen_def)
  have "\<not> (files fs p0 (key [65]) \<noteq> None \<or> card (dom (files fs p0)) = NumDirEntries \<or>
      disk_bits < length (all_sectors fs p0) + 1 + sectors_for 300)"
    using room [OF f] empty_file_system(2) [OF f] f(2) by (simp add: NumDirEntries_def)
  moreover have "(0::int) \<le> 300" "(300::int) \<le> int (NumDirect * SectorSize)" by (simp_all add: NumDirect_def SectorSize_def)
  ultimately obtain p c where p: "fs_ok fs p" "length c = nat 300" "files fs p = (files fs p0)(key [65] \<mapsto> c)"
    using FS_Create_spec [OF f(1), of 300 "[65]" "\<lambda>_ _. 3"] by (simp only: if_False) blast
  then have p: "fs_ok fs p" "files fs p [65] = Some c" "length c = 300" using k by simp_all
  obtain g where "FS_Open (\<lambda>_ _. 3) fs [65] p = Inr (Some g)" using FS_Open_spec [OF p(1), of "\<lambda>_ _. 3" "[65]"] p(2) k by auto
  with write_through_open_file [OF p(1) this, of 299 3 "[1, 2, 3]" "\<lambda>_. 0"] p k show ?thesis
    by (auto intro!: exI [of _ fs] exI [of _ p])
qed

end
