(* ===== verification/Nachos_FileTest.thy ===== *)
theory Nachos_FileTest
  imports Nachos_FileSys
begin

section \<open>The tests of the file system (filesys/fstest.cc)\<close>

text \<open>
  Copying a UNIX file, here its bytes, into the file system, printing a file, and the performance test, as compositions of the
  operations of the file system. \<open>mem\<close> is what the objects that the operations allocate contain, by call.
\<close>

subsection \<open>The operations\<close>

definition TransferSize :: nat where "TransferSize = 10"

text \<open>The loop of \<open>Copy\<close>: \<open>fread\<close> takes up to \<open>TransferSize\<close> bytes of what is left.\<close>

function copy_loop :: "(nat \<Rightarrow> 8 word) \<Rightarrow> 8 word list \<Rightarrow> OpenFile \<Rightarrow> platter \<Rightarrow> platter res" where
  "copy_loop junk unread f p = (let buffer = take TransferSize unread; amountRead = length buffer in
     if amountRead > 0 then andThen (Write junk f buffer (int amountRead) p) (\<lambda>(_, f1, p1). copy_loop junk (drop TransferSize unread) f1 p1)
     else Inr p)"
  by pat_completeness auto
termination by (relation "measure (\<lambda>(_, unread, _). length unread)") (auto simp: TransferSize_def)

declare copy_loop.simps [simp del]

text \<open>\<open>from\<close> is the UNIX file, \<open>None\<close> when it cannot be opened; the result says whether a copy was made.\<close>

definition Copy :: "(nat \<Rightarrow> nat \<Rightarrow> nat \<Rightarrow> 8 word) \<Rightarrow> FileSystem \<Rightarrow> 8 word list option \<Rightarrow> 8 word list \<Rightarrow> platter \<Rightarrow> (bool \<times> platter) res" where
  "Copy mem fs unix_file to p = (case unix_file of
       None \<Rightarrow> Inr (False, p)
     | Some data \<Rightarrow> andThen (FS_Create (mem 0) fs to (int (length data)) p) (\<lambda>(created, p1).
         if \<not> created then Inr (False, p1)
         else andThen (FS_Open (mem 1) fs to p1) (\<lambda>openFile. case openFile of
             None \<Rightarrow> Inl Assertion
           | Some f \<Rightarrow> andThen (copy_loop (mem 2 0) data f p1) (\<lambda>p2. Inr (True, p2)))))"

lemma Read_moves:
  assumes "Read f num p = Inr (bs, f')" "bs \<noteq> []"
  shows "hdr f' = hdr f" "seekPosition f < FileLength (hdr f)" "seekPosition f < seekPosition f'"
  using assms by (auto simp: Read_def Open_ReadAt_def clipped_def Let_def res_simps split: if_splits)

text \<open>The loop of \<open>Print\<close> returns what it prints.\<close>

function print_loop :: "OpenFile \<Rightarrow> platter \<Rightarrow> 8 word list res" where
  "print_loop f p = andThen (Read f (int TransferSize) p) (\<lambda>(buffer, f1).
     if buffer = [] then Inr [] else andThen (print_loop f1 p) (\<lambda>printed. Inr (buffer @ printed)))"
  by pat_completeness auto
termination
proof (relation "measure (\<lambda>(f, _). nat (FileLength (hdr f) - seekPosition f))")
  show "((f1, p), (f, p)) \<in> measure (\<lambda>(f, _). nat (FileLength (hdr f) - seekPosition f))"
    if "Read f (int TransferSize) p = Inr x" "(buffer, f1) = x" "buffer \<noteq> []" for f p x buffer f1
    using Read_moves [of f "int TransferSize" p buffer f1] that by auto
qed simp

declare print_loop.simps [simp del]

definition Print_file :: "(nat \<Rightarrow> nat \<Rightarrow> 8 word) \<Rightarrow> FileSystem \<Rightarrow> 8 word list \<Rightarrow> platter \<Rightarrow> 8 word list option res" where
  "Print_file mem fs name p = andThen (FS_Open mem fs name p) (\<lambda>openFile. case openFile of
       None \<Rightarrow> Inr None
     | Some f \<Rightarrow> andThen (print_loop f p) (\<lambda>printed. Inr (Some printed)))"

definition FileName :: "8 word list" where "FileName = [84, 101, 115, 116, 70, 105, 108, 101]"
definition Contents :: "8 word list" where "Contents = [49, 50, 51, 52, 53, 54, 55, 56, 57, 48]"
definition FileSize :: nat where "FileSize = length Contents * 5000"

text \<open>The loops of the performance test make \<open>FileSize\<close> bytes in steps of \<open>ContentSize\<close>; \<open>k\<close> counts the steps to go.\<close>

fun file_write_loop :: "(nat \<Rightarrow> 8 word) \<Rightarrow> nat \<Rightarrow> OpenFile \<Rightarrow> platter \<Rightarrow> (bool \<times> platter) res" where
  "file_write_loop junk 0 f p = Inr (True, p)"
| "file_write_loop junk (Suc k) f p = andThen (Write junk f Contents (int (length Contents)) p) (\<lambda>(numBytes, f1, p1).
     if numBytes < 10 then Inr (False, p1) else file_write_loop junk k f1 p1)"

definition FileWrite :: "(nat \<Rightarrow> nat \<Rightarrow> nat \<Rightarrow> 8 word) \<Rightarrow> FileSystem \<Rightarrow> platter \<Rightarrow> (bool \<times> platter) res" where
  "FileWrite mem fs p = andThen (FS_Create (mem 0) fs FileName 0 p) (\<lambda>(created, p1).
     if \<not> created then Inr (False, p1)
     else andThen (FS_Open (mem 1) fs FileName p1) (\<lambda>openFile. case openFile of
         None \<Rightarrow> Inr (False, p1)
       | Some f \<Rightarrow> file_write_loop (mem 2 0) (FileSize div length Contents) f p1))"

fun file_read_loop :: "nat \<Rightarrow> OpenFile \<Rightarrow> platter \<Rightarrow> bool res" where
  "file_read_loop 0 f p = Inr True"
| "file_read_loop (Suc k) f p = andThen (Read f (int (length Contents)) p) (\<lambda>(buffer, f1).
     if length buffer < 10 \<or> buffer \<noteq> Contents then Inr False else file_read_loop k f1 p)"

definition FileRead :: "(nat \<Rightarrow> nat \<Rightarrow> 8 word) \<Rightarrow> FileSystem \<Rightarrow> platter \<Rightarrow> bool res" where
  "FileRead mem fs p = andThen (FS_Open mem fs FileName p) (\<lambda>openFile. case openFile of
       None \<Rightarrow> Inr False
     | Some f \<Rightarrow> file_read_loop (FileSize div length Contents) f p)"

text \<open>Whether the file was written, read back and removed.\<close>

definition PerformanceTest :: "(nat \<Rightarrow> nat \<Rightarrow> nat \<Rightarrow> nat \<Rightarrow> 8 word) \<Rightarrow> FileSystem \<Rightarrow> platter \<Rightarrow> (bool \<times> bool \<times> bool \<times> platter) res" where
  "PerformanceTest mem fs p = andThen (FileWrite (mem 0) fs p) (\<lambda>(written, p1).
     andThen (FileRead (mem 1 0) fs p1) (\<lambda>read. andThen (FS_Remove (mem 2 0) fs FileName p1) (\<lambda>(removed, p2).
       Inr (written, read, removed, p2))))"

subsection \<open>Copying and printing\<close>

lemma copy_loop_spec:
  assumes "fs_ok fs p" "open_file fs p k f" "files fs p k = Some c" "seekPosition f = int pos" "pos + length unread = length c"
  shows "\<exists>p'. copy_loop junk unread f p = Inr p' \<and> fs_ok fs p' \<and> files fs p' = (files fs p)(k \<mapsto> take pos c @ unread)"
  using assms
proof (induction unread arbitrary: f p c pos rule: length_induct)
  case (1 unread)
  note ok = "1.prems"(1,2)
  show ?case
  proof (cases "unread = []")
    case True
    then have "files fs p = (files fs p)(k \<mapsto> take pos c @ unread)" using "1.prems"(3,5) by (simp add: fun_upd_idem)
    then show ?thesis using True ok(1) by (simp add: copy_loop.simps)
  next
    case False
    define b where "b = take TransferSize unread"
    have b: "b \<noteq> []" "length b \<le> 10" "pos + length b \<le> length c" "unread = b @ drop TransferSize unread"
      using False "1.prems"(5) by (simp_all add: b_def TransferSize_def)
    have c: "c = contents (hdr f) p" "length c = file_size (hdr f)" using open_file_data [OF ok] "1.prems"(3) by simp_all
    have small: "int pos + int (length b) < 2 ^ 31"
      using b(3) c(2) file_size_small [OF open_file_data(2) [OF ok]] by simp
    obtain p1 where w: "Open_WriteAt junk f b (int (length b)) (int pos) p = Inr (int (length b), p1)" "fs_ok fs p1"
        "files fs p1 = (files fs p)(k \<mapsto> overwrite c pos b)" "open_file fs p1 k f"
      using WriteAt_opened [OF ok _ small, of b junk] "1.prems"(3) b(3) by auto
    let ?f = "f\<lparr>seekPosition := int (pos + length b)\<rparr>"
    have lo: "length (overwrite c pos b) = length c" using b(3) by simp
    have left: "length unread = length b + length (drop TransferSize unread)" using b(4) by (metis length_append)
    have "pos + length b + length (drop TransferSize unread) = length (overwrite c pos b)"
      unfolding lo using "1.prems"(5) left by linarith
    moreover have "open_file fs p1 k ?f" using w(4) by (simp add: open_file_def)
    moreover have "files fs p1 k = Some (overwrite c pos b)" by (simp add: w(3))
    moreover have "seekPosition ?f = int (pos + length b)" by simp
    moreover have "length (drop TransferSize unread) < length unread" using False by (simp add: TransferSize_def)
    ultimately obtain p2 where p2: "copy_loop junk (drop TransferSize unread) ?f p1 = Inr p2" "fs_ok fs p2"
        "files fs p2 = (files fs p1)(k \<mapsto> take (pos + length b) (overwrite c pos b) @ drop TransferSize unread)"
      using "1.IH" w(2) by blast
    have "take (pos + length b) (overwrite c pos b) = take pos c @ b" using b(3) by (simp add: overwrite_def)
    then have "files fs p2 = (files fs p)(k \<mapsto> take pos c @ unread)" using p2(3) w(3) b(4) by simp
    moreover have "copy_loop junk unread f p = Inr p2"
      unfolding copy_loop.simps [of junk unread f p] b_def [symmetric] using b(1) w(1) p2(1) "1.prems"(4) by (simp add: Write_def Let_def)
    ultimately show ?thesis using p2(2) by blast
  qed
qed

lemma print_loop_spec:
  assumes "fs_ok fs p" "open_file fs p k f" "files fs p k = Some c" "seekPosition f = int pos" "pos \<le> length c"
  shows "print_loop f p = Inr (drop pos c)"
  using assms(2,4,5)
proof (induction "length c - pos" arbitrary: f pos rule: less_induct)
  case less
  have c: "c = contents (hdr f) p" "header_ok (hdr f)" "length c = file_size (hdr f)" using open_file_data [OF assms(1) less.prems(1)] assms(3) by simp_all
  have small: "int pos + int TransferSize < 2 ^ 31"
    using less.prems(3) c(3) file_size_small [OF c(2)] by (simp add: TransferSize_def)
  have r: "Read f (int TransferSize) p = Inr (take TransferSize (drop pos c), f\<lparr>seekPosition := int (pos + length (take TransferSize (drop pos c)))\<rparr>)"
    using ReadAt_spec [OF c(2) fs_parts(2) [OF assms(1)] small] c(1) less.prems(2) by (simp add: Read_def)
  show ?case
  proof (cases "pos = length c")
    case True
    then show ?thesis unfolding print_loop.simps [of f p] r by simp
  next
    case False
    let ?b = "take TransferSize (drop pos c)"
    have b: "?b \<noteq> []" "pos + length ?b \<le> length c" "length c - (pos + length ?b) < length c - pos"
      using False less.prems(3) by (auto simp: TransferSize_def)
    have "print_loop (f\<lparr>seekPosition := int (pos + length ?b)\<rparr>) p = Inr (drop (pos + length ?b) c)"
      by (rule less.hyps [OF b(3)]) (use less.prems(1) b(2) in \<open>simp_all add: open_file_def\<close>)
    moreover have "?b @ drop (pos + length ?b) c = drop pos c"
    proof -
      have "drop (length (take TransferSize xs)) xs = drop TransferSize xs" for xs :: "8 word list" by (simp add: min_def)
      then show ?thesis by (metis append_take_drop_id add.commute drop_drop)
    qed
    ultimately show ?thesis unfolding print_loop.simps [of f p] r using b(1) by simp
  qed
qed

text \<open>When \<open>Create\<close> refuses.\<close>

definition refused :: "FileSystem \<Rightarrow> 8 word list \<Rightarrow> int \<Rightarrow> platter \<Rightarrow> bool" where
  "refused fs name bytes p \<longleftrightarrow> files fs p (key name) \<noteq> None \<or> card (dom (files fs p)) = NumDirEntries \<or>
     disk_bits < length (all_sectors fs p) + 1 + sectors_for bytes"

lemma Create_cases:
  assumes "fs_ok fs p" "0 \<le> bytes" "bytes \<le> int (NumDirect * SectorSize)"
  shows "refused fs name bytes p \<and> FS_Create mem fs name bytes p = Inr (False, p) \<or>
    \<not> refused fs name bytes p \<and> (\<exists>p' c. FS_Create mem fs name bytes p = Inr (True, p') \<and> fs_ok fs p' \<and> length c = nat bytes \<and>
      files fs p' = (files fs p)(key name \<mapsto> c))"
  using FS_Create_spec [OF assms, of name mem] by (cases "refused fs name bytes p") (simp_all add: refused_def)

lemma int_mono: "m \<le> n \<Longrightarrow> int m \<le> int n"
  by simp

text \<open>
  C10. Copying and printing are a round trip. For a UNIX file of at most 62 sectors, \<open>Copy\<close> does nothing exactly when \<open>Create\<close> refuses;
  otherwise the copy, made in steps of ten bytes through the open file, holds exactly the bytes of the UNIX file, every other file
  is as it was, the file system is in order, and \<open>Print\<close> of the copy prints those bytes.
\<close>

theorem copy_then_print:
  assumes "fs_ok fs p" "length data \<le> NumDirect * SectorSize"
  shows "if files fs p (key to) \<noteq> None \<or> card (dom (files fs p)) = NumDirEntries \<or>
      disk_bits < length (all_sectors fs p) + 1 + sectors_for (int (length data))
    then Copy mem fs (Some data) to p = Inr (False, p)
    else \<exists>p'. Copy mem fs (Some data) to p = Inr (True, p') \<and> fs_ok fs p' \<and> files fs p' = (files fs p)(key to \<mapsto> data) \<and>
      Print_file mem' fs to p' = Inr (Some data)"
proof (cases "refused fs to (int (length data)) p")
  case True
  with Create_cases [OF assms(1) _ int_mono [OF assms(2)], of to "mem 0"]
  have "FS_Create (mem 0) fs to (int (length data)) p = Inr (False, p)" by auto
  then show ?thesis using True unfolding refused_def by (simp add: Copy_def)
next
  case False
  with Create_cases [OF assms(1) _ int_mono [OF assms(2)], of to "mem 0"] obtain p1 c where
    p1: "FS_Create (mem 0) fs to (int (length data)) p = Inr (True, p1)" "fs_ok fs p1" "length c = length data"
      "files fs p1 = (files fs p)(key to \<mapsto> c)" by auto
  then have k: "files fs p1 (key to) = Some c" by simp
  then obtain f where f: "FS_Open (mem 1) fs to p1 = Inr (Some f)" "open_file fs p1 (key to) f" "seekPosition f = 0"
    using FS_Open_opens [OF p1(2), of "mem 1" to] by auto
  obtain p2 where p2: "copy_loop (mem 2 0) data f p1 = Inr p2" "fs_ok fs p2" "files fs p2 = (files fs p1)(key to \<mapsto> data)"
    using copy_loop_spec [OF p1(2) f(2) k, of 0 data "mem 2 0"] f(3) p1(3) by auto
  then have k2: "files fs p2 (key to) = Some data" by simp
  then obtain g where g: "FS_Open mem' fs to p2 = Inr (Some g)" "open_file fs p2 (key to) g" "seekPosition g = 0"
    using FS_Open_opens [OF p2(2), of mem' to] by auto
  have "Print_file mem' fs to p2 = Inr (Some data)"
    using g print_loop_spec [OF p2(2) g(2) k2, of 0] by (simp add: Print_file_def)
  moreover have "Copy mem fs (Some data) to p = Inr (True, p2)" using p1(1) f(1) p2(1) by (simp add: Copy_def)
  ultimately show ?thesis using False p2(2,3) p1(4) unfolding refused_def by (simp add: fun_upd_upd)
qed

subsection \<open>The performance test\<close>

lemma file_read_total:
  assumes "fs_ok fs p" "open_file fs p k f" "files fs p k = Some c" "seekPosition f = int pos" "pos \<le> length c"
  shows "\<exists>b. file_read_loop n f p = Inr b"
  using assms(2,4,5)
proof (induction n arbitrary: f pos)
  case (Suc n)
  have c: "c = contents (hdr f) p" "header_ok (hdr f)" "length c = file_size (hdr f)" using open_file_data [OF assms(1) Suc.prems(1)] assms(3) by simp_all
  have small: "int pos + int (length Contents) < 2 ^ 31"
    using Suc.prems(3) c(3) file_size_small [OF c(2)] by (simp add: Contents_def)
  let ?b = "take (length Contents) (drop pos c)"
  have r: "Read f (int (length Contents)) p = Inr (?b, f\<lparr>seekPosition := int (pos + length ?b)\<rparr>)"
    using ReadAt_spec [OF c(2) fs_parts(2) [OF assms(1)] small] c(1) Suc.prems(2) by (simp add: Read_def)
  have "pos + length ?b \<le> length c" using Suc.prems(3) by simp
  then have "\<exists>b. file_read_loop n (f\<lparr>seekPosition := int (pos + length ?b)\<rparr>) p = Inr b"
    by (intro Suc.IH) (use Suc.prems(1) in \<open>simp_all add: open_file_def\<close>)
  then show ?case using r by (simp add: ex_bool_eq)
qed (simp add: ex_bool_eq)

lemma FileRead_total: "fs_ok fs p \<Longrightarrow> \<exists>b. FileRead mem fs p = Inr b"
proof -
  assume ok: "fs_ok fs p"
  from FS_Open_opens [OF ok, of mem FileName] show ?thesis
  proof
    assume "\<exists>f. FS_Open mem fs FileName p = Inr (Some f) \<and> open_file fs p (key FileName) f \<and> seekPosition f = 0"
    then obtain f where f: "FS_Open mem fs FileName p = Inr (Some f)" "open_file fs p (key FileName) f" "seekPosition f = 0" by blast
    from file_read_total [OF ok f(2) open_file_data(1) [OF ok f(2)], of 0] f(3)
    obtain b where "file_read_loop (FileSize div length Contents) f p = Inr b" by auto
    then show ?thesis using f(1) by (simp add: FileRead_def)
  qed (simp add: FileRead_def ex_bool_eq)
qed

text \<open>A new file is empty and cannot grow, so the first write of the test writes nothing.\<close>

lemma FileWrite_fails:
  assumes ok: "fs_ok fs p" and new: "\<not> refused fs FileName 0 p"
  shows "\<exists>p'. FileWrite mem fs p = Inr (False, p') \<and> fs_ok fs p' \<and> files fs p' = (files fs p)(key FileName \<mapsto> [])"
proof -
  obtain p1 where p1: "FS_Create (mem 0) fs FileName 0 p = Inr (True, p1)" "fs_ok fs p1" "files fs p1 = (files fs p)(key FileName \<mapsto> [])"
    using Create_cases [OF ok, of 0 FileName "mem 0"] new by auto
  then have k: "files fs p1 (key FileName) = Some []" by simp
  then obtain f where f: "FS_Open (mem 1) fs FileName p1 = Inr (Some f)" "open_file fs p1 (key FileName) f" "seekPosition f = 0"
    using FS_Open_opens [OF p1(2), of "mem 1" FileName] by auto
  have small: "int (0 :: nat) + int (length Contents) < 2 ^ 31" by (simp add: Contents_def)
  obtain p2 where w: "Open_WriteAt (mem 2 0) f Contents (int (length Contents)) (int 0) p1 = Inr (0, p2)" "fs_ok fs p2"
      "files fs p2 = (files fs p1)(key FileName \<mapsto> [])"
    using WriteAt_opened [OF p1(2) f(2) _ small, of Contents "mem 2 0"] k by (auto simp: overwrite_def)
  have steps: "FileSize div length Contents = Suc 4999" by (simp add: FileSize_def Contents_def)
  have "file_write_loop (mem 2 0) (FileSize div length Contents) f p1 = Inr (False, p2)"
    unfolding steps file_write_loop.simps(2) using w(1) f(3) by (simp add: Write_def)
  then have "FileWrite mem fs p = Inr (False, p2)"
    using p1(1) f(1) by (simp add: FileWrite_def)
  then show ?thesis using w(2,3) p1(3) by simp
qed

text \<open>
  The performance test cannot succeed. On a file system in order it never aborts, but never writes its file: a file made with size 0
  does not grow. Without room it changes nothing; with room it leaves all files as they were; but if a file \<open>TestFile\<close> exists, that file
  is removed.
\<close>

theorem performance_test_fails:
  assumes "fs_ok fs p"
  shows "if files fs p (key FileName) \<noteq> None
    then \<exists>r p'. PerformanceTest mem fs p = Inr (False, r, True, p') \<and> fs_ok fs p' \<and> files fs p' = (files fs p)(key FileName := None)
    else \<exists>removed p'. PerformanceTest mem fs p = Inr (False, False, removed, p') \<and> fs_ok fs p' \<and> files fs p' = files fs p \<and>
      (removed \<longleftrightarrow> card (dom (files fs p)) \<noteq> NumDirEntries \<and> length (all_sectors fs p) + 1 \<le> disk_bits)"
proof (cases "refused fs FileName 0 p")
  case True
  then have w: "FileWrite (mem 0) fs p = Inr (False, p)"
    using Create_cases [OF assms, of 0 FileName "mem 0 0"] by (auto simp: FileWrite_def)
  obtain b where b: "FileRead (mem 1 0) fs p = Inr b" using FileRead_total [OF assms] by blast
  show ?thesis
  proof (cases "files fs p (key FileName)")
    case None
    then have "b = False" using b FS_Open_opens [OF assms, of "mem 1 0" FileName] open_file_data(1) [OF assms] by (auto simp: FileRead_def)
    moreover have "FS_Remove (mem 2 0) fs FileName p = Inr (False, p)" using FS_Remove_spec [OF assms, of FileName "mem 2 0"] None by simp
    ultimately have "PerformanceTest mem fs p = Inr (False, False, False, p)" using w b by (simp add: PerformanceTest_def)
    then show ?thesis using None True assms by (auto simp: refused_def sectors_for_def divRoundUp_def)
  next
    case (Some c)
    then obtain p' where "FS_Remove (mem 2 0) fs FileName p = Inr (True, p')" "fs_ok fs p'" "files fs p' = (files fs p)(key FileName := None)"
      using FS_Remove_spec [OF assms, of FileName "mem 2 0"] by auto
    then show ?thesis using Some w b by (simp add: PerformanceTest_def)
  qed
next
  case False
  obtain p1 where p1: "FileWrite (mem 0) fs p = Inr (False, p1)" "fs_ok fs p1" "files fs p1 = (files fs p)(key FileName \<mapsto> [])"
    using FileWrite_fails [OF assms False] by blast
  then have k: "files fs p1 (key FileName) = Some []" by simp
  then obtain f where f: "FS_Open (mem 1 0) fs FileName p1 = Inr (Some f)" "open_file fs p1 (key FileName) f" "seekPosition f = 0"
    using FS_Open_opens [OF p1(2), of "mem 1 0" FileName] by auto
  have "contents (hdr f) p1 = []" using open_file_data(1) [OF p1(2) f(2)] k by simp
  moreover have small: "int (0 :: nat) + int (length Contents) < 2 ^ 31" by (simp add: Contents_def)
  ultimately have "Read f (int (length Contents)) p1 = Inr ([], f)"
    using ReadAt_spec [OF open_file_data(2) [OF p1(2) f(2)] fs_parts(2) [OF p1(2)] small] f(3) by (simp add: Read_def)
  then have "file_read_loop (Suc 4999) f p1 = Inr False" unfolding file_read_loop.simps(2) by simp
  moreover have "FileSize div length Contents = Suc 4999" by (simp add: FileSize_def Contents_def)
  ultimately have r: "FileRead (mem 1 0) fs p1 = Inr False" using f(1) unfolding FileRead_def by (simp only: andThen_Inr option.case)
  obtain p2 where p2: "FS_Remove (mem 2 0) fs FileName p1 = Inr (True, p2)" "fs_ok fs p2" "files fs p2 = (files fs p1)(key FileName := None)"
    using FS_Remove_spec [OF p1(2), of FileName "mem 2 0"] k by auto
  have none: "files fs p (key FileName) = None" using False by (simp add: refused_def)
  then have "files fs p2 = files fs p" using p2(3) p1(3) by (auto simp: fun_upd_idem)
  moreover have "PerformanceTest mem fs p = Inr (False, False, True, p2)" using p1(1) r p2(1) by (simp add: PerformanceTest_def)
  ultimately show ?thesis using none False p2(2) by (auto simp: refused_def sectors_for_def divRoundUp_def)
qed

theorem performance_test_fails_witness:
  "\<exists>fs p p'. FS_new (\<lambda>_ _. 3) True blank_disk = Inr (fs, p) \<and> PerformanceTest (\<lambda>_ _ _ _. 3) fs p = Inr (False, False, True, p')"
proof -
  obtain fs p where f: "FS_new (\<lambda>_ _. 3) True blank_disk = Inr (fs, p)" "fs_ok fs p" "files fs p = Map.empty" using formatted by blast
  have "length (all_sectors fs p) + 1 \<le> disk_bits" using room [OF f(2,3)] by simp
  moreover have "card (dom (files fs p)) \<noteq> NumDirEntries" using empty_file_system(2) [OF f(2,3)] by (simp add: NumDirEntries_def)
  ultimately show ?thesis using performance_test_fails [OF f(2), of "\<lambda>_ _ _ _. 3"] f(1,3) by auto
qed

theorem copy_then_print_witness:
  "\<exists>fs p p'. FS_new (\<lambda>_ _. 3) True blank_disk = Inr (fs, p) \<and> Copy (\<lambda>_ _ _. 3) fs (Some (replicate 300 7)) [65] p = Inr (True, p') \<and>
     Print_file (\<lambda>_ _. 4) fs [65] p' = Inr (Some (replicate 300 7))"
proof -
  obtain fs p where f: "FS_new (\<lambda>_ _. 3) True blank_disk = Inr (fs, p)" "fs_ok fs p" "files fs p = Map.empty" using formatted by blast
  have "\<not> (files fs p (key [65]) \<noteq> None \<or> card (dom (files fs p)) = NumDirEntries \<or>
      disk_bits < length (all_sectors fs p) + 1 + sectors_for (int (length (replicate 300 (7 :: 8 word)))))"
    using room [OF f(2,3)] empty_file_system(2) [OF f(2,3)] f(3) by (simp add: NumDirEntries_def)
  moreover have "length (replicate 300 (7 :: 8 word)) \<le> NumDirect * SectorSize" by (simp add: NumDirect_def SectorSize_def)
  ultimately show ?thesis using copy_then_print [OF f(2), of "replicate 300 7" "[65]" "\<lambda>_ _ _. 3" "\<lambda>_ _. 4"] f(1) by (simp only: if_False) blast
qed

end
