(* ===== verification/Nachos_Console.thy ===== *)
theory Nachos_Console
  imports Nachos_Tasks
begin

section \<open>The console and its test (machine/console.cc, userprog/progtest.cc)\<close>

text \<open>
  The console device on top of the interrupt emulation: what the keyboard file still holds (\<open>keys\<close>), what was written to the
  display, the one-character buffer and the flag of a write in progress. \<open>h\<close> stands for the handler that the user of the
  device registers. Then \<open>ConsoleTest\<close>, a thread that echoes, as a task that interleaves with the interrupts of the device.
\<close>

subsection \<open>The device\<close>

definition EOF :: "8 word" where "EOF = 255"

record ConsoleState = IntState +
  keys :: "8 word list"
  display :: "8 word list"
  incoming :: "8 word"
  putBusy :: bool

definition Console_new :: "8 word list \<Rightarrow> 'a ConsoleState_scheme \<Rightarrow> 'a ConsoleState_scheme res" where
  "Console_new typed s = Schedule ConsoleReadPoll 0 ConsoleTime ConsoleReadInt
     (s\<lparr>keys := typed, display := [], putBusy := False, incoming := EOF\<rparr>)"

text \<open>
  \<open>poll\<close> is the answer of the host when \<open>PollFile\<close> asks it for input. \<open>Read\<close> of \<open>sysdep.cc\<close> asserts that it gets the
  character it wants.
\<close>

definition CheckCharAvail :: "('a ConsoleState_scheme \<Rightarrow> 'a ConsoleState_scheme res) \<Rightarrow> bool \<Rightarrow> 'a ConsoleState_scheme \<Rightarrow> 'a ConsoleState_scheme res" where
  "CheckCharAvail h poll s = andThen (Schedule ConsoleReadPoll 0 ConsoleTime ConsoleReadInt s) (\<lambda>s.
     if incoming s \<noteq> EOF \<or> \<not> poll then Inr s
     else (case keys s of [] \<Rightarrow> Inl Assertion
       | c # cs \<Rightarrow> h (s\<lparr>keys := cs, incoming := c, stats := (stats s)\<lparr>numConsoleCharsRead := numConsoleCharsRead (stats s) + 1\<rparr>\<rparr>)))"

definition Console_WriteDone :: "('a ConsoleState_scheme \<Rightarrow> 'a ConsoleState_scheme res) \<Rightarrow> 'a ConsoleState_scheme \<Rightarrow> 'a ConsoleState_scheme res" where
  "Console_WriteDone h s = h (s\<lparr>putBusy := False, stats := (stats s)\<lparr>numConsoleCharsWritten := numConsoleCharsWritten (stats s) + 1\<rparr>\<rparr>)"

definition GetChar :: "'a ConsoleState_scheme \<Rightarrow> 8 word \<times> 'a ConsoleState_scheme" where
  "GetChar s = (incoming s, s\<lparr>incoming := EOF\<rparr>)"

definition PutChar :: "8 word \<Rightarrow> 'a ConsoleState_scheme \<Rightarrow> 'a ConsoleState_scheme res" where
  "PutChar ch s = ASSERT (\<not> putBusy s) (Schedule ConsoleWriteDone 0 ConsoleTime ConsoleWriteInt
     (s\<lparr>display := display s @ [ch], putBusy := True\<rparr>))"

subsection \<open>ConsoleTest\<close>

text \<open>Where the thread is: before \<open>readAvail->P()\<close>, behind it, before \<open>writeDone->P()\<close> with the character it echoed, or returned.\<close>

datatype echoSpot = AtRead | AtEcho | AtWrite "8 word" | Returned

record EchoState = ConsoleState +
  readAvail :: nat
  writeDone :: nat
  echo_spot :: echoSpot

definition ReadAvail_V :: "EchoState \<Rightarrow> EchoState res" where
  "ReadAvail_V s = Inr (s\<lparr>readAvail := readAvail s + 1\<rparr>)"

definition WriteDone_V :: "EchoState \<Rightarrow> EchoState res" where
  "WriteDone_V s = Inr (s\<lparr>writeDone := writeDone s + 1\<rparr>)"

definition ConsoleTest :: "EchoState \<Rightarrow> EchoState res" where
  "ConsoleTest s = (case echo_spot s of
     AtRead \<Rightarrow> Inr (if readAvail s = 0 then s else s\<lparr>readAvail := readAvail s - 1, echo_spot := AtEcho\<rparr>)
   | AtEcho \<Rightarrow> (let (ch, s1) = GetChar s in andThen (PutChar ch s1) (\<lambda>s2. Inr (s2\<lparr>echo_spot := AtWrite ch\<rparr>)))
   | AtWrite ch \<Rightarrow> Inr (if writeDone s = 0 then s
       else s\<lparr>writeDone := writeDone s - 1, echo_spot := (if ch = 113 then Returned else AtRead)\<rparr>)
   | Returned \<Rightarrow> Inr s)"

text \<open>
  Thread 0 is the test; thread 1 stands for the device, which polls the keyboard or finishes a write in progress. The host says
  that there is input only when there is some.
\<close>

definition echo_step :: "EchoState task" where
  "echo_step i c s = (if i = 0 then ConsoleTest s
     else if fst c = 0 then CheckCharAvail ReadAvail_V (snd c > 0 \<and> keys s \<noteq> []) s
     else if putBusy s then Console_WriteDone WriteDone_V s else Inr s)"

definition echo_start :: "8 word list \<Rightarrow> EchoState \<Rightarrow> EchoState res" where
  "echo_start typed s = andThen (Console_new typed s) (\<lambda>s1. Inr (s1\<lparr>readAvail := 0, writeDone := 0, echo_spot := AtRead\<rparr>))"

subsection \<open>Everything typed is echoed once and in order\<close>

definition buffered :: "'a ConsoleState_scheme \<Rightarrow> 8 word list" where
  "buffered s = (if incoming s = EOF then [] else [incoming s])"

definition echo_ok :: "8 word list \<Rightarrow> EchoState \<Rightarrow> bool" where
  "echo_ok typed s \<longleftrightarrow> typed = display s @ buffered s @ keys s \<and>
     readAvail s + (if echo_spot s = AtEcho then 1 else 0) = length (buffered s) \<and>
     (if \<exists>ch. echo_spot s = AtWrite ch then writeDone s = (if putBusy s then 0 else 1) else \<not> putBusy s \<and> writeDone s = 0) \<and>
     (case echo_spot s of AtWrite ch \<Rightarrow> display s \<noteq> [] \<and> last (display s) = ch \<and> 113 \<notin> set (butlast (display s))
      | Returned \<Rightarrow> display s \<noteq> [] \<and> last (display s) = 113 \<and> 113 \<notin> set (butlast (display s))
      | _ \<Rightarrow> 113 \<notin> set (display s))"

lemma Schedule_fields:
  "0 < t \<Longrightarrow> \<exists>q. Schedule k a t ty s = Inr (s\<lparr>pending := q\<rparr>)"
  by (simp add: Schedule_def Let_def) blast

lemma set_last: "xs \<noteq> [] \<Longrightarrow> set xs = insert (last xs) (set (butlast xs))"
  by (cases xs rule: rev_cases) auto

lemma ConsoleTest_keeps:
  assumes "echo_ok typed s" "EOF \<notin> set typed"
  shows "\<exists>s'. ConsoleTest s = Inr s' \<and> echo_ok typed s'"
proof (cases "echo_spot s")
  case AtEcho
  then have b: "incoming s \<noteq> EOF" "readAvail s = 0" "\<not> putBusy s" "writeDone s = 0"
    using assms(1) by (auto simp: echo_ok_def buffered_def split: if_splits)
  obtain q where "Schedule ConsoleWriteDone 0 ConsoleTime ConsoleWriteInt
      (s\<lparr>incoming := EOF, display := display s @ [incoming s], putBusy := True\<rparr>) =
      Inr (s\<lparr>incoming := EOF, display := display s @ [incoming s], putBusy := True, pending := q\<rparr>)"
    using Schedule_fields [of ConsoleTime ConsoleWriteDone 0 ConsoleWriteInt
        "s\<lparr>incoming := EOF, display := display s @ [incoming s], putBusy := True\<rparr>"] by (auto simp: ConsoleTime_def)
  then show ?thesis using assms b AtEcho
    by (simp add: ConsoleTest_def GetChar_def PutChar_def echo_ok_def buffered_def)
qed (use assms in \<open>auto simp: ConsoleTest_def echo_ok_def buffered_def set_last split: if_splits\<close>)

lemma device_keeps_echo:
  assumes "echo_ok typed s" "EOF \<notin> set typed"
  shows "\<exists>s'. echo_step 1 c s = Inr s' \<and> echo_ok typed s'"
proof (cases "fst c = 0")
  case True
  obtain q where q: "Schedule ConsoleReadPoll 0 ConsoleTime ConsoleReadInt s = Inr (s\<lparr>pending := q\<rparr>)"
    using Schedule_fields [of ConsoleTime ConsoleReadPoll 0 ConsoleReadInt s] by (auto simp: ConsoleTime_def)
  show ?thesis
  proof (cases "incoming s = EOF \<and> snd c > 0 \<and> keys s \<noteq> []")
    case read: True
    then obtain k ks where "keys s = k # ks" by (cases "keys s") auto
    moreover have "k \<noteq> EOF" "echo_spot s \<noteq> AtEcho" using assms read calculation by (auto simp: echo_ok_def buffered_def)
    ultimately show ?thesis using assms(1) True read q
      by (cases "echo_spot s") (simp_all add: echo_step_def CheckCharAvail_def ReadAvail_V_def echo_ok_def buffered_def)
  next
    case False
    then show ?thesis using assms(1) True q
      by (cases "echo_spot s") (auto simp: echo_step_def CheckCharAvail_def echo_ok_def buffered_def)
  qed
next
  case False
  then show ?thesis using assms(1)
    by (auto simp: echo_step_def Console_WriteDone_def WriteDone_V_def echo_ok_def buffered_def split: if_splits echoSpot.splits)
qed

lemma echo_start_ok: "EOF \<notin> set typed \<Longrightarrow> echo_start typed s = Inr s0 \<Longrightarrow> echo_ok typed s0"
  by (auto simp: echo_start_def Console_new_def res_simps Schedule_def Let_def echo_ok_def buffered_def)

text \<open>What is typed is part of the invariant, so the interpretation fixes no keyboard.\<close>

definition echo_good :: "EchoState \<Rightarrow> bool" where
  "echo_good s \<longleftrightarrow> (\<exists>typed. EOF \<notin> set typed \<and> echo_ok typed s)"

lemma echo_step_keeps:
  assumes "echo_ok typed s" "EOF \<notin> set typed" "i < 2"
  shows "\<exists>s'. echo_step i c s = Inr s' \<and> echo_ok typed s'"
proof (cases "i = 0")
  case True
  then show ?thesis using ConsoleTest_keeps [OF assms(1,2)] by (simp add: echo_step_def)
next
  case False
  then have "i = 1" using assms(3) by simp
  then show ?thesis using device_keeps_echo [OF assms(1,2), of c] by simp
qed

interpretation echo: task_invariant echo_step 2 echo_good
proof unfold_locales
  fix s i c s'
  assume good: "echo_good s" and i: "i < 2" and st: "echo_step i c s = Inr s'"
  obtain typed where t: "EOF \<notin> set typed" "echo_ok typed s" using good by (auto simp: echo_good_def)
  show "echo_good s'" using echo_step_keeps [OF t(2,1) i, of c] st t(1) unfolding echo_good_def by auto
next
  fix s c and i :: nat
  assume good: "echo_good s" and i: "i < 2"
  obtain typed where t: "EOF \<notin> set typed" "echo_ok typed s" using good by (auto simp: echo_good_def)
  show "\<exists>s'. echo_step i c s = Inr s'" using echo_step_keeps [OF t(2,1) i, of c] by blast
qed

lemma runs_echo: "runs echo_step 2 s0 s \<Longrightarrow> echo_ok typed s0 \<Longrightarrow> EOF \<notin> set typed \<Longrightarrow> echo_ok typed s"
proof (induction rule: runs.induct)
  case (turn s i c s')
  have "echo_ok typed s" by (rule turn.IH [OF turn.prems])
  then show ?case using echo_step_keeps [OF _ turn.prems(2) turn.hyps(2), of s c] turn.hyps(3) by auto
qed


definition echo_clock :: EchoState where
  "echo_clock = ConsoleState.extend (IntState.extend \<lparr>stats = Statistics_new, level = IntOn, pending = [], inHandler = False,
     yieldOnReturn = False, status = SystemMode, rng = (\<lambda>_. 0), rngPos = 0\<rparr> (ConsoleState.fields [] [] 0 False)) (EchoState.fields 0 0 AtRead)"


end
