(* ===== verification/Nachos_Network.thy ===== *)
theory Nachos_Network
  imports Nachos_Bytes Nachos_Tasks
begin

section \<open>The network and the post office (machine/network.cc, network/post.cc, threads/synchlist.cc)\<close>

text \<open>
  The network device on top of the interrupt emulation, and the post office that uses it. A machine sees the packets that
  will arrive for it, in order, as its \<open>socket\<close>; what it sends goes to \<open>outgoing\<close>. Whether a packet is lost is a comparison of
  \<open>Random() % 100\<close> with a floating-point number of the host, the field \<open>drops\<close>. The postal worker is a task that interleaves
  with the polls and interrupts of the device.
\<close>

subsection \<open>Packets and the device\<close>

definition MaxWireSize :: nat where "MaxWireSize = 64"
definition HeaderSize :: nat where "HeaderSize = 12"
definition MaxPacketSize :: nat where "MaxPacketSize = MaxWireSize - HeaderSize"
definition MaxMailSize :: nat where "MaxMailSize = MaxPacketSize - HeaderSize"

lemmas wire_sizes = MaxWireSize_def HeaderSize_def MaxPacketSize_def MaxMailSize_def

record PacketHeader =
  pkt_to :: "32 word"
  pkt_from :: "32 word"
  pkt_length :: "32 word"

record MailHeader =
  mail_to :: "32 word"
  mail_from :: "32 word"
  mail_length :: "32 word"

definition packet_bytes :: "PacketHeader \<Rightarrow> 8 word list" where
  "packet_bytes h = words_bytes [pkt_to h, pkt_from h, pkt_length h]"

definition packet_of :: "8 word list \<Rightarrow> PacketHeader" where
  "packet_of bs = (let ws = bytes_words 3 bs in \<lparr>pkt_to = ws ! 0, pkt_from = ws ! 1, pkt_length = ws ! 2\<rparr>)"

definition mail_bytes :: "MailHeader \<Rightarrow> 8 word list" where
  "mail_bytes h = words_bytes [mail_to h, mail_from h, mail_length h]"

definition mail_of :: "8 word list \<Rightarrow> MailHeader" where
  "mail_of bs = (let ws = bytes_words 3 bs in \<lparr>mail_to = ws ! 0, mail_from = ws ! 1, mail_length = ws ! 2\<rparr>)"

record NetState = IntState +
  ident :: "32 word"
  drops :: "int \<Rightarrow> bool"
  sendBusy :: bool
  inHdr :: PacketHeader
  inbox :: "8 word list"
  socket :: "8 word list list"
  outgoing :: "(32 word \<times> 8 word list) list"

definition Network_new :: "32 word \<Rightarrow> (int \<Rightarrow> bool) \<Rightarrow> 'a NetState_scheme \<Rightarrow> 'a NetState_scheme res" where
  "Network_new addr unreliable s = Schedule NetworkReadPoll 0 NetworkTime NetworkRecvInt
     (s\<lparr>ident := addr, drops := unreliable, sendBusy := False, inHdr := (inHdr s)\<lparr>pkt_length := 0\<rparr>\<rparr>)"

text \<open>\<open>poll\<close> is the answer of the host when the device asks for a packet; \<open>ReadFromSocket\<close> asserts that it gets a whole one.\<close>

definition CheckPktAvail :: "('a NetState_scheme \<Rightarrow> 'a NetState_scheme res) \<Rightarrow> bool \<Rightarrow> 'a NetState_scheme \<Rightarrow> 'a NetState_scheme res" where
  "CheckPktAvail h poll s = andThen (Schedule NetworkReadPoll 0 NetworkTime NetworkRecvInt s) (\<lambda>s.
     if pkt_length (inHdr s) \<noteq> 0 then Inr s
     else if \<not> poll then Inr s
     else (case socket s of [] \<Rightarrow> Inl Assertion
       | buffer # rest \<Rightarrow> ASSERT (length buffer = MaxWireSize) (let hdr = packet_of buffer in
           ASSERT (pkt_to hdr = ident s \<and> unat (pkt_length hdr) \<le> MaxPacketSize)
             (h (s\<lparr>inHdr := hdr, socket := rest,
                inbox := overwrite (inbox s) 0 (take (unat (pkt_length hdr)) (drop HeaderSize buffer)),
                stats := (stats s)\<lparr>numPacketsRecvd := numPacketsRecvd (stats s) + 1\<rparr>\<rparr>)))))"

definition SendDone :: "('a NetState_scheme \<Rightarrow> 'a NetState_scheme res) \<Rightarrow> 'a NetState_scheme \<Rightarrow> 'a NetState_scheme res" where
  "SendDone h s = h (s\<lparr>sendBusy := False, stats := (stats s)\<lparr>numPacketsSent := numPacketsSent (stats s) + 1\<rparr>\<rparr>)"

text \<open>\<open>junk\<close> is what the new wire buffer contains.\<close>

definition Net_Send :: "(nat \<Rightarrow> 8 word) \<Rightarrow> PacketHeader \<Rightarrow> 8 word list \<Rightarrow> 'a NetState_scheme \<Rightarrow> 'a NetState_scheme res" where
  "Net_Send junk hdr data s =
     ASSERT (\<not> sendBusy s \<and> pkt_length hdr > 0 \<and> unat (pkt_length hdr) \<le> MaxPacketSize \<and> pkt_from hdr = ident s)
      (andThen (Schedule NetworkSendDone 0 NetworkTime NetworkSendInt s) (\<lambda>s.
         let (r, s) = Random s in
         if drops s (r smod 100) then Inr s
         else if unat (pkt_length hdr) > length data then Inl OutOfBounds
         else Inr (s\<lparr>outgoing := outgoing s @ [(pkt_to hdr, overwrite (map junk [0..<MaxWireSize]) 0
                (packet_bytes hdr @ take (unat (pkt_length hdr)) data))]\<rparr>)))"

definition Net_Receive :: "8 word list \<Rightarrow> 'a NetState_scheme \<Rightarrow> PacketHeader \<times> 8 word list \<times> 'a NetState_scheme" where
  "Net_Receive data s = (let hdr = inHdr s in
     (hdr, (if pkt_length hdr \<noteq> 0 then overwrite data 0 (take (unat (pkt_length hdr)) (inbox s)) else data),
      s\<lparr>inHdr := hdr\<lparr>pkt_length := 0\<rparr>\<rparr>))"

subsection \<open>Mail boxes\<close>

record Mail =
  mail_pktHdr :: PacketHeader
  mail_mailHdr :: MailHeader
  mail_data :: "8 word list"

definition Mail_new :: "(nat \<Rightarrow> 8 word) \<Rightarrow> PacketHeader \<Rightarrow> MailHeader \<Rightarrow> 8 word list \<Rightarrow> Mail res" where
  "Mail_new junk pktH mailH msgData = ASSERT (unat (mail_length mailH) \<le> MaxMailSize)
     (if unat (mail_length mailH) > length msgData then Inl OutOfBounds
      else Inr \<lparr>mail_pktHdr = pktH, mail_mailHdr = mailH,
        mail_data = overwrite (map junk [0..<MaxMailSize]) 0 (take (unat (mail_length mailH)) msgData)\<rparr>)"

text \<open>
  A \<open>SynchList\<close> is its list: the lock and the condition are the empty ones of \<open>synch.cc\<close>, whose \<open>Wait\<close> fails its assertion,
  so \<open>Remove\<close> does not wait for an element.
\<close>

definition SynchList_Append :: "'x list \<Rightarrow> 'x \<Rightarrow> 'x list" where
  "SynchList_Append xs x = xs @ [x]"

definition SynchList_Remove :: "'x list \<Rightarrow> ('x \<times> 'x list) res" where
  "SynchList_Remove xs = (case xs of [] \<Rightarrow> Inl Assertion | x # rest \<Rightarrow> Inr (x, rest))"

definition MailBox_Put :: "(nat \<Rightarrow> 8 word) \<Rightarrow> PacketHeader \<Rightarrow> MailHeader \<Rightarrow> 8 word list \<Rightarrow> Mail list \<Rightarrow> Mail list res" where
  "MailBox_Put junk pktHdr mailHdr data box = andThen (Mail_new junk pktHdr mailHdr data) (\<lambda>mail. Inr (SynchList_Append box mail))"

definition MailBox_Get :: "Mail list \<Rightarrow> ((PacketHeader \<times> MailHeader \<times> 8 word list) \<times> Mail list) res" where
  "MailBox_Get box = andThen (SynchList_Remove box) (\<lambda>(mail, rest).
     Inr ((mail_pktHdr mail, mail_mailHdr mail, take (unat (mail_length (mail_mailHdr mail))) (mail_data mail)), rest))"

subsection \<open>The post office\<close>

text \<open>
  \<open>worker_buffer\<close> and \<open>delivering\<close> are the local buffer of the postal worker and whether it is behind \<open>messageAvailable->P()\<close>;
  \<open>to_send\<close> and \<open>sending\<close> are the letters a client still has to send and whether it is inside \<open>messageSent->P()\<close>.
\<close>

type_synonym letter = "PacketHeader \<times> MailHeader \<times> 8 word list"

record PostState = NetState +
  netAddr :: "32 word"
  numBoxes :: int
  boxes :: "Mail list list"
  messageAvailable :: nat
  messageSent :: nat
  worker_buffer :: "8 word list"
  delivering :: bool
  to_send :: "letter list"
  sending :: bool

definition PostOffice_new :: "(nat \<Rightarrow> 8 word) \<Rightarrow> 32 word \<Rightarrow> (int \<Rightarrow> bool) \<Rightarrow> int \<Rightarrow> PostState \<Rightarrow> PostState res" where
  "PostOffice_new junk addr unreliable nBoxes s = Network_new addr unreliable
     (s\<lparr>messageAvailable := 0, messageSent := 0, netAddr := addr, numBoxes := nBoxes, boxes := replicate (nat nBoxes) [],
        worker_buffer := map junk [0..<MaxPacketSize], delivering := False, sending := False\<rparr>)"

definition IncomingPacket :: "PostState \<Rightarrow> PostState res" where
  "IncomingPacket s = Inr (s\<lparr>messageAvailable := messageAvailable s + 1\<rparr>)"

definition PacketSent :: "PostState \<Rightarrow> PostState res" where
  "PacketSent s = Inr (s\<lparr>messageSent := messageSent s + 1\<rparr>)"

text \<open>One round of the loop of the postal worker.\<close>

definition PostalDelivery :: "(nat \<Rightarrow> 8 word) \<Rightarrow> PostState \<Rightarrow> PostState res" where
  "PostalDelivery junk s = (if \<not> delivering s
     then Inr (if messageAvailable s = 0 then s else s\<lparr>messageAvailable := messageAvailable s - 1, delivering := True\<rparr>)
     else let (pktHdr, buffer, s1) = Net_Receive (worker_buffer s) s; mailHdr = mail_of buffer; to = sint (mail_to mailHdr)
       in ASSERT (0 \<le> to \<and> to < numBoxes s1) (ASSERT (unat (mail_length mailHdr) \<le> MaxMailSize)
         (andThen (fetch (boxes s1) to) (\<lambda>box. andThen (MailBox_Put junk pktHdr mailHdr (drop HeaderSize buffer) box) (\<lambda>box'.
          andThen (store (boxes s1) to box') (\<lambda>bs. Inr (s1\<lparr>boxes := bs, worker_buffer := buffer, delivering := False\<rparr>)))))))"

text \<open>\<open>Send\<close> up to the call of \<open>messageSent->P()\<close>, and that call; \<open>sendLock\<close> is empty. \<open>junk\<close> fills the two new buffers.\<close>

definition PO_Send :: "(nat \<Rightarrow> 8 word) \<Rightarrow> (nat \<Rightarrow> 8 word) \<Rightarrow> PacketHeader \<Rightarrow> MailHeader \<Rightarrow> 8 word list \<Rightarrow> PostState \<Rightarrow> PostState res" where
  "PO_Send junk junk' pktHdr mailHdr data s =
     ASSERT (unat (mail_length mailHdr) \<le> MaxMailSize) (ASSERT (0 \<le> sint (mail_to mailHdr) \<and> sint (mail_to mailHdr) < numBoxes s)
      (let pkt = pktHdr\<lparr>pkt_from := netAddr s, pkt_length := mail_length mailHdr + of_nat HeaderSize\<rparr>; n = unat (mail_length mailHdr)
       in if n > length data then Inl OutOfBounds
          else andThen (Net_Send junk' pkt (overwrite (map junk [0..<MaxPacketSize]) 0 (mail_bytes mailHdr @ take n data)) s)
            (\<lambda>s. Inr (s\<lparr>sending := True\<rparr>))))"

definition PO_Send_wait :: "PostState \<Rightarrow> PostState res" where
  "PO_Send_wait s = Inr (if messageSent s = 0 then s else s\<lparr>messageSent := messageSent s - 1, sending := False\<rparr>)"

text \<open>A client that sends its letters one after the other.\<close>

definition send_all :: "(nat \<Rightarrow> 8 word) \<Rightarrow> PostState \<Rightarrow> PostState res" where
  "send_all junk s = (if sending s then PO_Send_wait s
     else case to_send s of [] \<Rightarrow> Inr s | (p, m, data) # rest \<Rightarrow> PO_Send junk junk p m data (s\<lparr>to_send := rest\<rparr>))"

definition PO_Receive :: "int \<Rightarrow> PostState \<Rightarrow> ((PacketHeader \<times> MailHeader \<times> 8 word list) \<times> PostState) res" where
  "PO_Receive box s = ASSERT (box \<ge> 0 \<and> box < numBoxes s) (andThen (fetch (boxes s) box) (\<lambda>b.
     andThen (MailBox_Get b) (\<lambda>((p, m, data), rest). ASSERT (unat (mail_length m) \<le> MaxMailSize)
       (andThen (store (boxes s) box rest) (\<lambda>bs. Inr ((p, m, data), s\<lparr>boxes := bs\<rparr>))))))"

text \<open>Thread 0 is the postal worker, thread 1 stands for the device: it polls or signals that a packet was sent; thread 2 is the client.\<close>

definition post_step :: "(nat \<Rightarrow> 8 word) \<Rightarrow> PostState task" where
  "post_step junk i c s = (if i = 0 then PostalDelivery junk s else if i = 2 then send_all junk s
     else if fst c = 0 then CheckPktAvail IncomingPacket (snd c > 0 \<and> socket s \<noteq> []) s else SendDone PacketSent s)"

subsection \<open>The test of the post office (network/nettest.cc)\<close>

text \<open>
  \<open>MailTest\<close> runs until it waits in a \<open>Send\<close> for the signal that its packet is out. \<open>outPktHdr\<close> is the packet header on its stack, of
  which \<open>Send\<close> sets the rest. The strings include their terminating zero.
\<close>

datatype mailSpot = MailHello | MailHelloWait | MailAckWait | MailHalt

definition mail_hello :: "8 word list" where
  "mail_hello = [72, 101, 108, 108, 111, 32, 116, 104, 101, 114, 101, 33, 0]"

definition mail_ack :: "8 word list" where
  "mail_ack = [71, 111, 116, 32, 105, 116, 33, 0]"

definition MailTest :: "32 word \<Rightarrow> PacketHeader \<Rightarrow> (nat \<Rightarrow> 8 word) \<Rightarrow> PostState \<times> mailSpot \<Rightarrow> (PostState \<times> mailSpot) res" where
  "MailTest farAddr outPktHdr junk = (\<lambda>(s, spot).
     let out = \<lparr>mail_to = 0, mail_from = 1, mail_length = of_nat (length mail_hello)\<rparr> in
     case spot of
       MailHello \<Rightarrow> andThen (PO_Send junk junk (outPktHdr\<lparr>pkt_to := farAddr\<rparr>) out mail_hello s) (\<lambda>s. Inr (s, MailHelloWait))
     | MailHelloWait \<Rightarrow> andThen (PO_Send_wait s) (\<lambda>s. if sending s then Inr (s, spot) else
         andThen (PO_Receive 0 s) (\<lambda>((inPktHdr, inMailHdr, buffer), s).
           andThen (PO_Send junk junk (outPktHdr\<lparr>pkt_to := pkt_from inPktHdr\<rparr>)
             (out\<lparr>mail_to := mail_from inMailHdr, mail_length := of_nat (length mail_ack)\<rparr>) mail_ack s) (\<lambda>s. Inr (s, MailAckWait))))
     | MailAckWait \<Rightarrow> andThen (PO_Send_wait s) (\<lambda>s. if sending s then Inr (s, spot) else
         andThen (PO_Receive 1 s) (\<lambda>(_, s). Inr (s, MailHalt)))
     | MailHalt \<Rightarrow> Inr (s, spot))"

text \<open>Thread 0 is the postal worker, thread 1 the device, thread 2 the test.\<close>

definition mail_step :: "32 word \<Rightarrow> PacketHeader \<Rightarrow> (nat \<Rightarrow> 8 word) \<Rightarrow> (PostState \<times> mailSpot) task" where
  "mail_step farAddr outPktHdr junk i c x = (if i = 2 then MailTest farAddr outPktHdr junk x
     else andThen (post_step junk i c (fst x)) (\<lambda>s. Inr (s, snd x)))"

subsection \<open>Letters on the wire\<close>

definition mail_letter :: "Mail \<Rightarrow> letter" where
  "mail_letter m = (mail_pktHdr m, mail_mailHdr m, take (unat (mail_length (mail_mailHdr m))) (mail_data m))"

text \<open>The letter in a packet of which the header has been taken off.\<close>

definition packet_letter :: "PacketHeader \<Rightarrow> 8 word list \<Rightarrow> letter" where
  "packet_letter h bs = (h, mail_of bs, take (unat (mail_length (mail_of bs))) (drop HeaderSize bs))"

definition wire_letter :: "8 word list \<Rightarrow> letter" where
  "wire_letter w = packet_letter (packet_of w) (drop HeaderSize w)"

definition letter_ok :: "32 word \<Rightarrow> int \<Rightarrow> letter \<Rightarrow> bool" where
  "letter_ok to n l \<longleftrightarrow> (case l of (p, m, data) \<Rightarrow> pkt_to p = to \<and> unat (mail_length m) \<le> MaxMailSize \<and>
     unat (pkt_length p) = unat (mail_length m) + HeaderSize \<and> 0 \<le> sint (mail_to m) \<and> sint (mail_to m) < n)"

definition wire_ok :: "32 word \<Rightarrow> int \<Rightarrow> 8 word list \<Rightarrow> bool" where
  "wire_ok to n w \<longleftrightarrow> length w = MaxWireSize \<and> letter_ok to n (wire_letter w)"

lemma length_headers [simp]: "length (packet_bytes h) = HeaderSize" "length (mail_bytes m) = HeaderSize"
  by (simp_all add: packet_bytes_def mail_bytes_def HeaderSize_def)

lemma words_of_bytes: "bytes_words 3 (words_bytes [a, b, c] @ rest) = [a, b, c]"
proof -
  have "length [a, b, c] = 3" by simp
  then show ?thesis using bytes_words_words [of "[a, b, c]" rest] by metis
qed

lemma header_round_trips: "packet_of (packet_bytes h @ rest) = h" "mail_of (mail_bytes m @ rest) = m"
  unfolding packet_of_def mail_of_def packet_bytes_def mail_bytes_def words_of_bytes by simp_all

text \<open>What \<open>Send\<close> puts on the wire.\<close>

lemma send_wire:
  fixes p :: PacketHeader and m :: MailHeader and me :: "32 word" and data :: "8 word list" and junk junk' :: "nat \<Rightarrow> 8 word" and n :: int
  assumes "unat (mail_length m) \<le> MaxMailSize" "unat (mail_length m) \<le> length data" "0 \<le> sint (mail_to m)" "sint (mail_to m) < n"
  defines "pkt \<equiv> p\<lparr>pkt_from := me, pkt_length := mail_length m + of_nat HeaderSize\<rparr>" and "k \<equiv> unat (mail_length m)"
  defines "buffer \<equiv> overwrite (map junk [0..<MaxPacketSize]) 0 (mail_bytes m @ take k data)"
  defines "w \<equiv> overwrite (map junk' [0..<MaxWireSize]) 0 (packet_bytes pkt @ take (unat (pkt_length pkt)) buffer)"
  shows "wire_ok (pkt_to p) n w" "wire_letter w = (pkt, m, take k data)" "0 < pkt_length pkt"
    "unat (pkt_length pkt) \<le> MaxPacketSize" "unat (pkt_length pkt) \<le> length buffer"
proof -
  have len: "unat (pkt_length pkt) = k + HeaderSize"
    using assms(1) unfolding pkt_def k_def wire_sizes by (simp add: unat_word_ariths)
  have kd: "length (take k data) = k" using assms(2) by (simp add: k_def)
  have kM: "k \<le> MaxMailSize" using assms(1) by (simp add: k_def)
  show small: "unat (pkt_length pkt) \<le> MaxPacketSize" using len kM by (simp add: wire_sizes)
  show "0 < pkt_length pkt" using len by (simp add: word_less_nat_alt HeaderSize_def)
  have b: "buffer = mail_bytes m @ take k data @ drop (HeaderSize + k) (map junk [0..<MaxPacketSize])"
    using kd by (simp add: buffer_def overwrite_def)
  show "unat (pkt_length pkt) \<le> length buffer" using len kM kd by (simp add: b wire_sizes)
  have t: "take (unat (pkt_length pkt)) buffer = mail_bytes m @ take k data"
    using kd len by (simp add: b add.commute)
  have w: "w = packet_bytes pkt @ mail_bytes m @ take k data @ drop (HeaderSize + HeaderSize + k) (map junk' [0..<MaxWireSize])"
    unfolding w_def t using kd by (simp add: overwrite_def add.assoc)
  have "length w = MaxWireSize" using kd kM by (simp add: w wire_sizes)
  moreover show l: "wire_letter w = (pkt, m, take k data)"
    using kd by (simp add: wire_letter_def packet_letter_def w header_round_trips) (simp add: k_def)
  ultimately show "wire_ok (pkt_to p) n w"
    using assms(1,3,4) len by (simp add: wire_ok_def letter_ok_def k_def pkt_def)
qed

lemma PO_Send_spec:
  assumes "unat (mail_length m) \<le> MaxMailSize" "unat (mail_length m) \<le> length data" "0 \<le> sint (mail_to m)" "sint (mail_to m) < numBoxes s"
    and "\<not> sendBusy s" "netAddr s = ident s"
  shows "\<exists>s'. PO_Send junk junk' p m data s = Inr s' \<and> \<not> sendBusy s' \<and> sending s' \<and>
    (outgoing s' = outgoing s \<or> (\<exists>w. outgoing s' = outgoing s @ [(pkt_to p, w)] \<and> wire_ok (pkt_to p) (numBoxes s) w \<and>
       wire_letter w = (p\<lparr>pkt_from := ident s, pkt_length := mail_length m + of_nat HeaderSize\<rparr>, m, take (unat (mail_length m)) data)))"
proof -
  note w = send_wire(1,2) [where p = p and me = "ident s" and junk = junk and junk' = junk', OF assms(1-4)]
    send_wire(3,4) [where p = p and me = "ident s", OF assms(1-4)] send_wire(5) [where p = p and me = "ident s" and junk = junk, OF assms(1-4)]
  show ?thesis
    using assms(1-6) w
    by (auto simp: PO_Send_def Net_Send_def Let_def Schedule_def NetworkTime_def Random_def not_less split: prod.splits)
qed

subsection \<open>Delivery\<close>

lemma mail_of_cong:
  assumes "take HeaderSize xs = take HeaderSize ys"
  shows "mail_of xs = mail_of ys"
proof -
  have part: "take 4 (drop k xs) = take 4 (drop k ys)" if "k + 4 \<le> HeaderSize" for k
  proof -
    have "take 4 (drop k zs) = drop k (take (k + 4) (take HeaderSize zs))" for zs :: "8 word list"
      using that by (simp add: take_drop add.commute min_def)
    then show ?thesis using assms by metis
  qed
  show ?thesis using part [of 0] part [of 4] part [of 8]
    by (simp add: mail_of_def numeral_3_eq_3 HeaderSize_def Let_def)
qed

lemma packet_letter_cong:
  assumes "take n xs = take n ys" "n = unat (mail_length (mail_of xs)) + HeaderSize"
  shows "packet_letter h xs = packet_letter h ys"
proof -
  have "take HeaderSize xs = take HeaderSize (take n xs)" "take HeaderSize ys = take HeaderSize (take n ys)"
    using assms(2) by (simp_all add: min_def)
  then have m: "mail_of xs = mail_of ys" using assms(1) by (intro mail_of_cong) simp
  have "take (n - HeaderSize) (drop HeaderSize xs) = take (n - HeaderSize) (drop HeaderSize ys)"
    using assms by (simp add: take_drop)
  then show ?thesis using m assms(2) by (simp add: packet_letter_def)
qed

lemma take_overwrite: "length ys \<le> length xs \<Longrightarrow> n = length ys \<Longrightarrow> take n (overwrite xs 0 ys) = ys"
  by (simp add: overwrite_def)

definition box_of :: "letter \<Rightarrow> int" where
  "box_of l = sint (mail_to (fst (snd l)))"

definition held :: "PostState \<Rightarrow> letter list" where
  "held s = (if pkt_length (inHdr s) = 0 then [] else [packet_letter (inHdr s) (inbox s)])"

text \<open>Every letter ever put on the wire for this machine is in its box, or held by the device, or still on the wire, in order.\<close>

definition delivery_ok :: "letter list \<Rightarrow> PostState \<Rightarrow> bool" where
  "delivery_ok posted s \<longleftrightarrow> 0 \<le> numBoxes s \<and> length (boxes s) = nat (numBoxes s) \<and> length (inbox s) = MaxPacketSize \<and>
     length (worker_buffer s) = MaxPacketSize \<and> (\<forall>w\<in>set (socket s). wire_ok (ident s) (numBoxes s) w) \<and>
     messageAvailable s + (if delivering s then 1 else 0) = length (held s) \<and> (\<forall>l\<in>set (held s). letter_ok (ident s) (numBoxes s) l) \<and>
     (\<exists>arrived. posted = arrived @ held s @ map wire_letter (socket s) \<and>
        (\<forall>b < length (boxes s). map mail_letter (boxes s ! b) = filter (\<lambda>l. box_of l = int b) arrived))"

lemma wire_packet:
  assumes "wire_ok to n w" "length bs = MaxPacketSize"
  defines "k \<equiv> unat (pkt_length (packet_of w))"
  shows "length w = MaxWireSize" "pkt_to (packet_of w) = to" "k \<le> MaxPacketSize" "pkt_length (packet_of w) \<noteq> 0"
    "packet_letter (packet_of w) (overwrite bs 0 (take k (drop HeaderSize w))) = wire_letter w"
    "length (overwrite bs 0 (take k (drop HeaderSize w))) = MaxPacketSize"
proof -
  let ?m = "mail_of (drop HeaderSize w)"
  have w: "length w = MaxWireSize" "letter_ok to n (packet_letter (packet_of w) (drop HeaderSize w))"
    using assms(1) by (simp_all add: wire_ok_def wire_letter_def)
  then have l: "pkt_to (packet_of w) = to" "unat (mail_length ?m) \<le> MaxMailSize" "k = unat (mail_length ?m) + HeaderSize"
    by (simp_all add: letter_ok_def packet_letter_def k_def)
  show "length w = MaxWireSize" "pkt_to (packet_of w) = to" by (rule w(1) l(1))+
  show k: "k \<le> MaxPacketSize" using l by (simp add: wire_sizes)
  show "pkt_length (packet_of w) \<noteq> 0" using l(3) by (auto simp: k_def HeaderSize_def)
  have lt: "length (take k (drop HeaderSize w)) = k" using k w(1) by (simp add: wire_sizes)
  then show "length (overwrite bs 0 (take k (drop HeaderSize w))) = MaxPacketSize" using k assms(2) by simp
  have "take k (overwrite bs 0 (take k (drop HeaderSize w))) = take k (drop HeaderSize w)"
    by (rule take_overwrite) (use lt k assms(2) in simp_all)
  then show "packet_letter (packet_of w) (overwrite bs 0 (take k (drop HeaderSize w))) = wire_letter w"
    unfolding wire_letter_def using packet_letter_cong [of k "drop HeaderSize w"] l(3) by metis
qed

lemma poll_keeps:
  assumes "delivery_ok posted s"
  shows "\<exists>s'. CheckPktAvail IncomingPacket (snd c > 0 \<and> socket s \<noteq> []) s = Inr s' \<and> delivery_ok posted s'"
proof (cases "pkt_length (inHdr s) = 0 \<and> snd c > 0 \<and> socket s \<noteq> []")
  case False
  then show ?thesis using assms
    by (auto simp: CheckPktAvail_def Schedule_def Let_def NetworkTime_def delivery_ok_def held_def)
next
  case True
  then obtain w ws where sock: "socket s = w # ws" by (cases "socket s") auto
  have ok: "wire_ok (ident s) (numBoxes s) w" "length (inbox s) = MaxPacketSize" using assms sock by (auto simp: delivery_ok_def)
  note w = wire_packet [OF ok]
  have "letter_ok (ident s) (numBoxes s) (wire_letter w)" using ok(1) by (simp add: wire_ok_def)
  then show ?thesis using assms True sock w
    by (auto simp: CheckPktAvail_def Schedule_def Let_def NetworkTime_def delivery_ok_def held_def IncomingPacket_def)
qed

lemma sent_keeps: "delivery_ok posted s \<Longrightarrow> \<exists>s'. SendDone PacketSent s = Inr s' \<and> delivery_ok posted s'"
  by (auto simp: SendDone_def PacketSent_def delivery_ok_def held_def)

lemma put_letter:
  assumes "letter_ok to n (packet_letter h bs)" "length bs = MaxPacketSize"
  shows "\<exists>mail. MailBox_Put junk h (mail_of bs) (drop HeaderSize bs) box = Inr (box @ [mail]) \<and> mail_letter mail = packet_letter h bs"
proof -
  let ?k = "unat (mail_length (mail_of bs))"
  have k: "?k \<le> MaxMailSize" using assms(1) by (simp add: letter_ok_def packet_letter_def)
  have room: "?k \<le> length (drop HeaderSize bs)" using k assms(2) by (simp add: wire_sizes)
  have "take ?k (overwrite (map junk [0..<MaxMailSize]) 0 (take ?k (drop HeaderSize bs))) = take ?k (drop HeaderSize bs)"
    by (rule take_overwrite) (use k room in simp_all)
  then show ?thesis using k room
    by (auto simp: MailBox_Put_def Mail_new_def SynchList_Append_def mail_letter_def packet_letter_def not_less)
qed

lemma worker_keeps:
  assumes "delivery_ok posted s"
  shows "\<exists>s'. PostalDelivery junk s = Inr s' \<and> delivery_ok posted s'"
proof (cases "delivering s")
  case False
  then show ?thesis using assms by (auto simp: PostalDelivery_def delivery_ok_def held_def)
next
  case True
  define h where "h = inHdr s"
  define k where "k = unat (pkt_length h)"
  define bs where "bs = overwrite (worker_buffer s) 0 (take k (inbox s))"
  have busy: "pkt_length h \<noteq> 0" "messageAvailable s = 0" using assms True by (auto simp: delivery_ok_def held_def h_def split: if_splits)
  then have held: "held s = [packet_letter h (inbox s)]" by (simp add: held_def h_def)
  have ok: "letter_ok (ident s) (numBoxes s) (packet_letter h (inbox s))" using assms held by (simp add: delivery_ok_def)
  have len: "length (inbox s) = MaxPacketSize" "length (worker_buffer s) = MaxPacketSize" using assms by (simp_all add: delivery_ok_def)
  have k: "k = unat (mail_length (mail_of (inbox s))) + HeaderSize" "unat (mail_length (mail_of (inbox s))) \<le> MaxMailSize"
    using ok by (simp_all add: letter_ok_def packet_letter_def k_def)
  have kM: "k \<le> MaxPacketSize" using k by (simp add: wire_sizes)
  have tk: "take k bs = take k (inbox s)" unfolding bs_def by (rule take_overwrite) (use kM len in simp_all)
  have lbs: "length bs = MaxPacketSize" using kM len by (simp add: bs_def)
  have same: "packet_letter h bs = packet_letter h (inbox s)" using packet_letter_cong [of k "inbox s" bs h] tk k(1) by simp
  then have okb: "letter_ok (ident s) (numBoxes s) (packet_letter h bs)" using ok by simp
  obtain mail where mail: "\<And>box. MailBox_Put junk h (mail_of bs) (drop HeaderSize bs) box = Inr (box @ [mail])" "mail_letter mail = packet_letter h bs"
    using put_letter [OF okb lbs, of junk] by (auto simp: MailBox_Put_def SynchList_Append_def andThen_eq_Inr)
  define b where "b = nat (sint (mail_to (mail_of bs)))"
  have b: "sint (mail_to (mail_of bs)) = int b" "b < length (boxes s)" "int b < numBoxes s"
    using okb assms by (auto simp: letter_ok_def packet_letter_def delivery_ok_def b_def)
  have small: "unat (mail_length (mail_of bs)) \<le> MaxMailSize" using okb by (simp add: letter_ok_def packet_letter_def)
  let ?s' = "s\<lparr>inHdr := h\<lparr>pkt_length := 0\<rparr>, boxes := (boxes s)[b := boxes s ! b @ [mail]], worker_buffer := bs, delivering := False\<rparr>"
  have "PostalDelivery junk s = Inr ?s'"
    using True busy(1) b small mail(1) by (simp add: PostalDelivery_def Net_Receive_def Let_def h_def [symmetric] k_def [symmetric] bs_def [symmetric])
  moreover obtain arrived where a: "posted = arrived @ held s @ map wire_letter (socket s)"
      "\<forall>j < length (boxes s). map mail_letter (boxes s ! j) = filter (\<lambda>l. box_of l = int j) arrived"
    using assms by (auto simp: delivery_ok_def)
  moreover have "box_of (packet_letter h (inbox s)) = int b" using b(1) same by (simp add: box_of_def packet_letter_def)
  ultimately show ?thesis using assms held lbs busy(2) mail(2) same b(2)
    by (intro exI [of _ ?s'] conjI) (auto simp: delivery_ok_def held_def nth_list_update intro!: exI [of _ "arrived @ [packet_letter h (inbox s)]"])
qed

text \<open>A client that sends does not disturb the delivery; what it puts on the wire another post office can take.\<close>

definition can_send :: "PostState \<Rightarrow> letter \<Rightarrow> bool" where
  "can_send s l \<longleftrightarrow> (case l of (p, m, data) \<Rightarrow> unat (mail_length m) \<le> MaxMailSize \<and> unat (mail_length m) \<le> length data \<and>
     0 \<le> sint (mail_to m) \<and> sint (mail_to m) < numBoxes s)"

definition sends_ok :: "PostState \<Rightarrow> bool" where
  "sends_ok s \<longleftrightarrow> \<not> sendBusy s \<and> netAddr s = ident s \<and> (\<forall>l\<in>set (to_send s). can_send s l) \<and>
     (\<forall>(a, w)\<in>set (outgoing s). wire_ok a (numBoxes s) w)"

lemma sends_frame:
  "sends_ok s \<Longrightarrow> sendBusy s' = sendBusy s \<or> \<not> sendBusy s' \<Longrightarrow> netAddr s' = netAddr s \<Longrightarrow> ident s' = ident s \<Longrightarrow>
   to_send s' = to_send s \<Longrightarrow> numBoxes s' = numBoxes s \<Longrightarrow> outgoing s' = outgoing s \<Longrightarrow> sends_ok s'"
  by (auto simp: sends_ok_def can_send_def split_beta)

lemma deliver_sends:
  assumes "PostalDelivery junk s = Inr s'" "sends_ok s"
  shows "sends_ok s'"
  using assms(1)
  by (intro sends_frame [OF assms(2)]; force simp: PostalDelivery_def Net_Receive_def Let_def res_simps split: if_splits)

lemma poll_sends:
  assumes "CheckPktAvail IncomingPacket poll s = Inr s'" "sends_ok s"
  shows "sends_ok s'"
  using assms(1)
  by (intro sends_frame [OF assms(2)];
    force simp: CheckPktAvail_def Schedule_def NetworkTime_def IncomingPacket_def Let_def res_simps split: if_splits list.splits)

lemma sent_sends: "SendDone PacketSent s = Inr s' \<Longrightarrow> sends_ok s \<Longrightarrow> sends_ok s'"
  by (auto simp: SendDone_def PacketSent_def sends_ok_def can_send_def)

lemma Net_Send_frame:
  assumes "Net_Send junk hdr data s = Inr s'"
  shows "\<exists>q k ws. s' = s\<lparr>pending := q, rngPos := k, outgoing := outgoing s @ ws\<rparr>"
proof -
  obtain s1 where s1: "Schedule NetworkSendDone 0 NetworkTime NetworkSendInt s = Inr s1"
    using assms by (auto simp: Net_Send_def res_simps)
  obtain q where q: "s1 = s\<lparr>pending := q\<rparr>" using s1 by (auto simp: Schedule_def Let_def res_simps)
  have "s' = s1\<lparr>rngPos := Suc (rngPos s1)\<rparr> \<or> (\<exists>w. s' = s1\<lparr>rngPos := Suc (rngPos s1), outgoing := outgoing s1 @ [w]\<rparr>)"
    using assms s1 by (auto simp: Net_Send_def Random_def Let_def res_simps split: if_splits)
  then show ?thesis
  proof
    assume "s' = s1\<lparr>rngPos := Suc (rngPos s1)\<rparr>"
    then have "s' = s\<lparr>pending := q, rngPos := Suc (rngPos s), outgoing := outgoing s @ []\<rparr>" by (simp add: q)
    then show ?thesis by blast
  next
    assume "\<exists>w. s' = s1\<lparr>rngPos := Suc (rngPos s1), outgoing := outgoing s1 @ [w]\<rparr>"
    then obtain w where "s' = s\<lparr>pending := q, rngPos := Suc (rngPos s), outgoing := outgoing s @ [w]\<rparr>" by (auto simp: q)
    then show ?thesis by blast
  qed
qed

lemma PO_Send_frame:
  assumes "PO_Send junk junk' p m data s = Inr s'"
  shows "delivery_ok posted s' = delivery_ok posted s" "netAddr s' = netAddr s" "ident s' = ident s" "numBoxes s' = numBoxes s"
    "to_send s' = to_send s" "boxes s' = boxes s"
proof -
  obtain hdr bs s1 where "Net_Send junk' hdr bs s = Inr s1" and s': "s' = s1\<lparr>sending := True\<rparr>"
    using assms by (auto simp: PO_Send_def Let_def res_simps split: if_splits)
  then obtain q k ws where "s' = s\<lparr>pending := q, rngPos := k, outgoing := outgoing s @ ws, sending := True\<rparr>"
    using Net_Send_frame by fastforce
  then show "delivery_ok posted s' = delivery_ok posted s" "netAddr s' = netAddr s" "ident s' = ident s" "numBoxes s' = numBoxes s"
      "to_send s' = to_send s" "boxes s' = boxes s"
    by (simp_all add: delivery_ok_def held_def)
qed

lemma send_all_keeps:
  assumes "delivery_ok posted s" "sends_ok s"
  shows "\<exists>s'. send_all junk s = Inr s' \<and> delivery_ok posted s' \<and> sends_ok s'"
proof (cases "sending s \<or> to_send s = []")
  case True
  then show ?thesis using assms
    by (cases "sending s") (auto simp: send_all_def PO_Send_wait_def delivery_ok_def held_def sends_ok_def can_send_def split_beta)
next
  case False
  then obtain p m data rest where l: "to_send s = (p, m, data) # rest" by (cases "to_send s") auto
  let ?s = "s\<lparr>to_send := rest\<rparr>"
  have ok: "sends_ok ?s" "can_send s (p, m, data)" "delivery_ok posted ?s"
    using assms l by (auto simp: sends_ok_def can_send_def delivery_ok_def held_def)
  then have pre: "unat (mail_length m) \<le> MaxMailSize" "unat (mail_length m) \<le> length data" "0 \<le> sint (mail_to m)" "sint (mail_to m) < numBoxes ?s"
      "\<not> sendBusy ?s" "netAddr ?s = ident ?s" by (simp_all add: can_send_def sends_ok_def)
  obtain s' where s': "PO_Send junk junk p m data ?s = Inr s'" "\<not> sendBusy s'"
      "outgoing s' = outgoing ?s \<or> (\<exists>w. outgoing s' = outgoing ?s @ [(pkt_to p, w)] \<and> wire_ok (pkt_to p) (numBoxes ?s) w)"
    using PO_Send_spec [OF pre, of junk junk p] by blast
  note f = PO_Send_frame [OF s'(1)]
  have "sends_ok s'" using ok(1) s'(2,3) f by (auto simp: sends_ok_def can_send_def)
  then show ?thesis using False l s'(1) f(1) ok(3) by (simp add: send_all_def)
qed

lemma post_step_keeps:
  assumes "delivery_ok posted s" "sends_ok s" "i < 3"
  shows "\<exists>s'. post_step junk i c s = Inr s' \<and> delivery_ok posted s' \<and> sends_ok s'"
proof -
  consider "i = 0" | "i = 1" "fst c = 0" | "i = 1" "fst c \<noteq> 0" | "i = 2" using assms(3) by linarith
  then show ?thesis
  proof cases
    case 1
    with worker_keeps [OF assms(1), of junk] deliver_sends [OF _ assms(2), of junk] show ?thesis by (auto simp: post_step_def)
  next
    case 2
    with poll_keeps [OF assms(1), of c] poll_sends [OF _ assms(2)] show ?thesis by (auto simp: post_step_def)
  next
    case 3
    with sent_keeps [OF assms(1)] sent_sends [OF _ assms(2)] show ?thesis by (auto simp: post_step_def)
  next
    case 4
    with send_all_keeps [OF assms(1,2), of junk] show ?thesis by (simp add: post_step_def)
  qed
qed

definition post_good :: "PostState \<Rightarrow> bool" where
  "post_good s \<longleftrightarrow> sends_ok s \<and> (\<exists>posted. delivery_ok posted s)"

interpretation post: task_invariant "post_step junk" 3 post_good for junk
proof unfold_locales
  fix s i c s'
  assume good: "post_good s" and i: "i < 3" and st: "post_step junk i c s = Inr s'"
  then obtain posted where "delivery_ok posted s" "sends_ok s" by (auto simp: post_good_def)
  from post_step_keeps [OF this i, of junk c] st show "post_good s'" by (auto simp: post_good_def)
next
  fix s c and i :: nat
  assume "post_good s" and i: "i < 3"
  then obtain posted where "delivery_ok posted s" "sends_ok s" by (auto simp: post_good_def)
  from post_step_keeps [OF this i, of junk c] show "\<exists>s'. post_step junk i c s = Inr s'" by blast
qed

lemma runs_delivery:
  "runs (post_step junk) 3 s0 s \<Longrightarrow> delivery_ok posted s0 \<Longrightarrow> sends_ok s0 \<Longrightarrow> delivery_ok posted s \<and> sends_ok s"
proof (induction rule: runs.induct)
  case (turn s i c s')
  have "delivery_ok posted s" "sends_ok s" using turn.IH [OF turn.prems] by simp_all
  from post_step_keeps [OF this turn.hyps(2), of junk c] turn.hyps(3) show ?case by auto
qed simp

lemma PostOffice_new_ok:
  assumes "PostOffice_new junk addr unreliable n s = Inr s0" "\<forall>w\<in>set (socket s). wire_ok addr n w" "0 \<le> n" "length (inbox s) = MaxPacketSize"
  shows "delivery_ok (map wire_letter (socket s)) s0 \<and> numBoxes s0 = n \<and> ident s0 = addr \<and> netAddr s0 = addr \<and> \<not> sendBusy s0 \<and>
    to_send s0 = to_send s \<and> outgoing s0 = outgoing s"
  using assms by (auto simp: PostOffice_new_def Network_new_def Schedule_def Let_def NetworkTime_def delivery_ok_def held_def)

subsection \<open>What the post office guarantees\<close>

text \<open>
  C26. Delivery. Take a new post office, any packets that other post offices send to it and a client with letters to send. In every
  interleaving of the postal worker with the polls of the device, the signals of sent packets and the client, no assertion fails, and
  every mail box holds the letters addressed to it among those that have arrived, in the order in which they were sent: none is lost,
  duplicated or damaged behind the wire. The packets that go out are such as the post office they go to can take.
\<close>

theorem post_delivers_in_order:
  assumes "PostOffice_new junk addr unreliable n s = Inr s0" "\<forall>w\<in>set (socket s). wire_ok addr n w" "0 \<le> n" "length (inbox s) = MaxPacketSize"
    and "\<forall>l\<in>set (to_send s). can_send s0 l" "outgoing s = []"
    and "runs (post_step junk') 3 s0 s1" "i < 3"
  shows "(\<exists>s2. post_step junk' i c s1 = Inr s2) \<and>
    (\<exists>arrived. map wire_letter (socket s) = arrived @ held s1 @ map wire_letter (socket s1) \<and>
       (\<forall>b < length (boxes s1). map mail_letter (boxes s1 ! b) = filter (\<lambda>l. box_of l = int b) arrived)) \<and>
    (\<forall>(a, w)\<in>set (outgoing s1). wire_ok a (numBoxes s1) w)"
proof -
  have ok: "delivery_ok (map wire_letter (socket s)) s0" "sends_ok s0"
    using PostOffice_new_ok [OF assms(1-4)] assms(5,6) by (simp_all add: sends_ok_def)
  then have "post_good s0" by (auto simp: post_good_def)
  then have step: "\<exists>s2. post_step junk' i c s1 = Inr s2" using post.runs_never_fails [OF assms(7) _ assms(8)] by blast
  show ?thesis using step runs_delivery [OF assms(7) ok] unfolding delivery_ok_def sends_ok_def by blast
qed

text \<open>
  C28. Sending. A letter of at most 40 bytes to an existing box either is dropped by the network or goes out as one packet of 64 bytes,
  from which the device and the postal worker of the addressee rebuild it: the headers, with the sender's address and the length
  filled in, and the data, whatever the buffers contained. The driver does not become busy: it takes the next packet at once.
\<close>

theorem post_send_roundtrip:
  assumes "unat (mail_length m) \<le> MaxMailSize" "unat (mail_length m) \<le> length data" "0 \<le> sint (mail_to m)" "sint (mail_to m) < numBoxes s"
    and "\<not> sendBusy s" "netAddr s = ident s"
  shows "\<exists>s'. PO_Send junk junk' p m data s = Inr s' \<and> \<not> sendBusy s' \<and> sending s' \<and>
    (outgoing s' = outgoing s \<or> (\<exists>w. outgoing s' = outgoing s @ [(pkt_to p, w)] \<and> wire_ok (pkt_to p) (numBoxes s) w \<and>
       wire_letter w = (p\<lparr>pkt_from := ident s, pkt_length := mail_length m + of_nat HeaderSize\<rparr>, m, take (unat (mail_length m)) data)))"
  by (rule PO_Send_spec [OF assms])

text \<open>
  \<open>Receive\<close> takes the oldest letter out of a mail box; but the condition variable it would wait on is empty, so on an empty
  box it does not wait for a letter: the assertion in \<open>Condition::Wait\<close> aborts the kernel.
\<close>

theorem receive_does_not_wait:
  assumes "0 \<le> b" "b < numBoxes s" "length (boxes s) = nat (numBoxes s)"
    and "\<forall>x\<in>set (boxes s ! nat b). unat (mail_length (mail_mailHdr x)) \<le> MaxMailSize"
  shows "PO_Receive b s = (case boxes s ! nat b of [] \<Rightarrow> Inl Assertion
    | x # rest \<Rightarrow> Inr (mail_letter x, s\<lparr>boxes := (boxes s)[nat b := rest]\<rparr>))"
  using assms
  by (auto simp: PO_Receive_def fetch_def store_def MailBox_Get_def SynchList_Remove_def mail_letter_def split: list.splits)

text \<open>
  No waiting for mail. \<open>MailTest\<close> depends on \<open>Receive\<close> waiting: when its own packet is out before the message of the other machine has arrived, it aborts.
\<close>

theorem mail_test_does_not_wait:
  assumes "PostOffice_new junk addr unreliable n s = Inr s0" "1 \<le> n"
  shows "schedule (mail_step far out junk') [(2, c1), (1, (1, 0)), (2, c2)] (s0, MailHello) = Inl Assertion"
proof -
  let ?m = "\<lparr>mail_to = 0, mail_from = 1, mail_length = of_nat (length mail_hello)\<rparr> :: MailHeader"
  have s0: "numBoxes s0 = n" "boxes s0 = replicate (nat n) []" "\<not> sendBusy s0" "netAddr s0 = ident s0" "messageSent s0 = 0"
    using assms(1) by (auto simp: PostOffice_new_def Network_new_def Schedule_def Let_def NetworkTime_def)
  have pre: "unat (mail_length ?m) \<le> MaxMailSize" "unat (mail_length ?m) \<le> length mail_hello"
      "0 \<le> sint (mail_to ?m)" "sint (mail_to ?m) < numBoxes s0"
    using assms(2) s0 by (simp_all add: mail_hello_def wire_sizes)
  obtain s1 where s1: "PO_Send junk' junk' (out\<lparr>pkt_to := far\<rparr>) ?m mail_hello s0 = Inr s1" "sending s1"
    using PO_Send_spec [OF pre s0(3,4), of junk' junk' "out\<lparr>pkt_to := far\<rparr>"] by blast
  have b: "boxes s1 = boxes s0" "numBoxes s1 = n" using PO_Send_frame(4,6) [OF s1(1)] s0(1) by simp_all
  have box: "fetch (replicate (nat n) ([] :: Mail list)) 0 = Inr []" using assms(2) by (simp add: fetch_def)
  show ?thesis using s1 b s0(2) assms(2) box
    by (simp add: mail_step_def MailTest_def post_step_def SendDone_def PacketSent_def PO_Send_wait_def PO_Receive_def MailBox_Get_def SynchList_Remove_def)
qed

definition demo_post :: "8 word list list \<Rightarrow> PostState" where
  "demo_post ws = NetState.extend (IntState.extend \<lparr>stats = Statistics_new, level = IntOn, pending = [], inHandler = False,
     yieldOnReturn = False, status = SystemMode, rng = (\<lambda>_. 0), rngPos = 0\<rparr>
     (NetState.fields 1 (\<lambda>_. False) False \<lparr>pkt_to = 0, pkt_from = 0, pkt_length = 0\<rparr> (replicate 52 0) ws []))
     (PostState.fields 1 2 [[], []] 0 0 (replicate 52 0) False [] False)"

definition demo_mail :: MailHeader where
  "demo_mail = \<lparr>mail_to = 1, mail_from = 0, mail_length = 2\<rparr>"

lemma demo_post_fields [simp]:
  "socket (demo_post ws) = ws" "inbox (demo_post ws) = replicate 52 0" "numBoxes (demo_post ws) = 2" "boxes (demo_post ws) = [[], []]"
  "sendBusy (demo_post ws) = False" "netAddr (demo_post ws) = 1" "ident (demo_post ws) = 1"
  "to_send (demo_post ws) = []" "outgoing (demo_post ws) = []"
  by (simp_all add: demo_post_def IntState.defs NetState.defs PostState.defs)

theorem mail_test_does_not_wait_witness:
  "\<exists>s0. PostOffice_new (\<lambda>_. 0) 1 (\<lambda>_. False) 2 (demo_post []) = Inr s0 \<and>
     schedule (mail_step 3 \<lparr>pkt_to = 0, pkt_from = 0, pkt_length = 0\<rparr> (\<lambda>_. 0)) [(2, (0, 0)), (1, (1, 0)), (2, (0, 0))] (s0, MailHello) = Inl Assertion"
proof -
  obtain s0 where s0: "PostOffice_new (\<lambda>_. 0) 1 (\<lambda>_. False) 2 (demo_post []) = Inr s0"
    by (simp add: PostOffice_new_def Network_new_def Schedule_def Let_def NetworkTime_def)
  from mail_test_does_not_wait [OF s0] s0 show ?thesis by simp
qed

theorem post_send_roundtrip_witness:
  "\<exists>s'. PO_Send (\<lambda>_. 0) (\<lambda>_. 0) \<lparr>pkt_to = 1, pkt_from = 0, pkt_length = 0\<rparr> demo_mail [72, 105] (demo_post []) = Inr s' \<and> \<not> sendBusy s'"
proof -
  let ?p = "\<lparr>pkt_to = 1, pkt_from = 0, pkt_length = 0\<rparr>"
  have "unat (mail_length demo_mail) \<le> MaxMailSize" "unat (mail_length demo_mail) \<le> length [72, 105 :: 8 word]"
    "0 \<le> sint (mail_to demo_mail)" "sint (mail_to demo_mail) < numBoxes (demo_post [])"
    "\<not> sendBusy (demo_post [])" "netAddr (demo_post []) = ident (demo_post [])"
    by (simp_all add: demo_mail_def wire_sizes)
  from post_send_roundtrip [OF this, of "\<lambda>_. 0" "\<lambda>_. 0" ?p] show ?thesis by blast
qed

theorem receive_does_not_wait_witness: "PO_Receive 1 (demo_post []) = Inl Assertion"
  using receive_does_not_wait [of 1 "demo_post []"] by simp

definition demo_wire :: "8 word list" where
  "demo_wire = overwrite (map (\<lambda>_. 0) [0..<MaxWireSize]) 0 (packet_bytes \<lparr>pkt_to = 1, pkt_from = 3, pkt_length = 2 + of_nat HeaderSize\<rparr> @
     take (unat (2 + of_nat HeaderSize :: 32 word)) (overwrite (map (\<lambda>_. 0) [0..<MaxPacketSize]) 0 (mail_bytes demo_mail @ take 2 [72, 105])))"

lemma demo_wire_ok: "wire_ok 1 2 demo_wire"
  using send_wire(1) [of demo_mail "[72, 105]" 2 "\<lparr>pkt_to = 1, pkt_from = 0, pkt_length = 0\<rparr>" "\<lambda>_. 0" 3 "\<lambda>_. 0"]
  by (simp add: demo_wire_def demo_mail_def wire_sizes)

theorem post_delivers_in_order_witness:
  "\<exists>s0 s1. PostOffice_new (\<lambda>_. 0) 1 (\<lambda>_. False) 2 (demo_post [demo_wire]) = Inr s0 \<and> post_step (\<lambda>_. 0) 1 (0, 1) s0 = Inr s1"
proof -
  obtain s0 where s0: "PostOffice_new (\<lambda>_. 0) 1 (\<lambda>_. False) 2 (demo_post [demo_wire]) = Inr s0"
    by (simp add: PostOffice_new_def Network_new_def Schedule_def Let_def NetworkTime_def)
  then show ?thesis
    using post_delivers_in_order [OF s0 _ _ _ _ _ runs.start, of 1 "\<lambda>_. 0" "(0, 1)"] demo_wire_ok by (auto simp: wire_sizes)
qed

end
