(* ===== verification/Nachos_Start.thy ===== *)
theory Nachos_Start
  imports Nachos_ExecCall Nachos_Input
begin

section \<open>Starting Nachos (threads/main.cc, threads/system.cc, threads/utility.cc, userprog/progtest.cc)\<close>

text \<open>
  The command line: \<open>Initialize\<close> reads it for the options of the kernel, \<open>main\<close> reads it again for what to do. Which options there
  are depends on the parts of Nachos that are compiled in, a \<open>Build\<close>. Then the start of the first user program: \<open>StartProcess\<close> up to the
  jump into the program. The array \<open>argv\<close> ends with a null pointer; reading behind it is \<open>OutOfBounds\<close>.
\<close>

subsection \<open>The options of the kernel\<close>

record Build =
  b_THREADS :: bool
  b_USER_PROGRAM :: bool
  b_FILESYS_NEEDED :: bool
  b_FILESYS :: bool
  b_NETWORK :: bool

text \<open>The \<open>Makefile\<close> of userprog.\<close>

definition user_build :: Build where
  "user_build = \<lparr>b_THREADS = False, b_USER_PROGRAM = True, b_FILESYS_NEEDED = True, b_FILESYS = False, b_NETWORK = False\<rparr>"

text \<open>\<open>selectArgs\<close> is a pointer, \<open>None\<close> when it is null; \<open>rely\<close> is the text that \<open>atof\<close> of the host reads.\<close>

record Options =
  debugArgs :: string
  selectArgs :: "string option"
  randomYield :: bool
  seed :: int
  debugUserProg :: bool
  format_disk :: bool
  rely :: string
  netname :: int

definition default_options :: Options where
  "default_options = \<lparr>debugArgs = [], selectArgs = Some [], randomYield = False, seed = 0, debugUserProg = False, format_disk = False,
     rely = ''1'', netname = 0\<rparr>"

text \<open>One turn of the loop: the options, and whether \<open>argCount\<close> is 2.\<close>

definition parse_kernel :: "string \<Rightarrow> string list \<Rightarrow> Options \<Rightarrow> (bool \<times> Options) res" where
  "parse_kernel a after opts =
     (if a = ''-d'' then Inr (case after of [] \<Rightarrow> (False, opts\<lparr>debugArgs := ''+''\<rparr>) | v # _ \<Rightarrow> (True, opts\<lparr>debugArgs := v\<rparr>))
      else if a = ''-A'' then Inr (False, opts\<lparr>selectArgs := (case after of [] \<Rightarrow> None | v # _ \<Rightarrow> Some v)\<rparr>)
      else if a = ''-rs'' then (case after of [] \<Rightarrow> Inl Assertion | v # _ \<Rightarrow> Inr (True, opts\<lparr>seed := atoi v, randomYield := True\<rparr>))
      else Inr (False, opts))"

definition parse_devices :: "Build \<Rightarrow> string \<Rightarrow> string list \<Rightarrow> bool \<times> Options \<Rightarrow> (bool \<times> Options) res" where
  "parse_devices b a after = (\<lambda>(two, opts).
     let opts1 = (if b_USER_PROGRAM b \<and> a = ''-s'' then opts\<lparr>debugUserProg := True\<rparr> else opts);
         opts2 = (if b_FILESYS_NEEDED b \<and> a = ''-f'' then opts1\<lparr>format_disk := True\<rparr> else opts1)
     in if b_NETWORK b \<and> a = ''-l'' then (case after of [] \<Rightarrow> Inl Assertion | v # _ \<Rightarrow> Inr (True, opts2\<lparr>rely := v\<rparr>))
        else if b_NETWORK b \<and> a = ''-m'' then (case after of [] \<Rightarrow> Inl Assertion | v # _ \<Rightarrow> Inr (True, opts2\<lparr>netname := atoi v\<rparr>))
        else Inr (two, opts2))"

fun parse_options :: "Build \<Rightarrow> string list \<Rightarrow> Options \<Rightarrow> Options res" where
  "parse_options b [] opts = Inr opts"
| "parse_options b (a # after) opts = andThen (andThen (parse_kernel a after opts) (parse_devices b a after)) (\<lambda>(two, opts1).
     parse_options b (if two then tl after else after) opts1)"

text \<open>\<open>DebugInit\<close> stores the flags; a flag is on when it or a plus is among them.\<close>

definition DebugIsEnabled :: "string option \<Rightarrow> char \<Rightarrow> bool" where
  "DebugIsEnabled enableFlags f = (case enableFlags of None \<Rightarrow> False | Some fs \<Rightarrow> f \<in> set fs \<or> CHR ''+'' \<in> set fs)"

subsection \<open>Setting up the kernel for user programs\<close>

text \<open>Interrupts are enabled before there is a machine, so nothing is done there for user registers.\<close>

fun Yield_boot :: "nat \<Rightarrow> bool \<Rightarrow> 'a process_action \<Rightarrow> 'a process_action" where
  "Yield_boot 0 r others s = Inl Diverges"
| "Yield_boot (Suc n) r others s =
     andThen (SetLevel (timer_only r) Inr (Yield_boot n r others) IntOff s) (\<lambda>(oldLevel, s1).
     andThen (Yield_body Inr (currentThread s1) s1) (\<lambda>(switched, s2).
     andThen (if switched then andThen (others s2) (Run_in Inr) else Inr s2) (\<lambda>s3.
     andThen (SetLevel (timer_only r) Inr (Yield_boot n r others) oldLevel s3) (\<lambda>(_, s4). Inr s4))))"

definition Initialize :: "nat \<Rightarrow> 'a process_action \<Rightarrow> int \<times> 32 word list \<Rightarrow> string list \<Rightarrow> 'a ProcessState_scheme \<Rightarrow>
    (Options \<times> 'a ProcessState_scheme) res" where
  "Initialize n others junk args s = andThen (parse_options user_build args default_options) (\<lambda>opts.
     andThen (Initialize_kernel (randomYield opts) junk s) (\<lambda>s1.
     andThen (Enable (timer_only (randomYield opts)) Inr (Yield_boot n (randomYield opts) others) s1) (\<lambda>s2.
     andThen (Machine_new False [] s2) (\<lambda>s3. Inr (opts, s3)))))"

subsection \<open>The first process (progtest.cc)\<close>

definition MemAlloAlgSelect :: "string option \<Rightarrow> int" where
  "MemAlloAlgSelect MemAlgSelArgs = (case MemAlgSelArgs of None \<Rightarrow> 0
     | Some a \<Rightarrow> if CheckType a = 1 then let MemAlg = atoi a in
         if MemAlg = 1 then 0 else if MemAlg = 2 then 1 else if MemAlg = 3 then 2 else 0
       else 0)"

definition c_chars :: "string \<Rightarrow> 8 word list" where
  "c_chars = map of_char"

text \<open>
  \<open>StartProcess\<close> up to the call of \<open>machine->Run\<close>; \<open>False\<close> when it returns without starting anything. \<open>bits0\<close> is what the words of the
  new map of frames contain.
\<close>

definition first_process :: "nat \<Rightarrow> bool \<Rightarrow> 'a process_action \<Rightarrow> Junk \<Rightarrow> int \<Rightarrow> AddrSpace \<Rightarrow> 'a process_action" where
  "first_process n r others junk pid a s = (let
       s1 = ProcessList_new (s\<lparr>NumProcess := 0\<rparr>); el = nextElement s1; (sem, s2) = Semaphore_new ''ProcessSemaphore'' 0 s1;
       (_, s3) = new_element ((j_element junk)\<lparr>ParentPID := 0, PID := pid, CurrentThread := currentThread s2,
         ProcessSemaphore := sem, Next := Some el, Previous := Some el, Valid := True\<rparr>) s2
     in andThen (PCB_Append el s3) (\<lambda>s4.
        let (m, s5) = Semaphore_new ''MutexNumProc'' 1 s4
        in andThen (P_call n r others m (s5\<lparr>MutexNumProc := m\<rparr>)) (\<lambda>s6.
           andThen (V_call n r others (MutexNumProc s6) (s6\<lparr>NumProcess := NumProcess s6 + 1\<rparr>)) (\<lambda>s7.
           andThen (InitRegisters a s7) (RestoreState a)))))"

definition StartProcess :: "nat \<Rightarrow> bool \<Rightarrow> 'a process_action \<Rightarrow> Junk \<Rightarrow> (nat \<Rightarrow> 32 word) \<Rightarrow> string option \<Rightarrow> string \<Rightarrow>
    'a ProcessState_scheme \<Rightarrow> (bool \<times> 'a ProcessState_scheme) res" where
  "StartProcess n r others junk bits0 MemAlgSelArgs filename s = (let s0 = s\<lparr>MemAll := MemAlloAlgSelect MemAlgSelArgs\<rparr> in
     case hostFiles s0 (c_chars filename) of
       None \<Rightarrow> Inr (False, s0)
     | Some f \<Rightarrow> andThen (CreatId (currentThread s0) s0) (\<lambda>s1.
         andThen (GetId (currentThread s1) s1) (\<lambda>pid.
         andThen (BitMap_new bits0 (int NumPhysPages)) (\<lambda>frames.
         andThen (AddrSpace_new (j_header junk) (j_space junk) f (s1\<lparr>MainMemMap := frames\<rparr>)) (\<lambda>(x, s2).
         andThen (update_thread (currentThread s2) (\<lambda>th. th\<lparr>t_space := Some x\<rparr>) s2) (\<lambda>s3.
         andThen (space_at x s3) (\<lambda>a.
           if SpaceFound a then andThen (first_process n r others junk pid a s3) (\<lambda>s4. Inr (True, s4))
           else andThen (Finish_call n r others s3) (\<lambda>s4. Inr (False, s4)))))))))"

subsection \<open>The commands (main.cc)\<close>

datatype Command = PrintCopyright | RunProgram string | TestConsole "(string \<times> string) option" | CopyFile string string
  | PrintFile string | RemoveFile string | ListFiles | PrintFiles | RunPerformanceTest | RunMailTest int

definition arg :: "nat \<Rightarrow> string list \<Rightarrow> string option res" where
  "arg k argv = (if k < length argv then Inr (Some (argv ! k)) else if k = length argv then Inr None else Inl OutOfBounds)"

text \<open>
  The choice of the memory allocation algorithm: two arguments after the current one, whatever the current one is.
\<close>

definition read_MemAlgSelArgs :: "string list \<Rightarrow> string option \<Rightarrow> string option res" where
  "read_MemAlgSelArgs argv MemAlgSelArgs = andThen (arg 2 argv) (\<lambda>p. case p of
       None \<Rightarrow> Inr None
     | Some a \<Rightarrow> if a = ''-M'' then arg 3 argv else Inr MemAlgSelArgs)"

text \<open>The command that the arguments begin with, and how many arguments after the first it takes.\<close>

definition user_command :: "string \<Rightarrow> string list \<Rightarrow> (Command option \<times> nat) res" where
  "user_command a after =
     (if a = ''-x'' then (case after of [] \<Rightarrow> Inl Assertion | f # _ \<Rightarrow> Inr (Some (RunProgram f), 1))
      else if a = ''-c'' then (case after of [] \<Rightarrow> Inr (Some (TestConsole None), 0)
        | i # out # _ \<Rightarrow> Inr (Some (TestConsole (Some (i, out))), 2) | _ \<Rightarrow> Inl Assertion)
      else Inr (None, 0))"

definition filesys_command :: "string \<Rightarrow> string list \<Rightarrow> (Command option \<times> nat) res" where
  "filesys_command a after =
     (if a = ''-cp'' then (case after of f # t # _ \<Rightarrow> Inr (Some (CopyFile f t), 2) | _ \<Rightarrow> Inl Assertion)
      else if a = ''-p'' then (case after of f # _ \<Rightarrow> Inr (Some (PrintFile f), 1) | _ \<Rightarrow> Inl Assertion)
      else if a = ''-r'' then (case after of f # _ \<Rightarrow> Inr (Some (RemoveFile f), 1) | _ \<Rightarrow> Inl Assertion)
      else if a = ''-l'' then Inr (Some ListFiles, 0) else if a = ''-D'' then Inr (Some PrintFiles, 0)
      else if a = ''-t'' then Inr (Some RunPerformanceTest, 0) else Inr (None, 0))"

definition network_command :: "string \<Rightarrow> string list \<Rightarrow> (Command option \<times> nat) res" where
  "network_command a after = (if a = ''-o'' then (case after of m # _ \<Rightarrow> Inr (Some (RunMailTest (atoi m)), 1) | _ \<Rightarrow> Inl Assertion)
     else Inr (None, 0))"

text \<open>The tests are for different strings, so at most one of them gives a command.\<close>

definition command_of :: "Build \<Rightarrow> string \<Rightarrow> string list \<Rightarrow> (Command option \<times> nat) res" where
  "command_of b a after = (if a = ''-z'' then Inr (Some PrintCopyright, 0)
     else andThen (if b_USER_PROGRAM b then user_command a after else Inr (None, 0)) (\<lambda>(u, i).
       andThen (if b_FILESYS b then filesys_command a after else Inr (None, 0)) (\<lambda>(f, j).
       andThen (if b_NETWORK b then network_command a after else Inr (None, 0)) (\<lambda>(c, k).
         Inr (if u \<noteq> None then (u, i) else if f \<noteq> None then (f, j) else (c, k))))))"

fun main_loop :: "(Command \<Rightarrow> string option \<Rightarrow> 's \<Rightarrow> 's res) \<Rightarrow> Build \<Rightarrow> string list \<Rightarrow> string option \<Rightarrow> 's \<Rightarrow> 's res" where
  "main_loop exec b [] mem s = Inr s"
| "main_loop exec b (a # after) mem s =
     andThen (if b_USER_PROGRAM b then read_MemAlgSelArgs (a # after) mem else Inr mem) (\<lambda>mem1.
     andThen (command_of b a after) (\<lambda>(c, k).
     andThen (case c of None \<Rightarrow> Inr s | Some c \<Rightarrow> exec c mem1 s) (\<lambda>s1.
       main_loop exec b (drop k after) mem1 s1)))"

text \<open>
  \<open>main\<close> in the build for user programs. \<open>run\<close> is \<open>machine->Run\<close> from the state in which it is called, which never returns; \<open>console\<close>
  the test of the console, after which the machine halts.
\<close>

definition main_exec :: "nat \<Rightarrow> bool \<Rightarrow> 'a process_action \<Rightarrow> Junk \<Rightarrow> (nat \<Rightarrow> 32 word) \<Rightarrow> 'a process_action \<Rightarrow> 'a process_action \<Rightarrow>
    Command \<Rightarrow> string option \<Rightarrow> 'a process_action" where
  "main_exec n r others junk bits0 run console c mem s = (case c of
       RunProgram f \<Rightarrow> andThen (StartProcess n r others junk bits0 mem f s) (\<lambda>(started, s1).
         if started then andThen (run s1) (\<lambda>s2. ASSERT False (Inr s2)) else Inr s1)
     | TestConsole _ \<Rightarrow> andThen (console s) Halt
     | _ \<Rightarrow> Inr s)"

definition main :: "nat \<Rightarrow> 'a process_action \<Rightarrow> Junk \<Rightarrow> (nat \<Rightarrow> 32 word) \<Rightarrow> 'a process_action \<Rightarrow> 'a process_action \<Rightarrow> string list \<Rightarrow>
    'a process_action" where
  "main n others junk bits0 run console args s = andThen (Initialize n others (j_thread junk) args s) (\<lambda>(opts, s1).
     andThen (main_loop (main_exec n (randomYield opts) others junk bits0 run console) user_build args (Some []) s1)
       (Finish_call n (randomYield opts) others))"

subsection \<open>The registers and the memory of the first process\<close>

lemma clear_registers:
  "n \<le> length (registers s) \<Longrightarrow> length (registers s) = NumTotalRegs \<Longrightarrow>
   foldRes (\<lambda>s i. WriteRegister (int i) 0 s) s [0..<n] = Inr (s\<lparr>registers := replicate n 0 @ drop n (registers s)\<rparr>)"
proof (induction n)
  case (Suc n)
  have l: "n < length (registers s)" "n < NumTotalRegs" using Suc.prems by simp_all
  have d: "drop n (registers s) = registers s ! n # drop (Suc n) (registers s)" using l(1) by (simp add: Cons_nth_drop_Suc)
  have w: "WriteRegister (int n) 0 (s\<lparr>registers := replicate n 0 @ drop n (registers s)\<rparr>) =
      Inr (s\<lparr>registers := replicate (Suc n) 0 @ drop (Suc n) (registers s)\<rparr>)"
    using l Suc.prems unfolding d by (simp add: WriteRegister_def list_update_append replicate_append_same store_def)
  have i: "foldRes (\<lambda>s i. WriteRegister (int i) 0 s) s [0..<n] = Inr (s\<lparr>registers := replicate n 0 @ drop n (registers s)\<rparr>)"
    using Suc.IH Suc.prems by simp
  show ?case using i w by (simp add: foldRes_append)
qed simp

lemma InitRegisters_spec:
  assumes "length (registers s) = NumTotalRegs"
  shows "\<exists>rs. InitRegisters a s = Inr (s\<lparr>registers := rs\<rparr>) \<and> length rs = NumTotalRegs \<and> rs ! PCReg = 0 \<and> rs ! NextPCReg = 4 \<and>
    rs ! LoadReg = 0 \<and> rs ! StackReg = of_nat (numPages a) * of_nat PageSize - 16"
proof -
  have "foldRes (\<lambda>s i. WriteRegister (int i) 0 s) s [0..<NumTotalRegs] = Inr (s\<lparr>registers := replicate NumTotalRegs 0\<rparr>)"
    using clear_registers [of NumTotalRegs s] assms by simp
  then have "InitRegisters a s = Inr (s\<lparr>registers := ((replicate NumTotalRegs 0)[PCReg := 0, NextPCReg := 4])
      [StackReg := of_nat (numPages a) * of_nat PageSize - 16]\<rparr>)"
    unfolding InitRegisters_def by simp (simp add: WriteRegister_def store_def reg_defs)
  then show ?thesis by (intro exI conjI, assumption) (simp_all add: reg_defs nth_list_update)
qed

lemma AddrSpace_new_found:
  assumes "frames_map (MainMemMap s)" and "loadable f" and "MemAll s \<in> {0, 1, 2}" and "\<forall>i<NumPhysPages. free_in (MainMemMap s) i"
    and "pages_needed (program_header f) \<le> NumPhysPages" and "AddrSpace_new garbage junk f s = Inr (x, s')"
  shows "\<exists>a. spaces s' x = Some a \<and> SpaceFound a"
proof -
  let ?h = "program_header f"
  have hdr: "header_of (overwrite garbage 0 (take NoffHeaderSize f)) = ?h"
    using assms(2) header_of_append [of "take NoffHeaderSize f"]
    by (simp add: loadable_def Let_def overwrite_def program_header_def)
  have ok: "noffMagic ?h = NOFFMAGIC" "0 < pages_needed ?h" using assms(2) by (simp_all add: loadable_def Let_def)
  have run: "free_run (free_in (MainMemMap s)) 0 (pages_needed ?h)" using assms(4,5) by (simp add: free_run_def)
  have last: "free_in (MainMemMap s) (NumPhysPages - 1)" using assms(4) by (simp add: size_defs)
  obtain here where "MemoryAllocation (MemAll s) (MainMemMap s) (pages_needed ?h) junk = Inr (True, here)"
    using FirstFit_spec [OF assms(1) ok(2), of "snd junk"] BestFit_spec [OF assms(1) ok(2), of "snd junk"] WorstFit_spec [OF assms(1) ok(2), of "snd junk"]
      run last assms(3) by (auto simp: MemoryAllocation_def)
  then show ?thesis using assms(6) hdr ok(1)
    by (auto simp: AddrSpace_new_def ReadAt_def Let_def res_simps new_space_def split: if_splits)
qed

lemma AddrSpace_new_rest:
  fixes s :: "'a KernelState_scheme"
  assumes "frames_map (MainMemMap s)" "memory_ok s" "loadable f" "MemAll s \<in> {0, 1, 2}" "AddrSpace_new garbage junk f s = Inr (x, s')"
  shows "rest s' = rest s" "tlb s' = tlb s" "MemAll s' = MemAll s"
proof -
  note spec = AddrSpace_new_spec [OF assms(1-3), of junk garbage]
  have "(\<exists>a. s' = snd (new_space a s)) \<or> (\<exists>n here frames s2. s' = snd (new_space (fresh_space n here s) s2) \<and>
      loaded (fresh_space n here s) (mapped_frames n here frames s) s2 (mainMemory s2))"
    using spec assms(4,5) unfolding Let_def by (metis Inr_inject snd_conv)
  then have "rest s' = rest s \<and> tlb s' = tlb s \<and> MemAll s' = MemAll s"
  proof
    assume "\<exists>a. s' = snd (new_space a s)"
    then show ?thesis by (auto simp: new_space_def rest_def ThreadState.truncate_def)
  next
    assume "\<exists>n here frames s2. s' = snd (new_space (fresh_space n here s) s2) \<and>
      loaded (fresh_space n here s) (mapped_frames n here frames s) s2 (mainMemory s2)"
    then obtain n here frames s2 where e: "s' = snd (new_space (fresh_space n here s) s2)"
      "loaded (fresh_space n here s) (mapped_frames n here frames s) s2 (mainMemory s2)" by blast
    from e(2) obtain m es where "s2 = (mapped_frames n here frames s)\<lparr>mainMemory := m, tables := es\<rparr>"
      unfolding loaded_def by blast
    then have "rest s2 = rest s" "tlb s2 = tlb s" "MemAll s2 = MemAll s"
      by (simp_all add: rest_def mapped_frames_def ThreadState.truncate_def)
    then show ?thesis by (simp add: e(1) new_space_def rest_def ThreadState.truncate_def)
  qed
  then show "rest s' = rest s" "tlb s' = tlb s" "MemAll s' = MemAll s" by simp_all
qed

text \<open>Making the process list and its semaphore, and preparing the registers.\<close>

lemma first_process_spec:
  fixes s :: "'a ProcessState_scheme"
  assumes q: "quiet s" and len: "length (registers s) = NumTotalRegs"
  shows "\<exists>s' e. first_process (Suc n) r others junk pid a s = Inr s' \<and> chain s' [nextElement s] \<and> elements s' (nextElement s) = Some e \<and>
    PID e = pid \<and> ParentPID e = 0 \<and> CurrentThread e = currentThread s \<and> Valid e \<and> NumProcess s' = 1 \<and> quiet s' \<and>
    semaphores s' (MutexNumProc s') = Some \<lparr>sem_name = ''MutexNumProc'', sem_value = 1, sem_queue = []\<rparr> \<and> MutexNumProc s' < nextSemaphore s' \<and>
    mem_view s' = mem_view s \<and> MemAll s' = MemAll s \<and> tlb s' = tlb s \<and> pageTable s' = as_pageTable a \<and>
    pageTableSize s' = of_nat (numPages a) \<and> length (registers s') = NumTotalRegs \<and> reg s' LoadReg = 0 \<and> reg s' PCReg = 0 \<and>
    reg s' NextPCReg = 4 \<and> reg s' StackReg = of_nat (numPages a) * of_nat PageSize - 16 \<and> threads s' = threads s \<and>
    currentThread s' = currentThread s"
proof -
  let ?el = "nextElement s" and ?sem = "nextSemaphore s"
  let ?e = "(j_element junk)\<lparr>ParentPID := 0, PID := pid, CurrentThread := currentThread s, ProcessSemaphore := ?sem,
    Next := Some ?el, Previous := Some ?el, Valid := True\<rparr>"
  let ?y = "\<lparr>sem_name = ''MutexNumProc'', sem_value = 1, sem_queue = []\<rparr> :: Semaphore"
  let ?s5 = "s\<lparr>NumProcess := 0, Head := None, Tail := None,
    semaphores := (semaphores s)(?sem \<mapsto> \<lparr>sem_name = ''ProcessSemaphore'', sem_value = 0, sem_queue = []\<rparr>), nextSemaphore := Suc ?sem,
    elements := (elements s)(?el \<mapsto> ?e), nextElement := Suc ?el, Head := Some ?el, Tail := Some ?el,
    semaphores := (semaphores s)(?sem \<mapsto> \<lparr>sem_name = ''ProcessSemaphore'', sem_value = 0, sem_queue = []\<rparr>, Suc ?sem \<mapsto> ?y),
    nextSemaphore := Suc (Suc ?sem), MutexNumProc := Suc ?sem\<rparr>"
  have q5: "quiet ?s5" "semaphores ?s5 (Suc ?sem) = Some ?y" using q by (simp_all add: quiet_def)
  have pos: "0 < sem_value ?y" by simp
  obtain st1 where p: "P_call (Suc n) r others (Suc ?sem) ?s5 = Inr (?s5\<lparr>semaphores := (semaphores ?s5)(Suc ?sem \<mapsto> ?y\<lparr>sem_value := sem_value ?y - 1\<rparr>),
      stats := st1, level := level ?s5\<rparr>)"
    using P_call_quiet [OF q5 pos] by blast
  let ?s6 = "?s5\<lparr>semaphores := (semaphores ?s5)(Suc ?sem \<mapsto> ?y\<lparr>sem_value := sem_value ?y - 1\<rparr>), stats := st1, level := level ?s5, NumProcess := 1\<rparr>"
  have q6: "quiet ?s6" "semaphores ?s6 (Suc ?sem) = Some (?y\<lparr>sem_value := sem_value ?y - 1\<rparr>)" "sem_queue (?y\<lparr>sem_value := sem_value ?y - 1\<rparr>) = []"
    using q by (simp_all add: quiet_def)
  obtain st2 where v6: "V_call (Suc n) r others (Suc ?sem) ?s6 = Inr (?s6\<lparr>semaphores := (semaphores ?s6)(Suc ?sem \<mapsto>
      (?y\<lparr>sem_value := sem_value ?y - 1\<rparr>)\<lparr>sem_value := sem_value (?y\<lparr>sem_value := sem_value ?y - 1\<rparr>) + 1\<rparr>), stats := st2, level := level ?s6\<rparr>)"
    using V_call_quiet [OF q6] by blast
  have v: "V_call (Suc n) r others (Suc ?sem) ?s6 = Inr (?s5\<lparr>NumProcess := 1, stats := st2, level := level s\<rparr>)"
    unfolding v6 by simp
  let ?s7 = "?s5\<lparr>NumProcess := 1, stats := st2, level := level s\<rparr>"
  obtain rs where rs: "InitRegisters a ?s7 = Inr (?s7\<lparr>registers := rs\<rparr>)" "length rs = NumTotalRegs" "rs ! PCReg = 0" "rs ! NextPCReg = 4"
      "rs ! LoadReg = 0" "rs ! StackReg = of_nat (numPages a) * of_nat PageSize - 16"
    using InitRegisters_spec [of ?s7 a] len by auto
  let ?s' = "?s7\<lparr>registers := rs, pageTable := as_pageTable a, pageTableSize := of_nat (numPages a)\<rparr>"
  have "first_process (Suc n) r others junk pid a s = Inr ?s'"
    using p v rs(1)
    by (simp add: first_process_def ProcessList_new_def Semaphore_new_def new_element_def PCB_Append_def PCB_IsEmpty_def RestoreState_def Let_def)
  moreover have "chain ?s' [?el]" by (simp add: chain_def)
  moreover have "mem_view ?s' = mem_view s" by (simp add: mem_view_def)
  moreover have "quiet ?s'" using q by (simp add: quiet_def)
  ultimately show ?thesis using rs(2-6) by (intro exI [of _ ?s'] exI [of _ ?e]) (simp add: reg_def)
qed

lemma MemAlloAlgSelect_range: "MemAlloAlgSelect v \<in> {0, 1, 2}"
  by (simp add: MemAlloAlgSelect_def Let_def split: option.split)

text \<open>
  \<open>booted\<close>: a kernel that is set up, with a machine, and no address space yet. \<open>first_ready\<close>: the first process is ready to run the program.
\<close>

definition booted :: "'a ProcessState_scheme \<Rightarrow> bool" where
  "booted s \<longleftrightarrow> quiet s \<and> length (registers s) = NumTotalRegs \<and> memory_ok s \<and> tlb s = None \<and> spaces s = Map.empty \<and>
     threads s (currentThread s) \<noteq> None"

definition first_ready :: "host_file \<Rightarrow> 'a ProcessState_scheme \<Rightarrow> bool" where
  "first_ready f s \<longleftrightarrow> kernel_ok s \<and> spaces_ok s \<and> quiet s \<and>
     (\<exists>x a el e th. live s x a \<and> image_of a s = program_image f (program_header f) \<and> pageTable s = as_pageTable a \<and>
        pageTableSize s = of_nat (numPages a) \<and> threads s (currentThread s) = Some th \<and> t_space th = Some x \<and>
        chain s [el] \<and> elements s el = Some e \<and> PID e = t_pid th \<and> ParentPID e = 0 \<and> CurrentThread e = currentThread s \<and> Valid e) \<and>
     NumProcess s = 1 \<and> semaphores s (MutexNumProc s) = Some \<lparr>sem_name = ''MutexNumProc'', sem_value = 1, sem_queue = []\<rparr> \<and>
     MutexNumProc s < nextSemaphore s \<and> reg s PCReg = 0 \<and> reg s NextPCReg = 4"

lemma StartProcess_spec:
  fixes s :: "'a ProcessState_scheme"
  assumes b: "booted s" and exe: "hostFiles s (c_chars name) = Some f" "loadable f" "pages_needed (program_header f) \<le> NumPhysPages"
  shows "\<exists>s'. StartProcess (Suc n) r others junk bits0 mem name s = Inr (True, s') \<and> first_ready f s' \<and> MemAll s' = MemAlloAlgSelect mem"
proof -
  obtain cur where cur: "threads s (currentThread s) = Some cur" using b by (auto simp: booted_def)
  obtain frames where fr: "BitMap_new bits0 (int NumPhysPages) = Inr frames" "frames_map frames" "\<forall>i<NumPhysPages. free_in frames i"
    using BitMap_new_bits [of "int NumPhysPages" bits0] by (auto simp: frames_map_def free_in_def simp del: nth_bits)
  let ?pid = "ProcessId s + 1"
  let ?s1 = "s\<lparr>MemAll := MemAlloAlgSelect mem, ProcessId := ?pid, threads := (threads s)(currentThread s \<mapsto> cur\<lparr>t_pid := ?pid\<rparr>), MainMemMap := frames\<rparr>"
  have s1: "frames_map (MainMemMap ?s1)" "memory_ok ?s1" "MemAll ?s1 \<in> {0, 1, 2}" "\<forall>i<NumPhysPages. free_in (MainMemMap ?s1) i"
    using fr b MemAlloAlgSelect_range by (simp_all add: booted_def memory_ok_def)
  have "spaces_ok ?s1" using s1 b by (simp add: spaces_ok_def live_def booted_def)
  from AddrSpace_new_isolated_spec [OF this exe(2), of "j_space junk" "j_header junk"] s1(3) obtain x s2 where
    new: "AddrSpace_new (j_header junk) (j_space junk) f ?s1 = Inr (x, s2)" "spaces_ok s2"
      "\<forall>a. live s2 x a \<longrightarrow> image_of a s2 = program_image f (program_header f)" by blast
  obtain a where a: "spaces s2 x = Some a" "SpaceFound a"
    using AddrSpace_new_found [OF s1(1) exe(2) s1(3,4) exe(3) new(1)] by blast
  note rest2 = AddrSpace_new_rest [OF s1(1,2) exe(2) s1(3) new(1)]
  note rf = rest_fields [OF rest2(1)] and pf = process_fields [OF rest_fields(11) [OF rest2(1)]]
  let ?s3 = "s2\<lparr>threads := (threads s2)(currentThread s2 \<mapsto> (cur\<lparr>t_pid := ?pid\<rparr>)\<lparr>t_space := Some x\<rparr>)\<rparr>"
  have mv3: "mem_view ?s3 = mem_view s2" by (simp add: mem_view_def)
  have q3: "quiet ?s3" "length (registers ?s3) = NumTotalRegs" using b rf by (simp_all add: booted_def quiet_def)
  obtain s' e where s': "first_process (Suc n) r others junk ?pid a ?s3 = Inr s'" "chain s' [nextElement ?s3]"
    "elements s' (nextElement ?s3) = Some e" "PID e = ?pid" "ParentPID e = 0" "CurrentThread e = currentThread ?s3" "Valid e" "NumProcess s' = 1"
    "quiet s'" "semaphores s' (MutexNumProc s') = Some \<lparr>sem_name = ''MutexNumProc'', sem_value = 1, sem_queue = []\<rparr>"
    "MutexNumProc s' < nextSemaphore s'" "mem_view s' = mem_view ?s3" "MemAll s' = MemAll ?s3" "tlb s' = tlb ?s3" "pageTable s' = as_pageTable a"
    "pageTableSize s' = of_nat (numPages a)" "length (registers s') = NumTotalRegs" "reg s' LoadReg = 0" "reg s' PCReg = 0" "reg s' NextPCReg = 4"
    "threads s' = threads ?s3" "currentThread s' = currentThread ?s3"
    using first_process_spec [OF q3, of n r others junk ?pid a] by auto
  have mv: "mem_view s' = mem_view s2" using s'(12) mv3 by simp
  note ok = mem_view_ok [OF mv]
  have live: "live s' x a" using a ok(2) by (simp add: live_def)
  have sp: "spaces_ok s'" using new(2) ok(1) by simp
  have housed: "housed a s'" using sp live unfolding spaces_ok_def by blast
  then obtain t es where h: "as_pageTable a = Some t" "tables s' t = Some es" "length es = numPages a" "t < nextTable s'"
    using housed unfolding housed_def space_ok_def by blast
  have "unat (of_nat (numPages a) :: 32 word) \<le> numPages a" by (simp add: unat_of_nat)
  then have "kernel_ok s'"
    using h s'(14-18) sp b rest2(2) by (simp add: kernel_ok_def machine_ok_def mmu_ok_def spaces_ok_def booted_def reg_defs)
  moreover have "image_of a s' = program_image f (program_header f)" using new(3) live ok by simp
  ultimately have "first_ready f s'"
    unfolding first_ready_def using sp live s' rf(3) by (auto simp: rf)
  moreover have "StartProcess (Suc n) r others junk bits0 mem name s = Inr (True, s')"
    using exe(1) cur fr(1) new(1) a s'(1) rf(1,3)
    by (simp add: StartProcess_def CreatId_def update_thread_def thread_at_def GetId_def space_at_def Let_def)
  moreover have "MemAll s' = MemAlloAlgSelect mem" using s'(13) rest2(3) by simp
  ultimately show ?thesis by blast
qed

subsection \<open>From the command line to the program\<close>

definition is_option :: "string \<Rightarrow> bool" where
  "is_option a \<longleftrightarrow> a \<in> {''-d'', ''-A'', ''-rs'', ''-s'', ''-f''}"

lemma parse_other: "\<not> is_option a \<Longrightarrow> parse_options user_build (a # args) opts = parse_options user_build args opts"
  by (simp add: is_option_def parse_kernel_def parse_devices_def user_build_def Let_def)

lemma parse_others: "\<forall>a\<in>set args. \<not> is_option a \<Longrightarrow> parse_options user_build args opts = Inr opts"
proof (induction args)
  case (Cons a args)
  have "\<not> is_option a" "\<forall>a\<in>set args. \<not> is_option a" using Cons.prems by simp_all
  then show ?case using Cons.IH parse_other [of a args opts] by metis
qed simp

text \<open>Enabling interrupts when nothing is pending.\<close>

lemma Enable_quiet:
  assumes "pending s = []" "\<not> yieldOnReturn s" "\<not> inHandler s" "level s = IntOff"
  shows "\<exists>st. Enable (timer_only r) Inr (Yield_boot n r others) s = Inr (s\<lparr>stats := st, level := IntOn\<rparr>)"
proof -
  have "OneTick (timer_only r) Inr (Yield_boot n r others) (s\<lparr>level := IntOn\<rparr>) = Inr (s\<lparr>stats := stats (advanceTime s), level := IntOn\<rparr>)"
    using assms by (simp add: OneTick_def fireTick_def CheckIfDue_def ChangeLevel_def advanceTime_def Let_def)
  then show ?thesis using assms by (auto simp: Enable_def SetLevel_def ChangeLevel_def Let_def)
qed

lemma Initialize_boots:
  fixes s :: "'a ProcessState_scheme"
  assumes "\<forall>a\<in>set args. \<not> is_option a" "spaces s = Map.empty"
  shows "\<exists>s'. Initialize n others junk args s = Inr (default_options, s') \<and> booted s' \<and> hostFiles s' = hostFiles s"
proof -
  obtain s1 where s1: "Initialize_kernel False junk s = Inr s1" "pending s1 = []" "\<not> yieldOnReturn s1" "\<not> inHandler s1" "level s1 = IntOff"
      "threads s1 (currentThread s1) \<noteq> None" "spaces s1 = spaces s" "hostFiles s1 = hostFiles s"
    by (simp add: Initialize_kernel_def Let_def Thread_new_def setThreadStatus_def update_thread_def thread_at_def Interrupt_new_def)
  obtain st where st: "Enable (timer_only False) Inr (Yield_boot n False others) s1 = Inr (s1\<lparr>stats := st, level := IntOn\<rparr>)"
    using Enable_quiet [OF s1(2-5)] by blast
  let ?s' = "s1\<lparr>stats := st, level := IntOn, registers := replicate NumTotalRegs 0, mainMemory := replicate MemorySize 0, tlb := None, pageTable := None\<rparr>"
  have "Machine_new False [] (s1\<lparr>stats := st, level := IntOn\<rparr>) = Inr ?s'"
    by (simp add: Machine_new_def CheckEndian_ok)
  then have "Initialize n others junk args s = Inr (default_options, ?s')"
    using parse_others [OF assms(1)] s1(1) st by (simp add: Initialize_def default_options_def)
  moreover have "booted ?s'" using s1 assms(2) by (simp add: booted_def quiet_def memory_ok_def)
  ultimately show ?thesis using s1(8) by (intro exI [of _ ?s']) simp
qed


text \<open>
  A lone argument. When \<open>nachos\<close>, compiled for user programs, is started with a single argument, be it \<open>-c\<close> for the console test with the
  standard files or \<open>-z\<close> for the copyright, \<open>main\<close> reads the array of arguments behind its end before it looks at what the argument asks for.
\<close>

theorem lone_argument_reads_behind_argv:
  assumes "\<not> is_option a" "spaces s = Map.empty"
  shows "main n others junk bits0 run console [a] s = Inl OutOfBounds"
proof -
  have "\<forall>x\<in>set [a]. \<not> is_option x" using assms(1) by simp
  from Initialize_boots [OF this assms(2), of n others "j_thread junk"] obtain s1 where
    s1: "Initialize n others (j_thread junk) [a] s = Inr (default_options, s1)" by blast
  have "read_MemAlgSelArgs [a] (Some []) = Inl OutOfBounds" by (simp add: read_MemAlgSelArgs_def arg_def)
  then show ?thesis using s1 by (simp add: main_def user_build_def)
qed

definition bare_machine :: ProcessState where
  "bare_machine = demo_processes\<lparr>spaces := Map.empty, hostFiles := [c_chars ''prog'' \<mapsto> demo_executable]\<rparr>"

lemma bare_machine_fields [simp]: "spaces bare_machine = Map.empty" "hostFiles bare_machine (c_chars ''prog'') = Some demo_executable"
  by (simp_all add: bare_machine_def)


theorem lone_argument_reads_behind_argv_witness: "main 1 Inr demo_junk (\<lambda>_. 5) Inr Inr [''-c''] bare_machine = Inl OutOfBounds"
  by (rule lone_argument_reads_behind_argv) (simp_all add: is_option_def)

end
