(* ===== verification/Nachos_Coff.thy ===== *)
theory Nachos_Coff
  imports Nachos_AddrSpace
begin

section \<open>From COFF to NOFF: bin/coff2noff.c\<close>

text \<open>
  The program that turns the output of the MIPS linker into the object files that \<open>AddrSpace\<close> loads. Its input is
  the list of bytes of the COFF file with a reading position; its output, which is written from position 40 on and gets its
  header last, is the list of bytes behind the header. A call of \<open>exit(1)\<close> is a value of \<open>coff_stop\<close>, with one constructor
  per message (the output file is removed then, except at the first two). The output file can hold \<open>room\<close> bytes, none
  if it could not be opened, since the code then runs into the first \<open>write\<close>. \<open>malloc\<close> is assumed to succeed,
  and a negative size is left open (\<open>HostDecides\<close>): what \<open>read\<close> does with it is up to the host. What is printed
  on the way is not modelled. The host is a little-endian one with 32-bit \<open>long\<close>.
\<close>

subsection \<open>The data (coff.h)\<close>

record filehdr =
  f_magic :: "16 word"
  f_nscns :: "16 word"
  f_timdat :: "32 word"
  f_symptr :: "32 word"
  f_nsyms :: "32 word"
  f_opthdr :: "16 word"
  f_flags :: "16 word"

record aouthdr =
  magic :: "16 word"
  vstamp :: "16 word"
  tsize :: "32 word"
  dsize :: "32 word"
  bsize :: "32 word"
  entry_point :: "32 word"
  text_start :: "32 word"
  data_start :: "32 word"
  bss_start :: "32 word"
  gprmask :: "32 word"
  cprmask :: "32 word list"
  gp_value :: "32 word"

record scnhdr =
  s_name :: "8 word list"
  s_paddr :: "32 word"
  s_vaddr :: "32 word"
  s_size :: "32 word"
  s_scnptr :: "32 word"
  s_relptr :: "32 word"
  s_lnnoptr :: "32 word"
  s_nreloc :: "16 word"
  s_nlnno :: "16 word"
  s_flags :: "32 word"

definition MIPSELMAGIC :: "16 word" where "MIPSELMAGIC = 0x0162"
definition OMAGIC :: "16 word" where "OMAGIC = 0x0107"

text \<open>The structs as the bytes of the file have them: 20, 56 and 40 bytes.\<close>

definition word_at :: "8 word list \<Rightarrow> nat \<Rightarrow> 32 word" where
  "word_at bs k = load_word False (take 4 (drop k bs))"

definition short_at :: "8 word list \<Rightarrow> nat \<Rightarrow> 16 word" where
  "short_at bs k = load_short False (take 2 (drop k bs))"

definition filehdr_of :: "8 word list \<Rightarrow> filehdr" where
  "filehdr_of bs = \<lparr>f_magic = short_at bs 0, f_nscns = short_at bs 2, f_timdat = word_at bs 4,
     f_symptr = word_at bs 8, f_nsyms = word_at bs 12, f_opthdr = short_at bs 16, f_flags = short_at bs 18\<rparr>"

definition aouthdr_of :: "8 word list \<Rightarrow> aouthdr" where
  "aouthdr_of bs = \<lparr>magic = short_at bs 0, vstamp = short_at bs 2, tsize = word_at bs 4, dsize = word_at bs 8,
     bsize = word_at bs 12, entry_point = word_at bs 16, text_start = word_at bs 20, data_start = word_at bs 24,
     bss_start = word_at bs 28, gprmask = word_at bs 32, cprmask = map (\<lambda>i. word_at bs (36 + 4 * i)) [0..<4],
     gp_value = word_at bs 52\<rparr>"

definition scnhdr_of :: "8 word list \<Rightarrow> scnhdr" where
  "scnhdr_of bs = \<lparr>s_name = take 8 bs, s_paddr = word_at bs 8, s_vaddr = word_at bs 12, s_size = word_at bs 16,
     s_scnptr = word_at bs 20, s_relptr = word_at bs 24, s_lnnoptr = word_at bs 28, s_nreloc = short_at bs 32,
     s_nlnno = short_at bs 34, s_flags = word_at bs 36\<rparr>"

text \<open>The output header: the ten integers of the struct of \<open>noff.h\<close>.\<close>

definition segment_bytes :: "Segment \<Rightarrow> 8 word list" where
  "segment_bytes g = word_bytes (virtualAddr g) @ word_bytes (inFileAddr g) @ word_bytes (seg_size g)"

definition noff_bytes :: "NoffHeader \<Rightarrow> 8 word list" where
  "noff_bytes h = word_bytes (noffMagic h) @ segment_bytes (code h) @ segment_bytes (initData h) @
     segment_bytes (uninitData h)"

subsection \<open>Reading and writing\<close>

datatype coff_stop = UsageMessage | CannotOpen | FileTooShort | NotMipsel | NotOmagic | UnableToWrite
  | BothDataAndRdata | BothBssAndSbss | UnknownSegment | HostDecides

definition proceed :: "coff_stop + 'a \<Rightarrow> ('a \<Rightarrow> coff_stop + 'b) \<Rightarrow> coff_stop + 'b" where
  "proceed m k = (case m of Inl e \<Rightarrow> Inl e | Inr x \<Rightarrow> k x)"

fun for_each :: "('s \<Rightarrow> 'a \<Rightarrow> coff_stop + 's) \<Rightarrow> 's \<Rightarrow> 'a list \<Rightarrow> coff_stop + 's" where
  "for_each k s [] = Inr s"
| "for_each k s (x # xs) = proceed (k s x) (\<lambda>s'. for_each k s' xs)"

definition coff_Read :: "host_file \<Rightarrow> nat \<Rightarrow> int \<Rightarrow> coff_stop + (8 word list \<times> nat)" where
  "coff_Read f pos nBytes = (if nBytes < 0 then Inl HostDecides
     else let buf = take (nat nBytes) (drop pos f)
       in if int (length buf) \<noteq> nBytes then Inl FileTooShort else Inr (buf, pos + length buf))"

text \<open>\<open>lseek\<close> refuses a negative position and leaves the old one.\<close>

definition coff_lseek :: "nat \<Rightarrow> 32 word \<Rightarrow> nat" where
  "coff_lseek pos to = (if sint to < 0 then pos else nat (sint to))"

definition noff_Write :: "nat \<Rightarrow> nat \<Rightarrow> 8 word list \<Rightarrow> coff_stop + unit" where
  "noff_Write room pos buf = (if pos + length buf > room then Inl UnableToWrite else Inr ())"

text \<open>
  The names of sections need not end with a zero byte; \<open>strcmp\<close> with a shorter constant is decided within the
  eight bytes.
\<close>

definition name_is :: "scnhdr \<Rightarrow> string \<Rightarrow> bool" where
  "name_is x lit = (take (Suc (length lit)) (s_name x) = map of_char lit @ [0])"

subsection \<open>The loop over the sections\<close>

record Conversion =
  noffH :: NoffHeader
  inNoffFile :: int
  body :: "8 word list"
  fdIn_pos :: nat

definition segment_of :: "scnhdr \<Rightarrow> Conversion \<Rightarrow> Segment" where
  "segment_of x c = \<lparr>virtualAddr = s_paddr x, inFileAddr = word_of_int (inNoffFile c), seg_size = s_size x\<rparr>"

definition copy_section :: "host_file \<Rightarrow> nat \<Rightarrow> scnhdr \<Rightarrow> Conversion \<Rightarrow> coff_stop + Conversion" where
  "copy_section f room x c =
     proceed (coff_Read f (coff_lseek (fdIn_pos c) (s_scnptr x)) (sint (s_size x))) (\<lambda>(buffer, pos).
     proceed (noff_Write room (NoffHeaderSize + length (body c)) buffer) (\<lambda>_.
     Inr (c\<lparr>body := body c @ buffer, fdIn_pos := pos, inNoffFile := inNoffFile c + sint (s_size x)\<rparr>)))"

definition convert_section :: "host_file \<Rightarrow> nat \<Rightarrow> Conversion \<Rightarrow> scnhdr \<Rightarrow> coff_stop + Conversion" where
  "convert_section f room c x = (let h = noffH c in
     if s_size x = 0 then Inr c
     else if name_is x ''.text'' then copy_section f room x (c\<lparr>noffH := h\<lparr>code := segment_of x c\<rparr>\<rparr>)
     else if name_is x ''.data'' \<or> name_is x ''.rdata'' then
       if seg_size (initData h) \<noteq> 0 then Inl BothDataAndRdata
       else copy_section f room x (c\<lparr>noffH := h\<lparr>initData := segment_of x c\<rparr>\<rparr>)
     else if name_is x ''.bss'' \<or> name_is x ''.sbss'' then
       let g = uninitData h in
       if seg_size g \<noteq> 0 then
         if s_paddr x = virtualAddr g + seg_size g then Inl BothBssAndSbss
         else Inr (c\<lparr>noffH := h\<lparr>uninitData := g\<lparr>seg_size := seg_size g + s_size x\<rparr>\<rparr>\<rparr>)
       else Inr (c\<lparr>noffH := h\<lparr>uninitData := g\<lparr>virtualAddr := s_paddr x, seg_size := s_size x\<rparr>\<rparr>\<rparr>)
     else Inl UnknownSegment)"

text \<open>The fields of the output header that are not set hold what the stack had (\<open>junk\<close>).\<close>

definition initial_header :: "NoffHeader \<Rightarrow> NoffHeader" where
  "initial_header junk = \<lparr>noffMagic = NOFFMAGIC, code = (code junk)\<lparr>seg_size := 0\<rparr>,
     initData = (initData junk)\<lparr>seg_size := 0\<rparr>, uninitData = (uninitData junk)\<lparr>seg_size := 0\<rparr>\<rparr>"

definition swap_section :: "scnhdr \<Rightarrow> scnhdr" where
  "swap_section x = x\<lparr>s_paddr := WordToHost False (s_paddr x), s_size := WordToHost False (s_size x),
     s_scnptr := WordToHost False (s_scnptr x)\<rparr>"

definition coff2noff :: "nat \<Rightarrow> host_file option \<Rightarrow> nat \<Rightarrow> NoffHeader \<Rightarrow> coff_stop + host_file" where
  "coff2noff argc fdIn room junk = (if argc < 2 then Inl UsageMessage else case fdIn of None \<Rightarrow> Inl CannotOpen | Some f \<Rightarrow>
     proceed (coff_Read f 0 20) (\<lambda>(b1, p1). let fileh = filehdr_of b1 in
     if ShortToHost False (f_magic fileh) \<noteq> MIPSELMAGIC then Inl NotMipsel else
     proceed (coff_Read f p1 56) (\<lambda>(b2, p2). let systemh = aouthdr_of b2 in
     if ShortToHost False (magic systemh) \<noteq> OMAGIC then Inl NotOmagic else
     let numsections = unat (ShortToHost False (f_nscns fileh)) in
     proceed (coff_Read f p2 (int (numsections * 40))) (\<lambda>(b3, p3).
     let sections = map (\<lambda>i. swap_section (scnhdr_of (take 40 (drop (40 * i) b3)))) [0..<numsections] in
     proceed (for_each (convert_section f room)
         \<lparr>noffH = initial_header junk, inNoffFile = int NoffHeaderSize, body = [], fdIn_pos = p3\<rparr> sections) (\<lambda>c.
     proceed (noff_Write room 0 (noff_bytes (noffH c))) (\<lambda>_.
     Inr (noff_bytes (noffH c) @ body c)))))))"

subsection \<open>What the program is to do\<close>

text \<open>
  The sections of a file by what they become. \<open>convertible\<close>: the headers are complete and have the right magic
  numbers; every nonempty section has a known name and, if it has contents, these lie in the file; there is at most
  one nonempty section of each kind; and the output can be written.
\<close>

datatype section_kind = Text | Data | Bss | Other

definition kind_of :: "scnhdr \<Rightarrow> section_kind" where
  "kind_of x = (if name_is x ''.text'' then Text else if name_is x ''.data'' \<or> name_is x ''.rdata'' then Data
     else if name_is x ''.bss'' \<or> name_is x ''.sbss'' then Bss else Other)"

definition of_kind :: "section_kind \<Rightarrow> scnhdr list \<Rightarrow> scnhdr list" where
  "of_kind k xs = filter (\<lambda>x. s_size x \<noteq> 0 \<and> kind_of x = k) xs"

definition size_in :: "scnhdr \<Rightarrow> nat" where
  "size_in x = nat (sint (s_size x))"

definition section_bytes :: "host_file \<Rightarrow> scnhdr \<Rightarrow> 8 word list" where
  "section_bytes f x = take (size_in x) (drop (nat (sint (s_scnptr x))) f)"

definition contents_size :: "scnhdr list \<Rightarrow> nat" where
  "contents_size xs = sum_list (map size_in (of_kind Text xs)) + sum_list (map size_in (of_kind Data xs))"

definition section_ok :: "host_file \<Rightarrow> scnhdr \<Rightarrow> bool" where
  "section_ok f x \<longleftrightarrow> s_size x = 0 \<or> kind_of x = Bss \<or> kind_of x \<in> {Text, Data} \<and> 0 \<le> sint (s_size x) \<and>
     0 \<le> sint (s_scnptr x) \<and> length (section_bytes f x) = size_in x"

definition sections_of :: "host_file \<Rightarrow> scnhdr list" where
  "sections_of f = map (\<lambda>i. scnhdr_of (take 40 (drop (76 + 40 * i) f))) [0..<unat (short_at f 2)]"

definition coff_header_ok :: "host_file \<Rightarrow> bool" where
  "coff_header_ok f \<longleftrightarrow> 76 + 40 * unat (short_at f 2) \<le> length f \<and> short_at f 0 = MIPSELMAGIC \<and>
     short_at f 20 = OMAGIC"

definition tidy :: "host_file \<Rightarrow> scnhdr list \<Rightarrow> bool" where
  "tidy f xs \<longleftrightarrow> (\<forall>x \<in> set xs. section_ok f x) \<and> length (of_kind Data xs) \<le> 1 \<and> length (of_kind Bss xs) \<le> 1"

definition convertible :: "host_file \<Rightarrow> nat \<Rightarrow> bool" where
  "convertible f room \<longleftrightarrow> coff_header_ok f \<and> tidy f (sections_of f) \<and> length (of_kind Text (sections_of f)) \<le> 1 \<and>
     NoffHeaderSize + contents_size (sections_of f) \<le> room \<and> room < 2 ^ 31"

subsection \<open>The loop\<close>

lemma proceed_simps [simp]: "proceed (Inl e) k = Inl e" "proceed (Inr x) k = k x"
  by (simp_all add: proceed_def)

lemma for_each_append:
  "for_each k s (xs @ ys) = proceed (for_each k s xs) (\<lambda>s'. for_each k s' ys)"
  by (induction xs arbitrary: s) (simp_all add: proceed_def split: sum.split)

lemma of_kind_snoc: "of_kind k (xs @ [x]) = of_kind k xs @ (if s_size x \<noteq> 0 \<and> kind_of x = k then [x] else [])"
  by (simp add: of_kind_def)

lemma of_kind_Nil [simp]: "of_kind k [] = []"
  by (simp add: of_kind_def)

text \<open>
  What a segment of the output header says: nothing was found of its kind, or it describes the last section
  found, whose contents are in the output.
\<close>

definition describes :: "host_file \<Rightarrow> 8 word list \<Rightarrow> Segment \<Rightarrow> scnhdr \<Rightarrow> bool" where
  "describes f bs g x \<longleftrightarrow> virtualAddr g = s_paddr x \<and> seg_size g = s_size x \<and>
     (\<exists>n. sint (inFileAddr g) = int (NoffHeaderSize + n) \<and> take (size_in x) (drop n bs) = section_bytes f x)"

definition segment_set :: "host_file \<Rightarrow> 8 word list \<Rightarrow> Segment \<Rightarrow> scnhdr list \<Rightarrow> bool" where
  "segment_set f bs g xs \<longleftrightarrow> (if xs = [] then seg_size g = 0 else describes f bs g (last xs))"

definition bss_set :: "Segment \<Rightarrow> scnhdr list \<Rightarrow> bool" where
  "bss_set g xs \<longleftrightarrow> (if xs = [] then seg_size g = 0
     else virtualAddr g = s_paddr (last xs) \<and> seg_size g = s_size (last xs))"

definition conversion_ok :: "host_file \<Rightarrow> scnhdr list \<Rightarrow> Conversion \<Rightarrow> bool" where
  "conversion_ok f xs c \<longleftrightarrow> inNoffFile c = int (NoffHeaderSize + length (body c)) \<and>
     length (body c) = contents_size xs \<and> noffMagic (noffH c) = NOFFMAGIC \<and>
     segment_set f (body c) (code (noffH c)) (of_kind Text xs) \<and>
     segment_set f (body c) (initData (noffH c)) (of_kind Data xs) \<and>
     bss_set (uninitData (noffH c)) (of_kind Bss xs)"

lemma describes_longer:
  assumes "describes f bs g x" and "length (section_bytes f x) = size_in x"
  shows "describes f (bs @ cs) g x"
proof -
  obtain n where n: "sint (inFileAddr g) = int (NoffHeaderSize + n)" "take (size_in x) (drop n bs) = section_bytes f x"
    and g: "virtualAddr g = s_paddr x" "seg_size g = s_size x"
    using assms(1) by (auto simp: describes_def)
  have "size_in x \<le> length (drop n bs)" using n(2) assms(2) by (metis length_take min.cobounded1)
  then have "take (size_in x) (drop n (bs @ cs)) = section_bytes f x"
    using n(2) by (cases "size_in x = 0") auto
  then show ?thesis using n(1) g by (auto simp: describes_def)
qed

lemma of_kind_ok: "\<forall>x \<in> set xs. section_ok f x \<Longrightarrow> k \<in> {Text, Data} \<Longrightarrow> y \<in> set (of_kind k xs) \<Longrightarrow>
    length (section_bytes f y) = size_in y"
  by (auto simp: of_kind_def section_ok_def)

lemma segment_set_longer:
  assumes "segment_set f bs g (of_kind k xs)" and "\<forall>x \<in> set xs. section_ok f x" and "k \<in> {Text, Data}"
  shows "segment_set f (bs @ cs) g (of_kind k xs)"
  using assms describes_longer [OF _ of_kind_ok [OF assms(2,3)]] by (auto simp: segment_set_def)

lemma copy_section_ok:
  assumes "section_ok f x" and "s_size x \<noteq> 0" and "kind_of x \<in> {Text, Data}"
    and "NoffHeaderSize + length (body c) + size_in x \<le> room"
  shows "\<exists>p. copy_section f room x c = Inr (c\<lparr>body := body c @ section_bytes f x, fdIn_pos := p,
    inNoffFile := inNoffFile c + int (size_in x)\<rparr>)"
proof -
  have x: "0 \<le> sint (s_size x)" "0 \<le> sint (s_scnptr x)" "length (section_bytes f x) = size_in x"
    using assms(1-3) by (auto simp: section_ok_def)
  have "int (size_in x) = sint (s_size x)" using x(1) by (simp add: size_in_def)
  then show ?thesis
    using x assms(4) unfolding copy_section_def coff_Read_def coff_lseek_def noff_Write_def
    by (simp add: Let_def section_bytes_def size_in_def) (rule exI, rule refl)
qed

lemma new_segment:
  assumes "inNoffFile c = int (NoffHeaderSize + length (body c))" and "NoffHeaderSize + length (body c) < 2 ^ 31"
    and "length (section_bytes f x) = size_in x"
  shows "describes f (body c @ section_bytes f x) (segment_of x c) x"
proof -
  have "sint (word_of_int (int (NoffHeaderSize + length (body c))) :: 32 word) = int (NoffHeaderSize + length (body c))"
    by (rule sint_int32) (use assms(2) in simp_all)
  then show ?thesis using assms by (auto simp: describes_def segment_of_def intro!: exI [of _ "length (body c)"])
qed

text \<open>One round of the loop, by the kind of the section.\<close>

lemma convert_section_ok:
  assumes inv: "conversion_ok f xs c" and old: "\<forall>y \<in> set xs. section_ok f y" and new: "section_ok f x"
    and one: "length (of_kind Data (xs @ [x])) \<le> 1" "length (of_kind Bss (xs @ [x])) \<le> 1"
    and space: "NoffHeaderSize + contents_size (xs @ [x]) \<le> room" "room < 2 ^ 31"
  shows "\<exists>c'. convert_section f room c x = Inr c' \<and> conversion_ok f (xs @ [x]) c'"
proof (cases "s_size x = 0")
  case True
  then have "of_kind k (xs @ [x]) = of_kind k xs" for k by (simp add: of_kind_snoc)
  then show ?thesis using inv True by (simp add: convert_section_def conversion_ok_def contents_size_def)
next
  case False
  note keep = segment_set_longer [OF _ old]
  have i: "inNoffFile c = int (NoffHeaderSize + length (body c))" "length (body c) = contents_size xs"
    "noffMagic (noffH c) = NOFFMAGIC" "segment_set f (body c) (code (noffH c)) (of_kind Text xs)"
    "segment_set f (body c) (initData (noffH c)) (of_kind Data xs)" "bss_set (uninitData (noffH c)) (of_kind Bss xs)"
    using inv by (simp_all add: conversion_ok_def)
  have len: "kind_of x \<in> {Text, Data} \<Longrightarrow> length (section_bytes f x) = size_in x"
    and known: "kind_of x \<noteq> Other" using new False by (auto simp: section_ok_def)
  have size: "kind_of x \<in> {Text, Data} \<Longrightarrow> contents_size (xs @ [x]) = contents_size xs + size_in x"
    using False by (auto simp: contents_size_def of_kind_snoc)
  have fits: "kind_of x \<in> {Text, Data} \<Longrightarrow> NoffHeaderSize + length (body c) + size_in x \<le> room"
    using size space(1) i(2) by simp
  then have seg: "kind_of x \<in> {Text, Data} \<Longrightarrow> describes f (body c @ section_bytes f x) (segment_of x c) x"
    using new_segment [OF i(1)] len space(2) by auto
  show ?thesis
  proof (cases "kind_of x")
    case Text
    let ?c = "c\<lparr>noffH := (noffH c)\<lparr>code := segment_of x c\<rparr>\<rparr>"
    have k: "name_is x ''.text''" using Text by (auto simp: kind_of_def split: if_splits)
    obtain p where "copy_section f room x ?c = Inr (?c\<lparr>body := body c @ section_bytes f x, fdIn_pos := p,
        inNoffFile := inNoffFile c + int (size_in x)\<rparr>)"
      using copy_section_ok [OF new False, of ?c room] fits Text by auto
    then show ?thesis using False k Text seg size i len keep [OF i(5)]
      by (simp add: convert_section_def Let_def conversion_ok_def of_kind_snoc segment_set_def [of f _ "segment_of x c"])
  next
    case Data
    let ?c = "c\<lparr>noffH := (noffH c)\<lparr>initData := segment_of x c\<rparr>\<rparr>"
    have k: "\<not> name_is x ''.text''" "name_is x ''.data'' \<or> name_is x ''.rdata''"
      using Data by (auto simp: kind_of_def split: if_splits)
    have "of_kind Data xs = []" using one(1) False Data by (simp add: of_kind_snoc)
    then have z: "seg_size (initData (noffH c)) = 0" using i(5) by (simp add: segment_set_def)
    obtain p where "copy_section f room x ?c = Inr (?c\<lparr>body := body c @ section_bytes f x, fdIn_pos := p,
        inNoffFile := inNoffFile c + int (size_in x)\<rparr>)"
      using copy_section_ok [OF new False, of ?c room] fits Data by auto
    then show ?thesis using False k Data z seg size i len keep [OF i(4)]
      by (simp add: convert_section_def Let_def conversion_ok_def of_kind_snoc segment_set_def [of f _ "segment_of x c"])
  next
    case Bss
    have k: "\<not> name_is x ''.text''" "\<not> name_is x ''.data''" "\<not> name_is x ''.rdata''" "name_is x ''.bss'' \<or> name_is x ''.sbss''"
      using Bss by (auto simp: kind_of_def split: if_splits)
    have "of_kind Bss xs = []" using one(2) False Bss by (simp add: of_kind_snoc)
    then have z: "seg_size (uninitData (noffH c)) = 0" using i(6) by (simp add: bss_set_def)
    show ?thesis using False k Bss z i
      by (simp add: convert_section_def Let_def conversion_ok_def of_kind_snoc bss_set_def contents_size_def)
  qed (use known in simp)
qed

lemma prefix_tidy: "tidy f (xs @ ys) \<Longrightarrow> tidy f xs"
  by (auto simp: tidy_def of_kind_def)

lemma for_each_ok:
  assumes "tidy f xs" and "NoffHeaderSize + contents_size xs \<le> room" and "room < 2 ^ 31"
    and "conversion_ok f [] c"
  shows "\<exists>c'. for_each (convert_section f room) c xs = Inr c' \<and> conversion_ok f xs c'"
  using assms(1,2)
proof (induction xs rule: rev_induct)
  case (snoc x xs)
  have t: "tidy f xs" by (rule prefix_tidy [OF snoc.prems(1)])
  have "contents_size xs \<le> contents_size (xs @ [x])" by (simp add: contents_size_def of_kind_snoc)
  then obtain c' where c': "for_each (convert_section f room) c xs = Inr c'" "conversion_ok f xs c'"
    using snoc.IH [OF t] snoc.prems(2) by auto
  then obtain c'' where "convert_section f room c' x = Inr c''" "conversion_ok f (xs @ [x]) c''"
    using convert_section_ok [OF c'(2), of x room] snoc.prems assms(3) by (auto simp: tidy_def)
  then show ?case using c'(1) by (simp add: for_each_append)
qed (use assms(4) in simp)

subsection \<open>The whole conversion\<close>

lemma length_noff_bytes [simp]: "length (noff_bytes h) = NoffHeaderSize"
  by (simp add: noff_bytes_def segment_bytes_def NoffHeaderSize_def)

lemma program_header_bytes: "program_header (noff_bytes h @ bs) = h"
  by (simp add: program_header_def header_of_def Let_def load_word_def noff_bytes_def segment_bytes_def
      NoffHeaderSize_def)

lemma swap_section_id [simp]: "swap_section x = x"
  by (simp add: swap_section_def)

lemma sections_read:
  "map (\<lambda>i. swap_section (scnhdr_of (take 40 (drop (40 * i) (take (n * 40) (drop 76 f)))))) [0..<n] =
   map (\<lambda>i. scnhdr_of (take 40 (drop (76 + 40 * i) f))) [0..<n]"
proof (rule map_cong [OF refl])
  fix i assume "i \<in> set [0..<n]"
  then have "40 + 40 * i \<le> n * 40" by auto
  then have "take 40 (drop (40 * i) (take (n * 40) (drop 76 f))) = take 40 (drop (76 + 40 * i) f)"
    by (simp add: drop_take add.commute)
  then show "swap_section (scnhdr_of (take 40 (drop (40 * i) (take (n * 40) (drop 76 f))))) =
      scnhdr_of (take 40 (drop (76 + 40 * i) f))" by simp
qed

definition first_round :: "host_file \<Rightarrow> NoffHeader \<Rightarrow> Conversion" where
  "first_round f junk = \<lparr>noffH = initial_header junk, inNoffFile = int NoffHeaderSize, body = [],
     fdIn_pos = 76 + 40 * unat (short_at f 2)\<rparr>"

lemma first_round_ok: "conversion_ok f [] (first_round f junk)"
  by (simp add: first_round_def conversion_ok_def contents_size_def segment_set_def bss_set_def initial_header_def)

lemma coff_Read_all: "pos + n \<le> length f \<Longrightarrow> coff_Read f pos (int n) = Inr (take n (drop pos f), pos + n)"
  by (simp add: coff_Read_def Let_def)

lemma coff_header_read:
  assumes "coff_header_ok f"
  shows "coff_Read f 0 20 = Inr (take 20 f, 20)" and "coff_Read f 20 56 = Inr (take 56 (drop 20 f), 76)"
    and "coff_Read f 76 (int (unat (short_at f 2) * 40)) =
      Inr (take (unat (short_at f 2) * 40) (drop 76 f), 76 + 40 * unat (short_at f 2))"
    and "f_magic (filehdr_of (take 20 f)) = MIPSELMAGIC" and "magic (aouthdr_of (take 56 (drop 20 f))) = OMAGIC"
    and "f_nscns (filehdr_of (take 20 f)) = short_at f 2"
proof -
  let ?n = "unat (short_at f 2)"
  have h: "76 + 40 * ?n \<le> length f" "short_at f 0 = MIPSELMAGIC" "short_at f 20 = OMAGIC"
    using assms by (simp_all add: coff_header_ok_def)
  show "f_nscns (filehdr_of (take 20 f)) = short_at f 2"
    and "f_magic (filehdr_of (take 20 f)) = MIPSELMAGIC" and "magic (aouthdr_of (take 56 (drop 20 f))) = OMAGIC"
    using h(2,3) by (simp_all add: filehdr_of_def aouthdr_of_def short_at_def min_def drop_take)
  show "coff_Read f 0 20 = Inr (take 20 f, 20)" "coff_Read f 20 56 = Inr (take 56 (drop 20 f), 76)"
    using coff_Read_all [of 0 20 f] coff_Read_all [of 20 56 f] h(1) by (simp_all only: of_nat_numeral drop0) simp_all
  show "coff_Read f 76 (int (?n * 40)) = Inr (take (?n * 40) (drop 76 f), 76 + 40 * ?n)"
    using coff_Read_all [of 76 "?n * 40" f] h(1) by (simp add: mult.commute)
qed

lemma coff2noff_loop:
  assumes "coff_header_ok f" and "2 \<le> argc" and "NoffHeaderSize \<le> room"
  shows "coff2noff argc (Some f) room junk =
    proceed (for_each (convert_section f room) (first_round f junk) (sections_of f))
      (\<lambda>c. Inr (noff_bytes (noffH c) @ body c))"
proof -
  note r = coff_header_read [OF assms(1)]
  have w: "ShortToHost False v = v" for v by (simp add: ShortToHost_def)
  show ?thesis
    using assms(2,3)
    by (simp only: coff2noff_def r w sections_read sections_of_def first_round_def proceed_simps Let_def split_conv
        option.case not_less if_not_P noff_Write_def length_noff_bytes add_0 simp_thms if_False)
qed

lemma coff2noff_converts:
  assumes "convertible f room" and "2 \<le> argc"
  shows "\<exists>c. coff2noff argc (Some f) room junk = Inr (noff_bytes (noffH c) @ body c) \<and> conversion_ok f (sections_of f) c"
  using assms for_each_ok [OF _ _ _ first_round_ok, of f "sections_of f" room junk] coff2noff_loop [of f argc room junk]
  by (auto simp: convertible_def)

text \<open>The image of the program in its address space, as the COFF file describes it.\<close>

definition size_of_kind :: "section_kind \<Rightarrow> scnhdr list \<Rightarrow> 32 word" where
  "size_of_kind k xs = (if of_kind k xs = [] then 0 else s_size (last (of_kind k xs)))"

definition sections_pages :: "scnhdr list \<Rightarrow> nat" where
  "sections_pages xs = nat (divRoundUp (uint (size_of_kind Text xs + size_of_kind Data xs + size_of_kind Bss xs +
     UserStackSize)) (int PageSize))"

definition put_section :: "host_file \<Rightarrow> 8 word list \<Rightarrow> scnhdr \<Rightarrow> 8 word list" where
  "put_section f img x = (let v = nat (sint (s_paddr x)) in
     overwrite img v (take (copied v (size_in x)) (section_bytes f x)))"

definition coff_image :: "host_file \<Rightarrow> 8 word list" where
  "coff_image f = (let xs = sections_of f in
     foldl (put_section f) (replicate (sections_pages xs * PageSize) 0) (of_kind Text xs @ of_kind Data xs))"

definition addresses_fit :: "scnhdr list \<Rightarrow> bool" where
  "addresses_fit xs \<longleftrightarrow> 0 < sections_pages xs \<and> (\<forall>x \<in> set (of_kind Text xs @ of_kind Data xs).
     0 \<le> sint (s_paddr x) \<and> sint (s_paddr x) + sint (s_size x) \<le> int (sections_pages xs * PageSize))"

lemma segment_set_size: "segment_set f bs g (of_kind k xs) \<Longrightarrow> seg_size g = size_of_kind k xs"
  by (auto simp: segment_set_def describes_def size_of_kind_def split: if_splits)

lemma bss_set_size: "bss_set g (of_kind k xs) \<Longrightarrow> seg_size g = size_of_kind k xs"
  by (auto simp: bss_set_def size_of_kind_def split: if_splits)

lemma place_described:
  assumes "describes f bs g x" and "0 < sint (s_size x)" and "length hb = NoffHeaderSize"
  shows "place (hb @ bs) g img = put_section f img x"
proof -
  obtain n where n: "sint (inFileAddr g) = int (NoffHeaderSize + n)" "take (size_in x) (drop n bs) = section_bytes f x"
    and g: "virtualAddr g = s_paddr x" "seg_size g = s_size x"
    using assms(1) by (auto simp: describes_def)
  have "nat (sint (inFileAddr g)) = NoffHeaderSize + n" using n(1) by simp
  then have "drop (nat (sint (inFileAddr g))) (hb @ bs) = drop n bs" using assms(3) by simp
  moreover have "take (copied v (size_in x)) (drop n bs) = take (copied v (size_in x)) (section_bytes f x)" for v
    by (simp add: n(2) [symmetric] copied_le min_absorb1)
  ultimately show ?thesis using assms(2) by (simp add: place_def g put_section_def Let_def size_in_def)
qed

lemma place_segment:
  assumes "segment_set f bs g (of_kind k xs)" and "length (of_kind k xs) \<le> 1" and "\<forall>x \<in> set xs. section_ok f x"
    and "k \<in> {Text, Data}" and "length hb = NoffHeaderSize"
  shows "place (hb @ bs) g img = foldl (put_section f) img (of_kind k xs)"
proof (cases "of_kind k xs")
  case Nil
  then show ?thesis using assms(1) by (simp add: segment_set_def place_def)
next
  case (Cons x ys)
  have x: "of_kind k xs = [x]" using Cons assms(2) by simp
  then have "x \<in> set xs" "s_size x \<noteq> 0" "kind_of x = k" by (auto simp: of_kind_def filter_eq_Cons_iff)
  then have "0 \<le> sint (s_size x)" "sint (s_size x) \<noteq> 0"
    using assms(3,4) by (auto simp: section_ok_def signed_eq_0_iff)
  then have "0 < sint (s_size x)" by simp
  then show ?thesis using place_described [OF _ _ assms(5), of f bs g x img] assms(1) x by (simp add: segment_set_def)
qed

lemma segment_set_fits:
  assumes "segment_set f bs g (of_kind k xs)" and "addresses_fit xs" and "k \<in> {Text, Data}"
  shows "segment_fits (sections_pages xs) g"
proof (cases "of_kind k xs = []")
  case False
  have m: "last (of_kind k xs) \<in> set (of_kind k xs)" using False by simp
  have "describes f bs g (last (of_kind k xs))" using assms(1) False by (simp add: segment_set_def)
  then show ?thesis using assms(2,3) m by (auto simp: segment_fits_def describes_def addresses_fit_def)
qed (use assms(1) in \<open>simp add: segment_set_def segment_fits_def\<close>)

lemma converted_loads:
  assumes "convertible f room" and "addresses_fit (sections_of f)" and "conversion_ok f (sections_of f) c"
  defines "out \<equiv> noff_bytes (noffH c) @ body c"
  shows "loadable out" and "program_image out (program_header out) = coff_image f"
proof -
  let ?xs = "sections_of f" and ?h = "noffH c"
  have set: "segment_set f (body c) (code ?h) (of_kind Text ?xs)" "segment_set f (body c) (initData ?h) (of_kind Data ?xs)"
    "bss_set (uninitData ?h) (of_kind Bss ?xs)" "noffMagic ?h = NOFFMAGIC"
    using assms(3) by (simp_all add: conversion_ok_def)
  have ok: "\<forall>x \<in> set ?xs. section_ok f x" "length (of_kind Text ?xs) \<le> 1" "length (of_kind Data ?xs) \<le> 1"
    using assms(1) by (simp_all add: convertible_def tidy_def)
  have h: "program_header out = ?h" by (simp add: out_def program_header_bytes)
  have pages: "pages_needed ?h = sections_pages ?xs"
    using segment_set_size [OF set(1)] segment_set_size [OF set(2)] bss_set_size [OF set(3)]
    by (simp add: pages_needed_def sections_pages_def)
  show "loadable out"
    using segment_set_fits [OF set(1) assms(2)] segment_set_fits [OF set(2) assms(2)] assms(2) set(4)
    by (simp add: loadable_def Let_def h pages addresses_fit_def) (simp add: out_def)
  have "program_image out ?h = foldl (put_section f) (foldl (put_section f)
      (replicate (sections_pages ?xs * PageSize) 0) (of_kind Text ?xs)) (of_kind Data ?xs)"
    unfolding program_image_def out_def pages
    by (simp add: place_segment [OF set(1) ok(2) ok(1)] place_segment [OF set(2) ok(3) ok(1)])
  then show "program_image out (program_header out) = coff_image f" by (simp add: h coff_image_def Let_def)
qed


text \<open>
  Two sections without contents (.bss and .sbss). The code means to accept them when they are contiguous,
  and does the opposite: if the second begins where the first ends the conversion is given up, and otherwise it goes on,
  with a segment that begins with the first section and has the size of both.
\<close>

theorem contiguous_bss_rejected:
  assumes "coff_header_ok f" and "2 \<le> argc" and "sections_of f = xs @ [x]" and "tidy f xs"
    and "NoffHeaderSize + contents_size xs \<le> room" and "room < 2 ^ 31"
    and "of_kind Bss xs = [b]" and "s_size x \<noteq> 0" and "kind_of x = Bss"
  shows "if s_paddr x = s_paddr b + s_size b then coff2noff argc (Some f) room junk = Inl BothBssAndSbss
    else \<exists>out. coff2noff argc (Some f) room junk = Inr out \<and>
      virtualAddr (uninitData (program_header out)) = s_paddr b \<and>
      seg_size (uninitData (program_header out)) = s_size b + s_size x"
proof -
  obtain c where c: "for_each (convert_section f room) (first_round f junk) xs = Inr c" "conversion_ok f xs c"
    using for_each_ok [OF assms(4-6) first_round_ok] by blast
  have g: "virtualAddr (uninitData (noffH c)) = s_paddr b" "seg_size (uninitData (noffH c)) = s_size b" "s_size b \<noteq> 0"
    using c(2) assms(7) by (auto simp: conversion_ok_def bss_set_def of_kind_def filter_eq_Cons_iff)
  have k: "\<not> name_is x ''.text''" "\<not> name_is x ''.data''" "\<not> name_is x ''.rdata''" "name_is x ''.bss'' \<or> name_is x ''.sbss''"
    using assms(9) by (auto simp: kind_of_def split: if_splits)
  have "NoffHeaderSize \<le> room" using assms(5) by simp
  then show ?thesis using c(1) g k assms(8)
    by (simp add: coff2noff_loop [OF assms(1,2)] assms(3) for_each_append convert_section_def Let_def program_header_bytes)
qed

subsection \<open>Examples\<close>

text \<open>A program with text and data, and one with contiguous .sbss and .bss.\<close>

definition demo_section :: "string \<Rightarrow> 32 word \<Rightarrow> 32 word \<Rightarrow> 32 word \<Rightarrow> 8 word list" where
  "demo_section name paddr sz scnptr = map of_char name @ replicate (8 - length name) 0 @ word_bytes paddr @
     word_bytes paddr @ word_bytes sz @ word_bytes scnptr @ replicate 16 0"

definition demo_coff :: "8 word list \<Rightarrow> 8 word list \<Rightarrow> host_file" where
  "demo_coff sec1 sec2 = short_bytes MIPSELMAGIC @ short_bytes 2 @ replicate 16 0 @ short_bytes OMAGIC @ replicate 54 0 @
     sec1 @ sec2 @ [7, 0, 1, 36, 12, 0, 0, 0, 1, 2, 3, 4]"

definition demo_object :: host_file where
  "demo_object = demo_coff (demo_section ''.text'' 0 8 156) (demo_section ''.data'' 128 4 164)"

definition demo_bss :: host_file where
  "demo_bss = demo_coff (demo_section ''.sbss'' 256 16 0) (demo_section ''.bss'' 272 32 0)"

lemma list8: "length xs = 8 \<Longrightarrow> \<exists>a b c d e f g h. xs = [a, b, c, d, e, f, g, h]"
  by (auto simp: numeral_eq_Suc length_Suc_conv)

lemma demo_section_read:
  assumes "length name \<le> 8"
  shows "scnhdr_of (demo_section name p z q) = \<lparr>s_name = map of_char name @ replicate (8 - length name) 0,
    s_paddr = p, s_vaddr = p, s_size = z, s_scnptr = q, s_relptr = 0, s_lnnoptr = 0, s_nreloc = 0, s_nlnno = 0, s_flags = 0\<rparr>"
    and "length (demo_section name p z q) = 40"
proof -
  let ?n = "map of_char name @ replicate (8 - length name) (0 :: 8 word)"
  have n: "length ?n = 8" using assms by simp
  obtain a b c d e f g h where abc: "?n = [a, b, c, d, e, f, g, h]"
    using list8 [OF n] by blast
  have d: "demo_section name p z q = [a, b, c, d, e, f, g, h] @ word_bytes p @ word_bytes p @ word_bytes z @ word_bytes q @ replicate 16 0"
    unfolding demo_section_def by (simp add: abc [symmetric])
  have zero: "bytes_word [0, 0, 0, 0] = 0" "bytes_short [0, 0] = 0"
    by (simp_all add: bytes_word_def bytes_short_def)
  show "scnhdr_of (demo_section name p z q) = \<lparr>s_name = ?n,
    s_paddr = p, s_vaddr = p, s_size = z, s_scnptr = q, s_relptr = 0, s_lnnoptr = 0, s_nreloc = 0, s_nlnno = 0, s_flags = 0\<rparr>"
    unfolding d abc by (simp add: scnhdr_of_def word_at_def short_at_def load_word_def load_short_def zero numeral_eq_Suc)
  show "length (demo_section name p z q) = 40" unfolding d by simp
qed

lemma demo_coff_read:
  assumes "length sec1 = 40" and "length sec2 = 40"
  shows "coff_header_ok (demo_coff sec1 sec2)" and "sections_of (demo_coff sec1 sec2) = [scnhdr_of sec1, scnhdr_of sec2]"
    and "drop 156 (demo_coff sec1 sec2) = [7, 0, 1, 36, 12, 0, 0, 0, 1, 2, 3, 4]"
proof -
  let ?f = "demo_coff sec1 sec2"
  have r: "short_at ?f 0 = MIPSELMAGIC" "short_at ?f 2 = 2" "short_at ?f 20 = OMAGIC" "length ?f = 168"
    using assms by (simp_all add: demo_coff_def short_at_def load_short_def)
  show "coff_header_ok ?f" using r by (simp add: coff_header_ok_def)
  have "take 40 (drop 76 ?f) = sec1" "take 40 (drop 116 ?f) = sec2"
    using assms by (simp_all add: demo_coff_def)
  then show "sections_of ?f = [scnhdr_of sec1, scnhdr_of sec2]"
    by (simp add: sections_of_def r upt_rec)
  show "drop 156 ?f = [7, 0, 1, 36, 12, 0, 0, 0, 1, 2, 3, 4]" using assms by (simp add: demo_coff_def)
qed

lemmas demo_simps = kind_of_def name_is_def demo_section_read size_in_def section_bytes_def of_kind_def

lemma demo_object_sections:
  defines "text \<equiv> scnhdr_of (demo_section ''.text'' 0 8 156)"
    and "data \<equiv> scnhdr_of (demo_section ''.data'' 128 4 164)"
  shows "sections_of demo_object = [text, data]" and "of_kind Text [text, data] = [text]"
    and "of_kind Data [text, data] = [data]" and "of_kind Bss [text, data] = []"
    and "section_bytes demo_object text = [7, 0, 1, 36, 12, 0, 0, 0]" and "section_bytes demo_object data = [1, 2, 3, 4]"
proof -
  have d: "drop 156 demo_object = [7, 0, 1, 36, 12, 0, 0, 0, 1, 2, 3, 4]"
    using demo_coff_read(3) [of "demo_section ''.text'' 0 8 156" "demo_section ''.data'' 128 4 164"]
    by (simp add: demo_object_def demo_section_read)
  have "drop 164 demo_object = drop 8 (drop 156 demo_object)" by simp
  then have e: "drop 164 demo_object = [1, 2, 3, 4]" by (simp only: d) simp
  show "sections_of demo_object = [text, data]"
    by (simp add: demo_object_def demo_coff_read demo_section_read(2) text_def data_def)
  show "of_kind Text [text, data] = [text]" "of_kind Data [text, data] = [data]" "of_kind Bss [text, data] = []"
    by (simp_all add: demo_simps text_def data_def)
  show "section_bytes demo_object text = [7, 0, 1, 36, 12, 0, 0, 0]" "section_bytes demo_object data = [1, 2, 3, 4]"
    by (simp_all add: demo_simps text_def data_def d e)
qed

lemma demo_object_convertible: "convertible demo_object 1000" "addresses_fit (sections_of demo_object)"
proof -
  note demo = demo_object_sections
  have h: "coff_header_ok demo_object" by (simp add: demo_object_def demo_coff_read demo_section_read)
  show "convertible demo_object 1000"
    unfolding convertible_def tidy_def contents_size_def demo using h
    by (simp add: section_ok_def demo(5,6) NoffHeaderSize_def) (simp add: demo_simps)
  show "addresses_fit (sections_of demo_object)"
    unfolding addresses_fit_def sections_pages_def size_of_kind_def demo
    by (simp add: demo_section_read UserStackSize_def divRoundUp_nonneg size_defs)
qed


theorem contiguous_bss_rejected_witness:
  "coff2noff 3 (Some demo_bss) 1000 (program_header []) = Inl BothBssAndSbss"
proof -
  let ?s = "scnhdr_of (demo_section ''.sbss'' 256 16 0)" and ?b = "scnhdr_of (demo_section ''.bss'' 272 32 0)"
  have s: "sections_of demo_bss = [?s] @ [?b]" "coff_header_ok demo_bss"
    by (simp_all add: demo_bss_def demo_coff_read demo_section_read(2))
  have k: "of_kind Bss [?s] = [?s]" "of_kind Text [?s] = []" "of_kind Data [?s] = []" "kind_of ?b = Bss" "kind_of ?s = Bss"
    "s_size ?b \<noteq> 0" "s_paddr ?b = s_paddr ?s + s_size ?s" by (simp_all add: demo_simps)
  have "if s_paddr ?b = s_paddr ?s + s_size ?s then coff2noff 3 (Some demo_bss) 1000 (program_header []) = Inl BothBssAndSbss
    else \<exists>out. coff2noff 3 (Some demo_bss) 1000 (program_header []) = Inr out \<and>
      virtualAddr (uninitData (program_header out)) = s_paddr ?s \<and>
      seg_size (uninitData (program_header out)) = s_size ?s + s_size ?b"
    by (rule contiguous_bss_rejected [OF s(2) _ s(1)])
      (use k in \<open>simp_all add: tidy_def section_ok_def contents_size_def NoffHeaderSize_def\<close>)
  then show ?thesis using k(7) by (simp only: if_True)
qed

end
