(* ===== verification/Nachos_Interp.thy ===== *)
theory Nachos_Interp
  imports Nachos_Exec
begin

section \<open>The stand-alone MIPS interpreter: bin/execute.c\<close>

text \<open>
  The second simulator of the repository: it runs a MIPS program without a kernel, in one big \<open>switch\<close> over
  the opcodes of \<open>encode.h\<close>, with the fields of an instruction cut out by the macros of \<open>instr.h\<close> and memory reached by the
  macros of \<open>int.h\<close>. Registers are \<open>int\<close>s, kept as \<open>32 word\<close>s with \<open>signed_drop_bit\<close> for \<open>>>\<close>; a shift by a register whose value
  is not a number of bits is undefined in C, a division by zero traps on the host. The host is little-endian and
  allows unaligned access. The array \<open>mem\<close> may have any length here. \<open>system_trap\<close> of system.c
  is the argument \<open>trap\<close>.
\<close>

unbundle bit_operations_syntax

subsection \<open>Fields and opcodes (instr.h, encode.h)\<close>

definition rd :: "32 word \<Rightarrow> nat" where "rd i = unat (signed_drop_bit 11 i AND 0x1f)"
definition rt :: "32 word \<Rightarrow> nat" where "rt i = unat (signed_drop_bit 16 i AND 0x1f)"
definition rs :: "32 word \<Rightarrow> nat" where "rs i = unat (signed_drop_bit 21 i AND 0x1f)"
definition shamt :: "32 word \<Rightarrow> nat" where "shamt i = unat (signed_drop_bit 6 i AND 0x1f)"

definition immed :: "32 word \<Rightarrow> 32 word" where
  "immed i = (if i AND 0x8000 \<noteq> 0 then i OR (- 0x8000) else i AND 0x7fff)"

datatype normal_opcode = I_SPECIAL | I_BCOND | I_J | I_JAL | I_BEQ | I_BNE | I_BLEZ | I_BGTZ | I_ADDI | I_ADDIU
  | I_SLTI | I_SLTIU | I_ANDI | I_ORI | I_XORI | I_LUI | I_COP0 | I_COP1 | I_COP2 | I_COP3 | I_LB | I_LH | I_LWL
  | I_LW | I_LBU | I_LHU | I_LWR | I_SB | I_SH | I_SWL | I_SW | I_SWR | I_LWC0 | I_LWC1 | I_LWC2 | I_LWC3
  | I_SWC0 | I_SWC1 | I_SWC2 | I_SWC3

datatype special_opcode = I_SLL | I_SRL | I_SRA | I_SLLV | I_SRLV | I_SRAV | I_JR | I_JALR | I_SYSCALL | I_BREAK
  | I_MFHI | I_MTHI | I_MFLO | I_MTLO | I_MULT | I_MULTU | I_DIV | I_DIVU | I_ADD | I_ADDU | I_SUB | I_SUBU
  | I_AND | I_OR | I_XOR | I_NOR | I_SLT | I_SLTU

datatype bcond_opcode = I_BLTZ | I_BGEZ | I_BLTZAL | I_BGEZAL

text \<open>The numbers of the opcodes, which the file writes in octal.\<close>

definition normal_codes :: "(nat \<times> normal_opcode) list" where
  "normal_codes = [(0, I_SPECIAL), (1, I_BCOND), (2, I_J), (3, I_JAL), (4, I_BEQ), (5, I_BNE), (6, I_BLEZ), (7, I_BGTZ),
     (8, I_ADDI), (9, I_ADDIU), (10, I_SLTI), (11, I_SLTIU), (12, I_ANDI), (13, I_ORI), (14, I_XORI), (15, I_LUI),
     (16, I_COP0), (17, I_COP1), (18, I_COP2), (19, I_COP3), (32, I_LB), (33, I_LH), (34, I_LWL), (35, I_LW),
     (36, I_LBU), (37, I_LHU), (38, I_LWR), (40, I_SB), (41, I_SH), (42, I_SWL), (43, I_SW), (46, I_SWR),
     (48, I_LWC0), (49, I_LWC1), (50, I_LWC2), (51, I_LWC3), (56, I_SWC0), (57, I_SWC1), (58, I_SWC2), (59, I_SWC3)]"

definition special_codes :: "(nat \<times> special_opcode) list" where
  "special_codes = [(0, I_SLL), (2, I_SRL), (3, I_SRA), (4, I_SLLV), (6, I_SRLV), (7, I_SRAV), (8, I_JR), (9, I_JALR),
     (12, I_SYSCALL), (13, I_BREAK), (16, I_MFHI), (17, I_MTHI), (18, I_MFLO), (19, I_MTLO), (24, I_MULT), (25, I_MULTU),
     (26, I_DIV), (27, I_DIVU), (32, I_ADD), (33, I_ADDU), (34, I_SUB), (35, I_SUBU), (36, I_AND), (37, I_OR),
     (38, I_XOR), (39, I_NOR), (42, I_SLT), (43, I_SLTU)]"

definition bcond_codes :: "(nat \<times> bcond_opcode) list" where
  "bcond_codes = [(0, I_BLTZ), (1, I_BGEZ), (16, I_BLTZAL), (17, I_BGEZAL)]"

definition normal_op :: "32 word \<Rightarrow> normal_opcode option" where
  "normal_op i = map_of normal_codes (unat (signed_drop_bit 26 i AND 0x3f))"

definition special_op :: "32 word \<Rightarrow> special_opcode option" where
  "special_op i = map_of special_codes (unat (i AND 0x3f))"

definition bcond_op :: "32 word \<Rightarrow> bcond_opcode option" where
  "bcond_op i = map_of bcond_codes (rt i)"

subsection \<open>Registers and memory (execute.c, int.h)\<close>

text \<open>
  The calls that a program makes to the host's system are kept in \<open>sim_calls\<close>, which stands for the state of that
  system (\<open>Nachos_Sim\<close>).
\<close>

datatype sim_call = Sys_read "32 word" "32 word" | Sys_write "32 word" "8 word list" | Sys_open "8 word list" "32 word" "32 word"
  | Sys_lseek "32 word" "32 word" "32 word" | Sys_ioctl "32 word" "32 word" | Sys_fstat "32 word" "32 word" | Sys_getpagesize

record Interp =
  Reg :: "32 word list"
  HI :: "32 word"
  LO :: "32 word"
  mem :: "8 word list"
  sim_calls :: "sim_call list"

definition MEMSIZE :: int where "MEMSIZE = 2 ^ 24"
definition memoffset :: int where "memoffset = 0x10000000"

definition mem_index :: "Interp \<Rightarrow> 32 word \<Rightarrow> nat \<Rightarrow> nat res" where
  "mem_index m addr n = (let k = sint addr - memoffset
     in if 0 \<le> k \<and> nat k + n \<le> length (mem m) then Inr (nat k) else Inl OutOfBounds)"

definition mem_bytes :: "Interp \<Rightarrow> 32 word \<Rightarrow> nat \<Rightarrow> 8 word list res" where
  "mem_bytes m addr n = andThen (mem_index m addr n) (\<lambda>k. Inr (take n (drop k (mem m))))"

definition sim_fetch :: "Interp \<Rightarrow> 32 word \<Rightarrow> 32 word res" where
  "sim_fetch m addr = andThen (mem_bytes m addr 4) (\<lambda>bs. Inr (bytes_word bs))"

definition sfetch :: "Interp \<Rightarrow> 32 word \<Rightarrow> 32 word res" where
  "sfetch m addr = andThen (mem_bytes m addr 2) (\<lambda>bs. Inr (scast (bytes_short bs)))"

definition usfetch :: "Interp \<Rightarrow> 32 word \<Rightarrow> 32 word res" where
  "usfetch m addr = andThen (mem_bytes m addr 2) (\<lambda>bs. Inr (ucast (bytes_short bs)))"

definition cfetch :: "Interp \<Rightarrow> 32 word \<Rightarrow> 32 word res" where
  "cfetch m addr = andThen (mem_bytes m addr 1) (\<lambda>bs. Inr (scast (bs ! 0)))"

definition ucfetch :: "Interp \<Rightarrow> 32 word \<Rightarrow> 32 word res" where
  "ucfetch m addr = andThen (mem_bytes m addr 1) (\<lambda>bs. Inr (ucast (bs ! 0)))"

definition put_bytes :: "Interp \<Rightarrow> 32 word \<Rightarrow> 8 word list \<Rightarrow> Interp res" where
  "put_bytes m addr bs = andThen (mem_index m addr (length bs)) (\<lambda>k. Inr (m\<lparr>mem := overwrite (mem m) k bs\<rparr>))"

definition sim_store :: "Interp \<Rightarrow> 32 word \<Rightarrow> 32 word \<Rightarrow> Interp res" where
  "sim_store m addr v = put_bytes m addr (word_bytes v)"

definition sstore :: "Interp \<Rightarrow> 32 word \<Rightarrow> 32 word \<Rightarrow> Interp res" where
  "sstore m addr v = put_bytes m addr (short_bytes (ucast v))"

definition cstore :: "Interp \<Rightarrow> 32 word \<Rightarrow> 32 word \<Rightarrow> Interp res" where
  "cstore m addr v = put_bytes m addr [ucast v]"

definition setReg :: "nat \<Rightarrow> 32 word \<Rightarrow> Interp \<Rightarrow> Interp" where
  "setReg k v m = m\<lparr>Reg := (Reg m)[k := v]\<rparr>"

subsection \<open>The switch (runprogram)\<close>

text \<open>
  One turn of the loop ends with the new values of \<open>pc\<close> and \<open>npc\<close>, or with \<open>exit\<close>. \<open>xpc\<close> is the address of the
  instruction, \<open>pc\<close> and \<open>npc\<close> are the next two.
\<close>

datatype sim_end = Exits int | Goes "32 word" "32 word" Interp

type_synonym sim_trap = "32 word \<Rightarrow> 32 word \<Rightarrow> Interp \<Rightarrow> sim_end res"

definition unimplemented :: "sim_end res" where "unimplemented = Inr (Exits 2)"

definition shift_by :: "32 word \<Rightarrow> 32 word \<Rightarrow> (nat \<Rightarrow> 32 word) \<Rightarrow> 32 word res" where
  "shift_by v amount f = (if 0 \<le> sint amount \<and> sint amount < 32 then Inr (f (unat amount)) else Inl OutOfBounds)"

text \<open>The high word is put together from the products of halves, each shifted before the sum.\<close>

definition mult_halves :: "32 word \<Rightarrow> 32 word \<Rightarrow> 32 word \<times> 32 word" where
  "mult_halves t1 t2 = (let t1l = t1 AND 0xffff; t1h = signed_drop_bit 16 t1 AND 0xffff;
       t2l = t2 AND 0xffff; t2h = signed_drop_bit 16 t2 AND 0xffff
     in (t1h * t2h + signed_drop_bit 16 (t1h * t2l) + signed_drop_bit 16 (t2h * t1l), t1 * t2))"

definition sim_mult :: "32 word \<Rightarrow> 32 word \<Rightarrow> 32 word \<times> 32 word" where
  "sim_mult a b = (let neg = ((sint a < 0) \<noteq> (sint b < 0));
       t1 = (if sint a < 0 then - a else a); t2 = (if sint b < 0 then - b else b);
       (hi, lo) = mult_halves t1 t2
     in if neg then (let lo1 = NOT lo + 1 in (if lo1 = 0 then NOT hi + 1 else NOT hi, lo1)) else (hi, lo))"

definition sim_div :: "32 word \<Rightarrow> 32 word \<Rightarrow> (32 word \<times> 32 word) res" where
  "sim_div a b = (if b = 0 \<or> (a = SIGN_BIT \<and> b = - 1) then Inl HostTrap
     else Inr (word_of_int (sint a smod sint b), word_of_int (sint a sdiv sint b)))"

definition sim_divu :: "32 word \<Rightarrow> 32 word \<Rightarrow> (32 word \<times> 32 word) res" where
  "sim_divu a b = (if b = 0 then Inl HostTrap else Inr (a mod b, a div b))"

definition sim_special :: "sim_trap \<Rightarrow> 32 word \<Rightarrow> 32 word \<Rightarrow> 32 word \<Rightarrow> 32 word \<Rightarrow> Interp \<Rightarrow> sim_end res" where
  "sim_special trap i xpc pc npc m = (let a = Reg m ! rs i; b = Reg m ! rt i;
       wr = (\<lambda>v. Inr (Goes pc npc (setReg (rd i) v m)));
       hilo = (\<lambda>(h, l). Inr (Goes pc npc (m\<lparr>HI := h, LO := l\<rparr>)))
     in case special_op i of
     Some I_SLL \<Rightarrow> wr (push_bit (shamt i) b)
   | Some I_SRL \<Rightarrow> wr (drop_bit (shamt i) b)
   | Some I_SRA \<Rightarrow> wr (signed_drop_bit (shamt i) b)
   | Some I_SLLV \<Rightarrow> andThen (shift_by b a (\<lambda>n. push_bit n b)) wr
   | Some I_SRLV \<Rightarrow> andThen (shift_by b a (\<lambda>n. drop_bit n b)) wr
   | Some I_SRAV \<Rightarrow> andThen (shift_by b a (\<lambda>n. signed_drop_bit n b)) wr
   | Some I_JR \<Rightarrow> Inr (Goes pc a m)
   | Some I_JALR \<Rightarrow> Inr (Goes pc a (setReg (rd i) (xpc + 8) m))
   | Some I_SYSCALL \<Rightarrow> trap pc npc m
   | Some I_BREAK \<Rightarrow> trap pc npc m
   | Some I_MFHI \<Rightarrow> wr (HI m)
   | Some I_MTHI \<Rightarrow> Inr (Goes pc npc (m\<lparr>HI := a\<rparr>))
   | Some I_MFLO \<Rightarrow> wr (LO m)
   | Some I_MTLO \<Rightarrow> Inr (Goes pc npc (m\<lparr>LO := a\<rparr>))
   | Some I_MULT \<Rightarrow> hilo (sim_mult a b)
   | Some I_MULTU \<Rightarrow> hilo (mult_halves a b)
   | Some I_DIV \<Rightarrow> andThen (sim_div a b) hilo
   | Some I_DIVU \<Rightarrow> andThen (sim_divu a b) hilo
   | Some I_ADD \<Rightarrow> wr (a + b)
   | Some I_ADDU \<Rightarrow> wr (a + b)
   | Some I_SUB \<Rightarrow> wr (a - b)
   | Some I_SUBU \<Rightarrow> wr (a - b)
   | Some I_AND \<Rightarrow> wr (a AND b)
   | Some I_OR \<Rightarrow> wr (a OR b)
   | Some I_XOR \<Rightarrow> wr (a XOR b)
   | Some I_NOR \<Rightarrow> wr (NOT (a OR b))
   | Some I_SLT \<Rightarrow> wr (if sint a < sint b then 1 else 0)
   | Some I_SLTU \<Rightarrow> wr (if a < b then 1 else 0)
   | None \<Rightarrow> unimplemented)"

definition sim_bcond :: "32 word \<Rightarrow> 32 word \<Rightarrow> 32 word \<Rightarrow> 32 word \<Rightarrow> Interp \<Rightarrow> sim_end res" where
  "sim_bcond i xpc pc npc m = (let target = xpc + 4 + push_bit 2 (immed i); linked = setReg 31 (xpc + 8) m
     in case bcond_op i of
     Some I_BLTZ \<Rightarrow> Inr (Goes pc (if sint (Reg m ! rs i) < 0 then target else npc) m)
   | Some I_BGEZ \<Rightarrow> Inr (Goes pc (if sint (Reg m ! rs i) \<ge> 0 then target else npc) m)
   | Some I_BLTZAL \<Rightarrow> Inr (Goes pc (if sint (Reg linked ! rs i) < 0 then target else npc) linked)
   | Some I_BGEZAL \<Rightarrow> Inr (Goes pc (if sint (Reg linked ! rs i) \<ge> 0 then target else npc) linked)
   | None \<Rightarrow> unimplemented)"

definition sim_lwl :: "32 word \<Rightarrow> 32 word \<Rightarrow> 32 word \<Rightarrow> 32 word" where
  "sim_lwl old addr w = (old AND signed_drop_bit (8 * unat (- addr AND 0x03)) (- 1)) OR
     push_bit (8 * unat (addr AND 0x03)) w"

definition sim_lwr :: "32 word \<Rightarrow> 32 word \<Rightarrow> 32 word \<Rightarrow> 32 word" where
  "sim_lwr old addr w = (if addr AND 0x03 = 0 then 0 else old AND push_bit (8 * unat (addr AND 0x03)) (- 1)) OR
     signed_drop_bit (8 * unat (- addr AND 0x03)) w"

definition sim_execute :: "sim_trap \<Rightarrow> 32 word \<Rightarrow> 32 word \<Rightarrow> 32 word \<Rightarrow> 32 word \<Rightarrow> Interp \<Rightarrow> sim_end res" where
  "sim_execute trap i xpc pc npc m = (let a = Reg m ! rs i; b = Reg m ! rt i; addr = a + immed i;
       wr = (\<lambda>v. Inr (Goes pc npc (setReg (rt i) v m)));
       branch = (\<lambda>c. Inr (Goes pc (if c then xpc + 4 + push_bit 2 (immed i) else npc) m));
       jump = (xpc AND 0xf0000000) OR push_bit 2 (i AND 0x03ffffff);
       stored = (\<lambda>m'. Inr (Goes pc npc m'))
     in case normal_op i of
     Some I_SPECIAL \<Rightarrow> sim_special trap i xpc pc npc m
   | Some I_BCOND \<Rightarrow> sim_bcond i xpc pc npc m
   | Some I_J \<Rightarrow> Inr (Goes pc jump m)
   | Some I_JAL \<Rightarrow> Inr (Goes pc jump (setReg 31 (xpc + 8) m))
   | Some I_BEQ \<Rightarrow> branch (a = b)
   | Some I_BNE \<Rightarrow> branch (a \<noteq> b)
   | Some I_BLEZ \<Rightarrow> branch (sint a \<le> 0)
   | Some I_BGTZ \<Rightarrow> branch (sint a > 0)
   | Some I_ADDI \<Rightarrow> wr (a + immed i)
   | Some I_ADDIU \<Rightarrow> wr (a + immed i)
   | Some I_SLTI \<Rightarrow> wr (if sint a < sint (immed i) then 1 else 0)
   | Some I_SLTIU \<Rightarrow> wr (if a < immed i then 1 else 0)
   | Some I_ANDI \<Rightarrow> wr (a AND immed i)
   | Some I_ORI \<Rightarrow> wr (a OR immed i)
   | Some I_XORI \<Rightarrow> wr (a XOR immed i)
   | Some I_LUI \<Rightarrow> wr (push_bit 16 i)
   | Some I_LB \<Rightarrow> andThen (cfetch m addr) wr
   | Some I_LH \<Rightarrow> andThen (sfetch m addr) wr
   | Some I_LWL \<Rightarrow> andThen (sim_fetch m (addr AND 0xfffffffc)) (\<lambda>w. wr (sim_lwl b addr w))
   | Some I_LW \<Rightarrow> andThen (sim_fetch m addr) wr
   | Some I_LBU \<Rightarrow> andThen (ucfetch m addr) wr
   | Some I_LHU \<Rightarrow> andThen (usfetch m addr) wr
   | Some I_LWR \<Rightarrow> andThen (sim_fetch m (addr AND 0xfffffffc)) (\<lambda>w. wr (sim_lwr b addr w))
   | Some I_SB \<Rightarrow> andThen (cstore m addr b) stored
   | Some I_SH \<Rightarrow> andThen (sstore m addr b) stored
   | Some I_SW \<Rightarrow> andThen (sim_store m addr b) stored
   | _ \<Rightarrow> unimplemented)"

text \<open>One turn of the loop, and the loop itself, which ends only with \<open>exit\<close>.\<close>

definition sim_turn :: "sim_trap \<Rightarrow> 32 word \<Rightarrow> 32 word \<Rightarrow> Interp \<Rightarrow> sim_end res" where
  "sim_turn trap pc npc m = andThen (sim_fetch m pc) (\<lambda>instr. let m1 = setReg 0 0 m in
     if instr \<noteq> 0 then sim_execute trap instr pc npc (npc + 4) m1 else Inr (Goes npc (npc + 4) m1))"

fun sim_loop :: "nat \<Rightarrow> sim_trap \<Rightarrow> 32 word \<Rightarrow> 32 word \<Rightarrow> Interp \<Rightarrow> int res" where
  "sim_loop 0 trap pc npc m = Inl Diverges"
| "sim_loop (Suc n) trap pc npc m = andThen (sim_turn trap pc npc m) (\<lambda>out. case out of
     Exits result \<Rightarrow> Inr result
   | Goes pc' npc' m' \<Rightarrow> sim_loop n trap pc' npc' m')"

text \<open>The arguments of the program, above the stack: \<open>argc\<close>, the pointers, the strings.\<close>

fun put_args :: "32 word \<Rightarrow> 32 word \<Rightarrow> 8 word list list \<Rightarrow> Interp \<Rightarrow> Interp res" where
  "put_args aci ai [] m = Inr m"
| "put_args aci ai (arg # args) m = andThen (put_bytes m ai (arg @ [0])) (\<lambda>m1.
     andThen (sim_store m1 aci ai) (put_args (aci + 4) (ai + of_nat (length arg) + 1) args))"

definition runprogram :: "nat \<Rightarrow> sim_trap \<Rightarrow> 32 word \<Rightarrow> 8 word list list \<Rightarrow> Interp \<Rightarrow> int res" where
  "runprogram n trap startpc argv m = (let i = word_of_int (MEMSIZE - 1024 + memoffset)
     in andThen (sim_store (setReg 29 i m) i (of_nat (length argv))) (\<lambda>m1.
        andThen (put_args (i + 4) (i + 36) argv m1) (sim_loop n trap startpc (startpc + 4))))"

subsection \<open>Both simulators decode the same instructions\<close>

fun normal_name :: "normal_opcode \<Rightarrow> OpCode" where
  "normal_name I_SPECIAL = SPECIAL" | "normal_name I_BCOND = BCOND" | "normal_name I_J = OP_J"
| "normal_name I_JAL = OP_JAL" | "normal_name I_BEQ = OP_BEQ" | "normal_name I_BNE = OP_BNE"
| "normal_name I_BLEZ = OP_BLEZ" | "normal_name I_BGTZ = OP_BGTZ" | "normal_name I_ADDI = OP_ADDI"
| "normal_name I_ADDIU = OP_ADDIU" | "normal_name I_SLTI = OP_SLTI" | "normal_name I_SLTIU = OP_SLTIU"
| "normal_name I_ANDI = OP_ANDI" | "normal_name I_ORI = OP_ORI" | "normal_name I_XORI = OP_XORI"
| "normal_name I_LUI = OP_LUI" | "normal_name I_LB = OP_LB" | "normal_name I_LH = OP_LH"
| "normal_name I_LWL = OP_LWL" | "normal_name I_LW = OP_LW" | "normal_name I_LBU = OP_LBU"
| "normal_name I_LHU = OP_LHU" | "normal_name I_LWR = OP_LWR" | "normal_name I_SB = OP_SB"
| "normal_name I_SH = OP_SH" | "normal_name I_SWL = OP_SWL" | "normal_name I_SW = OP_SW"
| "normal_name I_SWR = OP_SWR" | "normal_name _ = OP_UNIMP"

fun special_name :: "special_opcode \<Rightarrow> OpCode" where
  "special_name I_SLL = OP_SLL" | "special_name I_SRL = OP_SRL" | "special_name I_SRA = OP_SRA"
| "special_name I_SLLV = OP_SLLV" | "special_name I_SRLV = OP_SRLV" | "special_name I_SRAV = OP_SRAV"
| "special_name I_JR = OP_JR" | "special_name I_JALR = OP_JALR" | "special_name I_SYSCALL = OP_SYSCALL"
| "special_name I_BREAK = OP_UNIMP" | "special_name I_MFHI = OP_MFHI" | "special_name I_MTHI = OP_MTHI"
| "special_name I_MFLO = OP_MFLO" | "special_name I_MTLO = OP_MTLO" | "special_name I_MULT = OP_MULT"
| "special_name I_MULTU = OP_MULTU" | "special_name I_DIV = OP_DIV" | "special_name I_DIVU = OP_DIVU"
| "special_name I_ADD = OP_ADD" | "special_name I_ADDU = OP_ADDU" | "special_name I_SUB = OP_SUB"
| "special_name I_SUBU = OP_SUBU" | "special_name I_AND = OP_AND" | "special_name I_OR = OP_OR"
| "special_name I_XOR = OP_XOR" | "special_name I_NOR = OP_NOR" | "special_name I_SLT = OP_SLT"
| "special_name I_SLTU = OP_SLTU"

fun bcond_name :: "bcond_opcode \<Rightarrow> OpCode" where
  "bcond_name I_BLTZ = OP_BLTZ" | "bcond_name I_BGEZ = OP_BGEZ" | "bcond_name I_BLTZAL = OP_BLTZAL"
| "bcond_name I_BGEZAL = OP_BGEZAL"

definition named :: "('a \<Rightarrow> OpCode) \<Rightarrow> OpCode \<Rightarrow> 'a option \<Rightarrow> OpCode" where
  "named name otherwise x = (case x of None \<Rightarrow> otherwise | Some opc \<Rightarrow> name opc)"

text \<open>The opcode of an instruction word as the interpreter of bin sees it, in the names of mipssim.h.\<close>

definition interp_opcode :: "32 word \<Rightarrow> OpCode" where
  "interp_opcode w = (case normal_op w of
     Some I_SPECIAL \<Rightarrow> named special_name OP_RES (special_op w)
   | Some I_BCOND \<Rightarrow> named bcond_name OP_UNIMP (bcond_op w)
   | opc \<Rightarrow> named normal_name OP_RES opc)"

lemma opTable_normal: "k < 64 \<Longrightarrow> fst (opTable ! k) = named normal_name OP_RES (map_of normal_codes k)"
proof -
  have "list_all (\<lambda>k. fst (opTable ! k) = named normal_name OP_RES (map_of normal_codes k)) [0..<64]" by code_simp
  then show "k < 64 \<Longrightarrow> fst (opTable ! k) = named normal_name OP_RES (map_of normal_codes k)"
    by (simp add: list_all_length)
qed

lemma specialTable_special: "k < 64 \<Longrightarrow> specialTable ! k = named special_name OP_RES (map_of special_codes k)"
proof -
  have "list_all (\<lambda>k. specialTable ! k = named special_name OP_RES (map_of special_codes k)) [0..<64]" by code_simp
  then show "k < 64 \<Longrightarrow> specialTable ! k = named special_name OP_RES (map_of special_codes k)"
    by (simp add: list_all_length)
qed

text \<open>The fields: the arithmetic shift makes no difference under the masks.\<close>

lemma bit_small_masks:
  "bit (0x1f :: 32 word) n \<longleftrightarrow> n < 5" "bit (0x3f :: 32 word) n \<longleftrightarrow> n < 6" "bit (0xffff :: 32 word) n \<longleftrightarrow> n < 16"
  "bit (0x7fff :: 32 word) n \<longleftrightarrow> n < 15" "bit (0x8000 :: 32 word) n \<longleftrightarrow> n = 15" "bit (0x3ffffff :: 32 word) n \<longleftrightarrow> n < 26"
  "bit (0xffff0000 :: 32 word) n \<longleftrightarrow> 16 \<le> n \<and> n < 32" "bit (0xffff8000 :: 32 word) n \<longleftrightarrow> 15 \<le> n \<and> n < 32"
  "bit (0x1f0000 :: 32 word) n \<longleftrightarrow> 16 \<le> n \<and> n < 21" "bit (0xf0000000 :: 32 word) n \<longleftrightarrow> 28 \<le> n \<and> n < 32"
proof -
  have m: "(0x1f :: 32 word) = mask 5" "(0x3f :: 32 word) = mask 6" "(0xffff :: 32 word) = mask 16"
    "(0x7fff :: 32 word) = mask 15" "(0x3ffffff :: 32 word) = mask 26"
    "(0xffff0000 :: 32 word) = push_bit 16 (mask 16)" "(0xffff8000 :: 32 word) = push_bit 15 (mask 17)"
    "(0x1f0000 :: 32 word) = push_bit 16 (mask 5)" "(0xf0000000 :: 32 word) = push_bit 28 (mask 4)"
    by (simp_all add: mask_eq_exp_minus_1 push_bit_eq_mult)
  show "bit (0x1f :: 32 word) n \<longleftrightarrow> n < 5" "bit (0x3f :: 32 word) n \<longleftrightarrow> n < 6" "bit (0xffff :: 32 word) n \<longleftrightarrow> n < 16"
    "bit (0x7fff :: 32 word) n \<longleftrightarrow> n < 15" "bit (0x3ffffff :: 32 word) n \<longleftrightarrow> n < 26"
    "bit (0xffff0000 :: 32 word) n \<longleftrightarrow> 16 \<le> n \<and> n < 32" "bit (0xffff8000 :: 32 word) n \<longleftrightarrow> 15 \<le> n \<and> n < 32"
    "bit (0x1f0000 :: 32 word) n \<longleftrightarrow> 16 \<le> n \<and> n < 21" "bit (0xf0000000 :: 32 word) n \<longleftrightarrow> 28 \<le> n \<and> n < 32"
    unfolding m by (auto simp: bit_simps simp del: push_bit_mask_eq)
  show "bit (0x8000 :: 32 word) n \<longleftrightarrow> n = 15"
    using bit_exp_iff [where 'a = "32 word", of 15 n] by auto
qed

lemma bit_sar: "n + k < 32 \<Longrightarrow> bit (signed_drop_bit k (w :: 32 word)) n \<longleftrightarrow> bit w (k + n)"
proof -
  assume "n + k < 32"
  then have "\<not> LENGTH(32) - k \<le> n" by simp
  then show "bit (signed_drop_bit k w) n \<longleftrightarrow> bit w (k + n)" by (simp only: bit_signed_drop_bit_iff) simp
qed

lemma sar_field:
  "signed_drop_bit 6 w AND 0x1f = drop_bit 6 w AND (0x1f :: 32 word)"
  "signed_drop_bit 11 w AND 0x1f = drop_bit 11 w AND (0x1f :: 32 word)"
  "signed_drop_bit 16 w AND 0x1f = drop_bit 16 w AND (0x1f :: 32 word)"
  "signed_drop_bit 21 w AND 0x1f = drop_bit 21 w AND (0x1f :: 32 word)"
  "signed_drop_bit 26 w AND 0x3f = drop_bit 26 w AND (0x3f :: 32 word)"
  by (rule bit_word_eqI, simp only: bit_and_iff bit_small_masks, auto simp: bit_sar bit_drop_bit_eq)+

lemma field_less [simp]: "rd w < 32" "rt w < 32" "rs w < 32" "shamt w < 32"
  by (simp_all add: rd_def rt_def rs_def shamt_def field_bounds)

lemma opTable_format: "k < 64 \<Longrightarrow> snd (opTable ! k) = (case map_of normal_codes k of
    Some I_SPECIAL \<Rightarrow> RFMT | Some I_J \<Rightarrow> JFMT | Some I_JAL \<Rightarrow> JFMT | _ \<Rightarrow> IFMT)"
proof -
  have "list_all (\<lambda>k. snd (opTable ! k) = (case map_of normal_codes k of
    Some I_SPECIAL \<Rightarrow> RFMT | Some I_J \<Rightarrow> JFMT | Some I_JAL \<Rightarrow> JFMT | _ \<Rightarrow> IFMT)) [0..<64]" by code_simp
  then show "k < 64 \<Longrightarrow> snd (opTable ! k) = (case map_of normal_codes k of
    Some I_SPECIAL \<Rightarrow> RFMT | Some I_J \<Rightarrow> JFMT | Some I_JAL \<Rightarrow> JFMT | _ \<Rightarrow> IFMT)"
    by (simp add: list_all_length)
qed

lemma normal_name_special: "named normal_name OP_RES x = SPECIAL \<longleftrightarrow> x = Some I_SPECIAL"
  "named normal_name OP_RES x = BCOND \<longleftrightarrow> x = Some I_BCOND"
proof -
  have "normal_name y = SPECIAL \<longleftrightarrow> y = I_SPECIAL" "normal_name y = BCOND \<longleftrightarrow> y = I_BCOND" for y by (cases y; simp)+
  then show "named normal_name OP_RES x = SPECIAL \<longleftrightarrow> x = Some I_SPECIAL"
    "named normal_name OP_RES x = BCOND \<longleftrightarrow> x = Some I_BCOND" by (simp_all add: named_def split: option.split)
qed

lemma rt_field: "unat (w AND 0x1f0000 :: 32 word) = rt w * 65536"
proof -
  have "w AND 0x1f0000 = push_bit 16 (drop_bit 16 w AND 0x1f)"
    by (rule bit_word_eqI, simp only: bit_and_iff bit_small_masks bit_push_bit_iff) (auto simp: bit_drop_bit_eq)
  moreover have "unat (drop_bit 16 w AND 0x1f) * 65536 < 2 ^ 32" using field_bounds(1) [of "drop_bit 16 w"] by simp
  ultimately show ?thesis
    by (simp add: rt_def sar_field push_bit_eq_mult unat_word_ariths)
qed

lemma bcond_decoded:
  "(let i = w AND 0x1f0000 in if i = 0 then OP_BLTZ else if i = 0x10000 then OP_BGEZ
      else if i = 0x100000 then OP_BLTZAL else if i = 0x110000 then OP_BGEZAL else OP_UNIMP) =
   named bcond_name OP_UNIMP (bcond_op w)"
proof -
  have "w AND 0x1f0000 = 0 \<longleftrightarrow> rt w = 0" "w AND 0x1f0000 = 0x10000 \<longleftrightarrow> rt w = 1" "w AND 0x1f0000 = 0x100000 \<longleftrightarrow> rt w = 16"
    "w AND 0x1f0000 = 0x110000 \<longleftrightarrow> rt w = 17"
    using rt_field [of w] by (auto simp: word_unat_eq_iff)
  then show ?thesis by (simp add: Let_def bcond_op_def bcond_codes_def named_def)
qed

lemma sign_15: "(w :: 32 word) AND 0x8000 \<noteq> 0 \<longleftrightarrow> bit w 15"
  by (subst bit_eq_iff) (simp only: bit_and_iff bit_small_masks bit_0_eq, auto)

lemma immed_extends: "immed w = (let extra = w AND 0xffff in if extra AND 0x8000 \<noteq> 0 then extra OR 0xffff0000 else extra)"
proof -
  have b: "(w AND 0xffff) AND 0x8000 = w AND 0x8000" "- 0x8000 = (0xffff8000 :: 32 word)"
    by (rule bit_word_eqI, simp only: bit_and_iff bit_small_masks, auto)
  have "bit w 15 \<Longrightarrow> w OR 0xffff8000 = (w AND 0xffff) OR 0xffff0000"
    by (rule bit_word_eqI, simp only: bit_and_iff bit_or_iff bit_small_masks) (auto simp: le_eq_less_or_eq)
  moreover have "\<not> bit w 15 \<Longrightarrow> w AND 0x7fff = w AND 0xffff"
    by (rule bit_word_eqI, simp only: bit_and_iff bit_or_iff bit_small_masks) (auto simp: less_Suc_eq numeral_eq_Suc)
  ultimately show ?thesis unfolding immed_def Let_def b sign_15 [of w] by simp
qed

lemma Decode_interp:
  "i_opCode (Decode w) = interp_opcode w" "i_rs (Decode w) = rs w" "i_rt (Decode w) = rt w" "i_rd (Decode w) = rd w"
  "i_extra (Decode w) = (case normal_op w of Some I_SPECIAL \<Rightarrow> word_of_nat (shamt w)
     | Some I_J \<Rightarrow> w AND 0x03ffffff | Some I_JAL \<Rightarrow> w AND 0x03ffffff | _ \<Rightarrow> immed w)"
proof -
  define k where "k = unat (drop_bit 26 w AND 0x3f)"
  have k: "k < 64" "normal_op w = map_of normal_codes k"
    by (simp_all add: k_def field_bounds normal_op_def sar_field)
  obtain opc f where e: "opTable ! k = (opc, f)" by fastforce
  have opc: "opc = named normal_name OP_RES (normal_op w)" and
    f: "f = (case normal_op w of Some I_SPECIAL \<Rightarrow> RFMT | Some I_J \<Rightarrow> JFMT | Some I_JAL \<Rightarrow> JFMT | _ \<Rightarrow> IFMT)"
    using opTable_normal [OF k(1)] opTable_format [OF k(1)] by (simp_all add: e k(2))
  have sp: "specialTable ! unat (w AND 0x3f) = named special_name OP_RES (special_op w)"
    unfolding special_op_def by (rule specialTable_special [OF field_bounds(2)])
  have d: "i_opCode (Decode w) = (if opc = SPECIAL then named special_name OP_RES (special_op w)
      else if opc = BCOND then named bcond_name OP_UNIMP (bcond_op w) else opc)"
    by (simp add: Decode_def e [unfolded k_def] sp bcond_decoded [unfolded Let_def] Let_def)
  show "i_opCode (Decode w) = interp_opcode w"
    unfolding d opc normal_name_special by (auto simp: interp_opcode_def split: option.split normal_opcode.split)
  show "i_rs (Decode w) = rs w" "i_rt (Decode w) = rt w" "i_rd (Decode w) = rd w"
    by (simp_all add: Decode_def e [unfolded k_def] Let_def rs_def rt_def rd_def sar_field)
  have "drop_bit 6 w AND 0x1f = word_of_nat (shamt w)" by (simp add: shamt_def sar_field)
  then have "i_extra (Decode w) = (case f of IFMT \<Rightarrow> immed w | RFMT \<Rightarrow> word_of_nat (shamt w) | JFMT \<Rightarrow> w AND 0x03ffffff)"
    by (simp add: Decode_def e [unfolded k_def] Let_def immed_extends split: Format.split)
  then show "i_extra (Decode w) = (case normal_op w of Some I_SPECIAL \<Rightarrow> word_of_nat (shamt w)
     | Some I_J \<Rightarrow> w AND 0x03ffffff | Some I_JAL \<Rightarrow> w AND 0x03ffffff | _ \<Rightarrow> immed w)"
    unfolding f by (simp split: option.split normal_opcode.split)
qed

subsection \<open>Both simulators execute alike\<close>

text \<open>
  \<open>matches\<close>: the same general registers, but for register 0, and the same \<open>HI\<close> and \<open>LO\<close>. \<open>same_effect\<close>: the instructions and
  operands for which the two simulators do the same. What is excluded are the differences: loads, which mipssim.cc
  delays; stores and traps, which go to different memories and systems; \<open>OR\<close> and the logical right shifts, which mipssim.cc
  gets wrong; immediate operands of \<open>ANDI\<close>, \<open>ORI\<close> and \<open>XORI\<close>, which execute.c extends with their sign; products of large
  numbers, of which execute.c loses carries; overflow and division by zero; shifts by more than the width; and
  jumps in the delay slot of a jump.
\<close>

definition matches :: "Interp \<Rightarrow> 'a MachineState_scheme \<Rightarrow> bool" where
  "matches m s \<longleftrightarrow> length (Reg m) = 32 \<and> length (registers s) = NumTotalRegs \<and>
     (\<forall>k. 0 < k \<longrightarrow> k < 32 \<longrightarrow> Reg m ! k = reg s k) \<and> HI m = reg s HiReg \<and> LO m = reg s LoReg"

definition same_effect :: "32 word \<Rightarrow> (nat \<Rightarrow> 32 word) \<Rightarrow> bool" where
  "same_effect w r = (let a = r (rs w); b = r (rt w); pc = r PCReg; straight = (r NextPCReg = pc + 4)
     in case interp_opcode w of
     OP_OR \<Rightarrow> a OR b = a
   | OP_SRL \<Rightarrow> 0 \<le> sint b \<or> shamt w = 0
   | OP_SLLV \<Rightarrow> 0 \<le> sint a \<and> sint a < 32
   | OP_SRAV \<Rightarrow> 0 \<le> sint a \<and> sint a < 32
   | OP_SRLV \<Rightarrow> 0 \<le> sint a \<and> sint a < 32 \<and> (0 \<le> sint b \<or> a = 0)
   | OP_ANDI \<Rightarrow> \<not> bit w 15
   | OP_ORI \<Rightarrow> \<not> bit w 15
   | OP_XORI \<Rightarrow> \<not> bit w 15
   | OP_MULTU \<Rightarrow> uint a < 2 ^ 16 \<and> uint b < 2 ^ 16
   | OP_MULT \<Rightarrow> \<bar>sint a\<bar> < 2 ^ 16 \<and> \<bar>sint b\<bar> < 2 ^ 16
   | OP_DIV \<Rightarrow> b \<noteq> 0 \<and> \<not> (a = SIGN_BIT \<and> b = - 1)
   | OP_DIVU \<Rightarrow> b \<noteq> 0
   | OP_ADD \<Rightarrow> fits (sint a + sint b)
   | OP_ADDI \<Rightarrow> fits (sint a + sint (immed w))
   | OP_SUB \<Rightarrow> fits (sint a - sint b)
   | OP_J \<Rightarrow> (r NextPCReg + 4) AND 0xf0000000 = pc AND 0xf0000000
   | OP_JAL \<Rightarrow> straight \<and> (pc + 8) AND 0xf0000000 = pc AND 0xf0000000
   | OP_JALR \<Rightarrow> straight \<and> rs w \<noteq> rd w
   | _ \<Rightarrow> (interp_opcode w \<in> {OP_BEQ, OP_BNE, OP_BLEZ, OP_BGTZ, OP_BLTZ, OP_BGEZ, OP_BLTZAL, OP_BGEZAL} \<and> straight) \<or>
       interp_opcode w \<in> {OP_SLL, OP_SRA, OP_JR, OP_MFHI, OP_MTHI, OP_MFLO, OP_MTLO, OP_ADDU, OP_SUBU, OP_AND, OP_XOR,
         OP_NOR, OP_SLT, OP_SLTU, OP_ADDIU, OP_SLTI, OP_SLTIU, OP_LUI})"

definition keeps_pcs :: "'a MachineState_scheme \<Rightarrow> 'a MachineState_scheme \<Rightarrow> bool" where
  "keeps_pcs s s' \<longleftrightarrow> (\<forall>k \<in> {34..<40}. reg s' k = reg s k)"

definition same_result :: "'a executed \<Rightarrow> sim_end res \<Rightarrow> Interp \<Rightarrow> 'a MachineState_scheme \<Rightarrow> bool" where
  "same_result out sim m s \<longleftrightarrow> (\<exists>pcAfter s' m'. out = Inr (Completed pcAfter 0 0 s') \<and>
     sim = Inr (Goes (reg s NextPCReg) pcAfter m') \<and> matches m' s' \<and> keeps_pcs s s' \<and> mem m' = mem m)"

lemma same_result_iff [simp]: "same_result (Inr (Completed p d v s')) (Inr (Goes q p' m')) m s \<longleftrightarrow>
    d = 0 \<and> v = 0 \<and> q = reg s NextPCReg \<and> p' = p \<and> matches m' s' \<and> keeps_pcs s s' \<and> mem m' = mem m"
  by (auto simp: same_result_def)

lemma matches_writes:
  "matches m s \<Longrightarrow> d < 32 \<Longrightarrow> matches (setReg d v m) (set_reg d v s)"
  "matches m s \<Longrightarrow> matches (m\<lparr>HI := h\<rparr>) (set_reg HiReg h s)"
  "matches m s \<Longrightarrow> matches (m\<lparr>LO := l\<rparr>) (set_reg LoReg l s)"
  "matches m s \<Longrightarrow> matches (m\<lparr>HI := h, LO := l\<rparr>) (set_reg LoReg l (set_reg HiReg h s))"
  by (auto simp: matches_def setReg_def set_reg_def reg_def reg_defs nth_list_update)

lemma setReg_mem [simp]: "mem (setReg d v m) = mem m"
  by (simp add: setReg_def)

lemma keeps_pcs_writes:
  "keeps_pcs s s" "d < 32 \<Longrightarrow> keeps_pcs s (set_reg d v s)" "keeps_pcs s (set_reg LoReg l (set_reg HiReg h s))"
  "keeps_pcs s (set_reg HiReg h s)" "keeps_pcs s (set_reg LoReg l s)"
  by (auto simp: keeps_pcs_def set_reg_def reg_def reg_defs nth_list_update)

text \<open>Small products.\<close>

lemma small_halves:
  assumes "uint a < 2 ^ 16" and "uint b < 2 ^ 16"
  shows "mult_halves a b = (0, a * b)" and "multLoop 32 a 0 b 0 0 = (0, a * b)"
proof -
  have z: "signed_drop_bit 16 x AND 0xffff = 0" if "uint x < 2 ^ 16" for x :: "32 word"
  proof (rule bit_word_eqI)
    fix n :: nat assume "n < LENGTH(32)"
    have "drop_bit 16 x = 0" using that by (simp add: word_uint_eq_iff drop_bit_eq_div uint_div)
    then have "\<not> bit x (16 + n)" for n by (metis bit_0_eq bit_drop_bit_eq bot_apply bot_bool_def comp_apply)
    then show "bit (signed_drop_bit 16 x AND 0xffff) n \<longleftrightarrow> bit 0 n"
      by (simp only: bit_and_iff bit_small_masks) (auto simp: bit_sar)
  qed
  show "mult_halves a b = (0, a * b)" by (simp add: mult_halves_def Let_def z [OF assms(1)] z [OF assms(2)])
  obtain hi lo where hl: "multLoop 32 a 0 b 0 0 = (hi, lo)" by fastforce
  have "uint a * uint b < 2 ^ 16 * 2 ^ 16" using assms by (intro mult_strict_mono') simp_all
  then have small: "uint a * uint b < W" "0 \<le> uint a * uint b" by (simp_all add: W_def)
  have p: "uint hi * W + uint lo = uint a * uint b"
    using multLoop_product [of a b] by (simp add: hl pair_def)
  have "uint hi = 0"
  proof (rule ccontr)
    assume "uint hi \<noteq> 0"
    then have "1 \<le> uint hi" using uint_W(1) [of hi] by linarith
    then have "1 * W \<le> uint hi * W" using W_pos by (intro mult_right_mono) simp_all
    then have "W \<le> uint hi * W" by (simp only: mult_1)
    then show False using p small(1) uint_W(1) [of lo] by linarith
  qed
  moreover from this have "lo = a * b" using p small by (simp add: word_uint_eq_iff uint_word_ariths W_def)
  ultimately show "multLoop 32 a 0 b 0 0 = (0, a * b)" by (simp add: hl word_uint_eq_iff)
qed

lemma small_products:
  "uint a < 2 ^ 16 \<Longrightarrow> uint b < 2 ^ 16 \<Longrightarrow> mult_halves a b = Mult a b False"
  "\<bar>sint a\<bar> < 2 ^ 16 \<Longrightarrow> \<bar>sint b\<bar> < 2 ^ 16 \<Longrightarrow> sim_mult a b = Mult a b True"
proof -
  show "uint a < 2 ^ 16 \<Longrightarrow> uint b < 2 ^ 16 \<Longrightarrow> mult_halves a b = Mult a b False"
    by (auto simp: small_halves Mult_def Let_def)
  assume ab: "\<bar>sint a\<bar> < 2 ^ 16" "\<bar>sint b\<bar> < 2 ^ 16"
  let ?a = "if sint a < 0 then - a else a" and ?b = "if sint b < 0 then - b else b"
  have u: "uint ?a < 2 ^ 16" "uint ?b < 2 ^ 16" unfolding uint_abs using ab .
  have z: "?a * ?b = 0" if "a = 0 \<or> b = 0" using that by auto
  show "sim_mult a b = Mult a b True"
    unfolding sim_mult_def Mult_def Let_def small_halves(1) [OF u] using small_halves(2) [OF u] z by auto
qed

text \<open>The two halves of the \<open>switch\<close>.\<close>

lemmas step_simps = execute_def exec_alu_def orElse_def exec_immediate_def exec_move_def exec_logic_def
  exec_shift_def exec_compare_def exec_overflow_def exec_muldiv_def exec_branch_def

lemma sign_bit_31: "sint (a :: 32 word) < 0 \<longleftrightarrow> a AND SIGN_BIT \<noteq> 0"
  using sign_test [of a] by auto

lemma logical_shift: "0 \<le> sint (b :: 32 word) \<Longrightarrow> signed_drop_bit n b = drop_bit n b"
proof (rule bit_word_eqI)
  assume b: "0 \<le> sint b"
  then have "\<not> bit b 31" using bit_31 [of b] uint_W(2) [of b] by (auto simp: sint_uint_W split: if_splits)
  then show "bit (signed_drop_bit n b) k \<longleftrightarrow> bit (drop_bit n b) k" if "k < LENGTH(32)" for k
    using that by (auto simp: bit_signed_drop_bit_iff bit_drop_bit_eq dest: bit_imp_le_length)
qed

lemma small_amount: "0 \<le> sint (a :: 32 word) \<Longrightarrow> sint a < 32 \<Longrightarrow> unat (a AND 0x1f) = unat a"
proof -
  assume "0 \<le> sint a" "sint a < 32"
  then have "uint a < 32" using uint_W(2) [of a] by (auto simp: sint_uint_W split: if_splits)
  then have "a AND mask 5 = a" by (intro mask_eq_iff [THEN iffD2]) simp
  then show ?thesis by (simp add: mask_eq_exp_minus_1)
qed

lemma special_agrees:
  assumes m: "matches m s" and r: "\<forall>k<32. Reg m ! k = reg s k" and n: "normal_op w = Some I_SPECIAL"
    and e: "same_effect w (reg s)"
  shows "same_result (execute eh (Decode w) (reg s NextPCReg + 4) s)
    (sim_special trap w (reg s PCReg) (reg s NextPCReg) (reg s NextPCReg + 4) m) m s"
proof (cases "special_op w")
  case None
  then show ?thesis using e by (simp add: same_effect_def interp_opcode_def n named_def Let_def)
next
  case (Some x)
  have i: "interp_opcode w = special_name x" by (simp add: interp_opcode_def n named_def Some)
  have d: "i_opCode (Decode w) = special_name x" "i_rs (Decode w) = rs w" "i_rt (Decode w) = rt w" "i_rd (Decode w) = rd w"
    "i_extra (Decode w) = word_of_nat (shamt w)" by (simp_all add: Decode_interp i n)
  have v: "Reg m ! rs w = reg s (rs w)" "Reg m ! rt w = reg s (rt w)" "HI m = reg s HiReg" "LO m = reg s LoReg"
    using r m by (simp_all add: matches_def)
  have sh: "unat (word_of_nat (shamt w) :: 32 word) = shamt w" by (simp add: unat_of_nat mod_less less_trans [OF field_less(4)])
  have ovf: "(a XOR b) AND SIGN_BIT = 0 \<and> (a XOR a + b) AND SIGN_BIT \<noteq> 0 \<longleftrightarrow> \<not> fits (sint a + sint b)"
    "(a XOR b) AND SIGN_BIT \<noteq> 0 \<and> (a XOR a - b) AND SIGN_BIT \<noteq> 0 \<longleftrightarrow> \<not> fits (sint a - sint b)"
    for a b :: "32 word"
    using add_overflow [of a b] sub_overflow [of a b] by (auto simp: sign_xor)
  note w = m matches_writes [OF m] keeps_pcs_writes
  note eff = e [unfolded same_effect_def Let_def i]
  show ?thesis using eff
    by (cases x) (auto simp add: step_simps sim_special_def Let_def Some d v sh w shift_by_def small_amount logical_shift
        small_products sim_div_def sim_divu_def ovf add.commute [of 8 "reg s PCReg"] split: prod.split)
qed

lemma bcond_agrees:
  assumes m: "matches m s" and r: "\<forall>k<32. Reg m ! k = reg s k" and n: "normal_op w = Some I_BCOND"
    and e: "same_effect w (reg s)"
  shows "same_result (execute eh (Decode w) (reg s NextPCReg + 4) s)
    (sim_bcond w (reg s PCReg) (reg s NextPCReg) (reg s NextPCReg + 4) m) m s"
proof (cases "bcond_op w")
  case None
  then show ?thesis using e by (simp add: same_effect_def interp_opcode_def n named_def Let_def)
next
  case (Some x)
  have i: "interp_opcode w = bcond_name x" by (simp add: interp_opcode_def n named_def Some)
  have d: "i_opCode (Decode w) = bcond_name x" "i_rs (Decode w) = rs w" "i_rt (Decode w) = rt w" "i_rd (Decode w) = rd w"
    "i_extra (Decode w) = immed w" by (simp_all add: Decode_interp i n)
  have v: "Reg m ! rs w = reg s (rs w)" "length (Reg m) = 32" using r m by (simp_all add: matches_def)
  have npc: "reg s NextPCReg = reg s PCReg + 4"
    using e by (cases x) (simp_all add: same_effect_def Let_def i)
  have l: "Reg (setReg 31 l m) ! rs w = (if rs w = 31 then l else reg s (rs w))" for l
    using v by (simp add: setReg_def nth_list_update)
  note w = m matches_writes [OF m] keeps_pcs_writes
  show ?thesis
    by (cases x) (auto simp add: step_simps sim_bcond_def Let_def Some d v l w npc sign_test R31_def IndexToAddr_def
        add.commute [of 8 "reg s PCReg"])
qed

lemma jump_target: "push_bit 2 (w AND 0x03ffffff) = IndexToAddr (w AND 0x03ffffff)"
  by (simp add: IndexToAddr_def)

lemma positive_immediate: "\<not> bit w 15 \<Longrightarrow> immed w AND 0xffff = immed w"
proof -
  assume "\<not> bit w 15"
  then have "immed w = w AND 0x7fff"
    by (simp add: immed_def sign_15 del: not_not)
  moreover have "(w AND 0x7fff) AND 0xffff = w AND 0x7fff"
    by (rule bit_word_eqI, simp only: bit_and_iff bit_small_masks) auto
  ultimately show ?thesis by simp
qed

lemma upper_immediate: "push_bit 16 (immed w) = push_bit 16 w"
  unfolding immed_extends Let_def
  by (rule bit_word_eqI, simp only: bit_push_bit_iff bit_or_iff bit_and_iff bit_small_masks if_distrib [of "\<lambda>x. bit x _"]) auto

lemma normal_agrees:
  assumes m: "matches m s" and r: "\<forall>k<32. Reg m ! k = reg s k" and e: "same_effect w (reg s)"
  shows "same_result (execute eh (Decode w) (reg s NextPCReg + 4) s)
    (sim_execute trap w (reg s PCReg) (reg s NextPCReg) (reg s NextPCReg + 4) m) m s"
proof (cases "normal_op w")
  case None
  then show ?thesis using e by (simp add: same_effect_def interp_opcode_def named_def Let_def)
next
  case (Some x)
  show ?thesis
  proof (cases "x = I_SPECIAL \<or> x = I_BCOND")
    case True
    then show ?thesis using special_agrees [OF m r _ e] bcond_agrees [OF m r _ e] Some by (auto simp: sim_execute_def)
  next
    case False
    have i: "interp_opcode w = normal_name x"
      using False Some by (auto simp: interp_opcode_def named_def split: normal_opcode.split)
    have d: "i_opCode (Decode w) = normal_name x" "i_rs (Decode w) = rs w" "i_rt (Decode w) = rt w" "i_rd (Decode w) = rd w"
      "i_extra (Decode w) = (if x = I_J \<or> x = I_JAL then w AND 0x03ffffff else immed w)"
      using False by (simp_all add: Decode_interp i Some split: normal_opcode.split)
    have v: "Reg m ! rs w = reg s (rs w)" "Reg m ! rt w = reg s (rt w)" using r by simp_all
    have ovf: "(a XOR b) AND SIGN_BIT = 0 \<and> (b XOR a + b) AND SIGN_BIT \<noteq> 0 \<longleftrightarrow> \<not> fits (sint a + sint b)"
      for a b :: "32 word" using add_overflow [of b a] by (auto simp: sign_xor add.commute)
    note w = m matches_writes [OF m] keeps_pcs_writes
    note eff = e [unfolded same_effect_def Let_def i]
    show ?thesis using eff False
      by (cases x) (auto simp add: step_simps sim_execute_def Let_def Some d v w ovf R31_def IndexToAddr_def positive_immediate
          upper_immediate add.commute [of 8 "reg s PCReg"])
  qed
qed

text \<open>One turn of both loops.\<close>

lemma matches_zero: "matches (setReg 0 v m) s = matches m s"
  by (auto simp: matches_def setReg_def)

lemma no_operation: "sim_execute trap 0 xpc pc npc m = Inr (Goes pc npc (setReg 0 (Reg m ! 0) m))"
  by (simp add: sim_execute_def sim_special_def Let_def normal_op_def normal_codes_def special_op_def special_codes_def
      rd_def rt_def rs_def shamt_def)

lemma fetch_keeps_registers:
  assumes "mmu_ok s" and "ReadMem eh va 4 s = Inr (Some w, s1)"
  shows "registers s1 = registers s"
proof -
  have "Translate va 4 False s \<noteq> Inl e" for e using assms(2) by (auto simp: ReadMem_def)
  then obtain r s2 where t: "Translate va 4 False s = Inr (r, s2)"
    by (cases "Translate va 4 False s") auto
  obtain p where p: "r = Inr p" "s2 = s1"
    using assms(2) by (cases r) (auto simp: ReadMem_def t andThen_def split: sum.splits)
  show ?thesis using Translate_Inr [OF assms(1) _ t [unfolded p]] by (metis insertCI set_entry_frame(2))
qed

lemma finish_instruction:
  assumes "matches m s" and "reg s LoadReg = 0"
  shows "\<exists>s'. DelayedLoad 0 0 s = Inr s' \<and> matches m s' \<and> reg s' 0 = 0 \<and> reg s' LoadReg = 0 \<and>
    reg s' NextPCReg = reg s NextPCReg \<and> reg s' PCReg = reg s PCReg"
proof -
  have "length (registers s) = 40" using assms(1) by (simp add: matches_def reg_defs)
  then show ?thesis using assms
    by (auto simp: DelayedLoad_def store_def set_reg_def reg_def matches_def reg_defs)
qed

lemma matches_pcs: "matches m s \<Longrightarrow> matches m (set_reg NextPCReg a (set_reg PCReg b (set_reg PrevPCReg c s)))"
  by (auto simp: matches_def set_reg_def reg_def reg_defs)

text \<open>
  C12. The two MIPS simulators of the repository agree. If the processor of the kernel's machine, with no load on its
  way, and the interpreter of bin have the same registers and fetch the same word, and the instruction with its
  operands is one of those where they do the same (\<open>same_effect\<close>, which spells out every difference), then both complete the
  instruction, and afterwards they have the same registers, the same program counter and the same next one, so that
  they go on alike; the interpreter's memory is unchanged.
\<close>

theorem simulators_agree:
  assumes "machine_ok s" and "matches m s" and "reg s 0 = 0" and "reg s LoadReg = 0"
    and "ReadMem eh (reg s PCReg) 4 s = Inr (Some w, s1)" and "sim_fetch m (reg s PCReg) = Inr w"
    and "same_effect w (reg s)"
  shows "\<exists>s' m'. OneInstruction eh s = Inr s' \<and>
    sim_turn trap (reg s PCReg) (reg s NextPCReg) m = Inr (Goes (reg s' PCReg) (reg s' NextPCReg) m') \<and>
    matches m' s' \<and> reg s' 0 = 0 \<and> reg s' LoadReg = 0 \<and> mem m' = mem m"
proof -
  let ?m = "setReg 0 0 m"
  have "registers s1 = registers s" using fetch_keeps_registers assms(1,5) by (auto simp: machine_ok_def)
  then have rs: "reg s1 = reg s" by (simp add: reg_def fun_eq_iff)
  have len: "length (Reg m) = 32" using assms(2) by (simp add: matches_def)
  have m: "matches ?m s1" using assms(2) rs \<open>registers s1 = registers s\<close> by (simp add: matches_zero) (simp add: matches_def)
  have "Reg ?m ! k = reg s1 k" if "k < 32" for k
    using assms(2,3) that rs len by (cases k) (auto simp: setReg_def matches_def)
  then obtain pcAfter s2 m2 where x: "execute eh (Decode w) (reg s NextPCReg + 4) s1 = Inr (Completed pcAfter 0 0 s2)"
    "sim_execute trap w (reg s PCReg) (reg s NextPCReg) (reg s NextPCReg + 4) ?m = Inr (Goes (reg s NextPCReg) pcAfter m2)"
    "matches m2 s2" "keeps_pcs s1 s2" "mem m2 = mem m"
    using normal_agrees [OF m _ assms(7) [folded rs], of eh trap] by (auto simp: same_result_def rs)
  define m' where "m' = (if w = 0 then ?m else m2)"
  have turn: "sim_turn trap (reg s PCReg) (reg s NextPCReg) m = Inr (Goes (reg s NextPCReg) pcAfter m')"
    and m': "matches m' s2" "mem m' = mem m"
    using x(2,3,5) assms(6) by (auto simp: sim_turn_def Let_def m'_def no_operation matches_zero)
  have k: "reg s2 LoadReg = 0" "reg s2 NextPCReg = reg s NextPCReg" "reg s2 PCReg = reg s PCReg"
    using x(4) assms(4) rs by (simp_all add: keeps_pcs_def reg_defs)
  obtain s3 where s3: "DelayedLoad 0 0 s2 = Inr s3" "matches m' s3" "reg s3 0 = 0" "reg s3 LoadReg = 0"
    "reg s3 NextPCReg = reg s NextPCReg" "reg s3 PCReg = reg s PCReg"
    using finish_instruction [OF m'(1) k(1)] k by auto
  let ?s = "set_reg NextPCReg pcAfter (set_reg PCReg (reg s NextPCReg) (set_reg PrevPCReg (reg s PCReg) s3))"
  have "OneInstruction eh s = Inr ?s" using assms(5) x(1) s3 rs by (simp add: OneInstruction_def)
  moreover have "length (registers s3) = 40" using s3(2) by (simp add: matches_def reg_defs)
  then have "reg ?s PCReg = reg s NextPCReg" "reg ?s NextPCReg = pcAfter" "reg ?s 0 = 0" "reg ?s LoadReg = 0"
    using s3 by (simp_all add: set_reg_def reg_def reg_defs)
  ultimately show ?thesis using turn matches_pcs [OF s3(2)] m'(2) by auto
qed

text \<open>A machine whose TLB maps the addresses where the interpreter has its memory, at \<open>ADDIU r1, r0, 7\<close>.\<close>

definition demo_sim_machine :: MachineState where
  "demo_sim_machine = demo_machine\<lparr>tlb := Some [demo_entry 0x100000 3 False], pageTable := None,
     mainMemory := overwrite (mainMemory demo_machine) 768 (word_bytes 0x24010007),
     registers := (registers demo_machine)[PCReg := 0x10000000, NextPCReg := 0x10000004]\<rparr>"

definition demo_interp :: Interp where
  "demo_interp = \<lparr>Reg = replicate 32 0, HI = 0, LO = 0, mem = word_bytes 0x24010007, sim_calls = []\<rparr>"

lemma demo_sim_machine_ok:
  "machine_ok demo_sim_machine" "matches demo_interp demo_sim_machine"
  "reg demo_sim_machine 0 = 0" "reg demo_sim_machine LoadReg = 0"
  "reg demo_sim_machine PCReg = 0x10000000" "reg demo_sim_machine NextPCReg = 0x10000004"
proof -
  have r: "registers demo_sim_machine = (replicate 40 0)[34 := 0x10000000, 35 := 0x10000004]"
    by (simp add: demo_sim_machine_def reg_defs)
  have "length (mainMemory demo_sim_machine) = MemorySize" by (simp add: demo_sim_machine_def size_defs)
  moreover have "mmu_ok demo_sim_machine" by (simp add: demo_sim_machine_def mmu_ok_def)
  ultimately show "machine_ok demo_sim_machine" by (simp add: machine_ok_def memory_ok_def reg_def r reg_defs)
  show "matches demo_interp demo_sim_machine" "reg demo_sim_machine 0 = 0" "reg demo_sim_machine LoadReg = 0"
    "reg demo_sim_machine PCReg = 0x10000000" "reg demo_sim_machine NextPCReg = 0x10000004"
    by (simp_all add: matches_def demo_interp_def reg_def r reg_defs nth_list_update)
qed

lemma demo_sim_fetch: "\<exists>s1. ReadMem eh 0x10000000 4 demo_sim_machine = Inr (Some 0x24010007, s1)"
proof -
  have sz: "(4 :: nat) \<in> {1, 2, 4}" by simp
  have mmu: "mmu_ok demo_sim_machine" using demo_sim_machine_ok(1) by (simp add: machine_ok_def)
  have f: "findEntry 0x100000 demo_sim_machine = Inr (Inr (InTLB 0))"
    "get_entry (InTLB 0) demo_sim_machine = Inr (demo_entry 0x100000 3 False)"
    by (simp_all add: findEntry_def get_entry_def fetch_def demo_sim_machine_def TLBSize_def demo_entry_def)
  obtain s1 where s1: "Translate 0x10000000 4 False demo_sim_machine = Inr (Inr 768, s1)"
    "mainMemory s1 = mainMemory demo_sim_machine"
    using f by (simp add: Translate_spec [OF mmu sz] misaligned_def size_defs demo_entry_def)
  have "take 4 (drop 768 (mainMemory s1)) = word_bytes 0x24010007"
    unfolding s1(2) by (simp add: demo_sim_machine_def size_defs)
  then show ?thesis using s1 guest_load_word [of "word_bytes 0x24010007" False] by (simp add: ReadMem_def)
qed

theorem simulators_agree_witness:
  "\<exists>s' m'. OneInstruction (\<lambda>_. Inr) demo_sim_machine = Inr s' \<and>
    sim_turn (\<lambda>_ _ m. unimplemented) 0x10000000 0x10000004 demo_interp =
      Inr (Goes (reg s' PCReg) (reg s' NextPCReg) m') \<and> matches m' s'"
proof -
  note ok = demo_sim_machine_ok
  obtain s1 where s1: "ReadMem (\<lambda>_. Inr) (reg demo_sim_machine PCReg) 4 demo_sim_machine = Inr (Some 0x24010007, s1)"
    using demo_sim_fetch by (auto simp: ok)
  have f: "sim_fetch demo_interp (reg demo_sim_machine PCReg) = Inr 0x24010007"
    by (simp add: sim_fetch_def mem_bytes_def mem_index_def memoffset_def demo_interp_def ok)
  have "interp_opcode 0x24010007 = OP_ADDIU"
    by (simp add: interp_opcode_def normal_op_def normal_codes_def named_def sar_field)
  then have e: "same_effect 0x24010007 (reg demo_sim_machine)" by (simp add: same_effect_def Let_def)
  show ?thesis using simulators_agree [OF ok(1,2,3,4) s1 f e, of "\<lambda>_ _ m. unimplemented"] by (auto simp: ok)
qed

subsection \<open>Multiplication, unaligned loads, and the length of a number\<close>

text \<open>
  The low word of a product is right. The high word is not, for it is the sum of shifted parts, whose carries are
  lost; and \<open>LWL\<close> keeps all bits that the register had.
\<close>

lemma mult_halves_low: "snd (mult_halves a b) = a * b"
  by (simp add: mult_halves_def Let_def)

lemma mult_halves_loses_carry:
  "mult_halves 0x18000 0x18000 = (1, 0x40000000)" "pair (Mult 0x18000 0x18000 False) = 0x240000000"
proof -
  show "mult_halves 0x18000 0x18000 = (1, 0x40000000)" by (simp add: mult_halves_def Let_def)
  have "Mult 0x18000 0x18000 False = multLoop 32 0x18000 0 0x18000 0 0" by (simp add: Mult_def Let_def split: prod.split)
  then show "pair (Mult 0x18000 0x18000 False) = 0x240000000" by (simp add: multLoop_product)
qed

lemma LWL_keeps_old_bits: "addr AND 0x03 = 0 \<Longrightarrow> sim_lwl old addr w = old OR w"
proof -
  assume "addr AND 0x03 = 0"
  moreover have "old AND signed_drop_bit k (- 1) = old" for k
    by (rule bit_word_eqI) (simp add: bit_and_iff bit_signed_drop_bit_iff)
  ultimately show ?thesis by (simp add: sim_lwl_def)
qed

text \<open>\<open>ilog2\<close>: a search by halves for the highest bit, which collects the digits of its number in \<open>l\<close>.\<close>

definition log_step :: "32 word \<Rightarrow> nat \<Rightarrow> 32 word \<times> nat \<Rightarrow> 32 word \<times> nat" where
  "log_step halves k = (\<lambda>(i, l). let j = i AND halves in if j \<noteq> 0 then (j, l + k) else (i, l))"

definition ilog2 :: "32 word \<Rightarrow> nat" where
  "ilog2 i = (if i = 0 then 0 else snd (log_step 0xaaaaaaaa 1 (log_step 0xcccccccc 2 (log_step 0xf0f0f0f0 4
     (log_step 0xff00ff00 8 (log_step 0xffff0000 16 (i, 1)))))))"

text \<open>
  What is kept of the bits of \<open>i\<close> after the steps down to \<open>2 ^ d\<close>: the highest bit \<open>h\<close>, and others that agree with it
  in the digits above \<open>d\<close>.
\<close>

definition log_inv :: "nat \<Rightarrow> nat \<Rightarrow> 32 word \<times> nat \<Rightarrow> bool" where
  "log_inv d h = (\<lambda>(i, l). bit i h \<and> (\<forall>n. bit i n \<longrightarrow> n \<le> h \<and> n div 2 ^ d = h div 2 ^ d) \<and> l = 1 + h div 2 ^ d * 2 ^ d)"

lemma log_masks:
  "n < 32 \<Longrightarrow> bit (0xffff0000 :: 32 word) n \<longleftrightarrow> odd (n div 2 ^ 4)"
  "n < 32 \<Longrightarrow> bit (0xff00ff00 :: 32 word) n \<longleftrightarrow> odd (n div 2 ^ 3)"
  "n < 32 \<Longrightarrow> bit (0xf0f0f0f0 :: 32 word) n \<longleftrightarrow> odd (n div 2 ^ 2)"
  "n < 32 \<Longrightarrow> bit (0xcccccccc :: 32 word) n \<longleftrightarrow> odd (n div 2 ^ 1)"
  "n < 32 \<Longrightarrow> bit (0xaaaaaaaa :: 32 word) n \<longleftrightarrow> odd (n div 2 ^ 0)"
proof -
  have "list_all (\<lambda>n. (bit (0xffff0000 :: 32 word) n \<longleftrightarrow> odd (n div 2 ^ 4)) \<and> (bit (0xff00ff00 :: 32 word) n \<longleftrightarrow> odd (n div 2 ^ 3)) \<and>
    (bit (0xf0f0f0f0 :: 32 word) n \<longleftrightarrow> odd (n div 2 ^ 2)) \<and> (bit (0xcccccccc :: 32 word) n \<longleftrightarrow> odd (n div 2 ^ 1)) \<and>
    (bit (0xaaaaaaaa :: 32 word) n \<longleftrightarrow> odd (n div 2 ^ 0))) [0..<32]" by (simp add: upt_rec)
  then have "(bit (0xffff0000 :: 32 word) n \<longleftrightarrow> odd (n div 2 ^ 4)) \<and> (bit (0xff00ff00 :: 32 word) n \<longleftrightarrow> odd (n div 2 ^ 3)) \<and>
    (bit (0xf0f0f0f0 :: 32 word) n \<longleftrightarrow> odd (n div 2 ^ 2)) \<and> (bit (0xcccccccc :: 32 word) n \<longleftrightarrow> odd (n div 2 ^ 1)) \<and>
    (bit (0xaaaaaaaa :: 32 word) n \<longleftrightarrow> odd (n div 2 ^ 0))" if "n < 32" for n
    using that by (simp only: list_all_length length_upt) auto
  then show "n < 32 \<Longrightarrow> bit (0xffff0000 :: 32 word) n \<longleftrightarrow> odd (n div 2 ^ 4)"
  "n < 32 \<Longrightarrow> bit (0xff00ff00 :: 32 word) n \<longleftrightarrow> odd (n div 2 ^ 3)"
  "n < 32 \<Longrightarrow> bit (0xf0f0f0f0 :: 32 word) n \<longleftrightarrow> odd (n div 2 ^ 2)"
  "n < 32 \<Longrightarrow> bit (0xcccccccc :: 32 word) n \<longleftrightarrow> odd (n div 2 ^ 1)"
  "n < 32 \<Longrightarrow> bit (0xaaaaaaaa :: 32 word) n \<longleftrightarrow> odd (n div 2 ^ 0)" by blast+
qed

lemma half_digit: "(q :: nat) * e = q div 2 * (2 * e) + (if odd q then e else 0)"
  by (cases "odd q") (auto elim!: oddE evenE simp: algebra_simps)

lemma same_digits: "(a :: nat) div 2 = b div 2 \<Longrightarrow> odd a = odd b \<Longrightarrow> a = b"
  by presburger

lemma larger_digit: "(a :: nat) \<le> b \<Longrightarrow> a div 2 = b div 2 \<Longrightarrow> odd a \<Longrightarrow> odd b"
  by presburger

lemma log_step_inv:
  assumes halves: "\<And>n. n < 32 \<Longrightarrow> bit (halves :: 32 word) n \<longleftrightarrow> odd (n div 2 ^ d)" and inv: "log_inv (Suc d) h (i, l)"
  shows "log_inv d h (log_step halves (2 ^ d) (i, l))"
proof -
  have b: "bit i h" "l = 1 + h div 2 ^ Suc d * 2 ^ Suc d"
    and all: "\<And>n. bit i n \<Longrightarrow> n \<le> h \<and> n div 2 ^ Suc d = h div 2 ^ Suc d"
    using inv unfolding log_inv_def split_conv by blast+
  have small: "bit i n \<Longrightarrow> n < 32" for n by (auto dest: bit_imp_le_length)
  have half: "n div 2 ^ Suc d = n div 2 ^ d div 2" for n :: nat by (simp only: power_Suc2 div_mult2_eq)
  have digit: "n div 2 ^ d = h div 2 ^ d" if "bit i n" "odd (n div 2 ^ d) = odd (h div 2 ^ d)" for n
    by (rule same_digits [OF _ that(2)]) (use all [OF that(1)] in \<open>simp only: half\<close>)
  have up: "odd (h div 2 ^ d)" if "bit i n" "odd (n div 2 ^ d)" for n
    by (rule larger_digit [OF _ _ that(2)]) (use all [OF that(1)] in \<open>simp_all only: half div_le_mono\<close>)
  have sum: "h div 2 ^ d * 2 ^ d = h div 2 ^ Suc d * 2 ^ Suc d + (if odd (h div 2 ^ d) then 2 ^ d else 0)"
    unfolding half using half_digit [of "h div 2 ^ d" "2 ^ d"] by (simp only: power_Suc)
  show ?thesis
  proof (cases "odd (h div 2 ^ d)")
    case True
    have bits: "bit (i AND halves) n \<longleftrightarrow> bit i n \<and> odd (n div 2 ^ d)" for n
      using halves small by (auto simp: bit_and_iff)
    have "i AND halves \<noteq> 0" using bits [of h] b(1) True by (metis bit_0_eq bot_apply bot_bool_def)
    then have st: "log_step halves (2 ^ d) (i, l) = (i AND halves, l + 2 ^ d)" by (simp add: log_step_def)
    have "l + 2 ^ d = 1 + h div 2 ^ d * 2 ^ d" using True by (simp only: b(2) sum if_True add.assoc not_False_eq_True)
    moreover have "n \<le> h \<and> n div 2 ^ d = h div 2 ^ d" if "bit i n" "odd (n div 2 ^ d)" for n
      using all [OF that(1)] digit [OF that(1)] that(2) True by blast
    ultimately show ?thesis unfolding st log_inv_def split_conv bits using b(1) True by blast
  next
    case False
    have none: "bit i n \<Longrightarrow> even (n div 2 ^ d)" for n using up False by blast
    have "i AND halves = 0" using none halves small by (intro bit_word_eqI) (auto simp: bit_and_iff)
    then have st: "log_step halves (2 ^ d) (i, l) = (i, l)" by (simp add: log_step_def)
    have "l = 1 + h div 2 ^ d * 2 ^ d" using False by (simp only: b(2) sum if_False add_0_right not_True_eq_False)
    moreover have "n \<le> h \<and> n div 2 ^ d = h div 2 ^ d" if "bit i n" for n
      using all [OF that] digit [OF that] none [OF that] False by blast
    ultimately show ?thesis unfolding st log_inv_def split_conv using b(1) by blast
  qed
qed

lemma ilog2_highest: "i \<noteq> 0 \<Longrightarrow> \<exists>h. ilog2 i = Suc h \<and> bit i h \<and> (\<forall>n. bit i n \<longrightarrow> n \<le> h)"
proof -
  assume i: "i \<noteq> 0"
  let ?S = "{n. bit i n}"
  define h where "h = Max ?S"
  have fin: "finite ?S" by (rule finite_subset [of _ "{..<32}"]) (auto dest: bit_imp_le_length)
  have ne: "?S \<noteq> {}" using i by (auto simp: bit_eq_iff)
  have h: "bit i h" "bit i n \<Longrightarrow> n \<le> h" for n using Max_in [OF fin ne] Max_ge [OF fin] by (auto simp: h_def)
  have "n < 32" if "bit i n" for n using that by (auto dest: bit_imp_le_length)
  then have "log_inv 5 h (i, 1)" using h by (auto simp: log_inv_def)
  then have s4: "log_inv (Suc 4) h (i, 1)" by (simp add: eval_nat_numeral)
  have steps: "(2 :: nat) ^ 2 = 4" by simp
  obtain i4 l4 where r4: "log_step 0xffff0000 16 (i, 1) = (i4, l4)" by fastforce
  have s3: "log_inv (Suc 3) h (i4, l4)" using log_step_inv [OF log_masks(1) s4] r4 by simp
  obtain i3 l3 where r3: "log_step 0xff00ff00 8 (i4, l4) = (i3, l3)" by fastforce
  have s2: "log_inv (Suc 2) h (i3, l3)" using log_step_inv [OF log_masks(2) s3] r3 by simp
  obtain i2 l2 where r2: "log_step 0xf0f0f0f0 4 (i3, l3) = (i2, l2)" by fastforce
  have s1: "log_inv (Suc 1) h (i2, l2)" using log_step_inv [OF log_masks(3) s2] by (simp only: steps r2 Suc_1)
  obtain i1 l1 where r1: "log_step 0xcccccccc 2 (i2, l2) = (i1, l1)" by fastforce
  have s0: "log_inv (Suc 0) h (i1, l1)" using log_step_inv [OF log_masks(4) s1] r1 by simp
  obtain i0 l0 where r0: "log_step 0xaaaaaaaa 1 (i1, l1) = (i0, l0)" by fastforce
  have "log_inv 0 h (i0, l0)" using log_step_inv [OF log_masks(5) s0] r0 by simp
  then have "l0 = Suc h" by (simp add: log_inv_def)
  then have "ilog2 i = Suc h" using i by (simp only: ilog2_def r4 r3 r2 r1 r0 if_False snd_conv)
  then show ?thesis using h by blast
qed

text \<open>
  \<open>ilog2\<close>, which finds the highest bit of a number by five comparisons with fixed masks, computes the number of its
  binary digits, for every word: 0 for 0, and otherwise the \<open>n\<close> with \<open>2 ^ (n - 1) \<le> i < 2 ^ n\<close>, the number read
  without sign.
\<close>

theorem ilog2_counts_digits:
  "if i = 0 then ilog2 i = 0 else 0 < ilog2 i \<and> 2 ^ (ilog2 i - 1) \<le> unat i \<and> unat i < 2 ^ ilog2 i"
proof (cases "i = 0")
  case False
  obtain h where h: "ilog2 i = Suc h" "bit i h" "\<And>n. bit i n \<Longrightarrow> n \<le> h" using ilog2_highest [OF False] by blast
  have "bit (unat i) h" using h(2) by (simp add: bit_unsigned_iff)
  then have "odd (unat i div 2 ^ h)" by (simp add: bit_iff_odd)
  then have low: "2 ^ h \<le> unat i" by (metis div_less even_zero not_le)
  have "take_bit (Suc h) i = i" by (rule bit_word_eqI) (use h(3) in \<open>auto simp: bit_take_bit_iff less_Suc_eq_le\<close>)
  then have "take_bit (Suc h) (unat i) = unat i" by (metis unsigned_take_bit_eq)
  then have "unat i < 2 ^ Suc h" by (metis take_bit_nat_less_exp)
  then show ?thesis using False h(1) low by simp
qed (simp add: ilog2_def)

end
