(* ===== verification/Nachos_Disasm.thy ===== *)
theory Nachos_Disasm
  imports Nachos_Interp
begin

section \<open>Two disassemblers: bin/d.c and the debugging output of mipssim.cc\<close>

text \<open>
  Both simulators can print the instruction they execute: execute.c calls \<open>dump_ascii\<close> of d.c, which has its mnemonics from
  opstrings.c and is also the body of the disassembler disasm.c; \<open>OneInstruction\<close> prints with the table \<open>opStrings\<close> of
  mipssim.h when debugging is on. What is printed is a string here. The tables are compared below.
\<close>

unbundle bit_operations_syntax

subsection \<open>Numbers as text (printf)\<close>

fun show_nat :: "nat \<Rightarrow> string" where
  "show_nat n = (if n < 10 then [char_of (48 + n)] else show_nat (n div 10) @ [char_of (48 + n mod 10)])"

declare show_nat.simps [simp del]

definition show_int :: "int \<Rightarrow> string" where
  "show_int i = (if i < 0 then ''-'' @ show_nat (nat (- i)) else show_nat (nat i))"

definition hex_digit :: "nat \<Rightarrow> char" where
  "hex_digit n = ''0123456789abcdef'' ! n"

definition hex8 :: "32 word \<Rightarrow> string" where
  "hex8 w = map (\<lambda>k. hex_digit (unat (drop_bit (4 * k) w AND 0xf))) [7, 6, 5, 4, 3, 2, 1, 0]"

definition hex :: "32 word \<Rightarrow> string" where
  "hex w = (case dropWhile (\<lambda>c. c = CHR ''0'') (hex8 w) of [] \<Rightarrow> ''0'' | cs \<Rightarrow> cs)"

text \<open>\<open>printf\<close> with a format whose only conversions are \<open>%d\<close>.\<close>

fun printf_d :: "string \<Rightarrow> int list \<Rightarrow> string" where
  "printf_d [] args = []"
| "printf_d (c # cs) args = (if c = CHR ''%'' then
     (case args of [] \<Rightarrow> [] | a # more_args \<Rightarrow> show_int a @ printf_d (tl cs) more_args) else c # printf_d cs args)"

subsection \<open>The output of OneInstruction (mipssim.h, mipssim.cc)\<close>

fun opNumber :: "OpCode \<Rightarrow> nat" where
  "opNumber OP_ADD = 1" | "opNumber OP_ADDI = 2" | "opNumber OP_ADDIU = 3" | "opNumber OP_ADDU = 4"
| "opNumber OP_AND = 5" | "opNumber OP_ANDI = 6" | "opNumber OP_BEQ = 7" | "opNumber OP_BGEZ = 8"
| "opNumber OP_BGEZAL = 9" | "opNumber OP_BGTZ = 10" | "opNumber OP_BLEZ = 11" | "opNumber OP_BLTZ = 12"
| "opNumber OP_BLTZAL = 13" | "opNumber OP_BNE = 14" | "opNumber OP_DIV = 16" | "opNumber OP_DIVU = 17"
| "opNumber OP_J = 18" | "opNumber OP_JAL = 19" | "opNumber OP_JALR = 20" | "opNumber OP_JR = 21"
| "opNumber OP_LB = 22" | "opNumber OP_LBU = 23" | "opNumber OP_LH = 24" | "opNumber OP_LHU = 25"
| "opNumber OP_LUI = 26" | "opNumber OP_LW = 27" | "opNumber OP_LWL = 28" | "opNumber OP_LWR = 29"
| "opNumber OP_MFHI = 31" | "opNumber OP_MFLO = 32" | "opNumber OP_MTHI = 34" | "opNumber OP_MTLO = 35"
| "opNumber OP_MULT = 36" | "opNumber OP_MULTU = 37" | "opNumber OP_NOR = 38" | "opNumber OP_OR = 39"
| "opNumber OP_ORI = 40" | "opNumber OP_RFE = 41" | "opNumber OP_SB = 42" | "opNumber OP_SH = 43"
| "opNumber OP_SLL = 44" | "opNumber OP_SLLV = 45" | "opNumber OP_SLT = 46" | "opNumber OP_SLTI = 47"
| "opNumber OP_SLTIU = 48" | "opNumber OP_SLTU = 49" | "opNumber OP_SRA = 50" | "opNumber OP_SRAV = 51"
| "opNumber OP_SRL = 52" | "opNumber OP_SRLV = 53" | "opNumber OP_SUB = 54" | "opNumber OP_SUBU = 55"
| "opNumber OP_SW = 56" | "opNumber OP_SWL = 57" | "opNumber OP_SWR = 58" | "opNumber OP_XOR = 59"
| "opNumber OP_XORI = 60" | "opNumber OP_SYSCALL = 61" | "opNumber OP_UNIMP = 62" | "opNumber OP_RES = 63"
| "opNumber SPECIAL = 100" | "opNumber BCOND = 101"

datatype RegType = NONE | RS | RT | RD | EXTRA

definition shouldnt_happen :: string where
  "shouldnt_happen = ''Shouldn'' @ [CHR 0x27] @ ''t happen''"

definition opStrings :: "(string \<times> RegType \<times> RegType \<times> RegType) list" where
  "opStrings = [
     (shouldnt_happen, NONE, NONE, NONE), (''ADD r%d,r%d,r%d'', RD, RS, RT),
     (''ADDI r%d,r%d,%d'', RT, RS, EXTRA), (''ADDIU r%d,r%d,%d'', RT, RS, EXTRA),
     (''ADDU r%d,r%d,r%d'', RD, RS, RT), (''AND r%d,r%d,r%d'', RD, RS, RT),
     (''ANDI r%d,r%d,%d'', RT, RS, EXTRA), (''BEQ r%d,r%d,%d'', RS, RT, EXTRA),
     (''BGEZ r%d,%d'', RS, EXTRA, NONE), (''BGEZAL r%d,%d'', RS, EXTRA, NONE),
     (''BGTZ r%d,%d'', RS, EXTRA, NONE), (''BLEZ r%d,%d'', RS, EXTRA, NONE),
     (''BLTZ r%d,%d'', RS, EXTRA, NONE), (''BLTZAL r%d,%d'', RS, EXTRA, NONE),
     (''BNE r%d,r%d,%d'', RS, RT, EXTRA), (shouldnt_happen, NONE, NONE, NONE), (''DIV r%d,r%d'', RS, RT, NONE),
     (''DIVU r%d,r%d'', RS, RT, NONE), (''J %d'', EXTRA, NONE, NONE), (''JAL %d'', EXTRA, NONE, NONE),
     (''JALR r%d,r%d'', RD, RS, NONE), (''JR r%d,r%d'', RD, RS, NONE), (''LB r%d,%d(r%d)'', RT, EXTRA, RS),
     (''LBU r%d,%d(r%d)'', RT, EXTRA, RS), (''LH r%d,%d(r%d)'', RT, EXTRA, RS),
     (''LHU r%d,%d(r%d)'', RT, EXTRA, RS), (''LUI r%d,%d'', RT, EXTRA, NONE),
     (''LW r%d,%d(r%d)'', RT, EXTRA, RS), (''LWL r%d,%d(r%d)'', RT, EXTRA, RS),
     (''LWR r%d,%d(r%d)'', RT, EXTRA, RS), (shouldnt_happen, NONE, NONE, NONE), (''MFHI r%d'', RD, NONE, NONE),
     (''MFLO r%d'', RD, NONE, NONE), (shouldnt_happen, NONE, NONE, NONE), (''MTHI r%d'', RS, NONE, NONE),
     (''MTLO r%d'', RS, NONE, NONE), (''MULT r%d,r%d'', RS, RT, NONE), (''MULTU r%d,r%d'', RS, RT, NONE),
     (''NOR r%d,r%d,r%d'', RD, RS, RT), (''OR r%d,r%d,r%d'', RD, RS, RT), (''ORI r%d,r%d,%d'', RT, RS, EXTRA),
     (''RFE'', NONE, NONE, NONE), (''SB r%d,%d(r%d)'', RT, EXTRA, RS), (''SH r%d,%d(r%d)'', RT, EXTRA, RS),
     (''SLL r%d,r%d,%d'', RD, RT, EXTRA), (''SLLV r%d,r%d,r%d'', RD, RT, RS),
     (''SLT r%d,r%d,r%d'', RD, RS, RT), (''SLTI r%d,r%d,%d'', RT, RS, EXTRA),
     (''SLTIU r%d,r%d,%d'', RT, RS, EXTRA), (''SLTU r%d,r%d,r%d'', RD, RS, RT),
     (''SRA r%d,r%d,%d'', RD, RT, EXTRA), (''SRAV r%d,r%d,r%d'', RD, RT, RS),
     (''SRL r%d,r%d,%d'', RD, RT, EXTRA), (''SRLV r%d,r%d,r%d'', RD, RT, RS),
     (''SUB r%d,r%d,r%d'', RD, RS, RT), (''SUBU r%d,r%d,r%d'', RD, RS, RT),
     (''SW r%d,%d(r%d)'', RT, EXTRA, RS), (''SWL r%d,%d(r%d)'', RT, EXTRA, RS),
     (''SWR r%d,%d(r%d)'', RT, EXTRA, RS), (''XOR r%d,r%d,r%d'', RD, RS, RT),
     (''XORI r%d,r%d,%d'', RT, RS, EXTRA), (''SYSCALL'', NONE, NONE, NONE),
     (''Unimplemented'', NONE, NONE, NONE), (''Reserved'', NONE, NONE, NONE)]"

fun TypeToReg :: "RegType \<Rightarrow> Instruction \<Rightarrow> int" where
  "TypeToReg RS i = int (i_rs i)"
| "TypeToReg RT i = int (i_rt i)"
| "TypeToReg RD i = int (i_rd i)"
| "TypeToReg EXTRA i = sint (i_extra i)"
| "TypeToReg NONE i = - 1"

definition print_instruction :: "32 word \<Rightarrow> Instruction \<Rightarrow> string res" where
  "print_instruction pc i = ASSERT (opNumber (i_opCode i) \<le> 63)
     (let (format, a, b, c) = opStrings ! opNumber (i_opCode i)
      in Inr (''At PC = 0x'' @ hex pc @ '': '' @ printf_d format [TypeToReg a i, TypeToReg b i, TypeToReg c i] @ [CHR 10]))"

subsection \<open>The disassembler (d.c, opstrings.c, disasm.c)\<close>

definition normalops :: "string list" where
  "normalops = [
     ''special'', ''bcond'', ''j'', ''jal'', ''beq'', ''bne'', ''blez'', ''bgtz'', ''addi'', ''addiu'',
     ''slti'', ''sltiu'', ''andi'', ''ori'', ''xori'', ''lui'', ''cop0'', ''cop1'', ''cop2'', ''cop3'',
     ''024'', ''025'', ''026'', ''027'', ''030'', ''031'', ''032'', ''033'', ''034'', ''035'', ''036'',
     ''037'', ''lb'', ''lh'', ''lwl'', ''lw'', ''lbu'', ''lhu'', ''lwr'', ''047'', ''sb'', ''sh'', ''swl'',
     ''sw'', ''054'', ''055'', ''swr'', ''057'', ''lwc0'', ''lwc1'', ''lwc2'', ''lwc3'', ''064'', ''065'',
     ''066'', ''067'', ''swc0'', ''swc1'', ''swc2'', ''swc3'', ''074'', ''075'', ''076'', ''077'']"

definition specialops :: "string list" where
  "specialops = [
     ''sll'', ''001'', ''srl'', ''sra'', ''sllv'', ''005'', ''srlv'', ''srav'', ''jr'', ''jalr'', ''012'',
     ''013'', ''syscall'', ''break'', ''016'', ''017'', ''mfhi'', ''mthi'', ''mflo'', ''mtlo'', ''024'',
     ''025'', ''026'', ''027'', ''mult'', ''multu'', ''div'', ''divu'', ''034'', ''035'', ''036'', ''037'',
     ''add'', ''addu'', ''sub'', ''subu'', ''and'', ''or'', ''xor'', ''nor'', ''050'', ''051'', ''slt'',
     ''sltu'', ''054'', ''055'', ''056'', ''057'', ''060'', ''061'', ''062'', ''063'', ''064'', ''065'',
     ''066'', ''067'', ''070'', ''071'', ''072'', ''073'', ''074'', ''075'', ''076'', ''077'']"

definition regstrings :: "string list" where
  "regstrings = [
     ''0'', ''r1'', ''r2'', ''r3'', ''r4'', ''r5'', ''r6'', ''r7'', ''r8'', ''r9'', ''r10'', ''r11'', ''r12'',
     ''r13'', ''r14'', ''r15'', ''r16'', ''r17'', ''r18'', ''r19'', ''r20'', ''r21'', ''r22'', ''r23'',
     ''r24'', ''r25'', ''r26'', ''r27'', ''gp'', ''sp'', ''r30'', ''r31'']"

definition R :: "nat \<Rightarrow> string" where "R k = regstrings ! k"

definition off26 :: "32 word \<Rightarrow> 32 word" where "off26 i = push_bit 2 (i AND (push_bit 26 1 - 1))"
definition top4 :: "32 word \<Rightarrow> 32 word" where "top4 i = i AND NOT (push_bit 28 1 - 1)"
definition off16 :: "32 word \<Rightarrow> 32 word" where "off16 i = push_bit 2 (immed i)"

definition comma :: "string list \<Rightarrow> string" where
  "comma xs = concat (map (\<lambda>x. x @ '','') (butlast xs)) @ last xs"

text \<open>The operands, by the groups of the two \<open>switch\<close>es; opcodes that no group names print none.\<close>

definition special_operands :: "32 word \<Rightarrow> string" where
  "special_operands w = (case special_op w of None \<Rightarrow> [] | Some x \<Rightarrow>
     if x \<in> {I_SLL, I_SRL, I_SRA} then comma [R (rd w), R (rt w), ''0x'' @ hex (word_of_nat (shamt w))]
     else if x \<in> {I_SLLV, I_SRLV, I_SRAV} then comma [R (rd w), R (rt w), R (rs w)]
     else if x \<in> {I_JR, I_JALR, I_MFLO, I_MTLO} then R (rs w)
     else if x \<in> {I_SYSCALL, I_BREAK} then []
     else if x \<in> {I_MFHI, I_MTHI} then R (rd w)
     else if x \<in> {I_MULT, I_MULTU, I_DIV, I_DIVU} then comma [R (rs w), R (rt w)]
     else comma [R (rd w), R (rs w), R (rt w)])"

definition normal_operands :: "32 word \<Rightarrow> 32 word \<Rightarrow> string" where
  "normal_operands pc w = (case normal_op w of None \<Rightarrow> [] | Some x \<Rightarrow>
     if x \<in> {I_J, I_JAL} then hex8 (top4 pc OR off26 w)
     else if x \<in> {I_BEQ, I_BNE} then comma [R (rt w), R (rs w), hex8 (off16 w + pc + 4)]
     else if x \<in> {I_ADDI, I_ADDIU, I_SLTI, I_SLTIU, I_ANDI, I_ORI, I_XORI} then comma [R (rt w), R (rs w), ''0x'' @ hex (immed w)]
     else if x = I_LUI then comma [R (rt w), ''0x'' @ hex (immed w)]
     else if x \<in> {I_LB, I_LH, I_LWL, I_LW, I_LBU, I_LHU, I_LWR, I_SB, I_SH, I_SWL, I_SW, I_SWR, I_LWC0, I_LWC1, I_LWC2, I_LWC3,
       I_SWC0, I_SWC1, I_SWC2, I_SWC3} then R (rt w) @ '',0x'' @ hex (immed w) @ ''('' @ R (rs w) @ '')''
     else [])"

fun bcond_string :: "bcond_opcode option \<Rightarrow> string" where
  "bcond_string (Some I_BLTZ) = ''bltz''"
| "bcond_string (Some I_BGEZ) = ''bgez''"
| "bcond_string (Some I_BLTZAL) = ''bltzal''"
| "bcond_string (Some I_BGEZAL) = ''bgezal''"
| "bcond_string None = ''BCOND''"

text \<open>The mnemonic and the rest of the line behind it.\<close>

definition dump_mnemonic :: "32 word \<Rightarrow> string" where
  "dump_mnemonic w = (let opcode = unat (drop_bit 26 w) in
     if w = 0 then ''nop''
     else if normal_op w = Some I_SPECIAL then specialops ! unat (w AND 0x3f)
     else if normal_op w = Some I_BCOND then bcond_string (bcond_op w)
     else normalops ! opcode)"

definition dump_operands :: "32 word \<Rightarrow> 32 word \<Rightarrow> string" where
  "dump_operands pc w = (if w = 0 then []
     else if normal_op w = Some I_SPECIAL then [CHR 9] @ special_operands w
     else if normal_op w = Some I_BCOND then [CHR 9] @ comma [R (rs w), hex8 (off16 w + pc + 4)]
     else [CHR 9] @ normal_operands pc w)"

definition dump_ascii :: "bool \<Rightarrow> 32 word \<Rightarrow> 32 word \<Rightarrow> string" where
  "dump_ascii longdis w pc = (if longdis then hex8 pc @ '': '' @ hex8 w @ ''  '' else []) @ [CHR 9] @
     dump_mnemonic w @ dump_operands pc w"

definition dis1 :: "32 word \<Rightarrow> Interp \<Rightarrow> string res" where
  "dis1 pc m = andThen (sim_fetch m pc) (\<lambda>instr. Inr (dump_ascii True instr pc @ [CHR 10]))"

text \<open>The loop over the text section, which takes a turn for every begun word.\<close>

fun disasm_loop :: "nat \<Rightarrow> 32 word \<Rightarrow> Interp \<Rightarrow> string res" where
  "disasm_loop 0 pc m = Inr []"
| "disasm_loop (Suc n) pc m = andThen (dis1 pc m) (\<lambda>line. andThen (disasm_loop n (pc + 4) m) (\<lambda>more_lines. Inr (line @ more_lines)))"

definition disasm :: "int \<Rightarrow> Interp \<Rightarrow> string res" where
  "disasm s_size m = disasm_loop (nat ((s_size + 3) div 4)) (word_of_int memoffset) m"

subsection \<open>The mnemonics agree\<close>

definition lower :: "char \<Rightarrow> char" where
  "lower c = (let n = of_char c :: nat in if 65 \<le> n \<and> n \<le> 90 then char_of (n + 32) else c)"

text \<open>The first word of the line that mipssim.cc prints.\<close>

definition line_mnemonic :: "OpCode \<Rightarrow> string" where
  "line_mnemonic opc = map lower (takeWhile (\<lambda>c. c \<noteq> CHR '' '') (fst (opStrings ! opNumber opc)))"

definition same_mnemonic :: "OpCode \<Rightarrow> string \<Rightarrow> bool" where
  "same_mnemonic opc t \<longleftrightarrow> opc = OP_UNIMP \<or> opc = OP_RES \<or> t = line_mnemonic opc"

lemma special_mnemonics:
  assumes "k < 64"
  shows "same_mnemonic (named special_name OP_RES (map_of special_codes k)) (specialops ! k)"
proof -
  have "list_all (\<lambda>k. same_mnemonic (named special_name OP_RES (map_of special_codes k)) (specialops ! k)) [0..<64]"
    by code_simp
  then show ?thesis using assms by (simp add: list_all_length)
qed

lemma normal_mnemonics:
  assumes "k < 64" and "map_of normal_codes k \<notin> {Some I_SPECIAL, Some I_BCOND}"
  shows "same_mnemonic (named normal_name OP_RES (map_of normal_codes k)) (normalops ! k)"
proof -
  have "list_all (\<lambda>k. map_of normal_codes k = Some I_SPECIAL \<or> map_of normal_codes k = Some I_BCOND \<or>
      same_mnemonic (named normal_name OP_RES (map_of normal_codes k)) (normalops ! k)) [0..<64]"
    by code_simp
  then show ?thesis using assms by (auto simp: list_all_length)
qed

lemma bcond_mnemonics: "same_mnemonic (named bcond_name OP_UNIMP x) (bcond_string x)"
proof -
  have "list_all (\<lambda>y. same_mnemonic (bcond_name y) (bcond_string (Some y))) [I_BLTZ, I_BGEZ, I_BLTZAL, I_BGEZAL]"
    by code_simp
  then have "same_mnemonic (bcond_name y) (bcond_string (Some y))" for y by (cases y) simp_all
  then show ?thesis by (cases x) (simp_all add: named_def same_mnemonic_def)
qed

lemma dump_same_mnemonic: "w \<noteq> 0 \<Longrightarrow> same_mnemonic (interp_opcode w) (dump_mnemonic w)"
proof -
  assume w: "w \<noteq> 0"
  define k where "k = unat (drop_bit 26 w AND 0x3f)"
  have k: "k < 64" "normal_op w = map_of normal_codes k"
    by (simp_all add: k_def field_bounds normal_op_def sar_field)
  have "drop_bit 26 w AND 0x3f = drop_bit 26 w"
    by (rule bit_word_eqI, simp only: bit_and_iff bit_small_masks bit_drop_bit_eq) (auto dest: bit_imp_le_length)
  then have top: "unat (drop_bit 26 w) = k" by (simp add: k_def)
  consider "normal_op w = Some I_SPECIAL" | "normal_op w = Some I_BCOND" | "normal_op w \<notin> {Some I_SPECIAL, Some I_BCOND}"
    by blast
  then show ?thesis
  proof cases
    case 1
    then show ?thesis using special_mnemonics [OF field_bounds(2) [of w]] w
      by (simp add: interp_opcode_def dump_mnemonic_def special_op_def)
  next
    case 2
    then show ?thesis using bcond_mnemonics w by (simp add: interp_opcode_def dump_mnemonic_def)
  next
    case 3
    then have "interp_opcode w = named normal_name OP_RES (normal_op w)"
      by (auto simp: interp_opcode_def split: option.split normal_opcode.split)
    then show ?thesis using normal_mnemonics [OF k(1)] 3 w by (simp add: dump_mnemonic_def Let_def top k(2))
  qed
qed

text \<open>
  C24. The two disassemblers name every instruction alike: for each word that the simulator of the kernel can execute, the mnemonic that
  \<open>dump_ascii\<close> prints from the tables of opstrings.c is, in small letters, the first word of the line for which
  \<open>OneInstruction\<close> looks up its decoded opcode in \<open>opStrings\<close>. So the decoding tables of mipssim.h, the opcode numbers of
  encode.h and both tables of names are consistent. The word 0, a shift by nothing, is printed as nop.
\<close>

theorem disassemblers_agree:
  assumes "i_opCode (Decode w) \<notin> {OP_UNIMP, OP_RES}"
  shows "dump_mnemonic w = (if w = 0 then ''nop'' else line_mnemonic (i_opCode (Decode w)))"
  using dump_same_mnemonic [of w] assms by (auto simp: same_mnemonic_def Decode_interp dump_mnemonic_def)

theorem disassemblers_agree_witness:
  "dump_mnemonic 0x24010007 = ''addiu'' \<and> dump_mnemonic 0x24010007 = line_mnemonic (i_opCode (Decode 0x24010007))"
proof
  show "dump_mnemonic 0x24010007 = line_mnemonic (i_opCode (Decode 0x24010007))"
    using disassemblers_agree [of "0x24010007"] by (simp add: decode_examples)
  then show "dump_mnemonic 0x24010007 = ''addiu''"
    unfolding decode_examples(1) by (simp only:) code_simp
qed

text \<open>
  The operands are not always right: \<open>mflo r3\<close> is printed with register \<open>rs\<close>, and \<open>blez r3\<close>, which no
  case names, without any. (\<open>0x00001812\<close> and \<open>0x18600001\<close>.)
\<close>

lemma dump_wrong_operands:
  "dump_ascii False 0x00001812 0 = [CHR 9] @ ''mflo'' @ [CHR 9] @ ''0''"
  "dump_ascii False 0x18600001 0 = [CHR 9] @ ''blez'' @ [CHR 9]"
  by code_simp+

end
