(* ===== verification/Nachos_Marcus.thy ===== *)
theory Nachos_Marcus
  imports Nachos_AddrSpace
begin

section \<open>Another version of the search for frames: userprog/addrspace_marcus.cc\<close>

text \<open>
  A second version of the address spaces, which no Makefile compiles. Its three searches walk over the frames with an outer loop
  that stops after the last frame and an inner one that runs while the frame is free. The outer loop does not advance, so at a
  used frame the search stays for ever: both loops have fuel, and running out of it is \<open>Diverges\<close>. \<open>Test\<close> of the bit map asserts
  that the frame exists, which the inner loop does not look at. The searches are then compared with what they are meant
  to do, and with one another.
\<close>

subsection \<open>The searches\<close>

text \<open>
  The variables of the loops. \<open>savedIdx\<close> and \<open>curBestIdx\<close> start with whatever the stack holds and with -1.
\<close>

record Search =
  iterator :: nat
  consecFreepgs :: int
  savedIdx :: int
  SpaceFnd :: bool
  pageDiff :: int
  curBestIdx :: int

definition marcus_start :: "int \<Rightarrow> int \<Rightarrow> Search" where
  "marcus_start junk diff = \<lparr>iterator = 0, consecFreepgs = 0, savedIdx = junk, SpaceFnd = False, pageDiff = diff, curBestIdx = - 1\<rparr>"

text \<open>The bodies of the inner loops: what all three begin with, and the three ways to end.\<close>

definition marcus_advance :: "Search \<Rightarrow> Search" where
  "marcus_advance v = v\<lparr>savedIdx := (if consecFreepgs v = 0 then int (iterator v) else savedIdx v),
     iterator := iterator v + 1, consecFreepgs := consecFreepgs v + 1\<rparr>"

definition first_body :: "int \<Rightarrow> Search \<Rightarrow> Search" where
  "first_body searchNum v0 = (let v = marcus_advance v0 in
     if consecFreepgs v \<ge> searchNum then v\<lparr>SpaceFnd := True\<rparr> else v)"

definition best_body :: "int \<Rightarrow> Search \<Rightarrow> Search" where
  "best_body searchNum v0 = (let v = marcus_advance v0 in
     if consecFreepgs v \<ge> searchNum \<and> consecFreepgs v - searchNum < pageDiff v
     then v\<lparr>pageDiff := consecFreepgs v - searchNum, curBestIdx := savedIdx v, SpaceFnd := True\<rparr> else v)"

definition worst_body :: "int \<Rightarrow> Search \<Rightarrow> Search" where
  "worst_body searchNum v0 = (let v = marcus_advance v0 in
     if consecFreepgs v \<ge> searchNum \<and> consecFreepgs v - searchNum > pageDiff v
     then v\<lparr>pageDiff := consecFreepgs v - searchNum, curBestIdx := savedIdx v, SpaceFnd := True\<rparr> else v)"

fun inner_loop :: "nat \<Rightarrow> BitMap \<Rightarrow> (Search \<Rightarrow> Search) \<Rightarrow> Search \<Rightarrow> Search res" where
  "inner_loop 0 b bdy v = Inl Diverges"
| "inner_loop (Suc n) b bdy v = andThen (Test b (int (iterator v))) (\<lambda>taken.
     if \<not> taken \<and> \<not> SpaceFnd v then inner_loop n b bdy (bdy v) else Inr v)"

fun outer_loop :: "nat \<Rightarrow> BitMap \<Rightarrow> (Search \<Rightarrow> Search) \<Rightarrow> Search \<Rightarrow> Search res" where
  "outer_loop 0 b bdy v = Inl Diverges"
| "outer_loop (Suc n) b bdy v = (if \<not> SpaceFnd v \<and> iterator v < NumPhysPages
     then andThen (inner_loop n b bdy (v\<lparr>consecFreepgs := 0\<rparr>)) (outer_loop n b bdy) else Inr v)"

definition FirstFit_marcus :: "nat \<Rightarrow> int \<Rightarrow> BitMap \<Rightarrow> int \<Rightarrow> int res" where
  "FirstFit_marcus n junk b searchNum = andThen (outer_loop n b (first_body searchNum) (marcus_start junk 0))
     (\<lambda>v. Inr (if iterator v = NumPhysPages then - 1 else savedIdx v))"

definition BestFit_marcus :: "nat \<Rightarrow> int \<Rightarrow> BitMap \<Rightarrow> int \<Rightarrow> int res" where
  "BestFit_marcus n junk b searchNum = andThen (outer_loop n b (best_body searchNum) (marcus_start junk 100))
     (\<lambda>v. Inr (curBestIdx v))"

definition WorstFit_marcus :: "nat \<Rightarrow> int \<Rightarrow> BitMap \<Rightarrow> int \<Rightarrow> int res" where
  "WorstFit_marcus n junk b searchNum = andThen (outer_loop n b (worst_body searchNum) (marcus_start junk (- 1)))
     (\<lambda>v. Inr (curBestIdx v))"

subsection \<open>What the searches find\<close>

text \<open>
  \<open>walked d j v\<close>: the first \<open>j\<close> frames were free and are too few. \<open>ends_search n d good bdy\<close>: a body counts on, and stops
  with \<open>good\<close> at the \<open>n\<close>th frame.
\<close>

definition walked :: "int \<Rightarrow> nat \<Rightarrow> Search \<Rightarrow> bool" where
  "walked d j v \<longleftrightarrow> iterator v = j \<and> consecFreepgs v = int j \<and> (0 < j \<longrightarrow> savedIdx v = 0) \<and> \<not> SpaceFnd v \<and>
     pageDiff v = d \<and> curBestIdx v = - 1"

definition ends_search :: "int \<Rightarrow> int \<Rightarrow> (Search \<Rightarrow> bool) \<Rightarrow> (Search \<Rightarrow> Search) \<Rightarrow> bool" where
  "ends_search n d good bdy \<longleftrightarrow> (\<forall>j v. walked d j v \<longrightarrow> (if int (Suc j) < n then walked d (Suc j) (bdy v)
     else int (Suc j) = n \<longrightarrow> SpaceFnd (bdy v) \<and> iterator (bdy v) = Suc j \<and> good (bdy v)))"

definition prefix_free :: "nat \<Rightarrow> BitMap \<Rightarrow> bool" where
  "prefix_free k b \<longleftrightarrow> k \<le> NumPhysPages \<and> (\<forall>i<k. free_in b i) \<and> (k < NumPhysPages \<longrightarrow> \<not> free_in b k)"

lemma Test_past_end: "frames_map b \<Longrightarrow> Test b (int NumPhysPages) = Inl Assertion"
  by (simp add: Test_def frames_map_def)

lemma inner_loop_search:
  assumes b: "frames_map b" and pre: "prefix_free k b" and e: "ends_search n d good bdy"
    and v: "walked d j v" and j: "j \<le> k" "int j < n" and fuel: "NumPhysPages < j + fuel"
  shows "if n \<le> int k \<and> n < int NumPhysPages then \<exists>v'. inner_loop fuel b bdy v = Inr v' \<and> SpaceFnd v' \<and> int (iterator v') = n \<and> good v'
    else if k < NumPhysPages then \<exists>v'. inner_loop fuel b bdy v = Inr v' \<and> walked d k v'
    else inner_loop fuel b bdy v = Inl Assertion"
  using v j fuel
proof (induction fuel arbitrary: j v)
  case 0
  then show ?case using pre by (simp add: prefix_free_def)
next
  case (Suc m)
  have it: "iterator v = j" "\<not> SpaceFnd v" using Suc.prems(1) by (simp_all add: walked_def)
  consider "j < k" "int (Suc j) < n" | "j < k" "int (Suc j) = n" | "j = k" using Suc.prems(2,3) by linarith
  then show ?case
  proof cases
    case 1
    then have "walked d (Suc j) (bdy v)" using e Suc.prems(1) by (auto simp: ends_search_def)
    moreover have "inner_loop (Suc m) b bdy v = inner_loop m b bdy (bdy v)"
      using Test_frame [OF b, of j] pre 1 it by (simp add: prefix_free_def)
    ultimately show ?thesis using Suc.IH [of "Suc j" "bdy v"] 1 Suc.prems(4) by simp
  next
    case 2
    then have f: "SpaceFnd (bdy v)" "iterator (bdy v) = Suc j" "good (bdy v)"
      using e Suc.prems(1) by (auto simp: ends_search_def)
    have i: "inner_loop (Suc m) b bdy v = inner_loop m b bdy (bdy v)"
      using Test_frame [OF b, of j] pre 2 it by (simp add: prefix_free_def)
    have "j < NumPhysPages" using 2 pre by (simp add: prefix_free_def)
    then obtain m' where m: "m = Suc m'" using Suc.prems(4) by (cases m) auto
    show ?thesis
    proof (cases "Suc j < NumPhysPages")
      case True
      then have "inner_loop m b bdy (bdy v) = Inr (bdy v)" using Test_frame [OF b, of "Suc j"] f by (simp add: m)
      then show ?thesis using True f 2 by (simp add: i del: inner_loop.simps)
    next
      case False
      then have "Suc j = NumPhysPages" "k = NumPhysPages" using 2 pre by (simp_all add: prefix_free_def)
      moreover from this have "inner_loop m b bdy (bdy v) = Inl Assertion" using Test_past_end [OF b] f by (simp add: m)
      ultimately show ?thesis using f 2 by (simp add: i del: inner_loop.simps)
    qed
  next
    case 3
    show ?thesis
    proof (cases "k < NumPhysPages")
      case True
      then show ?thesis using Test_frame [OF b, of k] pre 3 it Suc.prems by (auto simp: prefix_free_def)
    next
      case False
      then have "k = NumPhysPages" using pre by (simp add: prefix_free_def)
      then show ?thesis using Test_past_end [OF b] 3 it Suc.prems(3) by simp
    qed
  qed
qed

text \<open>At a used frame the outer loop stays for ever.\<close>

lemma outer_loop_stuck:
  "frames_map b \<Longrightarrow> iterator v < NumPhysPages \<Longrightarrow> \<not> free_in b (iterator v) \<Longrightarrow> \<not> SpaceFnd v \<Longrightarrow>
   outer_loop fuel b bdy v = Inl Diverges"
proof (induction fuel arbitrary: v)
  case (Suc m)
  then show ?case
  proof (cases m)
    case 0
    then show ?thesis using Suc.prems by simp
  next
    case (Suc m')
    have "inner_loop m b bdy (v\<lparr>consecFreepgs := 0\<rparr>) = Inr (v\<lparr>consecFreepgs := 0\<rparr>)"
      using Test_frame [OF Suc.prems(1,2)] Suc.prems(3) Suc by simp
    then show ?thesis using Suc.IH [of "v\<lparr>consecFreepgs := 0\<rparr>"] Suc.prems by simp
  qed
qed simp

lemma outer_loop_search:
  assumes b: "frames_map b" and pre: "prefix_free k b" and e: "ends_search n d good bdy"
    and n: "1 \<le> n" and fuel: "NumPhysPages + 2 \<le> fuel"
  shows "if n \<le> int k \<and> n < int NumPhysPages
      then \<exists>v. outer_loop fuel b bdy (marcus_start junk d) = Inr v \<and> int (iterator v) = n \<and> good v
    else outer_loop fuel b bdy (marcus_start junk d) = Inl (if k < NumPhysPages then Diverges else Assertion)"
proof -
  obtain m where m: "fuel = Suc (Suc m)" "NumPhysPages < Suc m" using fuel by (metis Suc_le_D add_2_eq_Suc' Suc_le_mono less_Suc_eq_le)
  let ?v = "marcus_start junk d"
  have w: "walked d 0 (?v\<lparr>consecFreepgs := 0\<rparr>)" by (simp add: walked_def marcus_start_def)
  have o: "outer_loop fuel b bdy ?v = andThen (inner_loop (Suc m) b bdy (?v\<lparr>consecFreepgs := 0\<rparr>)) (outer_loop (Suc m) b bdy)"
    by (simp add: m(1) marcus_start_def NumPhysPages_def)
  note i = inner_loop_search [OF b pre e w _ _ , of "Suc m"]
  show ?thesis
  proof (cases "n \<le> int k \<and> n < int NumPhysPages")
    case True
    then obtain v where v: "inner_loop (Suc m) b bdy (?v\<lparr>consecFreepgs := 0\<rparr>) = Inr v" "SpaceFnd v" "int (iterator v) = n" "good v"
      using i m(2) n by auto
    then show ?thesis using True unfolding o by simp
  next
    case False
    show ?thesis
    proof (cases "k < NumPhysPages")
      case True
      then obtain v where v: "inner_loop (Suc m) b bdy (?v\<lparr>consecFreepgs := 0\<rparr>) = Inr v" "walked d k v"
        using i m(2) n False by auto
      then have "outer_loop (Suc m) b bdy v = Inl Diverges"
        by (intro outer_loop_stuck [OF b]) (use True pre v(2) in \<open>auto simp: walked_def prefix_free_def\<close>)
      then show ?thesis using False True v(1) unfolding o by (simp del: inner_loop.simps outer_loop.simps)
    next
      case full: False
      then have "inner_loop (Suc m) b bdy (?v\<lparr>consecFreepgs := 0\<rparr>) = Inl Assertion"
        using i m(2) n False by auto
      then show ?thesis using False full unfolding o by (simp del: inner_loop.simps outer_loop.simps)
    qed
  qed
qed

lemma first_body_ends: "ends_search n d (\<lambda>v. savedIdx v = 0) (first_body n)"
  by (auto simp: ends_search_def walked_def first_body_def marcus_advance_def Let_def)

lemma best_body_ends: "0 < d \<Longrightarrow> ends_search n d (\<lambda>v. curBestIdx v = 0) (best_body n)"
  by (auto simp: ends_search_def walked_def best_body_def marcus_advance_def Let_def)

lemma worst_body_ends: "d < 0 \<Longrightarrow> ends_search n d (\<lambda>v. curBestIdx v = 0) (worst_body n)"
  by (auto simp: ends_search_def walked_def worst_body_def marcus_advance_def Let_def)

text \<open>
  The three searches of the second version do the same, and no search. Let the first \<open>k\<close> frames be free and the next, if there is one, in
  use. A request for one to \<open>k\<close> frames (not all of memory) gets frame 0, whichever policy is chosen. A larger request never returns,
  even if there is room behind the used frame; and when all of memory is free, a request for all of it or more fails the
  assertion of the bit map.
\<close>

theorem marcus_searches:
  assumes "frames_map b" and "prefix_free k b" and "1 \<le> n" and "NumPhysPages + 2 \<le> fuel"
  defines "outcome \<equiv> if n \<le> int k \<and> n < int NumPhysPages then Inr 0
    else Inl (if k < NumPhysPages then Diverges else Assertion)"
  shows "FirstFit_marcus fuel junk b n = outcome \<and> BestFit_marcus fuel junk b n = outcome \<and>
    WorstFit_marcus fuel junk b n = outcome"
  using outer_loop_search [OF assms(1,2) first_body_ends assms(3,4), of junk 0]
    outer_loop_search [OF assms(1,2) best_body_ends assms(3,4), of 100 junk]
    outer_loop_search [OF assms(1,2) worst_body_ends assms(3,4), of "- 1" junk]
  by (auto simp: FirstFit_marcus_def BestFit_marcus_def WorstFit_marcus_def outcome_def split: if_splits)

text \<open>With frames 4, 5 and 8 in use: two frames are found at 0; for five, although 6 and 9 to 31 are free, the search never ends.\<close>

theorem marcus_searches_witness:
  "FirstFit_marcus 40 7 (demo_frames 0x130) 2 = Inr 0 \<and> BestFit_marcus 40 7 (demo_frames 0x130) 5 = Inl Diverges"
proof -
  have "\<not> bit (0x130 :: 32 word) i" if "i < 4" for i
    using that by (auto simp: less_Suc_eq numeral_eq_Suc bit_numeral_rec)
  then have p: "prefix_free 4 (demo_frames 0x130)"
    by (auto simp: prefix_free_def demo_frames_free size_defs bit_numeral_rec)
  have "(2 :: int) \<le> int 4" by simp
  then show ?thesis
    using marcus_searches [OF demo_frames_ok p, of 2 40 7] marcus_searches [OF demo_frames_ok p, of 5 40 7]
    by (simp add: NumPhysPages_def)
qed

end
