(* ===== verification/Nachos_Stack.thy ===== *)
theory Nachos_Stack
  imports Nachos_Prelude "HOL-Library.Extended_Nat" "HOL-Library.Word"
begin

section \<open>The stacks of the C++ tutorial: c++example\<close>

text \<open>
  The tutorial that comes with Nachos has a stack in an array (stack.cc for integers, templatestack.cc for any type, \<open>ArrayStack\<close> of
  inheritstack.cc), one in a linked list (\<open>ListStack\<close>, with list.cc), and an abstract class with a test that is to work for every
  derived class. The abstract class is a locale here, the derived classes are its interpretations, and the
  test is proved once. The new elements of an array are \<open>junk\<close>; elements of a list are addressed by numbers. What the tests
  print is a list of values of \<open>test_line\<close>.
\<close>

subsection \<open>A stack in an array (templatestack.cc, stack.cc)\<close>

record 'a Stack =
  stk_size :: int
  stk_top :: int
  stk_array :: "'a list"

definition Stack_new :: "(nat \<Rightarrow> 'a) \<Rightarrow> int \<Rightarrow> 'a Stack res" where
  "Stack_new junk sz = ASSERT (sz \<ge> 1) (Inr \<lparr>stk_size = sz, stk_top = 0, stk_array = map junk [0..<nat sz]\<rparr>)"

definition Stack_Full :: "'a Stack \<Rightarrow> bool" where
  "Stack_Full s = (stk_top s = stk_size s)"

definition Stack_Empty :: "'a Stack \<Rightarrow> bool" where
  "Stack_Empty s = (stk_top s = 0)"

definition Stack_Push :: "'a \<Rightarrow> 'a Stack \<Rightarrow> 'a Stack res" where
  "Stack_Push v s = ASSERT (\<not> Stack_Full s)
     (andThen (store (stk_array s) (stk_top s) v) (\<lambda>xs. Inr (s\<lparr>stk_array := xs, stk_top := stk_top s + 1\<rparr>)))"

definition Stack_Pop :: "'a Stack \<Rightarrow> ('a \<times> 'a Stack) res" where
  "Stack_Pop s = ASSERT (\<not> Stack_Empty s)
     (andThen (fetch (stk_array s) (stk_top s - 1)) (\<lambda>v. Inr (v, s\<lparr>stk_top := stk_top s - 1\<rparr>)))"

subsection \<open>A linked list (list.cc)\<close>

record IntList =
  elements :: "nat \<rightharpoonup> int \<times> nat option"
  nextElement :: nat
  l_first :: "nat option"
  l_last :: "nat option"

definition IntList_new :: IntList where
  "IntList_new = \<lparr>elements = Map.empty, nextElement = 0, l_first = None, l_last = None\<rparr>"

definition IntList_Empty :: "IntList \<Rightarrow> bool" where
  "IntList_Empty l = (l_first l = None)"

definition IntList_Prepend :: "int \<Rightarrow> IntList \<Rightarrow> IntList" where
  "IntList_Prepend v l = (let e = nextElement l; l1 = l\<lparr>elements := (elements l)(e \<mapsto> (v, None)), nextElement := e + 1\<rparr>
     in if IntList_Empty l then l1\<lparr>l_first := Some e, l_last := Some e\<rparr>
        else l1\<lparr>elements := (elements l1)(e \<mapsto> (v, l_first l)), l_first := Some e\<rparr>)"

definition IntList_Remove :: "IntList \<Rightarrow> (int \<times> IntList) res" where
  "IntList_Remove l = ASSERT (\<not> IntList_Empty l)
     (case l_first l of None \<Rightarrow> Inl NullPointer | Some e \<Rightarrow> (case elements l e of None \<Rightarrow> Inl NullPointer
      | Some (v, nxt) \<Rightarrow>
        let l1 = (if l_first l = l_last l then l\<lparr>l_first := None, l_last := None\<rparr> else l\<lparr>l_first := nxt\<rparr>)
        in Inr (v, l1\<lparr>elements := (elements l1)(e := None)\<rparr>)))"

subsection \<open>The derived classes and the tests (inheritstack.cc)\<close>

definition ListStack_Push :: "int \<Rightarrow> IntList \<Rightarrow> IntList res" where
  "ListStack_Push v l = Inr (IntList_Prepend v l)"

definition ListStack_Full :: "IntList \<Rightarrow> bool" where
  "ListStack_Full l = False"

definition ListStack_Empty :: "IntList \<Rightarrow> bool" where
  "ListStack_Empty l = IntList_Empty l"

definition ListStack_Pop :: "IntList \<Rightarrow> (int \<times> IntList) res" where
  "ListStack_Pop l = ASSERT (\<not> ListStack_Empty l) (IntList_Remove l)"

datatype 'a test_line = Pushing 'a | Popping 'a

text \<open>The loops of the tests, over the operations of any class of stacks; \<open>nxt\<close> is the operator \<open>++\<close> of the elements.\<close>

fun push_some :: "('a \<Rightarrow> 's \<Rightarrow> 's res) \<Rightarrow> ('s \<Rightarrow> bool) \<Rightarrow> ('a \<Rightarrow> 'a) \<Rightarrow> nat \<Rightarrow> 'a \<Rightarrow> 's \<Rightarrow> ('a test_line list \<times> 's) res" where
  "push_some push full nxt 0 c s = Inr ([], s)"
| "push_some push full nxt (Suc n) c s = ASSERT (\<not> full s) (andThen (push c s) (\<lambda>s1.
     andThen (push_some push full nxt n (nxt c) s1) (\<lambda>(out, s2). Inr (Pushing c # out, s2))))"

fun push_until_full :: "nat \<Rightarrow> ('a \<Rightarrow> 's \<Rightarrow> 's res) \<Rightarrow> ('s \<Rightarrow> bool) \<Rightarrow> ('a \<Rightarrow> 'a) \<Rightarrow> 'a \<Rightarrow> 's \<Rightarrow> ('a test_line list \<times> 's) res" where
  "push_until_full 0 push full nxt c s = Inl Diverges"
| "push_until_full (Suc k) push full nxt c s = (if full s then Inr ([], s) else andThen (push c s) (\<lambda>s1.
     andThen (push_until_full k push full nxt (nxt c) s1) (\<lambda>(out, s2). Inr (Pushing c # out, s2))))"

fun pop_until_empty :: "nat \<Rightarrow> ('s \<Rightarrow> ('a \<times> 's) res) \<Rightarrow> ('s \<Rightarrow> bool) \<Rightarrow> 's \<Rightarrow> ('a test_line list \<times> 's) res" where
  "pop_until_empty 0 pop is_empty s = Inl Diverges"
| "pop_until_empty (Suc k) pop is_empty s = (if is_empty s then Inr ([], s) else andThen (pop s) (\<lambda>(v, s1).
     andThen (pop_until_empty k pop is_empty s1) (\<lambda>(out, s2). Inr (Popping v # out, s2))))"

text \<open>\<open>Stack::SelfTest\<close> of the abstract class, and the tests of the array stacks.\<close>

definition SelfTest :: "nat \<Rightarrow> (int \<Rightarrow> 's \<Rightarrow> 's res) \<Rightarrow> ('s \<Rightarrow> (int \<times> 's) res) \<Rightarrow> ('s \<Rightarrow> bool) \<Rightarrow> ('s \<Rightarrow> bool) \<Rightarrow> nat \<Rightarrow> 's \<Rightarrow>
    (int test_line list \<times> 's) res" where
  "SelfTest k push pop full is_empty numToPush s =
     andThen (push_some push full (\<lambda>c. c + 1) numToPush 17 s) (\<lambda>(out1, s1).
     andThen (pop_until_empty k pop is_empty s1) (\<lambda>(out2, s2). Inr (out1 @ out2, s2)))"

definition Stack_SelfTest :: "nat \<Rightarrow> ('a \<Rightarrow> 'a) \<Rightarrow> 'a \<Rightarrow> 'a Stack \<Rightarrow> ('a test_line list \<times> 'a Stack) res" where
  "Stack_SelfTest k nxt start s =
     andThen (push_until_full k Stack_Push Stack_Full nxt start s) (\<lambda>(out1, s1).
     andThen (pop_until_empty k Stack_Pop Stack_Empty s1) (\<lambda>(out2, s2). Inr (out1 @ out2, s2)))"

definition IntStack_SelfTest :: "nat \<Rightarrow> int Stack \<Rightarrow> (int test_line list \<times> int Stack) res" where
  "IntStack_SelfTest k = Stack_SelfTest k (\<lambda>c. c + 1) 17"

text \<open>The destructor of a list, and \<open>main\<close> of inheritstack.cc: both classes are tested with ten numbers and then deleted.\<close>

fun IntList_delete :: "nat \<Rightarrow> IntList \<Rightarrow> IntList res" where
  "IntList_delete 0 l = Inl Diverges"
| "IntList_delete (Suc k) l = (if IntList_Empty l then Inr l else andThen (IntList_Remove l) (\<lambda>(v, l1). IntList_delete k l1))"

definition inherit_main :: "nat \<Rightarrow> (nat \<Rightarrow> int) \<Rightarrow> int test_line list res" where
  "inherit_main k junk = andThen (Stack_new junk 10) (\<lambda>s1.
     andThen (SelfTest k Stack_Push Stack_Pop Stack_Full Stack_Empty 10 s1) (\<lambda>(out1, _).
     andThen (SelfTest k ListStack_Push ListStack_Pop ListStack_Full ListStack_Empty 10 IntList_new) (\<lambda>(out2, l2).
     andThen (IntList_delete k l2) (\<lambda>_. Inr (out1 @ out2)))))"

text \<open>\<open>main\<close> of stack.cc and of templatestack.cc, which tests a stack of integers and one of characters.\<close>

definition stack_main :: "nat \<Rightarrow> (nat \<Rightarrow> int) \<Rightarrow> int test_line list res" where
  "stack_main k junk = andThen (Stack_new junk 10) (\<lambda>s. andThen (IntStack_SelfTest k s) (\<lambda>(out, _). Inr out))"

definition template_main :: "nat \<Rightarrow> (nat \<Rightarrow> int) \<Rightarrow> (nat \<Rightarrow> 8 word) \<Rightarrow> (int test_line list \<times> 8 word test_line list) res" where
  "template_main k junk junkC = andThen (Stack_new junk 10) (\<lambda>s1. andThen (Stack_new junkC 10) (\<lambda>s2.
     andThen (Stack_SelfTest k (\<lambda>c. c + 1) 17 s1) (\<lambda>(out1, _).
     andThen (Stack_SelfTest k (\<lambda>c. c + 1) (word_of_int (of_char (CHR ''a''))) s2) (\<lambda>(out2, _). Inr (out1, out2)))))"

text \<open>What a test of \<open>n\<close> elements from \<open>c\<close> on is to print: they are pushed, and come back in the opposite order.\<close>

definition test_lines :: "('a \<Rightarrow> 'a) \<Rightarrow> nat \<Rightarrow> 'a \<Rightarrow> 'a test_line list" where
  "test_lines nxt n c = (let vs = map (\<lambda>i. (nxt ^^ i) c) [0..<n] in map Pushing vs @ map Popping (rev vs))"

subsection \<open>The contract of a class of stacks\<close>

lemma enat_pos: "r \<noteq> 0 \<Longrightarrow> \<exists>r'. r = eSuc r'"
proof (cases r)
  case (enat m)
  then show "r \<noteq> 0 \<Longrightarrow> \<exists>r'. r = eSuc r'" by (cases m) (auto simp: zero_enat_def eSuc_enat [symmetric])
next
  case infinity
  then show "\<exists>r'. r = eSuc r'" by (metis eSuc_infinity)
qed

text \<open>
  \<open>represents s xs r\<close>: the stack \<open>s\<close> holds \<open>xs\<close>, the top first, and has room for \<open>r\<close> more, which may be infinity.
\<close>

locale stack_class =
  fixes push :: "'a \<Rightarrow> 's \<Rightarrow> 's res" and pop :: "'s \<Rightarrow> ('a \<times> 's) res" and full :: "'s \<Rightarrow> bool" and is_empty :: "'s \<Rightarrow> bool"
    and represents :: "'s \<Rightarrow> 'a list \<Rightarrow> enat \<Rightarrow> bool"
  assumes push_law: "represents s xs (eSuc r) \<Longrightarrow> \<exists>s'. push x s = Inr s' \<and> represents s' (x # xs) r"
    and pop_law: "represents s (x # xs) r \<Longrightarrow> \<exists>s'. pop s = Inr (x, s') \<and> represents s' xs (eSuc r)"
    and full_law: "represents s xs r \<Longrightarrow> full s \<longleftrightarrow> r = 0"
    and empty_law: "represents s xs r \<Longrightarrow> is_empty s \<longleftrightarrow> xs = []"
begin

text \<open>The values \<open>c, nxt c, nxt (nxt c), ...\<close> that a test pushes.\<close>

lemma push_some_room:
  "represents s xs (enat n + r) \<Longrightarrow> \<exists>s'. push_some push full nxt n c s = Inr (map Pushing (map (\<lambda>i. (nxt ^^ i) c) [0..<n]), s') \<and>
     represents s' (rev (map (\<lambda>i. (nxt ^^ i) c) [0..<n]) @ xs) r"
proof (induction n arbitrary: c s xs)
  case 0
  then show ?case by (simp add: zero_enat_def [symmetric])
next
  case (Suc n)
  have r: "represents s xs (eSuc (enat n + r))" using Suc.prems by (simp add: eSuc_enat [symmetric] iadd_Suc)
  obtain s1 where s1: "push c s = Inr s1" "represents s1 (c # xs) (enat n + r)" using push_law [OF r] by blast
  obtain s2 where "push_some push full nxt n (nxt c) s1 = Inr (map Pushing (map (\<lambda>i. (nxt ^^ i) (nxt c)) [0..<n]), s2)"
    "represents s2 (rev (map (\<lambda>i. (nxt ^^ i) (nxt c)) [0..<n]) @ c # xs) r" using Suc.IH [OF s1(2)] by blast
  moreover have "map (\<lambda>i. (nxt ^^ i) c) [0..<Suc n] = c # map (\<lambda>i. (nxt ^^ i) (nxt c)) [0..<n]"
    by (simp only: upt_conv_Cons zero_less_Suc map_Suc_upt [symmetric] list.map)
      (simp add: funpow_swap1)
  ultimately show ?case using s1(1) full_law [OF r] by simp
qed

lemma push_some_no_room:
  "represents s xs r \<Longrightarrow> r < enat n \<Longrightarrow> push_some push full nxt n c s = Inl Assertion"
proof (induction n arbitrary: c s xs r)
  case 0
  then show ?case by (simp add: zero_enat_def [symmetric])
next
  case (Suc n)
  show ?case
  proof (cases "r = 0")
    case True
    then show ?thesis using full_law [OF Suc.prems(1)] by simp
  next
    case False
    then obtain r' where r': "r = eSuc r'" using enat_pos by blast
    obtain s1 where s1: "push c s = Inr s1" "represents s1 (c # xs) r'" using push_law Suc.prems(1) r' by blast
    have "r' < enat n" using Suc.prems(2) by (simp add: r' eSuc_enat [symmetric] eSuc_mono)
    then show ?thesis using s1(1) Suc.IH [OF s1(2)] full_law [OF Suc.prems(1)] by (simp add: r')
  qed
qed

lemma pop_until_empty_all:
  "represents s xs r \<Longrightarrow> length xs < k \<Longrightarrow> \<exists>s'. pop_until_empty k pop is_empty s = Inr (map Popping xs, s') \<and>
     represents s' [] (enat (length xs) + r)"
proof (induction xs arbitrary: s r k)
  case Nil
  then show ?case using empty_law [OF Nil(1)] by (cases k) (simp_all add: zero_enat_def [symmetric])
next
  case (Cons x xs)
  obtain k' where k: "k = Suc k'" using Cons.prems(2) by (cases k) auto
  obtain s1 where s1: "pop s = Inr (x, s1)" "represents s1 xs (eSuc r)" using pop_law [OF Cons.prems(1)] by blast
  obtain s2 where "pop_until_empty k' pop is_empty s1 = Inr (map Popping xs, s2)" "represents s2 [] (enat (length xs) + eSuc r)"
    using Cons.IH [OF s1(2), of k'] Cons.prems(2) k by auto
  then show ?case using s1(1) empty_law [OF Cons.prems(1)] k by (simp add: eSuc_enat [symmetric] iadd_Suc iadd_Suc_right)
qed

lemma push_until_full_room:
  "represents s xs (enat n) \<Longrightarrow> n < k \<Longrightarrow> push_until_full k push full nxt c s = push_some push full nxt n c s"
proof (induction n arbitrary: c s xs k)
  case 0
  then show ?case using full_law [OF 0(1)] by (cases k) (simp_all add: zero_enat_def)
next
  case (Suc n)
  obtain k' where k: "k = Suc k'" using Suc.prems(2) by (cases k) auto
  have r: "represents s xs (eSuc (enat n))" using Suc.prems by (simp add: eSuc_enat)
  obtain s1 where s1: "push c s = Inr s1" "represents s1 (c # xs) (enat n)" using push_law [OF r] by blast
  then show ?case using full_law [OF r] Suc.IH [OF s1(2), of k'] Suc.prems(2) k by simp
qed

lemma test_prints:
  assumes "represents s [] (enat n + r)" and "n < k"
  shows "\<exists>s'. andThen (push_some push full nxt n c s) (\<lambda>(out1, s1). andThen (pop_until_empty k pop is_empty s1)
      (\<lambda>(out2, s2). Inr (out1 @ out2, s2))) = Inr (test_lines nxt n c, s') \<and> represents s' [] (enat n + r)"
proof -
  let ?vs = "map (\<lambda>i. (nxt ^^ i) c) [0..<n]"
  obtain s1 where s1: "push_some push full nxt n c s = Inr (map Pushing ?vs, s1)" "represents s1 (rev ?vs) r"
    using push_some_room [OF assms(1), of nxt c] by auto
  have "length (rev ?vs) < k" using assms(2) by simp
  then obtain s2 where "pop_until_empty k pop is_empty s1 = Inr (map Popping (rev ?vs), s2)" "represents s2 [] (enat n + r)"
    using pop_until_empty_all [OF s1(2)] by fastforce
  then show ?thesis using s1(1) by (simp add: test_lines_def Let_def)
qed

end

subsection \<open>The two classes fulfil it\<close>

definition array_represents :: "'a Stack \<Rightarrow> 'a list \<Rightarrow> enat \<Rightarrow> bool" where
  "array_represents s xs r \<longleftrightarrow> 0 \<le> stk_top s \<and> stk_top s \<le> stk_size s \<and> length (stk_array s) = nat (stk_size s) \<and>
     xs = rev (take (nat (stk_top s)) (stk_array s)) \<and> r = enat (nat (stk_size s - stk_top s))"

lemma array_push:
  assumes "array_represents s xs (eSuc r)"
  shows "\<exists>s'. Stack_Push x s = Inr s' \<and> array_represents s' (x # xs) r"
proof -
  obtain n where n: "r = enat n" "stk_size s = stk_top s + int n + 1"
    using assms by (cases r) (auto simp: array_represents_def eSuc_enat)
  obtain t where t: "stk_top s = int t" using assms by (auto simp: array_represents_def dest: nonneg_int_cases)
  have len: "t < length (stk_array s)" "xs = rev (take t (stk_array s))" using assms n t by (auto simp: array_represents_def)
  then show ?thesis using n t assms
    by (auto simp: Stack_Push_def Stack_Full_def array_represents_def nat_add_distrib take_Suc_conv_app_nth)
qed

lemma array_pop:
  assumes "array_represents s (x # xs) r"
  shows "\<exists>s'. Stack_Pop s = Inr (x, s') \<and> array_represents s' xs (eSuc r)"
proof -
  obtain t where t: "stk_top s = int (Suc t)"
    using assms by (cases "nat (stk_top s)") (auto simp: array_represents_def nat_eq_iff)
  have len: "t < length (stk_array s)" using assms t by (auto simp: array_represents_def)
  then have "x # xs = stk_array s ! t # rev (take t (stk_array s))"
    using assms t by (simp add: array_represents_def take_Suc_conv_app_nth del: of_nat_Suc)
  then show ?thesis using len t assms
    by (auto simp: Stack_Pop_def Stack_Empty_def array_represents_def eSuc_enat nat_eq_iff)
qed

interpretation arr: stack_class Stack_Push Stack_Pop Stack_Full Stack_Empty array_represents
proof (unfold_locales)
  show "array_represents s xs r \<Longrightarrow> Stack_Full s \<longleftrightarrow> r = 0" for s :: "'a Stack" and xs r
    by (auto simp: array_represents_def Stack_Full_def zero_enat_def)
  show "array_represents s xs r \<Longrightarrow> Stack_Empty s \<longleftrightarrow> xs = []" for s :: "'a Stack" and xs r
    by (auto simp: array_represents_def Stack_Empty_def)
qed (rule array_push array_pop; assumption)+

fun cells_linked :: "(nat \<rightharpoonup> int \<times> nat option) \<Rightarrow> nat option \<Rightarrow> nat list \<Rightarrow> int list \<Rightarrow> bool" where
  "cells_linked h p [] xs = (p = None \<and> xs = [])"
| "cells_linked h p (e # es) [] = False"
| "cells_linked h p (e # es) (x # xs) = (p = Some e \<and> (\<exists>q. h e = Some (x, q) \<and> cells_linked h q es xs))"

definition list_represents :: "IntList \<Rightarrow> int list \<Rightarrow> enat \<Rightarrow> bool" where
  "list_represents l xs r \<longleftrightarrow> r = \<infinity> \<and> (\<exists>es. cells_linked (elements l) (l_first l) es xs \<and> distinct es \<and>
     (\<forall>e \<in> set es. e < nextElement l) \<and> l_last l = (if es = [] then None else Some (last es)))"

lemma cells_linked_update: "e \<notin> set es \<Longrightarrow> cells_linked (h(e := v)) p es xs = cells_linked h p es xs"
  by (induction h p es xs rule: cells_linked.induct) auto

lemma list_push: "list_represents l xs (eSuc r) \<Longrightarrow> \<exists>l'. ListStack_Push x l = Inr l' \<and> list_represents l' (x # xs) r"
proof -
  assume a: "list_represents l xs (eSuc r)"
  have r: "r = \<infinity>" using a by (cases r) (auto simp: list_represents_def eSuc_enat)
  obtain es where es: "cells_linked (elements l) (l_first l) es xs" "distinct es" "\<forall>e \<in> set es. e < nextElement l"
    "l_last l = (if es = [] then None else Some (last es))" using a by (auto simp: list_represents_def)
  have new: "nextElement l \<notin> set es" using es(3) by blast
  have "cells_linked ((elements l)(nextElement l \<mapsto> v)) (l_first l) es xs" for v using es(1) new by (simp add: cells_linked_update)
  moreover have "es = [] \<longleftrightarrow> l_first l = None" using es(1) by (cases es; cases xs) auto
  ultimately have "list_represents (IntList_Prepend x l) (x # xs) r"
    using es new unfolding list_represents_def r
    by (intro conjI exI [of _ "nextElement l # es"]) (auto simp: IntList_Prepend_def Let_def IntList_Empty_def)
  then show ?thesis by (simp add: ListStack_Push_def)
qed

lemma list_pop: "list_represents l (x # xs) r \<Longrightarrow> \<exists>l'. ListStack_Pop l = Inr (x, l') \<and> list_represents l' xs (eSuc r)"
proof -
  assume a: "list_represents l (x # xs) r"
  then obtain es0 where es0: "cells_linked (elements l) (l_first l) es0 (x # xs)" "distinct es0" "\<forall>e \<in> set es0. e < nextElement l"
    "l_last l = (if es0 = [] then None else Some (last es0))" and r: "r = \<infinity>" by (auto simp: list_represents_def)
  then obtain e es where e: "es0 = e # es" by (cases es0) auto
  then obtain q where es: "l_first l = Some e" "elements l e = Some (x, q)" "cells_linked (elements l) q es xs"
    "distinct (e # es)" "\<forall>e \<in> set (e # es). e < nextElement l" "l_last l = Some (last (e # es))"
    using es0 by auto
  have one: "l_first l = l_last l \<longleftrightarrow> es = []" using es(1,4,6) by (cases es rule: rev_cases) auto
  have q: "es = [] \<Longrightarrow> q = None" using es(3) by simp
  define l' where "l' = (if es = [] then l\<lparr>l_first := None, l_last := None\<rparr> else l\<lparr>l_first := q\<rparr>)
    \<lparr>elements := (elements l)(e := None)\<rparr>"
  have "ListStack_Pop l = Inr (x, l')"
    using es(1,2) one by (auto simp: ListStack_Pop_def ListStack_Empty_def IntList_Empty_def IntList_Remove_def Let_def l'_def)
  moreover have "list_represents l' xs (eSuc r)"
    using es q unfolding list_represents_def r by (intro conjI exI [of _ es]) (auto simp: l'_def cells_linked_update)
  ultimately show ?thesis by blast
qed

interpretation lst: stack_class ListStack_Push ListStack_Pop ListStack_Full ListStack_Empty list_represents
proof (unfold_locales)
  show "list_represents l xs r \<Longrightarrow> ListStack_Full l \<longleftrightarrow> r = 0" for l xs r
    by (simp add: list_represents_def ListStack_Full_def)
  show "list_represents l xs r \<Longrightarrow> ListStack_Empty l \<longleftrightarrow> xs = []" for l xs r
    by (auto simp: list_represents_def ListStack_Empty_def IntList_Empty_def elim: cells_linked.elims)
qed (rule list_push list_pop; assumption)+

subsection \<open>The tests\<close>

lemma Stack_new_represents: "1 \<le> sz \<Longrightarrow> \<exists>s. Stack_new junk sz = Inr s \<and> array_represents s [] (enat (nat sz))"
  by (simp add: Stack_new_def array_represents_def)

lemma IntList_new_represents: "list_represents IntList_new [] \<infinity>"
  by (auto simp: list_represents_def IntList_new_def intro!: exI [of _ "[]"])

lemma array_self_test:
  assumes "array_represents s [] (enat (nat sz))" and "n < k" and "1 \<le> sz"
  shows "if int n \<le> sz then \<exists>s'. SelfTest k Stack_Push Stack_Pop Stack_Full Stack_Empty n s = Inr (test_lines (\<lambda>c. c + 1) n 17, s')
    else SelfTest k Stack_Push Stack_Pop Stack_Full Stack_Empty n s = Inl Assertion"
proof (cases "int n \<le> sz")
  case True
  then have "enat (nat sz) = enat n + enat (nat sz - n)" by simp
  then show ?thesis using arr.test_prints [of s n "enat (nat sz - n)" k "\<lambda>c. c + 1" 17] assms True by (auto simp: SelfTest_def)
next
  case False
  then have "enat (nat sz) < enat n" using assms(3) by simp
  then show ?thesis using arr.push_some_no_room [OF assms(1)] False by (simp add: SelfTest_def)
qed

lemma template_self_test:
  assumes "1 \<le> sz" and "nat sz < k"
  shows "\<exists>t. Stack_new junk sz = Inr t \<and> (\<exists>t'. Stack_SelfTest k nxt start t = Inr (test_lines nxt (nat sz) start, t'))"
proof -
  obtain t where t: "Stack_new junk sz = Inr t" "array_represents t [] (enat (nat sz))"
    using Stack_new_represents [OF assms(1)] by blast
  then have "array_represents t [] (enat (nat sz) + 0)" by simp
  from arr.test_prints [OF this assms(2)] show ?thesis
    unfolding Stack_SelfTest_def using arr.push_until_full_room [OF t(2) assms(2), of nxt start] t(1) by metis
qed

lemma list_self_test:
  assumes "n < k"
  shows "\<exists>l. SelfTest k ListStack_Push ListStack_Pop ListStack_Full ListStack_Empty n IntList_new = Inr (test_lines (\<lambda>c. c + 1) n 17, l) \<and>
    IntList_Empty l"
proof -
  have "list_represents IntList_new [] (enat n + \<infinity>)" using IntList_new_represents by simp
  from lst.test_prints [OF this assms, of "\<lambda>c. c + 1" 17] obtain l
    where "SelfTest k ListStack_Push ListStack_Pop ListStack_Full ListStack_Empty n IntList_new = Inr (test_lines (\<lambda>c. c + 1) n 17, l)"
      "list_represents l [] (enat n + \<infinity>)" unfolding SelfTest_def by blast
  then show ?thesis using lst.empty_law by (auto simp: ListStack_Empty_def)
qed

text \<open>
  The test of the abstract class gives the same for both derived classes, as the tutorial says it should: with any number of elements
  that the array has room for, both print the numbers from 17 on as they are pushed and then in the opposite
  order, and \<open>main\<close> does it for ten. The array stack stops at an assertion if the number is larger, the list stack never does. The
  test of the template class fills the stack with the successors of the start value, whatever its type, and empties
  it. The loops end after as many turns as there are elements.
\<close>

theorem stack_self_tests:
  assumes "1 \<le> sz" and "n < k" and "nat sz < k" and "10 < k"
  shows "\<exists>s l t. Stack_new junk sz = Inr s \<and>
    (if int n \<le> sz then \<exists>s'. SelfTest k Stack_Push Stack_Pop Stack_Full Stack_Empty n s = Inr (test_lines (\<lambda>c. c + 1) n 17, s')
     else SelfTest k Stack_Push Stack_Pop Stack_Full Stack_Empty n s = Inl Assertion) \<and>
    SelfTest k ListStack_Push ListStack_Pop ListStack_Full ListStack_Empty n IntList_new = Inr (test_lines (\<lambda>c. c + 1) n 17, l) \<and>
    Stack_new junkT sz = Inr t \<and> (\<exists>t'. Stack_SelfTest k nxt start t = Inr (test_lines nxt (nat sz) start, t')) \<and>
    inherit_main k junk = Inr (test_lines (\<lambda>c. c + 1) 10 17 @ test_lines (\<lambda>c. c + 1) 10 17) \<and>
    stack_main k junk = Inr (test_lines (\<lambda>c. c + 1) 10 17) \<and>
    template_main k junk junkC = Inr (test_lines (\<lambda>c. c + 1) 10 17, test_lines (\<lambda>c. c + 1) 10 97)"
proof -
  obtain s where s: "Stack_new junk sz = Inr s" "array_represents s [] (enat (nat sz))"
    using Stack_new_represents [OF assms(1)] by blast
  obtain u where u: "Stack_new junk 10 = Inr u" "array_represents u [] (enat (nat 10))"
    using Stack_new_represents [of 10 junk] by auto
  obtain l where l: "SelfTest k ListStack_Push ListStack_Pop ListStack_Full ListStack_Empty n IntList_new = Inr (test_lines (\<lambda>c. c + 1) n 17, l)"
    using list_self_test [OF assms(2)] by blast
  have "inherit_main k junk = Inr (test_lines (\<lambda>c. c + 1) 10 17 @ test_lines (\<lambda>c. c + 1) 10 17)"
    using array_self_test [OF u(2), of 10 k] list_self_test [of 10 k] assms(4) u(1) by (cases k) (auto simp: inherit_main_def)
  moreover have "stack_main k junk = Inr (test_lines (\<lambda>c. c + 1) 10 17)"
    using template_self_test [of 10 k junk "\<lambda>c. c + 1" 17] assms(4) by (auto simp: stack_main_def IntStack_SelfTest_def)
  moreover have "template_main k junk junkC = Inr (test_lines (\<lambda>c. c + 1) 10 17, test_lines (\<lambda>c. c + 1) 10 97)"
    using template_self_test [of 10 k junk "\<lambda>c. c + 1" 17] template_self_test [of 10 k junkC "\<lambda>c. c + 1" 97] assms(4)
    by (auto simp: template_main_def)
  ultimately show ?thesis
    using s l array_self_test [OF s(2) assms(2,1)] template_self_test [OF assms(1,3), of junkT nxt start] by auto
qed

theorem stack_self_tests_witness:
  "inherit_main 11 (\<lambda>_. 0) = Inr (test_lines (\<lambda>c. c + 1) 10 17 @ test_lines (\<lambda>c. c + 1) 10 17) \<and>
   test_lines (\<lambda>c. c + 1) 3 17 = [Pushing 17, Pushing 18, Pushing 19, Popping 19, Popping 18, Popping (17 :: int)]"
proof (rule conjI)
  show "inherit_main 11 (\<lambda>_. 0) = Inr (test_lines (\<lambda>c. c + 1) 10 17 @ test_lines (\<lambda>c. c + 1) 10 17)"
    using stack_self_tests [of 10 10 11 "\<lambda>_. 0" "\<lambda>_. 0" "\<lambda>c. c" "0 :: int" "\<lambda>_. 0"] by auto
  show "test_lines (\<lambda>c. c + 1) 3 17 = [Pushing 17, Pushing 18, Pushing 19, Popping 19, Popping 18, Popping (17 :: int)]"
    by (simp add: test_lines_def upt_rec Let_def numeral_2_eq_2)
qed

end
