(* ===== verification/Nachos_Flat.thy ===== *)
theory Nachos_Flat
  imports Nachos_Coff
begin

section \<open>From COFF to a flat file: bin/coff2flat.c\<close>

text \<open>
  The converter for the file format of Nachos 2, whose output is to be copied directly to memory. It reads the structs of
  the COFF format, which \<open>Nachos_Coff\<close> has from coff.h (here they come from the headers of the host), and fails with the same messages.
  The output file is the list of its bytes with a position; a write behind the end fills the gap with zeros.
\<close>

definition StackSize :: "32 word" where "StackSize = 1024"

definition flat_Write :: "nat \<Rightarrow> 8 word list \<Rightarrow> nat \<Rightarrow> 8 word list \<Rightarrow> coff_stop + (8 word list \<times> nat)" where
  "flat_Write room out pos buf = (if pos + length buf > room then Inl UnableToWrite
     else Inr (take pos (out @ replicate (pos - length out) 0) @ buf @ drop (pos + length buf) out, pos + length buf))"

record Flat =
  flat_out :: "8 word list"
  fdOut_pos :: nat
  flat_in :: nat
  top_addr :: "32 word"

definition flat_section :: "host_file \<Rightarrow> nat \<Rightarrow> Flat \<Rightarrow> scnhdr \<Rightarrow> coff_stop + Flat" where
  "flat_section f room c0 x = (let e = s_paddr x + s_size x;
       c = (if sint e > sint (top_addr c0) then c0\<lparr>top_addr := e\<rparr> else c0) in
     if \<not> name_is x ''.bss'' \<and> \<not> name_is x ''.sbss'' then
       proceed (coff_Read f (coff_lseek (flat_in c) (s_scnptr x)) (sint (s_size x))) (\<lambda>(buffer, pos).
       proceed (flat_Write room (flat_out c) (fdOut_pos c) buffer) (\<lambda>(out, p).
       Inr (c\<lparr>flat_out := out, fdOut_pos := p, flat_in := pos\<rparr>)))
     else Inr c)"

definition coff2flat :: "nat \<Rightarrow> host_file option \<Rightarrow> nat \<Rightarrow> coff_stop + host_file" where
  "coff2flat argc fdIn room = (if argc < 2 then Inl UsageMessage else case fdIn of None \<Rightarrow> Inl CannotOpen | Some f \<Rightarrow>
     proceed (coff_Read f 0 20) (\<lambda>(b1, p1). let fileh = filehdr_of b1 in
     if f_magic fileh \<noteq> MIPSELMAGIC then Inl NotMipsel else
     proceed (coff_Read f p1 56) (\<lambda>(b2, p2). let systemh = aouthdr_of b2 in
     if magic systemh \<noteq> OMAGIC then Inl NotOmagic else
     let numsections = unat (f_nscns fileh) in
     proceed (coff_Read f p2 (int (numsections * 40))) (\<lambda>(b3, p3).
     let sections = map (\<lambda>i. scnhdr_of (take 40 (drop (40 * i) b3))) [0..<numsections] in
     proceed (for_each (flat_section f room) \<lparr>flat_out = [], fdOut_pos = 0, flat_in = p3, top_addr = 0\<rparr> sections) (\<lambda>c.
     proceed (flat_Write room (flat_out c) (coff_lseek (fdOut_pos c) (top_addr c + StackSize - 4)) (word_bytes 0)) (\<lambda>(out, p).
     Inr out))))))"

subsection \<open>What the output contains\<close>

definition has_contents :: "scnhdr \<Rightarrow> bool" where
  "has_contents x \<longleftrightarrow> \<not> name_is x ''.bss'' \<and> \<not> name_is x ''.sbss''"

definition addr_in :: "scnhdr \<Rightarrow> nat" where
  "addr_in x = nat (sint (s_paddr x))"

text \<open>The address behind the last section, and the contents one after the other.\<close>

definition flat_top :: "scnhdr list \<Rightarrow> nat" where
  "flat_top xs = foldl (\<lambda>m x. max m (addr_in x + size_in x)) 0 xs"

definition contents_of :: "host_file \<Rightarrow> scnhdr list \<Rightarrow> 8 word list" where
  "contents_of f xs = concat (map (section_bytes f) (filter has_contents xs))"

definition placeable :: "host_file \<Rightarrow> scnhdr \<Rightarrow> bool" where
  "placeable f x \<longleftrightarrow> 0 \<le> sint (s_paddr x) \<and> 0 \<le> sint (s_size x) \<and> sint (s_paddr x) + sint (s_size x) + 1024 < 2 ^ 31 \<and>
     (has_contents x \<longrightarrow> 0 \<le> sint (s_scnptr x) \<and> length (section_bytes f x) = size_in x)"

text \<open>Memory as the file describes it, with every section at its address, zeros elsewhere, and room for a stack.\<close>

definition flat_image :: "host_file \<Rightarrow> 8 word list" where
  "flat_image f = foldl (\<lambda>img x. overwrite img (addr_in x) (section_bytes f x))
     (replicate (flat_top (sections_of f) + 1024) 0) (filter has_contents (sections_of f))"

fun packed :: "nat \<Rightarrow> scnhdr list \<Rightarrow> bool" where
  "packed a [] = True"
| "packed a (x # xs) = (addr_in x = a \<and> packed (a + size_in x) xs)"

definition flat_ok :: "host_file \<Rightarrow> scnhdr list \<Rightarrow> Flat \<Rightarrow> bool" where
  "flat_ok f xs c \<longleftrightarrow> flat_out c = contents_of f xs \<and> fdOut_pos c = length (contents_of f xs) \<and>
     sint (top_addr c) = int (flat_top xs) \<and> flat_top xs + 1024 < 2 ^ 31"

lemma flat_Write_end: "length out + length buf \<le> room \<Longrightarrow>
    flat_Write room out (length out) buf = Inr (out @ buf, length (out @ buf))"
  by (simp add: flat_Write_def)

lemma contents_snoc: "contents_of f (xs @ [x]) = contents_of f xs @ (if has_contents x then section_bytes f x else [])"
  by (simp add: contents_of_def)

lemma flat_section_ok:
  assumes "flat_ok f xs c" and "placeable f x" and "length (contents_of f (xs @ [x])) \<le> room"
  shows "\<exists>c'. flat_section f room c x = Inr c' \<and> flat_ok f (xs @ [x]) c'"
proof -
  have x: "0 \<le> sint (s_paddr x)" "0 \<le> sint (s_size x)" "sint (s_paddr x) + sint (s_size x) + 1024 < 2 ^ 31"
    using assms(2) by (simp_all add: placeable_def)
  have "s_paddr x + s_size x = word_of_int (sint (s_paddr x) + sint (s_size x))" by simp
  then have "sint (s_paddr x + s_size x) = sint (s_paddr x) + sint (s_size x)" using x by (simp only: sint_int32)
  then have e: "sint (s_paddr x + s_size x) = int (addr_in x + size_in x)" using x by (simp add: addr_in_def size_in_def)
  define c1 where "c1 = (if sint (s_paddr x + s_size x) > sint (top_addr c) then c\<lparr>top_addr := s_paddr x + s_size x\<rparr> else c)"
  have c: "flat_out c1 = contents_of f xs" "fdOut_pos c1 = length (contents_of f xs)"
    "sint (top_addr c1) = int (flat_top (xs @ [x]))" "flat_top (xs @ [x]) + 1024 < 2 ^ 31"
    using assms(1) e x by (auto simp: flat_ok_def c1_def flat_top_def addr_in_def size_in_def)
  show ?thesis
  proof (cases "has_contents x")
    case False
    then have "flat_section f room c x = Inr c1" by (auto simp: flat_section_def has_contents_def Let_def c1_def)
    then show ?thesis using c False by (simp add: flat_ok_def contents_snoc)
  next
    case True
    then have p: "0 \<le> sint (s_scnptr x)" "length (section_bytes f x) = size_in x" using assms(2) by (simp_all add: placeable_def)
    have nn: "\<not> sint (s_size x) < 0" using x(2) by linarith
    have sz: "int (size_in x) = sint (s_size x)" using x(2) by (simp add: size_in_def)
    have r: "\<exists>q. coff_Read f (coff_lseek (flat_in c1) (s_scnptr x)) (sint (s_size x)) = Inr (section_bytes f x, q)"
      using p x(2) sz nn by (simp add: coff_Read_def coff_lseek_def Let_def section_bytes_def size_in_def)
    then obtain q where q: "coff_Read f (coff_lseek (flat_in c1) (s_scnptr x)) (sint (s_size x)) = Inr (section_bytes f x, q)" by blast
    have w: "flat_Write room (contents_of f xs) (length (contents_of f xs)) (section_bytes f x) =
        Inr (contents_of f (xs @ [x]), length (contents_of f (xs @ [x])))"
      using flat_Write_end [of "contents_of f xs" "section_bytes f x" room] assms(3) True by (simp add: contents_snoc)
    have "flat_section f room c x = Inr (c1\<lparr>flat_out := contents_of f (xs @ [x]),
        fdOut_pos := length (contents_of f (xs @ [x])), flat_in := q\<rparr>)"
      using True q w c(1,2) by (simp add: flat_section_def has_contents_def Let_def flip: c1_def)
    then show ?thesis using c by (simp add: flat_ok_def)
  qed
qed

lemma for_each_flat:
  assumes "\<forall>x \<in> set xs. placeable f x" and "length (contents_of f xs) \<le> room" and "flat_ok f [] c"
  shows "\<exists>c'. for_each (flat_section f room) c xs = Inr c' \<and> flat_ok f xs c'"
  using assms(1,2)
proof (induction xs rule: rev_induct)
  case (snoc x xs)
  have "length (contents_of f xs) \<le> room" using snoc.prems(2) by (simp add: contents_snoc)
  then obtain c' where c': "for_each (flat_section f room) c xs = Inr c'" "flat_ok f xs c'"
    using snoc.IH snoc.prems(1) by auto
  then obtain c'' where "flat_section f room c' x = Inr c''" "flat_ok f (xs @ [x]) c''"
    using flat_section_ok [OF c'(2), of x room] snoc.prems by auto
  then show ?case using c'(1) by (simp add: for_each_append)
qed (use assms(3) in simp)

lemma flat_sections_read:
  "map (\<lambda>i. scnhdr_of (take 40 (drop (40 * i) (take (n * 40) (drop 76 f))))) [0..<n] =
   map (\<lambda>i. scnhdr_of (take 40 (drop (76 + 40 * i) f))) [0..<n]"
  using sections_read [of n f] by simp

lemma coff2flat_loop:
  assumes "coff_header_ok f" and "2 \<le> argc"
  shows "coff2flat argc (Some f) room = proceed (for_each (flat_section f room)
      \<lparr>flat_out = [], fdOut_pos = 0, flat_in = 76 + 40 * unat (short_at f 2), top_addr = 0\<rparr> (sections_of f))
      (\<lambda>c. proceed (flat_Write room (flat_out c) (coff_lseek (fdOut_pos c) (top_addr c + StackSize - 4)) (word_bytes 0)) (\<lambda>(out, p). Inr out))"
proof -
  note r = coff_header_read [OF assms(1)]
  show ?thesis using assms(2)
    by (simp only: coff2flat_def r flat_sections_read sections_of_def proceed_simps Let_def split_conv option.case not_less if_not_P
        simp_thms if_False)
qed

text \<open>Placing packed sections one by one gives their contents one after the other.\<close>

lemma place_packed:
  "packed (length pre) xs \<Longrightarrow> \<forall>x \<in> set xs. length (section_bytes f x) = size_in x \<Longrightarrow>
   length (concat (map (section_bytes f) xs)) \<le> n \<Longrightarrow>
   foldl (\<lambda>img x. overwrite img (addr_in x) (section_bytes f x)) (pre @ replicate n 0) xs =
   pre @ concat (map (section_bytes f) xs) @ replicate (n - length (concat (map (section_bytes f) xs))) 0"
proof (induction xs arbitrary: pre n)
  case (Cons x xs)
  have o: "overwrite (pre @ replicate n 0) (length pre) (section_bytes f x) =
      (pre @ section_bytes f x) @ replicate (n - size_in x) 0"
    using Cons.prems by (simp add: overwrite_def)
  show ?case using Cons.IH [of "pre @ section_bytes f x" "n - size_in x"] Cons.prems by (simp add: o)
qed simp

text \<open>
  The converter writes the contents of the sections one after the other, whatever their addresses are, and
  zeros up to the end of the stack, 1024 bytes behind the last section. The output is the image of memory that the file
  describes when the sections are packed, the first at 0 and each where the one before ends. The comment of the program
  says that the pieces are loaded at the appropriate offset; nothing in it moves the position of the output.
\<close>

lemma coff2flat_concatenates:
  assumes "coff_header_ok f" and "2 \<le> argc" and "\<forall>x \<in> set (sections_of f). placeable f x"
    and "length (contents_of f (sections_of f)) \<le> flat_top (sections_of f) + 1020"
    and "flat_top (sections_of f) + 1024 \<le> room"
  defines "out \<equiv> contents_of f (sections_of f) @
    replicate (flat_top (sections_of f) + 1024 - length (contents_of f (sections_of f))) 0"
  shows "coff2flat argc (Some f) room = Inr out" and "packed 0 (filter has_contents (sections_of f)) \<Longrightarrow> out = flat_image f"
proof -
  let ?xs = "sections_of f" and ?t = "flat_top (sections_of f)"
  let ?c = "\<lparr>flat_out = [], fdOut_pos = 0, flat_in = 76 + 40 * unat (short_at f 2), top_addr = 0\<rparr>"
  have "flat_ok f [] ?c" by (simp add: flat_ok_def contents_of_def flat_top_def)
  then obtain c where c: "for_each (flat_section f room) ?c ?xs = Inr c" "flat_ok f ?xs c"
    using for_each_flat [OF assms(3), of room ?c] assms(4,5) by auto
  have t: "sint (top_addr c) = int ?t" "?t + 1024 < 2 ^ 31" using c(2) by (simp_all add: flat_ok_def)
  have "top_addr c + StackSize - 4 = word_of_int (sint (top_addr c) + 1020)" by (simp add: StackSize_def)
  then have "sint (top_addr c + StackSize - 4) = int ?t + 1020" 
    by (simp only: t(1)) (rule sint_int32; use t(2) in simp)
  then have p: "coff_lseek q (top_addr c + StackSize - 4) = ?t + 1020" for q by (simp add: coff_lseek_def)
  have z: "word_bytes (0 :: 32 word) = replicate 4 0" by (simp add: word_bytes_def numeral_eq_Suc)
  have "replicate (?t + 1020 - m) 0 @ replicate 4 0 = replicate (?t + 1024 - m) (0 :: 8 word)" if "m \<le> ?t + 1020" for m
    using that by (simp add: replicate_add [symmetric])
  then have "flat_Write room (contents_of f ?xs) (?t + 1020) (word_bytes (0 :: 32 word)) = Inr (out, ?t + 1024)"
    using assms(4,5) by (simp add: flat_Write_def z out_def)
  then show "coff2flat argc (Some f) room = Inr out"
    using c by (simp add: coff2flat_loop [OF assms(1,2)] p flat_ok_def)
  assume "packed 0 (filter has_contents ?xs)"
  then show "out = flat_image f"
    using place_packed [of "[]" "filter has_contents ?xs" f "?t + 1024"] assms(3,4)
    by (simp add: flat_image_def out_def contents_of_def placeable_def)
qed

text \<open>A program whose data section is not packed: it is meant for address 128, and the flat file has it at 8.\<close>

lemma flat_ignores_addresses:
  "\<exists>out. coff2flat 3 (Some demo_object) 2000 = Inr out \<and> take 4 (drop 8 out) = [1, 2, 3, 4] \<and>
     take 4 (drop 128 (flat_image demo_object)) = [1, 2, 3, 4] \<and>
     take 4 (drop 8 (flat_image demo_object)) = replicate 4 0"
proof -
  note demo = demo_object_sections
  let ?t = "scnhdr_of (demo_section ''.text'' 0 8 156)" and ?d = "scnhdr_of (demo_section ''.data'' 128 4 164)"
  have h: "coff_header_ok demo_object" by (simp add: demo_object_def demo_coff_read demo_section_read)
  have a: "has_contents ?t" "has_contents ?d" "addr_in ?t = 0" "addr_in ?d = 128" "size_in ?t = 8" "size_in ?d = 4"
    by (simp_all add: has_contents_def addr_in_def size_in_def name_is_def demo_section_read)
  have c: "contents_of demo_object (sections_of demo_object) = [7, 0, 1, 36, 12, 0, 0, 0, 1, 2, 3, 4]"
    "flat_top (sections_of demo_object) = 132" by (simp_all add: demo contents_of_def flat_top_def a)
  have p: "\<forall>x \<in> set (sections_of demo_object). placeable demo_object x"
    by (simp add: demo placeable_def a) (simp add: demo_section_read)
  have i: "flat_image demo_object = [7, 0, 1, 36, 12, 0, 0, 0] @ replicate 120 0 @ [1, 2, 3, 4] @ replicate 1024 0"
    unfolding flat_image_def c(2) by (simp add: demo a overwrite_def)
  show ?thesis
    using coff2flat_concatenates(1) [OF h _ p, of 3 2000] unfolding i c by simp
qed

end
