(* ===== verification/Nachos_Sim.thy ===== *)
theory Nachos_Sim
  imports Nachos_Coff Nachos_Interp Nachos_Directory Nachos_Input
begin

section \<open>Loading and system calls of the stand-alone interpreter: bin/main.c and bin/system.c\<close>

text \<open>
  What surrounds the interpreter of \<open>Nachos_Interp\<close>: the options of its command line, the loading of an object file, and the
  system calls of the program that runs. Two libraries of the host are arguments. The one for object files is a record \<open>Object\<close> with
  the answers of \<open>TYPE\<close>, \<open>ldnshread\<close> and of \<open>getc\<close> after \<open>FSEEK\<close>. The system is a function \<open>host\<close> from the calls that were made so
  far and a new one to its result and the bytes that it stores for the caller: what a call does may depend on all earlier ones.
\<close>

subsection \<open>The command line (main.c)\<close>

record SimOptions =
  TRACE :: bool
  Traptrace :: bool
  Regtrace :: bool
  NROWS :: int
  ASSOC :: int
  LINESIZE :: int
  RAND :: bool
  LRD :: bool

definition sim_defaults :: SimOptions where
  "sim_defaults = \<lparr>TRACE = False, Traptrace = False, Regtrace = False, NROWS = 64, ASSOC = 1, LINESIZE = 4,
     RAND = False, LRD = False\<rparr>"

text \<open>The letters of one option; \<open>-m\<close> takes four more arguments, and reads a null pointer if they are not there.\<close>

fun option_letters :: "string \<Rightarrow> string list \<Rightarrow> SimOptions \<Rightarrow> (SimOptions \<times> string list) res" where
  "option_letters [] argv x = Inr (x, argv)"
| "option_letters (c # cs) argv x = (if c = CHR ''t'' then option_letters cs argv (x\<lparr>TRACE := True\<rparr>)
     else if c = CHR ''T'' then option_letters cs argv (x\<lparr>Traptrace := True\<rparr>)
     else if c = CHR ''r'' then option_letters cs argv (x\<lparr>Regtrace := True\<rparr>)
     else if c = CHR ''m'' then (case argv of
         a1 # a2 # a3 # a4 # argv' \<Rightarrow> option_letters cs argv' (x\<lparr>NROWS := atoi a1, ASSOC := atoi a2, LINESIZE := atoi a3,
           RAND := (take 1 a4 = ''r''), LRD := (take 3 a4 = ''lrd'')\<rparr>)
       | _ \<Rightarrow> Inl NullPointer)
     else option_letters cs argv x)"

lemma option_letters_shorter: "option_letters cs argv x = Inr (x', argv') \<Longrightarrow> length argv' \<le> length argv"
  by (induction cs argv x arbitrary: x' argv' rule: option_letters.induct) (fastforce split: if_splits list.splits)+

function sim_options :: "SimOptions \<Rightarrow> string list \<Rightarrow> (SimOptions \<times> string list) res" where
  "sim_options x [] = Inr (x, [])"
| "sim_options x (a # argv) = (if take 1 a = ''-''
     then andThen (option_letters (tl a) argv x) (\<lambda>r. sim_options (fst r) (snd r)) else Inr (x, a # argv))"
  by pat_completeness auto

termination
  by (relation "measure (\<lambda>(x, argv). length argv)") (auto dest: option_letters_shorter)

subsection \<open>Loading (load_program)\<close>

record Object =
  ld_type :: "16 word"
  ld_section :: "string \<Rightarrow> scnhdr option"
  ld_getc :: "32 word \<Rightarrow> nat \<Rightarrow> 8 word"

datatype load_result = LoadExits int | Loaded Interp

fun load_bytes :: "(nat \<Rightarrow> 8 word) \<Rightarrow> nat \<Rightarrow> nat \<Rightarrow> 32 word \<Rightarrow> Interp \<Rightarrow> (32 word \<times> Interp) res" where
  "load_bytes getc i 0 pc m = Inr (pc, m)"
| "load_bytes getc i (Suc n) pc m = andThen (put_bytes m pc [getc i]) (load_bytes getc (Suc i) n (pc + 1))"

definition LOADSECTION :: "Object \<Rightarrow> scnhdr \<Rightarrow> Interp \<Rightarrow> load_result res" where
  "LOADSECTION ob h m = (if s_scnptr h \<noteq> 0 then
     andThen (load_bytes (ld_getc ob (s_scnptr h)) 0 (nat (sint (s_size h))) (s_vaddr h) m) (\<lambda>(pc, m').
       Inr (if sint (pc - word_of_int memoffset) \<ge> MEMSIZE then LoadExits 1 else Loaded m'))
     else Inr (Loaded m))"

fun load_sections :: "Object \<Rightarrow> string list \<Rightarrow> Interp \<Rightarrow> load_result res" where
  "load_sections ob [] m = Inr (Loaded m)"
| "load_sections ob (name # names) m = (case ld_section ob name of None \<Rightarrow> load_sections ob names m
   | Some h \<Rightarrow> andThen (LOADSECTION ob h m) (\<lambda>x. case x of LoadExits e \<Rightarrow> Inr (LoadExits e)
       | Loaded m' \<Rightarrow> load_sections ob names m'))"

definition section_names :: "string list" where
  "section_names = [''.text'', ''.rdata'', ''.data'', ''.sdata'', ''.sbss'', ''.bss'']"

definition load_program :: "Object option \<Rightarrow> Interp \<Rightarrow> load_result res" where
  "load_program ldptr m = (case ldptr of None \<Rightarrow> Inr (LoadExits 0)
   | Some ob \<Rightarrow> if ld_type ob \<noteq> 0x162 then Inr (LoadExits 0) else load_sections ob section_names m)"

subsection \<open>System calls (system_trap)\<close>

type_synonym sim_host = "sim_call list \<Rightarrow> sim_call \<Rightarrow> 32 word \<times> 8 word list"

definition ask_host :: "sim_host \<Rightarrow> sim_call \<Rightarrow> Interp \<Rightarrow> 32 word \<times> 8 word list \<times> Interp" where
  "ask_host host c m = (let (v, bs) = host (sim_calls m) c in (v, bs, m\<lparr>sim_calls := sim_calls m @ [c]\<rparr>))"

text \<open>
  The pointer that \<open>u_to_int_addr\<close> computes is not checked; the host then stores or reads there. A count below zero
  would make it read past the end of memory. \<open>fstat\<close> gets the third argument as it is, which is no address of the host.
\<close>

definition host_stores :: "32 word \<Rightarrow> 8 word list \<Rightarrow> Interp \<Rightarrow> Interp res" where
  "host_stores addr bs m = (if bs = [] then Inr m else put_bytes m addr bs)"

definition system_trap :: "sim_host \<Rightarrow> sim_trap" where
  "system_trap host pc npc m = (let syscallno = Reg m ! 2; o0 = Reg m ! 4; o1 = Reg m ! 5; o2 = Reg m ! 6;
       ret = (\<lambda>v m'. Inr (Goes pc npc (setReg 1 v m')))
     in if syscallno = 1 then Inr (Exits 0)
     else if syscallno = 3 then (let (v, bs, m1) = ask_host host (Sys_read o0 o2) m in andThen (host_stores o1 bs m1) (ret v))
     else if syscallno = 4 then (if sint o2 < 0 then Inl OutOfBounds else andThen (mem_bytes m o1 (nat (sint o2))) (\<lambda>buf.
       let (v, bs, m1) = ask_host host (Sys_write o0 buf) m in ret v m1))
     else if syscallno = 5 then andThen (mem_index m o0 0) (\<lambda>k. andThen (c_string (drop k (mem m))) (\<lambda>path.
       let (v, bs, m1) = ask_host host (Sys_open path o1 o2) m in ret v m1))
     else if syscallno = 6 then ret 0 m
     else if syscallno = 17 then ret (word_of_int ((sint o0 sdiv 8192 + 1) * 8192)) m
     else if syscallno = 19 then (let (v, bs, m1) = ask_host host (Sys_lseek o0 o1 o2) m in ret v m1)
     else if syscallno = 54 then
       (let n = unat (signed_drop_bit 16 o1 AND 0x7f);
          req = (if signed_drop_bit 8 o1 AND 0xff = of_char (CHR ''t'') \<and> n = 8
            then (o1 AND NOT (push_bit 16 0x7f)) OR push_bit 16 6 else o1);
          (v, bs, m1) = ask_host host (Sys_ioctl o0 req) m
        in andThen (host_stores o2 bs m1) (ret 0))
     else if syscallno = 62 then (let (v, bs, m1) = ask_host host (Sys_fstat o1 o2) m in ret v m1)
     else if syscallno = 64 then (let (v, bs, m1) = ask_host host Sys_getpagesize m in ret v m1)
     else Inr (Exits 2))"

subsection \<open>The program (main)\<close>

definition interp_main :: "nat \<Rightarrow> sim_host \<Rightarrow> (string \<Rightarrow> bool) \<Rightarrow> (string \<Rightarrow> Object option) \<Rightarrow> string \<Rightarrow> string list \<Rightarrow> Interp \<Rightarrow> int res" where
  "interp_main n host can_open ldopen self argv m = (if length self \<ge> 256 then Inl OutOfBounds
     else andThen (sim_options sim_defaults argv) (\<lambda>(opts, argv1).
       let filename = (case argv1 of [] \<Rightarrow> ''a.out'' | f # _ \<Rightarrow> f)
       in if length filename \<ge> 1000 then Inl OutOfBounds
       else if \<not> can_open filename then Inr 0
       else andThen (load_program (ldopen filename) m) (\<lambda>x. case x of LoadExits e \<Rightarrow> Inr e
       | Loaded m1 \<Rightarrow> runprogram n (system_trap host) (word_of_int memoffset)
           (map (map of_char) (if argv1 = [] then [''a.out''] else argv1)) m1)))"

subsection \<open>What a system call leaves alone\<close>

text \<open>
  A system call that returns continues with the next instruction. It changes no register but the first, and memory only
  where the host stores its answer, which only \<open>read\<close> and \<open>ioctl\<close> do. A program ends with status 0 by \<open>exit\<close>, whatever it
  asks for, and with 2 by any number that is not known.
\<close>

lemma host_stores_frame:
  "host_stores addr bs m = Inr m' \<Longrightarrow> Reg m' = Reg m \<and> HI m' = HI m \<and> LO m' = LO m"
  by (auto simp: host_stores_def put_bytes_def andThen_def split: if_splits sum.splits)

lemma system_trap_frame:
  "system_trap host pc npc m = Inr (Goes pc' npc' m') \<Longrightarrow> pc' = pc \<and> npc' = npc \<and> (\<forall>k. k \<noteq> 1 \<longrightarrow> Reg m' ! k = Reg m ! k) \<and>
     HI m' = HI m \<and> LO m' = LO m \<and> (Reg m ! 2 \<noteq> 3 \<longrightarrow> Reg m ! 2 \<noteq> 54 \<longrightarrow> mem m' = mem m)"
  by (auto simp: system_trap_def Let_def ask_host_def setReg_def andThen_def
      dest!: host_stores_frame split: if_splits sum.splits prod.splits)

lemma system_trap_ends:
  "system_trap host pc npc m = Inr (Exits e) \<longleftrightarrow> Reg m ! 2 = 1 \<and> e = 0 \<or>
     Reg m ! 2 \<notin> {1, 3, 4, 5, 6, 17, 19, 54, 62, 64} \<and> e = 2"
  by (auto simp: system_trap_def Let_def ask_host_def andThen_def split: if_splits sum.splits prod.splits)

subsection \<open>What is loaded\<close>

lemma load_bytes_ok:
  assumes "sint pc - memoffset = int k" and "k + n \<le> length (mem m)" and "length (mem m) \<le> nat MEMSIZE"
  shows "load_bytes getc i n pc m = Inr (pc + of_nat n, m\<lparr>mem := overwrite (mem m) k (map getc [i..<i + n])\<rparr>)"
  using assms
proof (induction n arbitrary: i pc k m)
  case (Suc n)
  let ?m = "m\<lparr>mem := overwrite (mem m) k [getc i]\<rparr>"
  have k: "k < 2 ^ 24" using Suc.prems by (simp add: MEMSIZE_def)
  have "pc + 1 = word_of_int (sint pc + 1)" by simp
  then have s: "sint (pc + 1) = sint pc + 1" using Suc.prems(1) k
    by (simp only:) (rule sint_int32; simp add: memoffset_def)
  have p: "put_bytes m pc [getc i] = Inr ?m"
    using Suc.prems by (simp add: put_bytes_def mem_index_def Let_def)
  have "overwrite (overwrite (mem m) k [getc i]) (k + 1) (map getc [Suc i..<Suc i + n]) =
      overwrite (mem m) k ([getc i] @ map getc [Suc i..<Suc i + n])"
    using overwrite_next [of k "[getc i]" "map getc [Suc i..<Suc i + n]" "mem m"] Suc.prems(2) by simp
  moreover have "[i..<i + Suc n] = i # [Suc i..<Suc i + n]" by (simp add: upt_conv_Cons)
  ultimately show ?case using Suc.IH [of "pc + 1" "k + 1" ?m "Suc i"] Suc.prems s p by simp
qed simp

lemma load_bytes_past_end:
  assumes "sint pc - memoffset = int k" and "length (mem m) < k + n" and "k \<le> length (mem m)" and "length (mem m) \<le> nat MEMSIZE"
  shows "load_bytes getc i n pc m = Inl OutOfBounds"
  using assms
proof (induction n arbitrary: i pc k m)
  case (Suc n)
  show ?case
  proof (cases "k < length (mem m)")
    case True
    let ?m = "m\<lparr>mem := overwrite (mem m) k [getc i]\<rparr>"
    have k: "k < 2 ^ 24" using Suc.prems True by (simp add: MEMSIZE_def)
    have "pc + 1 = word_of_int (sint pc + 1)" by simp
    then have s: "sint (pc + 1) = sint pc + 1" using Suc.prems(1) k
      by (simp only:) (rule sint_int32; simp add: memoffset_def)
    have "put_bytes m pc [getc i] = Inr ?m"
      using Suc.prems True by (simp add: put_bytes_def mem_index_def Let_def)
    then show ?thesis using Suc.IH [of "pc + 1" "k + 1" ?m] Suc.prems s True by simp
  next
    case False
    then show ?thesis using Suc.prems by (simp add: put_bytes_def mem_index_def Let_def)
  qed
qed simp

text \<open>
  One section. The bytes are stored before their number is looked at: a section that goes past the end of memory
  overwrites what is behind it, and the message only comes when it ends exactly there, where nothing is wrong.
\<close>

definition section_at :: "scnhdr \<Rightarrow> nat" where
  "section_at h = nat (sint (s_vaddr h) - memoffset)"

definition put_in :: "Object \<Rightarrow> 8 word list \<Rightarrow> scnhdr \<Rightarrow> 8 word list" where
  "put_in ob mm h = (if s_scnptr h = 0 then mm else overwrite mm (section_at h) (map (ld_getc ob (s_scnptr h)) [0..<size_in h]))"

lemma LOADSECTION_checks_late:
  assumes "s_scnptr h \<noteq> 0" and "0 \<le> sint (s_size h)" and "memoffset \<le> sint (s_vaddr h)"
    and "section_at h \<le> nat MEMSIZE" and "length (mem m) = nat MEMSIZE"
  shows "LOADSECTION ob h m = (if section_at h + size_in h < nat MEMSIZE then Inr (Loaded (m\<lparr>mem := put_in ob (mem m) h\<rparr>))
    else if section_at h + size_in h = nat MEMSIZE then Inr (LoadExits 1) else Inl OutOfBounds)"
proof -
  let ?k = "section_at h" and ?n = "size_in h"
  have k: "sint (s_vaddr h) - memoffset = int ?k" using assms(3) by (simp add: section_at_def)
  show ?thesis
  proof (cases "?k + ?n \<le> nat MEMSIZE")
    case True
    have e: "s_vaddr h + of_nat ?n - word_of_int memoffset = word_of_int (int (?k + ?n))"
    proof -
      have v: "sint (s_vaddr h) = int ?k + memoffset" using k by simp
      have "s_vaddr h = word_of_int (int ?k + memoffset)" by (simp flip: v)
      then show ?thesis by simp
    qed
    have "int (?k + ?n) < 2 ^ 31" using True by (simp add: MEMSIZE_def)
    then have "sint (s_vaddr h + of_nat ?n - word_of_int memoffset) = int (?k + ?n)"
      unfolding e by (intro sint_int32) simp_all
    then have "MEMSIZE \<le> sint (s_vaddr h + of_nat ?n - word_of_int memoffset) \<longleftrightarrow> nat MEMSIZE \<le> ?k + ?n"
      by (simp only: MEMSIZE_def) auto
    then show ?thesis
      using load_bytes_ok [OF k, of ?n m "ld_getc ob (s_scnptr h)" 0] True assms(1,5)
      by (auto simp: LOADSECTION_def put_in_def size_in_def)
  next
    case False
    then show ?thesis
      using load_bytes_past_end [OF k, of m ?n "ld_getc ob (s_scnptr h)" 0] assms by (simp add: LOADSECTION_def size_in_def)
  qed
qed

definition in_memory :: "scnhdr \<Rightarrow> bool" where
  "in_memory h \<longleftrightarrow> s_scnptr h = 0 \<or> 0 \<le> sint (s_size h) \<and> memoffset \<le> sint (s_vaddr h) \<and>
     section_at h + size_in h < nat MEMSIZE"

lemma LOADSECTION_ok:
  "in_memory h \<Longrightarrow> length (mem m) = nat MEMSIZE \<Longrightarrow> LOADSECTION ob h m = Inr (Loaded (m\<lparr>mem := put_in ob (mem m) h\<rparr>))"
  by (cases "s_scnptr h = 0") (simp_all add: in_memory_def LOADSECTION_checks_late, simp add: LOADSECTION_def put_in_def)

lemma length_put_in: "in_memory h \<Longrightarrow> length mm = nat MEMSIZE \<Longrightarrow> length (put_in ob mm h) = nat MEMSIZE"
  by (auto simp: put_in_def in_memory_def)

definition present :: "Object \<Rightarrow> scnhdr list" where
  "present ob = List.map_filter (ld_section ob) section_names"

lemma load_sections_ok:
  "\<forall>h \<in> set (List.map_filter (ld_section ob) names). in_memory h \<Longrightarrow> length (mem m) = nat MEMSIZE \<Longrightarrow>
   load_sections ob names m = Inr (Loaded (m\<lparr>mem := foldl (put_in ob) (mem m) (List.map_filter (ld_section ob) names)\<rparr>))"
proof (induction names arbitrary: m)
  case (Cons name names)
  show ?case
  proof (cases "ld_section ob name")
    case None
    then show ?thesis using Cons by (simp add: map_filter_simps)
  next
    case (Some h)
    then have h: "in_memory h" "\<forall>h \<in> set (List.map_filter (ld_section ob) names). in_memory h"
      using Cons.prems(1) by (simp_all add: map_filter_simps)
    show ?thesis using Some Cons.IH [OF h(2), of "m\<lparr>mem := put_in ob (mem m) h\<rparr>"] h(1) Cons.prems(2)
      by (simp add: map_filter_simps LOADSECTION_ok length_put_in)
  qed
qed (simp add: map_filter_simps)

text \<open>Sections that do not touch each other are all in memory afterwards.\<close>

definition no_overlap :: "scnhdr \<Rightarrow> scnhdr \<Rightarrow> bool" where
  "no_overlap x y \<longleftrightarrow> s_scnptr x = 0 \<or> s_scnptr y = 0 \<or> section_at x + size_in x \<le> section_at y \<or>
     section_at y + size_in y \<le> section_at x"

lemma put_in_apart:
  assumes "in_memory y" and "length mm = nat MEMSIZE" and "p + n \<le> nat MEMSIZE"
    and "s_scnptr y = 0 \<or> p + n \<le> section_at y \<or> section_at y + size_in y \<le> p"
  shows "take n (drop p (put_in ob mm y)) = take n (drop p mm)"
proof (cases "s_scnptr y = 0")
  case False
  then have "section_at y + size_in y \<le> length mm" using assms(1,2) by (simp add: in_memory_def)
  then show ?thesis using False assms take_drop_overwrite_other [of "section_at y" "map (ld_getc ob (s_scnptr y)) [0..<size_in y]" mm p n]
    by (simp add: put_in_def)
qed (simp add: put_in_def)

lemma put_in_all_apart:
  assumes "\<forall>y \<in> set ys. in_memory y" and "length mm = nat MEMSIZE" and "p + n \<le> nat MEMSIZE"
    and "\<forall>y \<in> set ys. s_scnptr y = 0 \<or> p + n \<le> section_at y \<or> section_at y + size_in y \<le> p"
  shows "take n (drop p (foldl (put_in ob) mm ys)) = take n (drop p mm) \<and> length (foldl (put_in ob) mm ys) = nat MEMSIZE"
  using assms
proof (induction ys arbitrary: mm)
  case (Cons y ys)
  then show ?case using put_in_apart [of y mm p n ob] length_put_in [of y mm ob] by simp
qed simp

lemma put_in_there:
  "in_memory x \<Longrightarrow> length mm = nat MEMSIZE \<Longrightarrow> s_scnptr x \<noteq> 0 \<Longrightarrow>
   take (size_in x) (drop (section_at x) (put_in ob mm x)) = map (ld_getc ob (s_scnptr x)) [0..<size_in x]"
  by (simp add: put_in_def in_memory_def)

lemma all_sections_there:
  assumes "\<forall>x \<in> set xs. in_memory x" and "sorted_wrt no_overlap xs" and "length mm = nat MEMSIZE" and "x \<in> set xs" and "s_scnptr x \<noteq> 0"
  shows "take (size_in x) (drop (section_at x) (foldl (put_in ob) mm xs)) = map (ld_getc ob (s_scnptr x)) [0..<size_in x]"
proof -
  obtain ys zs where xs: "xs = ys @ x # zs" using split_list [OF assms(4)] by blast
  have x: "in_memory x" "section_at x + size_in x \<le> nat MEMSIZE" using assms(1,5) xs by (auto simp: in_memory_def)
  define mm1 where "mm1 = foldl (put_in ob) mm ys"
  have "length mm1 = nat MEMSIZE"
    using put_in_all_apart [of ys mm 0 0 ob] assms(1,3) by (auto simp: mm1_def xs)
  then have "length (put_in ob mm1 x) = nat MEMSIZE" and
    t: "take (size_in x) (drop (section_at x) (put_in ob mm1 x)) = map (ld_getc ob (s_scnptr x)) [0..<size_in x]"
    using length_put_in put_in_there x(1) assms(5) by blast+
  then show ?thesis
    using put_in_all_apart [of zs "put_in ob mm1 x" "section_at x" "size_in x" ob] assms(1,2,5) x(2)
    by (auto simp: xs sorted_wrt_append no_overlap_def mm1_def)
qed

text \<open>
  What the library answers for an object file whose bytes are \<open>f\<close>, as its documentation has it: \<open>TYPE\<close> is the magic number,
  \<open>ldnshread\<close> finds the first section with the name, and after \<open>FSEEK\<close> the bytes come from there on.
\<close>

definition object_of :: "host_file \<Rightarrow> Object" where
  "object_of f = \<lparr>ld_type = short_at f 0, ld_section = (\<lambda>name. List.find (\<lambda>x. name_is x name) (sections_of f)),
     ld_getc = (\<lambda>off i. f ! (nat (sint off) + i))\<rparr>"

lemma section_bytes_read:
  assumes "0 \<le> sint (s_scnptr x)" and "length (section_bytes f x) = size_in x"
  shows "map (ld_getc (object_of f) (s_scnptr x)) [0..<size_in x] = section_bytes f x"
proof (rule nth_equalityI)
  fix i assume "i < length (map (ld_getc (object_of f) (s_scnptr x)) [0..<size_in x])"
  then have i: "i < size_in x" by simp
  then have "nat (sint (s_scnptr x)) + i < length f" using assms(2) by (auto simp: section_bytes_def)
  then show "map (ld_getc (object_of f) (s_scnptr x)) [0..<size_in x] ! i = section_bytes f x ! i"
    using i by (simp add: object_of_def section_bytes_def)
qed (use assms in simp)

definition runnable :: "host_file \<Rightarrow> bool" where
  "runnable f \<longleftrightarrow> short_at f 0 = MIPSELMAGIC \<and> sorted_wrt no_overlap (present (object_of f)) \<and>
     (\<forall>x \<in> set (present (object_of f)). in_memory x \<and>
       (s_scnptr x \<noteq> 0 \<longrightarrow> 0 \<le> sint (s_scnptr x) \<and> length (section_bytes f x) = size_in x))"


text \<open>The program of two instructions, which the second makes an unknown system call; and the options \<open>-tm 64 2 8 lrd\<close>.\<close>

definition demo_sim_object :: host_file where
  "demo_sim_object = demo_coff (demo_section ''.text'' 0x10000000 8 156) (demo_section ''.data'' 0x10000080 4 164)"

lemma demo_sim_sections:
  defines "text \<equiv> scnhdr_of (demo_section ''.text'' 0x10000000 8 156)"
    and "data \<equiv> scnhdr_of (demo_section ''.data'' 0x10000080 4 164)"
  shows "present (object_of demo_sim_object) = [text, data]" and "section_bytes demo_sim_object text = [7, 0, 1, 36, 12, 0, 0, 0]"
    and "section_bytes demo_sim_object data = [1, 2, 3, 4]" and "short_at demo_sim_object 0 = MIPSELMAGIC"
proof -
  have s: "sections_of demo_sim_object = [text, data]" "coff_header_ok demo_sim_object"
    by (simp_all add: demo_sim_object_def demo_coff_read demo_section_read(2) text_def data_def)
  show "present (object_of demo_sim_object) = [text, data]"
    by (simp add: present_def section_names_def map_filter_simps object_of_def s(1) name_is_def demo_section_read text_def data_def)
  have d: "drop 156 demo_sim_object = [7, 0, 1, 36, 12, 0, 0, 0, 1, 2, 3, 4]"
    using demo_coff_read(3) [of "demo_section ''.text'' 0x10000000 8 156" "demo_section ''.data'' 0x10000080 4 164"]
    by (simp add: demo_sim_object_def demo_section_read)
  have "drop 164 demo_sim_object = drop 8 (drop 156 demo_sim_object)" by simp
  then have e: "drop 164 demo_sim_object = [1, 2, 3, 4]" by (simp only: d) simp
  show "section_bytes demo_sim_object text = [7, 0, 1, 36, 12, 0, 0, 0]" "section_bytes demo_sim_object data = [1, 2, 3, 4]"
    by (simp_all add: demo_simps text_def data_def d e)
  show "short_at demo_sim_object 0 = MIPSELMAGIC" using s(2) by (simp add: coff_header_ok_def)
qed

lemma demo_sim_runnable: "runnable demo_sim_object"
  unfolding runnable_def demo_sim_sections(1)
  by (simp add: demo_sim_sections in_memory_def no_overlap_def section_at_def size_in_def memoffset_def MEMSIZE_def)
    (simp add: demo_section_read)

definition demo_host :: sim_host where "demo_host made c = (0, [])"

definition demo_memory :: Interp where
  "demo_memory = \<lparr>Reg = replicate 32 0, HI = 0, LO = 0, mem = replicate (nat MEMSIZE) 0, sim_calls = []\<rparr>"


end
