(* ===== verification/Nachos_Programs.thy ===== *)
theory Nachos_Programs
  imports Nachos_Directory
begin

section \<open>User programs: test/sort.c, test/matmult.c, test/shell.c\<close>

text \<open>
  The three test programs that compute something. They run in an address space of the simulated machine; here they are
  taken as C programs. Arrays are lists with the bounds checked, the numbers in them stay far below the limits of \<open>int\<close>.
\<close>

subsection \<open>sort.c\<close>

text \<open>The loops, with the number of elements \<open>n\<close> as an argument; the program has 1024.\<close>

definition sort_init :: "nat \<Rightarrow> int list \<Rightarrow> int list res" where
  "sort_init n A = foldRes (\<lambda>A i. store A (int i) (int n - int i)) A [0..<n]"

definition sort_swap :: "int list \<Rightarrow> nat \<Rightarrow> int list res" where
  "sort_swap A j = andThen (fetch A (int j)) (\<lambda>x. andThen (fetch A (int j + 1)) (\<lambda>y.
     if x > y then let tmp = x in andThen (store A (int j) y) (\<lambda>A. store A (int j + 1) tmp) else Inr A))"

definition sort_loops :: "nat \<Rightarrow> int list \<Rightarrow> int list res" where
  "sort_loops n A = foldRes (\<lambda>A i. foldRes sort_swap A [i..<n - 1 - i]) A [0..<n - 1]"

text \<open>The argument of \<open>Exit\<close> at the end, and the array at that time.\<close>

definition sort_main :: "nat \<Rightarrow> (int \<times> int list) res" where
  "sort_main n = andThen (sort_init n (replicate n 0)) (\<lambda>A. andThen (sort_loops n A) (\<lambda>A.
     andThen (fetch A 0) (\<lambda>v. Inr (v, A))))"

lemma update_map_upt [simp]: "k < n \<Longrightarrow> (map g [0..<n])[k := v] = map (g(k := v)) [0..<n]"
  by (auto intro!: nth_equalityI simp: nth_list_update)

text \<open>
  The array before round \<open>i\<close> of the outer loop: the middle part is still in reverse order, the odd numbers that the rounds
  have left behind are in front of it, and the even ones that they have moved are behind it.
\<close>

definition before_round :: "nat \<Rightarrow> nat \<Rightarrow> nat \<Rightarrow> int" where
  "before_round n i k = (if k < i then int n - 1 - 2 * int k else if k < n - i then int n - int i - int k
     else 2 * int k + 2 - int n)"

lemma sort_init_ok: "length A = n \<Longrightarrow> sort_init n A = Inr (map (before_round n 0) [0..<n])"
proof -
  assume a: "length A = n"
  define g where "g m k = (if k < m then int n - int k else A ! k)" for m k
  have A: "A = map (g 0) [0..<n]" using a by (auto simp: g_def intro!: nth_equalityI)
  have "foldRes (\<lambda>A i. store A (int i) (int n - int i)) A [0..<m] = Inr (map (g m) [0..<n])" if "m \<le> n" for m
    using that
  proof (induction m)
    case 0
    then show ?case using A by simp
  next
    case (Suc m)
    have "(g m)(m := int n - int m) = g (Suc m)" by (auto simp: g_def fun_eq_iff less_Suc_eq)
    then show ?case using Suc by (simp add: foldRes_append)
  qed
  then show ?thesis by (simp add: sort_init_def g_def before_round_def cong: map_cong)
qed

lemma sort_swap_map:
  assumes "Suc j < n"
  shows "sort_swap (map g [0..<n]) j = Inr (map (if g j > g (Suc j) then g(j := g (Suc j), Suc j := g j) else g) [0..<n])"
proof -
  have e: "int j + 1 = int (Suc j)" by simp
  show ?thesis using assms unfolding sort_swap_def e by (simp del: of_nat_Suc)
qed

lemma inner_loop_moves:
  assumes "i \<le> j" and "j \<le> n - 1 - i" and "2 * i < n"
  shows "foldRes sort_swap (map (before_round n i) [0..<n]) [i..<j] = Inr (map (\<lambda>k. if i \<le> k \<and> k < j then int n - int i - int k - 1
      else if k = j then int n - 2 * int i else before_round n i k) [0..<n])"
  using assms(1,2)
proof (induction j rule: dec_induct)
  case base
  show ?case using assms(3) by (auto simp: before_round_def)
next
  case (step j)
  let ?g = "\<lambda>j k. if i \<le> k \<and> k < j then int n - int i - int k - 1 else if k = j then int n - 2 * int i else before_round n i k"
  have j: "Suc j < n" "Suc j < n - i" using step assms(3) by auto
  have "?g j j = int n - 2 * int i" "?g j (Suc j) = int n - int i - int (Suc j)" using j step.hyps by (auto simp: before_round_def)
  moreover have "int n - int i - int (Suc j) < int n - 2 * int i" using step.hyps by simp
  moreover have "(?g j)(j := int n - int i - int (Suc j), Suc j := int n - 2 * int i) = ?g (Suc j)"
    using step.hyps by (auto simp: fun_eq_iff)
  ultimately have "sort_swap (map (?g j) [0..<n]) j = Inr (map (?g (Suc j)) [0..<n])"
    using sort_swap_map [OF j(1), of "?g j"] by simp
  then show ?case using step by (simp add: foldRes_append)
qed

lemma round_ok:
  assumes "2 * i + 1 < n"
  shows "foldRes sort_swap (map (before_round n i) [0..<n]) [i..<n - 1 - i] = Inr (map (before_round n (Suc i)) [0..<n])"
proof -
  have "map (\<lambda>k. if i \<le> k \<and> k < n - 1 - i then int n - int i - int k - 1 else if k = n - 1 - i then int n - 2 * int i
      else before_round n i k) [0..<n] = map (before_round n (Suc i)) [0..<n]"
    using assms by (intro map_cong refl) (auto simp: before_round_def of_nat_diff)
  then show ?thesis using inner_loop_moves [of i "n - 1 - i" n] assms by simp
qed

text \<open>
  C40. The program sort.c does not sort. For every even number of elements it ends with the odd numbers in descending order followed by
  the even ones in ascending order, and exits with the largest odd number (1023 for 1024 elements; its comment
  says 0), because the inner loop begins at \<open>i\<close>, so that the elements before are never looked at again. No access is out of bounds.
\<close>

theorem sort_does_not_sort:
  assumes "0 < m"
  shows "sort_main (2 * m) = Inr (2 * int m - 1, map (\<lambda>k. 2 * int m - 1 - 2 * int k) [0..<m] @ map (\<lambda>k. 2 * int k + 2) [0..<m])"
proof -
  let ?n = "2 * m"
  have r: "foldRes (\<lambda>A i. foldRes sort_swap A [i..<?n - 1 - i]) (map (before_round ?n 0) [0..<?n]) [0..<i] =
      Inr (map (before_round ?n (min i m)) [0..<?n])" if "i \<le> ?n - 1" for i
    using that
  proof (induction i)
    case (Suc i)
    show ?case
    proof (cases "i < m")
      case True
      then show ?thesis using Suc round_ok [of i ?n] by (simp add: foldRes_append min_def)
    next
      case False
      then have "[i..<?n - 1 - i] = []" "min (Suc i) m = min i m" by (simp_all add: min_def)
      then show ?thesis using Suc by (simp add: foldRes_append)
    qed
  qed simp
  have e: "map (before_round ?n m) [0..<?n] =
      map (\<lambda>k. 2 * int m - 1 - 2 * int k) [0..<m] @ map (\<lambda>k. 2 * int k + 2) [0..<m]"
    by (rule nth_equalityI) (auto simp: before_round_def nth_append)
  have "min (?n - 1) m = m" using assms by simp
  then have "sort_loops ?n (map (before_round ?n 0) [0..<?n]) = Inr (map (before_round ?n m) [0..<?n])"
    using r [of "?n - 1"] by (simp only: sort_loops_def)
  moreover have "fetch (map (before_round ?n m) [0..<?n]) 0 = Inr (2 * int m - 1)"
    using assms by (simp add: fetch_def before_round_def)
  ultimately show ?thesis by (simp add: sort_main_def sort_init_ok e)
qed

theorem sort_does_not_sort_witness: "\<exists>A. sort_main 1024 = Inr (1023, A) \<and> A ! 0 = 1023 \<and> A ! 512 = 2"
proof -
  have "sort_main 1024 = Inr (1023, map (\<lambda>k. 1023 - 2 * int k) [0..<512] @ map (\<lambda>k. 2 * int k + 2) [0..<512])"
    using sort_does_not_sort [of 512] by simp
  then show ?thesis by (simp add: nth_append)
qed

subsection \<open>matmult.c\<close>

text \<open>Matrices are lists of rows. The call of \<open>Yield\<close> between the two nests of loops has no effect on them.\<close>

definition fetch2 :: "int list list \<Rightarrow> nat \<Rightarrow> nat \<Rightarrow> int res" where
  "fetch2 M i j = andThen (fetch M (int i)) (\<lambda>row. fetch row (int j))"

definition store2 :: "int list list \<Rightarrow> nat \<Rightarrow> nat \<Rightarrow> int \<Rightarrow> int list list res" where
  "store2 M i j v = andThen (fetch M (int i)) (\<lambda>row. andThen (store row (int j) v) (store M (int i)))"

type_synonym matrices = "int list list \<times> int list list \<times> int list list"

definition matmult_init :: "nat \<Rightarrow> matrices \<Rightarrow> matrices res" where
  "matmult_init Dim = (\<lambda>M. foldRes (\<lambda>M i. foldRes (\<lambda>(A, B, C) j.
     andThen (store2 A i j (int i)) (\<lambda>A. andThen (store2 B i j (int j)) (\<lambda>B.
     andThen (store2 C i j 0) (\<lambda>C. Inr (A, B, C))))) M [0..<Dim]) M [0..<Dim])"

definition matmult_add :: "int list list \<Rightarrow> int list list \<Rightarrow> nat \<Rightarrow> nat \<Rightarrow> int list list \<Rightarrow> nat \<Rightarrow> int list list res" where
  "matmult_add A B i j C k = andThen (fetch2 A i k) (\<lambda>a. andThen (fetch2 B k j) (\<lambda>b. andThen (fetch2 C i j) (\<lambda>c.
     store2 C i j (c + a * b))))"

definition matmult_loops :: "nat \<Rightarrow> int list list \<Rightarrow> int list list \<Rightarrow> int list list \<Rightarrow> int list list res" where
  "matmult_loops Dim A B C = foldRes (\<lambda>C i. foldRes (\<lambda>C j. foldRes (matmult_add A B i j) C [0..<Dim]) C [0..<Dim]) C [0..<Dim]"

text \<open>The argument of \<open>Exit\<close>, and the product.\<close>

definition matmult_main :: "nat \<Rightarrow> (int \<times> int list list) res" where
  "matmult_main Dim = (let zero = replicate Dim (replicate Dim 0) in
     andThen (matmult_init Dim (zero, zero, zero)) (\<lambda>(A, B, C). andThen (matmult_loops Dim A B C) (\<lambda>C.
     andThen (fetch2 C (Dim - 1) (Dim - 1)) (\<lambda>v. Inr (v, C)))))"

definition matrix :: "nat \<Rightarrow> (nat \<Rightarrow> nat \<Rightarrow> int) \<Rightarrow> int list list" where
  "matrix n f = map (\<lambda>i. map (f i) [0..<n]) [0..<n]"

lemma fetch2_matrix [simp]: "i < n \<Longrightarrow> j < n \<Longrightarrow> fetch2 (matrix n f) i j = Inr (f i j)"
  by (simp add: fetch2_def matrix_def)

lemma store2_matrix [simp]: "i < n \<Longrightarrow> j < n \<Longrightarrow> store2 (matrix n f) i j v = Inr (matrix n (f(i := (f i)(j := v))))"
proof -
  assume "i < n" "j < n"
  moreover have "(\<lambda>i. map (f i) [0..<n])(i := map ((f i)(j := v)) [0..<n]) = (\<lambda>k. map ((f(i := (f i)(j := v))) k) [0..<n])"
    by (auto simp: fun_eq_iff)
  ultimately show ?thesis by (simp add: store2_def matrix_def del: fun_upd_apply)
qed

text \<open>A nest of two loops over all elements.\<close>

lemma nested_loops:
  assumes step: "\<And>i j. i < n \<Longrightarrow> j < n \<Longrightarrow> bdy i (st i j) j = Inr (st i (Suc j))" and row: "\<And>i. i < n \<Longrightarrow> st i n = st (Suc i) 0"
  shows "foldRes (\<lambda>M i. foldRes (bdy i) M [0..<n]) (st 0 0) [0..<n] = Inr (st n 0)"
proof -
  have inner: "foldRes (bdy i) (st i 0) [0..<j] = Inr (st i j)" if "i < n" "j \<le> n" for i j
    using that(2) by (induction j) (simp_all add: foldRes_append step [OF that(1)])
  have "foldRes (\<lambda>M i. foldRes (bdy i) M [0..<n]) (st 0 0) [0..<i] = Inr (st i 0)" if "i \<le> n" for i
    using that by (induction i) (simp_all add: foldRes_append inner row)
  then show ?thesis by simp
qed

text \<open>\<open>done_before i j x y\<close>: the elements that the loops have dealt with when they come to \<open>(i, j)\<close>.\<close>

definition done_before :: "nat \<Rightarrow> nat \<Rightarrow> nat \<Rightarrow> nat \<Rightarrow> bool" where
  "done_before i j x y \<longleftrightarrow> x < i \<or> x = i \<and> y < j"

definition filled :: "nat \<Rightarrow> nat \<Rightarrow> (nat \<Rightarrow> nat \<Rightarrow> int) \<Rightarrow> (nat \<Rightarrow> nat \<Rightarrow> int) \<Rightarrow> nat \<Rightarrow> nat \<Rightarrow> int" where
  "filled i j f g x y = (if done_before i j x y then f x y else g x y)"

lemma filled_next: "(filled i j f g)(i := (filled i j f g i)(j := f i j)) = filled i (Suc j) f g"
  by (auto simp: filled_def done_before_def fun_eq_iff less_Suc_eq)

lemma filled_row: "matrix n (filled i n f g) = matrix n (filled (Suc i) 0 f g)"
  by (auto simp: matrix_def filled_def done_before_def less_Suc_eq)

lemma filled_all: "matrix n (filled n 0 f g) = matrix n f" "filled 0 0 f g = g"
  by (auto simp: matrix_def filled_def done_before_def fun_eq_iff)

lemma matmult_add_matrix:
  "i < n \<Longrightarrow> j < n \<Longrightarrow> k < n \<Longrightarrow> matmult_add (matrix n a) (matrix n b) i j (matrix n c) k =
   Inr (matrix n (c(i := (c i)(j := c i j + a i k * b k j))))"
  by (simp add: matmult_add_def del: fun_upd_apply)

lemma matmult_loops_product:
  "matmult_loops n (matrix n a) (matrix n b) (matrix n (\<lambda>i j. 0)) = Inr (matrix n (\<lambda>i j. \<Sum>k<n. a i k * b k j))"
proof -
  let ?p = "\<lambda>i j. \<Sum>k<n. a i k * b k j" and ?z = "\<lambda>i j :: nat. 0 :: int"
  have add: "foldRes (matmult_add (matrix n a) (matrix n b) i j) (matrix n (filled i j ?p ?z)) [0..<k] =
      Inr (matrix n ((filled i j ?p ?z)(i := (filled i j ?p ?z i)(j := \<Sum>k<k. a i k * b k j))))" if "i < n" "j < n" "k \<le> n" for i j k
    using that(3)
  proof (induction k)
    case 0
    have "filled i j ?p ?z i j = 0" by (simp add: filled_def done_before_def)
    then show ?case by (simp add: fun_upd_idem)
  next
    case (Suc k)
    then show ?case using that 
      by (simp add: foldRes_append matmult_add_matrix fun_upd_same del: fun_upd_apply)
  qed
  show ?thesis
    using nested_loops [of n "\<lambda>i C j. foldRes (matmult_add (matrix n a) (matrix n b) i j) C [0..<n]" "\<lambda>i j. matrix n (filled i j ?p ?z)"]
    by (simp add: matmult_loops_def add filled_next [of _ _ ?p ?z] filled_row filled_all)
qed

lemma matmult_init_ok:
  "matmult_init n (matrix n f, matrix n g, matrix n h) = Inr (matrix n (\<lambda>i j. int i), matrix n (\<lambda>i j. int j), matrix n (\<lambda>i j. 0))"
  using nested_loops [of n "\<lambda>i (A, B, C) j. andThen (store2 A i j (int i)) (\<lambda>A. andThen (store2 B i j (int j)) (\<lambda>B.
     andThen (store2 C i j 0) (\<lambda>C. Inr (A, B, C))))" "\<lambda>i j. (matrix n (filled i j (\<lambda>i j. int i) f),
       matrix n (filled i j (\<lambda>i j. int j) g), matrix n (filled i j (\<lambda>i j. 0) h))"]
    filled_next [of _ _ "\<lambda>i j. int i" f] filled_next [of _ _ "\<lambda>i j. int j" g] filled_next [of _ _ "\<lambda>i j. 0" h]
  by (simp add: matmult_init_def filled_row filled_all)

text \<open>The program multiplies the matrices; with 20 rows it exits with 7220.\<close>

lemma matmult_multiplies:
  assumes "0 < n"
  shows "matmult_main n = Inr (int n * (int n - 1) * (int n - 1), matrix n (\<lambda>i j. int n * int i * int j))"
proof -
  have z: "replicate n (replicate n 0) = matrix n (\<lambda>i j. 0)" by (simp add: matrix_def map_replicate_trivial)
  have "(\<Sum>k<n. int i * int j) = int n * int i * int j" for i j by simp
  then show ?thesis using assms
    by (simp add: matmult_main_def z matmult_init_ok matmult_loops_product of_nat_diff mult.assoc)
qed

subsection \<open>shell.c\<close>

text \<open>
  The shell as the sequence of its system calls. \<open>input\<close> is what will be typed; when it is used up, \<open>Read\<close> waits and
  the sequence ends there. \<open>pid\<close> gives the numbers that \<open>Exec\<close> returns, which may depend on what was called before.
\<close>

datatype shell_call = Writes "8 word list" | Execs "8 word list" | Joins int

definition shell_nl :: "8 word" where "shell_nl = 10"

text \<open>
  The inner loop: the position of the newline in the buffer and the input that is left, or \<open>None\<close> when the shell
  waits.
\<close>

fun shell_read :: "8 word list \<Rightarrow> nat \<Rightarrow> 8 word list \<Rightarrow> (8 word list \<times> nat \<times> 8 word list) option res" where
  "shell_read buffer i [] = Inr None"
| "shell_read buffer i (c # input) = andThen (store buffer (int i) c) (\<lambda>buffer.
     if c = shell_nl then Inr (Some (buffer, i, input)) else shell_read buffer (i + 1) input)"

lemma shell_read_shorter: "shell_read buffer i input = Inr (Some (b, k, input')) \<Longrightarrow> length input' < length input"
  by (induction buffer i input arbitrary: b k input' rule: shell_read.induct)
    (fastforce simp: andThen_def split: sum.splits if_splits)+

function shell_main :: "(shell_call list \<Rightarrow> int) \<Rightarrow> 8 word list \<Rightarrow> 8 word list \<Rightarrow> shell_call list \<Rightarrow> shell_call list res" where
  "shell_main pid buffer input made = (let made = made @ [Writes [45, 45]] in
     andThen (shell_read buffer 0 input) (\<lambda>r. case r of None \<Rightarrow> Inr made
     | Some (buffer, i, input') \<Rightarrow> andThen (store buffer (int i) 0) (\<lambda>buffer.
         if 0 < i then andThen (c_string buffer) (\<lambda>name. let made = made @ [Execs name] in
           shell_main pid buffer input' (made @ [Joins (pid made)]))
         else shell_main pid buffer input' made)))"
  by pat_completeness auto

termination
  by (relation "measure (\<lambda>(pid, buffer, input, made). length input)") (auto dest: shell_read_shorter)

declare shell_main.simps [simp del]

text \<open>One line that fits into the buffer.\<close>

definition typed :: "8 word list \<Rightarrow> bool" where
  "typed l \<longleftrightarrow> 0 \<notin> set l \<and> shell_nl \<notin> set l"

lemma shell_read_line:
  "shell_nl \<notin> set l \<Longrightarrow> i + length l < length buffer \<Longrightarrow> shell_read buffer i (l @ shell_nl # input) =
   Inr (Some (overwrite buffer i (l @ [shell_nl]), i + length l, input))"
proof (induction l arbitrary: buffer i)
  case Nil
  then show ?case by (simp add: overwrite_def upd_conv_take_nth_drop)
next
  case (Cons c l)
  have "overwrite (buffer[i := c]) (Suc i) (l @ [shell_nl]) = overwrite buffer i ((c # l) @ [shell_nl])"
    using Cons.prems by (simp add: overwrite_def take_Suc_conv_app_nth)
  moreover have "c \<noteq> shell_nl" using Cons.prems(1) by auto
  ultimately show ?case using Cons.IH [of "Suc i" "buffer[i := c]"] Cons.prems by simp
qed

lemma c_string_line: "0 \<notin> set l \<Longrightarrow> c_string (l @ 0 # xs) = Inr l"
  by (induction l) auto

text \<open>A line of \<open>n\<close> characters does not fit when there is no room for its newline.\<close>

lemma shell_read_long:
  "shell_nl \<notin> set l \<Longrightarrow> length buffer \<le> i + length l \<Longrightarrow> i \<le> length buffer \<Longrightarrow> l \<noteq> [] \<or> i = length buffer \<Longrightarrow>
   shell_read buffer i (l @ shell_nl # input) = Inl OutOfBounds"
proof (induction l arbitrary: buffer i)
  case Nil
  then show ?case by (simp add: store_def)
next
  case (Cons c l)
  show ?case
  proof (cases "i < length buffer")
    case True
    have "c \<noteq> shell_nl" using Cons.prems(1) by auto
    moreover have "l \<noteq> [] \<or> Suc i = length buffer" using Cons.prems(2) True by (cases l) auto
    ultimately show ?thesis using Cons.IH [of "buffer[i := c]" "Suc i"] Cons.prems True by simp
  next
    case False
    then show ?thesis using Cons.prems by (simp add: store_def)
  qed
qed

text \<open>What the shell is to do for the lines: a prompt for each, and a program unless the line is empty.\<close>

fun shell_calls :: "(shell_call list \<Rightarrow> int) \<Rightarrow> 8 word list list \<Rightarrow> shell_call list \<Rightarrow> shell_call list" where
  "shell_calls pid [] made = made @ [Writes [45, 45]]"
| "shell_calls pid (l # ls) made = (let made = made @ [Writes [45, 45]] in
     if l = [] then shell_calls pid ls made
     else let made = made @ [Execs l] in shell_calls pid ls (made @ [Joins (pid made)]))"

text \<open>
  The shell does for every sequence of lines of at most 59 characters what it is to do, however its buffer was left, and
  waits for more. A line of 60 or more characters is written past the end of the buffer.
\<close>

theorem shell_runs_lines:
  assumes "\<forall>l \<in> set ls. typed l \<and> length l < 60" and "length buffer = 60"
  shows "shell_main pid buffer (concat (map (\<lambda>l. l @ [shell_nl]) ls)) made = Inr (shell_calls pid ls made) \<and>
    (typed long \<longrightarrow> 60 \<le> length long \<longrightarrow>
      shell_main pid buffer (concat (map (\<lambda>l. l @ [shell_nl]) (ls @ [long]))) made = Inl OutOfBounds)"
  using assms
proof (induction ls arbitrary: buffer made)
  case Nil
  have "shell_main pid buffer (long @ [shell_nl]) made = Inl OutOfBounds" if "typed long" "60 \<le> length long"
  proof -
    have "long \<noteq> []" using that(2) by auto
    then show ?thesis
      using shell_read_long [of long buffer 0 "[]"] that Nil by (subst shell_main.simps) (simp add: typed_def Let_def)
  qed
  then show ?case by (simp add: shell_main.simps [of pid buffer "[]"])
next
  case (Cons l ls)
  let ?b = "overwrite buffer 0 (l @ [shell_nl])"
  define b where "b = ?b[length l := 0]"
  have l: "typed l" "length l < 60" using Cons.prems(1) by simp_all
  have b: "length b = 60" "b = l @ 0 # drop (Suc (length l)) buffer"
    using l Cons.prems(2) by (simp_all add: b_def overwrite_def list_update_append)
  have one: "shell_main pid buffer ((l @ [shell_nl]) @ input) made = (if l = [] then shell_main pid b input (made @ [Writes [45, 45]])
      else let m = made @ [Writes [45, 45]] @ [Execs l] in shell_main pid b input (m @ [Joins (pid m)]))" for input
    using shell_read_line [of l 0 buffer input] l Cons.prems(2) c_string_line [of l "drop (Suc (length l)) buffer"]
    by (subst shell_main.simps) (simp add: typed_def Let_def b_def [symmetric] b(2) [symmetric])
  have rest: "\<forall>l \<in> set ls. typed l \<and> length l < 60" using Cons.prems(1) by simp
  note ih = Cons.IH [OF rest b(1)]
  show ?case
    using ih [of "made @ [Writes [45, 45]]"] ih [of "made @ [Writes [45, 45], Execs l, Joins (pid (made @ [Writes [45, 45], Execs l]))]"]
      one [of "concat (map (\<lambda>l. l @ [shell_nl]) ls)"] one [of "concat (map (\<lambda>l. l @ [shell_nl]) (ls @ [long]))"]
    by (simp add: Let_def)
qed

end
