(* ===== verification/Spec2Isabelle.thy ===== *)
theory Spec2Isabelle
  imports Nachos_Prelude Nachos_List Nachos_Bitmap Nachos_Interrupt Nachos_Thread Nachos_Bytes
    Nachos_Machine Nachos_Mips Nachos_Arith Nachos_Exec Nachos_Fit Nachos_AddrSpace Nachos_Process Nachos_Syscall Nachos_Trap Nachos_ExecCall
    Nachos_Tasks Nachos_Dinner Nachos_BusyDinner Nachos_PostOffice Nachos_PostLoop Nachos_Input
    Nachos_Disk Nachos_OpenFile Nachos_FileAlloc Nachos_Directory Nachos_FileSys Nachos_FileTest Nachos_Console Nachos_Network Nachos_Start Nachos_Coff Nachos_Interp Nachos_Disasm
    Nachos_Marcus Nachos_Stack Nachos_Flat Nachos_Sim Nachos_Programs
begin
text \<open>
  Nachos 3.4 with the additions of a course project: an operating system kernel in C++ that runs as one process of a host,
  together with the simulation of the machine under it (processor, memory, interrupts, timer, disk, console, network). This development
  models the code of \<open>Nachos/nachos-3.4/code\<close>: names of files below are relative to that directory, and a definition has the name of
  the function, method or type it translates, with a prefix where C++ has a class and Isabelle needs a different name
  (\<open>PCB_Append\<close> is \<open>ProcessList::Append\<close>, \<open>FS_Create\<close> is \<open>FileSystem::Create\<close>).

  How the code is represented.

  An operation is a function from a state to \<open>failure + result\<close> (\<open>res\<close>, theory \<open>Nachos_Prelude\<close>). The ways to fail are those of the program:
  a false \<open>ASSERT\<close>, an access outside an array or an integer overflow that C++ leaves undefined (\<open>OutOfBounds\<close>), a null pointer, a trap of the host
  (division), a loop that used up its fuel (\<open>Diverges\<close>), and the regular end (\<open>Halted\<close>). \<open>andThen\<close> is the semicolon.
  An \<open>int\<close> whose width matters is a \<open>32 word\<close>, read with \<open>sint\<close> or \<open>uint\<close> as the code reads it; counters that cannot reach
  the limit of their type are \<open>int\<close> or \<open>nat\<close>. A \<open>char\<close> in a buffer is an \<open>8 word\<close>. Objects that are reached by pointers live
  in stores of the state and are addressed by numbers; a null pointer is \<open>None\<close>. Memory that C++ does not initialise is an argument
  (\<open>junk\<close>, \<open>mem\<close>), so what is proved holds whatever it contains.
  The state of the kernel is one record that grows along the layers of the code: \<open>IntState\<close> (interrupts, time), \<open>ThreadState\<close> (threads,
  scheduler, semaphores), \<open>MachineState\<close> (registers, memory, translation), \<open>KernelState\<close> (frames, address spaces), \<open>ProcessState\<close> (process
  list, host files). Each layer's operations work on every extension of its record. The devices extend \<open>IntState\<close> in the same way.
  What a layer calls in a later file, or by a pointer, is an argument: interrupt handlers, the exception handler, \<open>machine->Run\<close>.

  The parts.

  Data structures: \<open>Nachos_List\<close> (threads/list.cc: pointers, and refinement to lists with keys), \<open>Nachos_Bitmap\<close> (userprog/bitmap.cc),
  \<open>Nachos_Bytes\<close> (how the host lays out integers; the byte order functions of machine/translate.cc).

  Machine and devices: \<open>Nachos_Interrupt\<close> (machine/interrupt.cc, timer.cc, stats.cc: pending interrupts, ticks, idling; every due
  interrupt is served), \<open>Nachos_Machine\<close> (machine.cc, translate.cc: registers, memory, page table and TLB), \<open>Nachos_Mips\<close>, \<open>Nachos_Exec\<close>,
  \<open>Nachos_Arith\<close> (mipssim.cc: decoding, every instruction, the loop \<open>Run\<close>; what multiplication, addition with overflow and
  division compute), \<open>Nachos_Disk\<close> (machine/disk.cc, filesys/synchdisk.cc), \<open>Nachos_Console\<close> (machine/console.cc and the test of it in
  userprog/progtest.cc), \<open>Nachos_Network\<close> (machine/network.cc, network/post.cc, network/nettest.cc, threads/synchlist.cc).

  Threads: \<open>Nachos_Thread\<close> (threads/thread.cc, scheduler.cc, synch.cc). A routine that switches threads is its two halves, before and
  after \<open>SWITCH\<close>. The step relation \<open>kstep\<close> has one rule per operation that a thread or a device can perform; \<open>kreach\<close> are the states that
  the initialised kernel reaches by any sequence of them. Its invariant (ready list, waiting queues, statuses, semaphore values) and
  the laws of semaphores are proved by rule induction.

  User programs: \<open>Nachos_Fit\<close> and \<open>Nachos_AddrSpace\<close> (userprog/addrspace.cc: first, best and worst fit; loading; isolation of address
  spaces), \<open>Nachos_Process\<close>, \<open>Nachos_Syscall\<close>, \<open>Nachos_Trap\<close>, \<open>Nachos_ExecCall\<close> (userprog/exception.cc: the list of processes, all system
  calls, what they keep, and what \<open>Exec\<close> does), \<open>Nachos_Start\<close> (threads/main.cc, system.cc, userprog/progtest.cc: the command line, setting up,
  the first process). What the rest of the system does while a thread is switched out is the argument \<open>others\<close>.

  Simulations of the course project in threads/threadtest.cc: \<open>Nachos_Tasks\<close> (blocks of code between points where a thread can lose the
  processor, interleaved in any order), \<open>Nachos_Dinner\<close>, \<open>Nachos_BusyDinner\<close>, \<open>Nachos_PostOffice\<close>, \<open>Nachos_PostLoop\<close>, \<open>Nachos_Input\<close> (typed
  numbers, choice of a task, shouters). The disk, console and network are used through the same interleavings.

  File system: \<open>Nachos_OpenFile\<close> (filesys/filehdr.cc, openfile.cc), \<open>Nachos_FileAlloc\<close> (allocation, the map on disk), \<open>Nachos_Directory\<close>
  (directory.cc), \<open>Nachos_FileSys\<close> (filesys.cc), \<open>Nachos_FileTest\<close> (fstest.cc). Above \<open>SynchDisk\<close> the disk is an array of sectors, which the
  requests to the simulated disk implement. Each layer has its abstraction: an open file is a sequence of bytes, a directory a map from
  names to sectors, the file system a map from names to byte sequences; the layers are proved to refine it.

  Tools for user programs: \<open>Nachos_Coff\<close> (bin/coff2noff.c), whose output is what \<open>Nachos_AddrSpace\<close> loads; \<open>Nachos_Flat\<close> (bin/coff2flat.c);
  \<open>Nachos_Interp\<close>
  (bin/execute.c, int.h, instr.h, encode.h: a second interpreter of MIPS programs, compared with the processor of the kernel); \<open>Nachos_Sim\<close> (bin/main.c, system.c: its loading and system calls);
  \<open>Nachos_Disasm\<close> (bin/d.c, opstrings.c, disasm.c, and the tables that machine/mipssim.cc prints instructions with).

  Besides the kernel: \<open>Nachos_Programs\<close> (test/sort.c, matmult.c, shell.c: three programs that run on it), \<open>Nachos_Marcus\<close> (userprog/addrspace_marcus.cc: another version of the three searches for frames, which does not
  find them), \<open>Nachos_Stack\<close> (the stacks, lists and tests of the tutorial in Nachos/nachos-3.4/c++example).

  Interfaces are locales, each interpreted on the model of the code that provides it: \<open>keyed_list\<close> (by the pointer lists and by plain
  lists), \<open>slot_map\<close> (bit maps), \<open>interrupt_env\<close> and \<open>interrupt_keeps\<close> (interrupt handlers), \<open>thread_env\<close> and \<open>quiet_thread_env\<close> (what surrounds the
  thread system), \<open>kernel_traps\<close> (the exception handler, as running user programs relies on it), \<open>fit_policy\<close> (the three searches for frames),
  \<open>pid_table\<close> (the process list), \<open>name_table\<close> (directories), \<open>stack_class\<close> (the abstract
  class of stacks, by an array and by a linked list) and \<open>task_invariant\<close> (every simulation and device that interleaves).

  What the groups of lemmas show.

  Invariants that every operation keeps: the consistency of the thread system, the well-formedness of the machine under any user program with
  system calls, faults and interrupts, the isolation of address spaces, the order of the file system on disk, the safety of
  the simulations and devices in every interleaving. Functional behaviour on every branch: translation of addresses, memory
  access, scheduling order, semaphores, \<open>Exec\<close>, allocation of frames and sectors, parsing of typed numbers and of the command line. Refinement
  of lists, process list, directory and files to sequences and maps. Round trips: memory, sectors, headers, mail, copying a
  file. And where the code goes wrong, the exact conditions: these are stated as theorems and listed with the findings of the project.

  Bounds and fuel. The list of pending interrupts bounds the loop that serves them, because a handler only schedules later ones; with the
  fuel given the loop is proved to end. The number of nodes bounds the search of the process list. Loops of the code that need not end have fuel
  \<open>n\<close> or \<open>k\<close> as an argument: nested yields, waiting in \<open>P\<close>, \<open>Write\<close> to an unreadable address, the processor's loop, the searches of
  \<open>Nachos_Marcus\<close>, the tests of \<open>Nachos_Stack\<close>; theorems about results
  state how much is enough (one unit, when nothing is pending) or, for divergence, hold for every amount.

  What is not modelled. The routines of machine/sysdep.cc are calls of the host; their results are inputs. The context switch in assembler is
  represented by its effect. Printing and the debugger of the machine (\<open>Print\<close>, \<open>DumpState\<close>, \<open>Debugger\<close>, messages) are left out, as are
  destructors that only free memory. Floating-point numbers occur only in the reliability of the network, which is a predicate. Of bin,
  out.c and the loading of files in disasm.c read the structures of a library for object files of a MIPS host that is
  not in the repository; for main.c and system.c what that library and the host answer is an argument. The constructor of addrspace_marcus.cc, exception_orig.cc and threads/system2.cc are versions that no
  Makefile compiles, and the copy of threadtest.cc among the documents is the file that is modelled. The other test programs only count or
  make a few system calls.
\<close>
end
